(* ===== verification/Prelude.thy ===== *)
theory Prelude
  imports Main "HOL-Library.Word"
begin

text \<open>
  Shared vocabulary of the development: the machine-integer types of the C++ code, fixed
  arrays of 32 bytes (\<^verbatim>\<open>std::array<uint8_t, 32>\<close>), byte strings read as little- and
  big-endian numbers, errors as values (\<^verbatim>\<open>std::expected\<close>), and the collections the
  component theories extend (\<open>ser_simps\<close>, \<open>bytes_simps\<close>, \<open>verdict_simps\<close>).
  \<^verbatim>\<open>uint8_t\<close>, \<^verbatim>\<open>uint16_t\<close>, \<^verbatim>\<open>uint32_t\<close> and \<^verbatim>\<open>uint64_t\<close> are words of their width;
  \<^verbatim>\<open>int64_t\<close> is an \<^typ>\<open>int\<close> whose range and wrap-around are written out
  (\<open>i64_ok\<close>, \<open>i64_wrap\<close>); \<^verbatim>\<open>size_t\<close> is a \<^typ>\<open>nat\<close>, because every size here is the
  length of an object that exists in memory.
\<close>

named_theorems ser_simps \<open>what each Serialize appends, and how long it is\<close>
named_theorems bytes_simps \<open>byte strings as numbers\<close>
named_theorems verdict_simps \<open>unfolding of verdicts and of their sequencing\<close>

type_synonym u8 = "8 word"
type_synonym u16 = "16 word"
type_synonym u32 = "32 word"
type_synonym u64 = "64 word"
type_synonym i64 = int
type_synonym byte_vec = "u8 list"

section \<open>Signed 64-bit integers\<close>

abbreviation INT64_MIN :: int where "INT64_MIN \<equiv> - 9223372036854775808"
abbreviation INT64_MAX :: int where "INT64_MAX \<equiv> 9223372036854775807"

definition i64_ok :: "int \<Rightarrow> bool" where
  "i64_ok x \<longleftrightarrow> INT64_MIN \<le> x \<and> x \<le> INT64_MAX"

text \<open>Two's complement wrap-around, which \<^verbatim>\<open>-fwrapv\<close> makes the meaning of signed overflow.\<close>

definition i64_wrap :: "int \<Rightarrow> int" where
  "i64_wrap x = sint (word_of_int x :: u64)"

text \<open>C++ integer division truncates towards zero.\<close>

definition trunc_div :: "int \<Rightarrow> int \<Rightarrow> int" where
  "trunc_div num den = (\<bar>num\<bar> div \<bar>den\<bar>) * (sgn den * sgn num)"

lemma i64_wrap_id [simp]: "i64_ok x \<Longrightarrow> i64_wrap x = x"
  by (simp add: i64_wrap_def i64_ok_def sint_sbintrunc' signed_take_bit_int_eq_self)

lemma i64_ok_sint [simp]: "i64_ok (sint (w :: u64))"
  using sint_greater_eq [of w] sint_less [of w] by (simp add: i64_ok_def)

lemma i64_ok_wrap [simp]: "i64_ok (i64_wrap x)"
  by (simp add: i64_wrap_def)

lemma trunc_div_nonneg: "0 \<le> a \<Longrightarrow> 0 < b \<Longrightarrow> trunc_div a b = a div b"
  by (cases "a = 0") (simp_all add: trunc_div_def)

section \<open>Byte strings as numbers\<close>

fun le_bytes :: "nat \<Rightarrow> nat \<Rightarrow> byte_vec" where
  "le_bytes 0 n = []"
| "le_bytes (Suc k) n = of_nat (n mod 256) # le_bytes k (n div 256)"

fun le_val :: "byte_vec \<Rightarrow> nat" where
  "le_val [] = 0"
| "le_val (b # bs) = unat b + 256 * le_val bs"

fun be_val :: "byte_vec \<Rightarrow> nat" where
  "be_val [] = 0"
| "be_val (b # bs) = unat b * 256 ^ length bs + be_val bs"

lemma unat_byte_less [simp]: "unat (b :: u8) < 256"
proof -
  have "unat b < 2 ^ LENGTH(8)" by (rule unsigned_less)
  then show ?thesis by simp
qed

lemma unat_of_nat_byte [simp]: "unat (of_nat n :: u8) = n mod 256"
  by (simp add: unat_of_nat)

lemma length_le_bytes [simp]: "length (le_bytes k n) = k"
  by (induction k arbitrary: n) auto

lemma le_val_le_bytes [bytes_simps]: "le_val (le_bytes k n) = n mod 256 ^ k"
proof (induction k arbitrary: n)
  case 0
  show ?case by simp
next
  case (Suc k)
  have "n mod 256 ^ Suc k = 256 * (n div 256 mod 256 ^ k) + n mod 256"
    using mod_mult2_eq [of n 256 "256 ^ k"] by (simp add: mult.commute)
  with Suc show ?case by simp
qed

lemma le_val_less: "le_val bs < 256 ^ length bs"
proof (induction bs)
  case Nil
  show ?case by simp
next
  case (Cons b bs)
  then have "256 * Suc (le_val bs) \<le> 256 * 256 ^ length bs"
    by (intro mult_le_mono2) simp
  moreover have "unat b < 256" by simp
  ultimately show ?case by (simp del: unat_byte_less)
qed

lemma le_bytes_le_val [bytes_simps]: "le_bytes (length bs) (le_val bs) = bs"
proof (induction bs)
  case Nil
  show ?case by simp
next
  case (Cons b bs)
  have b: "(unat b + 256 * le_val bs) mod 256 = unat b"
    and q: "(unat b + 256 * le_val bs) div 256 = le_val bs"
    using unat_byte_less [of b] by simp_all
  show ?case using Cons by (simp add: b q)
qed

lemma le_val_append: "le_val (xs @ ys) = le_val xs + 256 ^ length xs * le_val ys"
  by (induction xs) (simp_all add: algebra_simps)

lemma be_val_append: "be_val (xs @ ys) = be_val xs * 256 ^ length ys + be_val ys"
  by (induction xs) (simp_all add: algebra_simps power_add)

lemma be_val_rev: "be_val (rev bs) = le_val bs"
  by (induction bs) (simp_all add: be_val_append)

lemma be_val_less: "be_val bs < 256 ^ length bs"
  using le_val_less [of "rev bs"] be_val_rev [of "rev bs"] by simp

lemma be_val_zeros [simp]: "be_val (replicate n 0) = 0"
  by (induction n) auto

lemma be_val_eq_0_iff: "be_val bs = 0 \<longleftrightarrow> (\<forall>b \<in> set bs. b = 0)"
  by (induction bs) (auto simp: unat_eq_zero)

lemma be_val_inject: "length xs = length ys \<Longrightarrow> be_val xs = be_val ys \<longleftrightarrow> xs = ys"
  using le_bytes_le_val [of "rev xs"] le_bytes_le_val [of "rev ys"]
  by (metis be_val_rev length_rev rev_rev_ident)

lemma be_val_Cons_less:
  assumes "length xs = length ys" and "unat x < unat y"
  shows "be_val (x # xs) < be_val (y # ys)"
proof -
  have "be_val (x # xs) < Suc (unat x) * 256 ^ length xs"
    using be_val_less [of xs] by simp
  also have "\<dots> \<le> unat y * 256 ^ length ys"
    using assms by (intro mult_le_mono) auto
  finally show ?thesis by simp
qed

text \<open>\<^verbatim>\<open>std::lexicographical_compare\<close>, the order of \<^verbatim>\<open>std::array\<close> and \<^verbatim>\<open>std::vector\<close>.\<close>

fun lex_less :: "byte_vec \<Rightarrow> byte_vec \<Rightarrow> bool" where
  "lex_less xs [] = False"
| "lex_less [] (y # ys) = True"
| "lex_less (x # xs) (y # ys) = (if x < y then True else if y < x then False else lex_less xs ys)"

lemma lex_less_be_val: "length xs = length ys \<Longrightarrow> lex_less xs ys \<longleftrightarrow> be_val xs < be_val ys"
proof (induction xs ys rule: list_induct2)
  case Nil
  show ?case by simp
next
  case (Cons x xs y ys)
  consider "x < y" | "y < x" | "x = y" by fastforce
  then show ?case
  proof cases
    case 1
    with be_val_Cons_less [OF Cons.hyps, of x y] show ?thesis by (simp add: word_less_nat_alt)
  next
    case 2
    with be_val_Cons_less [OF Cons.hyps [symmetric], of y x] show ?thesis
      by (auto simp: word_less_nat_alt)
  next
    case 3
    with Cons show ?thesis by simp
  qed
qed

lemma lex_less_irrefl [simp]: "\<not> lex_less xs xs"
  by (induction xs) auto

lemma lex_less_trans: "lex_less xs ys \<Longrightarrow> lex_less ys zs \<Longrightarrow> lex_less xs zs"
proof (induction xs zs arbitrary: ys rule: lex_less.induct)
  case (1 xs)
  then show ?case by simp
next
  case (2 z zs)
  then show ?case by (cases ys) auto
next
  case (3 x xs z zs)
  then show ?case by (cases ys) (auto split: if_splits)
qed

lemma lex_less_total: "xs \<noteq> ys \<Longrightarrow> lex_less xs ys \<or> lex_less ys xs"
  by (induction xs ys rule: lex_less.induct) (auto simp: neq_Nil_conv)

section \<open>Arrays of 32 bytes\<close>

typedef arr32 = "{bs :: byte_vec. length bs = 32}"
  morphisms arr_list Abs_arr32
  by (rule exI [of _ "replicate 32 0"]) simp

text \<open>The array holding the first 32 bytes of a list, zero-filled as C++ value-initialises it.\<close>

definition arr_of :: "byte_vec \<Rightarrow> arr32" where
  "arr_of bs = Abs_arr32 (take 32 (bs @ replicate 32 0))"

lemma arr32_abstype [code abstype]: "Abs_arr32 (arr_list a) = a"
  by (rule arr_list_inverse)

lemma arr_of_rep [code abstract]: "arr_list (arr_of bs) = take 32 (bs @ replicate 32 0)"
  by (simp add: arr_of_def Abs_arr32_inverse)

lemma length_arr_list [simp]: "length (arr_list a) = 32"
  using arr_list [of a] by simp

lemma arr_list_arr_of [simp]: "length bs = 32 \<Longrightarrow> arr_list (arr_of bs) = bs"
  by (simp add: arr_of_rep)

lemma arr_of_arr_list [simp]: "arr_of (arr_list a) = a"
  by (metis arr_list_arr_of arr_list_inject length_arr_list)

lemma arr_list_eq_iff: "a = b \<longleftrightarrow> arr_list a = arr_list b"
  by (simp add: arr_list_inject)

abbreviation zero32 :: arr32 where "zero32 \<equiv> arr_of []"

lemma arr_list_zero32 [simp]: "arr_list zero32 = replicate 32 0"
  by (simp add: arr_of_rep)

instantiation arr32 :: equal
begin

definition "equal_arr32 a b \<longleftrightarrow> arr_list a = arr_list b"

instance
  by standard (simp add: equal_arr32_def arr_list_eq_iff)

end

instantiation arr32 :: linorder
begin

definition less_arr32 :: "arr32 \<Rightarrow> arr32 \<Rightarrow> bool" where
  "less_arr32 a b \<longleftrightarrow> lex_less (arr_list a) (arr_list b)"

definition less_eq_arr32 :: "arr32 \<Rightarrow> arr32 \<Rightarrow> bool" where
  "less_eq_arr32 a b \<longleftrightarrow> \<not> lex_less (arr_list b) (arr_list a)"

instance
  by standard
    (auto simp: less_arr32_def less_eq_arr32_def lex_less_be_val arr_list_eq_iff be_val_inject)

end

definition arr_val :: "arr32 \<Rightarrow> nat" where
  "arr_val a = be_val (arr_list a)"

lemma arr_less_iff [bytes_simps]: "a < b \<longleftrightarrow> arr_val a < arr_val b"
  by (simp add: less_arr32_def arr_val_def lex_less_be_val)

lemma arr_le_iff [bytes_simps]: "a \<le> b \<longleftrightarrow> arr_val a \<le> arr_val b"
  by (simp add: less_eq_arr32_def arr_val_def lex_less_be_val not_less)

lemma arr_val_inject: "arr_val a = arr_val b \<longleftrightarrow> a = b"
  by (simp add: arr_val_def be_val_inject arr_list_eq_iff)

lemma arr_val_less: "arr_val a < 2 ^ 256"
  using be_val_less [of "arr_list a"] by (simp add: arr_val_def)

lemma arr_val_arr_of: "length bs = 32 \<Longrightarrow> arr_val (arr_of bs) = be_val bs"
  by (simp add: arr_val_def)

section \<open>Errors as values\<close>

text \<open>
  \<^verbatim>\<open>std::expected<T, E>\<close> is a sum with the error on the left, and
  \<^verbatim>\<open>std::expected<void, E>\<close> is a sum over \<^typ>\<open>unit\<close>. \<open>try_then\<close> is the shape
  "return the error, or go on with the value".
\<close>

abbreviation Accept :: "'e + unit" where "Accept \<equiv> Inr ()"
abbreviation Reject :: "'e \<Rightarrow> 'e + 'a" where "Reject \<equiv> Inl"

definition try_then :: "'e + 'a \<Rightarrow> ('a \<Rightarrow> 'e + 'b) \<Rightarrow> 'e + 'b" where
  "try_then m k = (case m of Inl e \<Rightarrow> Inl e | Inr x \<Rightarrow> k x)"

lemma try_then_simps [simp, verdict_simps]:
  "try_then (Inl e) k = Inl e"
  "try_then (Inr x) k = k x"
  by (simp_all add: try_then_def)

lemma try_then_Inr [verdict_simps]: "try_then m k = Inr y \<longleftrightarrow> (\<exists>x. m = Inr x \<and> k x = Inr y)"
  by (cases m) simp_all

lemma if_Inr [verdict_simps]: "(if b then Inl e else m) = Inr y \<longleftrightarrow> \<not> b \<and> m = Inr y"
  by simp

text \<open>A loop that returns the first rejection.\<close>

fun check_all :: "('a \<Rightarrow> 'e + unit) \<Rightarrow> 'a list \<Rightarrow> 'e + unit" where
  "check_all f [] = Accept"
| "check_all f (x # xs) = try_then (f x) (\<lambda>_. check_all f xs)"

lemma check_all_Inr [verdict_simps]: "check_all f xs = Inr u \<longleftrightarrow> (\<forall>x \<in> set xs. f x = Inr ())"
  by (induction xs) (auto simp: try_then_Inr)

section \<open>Lists\<close>

lemma sum_list_nonneg_mem:
  fixes f :: "'a \<Rightarrow> int"
  shows "(\<And>x. x \<in> set xs \<Longrightarrow> 0 \<le> f x) \<Longrightarrow> y \<in> set xs \<Longrightarrow> f y \<le> sum_list (map f xs)"
proof (induction xs)
  case Nil
  then show ?case by simp
next
  case (Cons x xs)
  have "0 \<le> f x" and "0 \<le> sum_list (map f xs)"
    using Cons.prems(1) by (auto intro!: sum_list_nonneg)
  with Cons show ?case by fastforce
qed

end
