(* ===== verification/Hexcodec.thy ===== *)
theory Hexcodec
  imports Prelude
begin

text \<open>
  The strict hex codec (\<^verbatim>\<open>src/util/hex.cpp\<close>), the 256-bit value type
  (\<^verbatim>\<open>include/amarian/util/types.hpp\<close>, \<^verbatim>\<open>src/util/types.cpp\<close>) and its two textual orders.
\<close>

unbundle bit_operations_syntax

section \<open>Hash256\<close>

datatype hash256 = Hash256 (hash_data: arr32)

definition Hash256_Span :: "hash256 \<Rightarrow> byte_vec" where
  "Hash256_Span h = arr_list (hash_data h)"

text \<open>The default constructor value-initialises the bytes.\<close>

definition Hash256_zero :: hash256 where
  "Hash256_zero = Hash256 zero32"

definition IsZero :: "hash256 \<Rightarrow> bool" where
  "IsZero h \<longleftrightarrow> list_all (\<lambda>b. b = 0) (Hash256_Span h)"

text \<open>Hashes are ordered as their bytes are.\<close>

instantiation hash256 :: linorder
begin

definition less_hash256 :: "hash256 \<Rightarrow> hash256 \<Rightarrow> bool" where
  "less_hash256 a b \<longleftrightarrow> hash_data a < hash_data b"

definition less_eq_hash256 :: "hash256 \<Rightarrow> hash256 \<Rightarrow> bool" where
  "less_eq_hash256 a b \<longleftrightarrow> hash_data a \<le> hash_data b"

instance
  by standard (auto simp: less_hash256_def less_eq_hash256_def intro: hash256.expand)

end

text \<open>\<^verbatim>\<open>FromBytes\<close> throws unless it is given exactly 32 bytes; None is the exception.\<close>

definition FromBytes :: "byte_vec \<Rightarrow> hash256 option" where
  "FromBytes bytes = (if length bytes \<noteq> 32 then None else Some (Hash256 (arr_of bytes)))"

fun ConstantTimeEqual_acc :: "u8 \<Rightarrow> byte_vec \<Rightarrow> byte_vec \<Rightarrow> u8" where
  "ConstantTimeEqual_acc acc (a # as) (b # bs) = ConstantTimeEqual_acc (acc OR (a XOR b)) as bs"
| "ConstantTimeEqual_acc acc _ _ = acc"

definition ConstantTimeEqual :: "byte_vec \<Rightarrow> byte_vec \<Rightarrow> bool" where
  "ConstantTimeEqual a b =
     (if length a \<noteq> length b then False else ConstantTimeEqual_acc 0 a b = 0)"

section \<open>Hex\<close>

definition HEX_DIGITS :: string where
  "HEX_DIGITS = ''0123456789abcdef''"

text \<open>The numeric value of a digit, or minus one.\<close>

definition HexVal :: "char \<Rightarrow> int" where
  "HexVal c =
     (let n = int (of_char c) in
      if 48 \<le> n \<and> n \<le> 57 then n - 48
      else if 97 \<le> n \<and> n \<le> 102 then n - 97 + 10
      else if 65 \<le> n \<and> n \<le> 70 then n - 65 + 10
      else - 1)"

fun ToHex :: "byte_vec \<Rightarrow> string" where
  "ToHex [] = []"
| "ToHex (byte # bytes) =
     HEX_DIGITS ! unat (drop_bit 4 byte) # HEX_DIGITS ! unat (byte AND 0x0F) # ToHex bytes"

text \<open>The loop over pairs of digits; an odd length is refused before it starts.\<close>

fun FromHex_loop :: "string \<Rightarrow> byte_vec option" where
  "FromHex_loop (a # b # rest) =
     (let hi = HexVal a; lo = HexVal b in
      if hi < 0 \<or> lo < 0 then None
      else map_option ((#) (word_of_int (push_bit 4 hi OR lo))) (FromHex_loop rest))"
| "FromHex_loop _ = Some []"

definition FromHex :: "string \<Rightarrow> byte_vec option" where
  "FromHex hex = (if length hex mod 2 \<noteq> 0 then None else FromHex_loop hex)"

definition FromHexExact :: "string \<Rightarrow> nat \<Rightarrow> byte_vec option" where
  "FromHexExact hex expected_len = (if length hex \<noteq> expected_len * 2 then None else FromHex hex)"

definition Hash256FromHexInternal :: "string \<Rightarrow> hash256 option" where
  "Hash256FromHexInternal hex = Option.bind (FromHexExact hex 32) FromBytes"

definition Hash256FromHex :: "string \<Rightarrow> hash256 option" where
  "Hash256FromHex hex = Option.bind (FromHexExact hex 32) (\<lambda>bytes. FromBytes (rev bytes))"

definition ToHexInternal :: "hash256 \<Rightarrow> string" where
  "ToHexInternal h = ToHex (Hash256_Span h)"

definition Hash256_ToHex :: "hash256 \<Rightarrow> string" where
  "Hash256_ToHex h = ToHex (rev (Hash256_Span h))"

section \<open>Correctness\<close>

lemma length_Hash256_Span [simp]: "length (Hash256_Span h) = 32"
  by (simp add: Hash256_Span_def)

lemma FromBytes_Span [simp]: "FromBytes (Hash256_Span h) = Some h"
  by (cases h) (simp add: FromBytes_def Hash256_Span_def)

lemma Span_FromBytes: "FromBytes bs = Some h \<longleftrightarrow> bs = Hash256_Span h"
  by (cases h) (auto simp: FromBytes_def Hash256_Span_def)

lemma IsZero_iff: "IsZero h \<longleftrightarrow> h = Hash256_zero"
proof -
  have "list_all (\<lambda>b. b = 0) bs \<longleftrightarrow> bs = replicate 32 0" if "length bs = 32" for bs :: byte_vec
    using that by (auto simp: list_all_iff intro: replicate_eqI)
  then show ?thesis
    by (cases h) (simp add: IsZero_def Hash256_zero_def Hash256_Span_def arr_list_eq_iff)
qed

lemma ConstantTimeEqual_acc_zero:
  "length a = length b \<Longrightarrow> ConstantTimeEqual_acc acc a b = 0 \<longleftrightarrow> acc = 0 \<and> a = b"
proof (induction acc a b rule: ConstantTimeEqual_acc.induct)
  case (1 acc a as b bs)
  have ab: "a XOR b = 0 \<longleftrightarrow> a = b"
  proof
    assume "a XOR b = 0"
    then have "(a XOR b) XOR b = 0 XOR b" by (simp only:)
    then show "a = b" by (simp only: xor.assoc xor_self_eq xor.right_neutral xor.left_neutral)
  qed simp
  have "acc OR (a XOR b) = 0 \<longleftrightarrow> acc = 0 \<and> a = b"
    by (simp only: or_eq_0_iff ab)
  with 1 show ?case by (simp only: ConstantTimeEqual_acc.simps list.inject list.size) blast
qed auto

lemma ConstantTimeEqual_iff: "ConstantTimeEqual a b \<longleftrightarrow> a = b"
  by (auto simp: ConstantTimeEqual_def ConstantTimeEqual_acc_zero)

lemma HexVal_digit: "n < 16 \<Longrightarrow> HexVal (HEX_DIGITS ! n) = int n"
proof -
  have "list_all (\<lambda>n. HexVal (HEX_DIGITS ! n) = int n) [0..<16]"
    by (simp add: upt_rec HEX_DIGITS_def HexVal_def)
  then show "n < 16 \<Longrightarrow> HexVal (HEX_DIGITS ! n) = int n"
    by (simp add: list_all_iff)
qed

lemma nibbles_less: "unat (drop_bit 4 (b :: u8)) < 16" "unat ((b :: u8) AND 15) < 16"
proof -
  have "unat (drop_bit 4 b) = unat b div 16"
    unfolding unsigned_drop_bit_eq by (simp add: drop_bit_eq_div take_bit_eq_mod)
  moreover have "unat b < 256" by (rule unat_byte_less)
  ultimately show "unat (drop_bit 4 b) < 16" by (simp only:)
  have "b AND 15 = take_bit 4 b" by (simp add: take_bit_eq_mask mask_eq_exp_minus_1)
  then have "unat (b AND 15) = take_bit 4 (unat b)"
    by (simp only: unsigned_take_bit_eq)
  then show "unat (b AND 15) < 16"
    by (simp add: take_bit_eq_mod)
qed

lemma nibbles_join: "word_of_int (push_bit 4 (uint (drop_bit 4 (b :: u8))) OR uint (b AND 15)) = b"
proof (rule bit_word_eqI)
  fix n assume n: "n < LENGTH(8)"
  have "b AND 15 = take_bit 4 b" by (simp add: take_bit_eq_mask mask_eq_exp_minus_1)
  with n show "bit (word_of_int (push_bit 4 (uint (drop_bit 4 b)) OR uint (b AND 15)) :: u8) n = bit b n"
    by (auto simp add: bit_word_of_int_iff bit_or_iff bit_push_bit_iff bit_uint_iff bit_drop_bit_eq bit_take_bit_iff)
qed

lemma FromHex_loop_ToHex: "FromHex_loop (ToHex bs) = Some bs"
  by (induction bs) (simp_all add: HexVal_digit nibbles_less nibbles_join)

lemma length_ToHex [simp]: "length (ToHex bs) = 2 * length bs"
  by (induction bs) auto

lemma FromHex_ToHex: "FromHex (ToHex bs) = Some bs"
  by (simp add: FromHex_def FromHex_loop_ToHex)

lemma FromHex_loop_defined:
  "even (length s) \<Longrightarrow> FromHex_loop s \<noteq> None \<longleftrightarrow> (\<forall>c \<in> set s. 0 \<le> HexVal c)"
  by (induction s rule: FromHex_loop.induct) (auto simp: Let_def not_less)

lemma FromHex_defined: "FromHex s \<noteq> None \<longleftrightarrow> even (length s) \<and> (\<forall>c \<in> set s. 0 \<le> HexVal c)"
proof (cases "even (length s)")
  case True
  with FromHex_loop_defined [OF True] show ?thesis
    by (simp only: FromHex_def even_iff_mod_2_eq_zero if_False not_True_eq_False HOL.simp_thms)
next
  case False
  then show ?thesis by (simp add: FromHex_def even_iff_mod_2_eq_zero)
qed

lemma hash_hex_roundtrip: "Hash256FromHex (Hash256_ToHex h) = Some h"
    "Hash256FromHexInternal (ToHexInternal h) = Some h"
  by (simp_all add: Hash256FromHex_def Hash256_ToHex_def Hash256FromHexInternal_def
      ToHexInternal_def FromHexExact_def FromHex_ToHex)

section \<open>Properties\<close>

text \<open>
  Hex is a strict codec: printing and parsing gives the bytes back, for byte strings
  and for hashes in both byte orders, and a string parses exactly when its length is even and
  each of its characters is a hex digit.
\<close>

definition all_digits :: "string \<Rightarrow> bool" where
  "all_digits s \<longleftrightarrow> list_all (\<lambda>c. 0 \<le> HexVal c) s"

theorem hex_roundtrip:
  "FromHex (ToHex bs) = Some bs \<and>
   (FromHex s \<noteq> None) = (even (length s) \<and> all_digits s) \<and>
   Hash256FromHex (Hash256_ToHex h) = Some h \<and>
   Hash256FromHexInternal (ToHexInternal h) = Some h"
  by (simp only: FromHex_ToHex FromHex_defined hash_hex_roundtrip all_digits_def list_all_iff simp_thms)

text \<open>
  The branch-free comparison, which ORs the differences of all bytes, decides
  equality of byte strings.
\<close>

theorem constant_time_equal: "ConstantTimeEqual a b \<longleftrightarrow> a = b"
  by (rule ConstantTimeEqual_iff)

end
