(* ===== verification/Crypto.thy ===== *)
theory Crypto
  imports Hexcodec
begin

text \<open>
  Hashing (\<^verbatim>\<open>src/crypto/hash.cpp\<close>) and the signature scheme registry
  (\<^verbatim>\<open>include/amarian/crypto/signature.hpp\<close>, \<^verbatim>\<open>src/crypto/signature.cpp\<close>). OpenSSL and
  libsecp256k1 are not part of the repository: what the code calls in them is the record
  \<open>crypto_ext\<close>, an argument of every definition that reaches a library, and nothing is
  assumed about it unless a theorem says so.
\<close>

section \<open>The external libraries\<close>

record crypto_ext =
  ext_SHA256 :: "byte_vec \<Rightarrow> arr32"
    \<comment> \<open>OpenSSL's one-shot digest\<close>
  ext_xonly_pubkey_parse :: "byte_vec \<Rightarrow> bool"
    \<comment> \<open>whether libsecp256k1 parses the key\<close>
  ext_schnorrsig_verify :: "byte_vec \<Rightarrow> byte_vec \<Rightarrow> byte_vec \<Rightarrow> bool"
    \<comment> \<open>signature, message, key\<close>
  ext_SIGNATURE_fetch :: "string \<Rightarrow> bool"
    \<comment> \<open>whether the loaded provider has the algorithm\<close>
  ext_new_raw_public_key :: "string \<Rightarrow> byte_vec \<Rightarrow> bool"
    \<comment> \<open>whether the key is accepted\<close>
  ext_verify_message_init :: "string \<Rightarrow> byte_vec \<Rightarrow> bool"
  ext_PKEY_verify :: "string \<Rightarrow> byte_vec \<Rightarrow> byte_vec \<Rightarrow> byte_vec \<Rightarrow> bool"
    \<comment> \<open>algorithm, key, signature, message\<close>

section \<open>Hashes\<close>

definition Sha256 :: "crypto_ext \<Rightarrow> byte_vec \<Rightarrow> hash256" where
  "Sha256 E bytes = Hash256 (ext_SHA256 E bytes)"

definition DoubleSha256 :: "crypto_ext \<Rightarrow> byte_vec \<Rightarrow> hash256" where
  "DoubleSha256 E bytes = Sha256 E (Hash256_Span (Sha256 E bytes))"

definition string_bytes :: "string \<Rightarrow> byte_vec" where
  "string_bytes s = map of_char s"

definition TaggedHash :: "crypto_ext \<Rightarrow> string \<Rightarrow> byte_vec \<Rightarrow> hash256" where
  "TaggedHash E tag message =
     (let tag_hash = Sha256 E (string_bytes tag);
          prefix = Hash256_Span tag_hash @ Hash256_Span tag_hash
      in Sha256 E (prefix @ message))"

section \<open>The scheme registry\<close>

definition SCHEME_RESERVED :: u16 where "SCHEME_RESERVED = 0"
definition SCHEME_SCHNORR_SECP256K1 :: u16 where "SCHEME_SCHNORR_SECP256K1 = 1"
definition SCHEME_ML_DSA_44 :: u16 where "SCHEME_ML_DSA_44 = 2"
definition SCHEME_SLH_DSA_SHA2_128S :: u16 where "SCHEME_SLH_DSA_SHA2_128S = 3"

lemmas scheme_ids = SCHEME_RESERVED_def SCHEME_SCHNORR_SECP256K1_def SCHEME_ML_DSA_44_def
  SCHEME_SLH_DSA_SHA2_128S_def

datatype scheme_class = Classical | PostQuantum

record scheme_spec =
  spec_id :: u16
  spec_name :: string
  spec_public_key_bytes :: nat
  spec_signature_bytes :: nat
  spec_class :: scheme_class
  spec_backend :: string

definition SCHEMES :: "scheme_spec list" where
  "SCHEMES =
     [\<lparr>spec_id = SCHEME_SCHNORR_SECP256K1, spec_name = ''schnorr-secp256k1'',
       spec_public_key_bytes = 32, spec_signature_bytes = 64,
       spec_class = Classical, spec_backend = ''libsecp256k1''\<rparr>,
      \<lparr>spec_id = SCHEME_ML_DSA_44, spec_name = ''ml-dsa-44'',
       spec_public_key_bytes = 1312, spec_signature_bytes = 2420,
       spec_class = PostQuantum, spec_backend = ''openssl''\<rparr>,
      \<lparr>spec_id = SCHEME_SLH_DSA_SHA2_128S, spec_name = ''slh-dsa-sha2-128s'',
       spec_public_key_bytes = 32, spec_signature_bytes = 7856,
       spec_class = PostQuantum, spec_backend = ''openssl''\<rparr>]"

definition FindScheme :: "u16 \<Rightarrow> scheme_spec option" where
  "FindScheme i = find (\<lambda>spec. spec_id spec = i) SCHEMES"

definition HasWellFormedSizes :: "u16 \<Rightarrow> nat \<Rightarrow> nat \<Rightarrow> bool" where
  "HasWellFormedSizes scheme public_key_bytes signature_bytes =
     (case FindScheme scheme of
        None \<Rightarrow> False
      | Some spec \<Rightarrow> spec_public_key_bytes spec = public_key_bytes \<and>
                    spec_signature_bytes spec = signature_bytes)"

definition OpenSslName :: "u16 \<Rightarrow> string option" where
  "OpenSslName scheme =
     (if scheme = SCHEME_ML_DSA_44 then Some ''ML-DSA-44''
      else if scheme = SCHEME_SLH_DSA_SHA2_128S then Some ''SLH-DSA-SHA2-128s''
      else None)"

definition FetchedAlgorithm :: "crypto_ext \<Rightarrow> u16 \<Rightarrow> bool" where
  "FetchedAlgorithm E scheme =
     (if scheme = SCHEME_ML_DSA_44 then ext_SIGNATURE_fetch E ''ML-DSA-44''
      else if scheme = SCHEME_SLH_DSA_SHA2_128S then ext_SIGNATURE_fetch E ''SLH-DSA-SHA2-128s''
      else False)"

fun FirstUnavailable_loop :: "crypto_ext \<Rightarrow> scheme_spec list \<Rightarrow> u16" where
  "FirstUnavailable_loop E [] = SCHEME_RESERVED"
| "FirstUnavailable_loop E (spec # specs) =
     (if OpenSslName (spec_id spec) \<noteq> None \<and> \<not> FetchedAlgorithm E (spec_id spec) then spec_id spec
      else FirstUnavailable_loop E specs)"

definition FirstUnavailableScheme :: "crypto_ext \<Rightarrow> u16" where
  "FirstUnavailableScheme E = FirstUnavailable_loop E SCHEMES"

section \<open>Verification\<close>

datatype verify_result = Valid | Invalid | Reserved | UnknownScheme | Malformed

definition VerifySchnorr :: "crypto_ext \<Rightarrow> byte_vec \<Rightarrow> byte_vec \<Rightarrow> hash256 \<Rightarrow> verify_result" where
  "VerifySchnorr E public_key signature message =
     (if \<not> ext_xonly_pubkey_parse E public_key then Malformed
      else if ext_schnorrsig_verify E signature (Hash256_Span message) public_key then Valid
      else Invalid)"

definition VerifyWithOpenSsl ::
  "crypto_ext \<Rightarrow> u16 \<Rightarrow> byte_vec \<Rightarrow> byte_vec \<Rightarrow> hash256 \<Rightarrow> verify_result" where
  "VerifyWithOpenSsl E scheme public_key signature message =
     (case OpenSslName scheme of
        None \<Rightarrow> Malformed
      | Some algorithm \<Rightarrow>
          if \<not> FetchedAlgorithm E scheme then Malformed
          else if \<not> ext_new_raw_public_key E algorithm public_key then Malformed
          else if \<not> ext_verify_message_init E algorithm public_key then Malformed
          else if \<not> ext_PKEY_verify E algorithm public_key signature (Hash256_Span message)
            then Invalid
          else Valid)"

definition Verify :: "crypto_ext \<Rightarrow> u16 \<Rightarrow> byte_vec \<Rightarrow> byte_vec \<Rightarrow> hash256 \<Rightarrow> verify_result" where
  "Verify E scheme public_key signature message =
     (if scheme = SCHEME_RESERVED then Reserved
      else case FindScheme scheme of
          None \<Rightarrow> UnknownScheme
        | Some spec \<Rightarrow>
            if length public_key \<noteq> spec_public_key_bytes spec \<or>
               length signature \<noteq> spec_signature_bytes spec then Malformed
            else if scheme = SCHEME_SCHNORR_SECP256K1 then
              VerifySchnorr E public_key signature message
            else if scheme = SCHEME_ML_DSA_44 \<or> scheme = SCHEME_SLH_DSA_SHA2_128S then
              VerifyWithOpenSsl E scheme public_key signature message
            else Malformed)"

section \<open>Correctness\<close>

lemma FindScheme_Some: "FindScheme i = Some s \<Longrightarrow> spec_id s = i"
  by (auto simp: FindScheme_def find_Some_iff)

lemma SCHEMES_ids: "map spec_id SCHEMES = [1, 2, 3]"
  by (simp add: SCHEMES_def scheme_ids)

lemma FindScheme_None: "FindScheme i = None \<longleftrightarrow> i \<notin> {1, 2, 3}"
proof -
  have "FindScheme i = None \<longleftrightarrow> i \<notin> set (map spec_id SCHEMES)"
    by (auto simp: FindScheme_def find_None_iff)
  then show ?thesis by (simp only: SCHEMES_ids list.set)
qed

lemma backend_range:
  "VerifySchnorr E pk sg m \<in> {Valid, Invalid, Malformed}"
  "VerifyWithOpenSsl E s pk sg m \<in> {Valid, Invalid, Malformed}"
  by (simp_all add: VerifySchnorr_def VerifyWithOpenSsl_def split: option.split)

lemma Verify_range:
  assumes "s \<noteq> 0" and "FindScheme s = Some spec"
  shows "Verify E s pk sg m \<in> {Valid, Invalid, Malformed}"
  using assms backend_range(1) [of E pk sg m] backend_range(2) [of E s pk sg m]
  unfolding Verify_def SCHEME_RESERVED_def by (simp only: option.case if_False) simp

lemma Verify_no_scheme:
  "Verify E 0 pk sg m = Reserved"
  "s \<noteq> 0 \<Longrightarrow> FindScheme s = None \<Longrightarrow> Verify E s pk sg m = UnknownScheme"
  by (simp_all add: Verify_def SCHEME_RESERVED_def)

lemma Verify_Reserved: "Verify E s pk sg m = Reserved \<longleftrightarrow> s = 0"
  using Verify_range [of s _ E pk sg m] Verify_no_scheme(1) [of E pk sg m]
    Verify_no_scheme(2) [of s E pk sg m]
  by (cases "s = 0"; cases "FindScheme s") auto

lemma Verify_Unknown: "Verify E s pk sg m = UnknownScheme \<longleftrightarrow> s \<noteq> 0 \<and> FindScheme s = None"
  using Verify_range [of s _ E pk sg m] Verify_no_scheme(1) [of E pk sg m]
    Verify_no_scheme(2) [of s E pk sg m]
  by (cases "s = 0"; cases "FindScheme s") auto

text \<open>
  A verdict other than reserved or unknown on a key or signature of the wrong length is always
  \<^verbatim>\<open>Malformed\<close>, whatever the libraries would have said.
\<close>

lemma Verify_sizes:
  assumes "Verify E s pk sg m \<in> {Valid, Invalid}"
  shows "HasWellFormedSizes s (length pk) (length sg)"
  using assms
  by (auto simp: Verify_def HasWellFormedSizes_def split: option.splits if_splits)

lemma FirstUnavailable_none:
  "FirstUnavailableScheme E = 0 \<longleftrightarrow> FetchedAlgorithm E 2 \<and> FetchedAlgorithm E 3"
  by (auto simp: FirstUnavailableScheme_def SCHEMES_def OpenSslName_def scheme_ids)

text \<open>
  On a build that passed the startup check, every known scheme reaches its library: the verdict
  \<^verbatim>\<open>Malformed\<close> then means a wrong length or a key the library refused.
\<close>

lemma Verify_available:
  assumes "FirstUnavailableScheme E = 0" and "HasWellFormedSizes s (length pk) (length sg)"
    and "Verify E s pk sg m = Malformed"
  shows "(s = 1 \<and> \<not> ext_xonly_pubkey_parse E pk) \<or>
    (\<exists>alg. OpenSslName s = Some alg \<and>
      \<not> (ext_new_raw_public_key E alg pk \<and> ext_verify_message_init E alg pk))"
  using assms FindScheme_None [of s]
  by (auto simp: FirstUnavailable_none Verify_def HasWellFormedSizes_def VerifySchnorr_def
      VerifyWithOpenSsl_def OpenSslName_def scheme_ids split: option.splits if_splits)

section \<open>Properties\<close>

text \<open>
  Libraries for concrete inputs: every key parses and every signature verifies, and a digest is
  the length of its input and 31 of the bytes at its end.
\<close>

definition example_crypto :: crypto_ext where
  "example_crypto =
     \<lparr>ext_SHA256 = (\<lambda>bs. arr_of (of_nat (length bs) # take 31 (drop 2 (rev bs)))),
      ext_xonly_pubkey_parse = (\<lambda>_. True), ext_schnorrsig_verify = (\<lambda>_ _ _. True),
      ext_SIGNATURE_fetch = (\<lambda>_. True), ext_new_raw_public_key = (\<lambda>_ _. True),
      ext_verify_message_init = (\<lambda>_ _. True), ext_PKEY_verify = (\<lambda>_ _ _ _. True)\<rparr>"

text \<open>
  A signature that verifies, or is found invalid, had the exact key and signature
  lengths its scheme registers; scheme 0 is answered as reserved and an unregistered one as
  unknown, and no other scheme is, whatever the cryptographic libraries answer.
\<close>

theorem verify_verdicts:
  "(Verify E s pk sg m = Reserved) = (s = 0) \<and>
   (Verify E s pk sg m = UnknownScheme) = (s \<notin> {0, 1, 2, 3}) \<and>
   (Verify E s pk sg m \<notin> {Valid, Invalid} \<or> HasWellFormedSizes s (length pk) (length sg))"
  using Verify_sizes [of E s pk sg m] by (auto simp: Verify_Reserved Verify_Unknown FindScheme_None)

theorem verify_verdicts_witness:
  "Verify example_crypto 7 [] [] Hash256_zero = UnknownScheme \<and>
   Verify example_crypto 1 (replicate 32 0) (replicate 64 0) Hash256_zero = Valid \<and>
   HasWellFormedSizes 1 32 64"
proof -
  have "Verify example_crypto 1 (replicate 32 0) (replicate 64 0) Hash256_zero = Valid"
    by (simp add: Verify_def FindScheme_def SCHEMES_def scheme_ids VerifySchnorr_def example_crypto_def)
  with verify_verdicts [of example_crypto 1 "replicate 32 0" "replicate 64 0" Hash256_zero]
    verify_verdicts [of example_crypto 7 "[]" "[]" Hash256_zero]
  show ?thesis by simp
qed

end
