(* ===== verification/Lifecycle.thy ===== *)
theory Lifecycle
  imports Crypto
begin

text \<open>
  The activation, deprecation and retirement heights of the signature schemes
  (\<^verbatim>\<open>src/consensus/scheme_lifecycle.cpp\<close>). The registry is the vector of its entries, and the
  loops over it find the first entry of a scheme.
\<close>

section \<open>The code\<close>

datatype scheme_state = Pending | Active | Deprecated | Retired

record scheme_lifecycle =
  lc_scheme_id :: u16
  lc_activation_height :: u32
  lc_deprecation_height :: u32
  lc_retirement_height :: u32

type_synonym lifecycle_registry = "scheme_lifecycle list"

definition SchemeLifecycleRegistry :: lifecycle_registry where
  "SchemeLifecycleRegistry =
     map (\<lambda>spec. \<lparr>lc_scheme_id = spec_id spec, lc_activation_height = 0,
       lc_deprecation_height = 0xFFFFFFFF, lc_retirement_height = 0xFFFFFFFF\<rparr>) SCHEMES"

fun GetState_loop :: "lifecycle_registry \<Rightarrow> u16 \<Rightarrow> u32 \<Rightarrow> scheme_state" where
  "GetState_loop [] scheme_id height = Pending"
| "GetState_loop (entry # entries) scheme_id height =
     (if lc_scheme_id entry = scheme_id then
        if height < lc_activation_height entry then Pending
        else if height \<ge> lc_retirement_height entry then Retired
        else if height \<ge> lc_deprecation_height entry then Deprecated
        else Active
      else GetState_loop entries scheme_id height)"

definition GetState :: "lifecycle_registry \<Rightarrow> u16 \<Rightarrow> u32 \<Rightarrow> scheme_state" where
  "GetState registry scheme_id height =
     (if scheme_id = 0 then Retired else GetState_loop registry scheme_id height)"

definition MayCreateOutput :: "lifecycle_registry \<Rightarrow> u16 \<Rightarrow> u32 \<Rightarrow> bool" where
  "MayCreateOutput registry scheme_id height \<longleftrightarrow> GetState registry scheme_id height = Active"

definition IsSpendable :: "lifecycle_registry \<Rightarrow> u16 \<Rightarrow> u32 \<Rightarrow> bool" where
  "IsSpendable registry scheme_id height \<longleftrightarrow> (if scheme_id = 0 then False else True)"

fun Register :: "lifecycle_registry \<Rightarrow> scheme_lifecycle \<Rightarrow> lifecycle_registry" where
  "Register [] lifecycle = [lifecycle]"
| "Register (entry # entries) lifecycle =
     (if lc_scheme_id entry = lc_scheme_id lifecycle then lifecycle # entries
      else entry # Register entries lifecycle)"

definition GetLifecycle :: "lifecycle_registry \<Rightarrow> u16 \<Rightarrow> scheme_lifecycle option" where
  "GetLifecycle registry scheme_id =
     (if scheme_id = 0 then None else find (\<lambda>entry. lc_scheme_id entry = scheme_id) registry)"

section \<open>Lookup\<close>

lemma find_Register:
  "find (\<lambda>entry. lc_scheme_id entry = i) (Register registry lc) =
     (if i = lc_scheme_id lc then Some lc else find (\<lambda>entry. lc_scheme_id entry = i) registry)"
  by (induction registry lc rule: Register.induct) auto

lemma GetState_loop_find:
  "GetState_loop registry i h =
     (case find (\<lambda>entry. lc_scheme_id entry = i) registry of
        None \<Rightarrow> Pending
      | Some entry \<Rightarrow>
          if h < lc_activation_height entry then Pending
          else if h \<ge> lc_retirement_height entry then Retired
          else if h \<ge> lc_deprecation_height entry then Deprecated
          else Active)"
  by (induction registry) auto

section \<open>Properties\<close>

text \<open>
  Registering a timeline replaces that scheme's entry and no other: later lookups of
  the scheme return it, its state at each height follows from its three heights, and every other
  scheme keeps its state; spendability of existing outputs never depends on the timeline.
\<close>

theorem register_lifecycle:
  assumes "lc_scheme_id lc \<noteq> 0"
  shows "GetLifecycle (Register registry lc) i = (if i = lc_scheme_id lc then Some lc else GetLifecycle registry i) \<and>
    GetState (Register registry lc) i h =
      (if i \<noteq> lc_scheme_id lc then GetState registry i h
       else if h < lc_activation_height lc then Pending
       else if h \<ge> lc_retirement_height lc then Retired
       else if h \<ge> lc_deprecation_height lc then Deprecated else Active) \<and>
    IsSpendable (Register registry lc) i h = IsSpendable registry i h"
  using assms by (auto simp: GetLifecycle_def GetState_def GetState_loop_find find_Register IsSpendable_def)

theorem register_lifecycle_witness:
  "GetState (Register SchemeLifecycleRegistry \<lparr>lc_scheme_id = 1, lc_activation_height = 0,
     lc_deprecation_height = 100, lc_retirement_height = 200\<rparr>) 1 150 = Deprecated"
  using register_lifecycle [of "\<lparr>lc_scheme_id = 1, lc_activation_height = 0,
     lc_deprecation_height = 100, lc_retirement_height = 200\<rparr>" SchemeLifecycleRegistry 1 150] by simp

end
