(* ===== verification/Checked.thy ===== *)
theory Checked
  imports Prelude
begin

text \<open>
  Checked integer arithmetic (\<^verbatim>\<open>include/amarian/util/overflow.hpp\<close>) and the monetary bound
  (\<^verbatim>\<open>include/amarian/primitives/amount.hpp\<close>). The templates are functions of the bounds of
  their type argument; both preprocessor branches are modelled, the compiler builtin and the
  portable form used under MSVC, and they are shown to agree.
\<close>

section \<open>Bounds of a type\<close>

record int_limits =
  lim_min :: int
  lim_max :: int

definition int64_limits :: int_limits where
  "int64_limits = \<lparr>lim_min = INT64_MIN, lim_max = INT64_MAX\<rparr>"

definition uint64_limits :: int_limits where
  "uint64_limits = \<lparr>lim_min = 0, lim_max = 18446744073709551615\<rparr>"

text \<open>The 64-bit platforms the build targets.\<close>

definition size_limits :: int_limits where
  "size_limits = uint64_limits"

definition in_limits :: "int_limits \<Rightarrow> int \<Rightarrow> bool" where
  "in_limits T x \<longleftrightarrow> lim_min T \<le> x \<and> x \<le> lim_max T"

text \<open>What makes a pair of bounds those of an integral type.\<close>

definition signed_limits :: "int_limits \<Rightarrow> bool" where
  "signed_limits T \<longleftrightarrow> 0 < lim_max T \<and> lim_min T = - lim_max T - 1"

definition unsigned_limits :: "int_limits \<Rightarrow> bool" where
  "unsigned_limits T \<longleftrightarrow> 0 < lim_max T \<and> lim_min T = 0"

section \<open>The operations\<close>

definition CheckedAdd :: "int_limits \<Rightarrow> int \<Rightarrow> int \<Rightarrow> int option" where
  "CheckedAdd T a b = (if in_limits T (a + b) then Some (a + b) else None)"

definition CheckedSub :: "int_limits \<Rightarrow> int \<Rightarrow> int \<Rightarrow> int option" where
  "CheckedSub T a b = (if in_limits T (a - b) then Some (a - b) else None)"

definition CheckedMul :: "int_limits \<Rightarrow> int \<Rightarrow> int \<Rightarrow> int option" where
  "CheckedMul T a b = (if in_limits T (a * b) then Some (a * b) else None)"

definition CheckedAdd_msvc :: "int_limits \<Rightarrow> int \<Rightarrow> int \<Rightarrow> int option" where
  "CheckedAdd_msvc T a b =
     (if lim_min T < 0 then
        (if (b > 0 \<and> a > lim_max T - b) \<or> (b < 0 \<and> a < lim_min T - b) then None
         else Some (a + b))
      else if a > lim_max T - b then None
      else Some (a + b))"

definition CheckedSub_msvc :: "int_limits \<Rightarrow> int \<Rightarrow> int \<Rightarrow> int option" where
  "CheckedSub_msvc T a b =
     (if lim_min T < 0 then
        (if (b > 0 \<and> a < lim_min T + b) \<or> (b < 0 \<and> a > lim_max T + b) then None
         else Some (a - b))
      else if a < b then None
      else Some (a - b))"

definition CheckedMul_msvc :: "int_limits \<Rightarrow> int \<Rightarrow> int \<Rightarrow> int option" where
  "CheckedMul_msvc T a b =
     (if lim_min T < 0 then
        (if a \<noteq> 0 \<and> b \<noteq> 0 then
           (if (a = - 1 \<and> b = lim_min T) \<or> (b = - 1 \<and> a = lim_min T) then None
            else if a > 0 then
              (if (if b > 0 then a > trunc_div (lim_max T) b else b < trunc_div (lim_min T) a)
               then None else Some (a * b))
            else
              (if (if b > 0 then a < trunc_div (lim_min T) b else a < trunc_div (lim_max T) b)
               then None else Some (a * b)))
         else Some (a * b))
      else if a \<noteq> 0 \<and> b > trunc_div (lim_max T) a then None
      else Some (a * b))"

text \<open>The accumulator is returned unchanged, with False, on overflow.\<close>

definition TryAccumulate :: "int_limits \<Rightarrow> int \<Rightarrow> int \<Rightarrow> bool \<times> int" where
  "TryAccumulate T acc value =
     (case CheckedAdd T acc value of None \<Rightarrow> (False, acc) | Some s \<Rightarrow> (True, s))"

definition TryNarrow :: "int_limits \<Rightarrow> int \<Rightarrow> int option" where
  "TryNarrow T value =
     (if value < lim_min T then None else if value > lim_max T then None else Some value)"

section \<open>Amounts\<close>

definition MAX_MONEY :: i64 where
  "MAX_MONEY = 83999999932170000"

definition IsValidAmount :: "i64 \<Rightarrow> bool" where
  "IsValidAmount amount \<longleftrightarrow> amount \<ge> 0 \<and> amount \<le> MAX_MONEY"

text \<open>
  The loop shared by every rule that sums amounts: each addend and each partial sum is checked
  (\<^verbatim>\<open>!IsValidAmount(x) || !TryAccumulate(total, x) || !IsValidAmount(total)\<close>).
\<close>

fun SumAmounts :: "i64 \<Rightarrow> i64 list \<Rightarrow> i64 option" where
  "SumAmounts acc [] = Some acc"
| "SumAmounts acc (x # xs) =
     (if \<not> IsValidAmount x then None
      else case TryAccumulate int64_limits acc x of
          (False, _) \<Rightarrow> None
        | (True, t) \<Rightarrow> if \<not> IsValidAmount t then None else SumAmounts t xs)"

section \<open>Correctness\<close>

lemma int64_signed: "signed_limits int64_limits"
  by (simp add: signed_limits_def int64_limits_def)

lemma uint64_unsigned: "unsigned_limits uint64_limits"
  by (simp add: unsigned_limits_def uint64_limits_def)

lemma CheckedAdd_Some: "CheckedAdd T a b = Some c \<longleftrightarrow> c = a + b \<and> in_limits T c"
  by (auto simp: CheckedAdd_def)

lemma CheckedAdd_i64 [simp]:
  "CheckedAdd int64_limits a b = (if i64_ok (a + b) then Some (a + b) else None)"
  by (simp add: CheckedAdd_def in_limits_def int64_limits_def i64_ok_def)

lemma TryNarrow_size [simp]: "TryNarrow size_limits (uint (w :: u64)) = Some (uint w)"
proof -
  have "uint w < 2 ^ LENGTH(64)" by (rule unsigned_less)
  then show ?thesis
    by (simp add: TryNarrow_def size_limits_def uint64_limits_def)
qed


lemma div_less_iff:
  fixes a b c :: int
  assumes "0 < b"
  shows "c div b < a \<longleftrightarrow> c < a * b"
proof -
  have c: "c = c div b * b + c mod b" and m: "0 \<le> c mod b" "c mod b < b"
    using assms by simp_all
  show ?thesis
  proof
    assume "c div b < a"
    then have "(c div b + 1) * b \<le> a * b"
      using assms by (intro mult_right_mono) simp_all
    then have "c div b * b + b \<le> a * b" by (simp add: distrib_right)
    with c m show "c < a * b" by linarith
  next
    assume "c < a * b"
    then have "c div b * b < a * b" using c m by linarith
    with assms show "c div b < a" by simp
  qed
qed

lemma trunc_div_neg_pos: "a < 0 \<Longrightarrow> 0 < b \<Longrightarrow> trunc_div a b = - ((- a) div b)"
  by (simp add: trunc_div_def)

lemma trunc_div_pos_neg: "0 < a \<Longrightarrow> b < 0 \<Longrightarrow> trunc_div a b = - (a div (- b))"
  by (simp add: trunc_div_def)

lemma less_trunc_div_iff:
  assumes "0 < b" and "c < 0"
  shows "a < trunc_div c b \<longleftrightarrow> a * b < c"
proof -
  have "a < trunc_div c b \<longleftrightarrow> (- c) div b < - a"
    using assms by (auto simp: trunc_div_neg_pos)
  also have "\<dots> \<longleftrightarrow> a * b < c"
    using div_less_iff [OF assms(1), of "- c" "- a"] by simp
  finally show ?thesis .
qed

lemma less_trunc_div_neg_iff:
  assumes "b < 0" and "0 < c"
  shows "a < trunc_div c b \<longleftrightarrow> c < a * b"
proof -
  have "a < trunc_div c b \<longleftrightarrow> c div (- b) < - a"
    using assms by (auto simp: trunc_div_pos_neg)
  also have "\<dots> \<longleftrightarrow> c < a * b"
    using div_less_iff [of "- b" c "- a"] assms by simp
  finally show ?thesis .
qed

lemma CheckedAdd_msvc_eq:
  assumes "signed_limits T \<or> unsigned_limits T" and "in_limits T a" and "in_limits T b"
  shows "CheckedAdd_msvc T a b = CheckedAdd T a b"
  using assms by (auto simp: CheckedAdd_msvc_def CheckedAdd_def in_limits_def signed_limits_def
      unsigned_limits_def)

lemma CheckedSub_msvc_eq:
  assumes "signed_limits T \<or> unsigned_limits T" and "in_limits T a" and "in_limits T b"
  shows "CheckedSub_msvc T a b = CheckedSub T a b"
  using assms by (auto simp: CheckedSub_msvc_def CheckedSub_def in_limits_def signed_limits_def
      unsigned_limits_def)

lemma CheckedMul_msvc_unsigned:
  assumes "unsigned_limits T" and "in_limits T a" and "in_limits T b"
  shows "CheckedMul_msvc T a b = CheckedMul T a b"
proof (cases "a = 0")
  case True
  with assms show ?thesis
    by (simp add: CheckedMul_msvc_def CheckedMul_def in_limits_def unsigned_limits_def)
next
  case False
  with assms have "0 < a" "0 \<le> b" "0 \<le> a * b" by (auto simp: in_limits_def unsigned_limits_def)
  with assms div_less_iff [of a "lim_max T" b] show ?thesis
    by (auto simp: CheckedMul_msvc_def CheckedMul_def in_limits_def unsigned_limits_def
        trunc_div_nonneg mult.commute)
qed

lemma CheckedMul_msvc_signed:
  assumes "signed_limits T" and a: "in_limits T a" and b: "in_limits T b"
  shows "CheckedMul_msvc T a b = CheckedMul T a b"
proof -
  have mx: "0 < lim_max T" and mn: "lim_min T = - lim_max T - 1" "lim_min T < 0"
    using assms by (auto simp: signed_limits_def)
  consider (zero) "a = 0 \<or> b = 0" | (pp) "0 < a" "0 < b" | (pn) "0 < a" "b < 0"
    | (np) "a < 0" "0 < b" | (nn) "a < 0" "b < 0" by linarith
  then show ?thesis
  proof cases
    case zero
    then have "a * b = 0" by auto
    with zero mx mn show ?thesis
      by (cases "a = 0") (simp_all add: CheckedMul_msvc_def CheckedMul_def in_limits_def)
  next
    case pp
    then have "lim_min T \<le> a * b"
      using mn mult_pos_pos [of a b] by linarith
    with pp mx mn div_less_iff [of b "lim_max T" a] show ?thesis
      by (auto simp: CheckedMul_msvc_def CheckedMul_def in_limits_def trunc_div_nonneg)
  next
    case pn
    then have "a * b < 0" by (rule mult_pos_neg)
    with pn mx mn less_trunc_div_iff [of a "lim_min T" b] show ?thesis
      by (auto simp: CheckedMul_msvc_def CheckedMul_def in_limits_def mult.commute)
  next
    case np
    then have "a * b < 0" by (rule mult_neg_pos)
    with np mx mn less_trunc_div_iff [of b "lim_min T" a] show ?thesis
      by (auto simp: CheckedMul_msvc_def CheckedMul_def in_limits_def)
  next
    case nn
    then have "0 < a * b" by (rule mult_neg_neg)
    with nn mx mn less_trunc_div_neg_iff [of b "lim_max T" a] show ?thesis
      by (auto simp: CheckedMul_msvc_def CheckedMul_def in_limits_def)
  qed
qed

lemma SumAmounts_Some:
  assumes "IsValidAmount acc"
  shows "SumAmounts acc xs = Some t \<longleftrightarrow>
    (\<forall>x \<in> set xs. IsValidAmount x) \<and> t = acc + sum_list xs \<and> IsValidAmount t"
  using assms
proof (induction xs arbitrary: acc)
  case Nil
  then show ?case by auto
next
  case (Cons x xs)
  show ?case
  proof (cases "IsValidAmount x \<and> IsValidAmount (acc + x)")
    case True
    then have "i64_ok (acc + x)"
      by (simp add: IsValidAmount_def MAX_MONEY_def i64_ok_def)
    with True Cons.IH [of "acc + x"] show ?thesis
      by (auto simp: TryAccumulate_def add.assoc)
  next
    case False
    have "0 \<le> sum_list xs" if "\<forall>x \<in> set xs. IsValidAmount x"
      using that by (intro sum_list_nonneg) (auto simp: IsValidAmount_def)
    with False Cons.prems show ?thesis
      by (auto simp: TryAccumulate_def IsValidAmount_def split: if_splits)
  qed
qed

section \<open>Properties\<close>

text \<open>
  The portable forms of the checked operations, compiled where the compiler
  builtins are missing, agree with the builtins on every signed and every unsigned integer type:
  the same result, and the same overflows, including the minimum times minus one.
\<close>

theorem checked_arithmetic_portable:
  assumes "signed_limits T \<or> unsigned_limits T" and "in_limits T a" and "in_limits T b"
  shows "CheckedAdd_msvc T a b = CheckedAdd T a b \<and> CheckedSub_msvc T a b = CheckedSub T a b \<and>
    CheckedMul_msvc T a b = CheckedMul T a b"
  using assms CheckedAdd_msvc_eq CheckedSub_msvc_eq CheckedMul_msvc_signed CheckedMul_msvc_unsigned by blast

theorem checked_arithmetic_portable_witness:
  "CheckedAdd_msvc int64_limits INT64_MIN (- 1) = None \<and>
   CheckedSub_msvc int64_limits INT64_MIN (- 1) = Some (- 9223372036854775807) \<and>
   CheckedMul_msvc int64_limits INT64_MIN (- 1) = None"
proof -
  have "in_limits int64_limits INT64_MIN" "in_limits int64_limits (- 1)"
    by (simp_all add: in_limits_def int64_limits_def)
  from checked_arithmetic_portable [OF disjI1 [OF int64_signed] this] show ?thesis
    by (simp add: CheckedAdd_def CheckedSub_def CheckedMul_def in_limits_def int64_limits_def)
qed

end
