(* ===== verification/Serialize.thy ===== *)
theory Serialize
  imports Checked
begin

text \<open>
  Canonical bounded serialisation (\<^verbatim>\<open>include/amarian/util/serialize.hpp\<close>,
  \<^verbatim>\<open>src/util/serialize.cpp\<close>). A \<^verbatim>\<open>Writer\<close> is the bytes appended so far and every write is
  a function on it; a \<^verbatim>\<open>Reader\<close> is a record of the borrowed buffer, the position and the
  sticky flag, and every read returns its value (None where the code returns false) with the
  new reader.

  The locale \<open>codec\<close> is the contract between a \<^verbatim>\<open>Serialize\<close> and its \<^verbatim>\<open>Deserialize\<close>:
  the round trip, one encoding per value, sticky failure, and the smallest encoding the count
  bounds rely on. Its lemmas build the codec of a structure out of those of its fields, and
  every wire type of the program is an interpretation of it.
\<close>

section \<open>Writer\<close>

type_synonym writer = byte_vec

definition AppendLittleEndian :: "'a::len word \<Rightarrow> writer \<Rightarrow> writer" where
  "AppendLittleEndian value w = w @ le_bytes (LENGTH('a) div 8) (unat value)"

definition WriteU8 :: "u8 \<Rightarrow> writer \<Rightarrow> writer" where
  "WriteU8 value w = w @ [value]"

definition WriteU16 :: "u16 \<Rightarrow> writer \<Rightarrow> writer" where
  "WriteU16 value = AppendLittleEndian value"

definition WriteU32 :: "u32 \<Rightarrow> writer \<Rightarrow> writer" where
  "WriteU32 value = AppendLittleEndian value"

definition WriteU64 :: "u64 \<Rightarrow> writer \<Rightarrow> writer" where
  "WriteU64 value = AppendLittleEndian value"

definition WriteI64 :: "i64 \<Rightarrow> writer \<Rightarrow> writer" where
  "WriteI64 value = AppendLittleEndian (word_of_int value :: u64)"

definition WriteBytes :: "byte_vec \<Rightarrow> writer \<Rightarrow> writer" where
  "WriteBytes bytes w = w @ bytes"

text \<open>A sequence of calls on one writer.\<close>

fun writes :: "(writer \<Rightarrow> writer) list \<Rightarrow> writer \<Rightarrow> writer" where
  "writes [] = id"
| "writes (f # fs) = foldl fcomp f fs"

lemmas writes_seq = writes.simps foldl.simps

definition WriteCompactSize :: "u64 \<Rightarrow> writer \<Rightarrow> writer" where
  "WriteCompactSize value =
     (if value < 0xFD then WriteU8 (ucast value)
      else if value \<le> 0xFFFF then writes [WriteU8 0xFD, WriteU16 (ucast value)]
      else if value \<le> 0xFFFFFFFF then writes [WriteU8 0xFE, WriteU32 (ucast value)]
      else writes [WriteU8 0xFF, WriteU64 value])"

definition WriteByteString :: "byte_vec \<Rightarrow> writer \<Rightarrow> writer" where
  "WriteByteString bytes = writes [WriteCompactSize (of_nat (length bytes)), WriteBytes bytes]"

definition CompactSizeLen :: "u64 \<Rightarrow> nat" where
  "CompactSizeLen value =
     (if value < 0xFD then 1 else if value \<le> 0xFFFF then 3
      else if value \<le> 0xFFFFFFFF then 5 else 9)"

text \<open>\<^verbatim>\<open>WriteCompactSize(xs.size())\<close> followed by the loop that serialises each element.\<close>

definition WriteVec :: "('a \<Rightarrow> writer \<Rightarrow> writer) \<Rightarrow> 'a list \<Rightarrow> writer \<Rightarrow> writer" where
  "WriteVec ser xs = writes [WriteCompactSize (of_nat (length xs)), fold ser xs]"

section \<open>Reader\<close>

record reader =
  rd_bytes :: byte_vec
  rd_pos :: nat
  rd_ok :: bool

type_synonym 'a read = "reader \<Rightarrow> 'a option \<times> reader"

definition Reader :: "byte_vec \<Rightarrow> reader" where
  "Reader bytes = \<lparr>rd_bytes = bytes, rd_pos = 0, rd_ok = True\<rparr>"

definition Remaining :: "reader \<Rightarrow> nat" where
  "Remaining r = (if rd_ok r then length (rd_bytes r) - rd_pos r else 0)"

definition AtEnd :: "reader \<Rightarrow> bool" where
  "AtEnd r \<longleftrightarrow> Remaining r = 0"

definition Fail :: "reader \<Rightarrow> reader" where
  "Fail r = r\<lparr>rd_ok := False\<rparr>"

definition Finish :: "reader \<Rightarrow> bool \<times> reader" where
  "Finish r =
     (let r' = (if rd_pos r \<noteq> length (rd_bytes r) then Fail r else r) in (rd_ok r', r'))"

text \<open>Sequencing: a read that fails ends the enclosing read, as \<^verbatim>\<open>return false\<close> does.\<close>

definition read_ret :: "'a \<Rightarrow> 'a read" where
  "read_ret x r = (Some x, r)"

definition read_fail :: "'a read" where
  "read_fail r = (None, Fail r)"

definition read_then :: "'a read \<Rightarrow> ('a \<Rightarrow> 'b read) \<Rightarrow> 'b read" where
  "read_then m k r = (case m r of (None, r') \<Rightarrow> (None, r') | (Some x, r') \<Rightarrow> k x r')"

definition Consume :: "nat \<Rightarrow> byte_vec read" where
  "Consume count r =
     (if \<not> rd_ok r \<or> length (rd_bytes r) - rd_pos r < count then (None, Fail r)
      else (Some (take count (drop (rd_pos r) (rd_bytes r))), r\<lparr>rd_pos := rd_pos r + count\<rparr>))"

definition ReadLittleEndian :: "'a::len word read" where
  "ReadLittleEndian =
     read_then (Consume (LENGTH('a) div 8)) (\<lambda>src. read_ret (of_nat (le_val src)))"

definition ReadU8 :: "u8 read" where
  "ReadU8 = ReadLittleEndian"

definition ReadU16 :: "u16 read" where
  "ReadU16 = ReadLittleEndian"

definition ReadU32 :: "u32 read" where
  "ReadU32 = ReadLittleEndian"

definition ReadU64 :: "u64 read" where
  "ReadU64 = ReadLittleEndian"

definition ReadI64 :: "i64 read" where
  "ReadI64 = read_then (ReadLittleEndian :: u64 read) (\<lambda>raw. read_ret (sint raw))"

definition ReadBytes :: "nat \<Rightarrow> byte_vec read" where
  "ReadBytes n = Consume n"

definition ReadRawSpan :: "nat \<Rightarrow> byte_vec read" where
  "ReadRawSpan count = Consume count"

text \<open>The value behind a tag byte; a form longer than the value needs is refused.\<close>

definition ReadCompactTail :: "u8 \<Rightarrow> u64 read" where
  "ReadCompactTail tag =
     (if tag < 0xFD then read_ret (ucast tag)
      else if tag = 0xFD then
        read_then ReadU16 (\<lambda>wide. if wide < 0xFD then read_fail else read_ret (ucast wide))
      else if tag = 0xFE then
        read_then ReadU32 (\<lambda>wide. if wide \<le> 0xFFFF then read_fail else read_ret (ucast wide))
      else
        read_then ReadU64 (\<lambda>wide. if wide \<le> 0xFFFFFFFF then read_fail else read_ret wide))"

definition ReadCompactSize :: "nat \<Rightarrow> u64 read" where
  "ReadCompactSize min_element_bytes =
     (if min_element_bytes = 0 then read_fail
      else read_then ReadU8 (\<lambda>tag. read_then (ReadCompactTail tag) (\<lambda>value r.
        if unat value > Remaining r div min_element_bytes then read_fail r
        else read_ret value r)))"

definition ReadByteString :: "nat \<Rightarrow> byte_vec read" where
  "ReadByteString max_len =
     read_then (ReadCompactSize 1) (\<lambda>len.
       if unat len > max_len then read_fail
       else case TryNarrow size_limits (uint len) of
           None \<Rightarrow> read_fail
         | Some count \<Rightarrow> Consume (nat count))"

text \<open>
  The bounded count every list decoder starts with, a named helper in
  \<^verbatim>\<open>transaction.cpp\<close> and the same lines written out in the other decoders.
\<close>

definition ReadCount :: "nat \<Rightarrow> nat \<Rightarrow> nat read" where
  "ReadCount max_count min_element_bytes r =
     (case ReadCompactSize min_element_bytes r of
        (None, r') \<Rightarrow> (None, Fail r')
      | (Some count, r') \<Rightarrow>
          if unat count > max_count then (None, Fail r')
          else case TryNarrow size_limits (uint count) of
              None \<Rightarrow> (None, Fail r')
            | Some narrowed \<Rightarrow> (Some (nat narrowed), r'))"

text \<open>The loop that decodes \<^term>\<open>n\<close> elements and appends each to the vector.\<close>

fun ReadMany :: "nat \<Rightarrow> 'a read \<Rightarrow> 'a list read" where
  "ReadMany 0 des = read_ret []"
| "ReadMany (Suc n) des =
     read_then des (\<lambda>x. read_then (ReadMany n des) (\<lambda>xs. read_ret (x # xs)))"

definition ReadVec :: "nat \<Rightarrow> nat \<Rightarrow> 'a read \<Rightarrow> 'a list read" where
  "ReadVec max_count min_element_bytes des =
     read_then (ReadCount max_count min_element_bytes) (\<lambda>n. ReadMany n des)"

text \<open>Decoding a whole buffer: read, then \<^verbatim>\<open>Finish()\<close>.\<close>

definition decode_all :: "'a read \<Rightarrow> byte_vec \<Rightarrow> 'a option" where
  "decode_all des bytes =
     (case des (Reader bytes) of
        (None, r) \<Rightarrow> None
      | (Some x, r) \<Rightarrow> if fst (Finish r) then Some x else None)"

section \<open>Laws of reads\<close>

abbreviation upcoming :: "reader \<Rightarrow> byte_vec" where
  "upcoming r \<equiv> drop (rd_pos r) (rd_bytes r)"

definition advance :: "reader \<Rightarrow> nat \<Rightarrow> reader" where
  "advance r n = r\<lparr>rd_pos := rd_pos r + n\<rparr>"

lemma advance_simps [simp]:
  "rd_bytes (advance r n) = rd_bytes r"
  "rd_pos (advance r n) = rd_pos r + n"
  "rd_ok (advance r n) = rd_ok r"
  "advance r 0 = r"
  "advance (advance r m) n = advance r (m + n)"
  by (simp_all add: advance_def)

lemma upcoming_advance: "upcoming (advance r n) = drop n (upcoming r)"
  by (simp add: add.commute)

lemma Fail_simps [simp]:
  "rd_bytes (Fail r) = rd_bytes r" "rd_ok (Fail r) = False" "rd_pos (Fail r) = rd_pos r"
  "Fail (Fail r) = Fail r"
  by (simp_all add: Fail_def)

lemma Fail_id [simp]: "\<not> rd_ok r \<Longrightarrow> Fail r = r"
  by (simp add: Fail_def)

lemma read_then_ret [simp]:
  "read_then (read_ret x) k = k x" "read_then m read_ret = m" "read_then read_fail k = read_fail"
proof -
  have "read_then m read_ret r = m r" for r
    by (cases "m r"; cases "fst (m r)") (simp_all add: read_then_def read_ret_def)
  then show "read_then m read_ret = m" by (rule ext)
qed (simp_all add: read_then_def read_ret_def read_fail_def fun_eq_iff)

lemma read_then_if:
  "read_then (if b then m else n) k = (if b then read_then m k else read_then n k)"
  by simp

lemma read_then_assoc [simp]:
  "read_then (read_then m k) l = read_then m (\<lambda>x. read_then (k x) l)"
proof (rule ext)
  show "read_then (read_then m k) l r = read_then m (\<lambda>x. read_then (k x) l) r" for r
    by (cases "m r"; cases "fst (m r)") (simp_all add: read_then_def)
qed

lemma Consume_eq:
  "Consume n r = (if rd_ok r \<and> n \<le> length (upcoming r)
     then (Some (take n (upcoming r)), advance r n) else (None, Fail r))"
  by (auto simp: Consume_def advance_def)

lemma Remaining_advance:
  assumes "rd_ok r" and "upcoming r = e @ post"
  shows "Remaining (advance r (length e)) = length post"
proof -
  have "Remaining (advance r (length e)) = length (upcoming (advance r (length e)))"
    using assms(1) by (simp add: Remaining_def)
  then show ?thesis unfolding upcoming_advance assms(2) by simp
qed

lemma fold_append:
  assumes "\<And>x w. x \<in> set xs \<Longrightarrow> ser x w = w @ ser x []"
  shows "fold ser xs w = w @ concat (map (\<lambda>x. ser x []) xs)"
  using assms
proof (induction xs arbitrary: w)
  case Nil
  then show ?case by simp
next
  case (Cons x xs)
  have 1: "ser x w = w @ ser x []"
    by (rule Cons.prems) simp
  have "fold ser xs (ser x w) = ser x w @ concat (map (\<lambda>x. ser x []) xs)"
    by (rule Cons.IH) (rule Cons.prems, simp)
  with 1 show ?case by simp
qed

section \<open>The contract of a decoder\<close>

text \<open>
  \<open>enc x\<close> are the bytes that denote \<open>x\<close>, and \<open>ok x post\<close> says that \<open>x\<close> is admitted when
  \<open>post\<close> follows it in the buffer (a count is admitted only if the bytes behind it could hold
  that many elements).
\<close>

locale step_parser =
  fixes enc :: "'a \<Rightarrow> byte_vec"
    and des :: "'a read"
    and ok :: "'a \<Rightarrow> byte_vec \<Rightarrow> bool"
  assumes des_ok: "rd_ok r \<Longrightarrow> upcoming r = enc x @ post \<Longrightarrow> ok x post \<Longrightarrow>
      des r = (Some x, advance r (length (enc x)))"
    and step_some: "rd_ok r \<Longrightarrow> des r = (Some x, r') \<Longrightarrow> r' = advance r (length (enc x)) \<and>
      (\<exists>post. upcoming r = enc x @ post \<and> ok x post)"
    and step_none: "rd_ok r \<Longrightarrow> des r = (None, r') \<Longrightarrow> \<not> rd_ok r' \<and> rd_bytes r' = rd_bytes r"

text \<open>Failure is sticky: on a failed reader nothing is read and nothing succeeds.\<close>

locale parser = step_parser +
  assumes des_sticky: "\<not> rd_ok r \<Longrightarrow> des r = (None, r)"
begin

lemma des_some:
  "des r = (Some x, r') \<Longrightarrow> rd_ok r \<and> r' = advance r (length (enc x)) \<and>
      (\<exists>post. upcoming r = enc x @ post \<and> ok x post)"
  by (cases "rd_ok r") (auto simp: des_sticky dest: step_some)

lemma des_none: "des r = (None, r') \<Longrightarrow> \<not> rd_ok r' \<and> rd_bytes r' = rd_bytes r"
  by (cases "rd_ok r") (auto simp: des_sticky dest: step_none)

lemma des_SomeE:
  assumes "des r = (Some x, r')"
  obtains post where "rd_ok r" "ok x post" "r' = advance r (length (enc x))"
    "upcoming r = enc x @ post"
  using des_some [OF assms] by blast

lemma enc_inject:
  assumes "ok x p" and "ok y q" and "enc x @ p = enc y @ q"
  shows "x = y \<and> p = q"
proof -
  let ?r = "Reader (enc x @ p)"
  have "des ?r = (Some x, advance ?r (length (enc x)))"
    by (rule des_ok [OF _ _ assms(1)]) (simp_all add: Reader_def)
  moreover have "des ?r = (Some y, advance ?r (length (enc y)))"
    using assms(3) by (intro des_ok [OF _ _ assms(2)]) (simp_all add: Reader_def)
  ultimately show ?thesis using assms(3) by auto
qed

text \<open>Exactly the canonical encodings decode, and each decodes to the value it encodes.\<close>

lemma decode_all_iff: "decode_all des bs = Some x \<longleftrightarrow> ok x [] \<and> bs = enc x"
proof
  assume "decode_all des bs = Some x"
  then obtain r where r: "des (Reader bs) = (Some x, r)" and f: "fst (Finish r)"
    by (auto simp: decode_all_def split: prod.splits option.splits if_splits)
  from r obtain post where v: "ok x post" and adv: "r = advance (Reader bs) (length (enc x))"
    and post: "upcoming (Reader bs) = enc x @ post" by (rule des_SomeE)
  from post have bs: "bs = enc x @ post" by (simp add: Reader_def)
  with f adv have "post = []"
    by (auto simp: Finish_def Reader_def Let_def split: if_splits)
  with v bs show "ok x [] \<and> bs = enc x" by simp
next
  assume *: "ok x [] \<and> bs = enc x"
  then have "des (Reader bs) = (Some x, advance (Reader bs) (length (enc x)))"
    by (intro des_ok [where post = "[]"]) (simp_all add: Reader_def)
  with * show "decode_all des bs = Some x"
    by (simp add: decode_all_def Finish_def Reader_def)
qed

text \<open>Reading one thing and then another whose shape may depend on the first.\<close>

lemma seq:
  assumes "\<And>a. step_parser (enc2 a) (des2 a) (ok2 a)"
  shows "parser (\<lambda>(a, b). enc a @ enc2 a b)
    (read_then des (\<lambda>a. read_then (des2 a) (\<lambda>b. read_ret (a, b))))
    (\<lambda>(a, b) post. ok a (enc2 a b @ post) \<and> ok2 a b post)"
proof (unfold_locales, goal_cases)
  case (1 r x post)
  obtain a b where x: "x = (a, b)" by (cases x)
  let ?r = "advance r (length (enc a))"
  have d1: "des r = (Some a, ?r)"
    using 1 x by (intro des_ok [where post = "enc2 a b @ post"]) auto
  have "upcoming ?r = enc2 a b @ post"
    unfolding upcoming_advance using 1 x by simp
  then have "des2 a ?r = (Some b, advance ?r (length (enc2 a b)))"
    using 1 x by (intro step_parser.des_ok [OF assms]) auto
  with d1 x show ?case by (simp add: read_then_def read_ret_def)
next
  case (2 r x r')
  then obtain a b r1 where d1: "des r = (Some a, r1)" and d2: "des2 a r1 = (Some b, r')"
    and x: "x = (a, b)"
    by (auto simp: read_then_def read_ret_def split: prod.splits option.splits)
  from d1 obtain p1 where p1: "rd_ok r" "ok a p1" "r1 = advance r (length (enc a))"
    "upcoming r = enc a @ p1" by (rule des_SomeE)
  from step_parser.step_some [OF assms _ d2] p1 obtain p2 where p2: "ok2 a b p2"
    "r' = advance r1 (length (enc2 a b))" "upcoming r1 = enc2 a b @ p2" by auto
  have "p1 = enc2 a b @ p2"
    using p2(3) p1(4) unfolding p1(3) upcoming_advance by simp
  with p1 p2 x show ?case by auto
next
  case (3 r r')
  show ?case
  proof (cases "des r")
    case (Pair v r1)
    show ?thesis
    proof (cases v)
      case None
      with Pair 3 des_none [of r r1] show ?thesis by (simp add: read_then_def)
    next
      case (Some a)
      with Pair have r1: "rd_bytes r1 = rd_bytes r" "rd_ok r1"
        using des_some [of r a r1] by auto
      from Some Pair 3 have "des2 a r1 = (None, r')"
        by (auto simp: read_then_def read_ret_def split: prod.splits option.splits)
      with step_parser.step_none [OF assms] r1 show ?thesis by metis
    qed
  qed
next
  case (4 r)
  then show ?case by (simp add: des_sticky read_then_def)
qed

text \<open>The same bytes read as another type.\<close>

lemma map_parser:
  assumes mk: "\<And>a post. ok a post \<Longrightarrow> ok' (mk a) post \<and> dest (mk a) = a"
    and dest: "\<And>x post. ok' x post \<Longrightarrow>
      ok (dest x) post \<and> mk (dest x) = x \<and> enc' x = enc (dest x)"
  shows "parser enc' (read_then des (\<lambda>a. read_ret (mk a))) ok'"
proof (unfold_locales, goal_cases)
  case (1 r x post)
  then have "des r = (Some (dest x), advance r (length (enc (dest x))))"
    using dest [of x post] by (intro des_ok) auto
  with 1 dest [of x post] show ?case by (auto simp: read_then_def read_ret_def)
next
  case (2 r x r')
  then obtain a where a: "des r = (Some a, r')" and x: "x = mk a"
    by (auto simp: read_then_def read_ret_def split: prod.splits option.splits)
  from a obtain post where *: "rd_ok r" "ok a post" "r' = advance r (length (enc a))"
    "upcoming r = enc a @ post" by (rule des_SomeE)
  from mk [OF *(2)] have "ok' x post" "dest x = a" using x by simp_all
  with * dest [of x post] show ?case by auto
next
  case (3 r r')
  then show ?case
    by (auto simp: read_then_def read_ret_def split: prod.splits option.splits dest: des_none)
next
  case (4 r)
  then show ?case by (simp add: des_sticky read_then_def)
qed

text \<open>
  A structural rule checked on what was read, failing the reader where it is violated; the rule
  may also look at how many bytes are left.
\<close>

lemma guard_rest_parser:
  "parser enc (read_then des (\<lambda>x r. if P x (Remaining r) then read_ret x r else read_fail r))
     (\<lambda>x post. ok x post \<and> P x (length post))"
proof (unfold_locales, goal_cases)
  case (1 r x post)
  then have "des r = (Some x, advance r (length (enc x)))" by (intro des_ok) auto
  moreover have "Remaining (advance r (length (enc x))) = length post"
    using 1(1,2) by (rule Remaining_advance)
  ultimately show ?case using 1 by (simp add: read_then_def read_ret_def)
next
  case (2 r x r')
  then have d: "des r = (Some x, r')" and P: "P x (Remaining r')"
    by (auto simp: read_then_def read_ret_def read_fail_def
        split: prod.splits option.splits if_splits)
  from d obtain post where *: "rd_ok r" "ok x post" "r' = advance r (length (enc x))"
    "upcoming r = enc x @ post" by (rule des_SomeE)
  then have "Remaining r' = length post"
    by (simp only: Remaining_advance)
  with * P show ?case by auto
next
  case (3 r r')
  then show ?case
    by (auto simp: read_then_def read_ret_def read_fail_def
        split: prod.splits option.splits if_splits dest: des_none des_some)
next
  case (4 r)
  then show ?case by (simp add: des_sticky read_then_def)
qed

lemma guard_parser:
  "parser enc (read_then des (\<lambda>x. if P x then read_ret x else read_fail))
     (\<lambda>x post. ok x post \<and> P x)"
proof -
  have "(\<lambda>x r. if P x then read_ret x r else read_fail r) =
      (\<lambda>x. if P x then read_ret x else read_fail)" by auto
  with guard_rest_parser [of "\<lambda>x _. P x"] show ?thesis by simp
qed

end

section \<open>Bytes and integers\<close>

lemma Consume_parser: "parser (\<lambda>x. x) (Consume n) (\<lambda>x _. length x = n)"
proof (unfold_locales, goal_cases)
  case (1 r x post)
  then show ?case by (auto simp: Consume_eq)
next
  case (2 r x r')
  moreover have "upcoming r = take n (upcoming r) @ drop n (upcoming r)"
    by (rule append_take_drop_id [symmetric])
  ultimately show ?case
    unfolding Consume_eq by (auto split: if_splits simp del: drop_drop append_take_drop_id)
qed (auto simp: Consume_eq split: if_splits)

lemma le_parser:
  assumes "LENGTH('a::len) = 8 * k"
  shows "parser (\<lambda>v :: 'a word. AppendLittleEndian v []) ReadLittleEndian (\<lambda>_ _. True)"
proof -
  have p: "(256::nat) ^ k = 2 ^ LENGTH('a)"
    using assms by (simp add: power_mult)
  have un: "unat (of_nat n :: 'a word) = n mod 2 ^ LENGTH('a)" for n
    by (simp add: unat_of_nat)
  have "parser (\<lambda>v :: 'a word. AppendLittleEndian v [])
    (read_then (Consume k) (\<lambda>src. read_ret (of_nat (le_val src)))) (\<lambda>_ _. True)"
  proof (rule parser.map_parser [OF Consume_parser, where dest = "\<lambda>v. AppendLittleEndian v []"])
    fix a :: byte_vec assume "length a = k"
    then show "True \<and> AppendLittleEndian (of_nat (le_val a) :: 'a word) [] = a"
      using le_val_less [of a] le_bytes_le_val [of a] assms p
      by (simp add: AppendLittleEndian_def un)
  next
    fix x :: "'a word"
    have "unat x < 2 ^ LENGTH('a)" by (rule unsigned_less)
    then show "length (AppendLittleEndian x []) = k \<and>
        of_nat (le_val (AppendLittleEndian x [])) = x \<and>
        AppendLittleEndian x [] = AppendLittleEndian x []"
      using assms p by (simp add: AppendLittleEndian_def le_val_le_bytes)
  qed
  then show ?thesis using assms by (simp add: ReadLittleEndian_def)
qed

text \<open>
  A \<^verbatim>\<open>Serialize\<close> and \<^verbatim>\<open>Deserialize\<close> pair: what is written is appended, it is what is read,
  and it is never shorter than the \<^verbatim>\<open>MIN_SERIALIZED_SIZE\<close> counts are bounded with.
\<close>

locale codec = parser "\<lambda>x. ser x []" des "\<lambda>x _. valid x"
  for ser :: "'a \<Rightarrow> writer \<Rightarrow> writer" and des :: "'a read" and valid :: "'a \<Rightarrow> bool" +
  fixes min_size :: nat
  assumes ser_append: "ser x w = w @ ser x []"
    and min_size_le: "valid x \<Longrightarrow> min_size \<le> length (ser x [])"

interpretation u8: codec WriteU8 ReadU8 "\<lambda>_. True" 1
proof -
  have "parser (\<lambda>v. WriteU8 v []) ReadU8 (\<lambda>_ _. True)"
    using le_parser [where 'a = 8, of 1]
    by (simp add: ReadU8_def AppendLittleEndian_def WriteU8_def)
  then show "codec WriteU8 ReadU8 (\<lambda>_. True) 1"
    by (intro codec.intro codec_axioms.intro) (simp_all add: WriteU8_def)
qed

interpretation u16: codec WriteU16 ReadU16 "\<lambda>_. True" 2
proof -
  have "parser (\<lambda>v. WriteU16 v []) ReadU16 (\<lambda>_ _. True)"
    using le_parser [where 'a = 16, of 2] by (simp add: ReadU16_def WriteU16_def)
  then show "codec WriteU16 ReadU16 (\<lambda>_. True) 2"
    by (intro codec.intro codec_axioms.intro) (simp_all add: WriteU16_def AppendLittleEndian_def)
qed

interpretation u32: codec WriteU32 ReadU32 "\<lambda>_. True" 4
proof -
  have "parser (\<lambda>v. WriteU32 v []) ReadU32 (\<lambda>_ _. True)"
    using le_parser [where 'a = 32, of 4] by (simp add: ReadU32_def WriteU32_def)
  then show "codec WriteU32 ReadU32 (\<lambda>_. True) 4"
    by (intro codec.intro codec_axioms.intro) (simp_all add: WriteU32_def AppendLittleEndian_def)
qed

interpretation u64: codec WriteU64 ReadU64 "\<lambda>_. True" 8
proof -
  have "parser (\<lambda>v. WriteU64 v []) ReadU64 (\<lambda>_ _. True)"
    using le_parser [where 'a = 64, of 8] by (simp add: ReadU64_def WriteU64_def)
  then show "codec WriteU64 ReadU64 (\<lambda>_. True) 8"
    by (intro codec.intro codec_axioms.intro) (simp_all add: WriteU64_def AppendLittleEndian_def)
qed

interpretation i64: codec WriteI64 ReadI64 i64_ok 8
proof -
  have "parser (\<lambda>v. WriteI64 v []) (read_then ReadU64 (\<lambda>raw. read_ret (sint raw)))
      (\<lambda>x _. i64_ok x)"
    by (rule u64.map_parser [where dest = word_of_int])
      (simp_all add: WriteI64_def WriteU64_def i64_wrap_id [unfolded i64_wrap_def])
  then show "codec WriteI64 ReadI64 i64_ok 8"
    by (intro codec.intro codec_axioms.intro)
      (simp_all add: WriteI64_def AppendLittleEndian_def ReadI64_def ReadU64_def)
qed

section \<open>Compact sizes\<close>

lemma unat_bounds [simp]:
  "unat (a :: u16) < 65536" "unat (b :: u32) < 4294967296" "unat (c :: u64) < 18446744073709551616"
proof -
  have "unat a < 2 ^ LENGTH(16)" "unat b < 2 ^ LENGTH(32)" "unat c < 2 ^ LENGTH(64)"
    by (rule unsigned_less)+
  then show "unat (a :: u16) < 65536" "unat (b :: u32) < 4294967296"
    "unat (c :: u64) < 18446744073709551616" by simp_all
qed

lemma unat_bounds_le [simp]: "unat (a :: u16) \<le> 65535" "unat (b :: u32) \<le> 4294967295"
  using unat_bounds(1) [of a] unat_bounds(2) [of b] by linarith+

lemma unat_ucast_bytes [bytes_simps]:
  "unat (ucast (v :: u64) :: u8) = unat v mod 256"
  "unat (ucast (v :: u64) :: u16) = unat v mod 65536"
  "unat (ucast (v :: u64) :: u32) = unat v mod 4294967296"
  "unat (ucast (a :: u8) :: u64) = unat a"
  "unat (ucast (b :: u16) :: u64) = unat b"
  "unat (ucast (c :: u32) :: u64) = unat c"
  using unat_byte_less [of a] unat_bounds(1) [of b] unat_bounds(2) [of c]
  by (simp_all add: unsigned_ucast_eq take_bit_eq_mod del: unat_byte_less unat_bounds)

lemmas word_nat_simps = word_less_nat_alt word_le_nat_alt word_unat_eq_iff unat_ucast_bytes

definition compact_tag :: "u64 \<Rightarrow> u8" where
  "compact_tag v = (if v < 0xFD then ucast v else if v \<le> 0xFFFF then 0xFD
     else if v \<le> 0xFFFFFFFF then 0xFE else 0xFF)"

definition compact_tail :: "u64 \<Rightarrow> byte_vec" where
  "compact_tail v = (if v < 0xFD then [] else if v \<le> 0xFFFF then WriteU16 (ucast v) []
     else if v \<le> 0xFFFFFFFF then WriteU32 (ucast v) [] else WriteU64 v [])"

lemma WriteCompactSize_append: "WriteCompactSize v w = w @ [compact_tag v] @ compact_tail v"
  by (simp add: WriteCompactSize_def compact_tag_def compact_tail_def WriteU8_def WriteU16_def
      WriteU32_def WriteU64_def AppendLittleEndian_def fcomp_def)

lemma length_WriteCompactSize: "length (WriteCompactSize v []) = CompactSizeLen v"
  by (simp add: WriteCompactSize_append compact_tail_def CompactSizeLen_def WriteU16_def
      WriteU32_def WriteU64_def AppendLittleEndian_def)

lemma compact_tag_eq:
  "compact_tag v = t \<longleftrightarrow>
     (if t < 0xFD then v = ucast t
      else if t = 0xFD then 0xFD \<le> v \<and> v \<le> 0xFFFF
      else if t = 0xFE then 0xFFFF < v \<and> v \<le> 0xFFFFFFFF
      else 0xFFFFFFFF < v)"
  using unat_byte_less [of t]
  by (simp add: compact_tag_def word_nat_simps del: unat_byte_less)

lemma compact_tail_parser:
  "step_parser compact_tail (ReadCompactTail tag) (\<lambda>v _. compact_tag v = tag)"
proof -
  have 1: "step_parser compact_tail (read_ret (ucast tag)) (\<lambda>v _. v = ucast tag)" if "tag < 0xFD"
  proof -
    have "compact_tail (ucast tag) = []"
      using that by (simp add: compact_tail_def word_less_nat_alt unat_ucast_bytes)
    then show ?thesis by unfold_locales (auto simp: read_ret_def)
  qed
  have 2: "parser compact_tail
      (read_then (read_then ReadU16 (\<lambda>w. if \<not> w < 0xFD then read_ret w else read_fail))
        (\<lambda>w. read_ret (ucast w))) (\<lambda>v _. 0xFD \<le> v \<and> v \<le> 0xFFFF)"
    by (rule parser.map_parser [OF u16.guard_parser, where dest = ucast])
      (simp_all add: compact_tail_def word_nat_simps)
  have 3: "parser compact_tail
      (read_then (read_then ReadU32 (\<lambda>w. if \<not> w \<le> 0xFFFF then read_ret w else read_fail))
        (\<lambda>w. read_ret (ucast w))) (\<lambda>v _. 0xFFFF < v \<and> v \<le> 0xFFFFFFFF)"
    by (rule parser.map_parser [OF u32.guard_parser, where dest = ucast])
      (simp_all add: compact_tail_def word_nat_simps)
  have 4: "parser compact_tail
      (read_then (read_then ReadU64 (\<lambda>w. if \<not> w \<le> 0xFFFFFFFF then read_ret w else read_fail))
        read_ret) (\<lambda>v _. 0xFFFFFFFF < v)"
    by (rule parser.map_parser [OF u64.guard_parser, where dest = "\<lambda>v. v"])
      (simp_all add: compact_tail_def word_nat_simps)
  have *: "(\<lambda>w. read_then (if \<not> P w then read_ret w else read_fail) k) =
      (\<lambda>w. if P w then read_fail else k w)"
    for P :: "'a \<Rightarrow> bool" and k :: "'a \<Rightarrow> u64 read"
    by auto
  have **: "(if \<not> b then x else y) = (if b then y else x)" for b and x y :: "u64 read"
    by simp
  note rules = 1 2 [THEN parser.axioms(1)] 3 [THEN parser.axioms(1)] 4 [THEN parser.axioms(1)]
  consider "tag < 0xFD" | "tag = 0xFD" | "tag = 0xFE" | "\<not> tag < 0xFD" "tag \<noteq> 0xFD" "tag \<noteq> 0xFE"
    by blast
  then show ?thesis
    using rules by cases (simp_all add: compact_tag_eq ReadCompactTail_def * **)
qed

lemma compact_parser:
  assumes "0 < m"
  shows "parser (\<lambda>v. WriteCompactSize v []) (ReadCompactSize m)
    (\<lambda>v post. unat v \<le> length post div m)"
proof -
  have seq: "parser (\<lambda>(a, b). WriteU8 a [] @ compact_tail b)
      (read_then ReadU8 (\<lambda>a. read_then (ReadCompactTail a) (\<lambda>b. read_ret (a, b))))
      (\<lambda>(a, b) post. True \<and> compact_tag b = a)"
    by (rule u8.seq [OF compact_tail_parser])
  have "parser (\<lambda>v. WriteCompactSize v [])
      (read_then (read_then ReadU8 (\<lambda>a. read_then (ReadCompactTail a) (\<lambda>b. read_ret (a, b))))
        (\<lambda>p. read_ret (snd p))) (\<lambda>_ _. True)"
    by (rule parser.map_parser [OF seq, where dest = "\<lambda>v. (compact_tag v, v)"])
      (auto simp: WriteCompactSize_append WriteU8_def)
  then have "parser (\<lambda>v. WriteCompactSize v []) (read_then ReadU8 ReadCompactTail) (\<lambda>_ _. True)"
    by simp
  note guarded = parser.guard_rest_parser [OF this, of "\<lambda>v rest. unat v \<le> rest div m"]
  have "(\<lambda>(v :: u64) r. if unat v \<le> Remaining r div m then read_ret v r else read_fail r) =
      (\<lambda>v r. if unat v > Remaining r div m then read_fail r else read_ret v r)"
    by (intro ext) auto
  with guarded assms show ?thesis by (simp add: ReadCompactSize_def)
qed

section \<open>Counts, vectors and byte strings\<close>

lemma of_nat_u64 [simp]: "n < 18446744073709551616 \<Longrightarrow> unat (of_nat n :: u64) = n"
  by (simp add: unat_of_nat)

lemma count_parser:
  assumes "0 < m"
  shows "parser (\<lambda>n. WriteCompactSize (of_nat n) []) (ReadCount max_count m)
    (\<lambda>n post. n \<le> max_count \<and> n < 2 ^ 64 \<and> n \<le> length post div m)"
proof -
  have g: "parser (\<lambda>v. WriteCompactSize v [])
      (read_then (ReadCompactSize m) (\<lambda>c. if unat c \<le> max_count then read_ret c else read_fail))
      (\<lambda>v post. unat v \<le> length post div m \<and> unat v \<le> max_count)"
    by (rule parser.guard_parser [OF compact_parser [OF assms]])
  have "parser (\<lambda>n. WriteCompactSize (of_nat n) [])
      (read_then (read_then (ReadCompactSize m)
          (\<lambda>c. if unat c \<le> max_count then read_ret c else read_fail)) (\<lambda>c. read_ret (unat c)))
      (\<lambda>n post. n \<le> max_count \<and> n < 2 ^ 64 \<and> n \<le> length post div m)"
    by (rule parser.map_parser [OF g, where dest = of_nat]) auto
  moreover have "read_then (read_then (ReadCompactSize m)
          (\<lambda>c. if unat c \<le> max_count then read_ret c else read_fail)) (\<lambda>c. read_ret (unat c)) =
      ReadCount max_count m"
  proof (rule ext)
    fix r
    obtain v r' where vr: "ReadCompactSize m r = (v, r')" by (cases "ReadCompactSize m r")
    with parser.des_none [OF compact_parser [OF assms], of r r']
    show "read_then (read_then (ReadCompactSize m)
        (\<lambda>c. if unat c \<le> max_count then read_ret c else read_fail)) (\<lambda>c. read_ret (unat c)) r =
      ReadCount max_count m r"
      by (cases v) (simp_all add: ReadCount_def read_then_def read_ret_def read_fail_def)
  qed
  ultimately show ?thesis by (simp only:)
qed

context codec
begin

lemma many_parser:
  "step_parser (\<lambda>xs. concat (map (\<lambda>x. ser x []) xs)) (ReadMany n des)
     (\<lambda>xs _. length xs = n \<and> (\<forall>x \<in> set xs. valid x))"
proof (induction n)
  case 0
  show ?case by unfold_locales (auto simp: read_ret_def)
next
  case (Suc n)
  have s: "parser (\<lambda>(x, xs). ser x [] @ concat (map (\<lambda>x. ser x []) xs))
      (read_then des (\<lambda>x. read_then (ReadMany n des) (\<lambda>xs. read_ret (x, xs))))
      (\<lambda>(x, xs) post. valid x \<and> length xs = n \<and> (\<forall>x \<in> set xs. valid x))"
    by (rule seq [OF Suc])
  have "parser (\<lambda>xs. concat (map (\<lambda>x. ser x []) xs))
      (read_then (read_then des (\<lambda>x. read_then (ReadMany n des) (\<lambda>xs. read_ret (x, xs))))
        (\<lambda>p. read_ret (fst p # snd p)))
      (\<lambda>xs _. length xs = Suc n \<and> (\<forall>x \<in> set xs. valid x))"
    by (rule parser.map_parser [OF s, where dest = "\<lambda>xs. (hd xs, tl xs)"])
      (auto simp: length_Suc_conv)
  from parser.axioms(1) [OF this] show ?case by simp
qed

lemma length_concat_ser:
  "(\<forall>x \<in> set xs. valid x) \<Longrightarrow> length xs * min_size \<le> length (concat (map (\<lambda>x. ser x []) xs))"
  using min_size_le by (induction xs) (auto intro: add_mono)

lemma vec_codec:
  assumes "0 < m" and "m \<le> min_size"
  shows "codec (WriteVec ser) (ReadVec max_count m des)
    (\<lambda>xs. length xs \<le> max_count \<and> length xs < 2 ^ 64 \<and> (\<forall>x \<in> set xs. valid x)) 1"
proof (intro codec.intro codec_axioms.intro)
  have fa: "fold ser xs w = w @ concat (map (\<lambda>x. ser x []) xs)" for xs w
    by (rule fold_append) (rule ser_append)
  have enc: "WriteVec ser xs w =
      w @ WriteCompactSize (of_nat (length xs)) [] @ concat (map (\<lambda>x. ser x []) xs)" for xs w
    by (simp add: WriteVec_def fa WriteCompactSize_append)
  show "WriteVec ser xs w = w @ WriteVec ser xs []" for xs w
    by (simp only: enc append_Nil)
  show "1 \<le> length (WriteVec ser xs [])" for xs
    by (simp add: enc WriteCompactSize_append)
  have s: "parser (\<lambda>(n, xs). WriteCompactSize (of_nat n) [] @ concat (map (\<lambda>x. ser x []) xs))
      (read_then (ReadCount max_count m) (\<lambda>n. read_then (ReadMany n des) (\<lambda>xs. read_ret (n, xs))))
      (\<lambda>(n, xs) post. (n \<le> max_count \<and> n < 2 ^ 64 \<and>
          n \<le> length (concat (map (\<lambda>x. ser x []) xs) @ post) div m) \<and>
          length xs = n \<and> (\<forall>x \<in> set xs. valid x))"
    by (rule parser.seq [OF count_parser [OF assms(1)] many_parser])
  have fit: "length xs \<le> (length (concat (map (\<lambda>x. ser x []) xs)) + k) div m"
    if "\<forall>x \<in> set xs. valid x" for xs k
  proof -
    have "length xs * m \<le> length xs * min_size" using assms(2) by simp
    also have "\<dots> \<le> length (concat (map (\<lambda>x. ser x []) xs)) + k"
      using length_concat_ser [OF that] by (rule trans_le_add1)
    finally show ?thesis using assms(1) by (simp add: less_eq_div_iff_mult_less_eq)
  qed
  have "parser (\<lambda>xs. WriteVec ser xs [])
      (read_then (read_then (ReadCount max_count m)
          (\<lambda>n. read_then (ReadMany n des) (\<lambda>xs. read_ret (n, xs)))) (\<lambda>p. read_ret (snd p)))
      (\<lambda>xs _. length xs \<le> max_count \<and> length xs < 2 ^ 64 \<and> (\<forall>x \<in> set xs. valid x))"
    by (rule parser.map_parser [OF s, where dest = "\<lambda>xs. (length xs, xs)"])
      (use fit in \<open>auto simp: enc\<close>)
  then show "parser (\<lambda>xs. WriteVec ser xs []) (ReadVec max_count m des)
      (\<lambda>xs _. length xs \<le> max_count \<and> length xs < 2 ^ 64 \<and> (\<forall>x \<in> set xs. valid x))"
    by (simp add: ReadVec_def)
qed

end

text \<open>
  Structures: fields in sequence (the second may depend on the first), repackaged, and checked
  after they are read.
\<close>

context codec
begin

lemma dep_codec:
  assumes "\<And>a. codec (ser' a) (des' a) (valid' a) min'"
  shows "codec (\<lambda>(a, b). fcomp (ser a) (ser' a b))
    (read_then des (\<lambda>a. read_then (des' a) (\<lambda>b. read_ret (a, b))))
    (\<lambda>(a, b). valid a \<and> valid' a b) (min_size + min')"
proof -
  note c2 = codec.ser_append [OF assms] codec.min_size_le [OF assms]
  have app: "ser' a b (ser a w) = w @ ser a [] @ ser' a b []" for a b w
    using ser_append [of a w] c2(1) [of a b "ser a w"] by simp
  have p: "parser (\<lambda>(a, b). ser a [] @ ser' a b [])
      (read_then des (\<lambda>a. read_then (des' a) (\<lambda>b. read_ret (a, b))))
      (\<lambda>(a, b) post. valid a \<and> valid' a b)"
    using assms by (intro seq) (simp add: codec_def parser_def)
  show ?thesis
  proof (intro codec.intro codec_axioms.intro)
    have "(\<lambda>x. (case x of (a, b) \<Rightarrow> fcomp (ser a) (ser' a b)) []) = (\<lambda>(a, b). ser a [] @ ser' a b [])"
      "(\<lambda>x (_ :: byte_vec). case x of (a, b) \<Rightarrow> valid a \<and> valid' a b) =
        (\<lambda>(a, b) post. valid a \<and> valid' a b)"
      by (simp_all add: fun_eq_iff app)
    with p show "parser (\<lambda>x. (case x of (a, b) \<Rightarrow> fcomp (ser a) (ser' a b)) [])
        (read_then des (\<lambda>a. read_then (des' a) (\<lambda>b. read_ret (a, b))))
        (\<lambda>x _. case x of (a, b) \<Rightarrow> valid a \<and> valid' a b)"
      by (simp only:)
    show "(case x of (a, b) \<Rightarrow> fcomp (ser a) (ser' a b)) w = w @ (case x of (a, b) \<Rightarrow> fcomp (ser a) (ser' a b)) []"
      for x w by (cases x) (simp add: app)
    show "min_size + min' \<le> length ((case x of (a, b) \<Rightarrow> fcomp (ser a) (ser' a b)) [])"
      if "case x of (a, b) \<Rightarrow> valid a \<and> valid' a b" for x
      using that min_size_le [of "fst x"] c2(2) [of "fst x" "snd x"] by (cases x) (simp add: app)
  qed
qed

lemma pair_codec:
  assumes "codec ser' des' valid' min'"
  shows "codec (\<lambda>(a, b). fcomp (ser a) (ser' b))
    (read_then des (\<lambda>a. read_then des' (\<lambda>b. read_ret (a, b))))
    (\<lambda>(a, b). valid a \<and> valid' b) (min_size + min')"
  by (rule dep_codec) (rule assms)

lemma iso_codec:
  assumes "\<And>a. valid a \<Longrightarrow> valid' (mk a) \<and> dest (mk a) = a"
    and "\<And>x. valid' x \<Longrightarrow> valid (dest x) \<and> mk (dest x) = x"
    and ser': "\<And>x. ser' x = ser (dest x)"
    and "des' = read_then des (\<lambda>a. read_ret (mk a))"
    and "min' \<le> min_size"
  shows "codec ser' des' valid' min'"
proof (intro codec.intro codec_axioms.intro)
  show "parser (\<lambda>x. ser' x []) des' (\<lambda>x _. valid' x)"
    unfolding assms(4) using assms(1,2) ser' by (intro map_parser [where dest = dest]) auto
  show "ser' x w = w @ ser' x []" for x w
    unfolding ser' by (rule ser_append)
  show "valid' x \<Longrightarrow> min' \<le> length (ser' x [])" for x
    using assms(2) [of x] min_size_le [of "dest x"] assms(5) ser' by simp
qed

lemma guard_codec:
  "codec ser (read_then des (\<lambda>x. if P x then read_ret x else read_fail)) (\<lambda>x. valid x \<and> P x) min_size"
  by (intro codec.intro codec_axioms.intro guard_parser ser_append) (simp add: min_size_le)

lemma ser_inject:
  assumes "valid x" and "valid y" and "ser x w = ser y w"
  shows "x = y"
proof -
  have "ser x [] = ser y []"
    using assms(3) ser_append [of x w] ser_append [of y w] by simp
  with enc_inject [of x y "[]" "[]"] assms(1,2) show ?thesis by simp
qed

lemma append_simp [ser_simps]: "w \<noteq> [] \<Longrightarrow> ser x w = w @ ser x []"
  by (rule ser_append)

end

lemma byte_string_codec:
  "codec WriteByteString (ReadByteString max_len)
     (\<lambda>bs. length bs \<le> max_len \<and> length bs < 2 ^ 64) 1"
proof (intro codec.intro codec_axioms.intro)
  have enc: "WriteByteString bs w = w @ WriteCompactSize (of_nat (length bs)) [] @ bs" for bs w
    by (simp add: WriteByteString_def WriteBytes_def WriteCompactSize_append)
  show "WriteByteString bs w = w @ WriteByteString bs []" for bs w
    by (simp only: enc append_Nil)
  show "1 \<le> length (WriteByteString bs [])" for bs
    by (simp add: enc WriteCompactSize_append)
  have s: "parser (\<lambda>(n, bs). WriteCompactSize (of_nat n) [] @ bs)
      (read_then (ReadCount max_len 1) (\<lambda>n. read_then (Consume n) (\<lambda>bs. read_ret (n, bs))))
      (\<lambda>(n, bs) post. (n \<le> max_len \<and> n < 2 ^ 64 \<and> n \<le> length (bs @ post) div 1) \<and> length bs = n)"
    by (rule parser.seq [OF count_parser parser.axioms(1) [OF Consume_parser]]) simp
  have "parser (\<lambda>bs. WriteByteString bs [])
      (read_then (read_then (ReadCount max_len 1)
          (\<lambda>n. read_then (Consume n) (\<lambda>bs. read_ret (n, bs)))) (\<lambda>p. read_ret (snd p)))
      (\<lambda>bs _. length bs \<le> max_len \<and> length bs < 2 ^ 64)"
    by (rule parser.map_parser [OF s, where dest = "\<lambda>bs. (length bs, bs)"]) (auto simp: enc)
  moreover have "read_then (ReadCount max_len 1) Consume = ReadByteString max_len"
  proof (rule ext)
    fix r
    obtain v r' where vr: "ReadCompactSize 1 r = (v, r')" by (cases "ReadCompactSize 1 r")
    with parser.des_none [OF compact_parser, of 1 r r']
    show "read_then (ReadCount max_len 1) Consume r = ReadByteString max_len r"
      by (cases v) (simp_all add: ReadByteString_def ReadCount_def read_then_def read_fail_def)
  qed
  ultimately show "parser (\<lambda>bs. WriteByteString bs []) (ReadByteString max_len)
      (\<lambda>bs _. length bs \<le> max_len \<and> length bs < 2 ^ 64)"
    by simp
qed

section \<open>Properties\<close>

text \<open>
  A count is canonical and never promises more than the buffer holds: reading one
  from the start of a buffer gives \<open>v\<close> exactly when the buffer starts with the encoding the
  writer gives \<open>v\<close> and the bytes behind it could hold \<open>v\<close> elements of the stated least size;
  an overlong form is refused, and what is reserved for the elements is bounded by the input.
\<close>

theorem compact_size_canonical:
  assumes "0 < m"
  shows "fst (ReadCompactSize m (Reader bs)) = Some v \<longleftrightarrow>
    (\<exists>post. bs = WriteCompactSize v [] @ post \<and> unat v * m \<le> length post)"
proof
  note P = compact_parser [OF assms]
  have le: "unat v \<le> n div m \<longleftrightarrow> unat v * m \<le> n" for n
    using assms by (rule less_eq_div_iff_mult_less_eq)
  {
    assume "fst (ReadCompactSize m (Reader bs)) = Some v"
    then obtain r where "ReadCompactSize m (Reader bs) = (Some v, r)" by (metis prod.collapse)
    from parser.des_some [OF P this] show "\<exists>post. bs = WriteCompactSize v [] @ post \<and> unat v * m \<le> length post"
      by (auto simp: Reader_def le)
  next
    assume "\<exists>post. bs = WriteCompactSize v [] @ post \<and> unat v * m \<le> length post"
    then show "fst (ReadCompactSize m (Reader bs)) = Some v"
      using step_parser.des_ok [OF parser.axioms(1) [OF P], of "Reader bs" v]
      by (auto simp: Reader_def le)
  }
qed

theorem compact_size_canonical_witness:
  "fst (ReadCompactSize 2 (Reader [3, 0, 0, 0, 0, 0, 0])) = Some 3 \<and>
   fst (ReadCompactSize 2 (Reader [3, 0, 0, 0, 0, 0])) \<noteq> Some 3"
  unfolding compact_size_canonical [OF zero_less_numeral]
  by (simp add: WriteCompactSize_def WriteU8_def AppendLittleEndian_def)

end
