(* ===== verification/Primitives.thy ===== *)
theory Primitives
  imports Serialize Crypto
begin

text \<open>
  The data of the protocol and its canonical encodings (\<^verbatim>\<open>src/primitives\<close>,
  \<^verbatim>\<open>include/amarian/primitives\<close>): outpoints, locks, keys, signatures, spend conditions,
  witnesses, transactions, coins, headers and blocks. Each structure is a record, each
  \<^verbatim>\<open>Serialize\<close> a function on the writer and each \<^verbatim>\<open>Deserialize\<close> a read with the bounds the
  code is given; every pair is an interpretation of \<open>codec\<close>.
\<close>

section \<open>Data\<close>

record outpoint =
  op_txid :: hash256
  op_index :: u32

record lock =
  lock_version :: u8
  lock_program :: byte_vec

record public_key =
  pk_scheme :: u16
  pk_bytes :: byte_vec

record signature =
  sig_scheme :: u16
  sig_bytes :: byte_vec

record spend_condition =
  sc_version :: u8
  sc_threshold :: u8
  sc_keys :: "public_key list"

record witness =
  wit_condition :: spend_condition
  wit_signatures :: "signature list"

record tx_input =
  in_outpoint :: outpoint
  in_sequence :: u32

record tx_output =
  out_amount :: i64
  out_lock :: lock

record tx_limits =
  max_inputs :: nat
  max_outputs :: nat
  max_witnesses :: nat
  max_lock_program_size :: nat
  max_keys :: nat
  max_key_size :: nat
  max_signatures :: nat
  max_signature_size :: nat
  max_coinbase_data_size :: nat

record transaction =
  tx_version :: u32
  tx_inputs :: "tx_input list"
  tx_outputs :: "tx_output list"
  tx_locktime :: u32
  tx_witnesses :: "witness list"
  tx_coinbase_data :: byte_vec

record coin =
  coin_output :: tx_output
  coin_height :: u32
  coin_is_coinbase :: bool

record block_header =
  hdr_version :: u32
  hdr_height :: u32
  hdr_prev_block :: hash256
  hdr_merkle_root :: hash256
  hdr_timestamp :: i64
  hdr_target_bits :: u32
  hdr_nonce :: u64

record block_limits =
  max_transactions :: nat
  limits_tx :: tx_limits

record block =
  blk_header :: block_header
  blk_transactions :: "transaction list"

section \<open>Constants\<close>

definition LOCK_VERSION_UNSPENDABLE :: u8 where "LOCK_VERSION_UNSPENDABLE = 0"
definition LOCK_VERSION_CONDITION_COMMITMENT :: u8 where "LOCK_VERSION_CONDITION_COMMITMENT = 1"
definition CONDITION_VERSION_RESERVED :: u8 where "CONDITION_VERSION_RESERVED = 0"
definition CONDITION_VERSION_THRESHOLD :: u8 where "CONDITION_VERSION_THRESHOLD = 1"
definition COINBASE_OUTPOINT_INDEX :: u32 where "COINBASE_OUTPOINT_INDEX = 0xFFFFFFFF"
definition WITNESS_SCALE_FACTOR :: nat where "WITNESS_SCALE_FACTOR = 4"

definition OutPoint_SIZE :: nat where "OutPoint_SIZE = 36"
definition TxInput_SIZE :: nat where "TxInput_SIZE = OutPoint_SIZE + 4"
definition PublicKey_MIN_SIZE :: nat where "PublicKey_MIN_SIZE = 3"
definition Signature_MIN_SIZE :: nat where "Signature_MIN_SIZE = 3"
definition SpendCondition_MIN_SIZE :: nat where "SpendCondition_MIN_SIZE = 3"
definition Witness_MIN_SIZE :: nat where "Witness_MIN_SIZE = SpendCondition_MIN_SIZE + 1"
definition TxOutput_MIN_SIZE :: nat where "TxOutput_MIN_SIZE = 8 + 2"
definition Transaction_MIN_SIZE :: nat where "Transaction_MIN_SIZE = 4 + 3 + 4"
definition Coin_MIN_SIZE :: nat where "Coin_MIN_SIZE = 4 + 1 + TxOutput_MIN_SIZE"
definition BlockHeader_SIZE :: nat where "BlockHeader_SIZE = 92"

lemmas size_constants = OutPoint_SIZE_def TxInput_SIZE_def PublicKey_MIN_SIZE_def
  Signature_MIN_SIZE_def SpendCondition_MIN_SIZE_def Witness_MIN_SIZE_def TxOutput_MIN_SIZE_def
  Transaction_MIN_SIZE_def Coin_MIN_SIZE_def BlockHeader_SIZE_def

section \<open>Predicates on the data\<close>

definition Lock_IsUnspendable :: "lock \<Rightarrow> bool" where
  "Lock_IsUnspendable l \<longleftrightarrow> lock_version l = LOCK_VERSION_UNSPENDABLE"

text \<open>Ascending by scheme, then lexicographically by bytes (the defaulted \<^verbatim>\<open><=>\<close>).\<close>

definition PublicKey_less :: "public_key \<Rightarrow> public_key \<Rightarrow> bool" where
  "PublicKey_less a b \<longleftrightarrow>
     pk_scheme a < pk_scheme b \<or> (pk_scheme a = pk_scheme b \<and> lex_less (pk_bytes a) (pk_bytes b))"

definition is_null_outpoint :: "outpoint \<Rightarrow> bool" where
  "is_null_outpoint o' \<longleftrightarrow> IsZero (op_txid o') \<and> op_index o' = COINBASE_OUTPOINT_INDEX"

definition inputs_are_coinbase :: "tx_input list \<Rightarrow> bool" where
  "inputs_are_coinbase ins =
     (case ins of [i] \<Rightarrow> is_null_outpoint (in_outpoint i) | _ \<Rightarrow> False)"

definition IsCoinbase :: "transaction \<Rightarrow> bool" where
  "IsCoinbase tx \<longleftrightarrow> inputs_are_coinbase (tx_inputs tx)"

definition MakeCoinbaseInput :: "u32 \<Rightarrow> tx_input" where
  "MakeCoinbaseInput height =
     \<lparr>in_outpoint = \<lparr>op_txid = Hash256_zero, op_index = COINBASE_OUTPOINT_INDEX\<rparr>,
      in_sequence = height\<rparr>"

section \<open>Serialisation\<close>

definition WriteHash256 :: "hash256 \<Rightarrow> writer \<Rightarrow> writer" where
  "WriteHash256 h = WriteBytes (Hash256_Span h)"

definition ReadHash256 :: "hash256 read" where
  "ReadHash256 = read_then (ReadBytes 32) (\<lambda>bytes. read_ret (Hash256 (arr_of bytes)))"

definition OutPoint_Serialize :: "outpoint \<Rightarrow> writer \<Rightarrow> writer" where
  "OutPoint_Serialize x =
     writes [WriteHash256 (op_txid x),
       WriteU32 (op_index x)]"

definition OutPoint_Deserialize :: "outpoint read" where
  "OutPoint_Deserialize =
     read_then ReadHash256 (\<lambda>txid. read_then ReadU32 (\<lambda>index.
       read_ret \<lparr>op_txid = txid, op_index = index\<rparr>))"

definition Lock_Serialize :: "lock \<Rightarrow> writer \<Rightarrow> writer" where
  "Lock_Serialize x =
     writes [WriteU8 (lock_version x),
       WriteByteString (lock_program x)]"

definition Lock_Deserialize :: "nat \<Rightarrow> lock read" where
  "Lock_Deserialize max_program_size =
     read_then ReadU8 (\<lambda>version. read_then (ReadByteString max_program_size) (\<lambda>program.
       read_ret \<lparr>lock_version = version, lock_program = program\<rparr>))"

definition PublicKey_Serialize :: "public_key \<Rightarrow> writer \<Rightarrow> writer" where
  "PublicKey_Serialize x =
     writes [WriteU16 (pk_scheme x),
       WriteByteString (pk_bytes x)]"

definition PublicKey_Deserialize :: "nat \<Rightarrow> public_key read" where
  "PublicKey_Deserialize max_size =
     read_then ReadU16 (\<lambda>scheme. read_then (ReadByteString max_size) (\<lambda>bytes.
       read_ret \<lparr>pk_scheme = scheme, pk_bytes = bytes\<rparr>))"

definition Signature_Serialize :: "signature \<Rightarrow> writer \<Rightarrow> writer" where
  "Signature_Serialize x =
     writes [WriteU16 (sig_scheme x),
       WriteByteString (sig_bytes x)]"

definition Signature_Deserialize :: "nat \<Rightarrow> signature read" where
  "Signature_Deserialize max_size =
     read_then ReadU16 (\<lambda>scheme. read_then (ReadByteString max_size) (\<lambda>bytes.
       read_ret \<lparr>sig_scheme = scheme, sig_bytes = bytes\<rparr>))"

definition SpendCondition_Serialize :: "spend_condition \<Rightarrow> writer \<Rightarrow> writer" where
  "SpendCondition_Serialize x =
     writes [WriteU8 (sc_version x),
       WriteU8 (sc_threshold x),
       WriteVec PublicKey_Serialize (sc_keys x)]"

definition SpendCondition_Deserialize :: "nat \<Rightarrow> nat \<Rightarrow> spend_condition read" where
  "SpendCondition_Deserialize max_ks max_ksize =
     read_then ReadU8 (\<lambda>version. read_then ReadU8 (\<lambda>threshold.
       read_then (ReadVec max_ks PublicKey_MIN_SIZE (PublicKey_Deserialize max_ksize)) (\<lambda>keys.
         read_ret \<lparr>sc_version = version, sc_threshold = threshold, sc_keys = keys\<rparr>)))"

definition Witness_Serialize :: "witness \<Rightarrow> writer \<Rightarrow> writer" where
  "Witness_Serialize x =
     writes [SpendCondition_Serialize (wit_condition x),
       WriteVec Signature_Serialize (wit_signatures x)]"

definition Witness_Deserialize :: "nat \<Rightarrow> nat \<Rightarrow> nat \<Rightarrow> nat \<Rightarrow> witness read" where
  "Witness_Deserialize max_ks max_ksize max_sigs max_ssize =
     read_then (SpendCondition_Deserialize max_ks max_ksize) (\<lambda>condition.
       read_then (ReadVec max_sigs Signature_MIN_SIZE (Signature_Deserialize max_ssize)) (\<lambda>signatures.
         read_ret \<lparr>wit_condition = condition, wit_signatures = signatures\<rparr>))"

definition TxInput_Serialize :: "tx_input \<Rightarrow> writer \<Rightarrow> writer" where
  "TxInput_Serialize x =
     writes [OutPoint_Serialize (in_outpoint x),
       WriteU32 (in_sequence x)]"

definition TxInput_Deserialize :: "tx_input read" where
  "TxInput_Deserialize =
     read_then OutPoint_Deserialize (\<lambda>outpoint. read_then ReadU32 (\<lambda>sequence.
       read_ret \<lparr>in_outpoint = outpoint, in_sequence = sequence\<rparr>))"

definition TxOutput_Serialize :: "tx_output \<Rightarrow> writer \<Rightarrow> writer" where
  "TxOutput_Serialize x =
     writes [WriteI64 (out_amount x),
       Lock_Serialize (out_lock x)]"

definition TxOutput_Deserialize :: "nat \<Rightarrow> tx_output read" where
  "TxOutput_Deserialize max_program_size =
     read_then ReadI64 (\<lambda>amount. read_then (Lock_Deserialize max_program_size) (\<lambda>l.
       if \<not> IsValidAmount amount then read_fail
       else read_ret \<lparr>out_amount = amount, out_lock = l\<rparr>))"

definition SerializeWithoutWitnesses :: "transaction \<Rightarrow> writer \<Rightarrow> writer" where
  "SerializeWithoutWitnesses tx =
     writes [WriteU32 (tx_version tx),
       WriteVec TxInput_Serialize (tx_inputs tx),
       WriteVec TxOutput_Serialize (tx_outputs tx),
       WriteU32 (tx_locktime tx)]"

definition Transaction_Serialize :: "transaction \<Rightarrow> writer \<Rightarrow> writer" where
  "Transaction_Serialize tx =
     writes [SerializeWithoutWitnesses tx,
       (if IsCoinbase tx then WriteByteString (tx_coinbase_data tx)
        else WriteVec Witness_Serialize (tx_witnesses tx))]"

definition Transaction_Deserialize :: "tx_limits \<Rightarrow> transaction read" where
  "Transaction_Deserialize limits =
     read_then ReadU32 (\<lambda>version.
     read_then (ReadVec (max_inputs limits) TxInput_SIZE TxInput_Deserialize) (\<lambda>inputs.
     read_then (ReadVec (max_outputs limits) TxOutput_MIN_SIZE
         (TxOutput_Deserialize (max_lock_program_size limits))) (\<lambda>outputs.
     read_then ReadU32 (\<lambda>locktime.
       if inputs_are_coinbase inputs then
         read_then (ReadByteString (max_coinbase_data_size limits)) (\<lambda>coinbase_data.
           read_ret \<lparr>tx_version = version, tx_inputs = inputs, tx_outputs = outputs,
             tx_locktime = locktime, tx_witnesses = [], tx_coinbase_data = coinbase_data\<rparr>)
       else
         read_then (ReadVec (max_witnesses limits) Witness_MIN_SIZE
             (Witness_Deserialize (max_keys limits) (max_key_size limits)
               (max_signatures limits) (max_signature_size limits))) (\<lambda>witnesses.
           read_ret \<lparr>tx_version = version, tx_inputs = inputs, tx_outputs = outputs,
             tx_locktime = locktime, tx_witnesses = witnesses, tx_coinbase_data = []\<rparr>)))))"

definition Coin_Serialize :: "coin \<Rightarrow> writer \<Rightarrow> writer" where
  "Coin_Serialize x =
     writes [WriteU32 (coin_height x),
       WriteU8 (if coin_is_coinbase x then 1 else 0),
       TxOutput_Serialize (coin_output x)]"

definition Coin_Deserialize :: "nat \<Rightarrow> coin read" where
  "Coin_Deserialize max_program_size =
     read_then ReadU32 (\<lambda>height. read_then ReadU8 (\<lambda>flag.
       if flag > 1 then read_fail
       else read_then (TxOutput_Deserialize max_program_size) (\<lambda>output.
         read_ret \<lparr>coin_output = output, coin_height = height, coin_is_coinbase = (flag = 1)\<rparr>)))"

definition BlockHeader_Serialize :: "block_header \<Rightarrow> writer \<Rightarrow> writer" where
  "BlockHeader_Serialize x =
     writes [WriteU32 (hdr_version x),
       WriteU32 (hdr_height x),
       WriteHash256 (hdr_prev_block x),
       WriteHash256 (hdr_merkle_root x),
       WriteI64 (hdr_timestamp x),
       WriteU32 (hdr_target_bits x),
       WriteU64 (hdr_nonce x)]"

definition BlockHeader_Deserialize :: "block_header read" where
  "BlockHeader_Deserialize =
     read_then ReadU32 (\<lambda>version. read_then ReadU32 (\<lambda>height.
     read_then ReadHash256 (\<lambda>prev_block. read_then ReadHash256 (\<lambda>merkle_root.
     read_then ReadI64 (\<lambda>timestamp. read_then ReadU32 (\<lambda>target_bits.
     read_then ReadU64 (\<lambda>nonce.
       read_ret \<lparr>hdr_version = version, hdr_height = height, hdr_prev_block = prev_block,
         hdr_merkle_root = merkle_root, hdr_timestamp = timestamp,
         hdr_target_bits = target_bits, hdr_nonce = nonce\<rparr>)))))))"

definition Block_Serialize :: "block \<Rightarrow> writer \<Rightarrow> writer" where
  "Block_Serialize x =
     writes [BlockHeader_Serialize (blk_header x),
       WriteVec Transaction_Serialize (blk_transactions x)]"

definition Block_Deserialize :: "block_limits \<Rightarrow> block read" where
  "Block_Deserialize limits =
     read_then BlockHeader_Deserialize (\<lambda>header.
       read_then (ReadVec (max_transactions limits) Transaction_MIN_SIZE
           (Transaction_Deserialize (limits_tx limits))) (\<lambda>transactions.
         read_ret \<lparr>blk_header = header, blk_transactions = transactions\<rparr>))"

section \<open>Identifiers and weight\<close>

definition Txid :: "crypto_ext \<Rightarrow> transaction \<Rightarrow> hash256" where
  "Txid E tx = DoubleSha256 E (SerializeWithoutWitnesses tx [])"

definition Wtxid :: "crypto_ext \<Rightarrow> transaction \<Rightarrow> hash256" where
  "Wtxid E tx = DoubleSha256 E (Transaction_Serialize tx [])"

definition Transaction_Weight :: "transaction \<Rightarrow> nat" where
  "Transaction_Weight tx =
     (let base = length (SerializeWithoutWitnesses tx []);
          full = length (Transaction_Serialize tx [])
      in base * WITNESS_SCALE_FACTOR + (full - base))"

definition BlockHeader_Hash :: "crypto_ext \<Rightarrow> block_header \<Rightarrow> hash256" where
  "BlockHeader_Hash E h = DoubleSha256 E (BlockHeader_Serialize h [])"

definition Block_Hash :: "crypto_ext \<Rightarrow> block \<Rightarrow> hash256" where
  "Block_Hash E b = BlockHeader_Hash E (blk_header b)"

definition Block_Weight :: "block \<Rightarrow> nat" where
  "Block_Weight b =
     (BlockHeader_SIZE + CompactSizeLen (of_nat (length (blk_transactions b)))) * WITNESS_SCALE_FACTOR +
     sum_list (map Transaction_Weight (blk_transactions b))"

section \<open>Every structure is a codec\<close>

text \<open>What the decoders admit: the bounds they are given, and the structural rules.\<close>

abbreviation fits :: "nat \<Rightarrow> 'a list \<Rightarrow> bool" where
  "fits m xs \<equiv> length xs \<le> m \<and> length xs < 2 ^ 64"

definition Lock_valid :: "nat \<Rightarrow> lock \<Rightarrow> bool" where
  "Lock_valid m l \<longleftrightarrow> fits m (lock_program l)"

definition PublicKey_valid :: "nat \<Rightarrow> public_key \<Rightarrow> bool" where
  "PublicKey_valid m k \<longleftrightarrow> fits m (pk_bytes k)"

definition Signature_valid :: "nat \<Rightarrow> signature \<Rightarrow> bool" where
  "Signature_valid m s \<longleftrightarrow> fits m (sig_bytes s)"

definition SpendCondition_valid :: "nat \<Rightarrow> nat \<Rightarrow> spend_condition \<Rightarrow> bool" where
  "SpendCondition_valid mk ms c \<longleftrightarrow>
     fits mk (sc_keys c) \<and> (\<forall>k \<in> set (sc_keys c). PublicKey_valid ms k)"

definition Witness_valid :: "nat \<Rightarrow> nat \<Rightarrow> nat \<Rightarrow> nat \<Rightarrow> witness \<Rightarrow> bool" where
  "Witness_valid mk ms mg mz w \<longleftrightarrow>
     SpendCondition_valid mk ms (wit_condition w) \<and>
     fits mg (wit_signatures w) \<and> (\<forall>s \<in> set (wit_signatures w). Signature_valid mz s)"

definition TxOutput_valid :: "nat \<Rightarrow> tx_output \<Rightarrow> bool" where
  "TxOutput_valid m out \<longleftrightarrow> IsValidAmount (out_amount out) \<and> Lock_valid m (out_lock out)"

definition Transaction_valid :: "tx_limits \<Rightarrow> transaction \<Rightarrow> bool" where
  "Transaction_valid L tx \<longleftrightarrow>
     fits (max_inputs L) (tx_inputs tx) \<and>
     fits (max_outputs L) (tx_outputs tx) \<and>
     (\<forall>out \<in> set (tx_outputs tx). TxOutput_valid (max_lock_program_size L) out) \<and>
     (if IsCoinbase tx then tx_witnesses tx = [] \<and> fits (max_coinbase_data_size L) (tx_coinbase_data tx)
      else tx_coinbase_data tx = [] \<and> fits (max_witnesses L) (tx_witnesses tx) \<and>
        (\<forall>w \<in> set (tx_witnesses tx).
          Witness_valid (max_keys L) (max_key_size L) (max_signatures L) (max_signature_size L) w))"

definition Coin_valid :: "nat \<Rightarrow> coin \<Rightarrow> bool" where
  "Coin_valid m c \<longleftrightarrow> TxOutput_valid m (coin_output c)"

definition BlockHeader_valid :: "block_header \<Rightarrow> bool" where
  "BlockHeader_valid h \<longleftrightarrow> i64_ok (hdr_timestamp h)"

definition Block_valid :: "block_limits \<Rightarrow> block \<Rightarrow> bool" where
  "Block_valid L b \<longleftrightarrow> BlockHeader_valid (blk_header b) \<and>
     fits (max_transactions L) (blk_transactions b) \<and>
     (\<forall>tx \<in> set (blk_transactions b). Transaction_valid (limits_tx L) tx)"

lemmas valid_defs = Lock_valid_def PublicKey_valid_def Signature_valid_def
  SpendCondition_valid_def Witness_valid_def TxOutput_valid_def Coin_valid_def
  BlockHeader_valid_def

lemma hash256_codec: "codec WriteHash256 ReadHash256 (\<lambda>_. True) 32"
proof (intro codec.intro codec_axioms.intro)
  show "parser (\<lambda>x. WriteHash256 x []) ReadHash256 (\<lambda>_ _. True)"
    unfolding ReadHash256_def ReadBytes_def
    by (rule parser.map_parser [OF Consume_parser, where dest = Hash256_Span])
      (simp_all add: WriteHash256_def WriteBytes_def Hash256_Span_def)
qed (simp_all add: WriteHash256_def WriteBytes_def Hash256_Span_def)

interpretation hash256: codec WriteHash256 ReadHash256 "\<lambda>_. True" 32
  by (rule hash256_codec)

interpretation outpoint: codec OutPoint_Serialize OutPoint_Deserialize "\<lambda>_. True" OutPoint_SIZE
  by (rule codec.iso_codec [OF hash256.pair_codec [OF u32.codec_axioms],
      where mk = "\<lambda>(a, b). \<lparr>op_txid = a, op_index = b\<rparr>" and dest = "\<lambda>x. (op_txid x, op_index x)"])
    (auto simp: OutPoint_Serialize_def OutPoint_Deserialize_def size_constants)

interpretation lock: codec Lock_Serialize "Lock_Deserialize m" "Lock_valid m" 2 for m
  by (rule codec.iso_codec [OF u8.pair_codec [OF byte_string_codec],
      where mk = "\<lambda>(a, b). \<lparr>lock_version = a, lock_program = b\<rparr>"
        and dest = "\<lambda>x. (lock_version x, lock_program x)"])
    (auto simp: Lock_Serialize_def Lock_Deserialize_def valid_defs)

interpretation pubkey: codec PublicKey_Serialize "PublicKey_Deserialize m" "PublicKey_valid m"
  PublicKey_MIN_SIZE for m
  by (rule codec.iso_codec [OF u16.pair_codec [OF byte_string_codec],
      where mk = "\<lambda>(a, b). \<lparr>pk_scheme = a, pk_bytes = b\<rparr>"
        and dest = "\<lambda>x. (pk_scheme x, pk_bytes x)"])
    (auto simp: PublicKey_Serialize_def PublicKey_Deserialize_def valid_defs size_constants)

interpretation sgn: codec Signature_Serialize "Signature_Deserialize m" "Signature_valid m"
  Signature_MIN_SIZE for m
  by (rule codec.iso_codec [OF u16.pair_codec [OF byte_string_codec],
      where mk = "\<lambda>(a, b). \<lparr>sig_scheme = a, sig_bytes = b\<rparr>"
        and dest = "\<lambda>x. (sig_scheme x, sig_bytes x)"])
    (auto simp: Signature_Serialize_def Signature_Deserialize_def valid_defs size_constants)

lemma keys_codec: "codec (WriteVec PublicKey_Serialize)
    (ReadVec mk PublicKey_MIN_SIZE (PublicKey_Deserialize ms))
    (\<lambda>xs. fits mk xs \<and> (\<forall>x \<in> set xs. PublicKey_valid ms x)) 1"
  using pubkey.vec_codec [of PublicKey_MIN_SIZE mk ms] by (simp add: size_constants conj_assoc)

lemma sigs_codec: "codec (WriteVec Signature_Serialize)
    (ReadVec mk Signature_MIN_SIZE (Signature_Deserialize ms))
    (\<lambda>xs. fits mk xs \<and> (\<forall>x \<in> set xs. Signature_valid ms x)) 1"
  using sgn.vec_codec [of Signature_MIN_SIZE mk ms] by (simp add: size_constants conj_assoc)

interpretation condition: codec SpendCondition_Serialize "SpendCondition_Deserialize mk ms"
  "SpendCondition_valid mk ms" SpendCondition_MIN_SIZE for mk ms
  by (rule codec.iso_codec [OF u8.pair_codec [OF u8.pair_codec [OF keys_codec]],
      where mk = "\<lambda>(a, b, c). \<lparr>sc_version = a, sc_threshold = b, sc_keys = c\<rparr>"
        and dest = "\<lambda>x. (sc_version x, sc_threshold x, sc_keys x)"])
    (auto simp: SpendCondition_Serialize_def SpendCondition_Deserialize_def
      SpendCondition_valid_def size_constants fcomp_assoc)

interpretation witness: codec Witness_Serialize "Witness_Deserialize mk ms mg mz"
  "Witness_valid mk ms mg mz" Witness_MIN_SIZE for mk ms mg mz
  by (rule codec.iso_codec [OF condition.pair_codec [OF sigs_codec],
      where mk = "\<lambda>(a, b). \<lparr>wit_condition = a, wit_signatures = b\<rparr>"
        and dest = "\<lambda>x. (wit_condition x, wit_signatures x)"])
    (auto simp: Witness_Serialize_def Witness_Deserialize_def
      Witness_valid_def size_constants fcomp_assoc)

interpretation txin: codec TxInput_Serialize TxInput_Deserialize "\<lambda>_. True" TxInput_SIZE
  by (rule codec.iso_codec [OF outpoint.pair_codec [OF u32.codec_axioms],
      where mk = "\<lambda>(a, b). \<lparr>in_outpoint = a, in_sequence = b\<rparr>"
        and dest = "\<lambda>x. (in_outpoint x, in_sequence x)"])
    (auto simp: TxInput_Serialize_def TxInput_Deserialize_def size_constants)


lemma byte_le_1: "(x :: u8) \<le> 1 \<longleftrightarrow> x = 0 \<or> x = 1"
  by (simp add: word_le_nat_alt word_unat_eq_iff) arith

lemma IsValidAmount_i64 [simp]: "IsValidAmount a \<Longrightarrow> i64_ok a"
  by (simp add: IsValidAmount_def i64_ok_def MAX_MONEY_def)

interpretation txout: codec TxOutput_Serialize "TxOutput_Deserialize m" "TxOutput_valid m"
  TxOutput_MIN_SIZE for m
proof -
  have p: "codec (\<lambda>(a, b). fcomp (WriteI64 a) (Lock_Serialize b))
      (read_then (read_then ReadI64 (\<lambda>a. read_then (Lock_Deserialize m) (\<lambda>b. read_ret (a, b))))
        (\<lambda>p. if IsValidAmount (fst p) then read_ret p else read_fail))
      (\<lambda>p. (case p of (a, b) \<Rightarrow> i64_ok a \<and> Lock_valid m b) \<and> IsValidAmount (fst p)) (8 + 2)"
    by (rule codec.guard_codec [OF i64.pair_codec [OF lock.codec_axioms]])
  have "(if \<not> b then x else y) = (if b then y else x)" for b and x y :: "tx_output read"
    by simp
  then show "codec TxOutput_Serialize (TxOutput_Deserialize m) (TxOutput_valid m) TxOutput_MIN_SIZE"
    by (intro codec.iso_codec [OF p,
      where mk = "\<lambda>(a, b). \<lparr>out_amount = a, out_lock = b\<rparr>"
        and dest = "\<lambda>x. (out_amount x, out_lock x)"])
    (auto simp: TxOutput_Serialize_def TxOutput_Deserialize_def read_then_if
      TxOutput_valid_def size_constants cong: if_cong)
qed

interpretation coin: codec Coin_Serialize "Coin_Deserialize m" "Coin_valid m" Coin_MIN_SIZE for m
proof -
  have f: "codec WriteU8 (read_then ReadU8 (\<lambda>x. if x \<le> 1 then read_ret x else read_fail))
      (\<lambda>x. True \<and> x \<le> 1) 1"
    by (rule u8.guard_codec)
  have "codec (\<lambda>b. WriteU8 (if b then 1 else 0))
      (read_then (read_then ReadU8 (\<lambda>x. if x \<le> 1 then read_ret x else read_fail))
        (\<lambda>x. read_ret (x = 1))) (\<lambda>_. True) 1"
    by (rule codec.iso_codec [OF f, where dest = "\<lambda>b. if b then 1 else 0"])
      (auto simp: byte_le_1)
  note c = u32.pair_codec [OF codec.pair_codec [OF this txout.codec_axioms]]
  have "(if \<not> x \<le> (1 :: u8) then a else b) = (if x \<le> 1 then b else a)" for x and a b :: "coin read"
    by simp
  then show "codec Coin_Serialize (Coin_Deserialize m) (Coin_valid m) Coin_MIN_SIZE"
    by (intro codec.iso_codec [OF c,
      where mk = "\<lambda>(a, b, c). \<lparr>coin_output = c, coin_height = a, coin_is_coinbase = b\<rparr>"
        and dest = "\<lambda>x. (coin_height x, coin_is_coinbase x, coin_output x)"])
    (auto simp: Coin_Serialize_def Coin_Deserialize_def read_then_if not_le [symmetric]
      Coin_valid_def size_constants cong: if_cong)
qed

interpretation header: codec BlockHeader_Serialize BlockHeader_Deserialize BlockHeader_valid
  BlockHeader_SIZE
  by (rule codec.iso_codec [OF u32.pair_codec [OF u32.pair_codec [OF hash256.pair_codec [OF
      hash256.pair_codec [OF i64.pair_codec [OF u32.pair_codec [OF u64.codec_axioms]]]]]],
      where mk = "\<lambda>(a, b, c, d, e, f, g). \<lparr>hdr_version = a, hdr_height = b, hdr_prev_block = c,
         hdr_merkle_root = d, hdr_timestamp = e, hdr_target_bits = f, hdr_nonce = g\<rparr>"
        and dest = "\<lambda>x. (hdr_version x, hdr_height x, hdr_prev_block x,
         hdr_merkle_root x, hdr_timestamp x, hdr_target_bits x, hdr_nonce x)"])
    (auto simp: BlockHeader_Serialize_def BlockHeader_Deserialize_def BlockHeader_valid_def
      size_constants fcomp_assoc)


lemma inputs_codec: "codec (WriteVec TxInput_Serialize)
    (ReadVec m TxInput_SIZE TxInput_Deserialize) (fits m) 1"
  using txin.vec_codec [of TxInput_SIZE m] by (simp add: size_constants)

lemma outputs_codec: "codec (WriteVec TxOutput_Serialize)
    (ReadVec m TxOutput_MIN_SIZE (TxOutput_Deserialize k))
    (\<lambda>xs. fits m xs \<and> (\<forall>x \<in> set xs. TxOutput_valid k x)) 1"
  using txout.vec_codec [of TxOutput_MIN_SIZE m k] by (simp add: size_constants conj_assoc)

lemma witnesses_codec: "codec (WriteVec Witness_Serialize)
    (ReadVec m Witness_MIN_SIZE (Witness_Deserialize mk ms mg mz))
    (\<lambda>xs. fits m xs \<and> (\<forall>x \<in> set xs. Witness_valid mk ms mg mz x)) 1"
  using witness.vec_codec [of Witness_MIN_SIZE m mk ms mg mz] by (simp add: size_constants conj_assoc)

text \<open>
  A transaction is the section every transaction starts with, then the one its inputs select:
  free bytes for a coinbase, witnesses otherwise.
\<close>

definition tx_base_ser :: "u32 \<times> tx_input list \<times> tx_output list \<times> u32 \<Rightarrow> writer \<Rightarrow> writer" where
  "tx_base_ser = (\<lambda>(v, ins, outs, lt). fcomp (WriteU32 v) (fcomp (WriteVec TxInput_Serialize ins)
     (fcomp (WriteVec TxOutput_Serialize outs) (WriteU32 lt))))"

definition tx_tail_ser :: "tx_input list \<Rightarrow> witness list \<times> byte_vec \<Rightarrow> writer \<Rightarrow> writer" where
  "tx_tail_ser ins = (\<lambda>(ws, cb). if inputs_are_coinbase ins then WriteByteString cb
     else WriteVec Witness_Serialize ws)"

definition tx_tail_read :: "tx_limits \<Rightarrow> tx_input list \<Rightarrow> (witness list \<times> byte_vec) read" where
  "tx_tail_read L ins =
     (if inputs_are_coinbase ins
      then read_then (ReadByteString (max_coinbase_data_size L)) (\<lambda>cb. read_ret ([], cb))
      else read_then (ReadVec (max_witnesses L) Witness_MIN_SIZE
             (Witness_Deserialize (max_keys L) (max_key_size L)
               (max_signatures L) (max_signature_size L))) (\<lambda>ws. read_ret (ws, [])))"

definition tx_tail_valid :: "tx_limits \<Rightarrow> tx_input list \<Rightarrow> witness list \<times> byte_vec \<Rightarrow> bool" where
  "tx_tail_valid L ins = (\<lambda>(ws, cb).
     if inputs_are_coinbase ins then ws = [] \<and> fits (max_coinbase_data_size L) cb
     else cb = [] \<and> fits (max_witnesses L) ws \<and>
        (\<forall>w \<in> set ws.
          Witness_valid (max_keys L) (max_key_size L) (max_signatures L) (max_signature_size L) w))"

definition tx_base_read :: "tx_limits \<Rightarrow> (u32 \<times> tx_input list \<times> tx_output list \<times> u32) read" where
  "tx_base_read L =
     read_then ReadU32 (\<lambda>v.
     read_then (ReadVec (max_inputs L) TxInput_SIZE TxInput_Deserialize) (\<lambda>ins.
     read_then (ReadVec (max_outputs L) TxOutput_MIN_SIZE
         (TxOutput_Deserialize (max_lock_program_size L))) (\<lambda>outs.
     read_then ReadU32 (\<lambda>lt. read_ret (v, ins, outs, lt)))))"

definition tx_base_valid :: "tx_limits \<Rightarrow> u32 \<times> tx_input list \<times> tx_output list \<times> u32 \<Rightarrow> bool" where
  "tx_base_valid L = (\<lambda>(v, ins, outs, lt). fits (max_inputs L) ins \<and> fits (max_outputs L) outs \<and>
     (\<forall>out \<in> set outs. TxOutput_valid (max_lock_program_size L) out))"

interpretation txbase: codec tx_base_ser "tx_base_read L" "tx_base_valid L" 10 for L
  by (rule codec.iso_codec [OF u32.pair_codec [OF codec.pair_codec [OF inputs_codec
      codec.pair_codec [OF outputs_codec u32.codec_axioms]]],
      where mk = "\<lambda>x. x" and dest = "\<lambda>x. x"])
    (auto simp: tx_base_ser_def tx_base_read_def tx_base_valid_def)

lemma tx_tail_codec:
  "codec (tx_tail_ser ins) (tx_tail_read L ins) (tx_tail_valid L ins) 1"
proof (cases "inputs_are_coinbase ins")
  case True
  then show ?thesis
    by (intro codec.iso_codec [OF byte_string_codec, where dest = snd and mk = "\<lambda>cb. ([], cb)"])
      (auto simp: tx_tail_ser_def tx_tail_read_def tx_tail_valid_def)
next
  case False
  then show ?thesis
    by (intro codec.iso_codec [OF witnesses_codec, where dest = fst and mk = "\<lambda>ws. (ws, [])"])
      (auto simp: tx_tail_ser_def tx_tail_read_def tx_tail_valid_def)
qed


abbreviation tx_body :: "transaction \<Rightarrow> u32 \<times> tx_input list \<times> tx_output list \<times> u32" where
  "tx_body tx \<equiv> (tx_version tx, tx_inputs tx, tx_outputs tx, tx_locktime tx)"

abbreviation tx_tail :: "transaction \<Rightarrow> witness list \<times> byte_vec" where
  "tx_tail tx \<equiv> (tx_witnesses tx, tx_coinbase_data tx)"

lemma SerializeWithoutWitnesses_body: "SerializeWithoutWitnesses tx = tx_base_ser (tx_body tx)"
  by (simp add: SerializeWithoutWitnesses_def tx_base_ser_def fcomp_assoc)

lemma Transaction_Serialize_tail:
  "Transaction_Serialize tx = fcomp (tx_base_ser (tx_body tx)) (tx_tail_ser (tx_inputs tx) (tx_tail tx))"
  by (simp add: Transaction_Serialize_def SerializeWithoutWitnesses_body tx_tail_ser_def
      IsCoinbase_def)

interpretation tx: codec Transaction_Serialize "Transaction_Deserialize L" "Transaction_valid L"
  Transaction_MIN_SIZE for L
  by (rule codec.iso_codec [OF txbase.dep_codec [where ser' = "\<lambda>a. tx_tail_ser (fst (snd a))"
        and des' = "\<lambda>a. tx_tail_read L (fst (snd a))"
        and valid' = "\<lambda>a. tx_tail_valid L (fst (snd a))" and L = L, OF tx_tail_codec],
      where mk = "\<lambda>((v, ins, outs, lt), ws, cb). \<lparr>tx_version = v, tx_inputs = ins,
          tx_outputs = outs, tx_locktime = lt, tx_witnesses = ws, tx_coinbase_data = cb\<rparr>"
        and dest = "\<lambda>tx. (tx_body tx, tx_tail tx)"])
    (auto simp: Transaction_Serialize_tail Transaction_Deserialize_def Transaction_valid_def
      tx_base_read_def tx_base_valid_def tx_tail_read_def tx_tail_valid_def IsCoinbase_def
      size_constants read_then_if cong: if_cong)

lemma txs_codec: "codec (WriteVec Transaction_Serialize)
    (ReadVec m Transaction_MIN_SIZE (Transaction_Deserialize L))
    (\<lambda>xs. fits m xs \<and> (\<forall>x \<in> set xs. Transaction_valid L x)) 1"
  using tx.vec_codec [of Transaction_MIN_SIZE m L] by (simp add: size_constants conj_assoc)

interpretation block: codec Block_Serialize "Block_Deserialize L" "Block_valid L"
  "BlockHeader_SIZE + 1" for L
  by (rule codec.iso_codec [OF header.pair_codec [OF txs_codec],
      where mk = "\<lambda>(a, b). \<lparr>blk_header = a, blk_transactions = b\<rparr>"
        and dest = "\<lambda>x. (blk_header x, blk_transactions x)"])
    (auto simp: Block_Serialize_def Block_Deserialize_def Block_valid_def)

section \<open>Sizes, identifiers and order\<close>

lemma length_ints [ser_simps]:
  "length (WriteU8 a []) = 1" "length (WriteU16 b []) = 2" "length (WriteU32 c []) = 4"
  "length (WriteU64 d []) = 8" "length (WriteI64 e []) = 8" "length (WriteHash256 h []) = 32"
  by (simp_all add: WriteU8_def WriteU16_def WriteU32_def WriteU64_def WriteI64_def
      AppendLittleEndian_def WriteHash256_def WriteBytes_def Hash256_Span_def)

text \<open>A structure whose fields all have a fixed size has one too.\<close>

lemma length_fcomp:
  assumes "\<And>w. g w = w @ g []"
  shows "length (fcomp f g []) = length (f []) + length (g [])"
  using assms [of "f []"] by (simp add: fcomp_def)

lemma length_OutPoint [ser_simps]: "length (OutPoint_Serialize x []) = OutPoint_SIZE"
  by (simp only: OutPoint_Serialize_def writes_seq length_fcomp [OF u32.ser_append] length_ints OutPoint_SIZE_def)

lemma length_TxInput [ser_simps]: "length (TxInput_Serialize x []) = TxInput_SIZE"
  by (simp only: TxInput_Serialize_def writes_seq length_fcomp [OF u32.ser_append] length_ints length_OutPoint
      size_constants)

lemma BlockHeader_size: "length (BlockHeader_Serialize h []) = BlockHeader_SIZE"
  by (simp only: BlockHeader_Serialize_def writes_seq length_fcomp [OF u32.ser_append]
      length_fcomp [OF u64.ser_append] length_fcomp [OF i64.ser_append]
      length_fcomp [OF hash256.ser_append] length_ints BlockHeader_SIZE_def)

lemma Transaction_Serialize_parts:
  "Transaction_Serialize tx [] =
     SerializeWithoutWitnesses tx [] @ tx_tail_ser (tx_inputs tx) (tx_tail tx) []"
proof -
  have "Transaction_Serialize tx [] =
      tx_tail_ser (tx_inputs tx) (tx_tail tx) (tx_base_ser (tx_body tx) [])"
    by (simp add: Transaction_Serialize_tail)
  also have "\<dots> = tx_base_ser (tx_body tx) [] @ tx_tail_ser (tx_inputs tx) (tx_tail tx) []"
    by (rule codec.ser_append [OF tx_tail_codec])
  finally show ?thesis by (simp only: SerializeWithoutWitnesses_body)
qed

lemma Transaction_Weight_parts:
  "Transaction_Weight tx = 4 * length (SerializeWithoutWitnesses tx []) +
     length (tx_tail_ser (tx_inputs tx) (tx_tail tx) [])"
  by (simp add: Transaction_Weight_def Transaction_Serialize_parts WITNESS_SCALE_FACTOR_def)

text \<open>What the non-witness bytes, and so the txid's preimage, determine.\<close>

definition body_valid :: "transaction \<Rightarrow> bool" where
  "body_valid tx \<longleftrightarrow> length (tx_inputs tx) < 2 ^ 64 \<and> length (tx_outputs tx) < 2 ^ 64 \<and>
     (\<forall>out \<in> set (tx_outputs tx). IsValidAmount (out_amount out) \<and>
        length (lock_program (out_lock out)) < 2 ^ 64)"

lemma SerializeWithoutWitnesses_inject:
  assumes "body_valid a" and "body_valid b"
    and "SerializeWithoutWitnesses a [] = SerializeWithoutWitnesses b []"
  shows "tx_body a = tx_body b"
proof -
  let ?L = "\<lparr>max_inputs = 2 ^ 64, max_outputs = 2 ^ 64, max_witnesses = 0,
    max_lock_program_size = 2 ^ 64, max_keys = 0, max_key_size = 0, max_signatures = 0,
    max_signature_size = 0, max_coinbase_data_size = 0\<rparr>"
  have v: "tx_base_valid ?L (tx_body a)" if "body_valid a" for a
    using that by (auto simp: body_valid_def tx_base_valid_def TxOutput_valid_def Lock_valid_def)
  show ?thesis
    using txbase.enc_inject [OF v v, OF assms(1,2), of "[]" "[]"] assms(3)
    by (simp only: SerializeWithoutWitnesses_body append_Nil2)
qed

text \<open>
  The weight of a block is three times its size without witnesses plus its full size: a byte
  outside the witnesses costs four, a byte in them one.
\<close>

definition block_base_size :: "block \<Rightarrow> nat" where
  "block_base_size b = length (BlockHeader_Serialize (blk_header b) []) +
     length (WriteVec SerializeWithoutWitnesses (blk_transactions b) [])"

lemma length_WriteVec:
  assumes "\<And>x w. ser x w = w @ ser x []"
  shows "length (WriteVec ser xs []) =
    CompactSizeLen (of_nat (length xs)) + sum_list (map (\<lambda>x. length (ser x [])) xs)"
  using fold_append [of xs ser, OF assms]
  by (simp add: WriteVec_def fcomp_def length_WriteCompactSize length_concat comp_def)

lemma SerializeWithoutWitnesses_append:
  "SerializeWithoutWitnesses tx w = w @ SerializeWithoutWitnesses tx []"
  unfolding SerializeWithoutWitnesses_body by (rule txbase.ser_append)

lemma Block_Weight_eq:
  "Block_Weight b = 3 * block_base_size b + length (Block_Serialize b [])"
proof -
  have f: "length (Block_Serialize b []) = BlockHeader_SIZE +
      length (WriteVec Transaction_Serialize (blk_transactions b) [])"
    by (simp only: Block_Serialize_def writes_seq length_fcomp [OF codec.ser_append [OF txs_codec]] BlockHeader_size)
  have w: "sum_list (map Transaction_Weight txs) =
      3 * sum_list (map (\<lambda>x. length (SerializeWithoutWitnesses x [])) txs) +
      sum_list (map (\<lambda>x. length (Transaction_Serialize x [])) txs)" for txs
    by (induction txs) (simp_all add: Transaction_Weight_parts Transaction_Serialize_parts)
  show ?thesis
    by (simp add: f w Block_Weight_def block_base_size_def BlockHeader_size WITNESS_SCALE_FACTOR_def
        length_WriteVec [of Transaction_Serialize, OF tx.ser_append]
        length_WriteVec [of SerializeWithoutWitnesses, OF SerializeWithoutWitnesses_append])
qed

lemma PublicKey_less_irrefl [simp]: "\<not> PublicKey_less a a"
  by (simp add: PublicKey_less_def)

lemma PublicKey_less_trans: "PublicKey_less a b \<Longrightarrow> PublicKey_less b c \<Longrightarrow> PublicKey_less a c"
  by (auto simp: PublicKey_less_def dest: lex_less_trans)

lemma PublicKey_less_total: "a \<noteq> b \<Longrightarrow> PublicKey_less a b \<or> PublicKey_less b a"
  using lex_less_total [of "pk_bytes a" "pk_bytes b"] public_key.equality [of a b]
  by (auto simp: PublicKey_less_def not_less_iff_gr_or_eq) blast

section \<open>Properties\<close>

text \<open>
  Transactions have one encoding: a buffer decodes to a transaction exactly when
  the transaction is within the limits and the buffer is what the serializer writes for it. So
  every decoded transaction re-encodes to the bytes it came from, trailing bytes are refused, and
  every transaction within the limits survives the round trip.
\<close>

theorem transaction_roundtrip:
  "decode_all (Transaction_Deserialize L) bs = Some tx \<longleftrightarrow>
     Transaction_valid L tx \<and> bs = Transaction_Serialize tx []"
  by (rule tx.decode_all_iff)

text \<open>Blocks have one encoding, in the same sense.\<close>

theorem block_roundtrip:
  "decode_all (Block_Deserialize L) bs = Some b \<longleftrightarrow> Block_valid L b \<and> bs = Block_Serialize b []"
  by (rule block.decode_all_iff)

text \<open>
  A block header is always 92 bytes, and the weight the code sums up per transaction
  is three times the size of the block without witnesses plus its full size.
\<close>

theorem block_weight:
  "length (BlockHeader_Serialize h []) = BlockHeader_SIZE \<and>
   Block_Weight b = 3 * block_base_size b + length (Block_Serialize b [])"
  using BlockHeader_size Block_Weight_eq by blast

text \<open>
  The bytes a txid hashes determine everything of a transaction but its witnesses
  and coinbase data, and nothing in the witnesses changes them: a third party that alters a
  signature does not alter the txid.
\<close>

theorem txid_commits_to_body:
  assumes "body_valid a" and "body_valid b"
  shows "SerializeWithoutWitnesses a [] = SerializeWithoutWitnesses b [] \<longleftrightarrow> tx_body a = tx_body b"
  using SerializeWithoutWitnesses_inject [OF assms] by (auto simp: SerializeWithoutWitnesses_body)

text \<open>The writers, for computing the encodings of concrete values.\<close>

lemmas writer_defs = WriteVec_def WriteHash256_def WriteCompactSize_def WriteU8_def WriteU16_def WriteU32_def
  WriteU64_def WriteI64_def WriteByteString_def WriteBytes_def AppendLittleEndian_def
  OutPoint_Serialize_def Lock_Serialize_def PublicKey_Serialize_def Signature_Serialize_def
  SpendCondition_Serialize_def Witness_Serialize_def TxInput_Serialize_def TxOutput_Serialize_def
  SerializeWithoutWitnesses_def Transaction_Serialize_def

definition example_tx :: "u32 \<Rightarrow> transaction" where
  "example_tx n =
     \<lparr>tx_version = 1,
      tx_inputs = [\<lparr>in_outpoint = \<lparr>op_txid = Hash256_zero, op_index = n\<rparr>, in_sequence = 0\<rparr>],
      tx_outputs = [\<lparr>out_amount = 5, out_lock = \<lparr>lock_version = 2, lock_program = [1, 2]\<rparr>\<rparr>],
      tx_locktime = 0, tx_witnesses = [], tx_coinbase_data = []\<rparr>"

theorem txid_commits_to_body_witness:
  "SerializeWithoutWitnesses (example_tx 1) [] \<noteq> SerializeWithoutWitnesses (example_tx 2) []"
proof -
  have v: "body_valid (example_tx n)" for n
    by (simp add: example_tx_def body_valid_def IsValidAmount_def MAX_MONEY_def)
  show ?thesis unfolding txid_commits_to_body [OF v v] by (simp add: example_tx_def)
qed

end
