(* ===== verification/Coins.thy ===== *)
theory Coins
  imports Primitives "HOL-Library.AList"
begin

text \<open>
  The UTXO set as layers (\<^verbatim>\<open>src/utxo/coins.cpp\<close>, \<^verbatim>\<open>include/amarian/utxo/coins.hpp\<close>). A
  \<^verbatim>\<open>CoinsView\<close> is a record of its two virtual functions; a \<^verbatim>\<open>CoinsCache\<close> is a record of the
  view it lies over and its \<^verbatim>\<open>entries_\<close>, an association list whose order stands for the
  unspecified iteration order of the hash map. An entry is a coin, or a tombstone that hides a
  coin of the base.

  The locale \<open>lawful_view\<close> is the contract of a view. Inside it each operation of a cache over
  the view is shown to be the operation on partial maps it stands for.
\<close>

section \<open>The code\<close>

record coins_view =
  view_GetCoin :: "outpoint \<Rightarrow> coin option"
  view_HaveCoin :: "outpoint \<Rightarrow> bool"

definition EmptyCoinsView :: coins_view where
  "EmptyCoinsView = \<lparr>view_GetCoin = (\<lambda>_. None), view_HaveCoin = (\<lambda>_. False)\<rparr>"

record coins_cache =
  cache_base :: coins_view
  cache_entries :: "(outpoint \<times> coin option) list"

definition Over :: "coins_view \<Rightarrow> coins_cache" where
  "Over base = \<lparr>cache_base = base, cache_entries = []\<rparr>"

definition GetCoin :: "coins_cache \<Rightarrow> outpoint \<Rightarrow> coin option" where
  "GetCoin cache outpoint =
     (case map_of (cache_entries cache) outpoint of
        Some coin \<Rightarrow> coin
      | None \<Rightarrow> view_GetCoin (cache_base cache) outpoint)"

definition HaveCoin :: "coins_cache \<Rightarrow> outpoint \<Rightarrow> bool" where
  "HaveCoin cache outpoint =
     (case map_of (cache_entries cache) outpoint of
        Some coin \<Rightarrow> coin \<noteq> None
      | None \<Rightarrow> view_HaveCoin (cache_base cache) outpoint)"

text \<open>A cache is itself a view, which is how one cache is laid over another.\<close>

definition cache_view :: "coins_cache \<Rightarrow> coins_view" where
  "cache_view cache = \<lparr>view_GetCoin = GetCoin cache, view_HaveCoin = HaveCoin cache\<rparr>"

definition MarkSpent :: "outpoint \<Rightarrow> coins_cache \<Rightarrow> coins_cache" where
  "MarkSpent outpoint cache =
     (if view_HaveCoin (cache_base cache) outpoint
      then cache\<lparr>cache_entries := AList.update outpoint None (cache_entries cache)\<rparr>
      else cache\<lparr>cache_entries := AList.delete outpoint (cache_entries cache)\<rparr>)"

definition Write :: "outpoint \<Rightarrow> coin option \<Rightarrow> coins_cache \<Rightarrow> coins_cache" where
  "Write outpoint coin cache =
     (if coin \<noteq> None then cache\<lparr>cache_entries := AList.update outpoint coin (cache_entries cache)\<rparr>
      else MarkSpent outpoint cache)"

definition AddCoin :: "outpoint \<Rightarrow> coin \<Rightarrow> coins_cache \<Rightarrow> bool \<times> coins_cache" where
  "AddCoin outpoint coin cache =
     (if HaveCoin cache outpoint then (False, cache)
      else (True, cache\<lparr>cache_entries := AList.update outpoint (Some coin) (cache_entries cache)\<rparr>))"

definition SpendCoin :: "outpoint \<Rightarrow> coins_cache \<Rightarrow> coin option \<times> coins_cache" where
  "SpendCoin outpoint cache =
     (let coin = GetCoin cache outpoint
      in (coin, if coin \<noteq> None then MarkSpent outpoint cache else cache))"

definition Discard :: "coins_cache \<Rightarrow> coins_cache" where
  "Discard cache = cache\<lparr>cache_entries := []\<rparr>"

definition ChangeCount :: "coins_cache \<Rightarrow> nat" where
  "ChangeCount cache = length (cache_entries cache)"

text \<open>
  \<^verbatim>\<open>Flush\<close> into another cache: the sink after every entry was written to it, and the flushed
  cache with its entries cleared.
\<close>

definition Flush :: "coins_cache \<Rightarrow> coins_cache \<Rightarrow> coins_cache \<times> coins_cache" where
  "Flush cache sink = (cache\<lparr>cache_entries := []\<rparr>, fold (\<lambda>(o', c). Write o' c) (cache_entries cache) sink)"

section \<open>The contract of a view\<close>

locale lawful_view =
  fixes view :: coins_view
  assumes have_iff: "view_HaveCoin view o' \<longleftrightarrow> view_GetCoin view o' \<noteq> None"

interpretation empty_view: lawful_view EmptyCoinsView
  by unfold_locales (simp add: EmptyCoinsView_def)

text \<open>
  The invariant of a cache: one entry per outpoint, and a tombstone only where it hides
  something.
\<close>

definition entries_ok :: "coins_cache \<Rightarrow> bool" where
  "entries_ok cache \<longleftrightarrow> distinct (map fst (cache_entries cache)) \<and>
     (\<forall>o'. map_of (cache_entries cache) o' = Some None \<longrightarrow> view_HaveCoin (cache_base cache) o')"

lemma entries_ok_Over [simp]: "entries_ok (Over base)"
  by (simp add: entries_ok_def Over_def)

lemma base_simps [simp]:
  "cache_base (Over v) = v" "cache_base (MarkSpent o' k) = cache_base k" "cache_base (Write o' c k) = cache_base k"
  "cache_base (snd (AddCoin o' x k)) = cache_base k" "cache_base (snd (SpendCoin o' k)) = cache_base k"
  by (simp_all add: Over_def MarkSpent_def Write_def AddCoin_def SpendCoin_def Let_def)

lemma map_of_delete: "map_of (AList.delete k al) = (map_of al)(k := None)"
  by (rule ext) (simp add: AList.delete_conv')

lemma map_of_update: "map_of (AList.update k v al) = (map_of al)(k \<mapsto> v)"
  by (rule AList.update_conv')

lemma entries_ok_Write:
  "entries_ok cache \<Longrightarrow> entries_ok (Write o' c cache)"
  by (auto simp: entries_ok_def Write_def MarkSpent_def map_of_update map_of_delete distinct_update
      distinct_delete simp del: map_of_eq_Some_iff split: if_splits)

context lawful_view
begin

lemma HaveCoin_iff:
  "cache_base cache = view \<Longrightarrow> HaveCoin cache o' \<longleftrightarrow> GetCoin cache o' \<noteq> None"
  by (auto simp: HaveCoin_def GetCoin_def have_iff split: option.split)

lemma GetCoin_Over: "GetCoin (Over view) = view_GetCoin view"
  by (simp add: GetCoin_def Over_def fun_eq_iff)

lemma GetCoin_MarkSpent:
  "cache_base cache = view \<Longrightarrow> GetCoin (MarkSpent o' cache) = (GetCoin cache)(o' := None)"
  by (auto simp: MarkSpent_def GetCoin_def map_of_update map_of_delete have_iff fun_eq_iff
      split: option.split)

lemma GetCoin_Write:
  "cache_base cache = view \<Longrightarrow> GetCoin (Write o' c cache) = (GetCoin cache)(o' := c)"
  by (auto simp: Write_def GetCoin_MarkSpent) (auto simp: GetCoin_def map_of_update fun_eq_iff split: option.split)

lemma AddCoin_fresh:
  assumes "cache_base cache = view" and "GetCoin cache o' = None"
  shows "AddCoin o' c cache = (True, Write o' (Some c) cache)"
  using assms HaveCoin_iff [OF assms(1), of o'] by (simp add: AddCoin_def Write_def)

lemma AddCoin_taken:
  assumes "cache_base cache = view" and "GetCoin cache o' \<noteq> None"
  shows "AddCoin o' c cache = (False, cache)"
  using assms HaveCoin_iff [OF assms(1), of o'] by (simp add: AddCoin_def)

lemma SpendCoin_get:
  assumes "cache_base cache = view" and "GetCoin cache o' = Some c"
  shows "SpendCoin o' cache = (Some c, Write o' None cache)"
  using assms by (simp add: SpendCoin_def Write_def)

lemma SpendCoin_missing:
  "GetCoin cache o' = None \<Longrightarrow> SpendCoin o' cache = (None, cache)"
  by (simp add: SpendCoin_def)

text \<open>Writing a list of changes with distinct keys applies each of them once, in any order.\<close>

lemma GetCoin_writes:
  assumes "distinct (map fst es)" and "cache_base cache = view"
  shows "GetCoin (fold (\<lambda>(o', c). Write o' c) es cache) =
    (\<lambda>o'. case map_of es o' of Some c \<Rightarrow> c | None \<Rightarrow> GetCoin cache o')"
  using assms
proof (induction es arbitrary: cache)
  case Nil
  then show ?case by simp
next
  case (Cons e es)
  obtain o' c where e: "e = (o', c)" by (cases e)
  have "map_of es o' = None" using Cons.prems(1) e by (simp add: map_of_eq_None_iff)
  with Cons e GetCoin_Write [OF Cons.prems(2), of o' c] show ?case
    by (auto simp: fun_eq_iff split: option.split)
qed

lemma fold_Write_ok:
  "cache_base cache = view \<Longrightarrow> entries_ok cache \<Longrightarrow>
     entries_ok (fold (\<lambda>(o', c). Write o' c) es cache) \<and>
     cache_base (fold (\<lambda>(o', c). Write o' c) es cache) = view"
  by (induction es arbitrary: cache) (auto simp: entries_ok_Write)

end

text \<open>A cache over a lawful view is a lawful view, so caches can be stacked.\<close>

lemma cache_view_lawful: "lawful_view (cache_base cache) \<Longrightarrow> lawful_view (cache_view cache)"
  by unfold_locales (simp add: cache_view_def lawful_view.HaveCoin_iff [OF _ refl])

definition cache_ok :: "coins_cache \<Rightarrow> bool" where
  "cache_ok cache \<longleftrightarrow> lawful_view (cache_base cache) \<and> entries_ok cache"

text \<open>The root cache of the node lies over the empty view.\<close>

interpretation root: lawful_view "cache_view \<lparr>cache_base = EmptyCoinsView, cache_entries = es\<rparr>" for es
  by (rule cache_view_lawful) (simp add: empty_view.lawful_view_axioms)

lemma cache_ok_simps [simp]:
  "cache_ok (Over EmptyCoinsView)"
  "cache_ok cache \<Longrightarrow> cache_ok (Over (cache_view cache))"
  "cache_ok cache \<Longrightarrow> cache_ok (Write o' c cache)"
  by (simp_all add: cache_ok_def cache_view_lawful entries_ok_Write
      empty_view.lawful_view_axioms)

text \<open>The operations of a cache on the map it denotes.\<close>

lemma GetCoin_Over_cache [simp]: "GetCoin (Over (cache_view cache)) = GetCoin cache"
  by (simp add: GetCoin_def Over_def cache_view_def fun_eq_iff)

lemma cache_Write [simp]:
  "cache_ok cache \<Longrightarrow> GetCoin (Write o' c cache) = (GetCoin cache)(o' := c)"
  by (simp add: cache_ok_def lawful_view.GetCoin_Write [OF _ refl])

lemma cache_AddCoin:
  "cache_ok cache \<Longrightarrow> AddCoin o' c cache =
     (if GetCoin cache o' = None then (True, Write o' (Some c) cache) else (False, cache))"
  by (auto simp: cache_ok_def lawful_view.AddCoin_fresh [OF _ refl] lawful_view.AddCoin_taken [OF _ refl])

lemma cache_SpendCoin:
  "cache_ok cache \<Longrightarrow> SpendCoin o' cache =
     (case GetCoin cache o' of None \<Rightarrow> (None, cache) | Some c \<Rightarrow> (Some c, Write o' None cache))"
  by (auto simp: cache_ok_def lawful_view.SpendCoin_get [OF _ refl]
      lawful_view.SpendCoin_missing
      split: option.split)

text \<open>
  Flushing a cache into the cache it lies over makes the lower one denote what the upper one
  did, whatever order the entries are visited in.
\<close>

lemma Flush_refines:
  assumes "cache_ok sink" and "entries_ok cache" and "cache_base cache = cache_view sink"
  shows "GetCoin (snd (Flush cache sink)) = GetCoin cache" "cache_ok (snd (Flush cache sink))"
proof -
  from assms have v: "lawful_view (cache_base sink)" and e: "entries_ok sink" by (simp_all add: cache_ok_def)
  have "GetCoin cache = (\<lambda>o'. case map_of (cache_entries cache) o' of
      Some c \<Rightarrow> c | None \<Rightarrow> GetCoin sink o')"
    by (rule ext) (simp add: GetCoin_def [of cache] assms(3) cache_view_def split: option.split)
  with lawful_view.GetCoin_writes [OF v, of "cache_entries cache" sink] assms(2)
  show "GetCoin (snd (Flush cache sink)) = GetCoin cache"
    by (simp add: Flush_def entries_ok_def)
  show "cache_ok (snd (Flush cache sink))"
    using lawful_view.fold_Write_ok [OF v refl e] v by (simp add: Flush_def cache_ok_def)
qed

text \<open>Over the empty view nothing is hidden, so no tombstone is ever kept.\<close>

lemma root_no_tombstones:
  assumes "entries_ok cache" and "cache_base cache = EmptyCoinsView"
  shows "\<forall>(o', c) \<in> set (cache_entries cache). c \<noteq> None"
proof -
  have "c \<noteq> None" if "(o', c) \<in> set (cache_entries cache)" for o' c
  proof -
    have "map_of (cache_entries cache) o' = Some c"
      using assms(1) that by (intro map_of_is_SomeI) (simp_all add: entries_ok_def)
    moreover have "map_of (cache_entries cache) o' \<noteq> Some None"
      using assms by (simp add: entries_ok_def EmptyCoinsView_def del: map_of_eq_Some_iff)
    ultimately show ?thesis by metis
  qed
  then show ?thesis by auto
qed

section \<open>Properties\<close>

text \<open>
  A layered cache behaves as one map: on a cache over a lawful view, adding refuses
  an outpoint that is unspent and otherwise binds it, spending returns the coin and removes it,
  membership is having a coin, and each operation keeps the invariant of the cache.
\<close>

theorem cache_behaves_as_map:
  assumes "cache_ok k"
  shows "fst (AddCoin o' c k) = (GetCoin k o' = None) \<and>
    GetCoin (snd (AddCoin o' c k)) = (if GetCoin k o' = None then (GetCoin k)(o' \<mapsto> c) else GetCoin k) \<and>
    fst (SpendCoin o' k) = GetCoin k o' \<and> GetCoin (snd (SpendCoin o' k)) = (GetCoin k)(o' := None) \<and>
    HaveCoin k o' = (GetCoin k o' \<noteq> None) \<and>
    cache_ok (snd (AddCoin o' c k)) \<and> cache_ok (snd (SpendCoin o' k))"
proof -
  have "HaveCoin k o' = (GetCoin k o' \<noteq> None)"
    using assms by (simp add: cache_ok_def lawful_view.HaveCoin_iff [OF _ refl])
  then show ?thesis
    using assms cache_Write [OF assms, of o'] cache_ok_simps(3) [OF assms, of o']
    by (cases "GetCoin k o'") (simp_all only: cache_AddCoin [OF assms] cache_SpendCoin [OF assms]
        option.case fst_conv snd_conv if_True if_False option.distinct simp_thms fun_upd_triv fun_upd_idem)
qed

lemma GetCoin_root [simp]: "GetCoin (Over EmptyCoinsView) = Map.empty"
  by (simp add: GetCoin_def Over_def EmptyCoinsView_def fun_eq_iff)

definition example_outpoint :: outpoint where
  "example_outpoint = \<lparr>op_txid = Hash256_zero, op_index = 5\<rparr>"

theorem cache_behaves_as_map_witness:
  "fst (SpendCoin example_outpoint (Over EmptyCoinsView)) = None \<and>
   HaveCoin (Over EmptyCoinsView) example_outpoint = False"
  using cache_behaves_as_map [OF cache_ok_simps(1), of example_outpoint] by simp

text \<open>
  Property C33. Flushing a cache into the cache it lies over makes the lower one hold what the
  upper one showed, whatever order the hash map yields its entries in, and keeps its invariant.
\<close>

theorem flush_refines:
  assumes "cache_ok sink" and "entries_ok cache" and "cache_base cache = cache_view sink"
  shows "GetCoin (snd (Flush cache sink)) = GetCoin cache \<and> cache_ok (snd (Flush cache sink)) \<and>
    cache_entries (fst (Flush cache sink)) = []"
  using Flush_refines [OF assms] by (simp add: Flush_def)

theorem flush_refines_witness:
  "let sink = Over EmptyCoinsView; cache = Write example_outpoint None (Over (cache_view sink))
   in GetCoin (snd (Flush cache sink)) example_outpoint = None"
proof -
  let ?s = "Over EmptyCoinsView"
  have k: "cache_ok (Over (cache_view ?s))" by simp
  then have "entries_ok (Write example_outpoint None (Over (cache_view ?s)))"
    by (simp add: cache_ok_def entries_ok_Write)
  with flush_refines [OF cache_ok_simps(1) this] show ?thesis by (simp add: Let_def cache_Write [OF k])
qed

end
