(* ===== verification/Issuance.thy ===== *)
theory Issuance
  imports Checked
begin

text \<open>
  The issuance schedule (\<^verbatim>\<open>include/amarian/consensus/issuance.hpp\<close>): the reward of a height,
  the number of eras that pay one, the height at which issuance ends and the total. The two
  \<^verbatim>\<open>while (reward > 0)\<close> loops are recursive functions whose termination is proved for every
  64-bit reward; the lemmas relate the closed loops to the sum of the rewards of all blocks.
\<close>

section \<open>The schedule\<close>

definition FACETS_PER_AMR :: i64 where "FACETS_PER_AMR = 10000000000"
definition REWARD_RETENTION_NUMERATOR :: i64 where "REWARD_RETENTION_NUMERATOR = 7"
definition REWARD_RETENTION_DENOMINATOR :: i64 where "REWARD_RETENTION_DENOMINATOR = 8"

record issuance_params =
  era_blocks :: u32
  initial_reward :: i64

definition MAINNET_ISSUANCE :: issuance_params where
  "MAINNET_ISSUANCE = \<lparr>era_blocks = 105000, initial_reward = 10 * FACETS_PER_AMR\<rparr>"

definition EraOfHeight :: "u32 \<Rightarrow> issuance_params \<Rightarrow> u32" where
  "EraOfHeight height params =
     (if era_blocks params = 0 then 0 else height div era_blocks params)"

text \<open>\<^verbatim>\<open>reward * 7 / 8\<close> in 64-bit arithmetic.\<close>

definition next_reward :: "i64 \<Rightarrow> i64" where
  "next_reward reward =
     trunc_div (i64_wrap (reward * REWARD_RETENTION_NUMERATOR)) REWARD_RETENTION_DENOMINATOR"

fun BlockReward_loop :: "nat \<Rightarrow> i64 \<Rightarrow> i64" where
  "BlockReward_loop 0 reward = (if reward > 0 then reward else 0)"
| "BlockReward_loop (Suc eras) reward =
     (if reward \<le> 0 then 0 else BlockReward_loop eras (next_reward reward))"

definition BlockReward :: "u32 \<Rightarrow> issuance_params \<Rightarrow> i64" where
  "BlockReward height params =
     (let era = EraOfHeight height params
      in if era_blocks params = 0 then 0 else BlockReward_loop (unat era) (initial_reward params))"

lemma i64_wrap_bounds: "INT64_MIN \<le> i64_wrap x" "i64_wrap x \<le> INT64_MAX"
  using i64_ok_wrap [of x] by (simp_all add: i64_ok_def)

lemma next_reward_less:
  assumes "0 < r"
  shows "next_reward r < r"
proof (cases "r * 7 \<le> INT64_MAX")
  case True
  then have "i64_ok (r * 7)" using assms by (simp add: i64_ok_def)
  then have "next_reward r = r * 7 div 8"
    using assms by (simp add: next_reward_def REWARD_RETENTION_NUMERATOR_def
        REWARD_RETENTION_DENOMINATOR_def trunc_div_nonneg)
  also have "\<dots> < r" using assms by linarith
  finally show ?thesis .
next
  case False
  have "trunc_div (i64_wrap (r * 7)) 8 \<le> INT64_MAX div 8"
  proof (cases "0 \<le> i64_wrap (r * 7)")
    case True
    then show ?thesis
      using zdiv_mono1 [OF i64_wrap_bounds(2), of 8 "r * 7"] by (simp add: trunc_div_nonneg)
  next
    case False
    then have "trunc_div (i64_wrap (r * 7)) 8 \<le> 0"
      using pos_imp_zdiv_nonneg_iff [of 8 "\<bar>i64_wrap (r * 7)\<bar>"] by (simp add: trunc_div_def sgn_if)
    then show ?thesis by simp
  qed
  with False show ?thesis
    by (simp add: next_reward_def REWARD_RETENTION_NUMERATOR_def REWARD_RETENTION_DENOMINATOR_def)
qed

function EraCount_loop :: "u32 \<Rightarrow> i64 \<Rightarrow> u32" where
  "EraCount_loop eras reward =
     (if reward > 0 then EraCount_loop (eras + 1) (next_reward reward) else eras)"
  by auto
termination
  by (relation "measure (\<lambda>(eras, reward). nat reward)") (auto simp: next_reward_less)

definition EraCountWithReward :: "issuance_params \<Rightarrow> u32" where
  "EraCountWithReward params =
     (if era_blocks params = 0 then 0 else EraCount_loop 0 (initial_reward params))"

definition IssuanceEndHeight :: "issuance_params \<Rightarrow> u64" where
  "IssuanceEndHeight params = ucast (EraCountWithReward params) * ucast (era_blocks params)"

function TotalIssuance_loop :: "issuance_params \<Rightarrow> i64 \<Rightarrow> i64 \<Rightarrow> i64" where
  "TotalIssuance_loop params issued reward =
     (if reward > 0 then
        TotalIssuance_loop params
          (i64_wrap (issued + i64_wrap (reward * uint (era_blocks params)))) (next_reward reward)
      else issued)"
  by auto
termination
  by (relation "measure (\<lambda>(params, issued, reward). nat reward)") (auto simp: next_reward_less)

definition TotalIssuance :: "issuance_params \<Rightarrow> i64" where
  "TotalIssuance params = TotalIssuance_loop params 0 (initial_reward params)"

declare EraCount_loop.simps [simp del] TotalIssuance_loop.simps [simp del]

section \<open>Rewards as a sequence of eras\<close>

text \<open>A schedule whose arithmetic stays inside 64 bits, as that of every network does.\<close>

definition issuance_ok :: "issuance_params \<Rightarrow> bool" where
  "issuance_ok p \<longleftrightarrow> 0 < era_blocks p \<and> 0 \<le> initial_reward p \<and>
     8 * initial_reward p * uint (era_blocks p) \<le> INT64_MAX"

fun era_reward :: "i64 \<Rightarrow> nat \<Rightarrow> i64" where
  "era_reward r 0 = r"
| "era_reward r (Suc e) = era_reward (r * 7 div 8) e"

lemma next_reward_eq: "0 \<le> r \<Longrightarrow> 7 * r \<le> INT64_MAX \<Longrightarrow> next_reward r = r * 7 div 8"
  by (simp add: next_reward_def REWARD_RETENTION_NUMERATOR_def REWARD_RETENTION_DENOMINATOR_def
      trunc_div_nonneg i64_ok_def)

lemma decay: "0 \<le> (r :: int) \<Longrightarrow> 0 \<le> r * 7 div 8 \<and> r * 7 div 8 \<le> r"
  by linarith

lemma era_reward_zero [simp]: "era_reward 0 e = 0"
  by (induction e) auto

lemma era_reward_bounds: "0 \<le> r \<Longrightarrow> 0 \<le> era_reward r e \<and> era_reward r e \<le> r"
proof (induction e arbitrary: r)
  case 0
  then show ?case by simp
next
  case (Suc e)
  from decay [OF Suc.prems] Suc.IH [of "r * 7 div 8"] show ?case by simp
qed

lemma era_reward_Suc_le: "0 \<le> r \<Longrightarrow> era_reward r (Suc e) \<le> era_reward r e"
proof (induction e arbitrary: r)
  case 0
  then show ?case by simp
next
  case (Suc e)
  from Suc.IH [of "r * 7 div 8"] decay [OF Suc.prems] show ?case by simp
qed

lemma era_reward_antimono: "0 \<le> r \<Longrightarrow> e \<le> f \<Longrightarrow> era_reward r f \<le> era_reward r e"
  by (rule lift_Suc_antimono_le [of "era_reward r"]) (rule era_reward_Suc_le)

text \<open>The truncation only loses: the eras sum to no more than the geometric bound.\<close>

lemma era_reward_sum: "0 \<le> r \<Longrightarrow> (\<Sum>e < n. era_reward r e) \<le> 8 * r"
proof (induction n arbitrary: r)
  case 0
  then show ?case by simp
next
  case (Suc n)
  have "(\<Sum>e < n. era_reward (r * 7 div 8) e) \<le> 8 * (r * 7 div 8)"
    using decay [OF Suc.prems] by (intro Suc.IH) simp
  also have "\<dots> \<le> 7 * r" by presburger
  finally show ?case unfolding sum.lessThan_Suc_shift by simp
qed

lemma BlockReward_loop_era: "0 \<le> r \<Longrightarrow> 7 * r \<le> INT64_MAX \<Longrightarrow> BlockReward_loop e r = era_reward r e"
proof (induction e arbitrary: r)
  case 0
  then show ?case by simp
next
  case (Suc e)
  have "0 \<le> r * 7 div 8" "7 * (r * 7 div 8) \<le> INT64_MAX"
    using decay [OF Suc.prems(1)] Suc.prems(2) by linarith+
  with Suc show ?case by (cases "r = 0") (simp_all add: next_reward_eq)
qed


lemma issuance_okD:
  assumes "issuance_ok p"
  shows "0 < uint (era_blocks p)" "0 \<le> initial_reward p" "7 * initial_reward p \<le> INT64_MAX"
    "unat (era_blocks p) \<noteq> 0"
proof -
  show "0 < uint (era_blocks p)" "0 \<le> initial_reward p"
    using assms by (simp_all add: issuance_ok_def word_less_def)
  then have "8 * initial_reward p * 1 \<le> 8 * initial_reward p * uint (era_blocks p)"
    by (intro mult_left_mono) simp_all
  with assms \<open>0 \<le> initial_reward p\<close> show "7 * initial_reward p \<le> INT64_MAX"
    by (simp add: issuance_ok_def)
  show "unat (era_blocks p) \<noteq> 0" using assms by (auto simp: issuance_ok_def unat_eq_0)
qed

lemma BlockReward_era:
  assumes "issuance_ok p"
  shows "BlockReward h p = era_reward (initial_reward p) (unat h div unat (era_blocks p))"
  using issuance_okD [OF assms]
  by (auto simp: BlockReward_def EraOfHeight_def BlockReward_loop_era unat_div)

lemma BlockReward_bounds:
  "issuance_ok p \<Longrightarrow> 0 \<le> BlockReward h p \<and> BlockReward h p \<le> initial_reward p"
  by (simp add: BlockReward_era issuance_okD era_reward_bounds)

lemma BlockReward_antimono: "issuance_ok p \<Longrightarrow> h \<le> k \<Longrightarrow> BlockReward k p \<le> BlockReward h p"
  by (simp add: BlockReward_era issuance_okD era_reward_antimono div_le_mono word_le_nat_alt)

section \<open>The total\<close>

text \<open>Rewards of consecutive heights: whole eras, then part of one.\<close>

lemma era_heights_sum:
  fixes f :: "nat \<Rightarrow> int"
  assumes "0 < b"
  shows "(\<Sum>h < k * b. f (h div b)) = int b * (\<Sum>e < k. f e)"
proof (induction k)
  case 0
  show ?case by simp
next
  case (Suc k)
  have "(\<Sum>h < Suc k * b. f (h div b)) =
      (\<Sum>h < k * b. f (h div b)) + (\<Sum>h \<in> {k * b..<Suc k * b}. f (h div b))"
    using sum.atLeastLessThan_concat [of 0 "k * b" "Suc k * b" "\<lambda>h. f (h div b)"]
    by (simp add: atLeast0LessThan)
  also have "(\<Sum>h \<in> {k * b..<Suc k * b}. f (h div b)) = (\<Sum>h \<in> {k * b..<Suc k * b}. f k)"
    by (intro sum.cong arg_cong [of _ _ f] div_nat_eqI) (auto simp: mult.commute)
  finally show ?case using Suc by (simp add: algebra_simps)
qed

lemma TotalIssuance_loop_sum:
  assumes "era_reward r n = 0" and "0 \<le> r" and "7 * r \<le> INT64_MAX" and "0 \<le> acc"
    and "acc + 8 * r * uint (era_blocks p) \<le> INT64_MAX"
  shows "TotalIssuance_loop p acc r = acc + uint (era_blocks p) * (\<Sum>e < n. era_reward r e)"
  using assms
proof (induction n arbitrary: r acc)
  case 0
  then show ?case by (simp add: TotalIssuance_loop.simps)
next
  case (Suc n)
  let ?b = "uint (era_blocks p)" and ?r = "r * 7 div 8"
  show ?case
  proof (cases "r = 0")
    case True
    then show ?thesis by (simp add: TotalIssuance_loop.simps)
  next
    case False
    note d = decay [OF Suc.prems(2)]
    have b: "0 \<le> ?b" by simp
    have "8 * ?r \<le> 7 * r" by linarith
    from mult_right_mono [OF this b] have le: "8 * ?r * ?b + r * ?b \<le> 8 * r * ?b"
      by (simp add: algebra_simps)
    have p: "0 \<le> r * ?b" using Suc.prems(2) b by simp
    have ok: "i64_ok (r * ?b)" "i64_ok (acc + r * ?b)"
      using Suc.prems(4,5) p by (simp_all add: i64_ok_def)
    have "TotalIssuance_loop p acc r = TotalIssuance_loop p (acc + r * ?b) ?r"
      using False Suc.prems(2,3) ok
      by (subst TotalIssuance_loop.simps) (simp add: next_reward_eq)
    also have "\<dots> = acc + r * ?b + ?b * (\<Sum>e < n. era_reward ?r e)"
    proof (rule Suc.IH)
      show "era_reward ?r n = 0" using Suc.prems(1) by simp
    qed (use Suc.prems d le p in linarith)+
    finally show ?thesis
      unfolding sum.lessThan_Suc_shift by (simp add: algebra_simps)
  qed
qed

lemma era_reward_ends: "0 \<le> r \<Longrightarrow> era_reward r (nat r) = 0"
proof -
  have "0 \<le> r \<Longrightarrow> era_reward r e \<le> max 0 (r - int e)" for e r
  proof (induction e arbitrary: r)
    case 0
    then show ?case by simp
  next
    case (Suc e)
    show ?case
    proof (cases "r = 0")
      case False
      with Suc.prems have "0 \<le> r * 7 div 8" "r * 7 div 8 \<le> r - 1" by linarith+
      with Suc.IH [of "r * 7 div 8"] show ?thesis by simp
    qed simp
  qed
  from this [of r "nat r"] era_reward_bounds [of r "nat r"] show "0 \<le> r \<Longrightarrow> ?thesis" by simp
qed

lemma TotalIssuance_sum:
  assumes "issuance_ok p" and "era_reward (initial_reward p) n = 0"
  shows "TotalIssuance p = uint (era_blocks p) * (\<Sum>e < n. era_reward (initial_reward p) e)"
  using TotalIssuance_loop_sum [OF assms(2), of 0 p] issuance_okD [OF assms(1)] assms(1)
  by (simp add: TotalIssuance_def issuance_ok_def)

text \<open>No prefix of the chain is scheduled more than the total.\<close>

lemma BlockReward_sum_le:
  assumes "issuance_ok p" and "n \<le> 2 ^ 32"
  shows "(\<Sum>h < n. BlockReward (of_nat h) p) \<le> TotalIssuance p"
proof -
  let ?b = "unat (era_blocks p)" and ?f = "era_reward (initial_reward p)"
  let ?k = "max (n div ?b + 1) (nat (initial_reward p))"
  note ok = issuance_okD [OF assms(1)]
  have b: "0 < ?b" using ok by simp
  have "(\<Sum>h < n. BlockReward (of_nat h) p) = (\<Sum>h < n. ?f (h div ?b))"
    using assms(2) by (intro sum.cong) (auto simp: BlockReward_era [OF assms(1)] unat_of_nat)
  also have "\<dots> \<le> (\<Sum>h < ?k * ?b. ?f (h div ?b))"
  proof (rule sum_mono2)
    have "n < (n div ?b + 1) * ?b" using dividend_less_div_times [OF b, of n] by simp
    also have "\<dots> \<le> ?k * ?b" by (rule mult_le_mono1) simp
    finally show "{..<n} \<subseteq> {..<?k * ?b}" by auto
  qed (use era_reward_bounds [OF ok(2)] in auto)
  also have "\<dots> = int ?b * (\<Sum>e < ?k. ?f e)" by (rule era_heights_sum [OF b])
  also have "\<dots> = TotalIssuance p"
  proof -
    have "?f ?k \<le> ?f (nat (initial_reward p))" by (rule era_reward_antimono [OF ok(2)]) simp
    then have "?f ?k = 0" using era_reward_ends [OF ok(2)] era_reward_bounds [OF ok(2), of ?k] by simp
    from TotalIssuance_sum [OF assms(1) this] show ?thesis by simp
  qed
  finally show ?thesis .
qed

lemma mainnet_issuance_ok [simp]: "issuance_ok MAINNET_ISSUANCE"
  by (simp add: issuance_ok_def MAINNET_ISSUANCE_def FACETS_PER_AMR_def)

lemma mainnet_eras: "era_reward 100000000000 178 = 1" "era_reward 100000000000 179 = 0"
  by code_simp+

fun era_total :: "i64 \<Rightarrow> nat \<Rightarrow> i64" where
  "era_total r 0 = 0"
| "era_total r (Suc n) = r + era_total (r * 7 div 8) n"

lemma era_total_sum: "era_total r n = (\<Sum>e < n. era_reward r e)"
proof (induction n arbitrary: r)
  case (Suc n)
  show ?case unfolding sum.lessThan_Suc_shift by (simp add: Suc)
qed simp

lemma mainnet_total: "TotalIssuance MAINNET_ISSUANCE = MAX_MONEY"
proof -
  have "era_total 100000000000 179 = 799999999354" by code_simp
  then have "(\<Sum>e < 179. era_reward 100000000000 e) = 799999999354" by (simp only: era_total_sum)
  then show ?thesis
  using TotalIssuance_sum [OF mainnet_issuance_ok, of 179] mainnet_eras
  by (simp add: MAINNET_ISSUANCE_def FACETS_PER_AMR_def MAX_MONEY_def)
qed

lemma mainnet_eracount: "EraCountWithReward MAINNET_ISSUANCE = 179"
  by code_simp

lemma mainnet_end_height: "IssuanceEndHeight MAINNET_ISSUANCE = 18795000"
  by (simp add: IssuanceEndHeight_def mainnet_eracount) (simp add: MAINNET_ISSUANCE_def)

lemma mainnet_reward_pos: "0 < BlockReward h MAINNET_ISSUANCE \<longleftrightarrow> unat h < 18795000"
proof -
  let ?e = "unat h div 105000"
  have r: "BlockReward h MAINNET_ISSUANCE = era_reward 100000000000 ?e"
    by (simp add: BlockReward_era) (simp add: MAINNET_ISSUANCE_def FACETS_PER_AMR_def)
  show ?thesis
  proof (cases "unat h < 18795000")
    case True
    then have "?e \<le> 178" by linarith
    from era_reward_antimono [OF _ this, of 100000000000] mainnet_eras r True show ?thesis by simp
  next
    case False
    then have "179 \<le> ?e" by linarith
    from era_reward_antimono [OF _ this, of 100000000000] mainnet_eras r False show ?thesis by simp
  qed
qed

section \<open>Properties\<close>

text \<open>
  The main network issues exactly the monetary bound: the sum over all eras is
  \<^verbatim>\<open>MAX_MONEY\<close>, 179 eras pay a reward, and a block is paid one exactly below height 18,795,000.
\<close>

theorem mainnet_schedule:
  "TotalIssuance MAINNET_ISSUANCE = MAX_MONEY \<and> EraCountWithReward MAINNET_ISSUANCE = 179 \<and>
   (0 < BlockReward h MAINNET_ISSUANCE) = (uint h < uint (IssuanceEndHeight MAINNET_ISSUANCE))"
proof -
  have "unat h < 18795000 \<longleftrightarrow> uint h < 18795000"
    using of_nat_less_iff [of "unat h" 18795000, where ?'a = int] by (simp del: of_nat_less_iff)
  then show ?thesis
    by (simp only: mainnet_total mainnet_eracount mainnet_end_height mainnet_reward_pos) simp
qed

text \<open>
  Rewards never rise: on any schedule within 64 bits the reward of a height lies
  between zero and the initial reward and is no more than that of any lower height, and the
  rewards of the heights below any bound sum to at most the total the code computes.
\<close>

theorem reward_schedule_bounded:
  assumes "issuance_ok p" and "h \<le> k" and "n \<le> 2 ^ 32"
  shows "0 \<le> BlockReward k p \<and> BlockReward k p \<le> BlockReward h p \<and>
    BlockReward h p \<le> initial_reward p \<and> (\<Sum>h < n. BlockReward (of_nat h) p) \<le> TotalIssuance p"
  using assms BlockReward_bounds BlockReward_antimono BlockReward_sum_le by blast

theorem reward_schedule_bounded_witness:
  "BlockReward 105000 MAINNET_ISSUANCE \<le> BlockReward 0 MAINNET_ISSUANCE \<and>
   (\<Sum>h < 1000000. BlockReward (of_nat h) MAINNET_ISSUANCE) \<le> MAX_MONEY"
  using reward_schedule_bounded [of MAINNET_ISSUANCE 0 105000 1000000] by (simp add: mainnet_total)

end
