(* ===== verification/Params.thy ===== *)
theory Params
  imports Issuance Primitives
begin

text \<open>
  The chain parameters (\<^verbatim>\<open>include/amarian/consensus/params.hpp\<close>): the limits every network
  shares, the record \<^verbatim>\<open>ChainParams\<close>, and its three values.
\<close>

unbundle bit_operations_syntax

datatype network = Mainnet | Testnet | Regtest

type_synonym network_magic = byte_vec

section \<open>Values every network shares\<close>

definition MAX_BLOCK_WEIGHT :: nat where "MAX_BLOCK_WEIGHT = 2000000"
definition TARGET_BLOCK_SECONDS :: i64 where "TARGET_BLOCK_SECONDS = 300"
definition COINBASE_MATURITY :: u32 where "COINBASE_MATURITY = 200"
definition MAX_FUTURE_BLOCK_SECONDS :: i64 where "MAX_FUTURE_BLOCK_SECONDS = 3600"
definition MEDIAN_TIME_SPAN :: nat where "MEDIAN_TIME_SPAN = 11"
definition MAX_SPEND_CONDITION_KEYS :: nat where "MAX_SPEND_CONDITION_KEYS = 16"
definition MAX_LOCK_PROGRAM_BYTES :: nat where "MAX_LOCK_PROGRAM_BYTES = 128"
definition MAX_PUBLIC_KEY_BYTES :: nat where "MAX_PUBLIC_KEY_BYTES = 4096"
definition MAX_SIGNATURE_BYTES :: nat where "MAX_SIGNATURE_BYTES = 8192"
definition MAX_COINBASE_DATA_BYTES :: nat where "MAX_COINBASE_DATA_BYTES = 100"

definition WeightBoundedCount :: "nat \<Rightarrow> nat" where
  "WeightBoundedCount min_base_bytes = MAX_BLOCK_WEIGHT div (WITNESS_SCALE_FACTOR * min_base_bytes)"

definition CONSENSUS_TX_LIMITS :: tx_limits where
  "CONSENSUS_TX_LIMITS =
     \<lparr>max_inputs = WeightBoundedCount TxInput_SIZE,
      max_outputs = WeightBoundedCount TxOutput_MIN_SIZE,
      max_witnesses = WeightBoundedCount TxInput_SIZE,
      max_lock_program_size = MAX_LOCK_PROGRAM_BYTES,
      max_keys = MAX_SPEND_CONDITION_KEYS,
      max_key_size = MAX_PUBLIC_KEY_BYTES,
      max_signatures = MAX_SPEND_CONDITION_KEYS,
      max_signature_size = MAX_SIGNATURE_BYTES,
      max_coinbase_data_size = MAX_COINBASE_DATA_BYTES\<rparr>"

definition CONSENSUS_BLOCK_LIMITS :: block_limits where
  "CONSENSUS_BLOCK_LIMITS =
     \<lparr>max_transactions = WeightBoundedCount Transaction_MIN_SIZE, limits_tx = CONSENSUS_TX_LIMITS\<rparr>"

section \<open>The parameter set\<close>

record chain_params =
  network :: network
  net_name :: string
  chain_id :: hash256
  magic :: network_magic
  default_p2p_port :: u16
  default_rpc_port :: u16
  pow_limit_bits :: u32
  genesis_bits :: u32
  genesis_timestamp :: i64
  genesis_nonce :: u64
  genesis_hash :: hash256
  target_block_seconds :: i64
  asert_half_life_seconds :: i64
  coinbase_maturity :: u32
  max_block_weight :: nat
  block_limits :: block_limits
  issuance :: issuance_params
  allow_min_difficulty_blocks :: bool
  trivial_difficulty :: bool

definition MAINNET_CHAIN_ID :: hash256 where
  "MAINNET_CHAIN_ID = Hash256 (arr_of
     [0x4C, 0x6C, 0x27, 0xEC, 0x0A, 0xA1, 0xB5, 0x9E, 0x12, 0x5E, 0x4B,
      0x9D, 0xAE, 0x51, 0x55, 0x99, 0x30, 0xEF, 0xDE, 0xC0, 0x1A, 0xD1,
      0xA6, 0xE0, 0x35, 0x0F, 0x66, 0x76, 0x9D, 0x6A, 0x8B, 0xB9])"

definition TESTNET_CHAIN_ID :: hash256 where
  "TESTNET_CHAIN_ID = Hash256 (arr_of
     [0xE2, 0x9A, 0x85, 0xD4, 0x36, 0x91, 0x6C, 0xF8, 0x6E, 0x92, 0x07,
      0x4F, 0x76, 0xF3, 0x0B, 0x4A, 0x7D, 0x7F, 0xAA, 0x5B, 0x07, 0x4C,
      0xBA, 0xDE, 0xB5, 0x9D, 0xA8, 0x28, 0xA5, 0xF4, 0x67, 0xFE])"

definition REGTEST_CHAIN_ID :: hash256 where
  "REGTEST_CHAIN_ID = Hash256 (arr_of
     [0x75, 0xB9, 0xD4, 0xC0, 0x43, 0xF1, 0xDD, 0x98, 0x8B, 0x02, 0x03,
      0x5A, 0x28, 0xC6, 0xA2, 0x26, 0x74, 0x1C, 0x9F, 0x91, 0xEF, 0xC3,
      0x5B, 0xD3, 0xCD, 0xE7, 0x65, 0x53, 0xE0, 0x1F, 0xA5, 0xCC])"

definition MagicFromChainId :: "hash256 \<Rightarrow> network_magic" where
  "MagicFromChainId h =
     (let bytes = Hash256_Span h in [bytes ! 0 OR 0x80, bytes ! 1, bytes ! 2, bytes ! 3])"

definition POW_LIMIT_BITS :: u32 where "POW_LIMIT_BITS = 0x1D00FFFF"
definition REGTEST_POW_LIMIT_BITS :: u32 where "REGTEST_POW_LIMIT_BITS = 0x207FFFFF"
definition GENESIS_TIMESTAMP :: i64 where "GENESIS_TIMESTAMP = 1788598800"

definition MAINNET_GENESIS_HASH :: hash256 where
  "MAINNET_GENESIS_HASH = Hash256 (arr_of
     [0x2F, 0x66, 0x76, 0xB3, 0x1A, 0xFE, 0x1F, 0x1F, 0x56, 0xAF, 0x82,
      0xF5, 0x43, 0xC2, 0x6B, 0xF0, 0x62, 0xF5, 0xD2, 0x94, 0xBE, 0x25,
      0x6E, 0xF3, 0x49, 0xD6, 0x72, 0x18, 0x00, 0x00, 0x00, 0x00])"

definition TESTNET_GENESIS_HASH :: hash256 where
  "TESTNET_GENESIS_HASH = Hash256 (arr_of
     [0xC0, 0x76, 0x28, 0x33, 0xD5, 0xC2, 0x45, 0x50, 0x40, 0x06, 0xF8,
      0x76, 0xE4, 0x93, 0x33, 0x1E, 0x93, 0x23, 0x2E, 0xBB, 0x05, 0xC9,
      0x36, 0x25, 0x18, 0xC1, 0xC5, 0x37, 0x00, 0x00, 0x00, 0x00])"

definition REGTEST_GENESIS_HASH :: hash256 where
  "REGTEST_GENESIS_HASH = Hash256 (arr_of
     [0x67, 0xA9, 0xBD, 0x37, 0x62, 0xBA, 0x7A, 0x70, 0x1C, 0x3F, 0x2C,
      0x88, 0x2E, 0xCF, 0x3A, 0xCA, 0xFB, 0x1E, 0x4C, 0xA4, 0xF7, 0x63,
      0x9A, 0xFD, 0x96, 0xC1, 0x61, 0xA7, 0x2F, 0x8D, 0x24, 0x02])"

definition MAINNET_PARAMS :: chain_params where
  "MAINNET_PARAMS =
     \<lparr>network = Mainnet,
      net_name = ''mainnet'',
      chain_id = MAINNET_CHAIN_ID,
      magic = MagicFromChainId MAINNET_CHAIN_ID,
      default_p2p_port = 12500,
      default_rpc_port = 12501,
      pow_limit_bits = POW_LIMIT_BITS,
      genesis_bits = POW_LIMIT_BITS,
      genesis_timestamp = GENESIS_TIMESTAMP,
      genesis_nonce = 570575708,
      genesis_hash = MAINNET_GENESIS_HASH,
      target_block_seconds = TARGET_BLOCK_SECONDS,
      asert_half_life_seconds = 172800,
      coinbase_maturity = COINBASE_MATURITY,
      max_block_weight = MAX_BLOCK_WEIGHT,
      block_limits = CONSENSUS_BLOCK_LIMITS,
      issuance = MAINNET_ISSUANCE,
      allow_min_difficulty_blocks = False,
      trivial_difficulty = False\<rparr>"

definition TESTNET_PARAMS :: chain_params where
  "TESTNET_PARAMS =
     \<lparr>network = Testnet,
      net_name = ''testnet'',
      chain_id = TESTNET_CHAIN_ID,
      magic = MagicFromChainId TESTNET_CHAIN_ID,
      default_p2p_port = 12510,
      default_rpc_port = 12511,
      pow_limit_bits = POW_LIMIT_BITS,
      genesis_bits = POW_LIMIT_BITS,
      genesis_timestamp = GENESIS_TIMESTAMP,
      genesis_nonce = 2119016593,
      genesis_hash = TESTNET_GENESIS_HASH,
      target_block_seconds = TARGET_BLOCK_SECONDS,
      asert_half_life_seconds = 3600,
      coinbase_maturity = COINBASE_MATURITY,
      max_block_weight = MAX_BLOCK_WEIGHT,
      block_limits = CONSENSUS_BLOCK_LIMITS,
      issuance = \<lparr>era_blocks = era_blocks MAINNET_ISSUANCE div 100,
        initial_reward = initial_reward MAINNET_ISSUANCE\<rparr>,
      allow_min_difficulty_blocks = True,
      trivial_difficulty = False\<rparr>"

definition REGTEST_PARAMS :: chain_params where
  "REGTEST_PARAMS =
     \<lparr>network = Regtest,
      net_name = ''regtest'',
      chain_id = REGTEST_CHAIN_ID,
      magic = MagicFromChainId REGTEST_CHAIN_ID,
      default_p2p_port = 12520,
      default_rpc_port = 12521,
      pow_limit_bits = REGTEST_POW_LIMIT_BITS,
      genesis_bits = REGTEST_POW_LIMIT_BITS,
      genesis_timestamp = GENESIS_TIMESTAMP,
      genesis_nonce = 3,
      genesis_hash = REGTEST_GENESIS_HASH,
      target_block_seconds = TARGET_BLOCK_SECONDS,
      asert_half_life_seconds = 3600,
      coinbase_maturity = 20,
      max_block_weight = MAX_BLOCK_WEIGHT,
      block_limits = CONSENSUS_BLOCK_LIMITS,
      issuance = \<lparr>era_blocks = era_blocks MAINNET_ISSUANCE div 1000,
        initial_reward = initial_reward MAINNET_ISSUANCE\<rparr>,
      allow_min_difficulty_blocks = True,
      trivial_difficulty = True\<rparr>"

primrec ParamsFor :: "network \<Rightarrow> chain_params" where
  "ParamsFor Mainnet = MAINNET_PARAMS"
| "ParamsFor Testnet = TESTNET_PARAMS"
| "ParamsFor Regtest = REGTEST_PARAMS"

definition NetworkFromName :: "string \<Rightarrow> network option" where
  "NetworkFromName name =
     (if name = net_name MAINNET_PARAMS then Some Mainnet
      else if name = net_name TESTNET_PARAMS then Some Testnet
      else if name = net_name REGTEST_PARAMS then Some Regtest
      else None)"

section \<open>Separation of the networks\<close>

lemma NetworkFromName_name: "NetworkFromName (net_name (ParamsFor n)) = Some n"
  by (cases n) (simp_all add: NetworkFromName_def MAINNET_PARAMS_def TESTNET_PARAMS_def REGTEST_PARAMS_def)

lemma networks_issuance_ok [simp]: "issuance_ok (issuance (ParamsFor n))"
  by (cases n) (simp_all add: issuance_ok_def MAINNET_PARAMS_def TESTNET_PARAMS_def
      REGTEST_PARAMS_def MAINNET_ISSUANCE_def FACETS_PER_AMR_def)

text \<open>
  Two networks share neither a chain identifier, nor a genesis hash, nor the first byte of the
  frame magic, which is never a printable character.
\<close>

lemma networks_separate:
  assumes "m \<noteq> n"
  shows "chain_id (ParamsFor m) \<noteq> chain_id (ParamsFor n) \<and>
    genesis_hash (ParamsFor m) \<noteq> genesis_hash (ParamsFor n) \<and>
    hd (magic (ParamsFor m)) \<noteq> hd (magic (ParamsFor n)) \<and>
    0x80 \<le> hd (magic (ParamsFor m))"
  using assms
  by (cases m; cases n) (simp_all add: MAINNET_PARAMS_def TESTNET_PARAMS_def REGTEST_PARAMS_def
      MAINNET_CHAIN_ID_def TESTNET_CHAIN_ID_def REGTEST_CHAIN_ID_def MAINNET_GENESIS_HASH_def
      TESTNET_GENESIS_HASH_def REGTEST_GENESIS_HASH_def arr_list_eq_iff MagicFromChainId_def
      Hash256_Span_def Let_def)

section \<open>Properties\<close>

text \<open>
  The networks cannot be confused: each is found again from its name, and two
  different ones share no chain identifier, genesis hash or first byte of the frame magic, which
  has its top bit set.
\<close>

theorem networks_do_not_mix:
  assumes "m \<noteq> n"
  shows "NetworkFromName (net_name (ParamsFor m)) = Some m \<and>
    chain_id (ParamsFor m) \<noteq> chain_id (ParamsFor n) \<and>
    genesis_hash (ParamsFor m) \<noteq> genesis_hash (ParamsFor n) \<and>
    hd (magic (ParamsFor m)) \<noteq> hd (magic (ParamsFor n)) \<and> 0x80 \<le> hd (magic (ParamsFor m))"
  using networks_separate [OF assms] NetworkFromName_name by blast

theorem networks_do_not_mix_witness:
  "chain_id MAINNET_PARAMS \<noteq> chain_id REGTEST_PARAMS \<and> NetworkFromName (net_name MAINNET_PARAMS) = Some Mainnet"
  using networks_do_not_mix [of Mainnet Regtest] by simp

end
