(* ===== verification/Commitments.thy ===== *)
theory Commitments
  imports Primitives
begin

text \<open>
  What the protocol signs and commits to: the signature hash (\<^verbatim>\<open>src/primitives/sighash.cpp\<close>) and
  the Merkle root of a block (\<^verbatim>\<open>src/primitives/merkle.cpp\<close>). The lemmas say what each
  commitment determines, for messages among which the hash function has no collision
  (\<open>collision_free\<close>, a condition on the finitely many strings that are hashed).
\<close>

section \<open>The signature hash\<close>

definition SIGHASH_TAG :: string where "SIGHASH_TAG = ''Amarian/SigHash''"
definition SPEND_CONDITION_TAG :: string where "SPEND_CONDITION_TAG = ''Amarian/SpendCondition''"
definition SIGHASH_PREIMAGE_SIZE :: nat where "SIGHASH_PREIMAGE_SIZE = 181"

datatype sighash_domain = Outpoints | Sequences | Outputs | Input

primrec domain_byte :: "sighash_domain \<Rightarrow> u8" where
  "domain_byte Outpoints = 1"
| "domain_byte Sequences = 2"
| "domain_byte Outputs = 3"
| "domain_byte Input = 4"

record sighash_midstates =
  mid_outpoints :: hash256
  mid_sequences :: hash256
  mid_outputs :: hash256

definition BeginPreimage :: "sighash_domain \<Rightarrow> writer" where
  "BeginPreimage domain = WriteU8 (domain_byte domain) []"

definition SpendConditionCommitment :: "crypto_ext \<Rightarrow> spend_condition \<Rightarrow> hash256" where
  "SpendConditionCommitment E condition =
     TaggedHash E SPEND_CONDITION_TAG (SpendCondition_Serialize condition [])"

text \<open>The three per-transaction preimages: a domain byte, the count, the elements.\<close>

definition OutpointsPreimage :: "transaction \<Rightarrow> byte_vec" where
  "OutpointsPreimage tx =
     WriteVec (\<lambda>input. OutPoint_Serialize (in_outpoint input)) (tx_inputs tx) (BeginPreimage Outpoints)"

definition SequencesPreimage :: "transaction \<Rightarrow> byte_vec" where
  "SequencesPreimage tx =
     WriteVec (\<lambda>input. WriteU32 (in_sequence input)) (tx_inputs tx) (BeginPreimage Sequences)"

definition OutputsPreimage :: "transaction \<Rightarrow> byte_vec" where
  "OutputsPreimage tx = WriteVec TxOutput_Serialize (tx_outputs tx) (BeginPreimage Outputs)"

definition ComputeSigHashMidstates :: "crypto_ext \<Rightarrow> transaction \<Rightarrow> sighash_midstates" where
  "ComputeSigHashMidstates E tx =
     \<lparr>mid_outpoints = TaggedHash E SIGHASH_TAG (OutpointsPreimage tx),
      mid_sequences = TaggedHash E SIGHASH_TAG (SequencesPreimage tx),
      mid_outputs = TaggedHash E SIGHASH_TAG (OutputsPreimage tx)\<rparr>"

definition SignatureHashPreimage ::
  "crypto_ext \<Rightarrow> hash256 \<Rightarrow> transaction \<Rightarrow> sighash_midstates \<Rightarrow> u32 \<Rightarrow> i64 \<Rightarrow> spend_condition \<Rightarrow> byte_vec"
where
  "SignatureHashPreimage E chain_id tx midstates input_index spent_amount condition =
     writes [WriteHash256 chain_id,
       WriteU32 (tx_version tx),
       WriteU32 (tx_locktime tx),
       WriteHash256 (mid_outpoints midstates),
       WriteHash256 (mid_sequences midstates),
       WriteHash256 (mid_outputs midstates),
       WriteU32 input_index,
       WriteI64 spent_amount,
       WriteHash256 (SpendConditionCommitment E condition)] (BeginPreimage Input)"

definition SignatureHash ::
  "crypto_ext \<Rightarrow> hash256 \<Rightarrow> transaction \<Rightarrow> sighash_midstates \<Rightarrow> u32 \<Rightarrow> i64 \<Rightarrow> spend_condition \<Rightarrow> hash256"
where
  "SignatureHash E chain_id tx midstates input_index spent_amount condition =
     TaggedHash E SIGHASH_TAG
       (SignatureHashPreimage E chain_id tx midstates input_index spent_amount condition)"

section \<open>The Merkle root\<close>

definition MERKLE_LEAF_TAG :: string where "MERKLE_LEAF_TAG = ''Amarian/MerkleLeaf''"
definition MERKLE_BRANCH_TAG :: string where "MERKLE_BRANCH_TAG = ''Amarian/MerkleBranch''"
definition MERKLE_ROOT_TAG :: string where "MERKLE_ROOT_TAG = ''Amarian/MerkleRoot''"

definition MerkleBranch :: "crypto_ext \<Rightarrow> hash256 \<Rightarrow> hash256 \<Rightarrow> hash256" where
  "MerkleBranch E left right =
     TaggedHash E MERKLE_BRANCH_TAG (Hash256_Span left @ Hash256_Span right)"

text \<open>One round of the loop: pairs are hashed, a node left over is carried up as it is.\<close>

fun MerkleNext :: "crypto_ext \<Rightarrow> hash256 list \<Rightarrow> hash256 list" where
  "MerkleNext E (l # r # rest) = MerkleBranch E l r # MerkleNext E rest"
| "MerkleNext E level = level"

lemma length_MerkleNext: "length (MerkleNext E level) = (length level + 1) div 2"
  by (induction E level rule: MerkleNext.induct) auto

function MerkleLevels :: "crypto_ext \<Rightarrow> hash256 list \<Rightarrow> hash256 list" where
  "MerkleLevels E level = (if length level > 1 then MerkleLevels E (MerkleNext E level) else level)"
  by auto
termination
  by (relation "measure (\<lambda>(E, level). length level)") (auto simp: length_MerkleNext)

declare MerkleLevels.simps [simp del]

definition ComputeMerkleRoot :: "crypto_ext \<Rightarrow> hash256 list \<Rightarrow> hash256 option" where
  "ComputeMerkleRoot E wtxids =
     (if wtxids = [] then None
      else
        let level = MerkleLevels E (map (\<lambda>wtxid. TaggedHash E MERKLE_LEAF_TAG (Hash256_Span wtxid)) wtxids)
        in Some (TaggedHash E MERKLE_ROOT_TAG
             (writes [WriteCompactSize (of_nat (length wtxids)), WriteHash256 (hd level)] [])))"

section \<open>Commitments\<close>

text \<open>No two different messages of the list are hashed to the same value under the same tag.\<close>

definition collision_free :: "crypto_ext \<Rightarrow> (string \<times> byte_vec) list \<Rightarrow> bool" where
  "collision_free E msgs \<longleftrightarrow>
     (\<forall>(t, x) \<in> set msgs. \<forall>(u, y) \<in> set msgs. t = u \<longrightarrow> TaggedHash E t x = TaggedHash E u y \<longrightarrow> x = y)"

lemma collision_freeD:
  "collision_free E msgs \<Longrightarrow> TaggedHash E t x = TaggedHash E t y \<Longrightarrow>
     (t, x) \<in> set msgs \<Longrightarrow> (t, y) \<in> set msgs \<Longrightarrow> x = y"
  by (fastforce simp: collision_free_def)

lemma collision_free_mono:
  "collision_free E msgs \<Longrightarrow> set msgs' \<subseteq> set msgs \<Longrightarrow> collision_free E msgs'"
  unfolding collision_free_def by blast

subsection \<open>Signature hash\<close>

lemma length_SignatureHashPreimage:
  "length (SignatureHashPreimage E c tx m i a sc) = SIGHASH_PREIMAGE_SIZE"
proof -
  have "SignatureHashPreimage E c tx m i a sc = writes [WriteU8 (domain_byte Input),
      WriteHash256 c, WriteU32 (tx_version tx), WriteU32 (tx_locktime tx),
      WriteHash256 (mid_outpoints m), WriteHash256 (mid_sequences m),
      WriteHash256 (mid_outputs m), WriteU32 i, WriteI64 a,
      WriteHash256 (SpendConditionCommitment E sc)] []"
    by (simp add: SignatureHashPreimage_def BeginPreimage_def)
  then show ?thesis
    by (simp only: length_fcomp [OF u32.ser_append] length_fcomp [OF i64.ser_append]
        length_fcomp [OF hash256.ser_append] length_ints SIGHASH_PREIMAGE_SIZE_def writes_seq)
qed

text \<open>The fields of the message, and the encoding of them that is hashed.\<close>

type_synonym sighash_fields =
  "hash256 \<times> u32 \<times> u32 \<times> hash256 \<times> hash256 \<times> hash256 \<times> u32 \<times> i64 \<times> hash256"

definition fields_ser :: "sighash_fields \<Rightarrow> writer \<Rightarrow> writer" where
  "fields_ser = (\<lambda>(c, v, l, o', s, t, i, a, h). writes [WriteHash256 c, WriteU32 v, WriteU32 l,
     WriteHash256 o', WriteHash256 s, WriteHash256 t, WriteU32 i, WriteI64 a, WriteHash256 h])"

definition fields_of :: "crypto_ext \<Rightarrow> hash256 \<Rightarrow> transaction \<Rightarrow> sighash_midstates \<Rightarrow> u32 \<Rightarrow> i64 \<Rightarrow>
    spend_condition \<Rightarrow> sighash_fields" where
  "fields_of E c tx m i a sc = (c, tx_version tx, tx_locktime tx, mid_outpoints m, mid_sequences m,
    mid_outputs m, i, a, SpendConditionCommitment E sc)"

lemma fields_codec:
  obtains des where "codec fields_ser des (\<lambda>(c, v, l, o', s, t, i, a, h). i64_ok a) 0"
proof -
  note base = hash256.pair_codec [OF u32.pair_codec [OF u32.pair_codec [OF
    hash256.pair_codec [OF hash256.pair_codec [OF hash256.pair_codec [OF u32.pair_codec [OF
    i64.pair_codec [OF hash256_codec]]]]]]]]
  show ?thesis
    by (rule that, rule codec.iso_codec [OF base _ _ _ refl, where dest = "\<lambda>x. x" and mk = "\<lambda>x. x"])
      (auto simp: fields_ser_def fcomp_assoc)
qed

lemma SignatureHashPreimage_fields:
  "SignatureHashPreimage E c tx m i a sc = fields_ser (fields_of E c tx m i a sc) (BeginPreimage Input)"
  by (simp add: SignatureHashPreimage_def fields_ser_def fields_of_def)

lemma SignatureHashPreimage_inject:
  assumes "SignatureHashPreimage E c tx m i a sc = SignatureHashPreimage E c' tx' m' i' a' sc'"
    and "i64_ok a" and "i64_ok a'"
  shows "fields_of E c tx m i a sc = fields_of E c' tx' m' i' a' sc'"
proof -
  obtain des where c: "codec fields_ser des (\<lambda>(c, v, l, o', s, t, i, a, h). i64_ok a) 0"
    by (rule fields_codec)
  show ?thesis
    using assms by (intro codec.ser_inject [OF c, where w = "BeginPreimage Input"])
      (simp_all add: SignatureHashPreimage_fields, simp_all add: fields_of_def)
qed

text \<open>Everything a signature's message is computed from.\<close>

record sighash_message =
  msg_chain_id :: hash256
  msg_tx :: transaction
  msg_index :: u32
  msg_amount :: i64
  msg_condition :: spend_condition

definition message_hash :: "crypto_ext \<Rightarrow> sighash_message \<Rightarrow> hash256" where
  "message_hash E m = SignatureHash E (msg_chain_id m) (msg_tx m)
     (ComputeSigHashMidstates E (msg_tx m)) (msg_index m) (msg_amount m) (msg_condition m)"

text \<open>The strings that are hashed on the way to the signature hash.\<close>

definition message_preimages :: "crypto_ext \<Rightarrow> sighash_message \<Rightarrow> (string \<times> byte_vec) list" where
  "message_preimages E m =
     [(SIGHASH_TAG, OutpointsPreimage (msg_tx m)),
      (SIGHASH_TAG, SequencesPreimage (msg_tx m)),
      (SIGHASH_TAG, OutputsPreimage (msg_tx m)),
      (SPEND_CONDITION_TAG, SpendCondition_Serialize (msg_condition m) []),
      (SIGHASH_TAG, SignatureHashPreimage E (msg_chain_id m) (msg_tx m)
        (ComputeSigHashMidstates E (msg_tx m)) (msg_index m) (msg_amount m) (msg_condition m))]"

definition message_valid :: "sighash_message \<Rightarrow> bool" where
  "message_valid m \<longleftrightarrow> body_valid (msg_tx m) \<and> i64_ok (msg_amount m) \<and>
     SpendCondition_valid (2 ^ 64) (2 ^ 64) (msg_condition m)"

lemma WriteVec_map: "WriteVec (\<lambda>x. ser (f x)) xs = WriteVec ser (map f xs)"
  by (rule ext) (simp add: WriteVec_def fold_map comp_def)

lemma outpoints_codec: "codec (WriteVec OutPoint_Serialize)
    (ReadVec m OutPoint_SIZE OutPoint_Deserialize) (fits m) 1"
  using outpoint.vec_codec [of OutPoint_SIZE m] by (simp add: size_constants)

lemma sequences_codec: "codec (WriteVec WriteU32) (ReadVec m 4 ReadU32) (fits m) 1"
  using u32.vec_codec [of 4 m] by simp

lemma inputs_eqI:
  assumes "map in_outpoint xs = map in_outpoint ys" and "map in_sequence xs = map in_sequence ys"
  shows "xs = (ys :: tx_input list)"
  using assms
proof (induction xs arbitrary: ys)
  case Nil
  then show ?case by simp
next
  case (Cons x xs)
  then obtain y ys' where "ys = y # ys'" by (cases ys) auto
  with Cons show ?case by (auto intro: tx_input.equality)
qed

lemma body_of_preimages:
  assumes "body_valid a" and "body_valid b"
    and "OutpointsPreimage a = OutpointsPreimage b"
    and "SequencesPreimage a = SequencesPreimage b"
    and "OutputsPreimage a = OutputsPreimage b"
  shows "tx_inputs a = tx_inputs b \<and> tx_outputs a = tx_outputs b"
proof -
  have v: "fits (2 ^ 64) (map f (tx_inputs tx))"
    "fits (2 ^ 64) (tx_outputs tx) \<and> (\<forall>x \<in> set (tx_outputs tx). TxOutput_valid (2 ^ 64) x)"
    if "body_valid tx" for f :: "tx_input \<Rightarrow> 'a" and tx
    using that by (auto simp: body_valid_def TxOutput_valid_def Lock_valid_def)
  have "map in_outpoint (tx_inputs a) = map in_outpoint (tx_inputs b)"
    by (rule codec.ser_inject [OF outpoints_codec [of "2 ^ 64"] v(1) v(1), OF assms(1,2)])
      (use assms(3) in \<open>simp add: OutpointsPreimage_def WriteVec_map\<close>)
  moreover have "map in_sequence (tx_inputs a) = map in_sequence (tx_inputs b)"
    by (rule codec.ser_inject [OF sequences_codec [of "2 ^ 64"] v(1) v(1), OF assms(1,2)])
      (use assms(4) in \<open>simp add: SequencesPreimage_def WriteVec_map\<close>)
  moreover have "tx_outputs a = tx_outputs b"
    by (rule codec.ser_inject [OF outputs_codec [of "2 ^ 64" "2 ^ 64"] v(2) v(2), OF assms(1,2)])
      (use assms(5) in \<open>simp add: OutputsPreimage_def\<close>)
  ultimately show ?thesis by (simp add: inputs_eqI)
qed

lemma message_hash_commits:
  assumes valid: "message_valid m" "message_valid m'"
    and cf: "collision_free E (message_preimages E m @ message_preimages E m')"
    and eq: "message_hash E m = message_hash E m'"
  shows "msg_chain_id m = msg_chain_id m'" "tx_body (msg_tx m) = tx_body (msg_tx m')"
    "msg_index m = msg_index m'" "msg_amount m = msg_amount m'" "msg_condition m = msg_condition m'"
proof -
  note D = collision_freeD [OF cf]
  have "fields_of E (msg_chain_id m) (msg_tx m) (ComputeSigHashMidstates E (msg_tx m)) (msg_index m)
      (msg_amount m) (msg_condition m) =
    fields_of E (msg_chain_id m') (msg_tx m') (ComputeSigHashMidstates E (msg_tx m')) (msg_index m')
      (msg_amount m') (msg_condition m')"
    using valid eq by (intro SignatureHashPreimage_inject D [where t = SIGHASH_TAG])
      (simp_all add: message_preimages_def message_hash_def SignatureHash_def message_valid_def)
  note f = this [unfolded fields_of_def ComputeSigHashMidstates_def, simplified]
  have "OutpointsPreimage (msg_tx m) = OutpointsPreimage (msg_tx m')"
    "SequencesPreimage (msg_tx m) = SequencesPreimage (msg_tx m')"
    "OutputsPreimage (msg_tx m) = OutputsPreimage (msg_tx m')"
    by (rule D [where t = SIGHASH_TAG]; simp add: f message_preimages_def)+
  with valid body_of_preimages f show "tx_body (msg_tx m) = tx_body (msg_tx m')"
    by (simp add: message_valid_def)
  have "SpendCondition_Serialize (msg_condition m) [] = SpendCondition_Serialize (msg_condition m') []"
    by (rule D [where t = SPEND_CONDITION_TAG])
      (use f in \<open>simp_all add: message_preimages_def SpendConditionCommitment_def\<close>)
  then show "msg_condition m = msg_condition m'"
    using valid
    by (intro condition.ser_inject [where mk = "2 ^ 64" and ms = "2 ^ 64"]) (simp_all add: message_valid_def)
  show "msg_chain_id m = msg_chain_id m'" "msg_index m = msg_index m'" "msg_amount m = msg_amount m'"
    using f by simp_all
qed

subsection \<open>Merkle root\<close>

text \<open>The strings hashed on the way up from a level, and for a whole tree.\<close>

fun branch_preimages :: "hash256 list \<Rightarrow> (string \<times> byte_vec) list" where
  "branch_preimages (l # r # rest) =
     (MERKLE_BRANCH_TAG, Hash256_Span l @ Hash256_Span r) # branch_preimages rest"
| "branch_preimages level = []"

function level_preimages :: "crypto_ext \<Rightarrow> hash256 list \<Rightarrow> (string \<times> byte_vec) list" where
  "level_preimages E level = (if length level > 1
     then branch_preimages level @ level_preimages E (MerkleNext E level) else [])"
  by auto
termination
  by (relation "measure (\<lambda>(E, level). length level)") (auto simp: length_MerkleNext)

declare level_preimages.simps [simp del]

abbreviation merkle_leaves :: "crypto_ext \<Rightarrow> hash256 list \<Rightarrow> hash256 list" where
  "merkle_leaves E \<equiv> map (\<lambda>wtxid. TaggedHash E MERKLE_LEAF_TAG (Hash256_Span wtxid))"

definition root_preimage :: "crypto_ext \<Rightarrow> hash256 list \<Rightarrow> byte_vec" where
  "root_preimage E wtxids = writes [WriteCompactSize (of_nat (length wtxids)),
     WriteHash256 (hd (MerkleLevels E (merkle_leaves E wtxids)))] []"

definition merkle_preimages :: "crypto_ext \<Rightarrow> hash256 list \<Rightarrow> (string \<times> byte_vec) list" where
  "merkle_preimages E wtxids =
     map (\<lambda>wtxid. (MERKLE_LEAF_TAG, Hash256_Span wtxid)) wtxids @
     level_preimages E (merkle_leaves E wtxids) @
     [(MERKLE_ROOT_TAG, root_preimage E wtxids)]"

lemma Hash256_Span_inject [simp]: "Hash256_Span a = Hash256_Span b \<longleftrightarrow> a = b"
  by (metis FromBytes_Span option.inject)

lemma MerkleNext_inject:
  assumes "length xs = length ys"
    and "collision_free E (branch_preimages xs @ branch_preimages ys)"
    and "MerkleNext E xs = MerkleNext E ys"
  shows "xs = ys"
  using assms
proof (induction E xs arbitrary: ys rule: MerkleNext.induct)
  case (1 E l r rest)
  from 1(2) obtain l' r' rest' where ys: "ys = l' # r' # rest'"
    by (cases ys; cases "tl ys") auto
  have "Hash256_Span l @ Hash256_Span r = Hash256_Span l' @ Hash256_Span r'"
    using 1(4) by (intro collision_freeD [OF 1(3), where t = MERKLE_BRANCH_TAG])
      (simp_all add: ys MerkleBranch_def)
  moreover have "rest = rest'"
    using 1(2,4) by (intro 1(1) collision_free_mono [OF 1(3)]) (auto simp: ys)
  ultimately show ?case by (simp add: ys)
qed (auto simp: Suc_length_conv)

lemma length_MerkleLevels: "length (MerkleLevels E level) = min 1 (length level)"
proof (induction E level rule: MerkleLevels.induct)
  case (1 E level)
  then show ?case
    by (cases "length level > 1") (auto simp: MerkleLevels.simps [of E level] length_MerkleNext)
qed

lemma MerkleLevels_inject:
  assumes "length xs = length ys"
    and "collision_free E (level_preimages E xs @ level_preimages E ys)"
    and "MerkleLevels E xs = MerkleLevels E ys"
  shows "xs = ys"
  using assms
proof (induction E xs arbitrary: ys rule: MerkleLevels.induct)
  case (1 E xs)
  show ?case
  proof (cases "length xs > 1")
    case True
    with 1(2) have *: "length ys > 1" by simp
    have up: "MerkleLevels E zs = MerkleLevels E (MerkleNext E zs)"
      "level_preimages E zs = branch_preimages zs @ level_preimages E (MerkleNext E zs)"
      if "length zs > 1" for zs
      using that by (simp_all add: MerkleLevels.simps [of E zs] level_preimages.simps [of E zs])
    have sub: "collision_free E msgs" if "set msgs \<subseteq> set (branch_preimages xs @ branch_preimages ys @
        level_preimages E (MerkleNext E xs) @ level_preimages E (MerkleNext E ys))" for msgs
      by (rule collision_free_mono [OF 1(3)]) (use that up(2) [OF True] up(2) [OF *] in auto)
    have "MerkleNext E xs = MerkleNext E ys"
    proof (rule 1(1) [OF True _ sub])
      show "MerkleLevels E (MerkleNext E xs) = MerkleLevels E (MerkleNext E ys)"
        using 1(4) up(1) [OF True] up(1) [OF *] by simp
    qed (use 1(2) in \<open>auto simp: length_MerkleNext\<close>)
    then show ?thesis
      by (rule MerkleNext_inject [OF 1(2) sub, rotated]) auto
  next
    case False
    then have "MerkleLevels E xs = xs" by (subst MerkleLevels.simps) simp
    moreover from False 1(2) have "MerkleLevels E ys = ys" by (subst MerkleLevels.simps) simp
    ultimately show ?thesis using 1(4) by metis
  qed
qed

lemma WriteCompactSize_inject [simp]: "WriteCompactSize a [] = WriteCompactSize b [] \<longleftrightarrow> a = b"
proof
  assume *: "WriteCompactSize a [] = WriteCompactSize b []"
  obtain p :: byte_vec where p: "length p = 2 ^ 64" using Ex_list_of_length by blast
  have "unat v \<le> length p div 1" for v :: u64
  proof -
    have "unat v < 2 ^ LENGTH(64)" by (rule unsigned_less)
    with p have "unat v < length p" by simp
    then show ?thesis by simp
  qed
  with * parser.enc_inject [OF compact_parser [of 1], of a p b p] show "a = b" by simp
qed simp

lemma ComputeMerkleRoot_root:
  "wtxids \<noteq> [] \<Longrightarrow> ComputeMerkleRoot E wtxids = Some (TaggedHash E MERKLE_ROOT_TAG (root_preimage E wtxids))"
  by (simp add: ComputeMerkleRoot_def root_preimage_def Let_def)

lemma ComputeMerkleRoot_inject:
  assumes "length xs < 2 ^ 64" and "length ys < 2 ^ 64" and "xs \<noteq> []"
    and cf: "collision_free E (merkle_preimages E xs @ merkle_preimages E ys)"
    and eq: "ComputeMerkleRoot E xs = ComputeMerkleRoot E ys"
  shows "xs = ys"
proof -
  from eq assms(3) have ne: "ys \<noteq> []" by (auto simp: ComputeMerkleRoot_def)
  have "root_preimage E xs = root_preimage E ys"
    using eq ne assms(3) by (intro collision_freeD [OF cf, where t = MERKLE_ROOT_TAG])
      (simp_all add: ComputeMerkleRoot_root merkle_preimages_def)
  then have n: "(of_nat (length xs) :: u64) = of_nat (length ys)"
    and h: "hd (MerkleLevels E (merkle_leaves E xs)) = hd (MerkleLevels E (merkle_leaves E ys))"
    by (auto simp: root_preimage_def WriteHash256_def WriteBytes_def)
  from arg_cong [OF n, of unat] assms(1,2) have len: "length xs = length ys" by simp
  have one: "MerkleLevels E (merkle_leaves E zs) = [hd (MerkleLevels E (merkle_leaves E zs))]"
    if "zs \<noteq> []" for zs
  proof -
    have "length (MerkleLevels E (merkle_leaves E zs)) = Suc 0"
      using that by (cases zs) (simp_all add: length_MerkleLevels)
    then show ?thesis by (auto simp: length_Suc_conv)
  qed
  have "MerkleLevels E (merkle_leaves E xs) = MerkleLevels E (merkle_leaves E ys)"
    using one [OF ne] one [OF assms(3)] h by (metis (no_types))
  then have "merkle_leaves E xs = merkle_leaves E ys"
    by (rule MerkleLevels_inject [OF _ collision_free_mono [OF cf], rotated -1])
      (auto simp: merkle_preimages_def len)
  then have nth: "TaggedHash E MERKLE_LEAF_TAG (Hash256_Span (xs ! i)) =
      TaggedHash E MERKLE_LEAF_TAG (Hash256_Span (ys ! i))" if "i < length xs" for i
    using that len by (metis (no_types, lifting) nth_map)
  have "Hash256_Span (xs ! i) = Hash256_Span (ys ! i)" if "i < length xs" for i
    using that len by (intro collision_freeD [OF cf nth]) (simp_all add: merkle_preimages_def)
  with len show ?thesis by (auto intro: nth_equalityI)
qed

section \<open>Properties\<close>

text \<open>
  Property C19. A signature hash commits to the whole spend: if two signature hashes agree and the
  hash does not collide on the strings hashed on the way to them, they are for the same chain,
  the same transaction up to its witnesses, the same input, the same amount and the same spend
  condition. A signature cannot be replayed on another chain, input or amount.
\<close>

theorem signature_hash_commits:
  assumes "message_valid m" and "message_valid m'"
    and "collision_free E (message_preimages E m @ message_preimages E m')"
    and "message_hash E m = message_hash E m'"
  shows "msg_chain_id m = msg_chain_id m' \<and> tx_body (msg_tx m) = tx_body (msg_tx m') \<and>
    msg_index m = msg_index m' \<and> msg_amount m = msg_amount m' \<and> msg_condition m = msg_condition m'"
  using message_hash_commits [OF assms] by blast

definition example_message :: "witness list \<Rightarrow> sighash_message" where
  "example_message ws =
     \<lparr>msg_chain_id = Hash256_zero, msg_tx = (example_tx 1)\<lparr>tx_witnesses := ws\<rparr>, msg_index = 0,
      msg_amount = 5, msg_condition = \<lparr>sc_version = 1, sc_threshold = 1, sc_keys = []\<rparr>\<rparr>"

lemma example_hash:
  "\<exists>p. length p = 64 \<and> (\<forall>x. Hash256_Span (TaggedHash example_crypto t x) =
     of_nat (64 + length x) # take 31 (drop 2 (rev (p @ x))))"
proof -
  let ?h = "Hash256_Span (Sha256 example_crypto (string_bytes t))"
  let ?d = "\<lambda>bs. of_nat (length bs) # take 31 (drop 2 (rev bs))"
  have d: "Hash256_Span (Sha256 example_crypto bs) = ?d bs" if "64 \<le> length bs" for bs
    using that by (simp add: Sha256_def example_crypto_def Hash256_Span_def)
  have "Hash256_Span (TaggedHash example_crypto t x) = ?d ((?h @ ?h) @ x)" for x
    unfolding TaggedHash_def Let_def by (rule d) simp
  moreover have "length ((?h @ ?h) @ x) = 64 + length x" for x by simp
  ultimately show ?thesis by (intro exI [of _ "?h @ ?h"]) (simp only: simp_thms length_append length_Hash256_Span)
qed

lemma example_hash_length:
  assumes "TaggedHash example_crypto t x = TaggedHash example_crypto t y"
    and "length x \<le> 191" and "length y \<le> 191"
  shows "length x = length y"
proof -
  obtain p where "length p = 64" "\<And>x. Hash256_Span (TaggedHash example_crypto t x) =
      of_nat (64 + length x) # take 31 (drop 2 (rev (p @ x)))"
    using example_hash [of t] by blast
  then have "(of_nat (64 + length x) :: u8) = of_nat (64 + length y)"
    using assms(1) by (metis list.inject)
  from arg_cong [OF this, of unat] assms(2,3) show ?thesis by (simp only: unat_of_nat) simp
qed

lemma example_hash_head:
  assumes "TaggedHash example_crypto t (a # x) = TaggedHash example_crypto t (b # y)"
    and "length x = 32" and "length y = 32"
  shows "a = b"
proof -
  obtain p where "length p = 64" and p: "\<And>x. Hash256_Span (TaggedHash example_crypto t x) =
      of_nat (64 + length x) # take 31 (drop 2 (rev (p @ x)))"
    using example_hash [of t] by blast
  have n: "Hash256_Span (TaggedHash example_crypto t (c # z)) ! 31 = c" if "length z = 32" for c z
    unfolding p using that by (simp add: nth_append)
  show ?thesis using n [OF assms(2), of a] n [OF assms(3), of b] assms(1) by simp
qed

lemma example_preimages:
  "collision_free example_crypto (message_preimages example_crypto (example_message []))"
proof -
  let ?m = "example_message []"
  have l: "length (OutpointsPreimage (msg_tx ?m)) = 38" "length (SequencesPreimage (msg_tx ?m)) = 6"
    "length (OutputsPreimage (msg_tx ?m)) = 14"
    by (simp_all add: example_message_def example_tx_def OutpointsPreimage_def SequencesPreimage_def
        OutputsPreimage_def BeginPreimage_def writer_defs)
  show ?thesis
    unfolding collision_free_def message_preimages_def
    by (auto dest!: example_hash_length
        simp: l length_SignatureHashPreimage SIGHASH_PREIMAGE_SIZE_def SIGHASH_TAG_def SPEND_CONDITION_TAG_def)
qed

theorem signature_hash_commits_witness:
  "let w = \<lparr>wit_condition = \<lparr>sc_version = 2, sc_threshold = 1, sc_keys = []\<rparr>, wit_signatures = []\<rparr>
   in tx_body (msg_tx (example_message [])) = tx_body (msg_tx (example_message [w]))"
proof -
  let ?w = "\<lparr>wit_condition = \<lparr>sc_version = 2, sc_threshold = 1, sc_keys = []\<rparr>, wit_signatures = []\<rparr>"
  let ?E = example_crypto and ?m = "example_message []" and ?m' = "example_message [?w]"
  have v: "message_valid (example_message ws)" for ws
    by (simp add: example_message_def message_valid_def example_tx_def body_valid_def IsValidAmount_def
        MAX_MONEY_def SpendCondition_valid_def i64_ok_def)
  have p: "message_preimages ?E ?m' = message_preimages ?E ?m" "message_hash ?E ?m' = message_hash ?E ?m"
    by (simp_all add: example_message_def message_preimages_def OutpointsPreimage_def
        SequencesPreimage_def OutputsPreimage_def SignatureHashPreimage_def ComputeSigHashMidstates_def
        message_hash_def SignatureHash_def)
  have "collision_free ?E (message_preimages ?E ?m @ message_preimages ?E ?m')"
    unfolding p by (rule collision_free_mono [OF example_preimages]) simp
  from signature_hash_commits [OF v v this p(2) [symmetric]] show ?thesis by (simp add: Let_def)
qed

text \<open>
  Property C27. A Merkle root commits to the list of witness txids, their number and their order:
  two nonempty lists with the same root are equal if the hash does not collide on the strings
  hashed in the two trees. Since the root also hashes the count, a list padded by repeating its
  last element has a different root.
\<close>

theorem merkle_root_commits:
  assumes "length xs < 2 ^ 64" and "length ys < 2 ^ 64" and "xs \<noteq> []"
    and "collision_free E (merkle_preimages E xs @ merkle_preimages E ys)"
    and "ComputeMerkleRoot E xs = ComputeMerkleRoot E ys"
  shows "xs = ys"
  by (rule ComputeMerkleRoot_inject [OF assms])

theorem merkle_root_commits_witness:
  "ComputeMerkleRoot example_crypto [Hash256_zero] \<noteq>
   ComputeMerkleRoot example_crypto [Hash256_zero, Hash256_zero]"
proof -
  let ?z = Hash256_zero and ?E = example_crypto
  have "TaggedHash ?E MERKLE_ROOT_TAG (root_preimage ?E [?z]) \<noteq>
      TaggedHash ?E MERKLE_ROOT_TAG (root_preimage ?E [?z, ?z])"
    by (auto dest: example_hash_head simp: root_preimage_def writer_defs)
  then have "collision_free ?E (merkle_preimages ?E [?z] @ merkle_preimages ?E [?z, ?z])"
    by (auto simp: collision_free_def merkle_preimages_def level_preimages.simps MERKLE_LEAF_TAG_def
        MERKLE_BRANCH_TAG_def MERKLE_ROOT_TAG_def)
  from merkle_root_commits [of "[?z]" "[?z, ?z]", OF _ _ _ this] show ?thesis by auto
qed

end
