(* ===== verification/Target.thy ===== *)
theory Target
  imports Hexcodec
begin

text \<open>
  Proof-of-work targets (\<^verbatim>\<open>src/consensus/target.cpp\<close>): the compact 32-bit encoding, its
  decoder, and the comparison of a hash with a target. The lemmas give both directions their
  numeric meaning, and show that the encoder rounds down to a target the decoder accepts.
\<close>

unbundle bit_operations_syntax

type_synonym target = arr32

definition MANTISSA_SIGN_BIT :: u32 where "MANTISSA_SIGN_BIT = 0x00800000"

section \<open>The code\<close>

definition TargetToCompact :: "target \<Rightarrow> u32" where
  "TargetToCompact target =
     (let bytes = arr_list target;
          first = length (takeWhile (\<lambda>b. b = 0) bytes)
      in if first = length bytes then 0
         else
           let size = of_nat (length bytes - first) :: u32;
               mantissa = fold (\<lambda>offset m.
                   (if first + offset < length bytes
                    then push_bit 8 m OR ucast (bytes ! (first + offset)) else push_bit 8 m))
                 [0, 1, 2] (0 :: u32)
           in if mantissa AND MANTISSA_SIGN_BIT \<noteq> 0
              then push_bit 24 (size + 1) OR drop_bit 8 mantissa
              else push_bit 24 size OR mantissa)"

text \<open>
  The loop over the three mantissa bytes: \<open>None\<close> as soon as a nonzero byte falls outside the
  array.
\<close>

fun CompactToTarget_loop :: "u32 \<Rightarrow> int \<Rightarrow> nat list \<Rightarrow> byte_vec \<Rightarrow> byte_vec option" where
  "CompactToTarget_loop mantissa most_significant [] target = Some target"
| "CompactToTarget_loop mantissa most_significant (offset # offsets) target =
     (let byte = ucast (drop_bit (8 * (2 - offset)) mantissa AND 0xFF) :: u8;
          index = most_significant + int offset
      in if index < 0 \<or> index \<ge> 32 then
           if byte \<noteq> 0 then None
           else CompactToTarget_loop mantissa most_significant offsets target
         else CompactToTarget_loop mantissa most_significant offsets (target[nat index := byte]))"

definition CompactToTarget :: "u32 \<Rightarrow> target option" where
  "CompactToTarget bits =
     (let exponent = drop_bit 24 bits;
          mantissa = bits AND 0x00FFFFFF
      in if mantissa AND MANTISSA_SIGN_BIT \<noteq> 0 then None
         else if mantissa = 0 then None
         else case CompactToTarget_loop mantissa (32 - uint exponent) [0, 1, 2] (replicate 32 0) of
             None \<Rightarrow> None
           | Some bytes \<Rightarrow>
               let target = arr_of bytes
               in if TargetToCompact target \<noteq> bits then None else Some target)"

text \<open>The bytes are compared from the most significant one, the last of the digest.\<close>

fun HashMeetsTarget_loop :: "byte_vec \<Rightarrow> byte_vec \<Rightarrow> bool" where
  "HashMeetsTarget_loop (h # hs) (t # ts) = (if h \<noteq> t then h < t else HashMeetsTarget_loop hs ts)"
| "HashMeetsTarget_loop _ _ = True"

definition HashMeetsTarget :: "hash256 \<Rightarrow> target \<Rightarrow> bool" where
  "HashMeetsTarget hash target = HashMeetsTarget_loop (rev (Hash256_Span hash)) (arr_list target)"

definition CheckProofOfWork :: "hash256 \<Rightarrow> u32 \<Rightarrow> bool" where
  "CheckProofOfWork hash bits =
     (case CompactToTarget bits of None \<Rightarrow> False | Some target \<Rightarrow> HashMeetsTarget hash target)"

section \<open>Comparison\<close>

definition hash_val :: "hash256 \<Rightarrow> nat" where
  "hash_val h = le_val (Hash256_Span h)"

lemma HashMeetsTarget_loop_iff:
  "length hs = length ts \<Longrightarrow> HashMeetsTarget_loop hs ts \<longleftrightarrow> \<not> lex_less ts hs"
  by (induction hs ts rule: HashMeetsTarget_loop.induct) (auto simp: not_less_iff_gr_or_eq)

lemma HashMeetsTarget_iff: "HashMeetsTarget hash target \<longleftrightarrow> hash_val hash \<le> arr_val target"
  by (simp add: HashMeetsTarget_def HashMeetsTarget_loop_iff lex_less_be_val be_val_rev hash_val_def
      arr_val_def not_less)

section \<open>The encoder\<close>

lemma unat_push_or:
  fixes m c :: "'a::len word"
  assumes "unat m * 2 ^ k + unat c < 2 ^ LENGTH('a)" and "unat c < 2 ^ k"
  shows "unat (push_bit k m OR c) = unat m * 2 ^ k + unat c"
proof -
  have "unat (push_bit k m) = push_bit k (unat m)"
    using assms(1) by (simp only: unsigned_push_bit_eq) (simp add: push_bit_eq_mult take_bit_nat_eq_self)
  then have "unat (push_bit k m OR c) = push_bit k (unat m) OR unat c"
    by (simp only: unsigned_or_eq)
  also have "\<dots> = push_bit k (unat m) + unat c"
  proof (rule disjunctive_add_eq_or [symmetric])
    show "push_bit k (unat m) AND unat c = 0"
    proof (rule bit_eqI)
      fix n
      have "\<not> bit (unat c) n" if "k \<le> n"
      proof -
        have "unat c < 2 ^ n"
          using assms(2) that by (rule less_le_trans [OF _ power_increasing]) simp_all
        then show ?thesis by (simp add: bit_iff_odd)
      qed
      then show "bit (push_bit k (unat m) AND unat c) n = bit 0 n"
        by (auto simp: bit_simps)
    qed
  qed
  finally show ?thesis by (simp add: push_bit_eq_mult)
qed

text \<open>The three leading bytes of a string, left-aligned, as a number.\<close>

fun lead3 :: "byte_vec \<Rightarrow> nat" where
  "lead3 [] = 0"
| "lead3 [a] = unat a * 65536"
| "lead3 [a, b] = unat a * 65536 + unat b * 256"
| "lead3 (a # b # c # rest) = unat a * 65536 + unat b * 256 + unat c"

lemma lead3_eq: "lead3 xs = be_val xs * 256 ^ 3 div 256 ^ length xs"
proof (induction xs rule: lead3.induct)
  case (4 a b c rest)
  have "be_val (a # b # c # rest) = (unat a * 65536 + unat b * 256 + unat c) * 256 ^ length rest + be_val rest"
    by (simp add: algebra_simps)
  moreover have "256 ^ length (a # b # c # rest) = (256 :: nat) ^ length rest * 256 ^ 3" by simp
  ultimately have "be_val (a # b # c # rest) * 256 ^ 3 div 256 ^ length (a # b # c # rest) =
      ((unat a * 65536 + unat b * 256 + unat c) * 256 ^ length rest + be_val rest) div 256 ^ length rest"
    by (simp only:) (rule div_mult_mult2, simp)
  also have "\<dots> = unat a * 65536 + unat b * 256 + unat c"
    using be_val_less [of rest] by simp
  finally show ?case by simp
qed simp_all

lemma unat_ucast_u32 [simp]: "unat (ucast (b :: u8) :: u32) = unat b"
  using unat_byte_less [of b] by (simp add: unsigned_ucast_eq take_bit_eq_mod del: unat_byte_less)

lemma unat_byte_step:
  fixes m :: u32
  assumes "unat m < 2 ^ 24"
  shows "unat (push_bit 8 m OR ucast (b :: u8)) = unat m * 256 + unat b"
    "unat (push_bit 8 m) = unat m * 256"
proof -
  have b: "unat b < 256" by simp
  show "unat (push_bit 8 m OR ucast b) = unat m * 256 + unat b"
    using assms b by (subst unat_push_or) (simp_all del: unat_byte_less)
  show "unat (push_bit 8 m) = unat m * 256"
    using unat_push_or [of m 8 0] assms by simp
qed

lemma mantissa_fold:
  assumes "first < length bytes"
  shows "unat (fold (\<lambda>offset m.
      (if first + offset < length bytes
       then push_bit 8 m OR ucast (bytes ! (first + offset)) else push_bit 8 m))
    [0, 1, 2] (0 :: u32)) = lead3 (drop first bytes)"
proof -
  define rest where "rest = drop (Suc first) bytes"
  define a where "a = bytes ! first"
  have d: "drop first bytes = a # rest"
    using assms by (simp add: a_def rest_def Cons_nth_drop_Suc)
  have nth: "bytes ! (first + k) = (a # rest) ! k" for k
    using assms by (simp add: d [symmetric])
  have len: "first + k < length bytes \<longleftrightarrow> k \<le> length rest" for k
    using assms by (auto simp: rest_def)
  have lt: "unat x < 256" for x :: u8 by simp
  consider "rest = []" | b where "rest = [b]" | b c rs where "rest = b # c # rs"
    by (cases rest rule: remdups_adj.cases) auto
  then show ?thesis
  proof cases
    case 1
    with d nth [of 0] lt [of a] show ?thesis
      by (simp add: len unat_byte_step del: unat_byte_less push_bit_push_bit push_bit_or)
  next
    case 2
    with d nth [of 0] nth [of 1] lt [of a] lt [of b] show ?thesis
      by (simp add: len unat_byte_step del: unat_byte_less push_bit_push_bit push_bit_or)
  next
    case 3
    with d nth [of 0] nth [of 1] nth [of 2] lt [of a] lt [of b] lt [of c] show ?thesis
      by (simp add: len unat_byte_step del: unat_byte_less push_bit_push_bit push_bit_or)
  qed
qed

lemma be_val_drop_zeros:
  "be_val (dropWhile (\<lambda>b. b = 0) xs) = be_val xs"
  by (induction xs) auto

lemma be_val_lower:
  assumes "hd xs \<noteq> 0" and "xs \<noteq> []"
  shows "256 ^ (length xs - 1) \<le> be_val xs"
proof -
  obtain x ys where xs: "xs = x # ys" using assms(2) by (cases xs) auto
  with assms(1) have "1 \<le> unat x" by (simp add: unat_gt_0 Suc_le_eq)
  then have "1 * 256 ^ length ys \<le> unat x * 256 ^ length ys" by (rule mult_le_mono1)
  then have "256 ^ length ys \<le> unat x * 256 ^ length ys + be_val ys" by linarith
  then show ?thesis by (simp add: xs)
qed

lemma sign_bit_iff:
  assumes "unat (m :: u32) < 2 ^ 24"
  shows "m AND MANTISSA_SIGN_BIT \<noteq> 0 \<longleftrightarrow> 2 ^ 23 \<le> unat m"
proof -
  have "MANTISSA_SIGN_BIT = 2 ^ 23" by (simp add: MANTISSA_SIGN_BIT_def)
  then have "m AND MANTISSA_SIGN_BIT \<noteq> 0 \<longleftrightarrow> bit m 23"
    using and_exp_eq_0_iff_not_bit [of m 23] by (simp only: not_not)
  also have "\<dots> \<longleftrightarrow> bit (unat m) 23" by (simp add: bit_simps)
  also have "\<dots> \<longleftrightarrow> odd (unat m div 2 ^ 23)" by (simp add: bit_iff_odd)
  also have "\<dots> \<longleftrightarrow> 2 ^ 23 \<le> unat m"
  proof -
    have "unat m div 2 ^ 23 < 2" using assms by (intro less_mult_imp_div_less) simp
    then have "odd (unat m div 2 ^ 23) \<longleftrightarrow> 0 < unat m div 2 ^ 23"
      by (auto simp: less_2_cases_iff)
    then show ?thesis by (simp add: div_greater_zero_iff)
  qed
  finally show ?thesis .
qed

lemma unat_compact:
  fixes m :: u32
  assumes "unat m < 2 ^ 24" and "n < 256"
  shows "unat (push_bit 24 (of_nat n) OR m) = n * 2 ^ 24 + unat m"
proof -
  have "unat (of_nat n :: u32) = n" using assms(2) by (simp add: unat_of_nat)
  moreover have "n * 2 ^ 24 + unat m < 256 * 2 ^ 24" using assms by simp
  ultimately show ?thesis using assms unat_push_or [of "of_nat n :: u32" 24 m] by simp
qed

text \<open>
  \<^term>\<open>n\<close> is the number of significant bytes of the target and the mantissa its leading three
  bytes, moved down by one where they would set the sign bit.
\<close>

lemma TargetToCompact_cases:
  assumes "arr_val t \<noteq> 0"
  obtains n m where "1 \<le> n" "n \<le> 32" "256 ^ (n - 1) \<le> arr_val t" "arr_val t < 256 ^ n"
    "m = arr_val t * 256 ^ 3 div 256 ^ n"
    "unat (TargetToCompact t) =
      (if 2 ^ 23 \<le> m then (n + 1) * 2 ^ 24 + m div 256 else n * 2 ^ 24 + m)"
proof -
  define first where "first = length (takeWhile (\<lambda>b. b = 0) (arr_list t))"
  define sig where "sig = dropWhile (\<lambda>b. b = 0) (arr_list t)"
  define mant where "mant = fold (\<lambda>offset m.
      (if first + offset < length (arr_list t)
       then push_bit 8 m OR ucast (arr_list t ! (first + offset)) else push_bit 8 m))
    [0, 1, 2] (0 :: u32)"
  have v: "be_val sig = arr_val t" by (simp add: sig_def be_val_drop_zeros arr_val_def)
  have len: "length sig = 32 - first" and drop: "drop first (arr_list t) = sig"
    by (simp_all add: sig_def first_def dropWhile_eq_drop)
  from assms v have ne: "sig \<noteq> []" by auto
  then have "0 < length sig" by simp
  then have first: "first < 32" and n: "1 \<le> length sig" "length sig \<le> 32"
    unfolding len by simp_all
  have low: "256 ^ (length sig - 1) \<le> arr_val t"
    using be_val_lower [OF _ ne] hd_dropWhile [of "\<lambda>b. b = 0" "arr_list t"] ne v
    by (simp add: sig_def)
  have high: "arr_val t < 256 ^ length sig" using be_val_less [of sig] v by simp
  have m: "unat mant = arr_val t * 256 ^ 3 div 256 ^ length sig"
    using mantissa_fold [of first "arr_list t"] first drop v by (simp add: mant_def lead3_eq)
  have lt: "unat mant < 2 ^ 24"
    unfolding m using high by (intro less_mult_imp_div_less) simp
  have code: "TargetToCompact t = (if mant AND MANTISSA_SIGN_BIT \<noteq> 0
      then push_bit 24 (of_nat (length sig) + 1) OR drop_bit 8 mant
      else push_bit 24 (of_nat (length sig)) OR mant)"
    using first by (simp add: TargetToCompact_def Let_def first_def [symmetric] mant_def len)
  have d: "unat (drop_bit 8 mant) = unat mant div 256"
    by (simp add: drop_bit_eq_div unat_div)
  have "unat mant div 256 < 2 ^ 24" using lt by linarith
  then have "unat (TargetToCompact t) =
      (if 2 ^ 23 \<le> unat mant then (length sig + 1) * 2 ^ 24 + unat mant div 256
       else length sig * 2 ^ 24 + unat mant)"
    using unat_compact [OF lt, of "length sig"] unat_compact [of "drop_bit 8 mant" "length sig + 1"] n d
    by (simp only: code sign_bit_iff [OF lt]) (simp add: add.commute)
  then show ?thesis
    using n low high m by (intro that [of "length sig" "unat mant"]) simp_all
qed

lemma div_pow_shift: "a div 256 ^ (n + k) = a div 256 ^ n div (256 :: nat) ^ k"
  by (simp add: power_add div_mult2_eq)

lemma lead_bounds:
  assumes "1 \<le> k" "256 ^ (k - 1) \<le> v" "v < 256 ^ k"
  shows "2 ^ 16 \<le> v * 256 ^ 3 div 256 ^ k" "v * 256 ^ 3 div 256 ^ k < (2 :: nat) ^ 24"
proof -
  have "2 ^ 16 * 256 ^ k = 256 ^ (k - 1) * (256 :: nat) ^ 3"
    using assms(1) by (simp flip: power_add) (simp add: power_add [symmetric] power_eq_if)
  also have "\<dots> \<le> v * 256 ^ 3" using assms(2) by (rule mult_le_mono1)
  finally show "2 ^ 16 \<le> v * 256 ^ 3 div 256 ^ k" by (simp add: less_eq_div_iff_mult_less_eq)
  show "v * 256 ^ 3 div 256 ^ k < 2 ^ 24" using assms(3) by (intro less_mult_imp_div_less) simp
qed

lemma TargetToCompact_canonical:
  assumes m: "arr_val t * 256 ^ 3 div 256 ^ n = m" "2 ^ 15 \<le> m" "m < 2 ^ 23"
  shows "unat (TargetToCompact t) = n * 2 ^ 24 + m"
proof -
  have "arr_val t \<noteq> 0" using m by (cases "arr_val t = 0") auto
  then obtain k \<mu> where k: "1 \<le> k" "256 ^ (k - 1) \<le> arr_val t" "arr_val t < 256 ^ k"
    and \<mu>: "\<mu> = arr_val t * 256 ^ 3 div 256 ^ k"
    and c: "unat (TargetToCompact t) =
      (if 2 ^ 23 \<le> \<mu> then (k + 1) * 2 ^ 24 + \<mu> div 256 else k * 2 ^ 24 + \<mu>)"
    by (rule TargetToCompact_cases) blast
  have lo: "2 ^ 16 \<le> \<mu>" and hi: "\<mu> < 2 ^ 24"
    using lead_bounds [OF k] by (simp_all add: \<mu>)
  consider "n = k" | "n = k + 1" | j where "n = k + (2 + j)" | j where "k = n + (1 + j)"
    by (metis less_imp_Suc_add linorder_neqE_nat add.commute add_2_eq_Suc plus_1_eq_Suc not0_implies_Suc add_0_right add_Suc_right add_Suc)
  then show ?thesis
  proof cases
    case 1
    with c m \<mu> show ?thesis by simp
  next
    case 2
    then have "m = \<mu> div 256" using m(1) by (simp only: \<mu> div_pow_shift power_one_right)
    with 2 c m(2) show ?thesis by auto
  next
    case 3
    then have "m = \<mu> div 256 ^ 2 div 256 ^ j" using m(1) by (simp only: \<mu> div_pow_shift)
    also have "\<dots> \<le> \<mu> div 256 ^ 2" by (rule div_le_dividend)
    finally have False using hi m(2) by simp
    then show ?thesis ..
  next
    case 4
    then have "\<mu> = m div 256 div 256 ^ j"
      using m(1) by (simp only: \<mu> div_pow_shift power_one_right)
    also have "\<dots> \<le> m div 256" by (rule div_le_dividend)
    finally have False using lo m(3) by simp
    then show ?thesis ..
  qed
qed


section \<open>The decoder\<close>

lemma be_val_update:
  "i < length xs \<Longrightarrow> be_val (xs[i := b]) + unat (xs ! i) * 256 ^ (length xs - 1 - i) =
     be_val xs + unat b * 256 ^ (length xs - 1 - i)"
proof (induction xs arbitrary: i)
  case (Cons x xs)
  then show ?case by (cases i) (auto simp: algebra_simps)
qed simp

lemma mantissa_byte:
  "unat (ucast (drop_bit (8 * j) (m :: u32) AND 0xFF) :: u8) = unat m div 256 ^ j mod 256"
proof -
  have *: "drop_bit (8 * j) m AND 0xFF = take_bit 8 (drop_bit (8 * j) m)"
    by (simp add: take_bit_eq_mask mask_eq_exp_minus_1)
  have "unat (take_bit 8 (drop_bit (8 * j) m)) = unat m div 2 ^ (8 * j) mod 2 ^ 8"
    by (simp only: unsigned_take_bit_eq unat_drop_bit_eq) (simp only: take_bit_eq_mod drop_bit_eq_div)
  then show ?thesis
    unfolding * by (simp add: unsigned_ucast_eq take_bit_eq_mod power_mult)
qed

text \<open>
  Each step adds one byte of the mantissa at its weight, scaled here so that the weights of
  bytes below the array are whole numbers too.
\<close>

lemma CompactToTarget_loop_step:
  assumes "CompactToTarget_loop m (32 - int e) (j # js) xs = Some ys"
    and "length xs = 32" and "j \<le> 2" and "32 - int e + int j < 32 \<Longrightarrow> 0 \<le> 32 - int e + int j \<Longrightarrow> xs ! nat (32 - int e + int j) = 0"
  obtains zs where "length zs = 32" "CompactToTarget_loop m (32 - int e) js zs = Some ys"
    "\<And>i. int i \<noteq> 32 - int e + int j \<Longrightarrow> zs ! i = xs ! i"
    "be_val zs * 256 ^ 3 = be_val xs * 256 ^ 3 + (unat m div 256 ^ (2 - j) mod 256) * 256 ^ (e + 2 - j)"
proof -
  let ?b = "ucast (drop_bit (8 * (2 - j)) m AND 0xFF) :: u8" and ?i = "32 - int e + int j"
  show ?thesis
  proof (cases "?i < 0 \<or> ?i \<ge> 32")
    case True
    with assms(1) have "?b = 0" and "CompactToTarget_loop m (32 - int e) js xs = Some ys"
      by (auto simp: Let_def split: if_splits)
    moreover from this(1) have "unat m div 256 ^ (2 - j) mod 256 = 0"
      using mantissa_byte [of "2 - j" m] by simp
    ultimately show ?thesis using assms(2) by (intro that [of xs]) simp_all
  next
    case False
    define i where "i = nat ?i"
    have i: "i < 32" "int i = ?i" using False unfolding i_def by arith+
    have "be_val (xs[i := ?b]) = be_val xs + unat ?b * 256 ^ (31 - i)"
      using be_val_update [of i xs ?b] assms(2,4) False i by (simp add: i_def)
    moreover have "31 - i + 3 = e + 2 - j" using i by linarith
    then have "(256 :: nat) ^ (31 - i) * 256 ^ 3 = 256 ^ (e + 2 - j)"
      by (simp only: power_add [symmetric])
    ultimately have "be_val (xs[i := ?b]) * 256 ^ 3 = be_val xs * 256 ^ 3 + unat ?b * 256 ^ (e + 2 - j)"
      by (simp add: algebra_simps)
    moreover have "CompactToTarget_loop m (32 - int e) js (xs[i := ?b]) = Some ys"
      using assms(1) False by (simp add: Let_def i_def)
    ultimately show ?thesis
      using assms(2) i mantissa_byte [of "2 - j" m]
      by (intro that [of "xs[i := ?b]"]) (auto simp: nth_list_update)
  qed
qed


lemma mantissa_bytes:
  "(n :: nat) < 2 ^ 24 \<Longrightarrow> (n div 256 ^ 2 mod 256) * 65536 + (n div 256 ^ 1 mod 256) * 256 + n div 256 ^ 0 mod 256 = n"
proof -
  assume "n < 2 ^ 24"
  then have "n div 65536 mod 256 = n div 65536" by simp
  moreover have "n div 256 = n div 65536 * 256 + n div 256 mod 256"
    using div_mult_mod_eq [of "n div 256" 256] by (simp add: div_mult2_eq [symmetric])
  moreover have "n = n div 256 * 256 + n mod 256" by simp
  ultimately have "n div 65536 mod 256 * 65536 + n div 256 mod 256 * 256 + n mod 256 = n" by linarith
  moreover have "(256 :: nat) ^ 2 = 65536" "(256 :: nat) ^ 1 = 256" "(256 :: nat) ^ 0 = 1" by simp_all
  ultimately show ?thesis by (simp only: div_by_1)
qed

lemma CompactToTarget_loop_val:
  assumes "CompactToTarget_loop m (32 - int e) [0, 1, 2] (replicate 32 0) = Some ys"
    and "unat m < 2 ^ 24"
  shows "length ys = 32 \<and> be_val ys * 256 ^ 3 = unat m * 256 ^ e"
proof -
  obtain xs where 1: "length xs = 32" "CompactToTarget_loop m (32 - int e) [1, 2] xs = Some ys"
    "\<And>i. int i \<noteq> 32 - int e + int 0 \<Longrightarrow> xs ! i = replicate 32 0 ! i"
    "be_val xs * 256 ^ 3 = be_val (replicate 32 0) * 256 ^ 3 + (unat m div 256 ^ (2 - 0) mod 256) * 256 ^ (e + 2 - 0)"
    by (rule CompactToTarget_loop_step [OF assms(1)]) simp_all
  obtain zs where 2: "length zs = 32" "CompactToTarget_loop m (32 - int e) [2] zs = Some ys"
    "\<And>i. int i \<noteq> 32 - int e + int 1 \<Longrightarrow> zs ! i = xs ! i"
    "be_val zs * 256 ^ 3 = be_val xs * 256 ^ 3 + (unat m div 256 ^ (2 - 1) mod 256) * 256 ^ (e + 2 - 1)"
    by (rule CompactToTarget_loop_step [OF 1(2,1)]) (use 1(3) in simp_all)
  obtain ws where 3: "length ws = 32" "CompactToTarget_loop m (32 - int e) [] ws = Some ys"
    "be_val ws * 256 ^ 3 = be_val zs * 256 ^ 3 + (unat m div 256 ^ (2 - 2) mod 256) * 256 ^ (e + 2 - 2)"
    by (rule CompactToTarget_loop_step [OF 2(2,1)]) (use 1(3) 2(3) in simp_all)
  have "be_val ws * 256 ^ 3 = ((unat m div 256 ^ 2 mod 256) * 65536 + (unat m div 256 ^ 1 mod 256) * 256 +
      unat m div 256 ^ 0 mod 256) * 256 ^ e"
    using 1(4) 2(4) 3(3) by (simp add: algebra_simps)
  then have "be_val ws * 256 ^ 3 = unat m * 256 ^ e" by (simp only: mantissa_bytes [OF assms(2)])
  then show ?thesis using 3(1,2) by simp
qed


text \<open>What a decoded target is worth, and that its encoding is the one it was decoded from.\<close>

lemma CompactToTarget_SomeD:
  assumes "CompactToTarget bits = Some t"
  shows "TargetToCompact t = bits" "arr_val t \<noteq> 0"
    "arr_val t * 256 ^ 3 = unat (bits AND 0x00FFFFFF) * 256 ^ unat (drop_bit 24 bits)"
proof -
  let ?m = "bits AND 0x00FFFFFF" and ?e = "unat (drop_bit 24 bits)"
  have "?m = take_bit 24 bits" by (simp add: take_bit_eq_mask mask_eq_exp_minus_1)
  then have lt: "unat ?m < 2 ^ 24" 
    by (simp only: unsigned_take_bit_eq take_bit_nat_less_exp)
  from assms obtain ys where ys: "CompactToTarget_loop ?m (32 - int ?e) [0, 1, 2] (replicate 32 0) = Some ys"
    and t: "t = arr_of ys" and c: "TargetToCompact t = bits" and m0: "?m \<noteq> 0"
    by (auto simp: CompactToTarget_def Let_def simp del: CompactToTarget_loop.simps
        split: if_splits option.splits)
  from CompactToTarget_loop_val [OF ys lt] have v: "arr_val t * 256 ^ 3 = unat ?m * 256 ^ ?e"
    by (simp add: t arr_val_def)
  show "TargetToCompact t = bits" by (rule c)
  show "arr_val t * 256 ^ 3 = unat ?m * 256 ^ ?e" by (rule v)
  show "arr_val t \<noteq> 0"
  proof
    assume "arr_val t = 0"
    with v have "unat ?m = 0" by simp
    with m0 show False by (simp only: unat_eq_zero)
  qed
qed

lemma CompactToTarget_loop_defined:
  assumes "\<And>j. j \<in> set js \<Longrightarrow> (32 - int e + int j < 0 \<or> 32 \<le> 32 - int e + int j) \<Longrightarrow>
      unat m div 256 ^ (2 - j) mod 256 = 0"
  shows "\<exists>ys. CompactToTarget_loop m (32 - int e) js xs = Some ys"
  using assms
proof (induction js arbitrary: xs)
  case (Cons j js)
  have "ucast (drop_bit (8 * (2 - j)) m AND 0xFF) = (0 :: u8)"
    if "32 - int e + int j < 0 \<or> 32 \<le> 32 - int e + int j"
    using Cons.prems [of j] that mantissa_byte [of "2 - j" m] by (simp add: unat_eq_zero)
  with Cons show ?case by (simp add: Let_def)
qed simp

lemma compact_normal_form:
  assumes "arr_val t \<noteq> 0"
  obtains n m where "1 \<le> n" "n \<le> 33" "arr_val t * 256 ^ 3 div 256 ^ n = m" "2 ^ 15 \<le> m" "m < 2 ^ 23"
    "n = 33 \<Longrightarrow> m < 2 ^ 16"
proof -
  let ?v = "arr_val t"
  obtain k \<mu> where k: "1 \<le> k" "k \<le> 32" "256 ^ (k - 1) \<le> ?v" "?v < 256 ^ k"
    and \<mu>: "\<mu> = ?v * 256 ^ 3 div 256 ^ k"
    by (rule TargetToCompact_cases [OF assms])
  have lo: "2 ^ 16 \<le> \<mu>" and hi: "\<mu> < 2 ^ 24"
    using lead_bounds [OF k(1,3,4)] by (simp_all add: \<mu>)
  show ?thesis
  proof (cases "2 ^ 23 \<le> \<mu>")
    case True
    then show ?thesis
      using k hi by (intro that [of "k + 1" "\<mu> div 256"]) (simp_all only: \<mu> div_pow_shift power_one_right, auto)
  next
    case False
    then show ?thesis using k lo by (intro that [of k \<mu>]) (auto simp: \<mu>)
  qed
qed

text \<open>
  The encoder rounds down to a target the decoder accepts, and loses less than one part in
  \<open>2 ^ 15\<close>.
\<close>

lemma CompactToTarget_TargetToCompact:
  assumes "arr_val t \<noteq> 0"
  obtains t' where "CompactToTarget (TargetToCompact t) = Some t'"
    "arr_val t' \<le> arr_val t" "2 ^ 15 * (arr_val t - arr_val t') \<le> arr_val t'"
proof -
  let ?v = "arr_val t"
  obtain n m where n: "1 \<le> n" "n \<le> 33" and m: "?v * 256 ^ 3 div 256 ^ n = m" "2 ^ 15 \<le> m" "m < 2 ^ 23"
    and top: "n = 33 \<Longrightarrow> m < 2 ^ 16"
    using compact_normal_form [OF assms] by metis
  define bits where "bits = TargetToCompact t"
  have bits: "unat bits = n * 2 ^ 24 + m"
    unfolding bits_def by (rule TargetToCompact_canonical [OF m])
  have e: "unat (drop_bit 24 bits) = n"
    using m(3) by (simp only: unat_drop_bit_eq bits) (simp add: drop_bit_eq_div)
  then have ue: "uint (drop_bit 24 bits) = int n" by (simp only: uint_nat)
  have um: "unat (of_nat m :: u32) = m" using m(3) by (simp add: unat_of_nat)
  have mant: "bits AND 0x00FFFFFF = of_nat m"
  proof -
    have "bits AND 0x00FFFFFF = take_bit 24 bits" by (simp add: take_bit_eq_mask mask_eq_exp_minus_1)
    also have "unat (take_bit 24 bits) = m"
      using m(3) by (simp only: unsigned_take_bit_eq bits) (simp add: take_bit_eq_mod)
    finally show ?thesis by (simp only: word_unat_eq_iff um)
  qed
  have zero: "m div 256 ^ (2 - j) mod 256 = 0" if j: "j \<in> {0, 1, 2}"
    and out: "32 - int n + int j < 0 \<or> 32 \<le> 32 - int n + int j" for j
  proof -
    consider "n = 33" "j = 0" | "n = 1" "j \<in> {1, 2}" | "n = 2" "j = 2" 
      using j out n by fastforce
    then show ?thesis using top m(1) by cases auto
  qed
  obtain ys where ys: "CompactToTarget_loop (of_nat m) (32 - int n) [0, 1, 2] (replicate 32 0) = Some ys"
    using CompactToTarget_loop_defined [of "[0, 1, 2]" n "of_nat m"] zero um by auto
  from CompactToTarget_loop_val [OF ys] m(3) um
  have len: "length ys = 32" and v: "be_val ys * 256 ^ 3 = m * 256 ^ n" by auto
  let ?t = "arr_of ys"
  have tv: "arr_val ?t * 256 ^ 3 = m * 256 ^ n" using len v by (simp add: arr_val_def)
  then have "arr_val ?t * 256 ^ 3 div 256 ^ n = m" by simp
  from TargetToCompact_canonical [OF this m(2,3)] bits have "TargetToCompact ?t = bits"
    by (simp add: word_unat_eq_iff)
  moreover have "of_nat m AND MANTISSA_SIGN_BIT = 0" 
    using sign_bit_iff [of "of_nat m"] um m(3) by auto
  moreover have "(of_nat m :: u32) \<noteq> 0" 
  proof
    assume "(of_nat m :: u32) = 0"
    then have "unat (of_nat m :: u32) = 0" by (simp only: unat_0)
    with um m(2) show False by simp
  qed
  ultimately have "CompactToTarget bits = Some ?t"
    using ys ue by (simp add: CompactToTarget_def Let_def mant del: CompactToTarget_loop.simps)
  moreover have le: "arr_val ?t * 256 ^ 3 \<le> ?v * 256 ^ 3"
    unfolding tv using div_times_less_eq_dividend [of "?v * 256 ^ 3" "256 ^ n"] unfolding m(1) .
  moreover have "2 ^ 15 * (?v - arr_val ?t) * 256 ^ 3 \<le> arr_val ?t * 256 ^ 3"
  proof -
    have "(?v - arr_val ?t) * 256 ^ 3 = ?v * 256 ^ 3 mod 256 ^ n"
      using tv m(1) by (simp only: diff_mult_distrib minus_div_mult_eq_mod [symmetric])
    also have "\<dots> \<le> 256 ^ n" by (rule less_imp_le) simp
    finally have "2 ^ 15 * ((?v - arr_val ?t) * 256 ^ 3) \<le> m * 256 ^ n"
      using m(2) by (intro mult_le_mono) simp_all
    then show ?thesis by (simp only: tv mult.assoc)
  qed
  ultimately show ?thesis by (intro that [of ?t]) (simp_all add: bits_def)
qed

lemma compact_split:
  fixes n n' m m' v v' :: nat
  assumes "v \<le> v'" and m: "v * 256 ^ 3 div 256 ^ n = m" "2 ^ 15 \<le> m" "m < 2 ^ 23"
    and m': "v' * 256 ^ 3 div 256 ^ n' = m'" "2 ^ 15 \<le> m'" "m' < 2 ^ 23"
  shows "n * 2 ^ 24 + m \<le> n' * 2 ^ 24 + m'"
proof (cases n n' rule: linorder_cases)
  case less
  then have "Suc n * 2 ^ 24 \<le> n' * 2 ^ 24" by (intro mult_le_mono1) simp
  then show ?thesis using m(3) by simp
next
  case equal
  have "m \<le> m'" unfolding m(1) [symmetric] m'(1) [symmetric] equal using assms(1) by (intro div_le_mono) simp
  then show ?thesis using equal by simp
next
  case greater
  have "256 * (v * 256 ^ 3 div 256 ^ n) \<le> v * 256 ^ 3 div 256 ^ n'"
  proof -
    have "256 * (v * 256 ^ 3 div 256 ^ n) * 256 ^ n' \<le> v * 256 ^ 3 div 256 ^ n * 256 ^ n"
      using power_increasing [of "Suc n'" n "256 :: nat"] greater
      by (simp only: mult.assoc mult.left_commute [of 256]) simp
    also have "\<dots> \<le> v * 256 ^ 3" by simp
    finally show ?thesis by (simp add: less_eq_div_iff_mult_less_eq)
  qed
  also have "\<dots> \<le> m'" unfolding m'(1) [symmetric] using assms(1) by (intro div_le_mono) simp
  finally show ?thesis using m m' by simp
qed

lemma TargetToCompact_mono:
  assumes "arr_val t \<noteq> 0" and "arr_val t \<le> arr_val t'"
  shows "TargetToCompact t \<le> TargetToCompact t'"
proof -
  have "arr_val t' \<noteq> 0" using assms by simp
  obtain n m where m: "arr_val t * 256 ^ 3 div 256 ^ n = m" "2 ^ 15 \<le> m" "m < 2 ^ 23"
    by (rule compact_normal_form [OF assms(1)])
  obtain n' m' where m': "arr_val t' * 256 ^ 3 div 256 ^ n' = m'" "2 ^ 15 \<le> m'" "m' < 2 ^ 23"
    by (rule compact_normal_form [OF \<open>arr_val t' \<noteq> 0\<close>])
  show ?thesis
    unfolding word_le_nat_alt TargetToCompact_canonical [OF m] TargetToCompact_canonical [OF m']
    by (rule compact_split [OF assms(2) m m'])
qed

section \<open>Properties\<close>

text \<open>
  Property C30. A compact target that decodes is canonical: encoding the decoded target gives the
  same 32 bits, the target is positive, and it is the mantissa times 256 to the exponent less
  three.
\<close>

theorem compact_target_canonical:
  assumes "CompactToTarget bits = Some t"
  shows "TargetToCompact t = bits \<and> 0 < arr_val t \<and>
    arr_val t * 256 ^ 3 = unat (bits AND 0x00FFFFFF) * 256 ^ unat (drop_bit 24 bits)"
  using CompactToTarget_SomeD [OF assms] by simp

theorem compact_target_canonical_witness:
  "\<exists>t. CompactToTarget 0x1D00FFFF = Some t \<and> TargetToCompact t = 0x1D00FFFF \<and> 0 < arr_val t"
proof -
  have "CompactToTarget 0x1D00FFFF \<noteq> None" by code_simp
  then obtain t where "CompactToTarget 0x1D00FFFF = Some t" by blast
  with compact_target_canonical [OF this] show ?thesis by blast
qed

text \<open>
  Every positive target encodes to bits that decode, to a target that is not above
  it and at most one part in 32768 below it: rounding never makes a block easier to find.
\<close>

theorem compact_target_rounds_down:
  assumes "arr_val t \<noteq> 0"
  shows "\<exists>t'. CompactToTarget (TargetToCompact t) = Some t' \<and> arr_val t' \<le> arr_val t \<and>
    2 ^ 15 * (arr_val t - arr_val t') \<le> arr_val t'"
  using CompactToTarget_TargetToCompact [OF assms] by metis

theorem compact_target_rounds_down_witness:
  "CompactToTarget (TargetToCompact (arr_of (1 # replicate 31 0))) \<noteq> None"
proof -
  have "arr_val (arr_of (1 # replicate 31 0)) \<noteq> 0" by (simp add: arr_val_arr_of)
  from compact_target_rounds_down [OF this] show ?thesis by blast
qed

text \<open>
  The proof-of-work check compares numbers: the hash read as a little-endian
  256-bit number is at most the target the bits denote, and bits that do not decode accept nothing.
\<close>

theorem proof_of_work_numeric:
  "CheckProofOfWork hash bits \<longleftrightarrow>
     (\<exists>target. CompactToTarget bits = Some target \<and> hash_val hash \<le> arr_val target)"
  by (simp add: CheckProofOfWork_def HashMeetsTarget_iff split: option.split)

end
