(* ===== verification/Work.thy ===== *)
theory Work
  imports Target
begin

text \<open>
  Accumulated work (\<^verbatim>\<open>src/consensus/work.cpp\<close>, \<^verbatim>\<open>include/amarian/consensus/work.hpp\<close>): 256-bit
  big-endian arithmetic written out byte by byte, the restoring long division that turns a
  target into the expected number of hashes, and the saturating addition. Each byte routine is
  shown to compute the operation on numbers it stands for.
\<close>

unbundle bit_operations_syntax

section \<open>Byte arithmetic\<close>

definition SetBit :: "byte_vec \<Rightarrow> nat \<Rightarrow> byte_vec" where
  "SetBit value index =
     (let position = 31 - index div 8
      in value[position := value ! position OR push_bit (index mod 8) 1])"

text \<open>\<^verbatim>\<open>std::bit_width\<close>.\<close>

fun bit_width :: "nat \<Rightarrow> nat" where
  "bit_width n = (if n = 0 then 0 else Suc (bit_width (n div 2)))"

declare bit_width.simps [simp del]

fun BitLength_loop :: "byte_vec \<Rightarrow> nat" where
  "BitLength_loop [] = 0"
| "BitLength_loop (b # bs) =
     (if b \<noteq> 0 then length bs * 8 + bit_width (unat b) else BitLength_loop bs)"

definition BitLength :: "byte_vec \<Rightarrow> nat" where
  "BitLength value = BitLength_loop value"

definition ShiftLeft :: "byte_vec \<Rightarrow> nat \<Rightarrow> byte_vec" where
  "ShiftLeft value shift =
     (if shift = 0 then value
      else if shift \<ge> 256 then replicate 32 0
      else
        let byte_shift = shift div 8; bit_shift = shift mod 8
        in map (\<lambda>position.
             (if position + byte_shift < 32 then
                let source = position + byte_shift;
                    w = push_bit bit_shift (ucast (value ! source) :: u32);
                    w = (if bit_shift \<noteq> 0 \<and> source + 1 < 32
                         then w OR drop_bit (8 - bit_shift) (ucast (value ! (source + 1))) else w)
                in ucast (w AND 0xFF)
              else 0)) [0..<32])"

text \<open>The loops from the least significant byte up, on the reversed bytes.\<close>

fun Subtract_loop :: "byte_vec \<Rightarrow> byte_vec \<Rightarrow> nat \<Rightarrow> byte_vec" where
  "Subtract_loop (l # ls) (r # rs) borrow =
     (let right = unat r + borrow;
          borrow' = (if unat l < right then 1 else 0)
      in of_nat (unat l + borrow' * 256 - right) # Subtract_loop ls rs borrow')"
| "Subtract_loop ls rs borrow = ls"

definition Subtract :: "byte_vec \<Rightarrow> byte_vec \<Rightarrow> byte_vec" where
  "Subtract minuend subtrahend = rev (Subtract_loop (rev minuend) (rev subtrahend) 0)"

fun Increment_loop :: "byte_vec \<Rightarrow> bool \<times> byte_vec" where
  "Increment_loop [] = (True, [])"
| "Increment_loop (d # ds) =
     (if d = 0xFF then (let (carried, ds') = Increment_loop ds in (carried, (d + 1) # ds'))
      else (False, (d + 1) # ds))"

fun Add_loop :: "byte_vec \<Rightarrow> byte_vec \<Rightarrow> nat \<Rightarrow> nat \<times> byte_vec" where
  "Add_loop (a # as) (b # bs) carry =
     (let sum = unat a + unat b + carry;
          (carry', rest) = Add_loop as bs (sum div 256)
      in (carry', of_nat (sum mod 256) # rest))"
| "Add_loop as bs carry = (carry, as)"

section \<open>Work\<close>

datatype work = Work (BigEndian: arr32)

definition Work_zero :: work where
  "Work_zero = Work zero32"

definition FromBigEndian :: "arr32 \<Rightarrow> work" where
  "FromBigEndian bytes = Work bytes"

definition FromU64 :: "u64 \<Rightarrow> work" where
  "FromU64 value = Work (arr_of (replicate 24 0 @ rev (le_bytes 8 (unat value))))"

definition Work_IsZero :: "work \<Rightarrow> bool" where
  "Work_IsZero w \<longleftrightarrow> w = Work_zero"

definition Work_ToHex :: "work \<Rightarrow> string" where
  "Work_ToHex w = ToHex (arr_list (BigEndian w))"

text \<open>\<^verbatim>\<open>operator+=\<close>: a carry out of the top byte saturates.\<close>

definition Work_add :: "work \<Rightarrow> work \<Rightarrow> work" where
  "Work_add a b =
     (let (carry, bytes) = Add_loop (rev (arr_list (BigEndian a))) (rev (arr_list (BigEndian b))) 0
      in if carry \<noteq> 0 then Work (arr_of (replicate 32 0xFF)) else Work (arr_of (rev bytes)))"

instantiation work :: plus
begin

definition plus_work :: "work \<Rightarrow> work \<Rightarrow> work" where
  "plus_work = Work_add"

instance ..

end

instantiation work :: linorder
begin

definition less_work :: "work \<Rightarrow> work \<Rightarrow> bool" where
  "less_work a b \<longleftrightarrow> BigEndian a < BigEndian b"

definition less_eq_work :: "work \<Rightarrow> work \<Rightarrow> bool" where
  "less_eq_work a b \<longleftrightarrow> BigEndian a \<le> BigEndian b"

instance
  by standard (auto simp: less_work_def less_eq_work_def work.expand)

end

text \<open>Restoring division, most significant quotient bit first.\<close>

fun Divide_loop :: "nat \<Rightarrow> byte_vec \<Rightarrow> byte_vec \<Rightarrow> byte_vec \<Rightarrow> byte_vec" where
  "Divide_loop 0 divisor remainder quot = quot"
| "Divide_loop (Suc shift) divisor remainder quot =
     (let aligned = ShiftLeft divisor shift
      in if \<not> lex_less remainder aligned
         then Divide_loop shift divisor (Subtract remainder aligned) (SetBit quot shift)
         else Divide_loop shift divisor remainder quot)"

definition OfTarget :: "target \<Rightarrow> work" where
  "OfTarget target =
     (if target = zero32 then Work_zero
      else
        let (carried, low) = Increment_loop (rev (arr_list target));
            divisor = rev low
        in if carried then FromU64 1
           else
             let dividend = map (\<lambda>b. NOT b) (arr_list target);
                 dividend_bits = BitLength dividend;
                 divisor_bits = BitLength divisor;
                 quot =
                   (if dividend_bits \<ge> divisor_bits
                    then Divide_loop (dividend_bits - divisor_bits + 1) divisor dividend (replicate 32 0)
                    else replicate 32 0)
             in FromBigEndian (arr_of quot) + FromU64 1)"

definition OfCompactTarget :: "u32 \<Rightarrow> work" where
  "OfCompactTarget bits =
     (case CompactToTarget bits of None \<Rightarrow> Work_zero | Some target \<Rightarrow> OfTarget target)"

section \<open>What the byte routines compute\<close>

definition work_val :: "work \<Rightarrow> nat" where
  "work_val w = arr_val (BigEndian w)"

lemma work_val_less: "work_val w < 2 ^ 256"
  unfolding work_val_def by (rule arr_val_less)

lemma work_less_iff: "a < b \<longleftrightarrow> work_val a < work_val b"
  by (simp add: less_work_def work_val_def arr_less_iff)

lemma work_le_iff: "a \<le> b \<longleftrightarrow> work_val a \<le> work_val b"
  by (simp add: less_eq_work_def work_val_def arr_le_iff)

lemma work_val_inject: "work_val a = work_val b \<longleftrightarrow> a = b"
  by (cases a; cases b) (simp add: work_val_def arr_val_inject)

text \<open>Bit \<^term>\<open>n\<close> of the number is bit \<^term>\<open>n mod 8\<close> of one of the bytes.\<close>

lemma bit_be_val:
  "bit (be_val xs) n \<longleftrightarrow> n div 8 < length xs \<and> bit (xs ! (length xs - 1 - n div 8)) (n mod 8)"
proof (induction xs)
  case Nil
  show ?case by simp
next
  case (Cons x xs)
  have lt: "be_val xs < 2 ^ (8 * length xs)" using be_val_less [of xs] by (simp add: power_mult)
  have v: "be_val (x # xs) = push_bit (8 * length xs) (unat x) + be_val xs"
    by (simp add: push_bit_eq_mult power_mult)
  show ?case
  proof (cases "n div 8 < length xs")
    case True
    then have n: "n < 8 * length xs" by linarith
    have "bit (be_val (x # xs)) n \<longleftrightarrow> bit (take_bit (8 * length xs) (be_val (x # xs))) n"
      using n by (simp add: bit_take_bit_iff)
    also have "take_bit (8 * length xs) (be_val (x # xs)) = be_val xs"
      unfolding v using lt by (simp add: take_bit_eq_mod push_bit_eq_mult)
    finally show ?thesis
      using Cons True by (simp add: nth_Cons' Suc_diff_Suc)
  next
    case False
    then obtain k where n: "n = 8 * length xs + k" by (metis le_Suc_ex mult.commute not_less less_eq_div_iff_mult_less_eq zero_less_numeral)
    have "drop_bit (8 * length xs) (be_val (x # xs)) = unat x"
      unfolding v using lt by (simp add: drop_bit_eq_div push_bit_eq_mult)
    then have "bit (be_val (x # xs)) n \<longleftrightarrow> bit (unat x) k"
      unfolding n by (metis bit_drop_bit_eq comp_def)
    also have "\<dots> \<longleftrightarrow> bit x k" by (simp add: bit_simps)
    finally show ?thesis
      using bit_imp_le_length [of x k] by (auto simp: n)
  qed
qed

lemma length_SetBit [simp]: "length (SetBit v i) = length v"
  by (simp add: SetBit_def Let_def)

lemma be_val_SetBit:
  assumes "length v = 32" and "i < 256"
  shows "be_val (SetBit v i) = set_bit i (be_val v)"
proof (rule bit_eqI)
  fix n :: nat
  have eq: "31 - n div 8 = 31 - i div 8 \<longleftrightarrow> n div 8 = i div 8" if "n div 8 < 32" 
    using that assms(2) by auto
  have "bit (push_bit (i mod 8) 1 :: u8) (n mod 8) \<longleftrightarrow> n mod 8 = i mod 8"
    by (auto simp: bit_simps)
  moreover have "n = i \<longleftrightarrow> n div 8 = i div 8 \<and> n mod 8 = i mod 8"
    by (metis div_mult_mod_eq)
  moreover have "i div 8 < 32" using assms(2) by simp
  ultimately show "bit (be_val (SetBit v i)) n \<longleftrightarrow> bit (set_bit i (be_val v)) n"
    using assms eq
    by (auto simp: bit_be_val SetBit_def Let_def nth_list_update bit_or_iff bit_set_bit_iff)
qed

lemma length_ShiftLeft [simp]: "length v = 32 \<Longrightarrow> length (ShiftLeft v s) = 32"
  by (simp add: ShiftLeft_def Let_def)

definition shifted_byte :: "byte_vec \<Rightarrow> nat \<Rightarrow> nat \<Rightarrow> u8" where
  "shifted_byte v source r =
     (let w = push_bit r (ucast (v ! source) :: u32);
          w = (if r \<noteq> 0 \<and> source + 1 < 32 then w OR drop_bit (8 - r) (ucast (v ! (source + 1))) else w)
      in ucast (w AND 0xFF))"

lemma ShiftLeft_bytes:
  "0 < s \<Longrightarrow> s < 256 \<Longrightarrow> ShiftLeft v s = map (\<lambda>p. if p + s div 8 < 32
     then shifted_byte v (p + s div 8) (s mod 8) else 0) [0..<32]"
  by (simp add: ShiftLeft_def shifted_byte_def Let_def)

lemma bit_low_byte: "k < 8 \<Longrightarrow> bit (ucast ((w :: u32) AND 0xFF) :: u8) k \<longleftrightarrow> bit w k"
proof -
  have "w AND 0xFF = take_bit 8 w" by (simp add: take_bit_eq_mask mask_eq_exp_minus_1)
  then show "k < 8 \<Longrightarrow> ?thesis" by (simp only:) (auto simp: bit_simps)
qed

lemma bit_shifted_byte:
  assumes "k < 8" and "r < 8"
  shows "bit (shifted_byte v source r) k \<longleftrightarrow>
    (if r \<le> k then bit (v ! source) (k - r) else source + 1 < 32 \<and> bit (v ! (source + 1)) (k + 8 - r))"
proof -
  have 0: "bit (ucast b :: u32) k \<longleftrightarrow> bit b k" for b :: u8
    using assms by (auto simp: bit_simps)
  have 1: "bit (push_bit r (ucast b :: u32)) k \<longleftrightarrow> r \<le> k \<and> bit b (k - r)" for b :: u8
    using assms by (auto simp: bit_simps)
  have 2: "bit (drop_bit (8 - r) (ucast b :: u32)) k \<longleftrightarrow> k < r \<and> bit b (k + 8 - r)" for b :: u8
    using assms bit_imp_le_length [of b "k + 8 - r"] by (auto simp: bit_simps algebra_simps)
  show ?thesis
    using assms by (auto simp: shifted_byte_def Let_def bit_low_byte 0 1 2 bit_or_iff)
qed

lemma be_val_ShiftLeft:
  assumes "length v = 32"
  shows "be_val (ShiftLeft v s) = take_bit 256 (push_bit s (be_val v))"
proof (cases "s = 0 \<or> 256 \<le> s")
  case True
  have "take_bit 256 (be_val v) = be_val v"
    by (rule take_bit_nat_eq_self) (use be_val_less [of v] assms in simp)
  with True show ?thesis by (auto simp: ShiftLeft_def take_bit_push_bit)
next
  case False
  then have s: "0 < s" "s < 256" by auto
  show ?thesis
  proof (rule bit_eqI)
    fix n :: nat
    define a k q r where "a = n div 8" and "k = n mod 8" and "q = s div 8" and "r = s mod 8"
    have n: "n = 8 * a + k" "k < 8" and sq: "s = 8 * q + r" "r < 8"
      by (simp_all add: a_def k_def q_def r_def)
    show "bit (be_val (ShiftLeft v s)) n \<longleftrightarrow> bit (take_bit 256 (push_bit s (be_val v))) n"
    proof (cases "a < 32")
      case False
      then show ?thesis
        using assms n by (simp add: bit_be_val bit_take_bit_iff)
    next
      case True
      have "bit (be_val (ShiftLeft v s)) n \<longleftrightarrow> q \<le> a \<and> bit (shifted_byte v (31 - a + q) r) k"
        using True s n assms
        by (auto simp: bit_be_val ShiftLeft_bytes [OF s] q_def [symmetric] r_def [symmetric])
      also have "\<dots> \<longleftrightarrow> q \<le> a \<and> (if r \<le> k then bit (v ! (31 - a + q)) (k - r)
          else q < a \<and> bit (v ! (31 - a + q + 1)) (k + 8 - r))"
        using True by (auto simp: bit_shifted_byte n sq)
      also have "\<dots> \<longleftrightarrow> s \<le> n \<and> bit (be_val v) (n - s)"
      proof (cases "r \<le> k")
        case True
        then have "n - s = 8 * (a - q) + (k - r)" "k - r < 8" if "q \<le> a" using that n sq by simp_all
        then have d: "(n - s) div 8 = a - q" "(n - s) mod 8 = k - r" if "q \<le> a" using that by simp_all
        have "s \<le> n \<longleftrightarrow> q \<le> a" using True n sq by linarith
        then show ?thesis
          using True d \<open>a < 32\<close> assms by (cases "q \<le> a") (simp_all add: bit_be_val less_imp_diff_less)
      next
        case False
        then have "n - s = 8 * (a - q - 1) + (k + 8 - r)" "k + 8 - r < 8" if "q < a"
          using that n sq by simp_all
        then have d: "(n - s) div 8 = a - q - 1" "(n - s) mod 8 = k + 8 - r" if "q < a"
          using that by simp_all
        have "s \<le> n \<longleftrightarrow> q < a" using False n sq by linarith
        moreover have "Suc (31 + q - a) = 32 + q - a" using \<open>a < 32\<close> by linarith
        ultimately show ?thesis
          using False d \<open>a < 32\<close> assms by (cases "q < a") (simp_all add: bit_be_val Suc_diff_Suc less_imp_diff_less)
      qed
      also have "\<dots> \<longleftrightarrow> bit (take_bit 256 (push_bit s (be_val v))) n"
        using True n by (auto simp: bit_simps)
      finally show ?thesis .
    qed
  qed
qed


lemma bit_width_bounds: "n \<noteq> 0 \<Longrightarrow> 2 ^ (bit_width n - 1) \<le> n \<and> n < 2 ^ bit_width n \<and> 0 < bit_width n"
proof (induction n rule: bit_width.induct)
  case (1 n)
  show ?case
  proof (cases "n div 2 = 0")
    case True
    with 1(2) have "n = 1" by auto
    then show ?thesis by (simp add: bit_width.simps)
  next
    case False
    from 1(1) [OF 1(2) False] have "2 ^ (bit_width (n div 2) - 1) \<le> n div 2" "n div 2 < 2 ^ bit_width (n div 2)"
      "0 < bit_width (n div 2)" by auto
    moreover have "bit_width n = Suc (bit_width (n div 2))" using 1(2) by (subst bit_width.simps) simp
    moreover from this calculation(3) have "(2 :: nat) ^ (bit_width n - 1) = 2 * 2 ^ (bit_width (n div 2) - 1)"
      by (cases "bit_width (n div 2)") simp_all
    ultimately show ?thesis by (simp, linarith)
  qed
qed

lemma BitLength_bounds:
  "be_val xs \<noteq> 0 \<Longrightarrow> 0 < BitLength xs \<and> 2 ^ (BitLength xs - 1) \<le> be_val xs \<and> be_val xs < 2 ^ BitLength xs
     \<and> BitLength xs \<le> 8 * length xs"
  unfolding BitLength_def
proof (induction xs)
  case (Cons b bs)
  show ?case
  proof (cases "b = 0")
    case True
    with Cons show ?thesis by simp
  next
    case False
    let ?w = "bit_width (unat b)" and ?n = "length bs"
    have "unat b \<noteq> 0" using False by (simp add: unat_eq_zero)
    note w = bit_width_bounds [OF this]
    have le: "?w \<le> 8"
    proof (rule ccontr)
      assume "\<not> ?w \<le> 8"
      then have "(2 :: nat) ^ 8 \<le> 2 ^ (?w - 1)" by (intro power_increasing) auto
      with w unat_byte_less [of b] show False by (simp del: unat_byte_less)
    qed
    have p: "(256 :: nat) ^ ?n = 2 ^ (?n * 8)"
      by (subst mult.commute) (simp add: power_mult)
    have lt: "be_val bs < 2 ^ (?n * 8)" using be_val_less [of bs] p by simp
    have "2 ^ (?n * 8 + ?w - 1) = (2 :: nat) ^ (?w - 1) * 2 ^ (?n * 8)"
      using w by (simp flip: power_add)
    also have "\<dots> \<le> unat b * 2 ^ (?n * 8)" using w by simp
    finally have lo: "2 ^ (?n * 8 + ?w - 1) \<le> be_val (b # bs)" by (simp add: p)
    have "be_val (b # bs) < (unat b + 1) * 2 ^ (?n * 8)" using lt by (simp add: p)
    also have "\<dots> \<le> 2 ^ ?w * 2 ^ (?n * 8)" using w by (intro mult_le_mono1) simp
    finally have hi: "be_val (b # bs) < 2 ^ (?n * 8 + ?w)" by (simp add: power_add mult.commute)
    show ?thesis using False w le lo hi by simp
  qed
qed simp


lemma length_Subtract_loop [simp]: "length (Subtract_loop xs ys c) = length xs"
  by (induction xs ys c rule: Subtract_loop.induct) (simp_all add: Let_def)

lemma Subtract_loop_val:
  assumes "length xs = length ys" and "le_val ys + c \<le> le_val xs" and "c \<le> 1"
  shows "le_val (Subtract_loop xs ys c) + le_val ys + c = le_val xs"
  using assms
proof (induction xs ys c rule: Subtract_loop.induct)
  case (1 l ls r rs c)
  define c' where "c' = (if unat l < unat r + c then 1 else 0 :: nat)"
  have b: "unat l < 256" "unat r < 256" by simp_all
  have d: "unat l + c' * 256 - (unat r + c) < 256" and e: "unat r + c \<le> unat l + c' * 256"
    using b 1(4) by (auto simp: c'_def simp del: unat_byte_less)
  have le: "unat r + 256 * le_val rs + c \<le> unat l + 256 * le_val ls" using 1(3) by simp
  have "le_val rs + c' \<le> le_val ls"
  proof (cases "unat l < unat r + c")
    case True
    with le b have "le_val rs + 1 \<le> le_val ls" by linarith
    with True show ?thesis by (simp add: c'_def)
  next
    case False
    with le b have "le_val rs \<le> le_val ls" by linarith
    with False show ?thesis by (simp add: c'_def)
  qed
  then have IH: "le_val (Subtract_loop ls rs c') + le_val rs + c' = le_val ls"
    using 1(1) [OF refl refl] 1(2) by (simp add: c'_def)
  define diff where "diff = unat l + c' * 256 - (unat r + c)"
  have "Subtract_loop (l # ls) (r # rs) c = of_nat diff # Subtract_loop ls rs c'"
    by (simp only: Subtract_loop.simps Let_def c'_def diff_def)
  moreover have "diff < 256" "unat r + c + diff = unat l + c' * 256" using d e by (simp_all add: diff_def)
  ultimately show ?case using IH by (simp del: Subtract_loop.simps)
qed simp_all

lemma be_val_Subtract:
  assumes "length xs = length ys" and "be_val ys \<le> be_val xs"
  shows "be_val (Subtract xs ys) = be_val xs - be_val ys" "length (Subtract xs ys) = length xs"
  using Subtract_loop_val [of "rev xs" "rev ys" 0] assms
  by (simp_all add: Subtract_def be_val_rev flip: be_val_rev [of "rev xs"] be_val_rev [of "rev ys"])

lemma Increment_loop_val:
  "Increment_loop xs = (c, ys) \<Longrightarrow> length ys = length xs \<and>
     (if c then le_val xs + 1 = 256 ^ length xs \<and> le_val ys = 0 else le_val ys = le_val xs + 1)"
proof (induction xs arbitrary: c ys)
  case (Cons x xs)
  show ?case
  proof (cases "x = 0xFF")
    case True
    then have "unat x = 255" by simp
    with True Cons show ?thesis by (auto split: prod.splits if_splits)
  next
    case False
    then have "unat x \<noteq> 255" by (simp add: word_unat_eq_iff)
    then have "unat x + 1 < 256" using unat_byte_less [of x] by linarith
    then have "unat (x + 1) = unat x + 1" by (simp add: unat_word_ariths)
    with False Cons show ?thesis by auto
  qed
qed simp

lemma Add_loop_val:
  "length xs = length ys \<Longrightarrow> c \<le> 1 \<Longrightarrow> Add_loop xs ys c = (c', zs) \<Longrightarrow>
     length zs = length xs \<and> le_val zs + 256 ^ length xs * c' = le_val xs + le_val ys + c \<and> c' \<le> 1"
proof (induction xs ys c arbitrary: c' zs rule: Add_loop.induct)
  case (1 a as b bs c)
  let ?s = "unat a + unat b + c"
  have b: "unat a < 256" "unat b < 256" by simp_all
  from 1(4) obtain rest where r: "Add_loop as bs (?s div 256) = (c', rest)"
    and zs: "zs = of_nat (?s mod 256) # rest"
    by (auto simp: Let_def split: prod.splits)
  have "?s div 256 \<le> 1" using b 1(3) by linarith
  with 1(1) [OF refl _ _ r] 1(2) have IH: "length rest = length as"
    "le_val rest + 256 ^ length as * c' = le_val as + le_val bs + ?s div 256" "c' \<le> 1" by auto
  have "le_val zs + 256 ^ length (a # as) * c' = ?s mod 256 + 256 * (le_val rest + 256 ^ length as * c')"
    by (simp add: zs algebra_simps)
  also have "\<dots> = 256 * (?s div 256) + ?s mod 256 + 256 * le_val as + 256 * le_val bs"
    unfolding IH(2) by simp
  finally show ?case using IH(1,3) zs by simp
qed auto

lemma be_val_ones: "be_val (replicate n 0xFF) + 1 = 256 ^ n"
  by (induction n) simp_all

lemma work_val_plus: "work_val (a + b) = min (2 ^ 256 - 1) (work_val a + work_val b)"
proof -
  obtain c zs where r: "Add_loop (rev (arr_list (BigEndian a))) (rev (arr_list (BigEndian b))) 0 = (c, zs)"
    by (cases "Add_loop (rev (arr_list (BigEndian a))) (rev (arr_list (BigEndian b))) 0")
  have v: "length zs = 32" "le_val zs + 2 ^ 256 * c = work_val a + work_val b" "c \<le> 1"
    using Add_loop_val [OF _ _ r] by (simp_all add: work_val_def arr_val_def flip: be_val_rev)
  have "be_val (replicate 32 0xFF) + 1 = 256 ^ 32" by (rule be_val_ones)
  with v le_val_less [of zs] show ?thesis
    by (cases "c = 0") (simp_all add: plus_work_def Work_add_def r work_val_def arr_val_arr_of be_val_rev)
qed


lemma be_val_NOT: "be_val (map (\<lambda>b. NOT b) xs) + be_val xs + 1 = 256 ^ length xs"
proof (induction xs)
  case (Cons x xs)
  have *: "unat (NOT x) + unat x = 255"
  proof -
    have "NOT x = - 1 - x" by (simp add: not_eq_complement)
    then have "unat (NOT x) = unat (- 1 :: u8) - unat x" by (simp only:) (rule unat_sub, simp)
    then show ?thesis using unat_byte_less [of x] 
      by (simp add: unsigned_minus_1_eq_mask mask_eq_exp_minus_1 del: unat_byte_less)
  qed
  have "unat (NOT x) * 256 ^ length xs + unat x * 256 ^ length xs = 255 * 256 ^ length xs"
    by (simp only: add_mult_distrib [symmetric] *)
  with Cons show ?case by simp
qed simp

text \<open>The division loop keeps the quotient and the remainder of the bits done so far.\<close>

lemma Divide_loop_val:
  assumes "length d = 32" "length r = 32" "length q = 32" "0 < be_val d"
    and "0 < n \<Longrightarrow> be_val d * 2 ^ (n - 1) < 2 ^ 256"
    and "be_val r < be_val d * 2 ^ n" and "2 ^ n dvd be_val q"
  shows "be_val (Divide_loop n d r q) = be_val q + be_val r div be_val d \<and>
    length (Divide_loop n d r q) = 32"
  using assms
proof (induction n arbitrary: r q)
  case 0
  then show ?case by simp
next
  case (Suc n)
  let ?A = "be_val d * 2 ^ n"
  have fit: "?A < 2 ^ 256" using Suc.prems(5) by simp
  have "take_bit 256 (push_bit n (be_val d)) = ?A"
    using fit by (simp only: push_bit_eq_mult) (rule take_bit_nat_eq_self)
  then have A: "be_val (ShiftLeft d n) = ?A" "length (ShiftLeft d n) = 32"
    using Suc.prems(1) by (simp_all add: be_val_ShiftLeft)
  have n: "n < 256"
  proof (rule ccontr)
    assume "\<not> n < 256"
    then have "(2 :: nat) ^ 256 \<le> 1 * 2 ^ n" by (simp only: mult_1 not_less) (rule power_increasing, simp_all)
    also have "\<dots> \<le> ?A" using Suc.prems(4) by (intro mult_le_mono1) simp
    finally show False using fit by simp
  qed
  have step: "be_val d * 2 ^ (n - 1) < 2 ^ 256" if "0 < n"
    using fit by (rule le_less_trans [rotated]) (simp add: power_increasing)
  show ?case
  proof (cases "be_val r < ?A")
    case True
    then have "Divide_loop (Suc n) d r q = Divide_loop n d r q"
      using A Suc.prems(2) by (simp add: Let_def lex_less_be_val)
    moreover have "2 ^ n dvd be_val q" using Suc.prems(7) by (rule power_le_dvd) simp
    ultimately show ?thesis using Suc.IH [OF Suc.prems(1,2,3,4) step True] by simp
  next
    case False
    let ?r = "Subtract r (ShiftLeft d n)" and ?q = "SetBit q n"
    have code: "Divide_loop (Suc n) d r q = Divide_loop n d ?r ?q"
      using False A Suc.prems(2) by (simp add: Let_def lex_less_be_val)
    have r: "be_val ?r = be_val r - ?A" "length ?r = 32"
      using be_val_Subtract [of r "ShiftLeft d n"] False A Suc.prems(2) by simp_all
    from Suc.prems(7) have "\<not> bit (be_val q) n" 
      by (auto simp: bit_iff_odd elim!: dvdE)
    then have q: "be_val ?q = be_val q + 2 ^ n"
      using be_val_SetBit [OF Suc.prems(3) n] by (simp add: set_bit_eq)
    have "be_val ?r < ?A" using Suc.prems(6) r(1) by simp
    moreover have "2 ^ n dvd be_val ?q"
      unfolding q using Suc.prems(7) by (intro dvd_add power_le_dvd [OF Suc.prems(7)]) simp_all
    ultimately have "be_val (Divide_loop n d ?r ?q) = be_val ?q + be_val ?r div be_val d \<and>
        length (Divide_loop n d ?r ?q) = 32"
      using Suc.prems(1,3,4) r(2) step by (intro Suc.IH) simp_all
    moreover have "be_val r div be_val d = 2 ^ n + be_val ?r div be_val d"
    proof -
      have "be_val r = be_val ?r + 2 ^ n * be_val d" using False r(1) by simp
      then show ?thesis using Suc.prems(4) by (simp only: div_mult_self1)
    qed
    ultimately show ?thesis unfolding code q by simp
  qed
qed


lemma work_val_FromU64: "work_val (FromU64 v) = unat v"
proof -
  have "unat v < 2 ^ LENGTH(64)" by (rule unsigned_less)
  then show ?thesis
    by (simp add: work_val_def FromU64_def arr_val_arr_of be_val_append be_val_rev le_val_le_bytes)
qed

lemma work_val_zero: "work_val Work_zero = 0"
  by (simp add: work_val_def Work_zero_def arr_val_def)

text \<open>The quotient the code computes inside 256 bits, for a divisor that fits.\<close>

lemma BitLength_zero: "be_val xs = 0 \<Longrightarrow> BitLength xs = 0"
  unfolding BitLength_def by (induction xs) (auto simp: unat_eq_zero)

lemma OfTarget_quotient:
  assumes "length d = 32" "length n = 32" "be_val n + be_val d = 2 ^ 256" "0 < be_val d"
  defines "q \<equiv> (if BitLength n \<ge> BitLength d
    then Divide_loop (BitLength n - BitLength d + 1) d n (replicate 32 0) else replicate 32 0)"
  shows "be_val q = be_val n div be_val d \<and> length q = 32"
proof (cases "be_val n = 0")
  case True
  then have "BitLength n < BitLength d"
    using BitLength_bounds [of d] assms(4) by (simp add: BitLength_zero)
  with True show ?thesis by (simp add: q_def)
next
  case False
  note n = BitLength_bounds [OF False]
  have d: "0 < BitLength d" "2 ^ (BitLength d - 1) \<le> be_val d" "be_val d < 2 ^ BitLength d"
    using BitLength_bounds [of d] assms(4) by auto
  show ?thesis
  proof (cases "BitLength d \<le> BitLength n")
    case False
    then have "(2 :: nat) ^ BitLength n \<le> 2 ^ (BitLength d - 1)" by (intro power_increasing) auto
    with n d have "be_val n < be_val d" by linarith
    with False show ?thesis by (simp add: q_def)
  next
    case True
    let ?k = "BitLength n - BitLength d"
    have "be_val d * 2 ^ ?k < 2 ^ BitLength d * 2 ^ ?k" using d(3) by simp
    also have "\<dots> = (2 :: nat) ^ BitLength n" using True by (simp flip: power_add)
    also have "\<dots> \<le> 2 ^ 256" using n assms(2) by (intro power_increasing) auto
    finally have fit: "be_val d * 2 ^ ?k < 2 ^ 256" .
    have "be_val n < 2 ^ BitLength n" using n by simp
    also have "\<dots> = 2 ^ (BitLength d - 1) * 2 ^ (?k + 1)"
    proof -
      have "BitLength n = BitLength d - 1 + (?k + 1)" using True d(1) by simp
      then show ?thesis by (simp only: power_add [symmetric])
    qed
    also have "\<dots> \<le> be_val d * 2 ^ (?k + 1)" using d(2) by (rule mult_le_mono1)
    finally have lt: "be_val n < be_val d * 2 ^ (?k + 1)" .
    have "be_val (Divide_loop (?k + 1) d n (replicate 32 0)) = be_val (replicate 32 0) + be_val n div be_val d \<and>
        length (Divide_loop (?k + 1) d n (replicate 32 0)) = 32"
      by (rule Divide_loop_val) (use assms(1,2,4) fit lt in \<open>simp_all only: be_val_zeros dvd_0_right length_replicate add_diff_cancel_right'\<close>)
    then show ?thesis using True by (simp add: q_def)
  qed
qed

lemma work_val_OfTarget:
  assumes "target \<noteq> zero32"
  shows "work_val (OfTarget target) = 2 ^ 256 div (arr_val target + 1)"
proof -
  let ?t = "arr_val target"
  obtain c low where inc: "Increment_loop (rev (arr_list target)) = (c, low)"
    by (cases "Increment_loop (rev (arr_list target))")
  have lv: "le_val (rev (arr_list target)) = ?t" by (simp add: arr_val_def flip: be_val_rev)
  note iv = Increment_loop_val [OF inc, unfolded lv]
  show ?thesis
  proof (cases c)
    case True
    with iv have "?t + 1 = 2 ^ 256" by simp
    then have "2 ^ 256 div (?t + 1) = 1" by simp
    then show ?thesis using assms True inc by (simp add: OfTarget_def work_val_FromU64)
  next
    case False
    let ?d = "rev low" and ?n = "map (\<lambda>b. NOT b) (arr_list target)"
    have d: "length ?d = 32" "be_val ?d = ?t + 1" using iv False by (simp_all add: be_val_rev)
    have "be_val ?n + ?t + 1 = 256 ^ 32"
      using be_val_NOT [of "arr_list target"] by (simp only: arr_val_def length_arr_list)
    then have nd: "be_val ?n + be_val ?d = 2 ^ 256" using d(2) by simp
    define q where "q = (if BitLength ?n \<ge> BitLength ?d
      then Divide_loop (BitLength ?n - BitLength ?d + 1) ?d ?n (replicate 32 0) else replicate 32 0)"
    have q: "be_val q = be_val ?n div be_val ?d" "length q = 32"
      using OfTarget_quotient [OF d(1) _ nd] d(2) by (simp_all add: q_def)
    have "2 ^ 256 div (?t + 1) = be_val q + 1"
      using nd d(2) q(1) by (metis div_add_self2 add_is_0 zero_neq_one)
    moreover have "OfTarget target = FromBigEndian (arr_of q) + FromU64 1"
      using assms inc False by (simp add: OfTarget_def q_def Let_def)
    moreover have "be_val q + 1 \<le> 2 ^ 256 - 1"
    proof -
      have "?t \<noteq> 0" using assms arr_val_inject [of target zero32] by (simp add: arr_val_def)
      then have "2 ^ 256 div (?t + 1) \<le> 2 ^ 256 div (2 :: nat)" by (intro div_le_mono2) simp_all
      with calculation(1) show ?thesis by simp
    qed
    ultimately show ?thesis
      using arr_val_arr_of [OF q(2)]
      by (simp add: work_val_plus work_val_FromU64 FromBigEndian_def work_val_def [of "Work _"])
  qed
qed


lemma OfTarget_antimono:
  assumes "a \<noteq> zero32" and "a \<le> b"
  shows "OfTarget b \<le> OfTarget a"
proof -
  have "b \<noteq> zero32"
  proof
    assume "b = zero32"
    with assms(2) have "arr_val a = arr_val zero32" by (simp add: arr_le_iff arr_val_def)
    with assms(1) show False by (simp add: arr_val_inject)
  qed
  moreover have "2 ^ 256 div (arr_val b + 1) \<le> (2 :: nat) ^ 256 div (arr_val a + 1)"
    using assms(2) by (intro div_le_mono2) (simp_all add: arr_le_iff)
  ultimately show ?thesis
    using assms(1) by (simp only: work_le_iff work_val_OfTarget not_False_eq_True)
qed

lemma OfTarget_pos:
  assumes "target \<noteq> zero32"
  shows "0 < work_val (OfTarget target)"
  unfolding work_val_OfTarget [OF assms] using arr_val_less [of target]
  by (simp add: div_greater_zero_iff)

lemma work_plus_mono: "(a :: work) \<le> a + b"
  using work_val_less [of a] by (simp add: work_le_iff work_val_plus)

lemma work_plus_strict:
  "work_val a + work_val b < 2 ^ 256 \<Longrightarrow> 0 < work_val b \<Longrightarrow> a < a + b"
  by (simp add: work_less_iff work_val_plus)

section \<open>Properties\<close>

text \<open>
  Property C29. The work of a target is the expected number of hashes to meet it, exactly
  2^256 div (target + 1), although that dividend does not fit the 256 bits the code computes in;
  so it is positive.
\<close>

theorem work_of_target:
  assumes "target \<noteq> zero32"
  shows "work_val (OfTarget target) = 2 ^ 256 div (arr_val target + 1) \<and> 0 < work_val (OfTarget target)"
  using work_val_OfTarget [OF assms] OfTarget_pos [OF assms] by blast

theorem work_of_target_witness: "work_val (OfTarget (arr_of (replicate 31 0 @ [1]))) = 2 ^ 255"
proof -
  have "be_val (replicate n 0) = 0" for n by (induction n) simp_all
  then have one: "arr_val (arr_of (replicate 31 0 @ [1])) = 1" by (simp add: arr_val_arr_of be_val_append)
  have "arr_val zero32 = 0" by (simp add: arr_val_def)
  with one have "arr_of (replicate 31 0 @ [1]) \<noteq> zero32" by (metis zero_neq_one)
  from work_of_target [OF this] show ?thesis unfolding one by (simp only: one_add_one) simp
qed

text \<open>
  Accumulated work saturates at 2^256 - 1 instead of wrapping, so adding a block
  never lowers the work of a chain, and raises it while the sum fits.
\<close>

theorem work_addition_saturates:
  "work_val (a + b) = min (2 ^ 256 - 1) (work_val a + work_val b) \<and> a \<le> a + b \<and>
   (\<not> (work_val a + work_val b < 2 ^ 256 \<and> 0 < work_val b) \<or> a < a + b)"
  using work_val_plus work_plus_mono work_plus_strict by blast

theorem work_addition_saturates_witness: "FromU64 3 < FromU64 3 + FromU64 4"
  using work_addition_saturates [of "FromU64 3" "FromU64 4"] by (simp add: work_val_FromU64)

end
