(* ===== verification/Validation.thy ===== *)
theory Validation
  imports Params Commitments Work "HOL-Library.Sublist"
begin

text \<open>
  The consensus rules (\<^verbatim>\<open>src/consensus/validation.cpp\<close>), in the order the code applies them: spend
  conditions and witnesses, transactions in isolation, spend authorisation, headers, blocks.
  A verdict is a sum: \<open>Reject e\<close> is the rejection the code returns first, and
  \<^verbatim>\<open>Computed<int64_t>\<close> carries a value on the right. The sets the code uses to detect
  duplicates are lists of the outpoints seen.
\<close>

section \<open>Verdicts\<close>

datatype validation_error =
    HeaderTargetMalformed | HeaderTargetBelowFloor | HeaderInsufficientWork
   | HeaderWrongHeight | HeaderWrongPrevBlock | HeaderUnexpectedTarget
   | HeaderTimestampTooOld | HeaderTimestampTooFarAhead | TxNoInputs | TxNoOutputs
   | TxDuplicateInput | TxNullOutpoint | TxAmountOutOfRange | TxOutputSumOutOfRange
   | TxWeightTooLarge | TxTooManyInputs | TxTooManyOutputs | TxWitnessCountMismatch
   | TxCoinbaseHasWitnesses | TxCoinbaseDataTooLarge | TxCoinbaseDataOnNonCoinbase
   | ConditionVersionReserved | ConditionNoKeys | ConditionTooManyKeys
   | ConditionKeysNotStrictlyOrdered | ConditionKeySchemeReserved | ConditionThresholdZero
   | ConditionThresholdAboveKeyCount | WitnessSignatureCountMismatch
   | WitnessSignatureSchemeReserved | ConditionKeyWrongSize | WitnessSignatureWrongSize
   | TxCoinbaseAuthorisesNothing | TxSpentOutputCountMismatch | TxSpendsUnspendableOutput
   | TxConditionDoesNotMatchLock | TxSignatureDoesNotVerify | TxInputSumOutOfRange
   | TxOutputsExceedInputs | TxInputMissingOrSpent | TxCoinbaseNotMature
   | TxCreatesExistingOutpoint | BlockNoTransactions | BlockTooManyTransactions
   | BlockFirstTxNotCoinbase | BlockMultipleCoinbases | BlockWeightTooLarge
   | BlockMerkleRootMismatch | BlockCoinbaseWrongHeight | BlockDuplicateSpend
   | BlockCoinbasePaysTooMuch | BlockFeesOutOfRange

type_synonym verdict = "validation_error + unit"
type_synonym 'a computed = "validation_error + 'a"

primrec Describe :: "validation_error \<Rightarrow> string" where
  "Describe HeaderTargetMalformed = ''target_bits is not a valid compact target encoding''"
| "Describe HeaderTargetBelowFloor =
     ''target is easier than this network'' @ [CHR 39] @ ''s proof-of-work floor''"
| "Describe HeaderInsufficientWork = ''block hash does not meet the target the header claims''"
| "Describe HeaderWrongHeight =
     ''height is not the predecessor'' @ [CHR 39] @ ''s height plus one''"
| "Describe HeaderWrongPrevBlock = ''prev_block does not name the predecessor''"
| "Describe HeaderUnexpectedTarget = ''target_bits is not the target this node computes for this height''"
| "Describe HeaderTimestampTooOld = ''timestamp is not after the median of the preceding blocks''"
| "Describe HeaderTimestampTooFarAhead =
     ''timestamp is too far ahead of this node'' @ [CHR 39] @ ''s clock''"
| "Describe TxNoInputs = ''transaction has no inputs''"
| "Describe TxNoOutputs = ''transaction has no outputs''"
| "Describe TxDuplicateInput = ''transaction spends the same outpoint twice''"
| "Describe TxNullOutpoint = ''non-coinbase input names the coinbase sentinel outpoint''"
| "Describe TxAmountOutOfRange = ''output amount is outside [0, MAX_MONEY]''"
| "Describe TxOutputSumOutOfRange = ''outputs sum above MAX_MONEY''"
| "Describe TxWeightTooLarge = ''transaction is heavier than a whole block may be''"
| "Describe TxTooManyInputs = ''transaction has more inputs than consensus permits''"
| "Describe TxTooManyOutputs = ''transaction has more outputs than consensus permits''"
| "Describe TxWitnessCountMismatch = ''transaction does not carry exactly one witness per input''"
| "Describe TxCoinbaseHasWitnesses = ''coinbase carries witnesses, which it authorises nothing with''"
| "Describe TxCoinbaseDataTooLarge = ''coinbase data exceeds the permitted size''"
| "Describe TxCoinbaseDataOnNonCoinbase = ''non-coinbase transaction carries coinbase data''"
| "Describe ConditionVersionReserved = ''spend condition version 0 is reserved and can never be satisfied''"
| "Describe ConditionNoKeys = ''spend condition has no keys''"
| "Describe ConditionTooManyKeys = ''spend condition has more keys than consensus permits''"
| "Describe ConditionKeysNotStrictlyOrdered = ''spend condition keys are not in strictly ascending order''"
| "Describe ConditionKeySchemeReserved = ''spend condition uses reserved key scheme 0''"
| "Describe ConditionThresholdZero = ''spend condition threshold is zero''"
| "Describe ConditionThresholdAboveKeyCount = ''spend condition threshold exceeds its key count''"
| "Describe WitnessSignatureCountMismatch = ''witness does not carry exactly threshold signatures''"
| "Describe WitnessSignatureSchemeReserved = ''witness uses reserved signature scheme 0''"
| "Describe ConditionKeyWrongSize = ''public key is not the length its scheme defines''"
| "Describe WitnessSignatureWrongSize = ''signature is not the length its scheme defines''"
| "Describe TxCoinbaseAuthorisesNothing = ''coinbase has no inputs to authorise and pays no fee''"
| "Describe TxSpentOutputCountMismatch = ''not exactly one spent coin was supplied per input''"
| "Describe TxSpendsUnspendableOutput = ''input spends an output locked with unspendable lock version 0''"
| "Describe TxConditionDoesNotMatchLock = ''revealed spend condition is not the one the output committed to''"
| "Describe TxSignatureDoesNotVerify = ''no key in the spend condition verifies the signature offered''"
| "Describe TxInputSumOutOfRange = ''spent amounts sum outside [0, MAX_MONEY]''"
| "Describe TxOutputsExceedInputs = ''transaction pays out more than it spends''"
| "Describe TxInputMissingOrSpent = ''input spends an outpoint that is not in the UTXO set''"
| "Describe TxCoinbaseNotMature = ''coinbase output spent before it matured''"
| "Describe TxCreatesExistingOutpoint = ''output would overwrite an outpoint that is already unspent''"
| "Describe BlockNoTransactions = ''block has no transactions''"
| "Describe BlockTooManyTransactions = ''block has more transactions than consensus permits''"
| "Describe BlockFirstTxNotCoinbase =
     ''block'' @ [CHR 39] @ ''s first transaction is not a coinbase''"
| "Describe BlockMultipleCoinbases = ''block contains more than one coinbase''"
| "Describe BlockWeightTooLarge = ''block weight exceeds the limit''"
| "Describe BlockMerkleRootMismatch =
     ''merkle_root does not commit to the block'' @ [CHR 39] @ ''s transactions''"
| "Describe BlockCoinbaseWrongHeight =
     ''coinbase input'' @ [CHR 39] @ ''s sequence is not the header'' @ [CHR 39] @ ''s height''"
| "Describe BlockDuplicateSpend = ''two transactions in the block spend the same outpoint''"
| "Describe BlockCoinbasePaysTooMuch = ''coinbase claims more than the scheduled reward plus fees''"
| "Describe BlockFeesOutOfRange =
     ''the block'' @ [CHR 39] @ ''s fees sum outside [0, MAX_MONEY]''"

section \<open>Spend conditions and witnesses\<close>

definition HasWrongPublicKeySize :: "public_key \<Rightarrow> bool" where
  "HasWrongPublicKeySize key =
     (case FindScheme (pk_scheme key) of
        None \<Rightarrow> False | Some spec \<Rightarrow> length (pk_bytes key) \<noteq> spec_public_key_bytes spec)"

definition HasWrongSignatureSize :: "signature \<Rightarrow> bool" where
  "HasWrongSignatureSize s =
     (case FindScheme (sig_scheme s) of
        None \<Rightarrow> False | Some spec \<Rightarrow> length (sig_bytes s) \<noteq> spec_signature_bytes spec)"

definition MatchesConditionCommitment :: "crypto_ext \<Rightarrow> lock \<Rightarrow> spend_condition \<Rightarrow> bool" where
  "MatchesConditionCommitment E l condition \<longleftrightarrow>
     lock_program l = Hash256_Span (SpendConditionCommitment E condition)"

text \<open>The loop over the keys; \<open>prev\<close> is the key before the current one, if there is one.\<close>

fun CheckKeys_loop :: "public_key option \<Rightarrow> public_key list \<Rightarrow> verdict" where
  "CheckKeys_loop prev [] = Accept"
| "CheckKeys_loop prev (key # keys) =
     (if pk_scheme key = SCHEME_RESERVED then Reject ConditionKeySchemeReserved
      else if HasWrongPublicKeySize key then Reject ConditionKeyWrongSize
      else if (case prev of None \<Rightarrow> False | Some p \<Rightarrow> \<not> PublicKey_less p key)
        then Reject ConditionKeysNotStrictlyOrdered
      else CheckKeys_loop (Some key) keys)"

definition CheckSpendCondition :: "spend_condition \<Rightarrow> chain_params \<Rightarrow> verdict" where
  "CheckSpendCondition condition params =
     (if sc_version condition = CONDITION_VERSION_RESERVED then Reject ConditionVersionReserved
      else if sc_version condition \<noteq> CONDITION_VERSION_THRESHOLD then Accept
      else if sc_keys condition = [] then Reject ConditionNoKeys
      else if length (sc_keys condition) > max_keys (limits_tx (block_limits params))
        then Reject ConditionTooManyKeys
      else if sc_threshold condition = 0 then Reject ConditionThresholdZero
      else if unat (sc_threshold condition) > length (sc_keys condition)
        then Reject ConditionThresholdAboveKeyCount
      else CheckKeys_loop None (sc_keys condition))"

definition CheckWitness :: "witness \<Rightarrow> chain_params \<Rightarrow> verdict" where
  "CheckWitness w params =
     try_then (CheckSpendCondition (wit_condition w) params) (\<lambda>_.
       if sc_version (wit_condition w) = CONDITION_VERSION_THRESHOLD \<and>
          length (wit_signatures w) \<noteq> unat (sc_threshold (wit_condition w))
         then Reject WitnessSignatureCountMismatch
       else
         try_then (check_all (\<lambda>s.
             if sig_scheme s = SCHEME_RESERVED then Reject WitnessSignatureSchemeReserved else Accept)
           (wit_signatures w)) (\<lambda>_.
         if sc_version (wit_condition w) = CONDITION_VERSION_THRESHOLD then
           check_all (\<lambda>s.
               if HasWrongSignatureSize s then Reject WitnessSignatureWrongSize else Accept)
             (wit_signatures w)
         else Accept))"

section \<open>Transactions\<close>

fun CheckOutputs_loop :: "i64 \<Rightarrow> tx_output list \<Rightarrow> verdict" where
  "CheckOutputs_loop acc [] = Accept"
| "CheckOutputs_loop acc (output # outputs) =
     (if \<not> IsValidAmount (out_amount output) then Reject TxAmountOutOfRange
      else case TryAccumulate int64_limits acc (out_amount output) of
          (False, _) \<Rightarrow> Reject TxOutputSumOutOfRange
        | (True, acc') \<Rightarrow>
            if \<not> IsValidAmount acc' then Reject TxOutputSumOutOfRange
            else CheckOutputs_loop acc' outputs)"

text \<open>\<^verbatim>\<open>if (!seen.insert(outpoint).second) return Reject(...)\<close> over a list of outpoints.\<close>

fun CheckDistinct_loop :: "validation_error \<Rightarrow> outpoint list \<Rightarrow> outpoint list \<Rightarrow> verdict" where
  "CheckDistinct_loop err seen [] = Accept"
| "CheckDistinct_loop err seen (o' # os) =
     (if o' \<in> set seen then Reject err else CheckDistinct_loop err (o' # seen) os)"

definition CheckTransaction :: "transaction \<Rightarrow> chain_params \<Rightarrow> verdict" where
  "CheckTransaction tx params =
     (let limits = limits_tx (block_limits params);
          is_coinbase = IsCoinbase tx
      in if tx_inputs tx = [] then Reject TxNoInputs
         else if tx_outputs tx = [] then Reject TxNoOutputs
         else if length (tx_inputs tx) > max_inputs limits then Reject TxTooManyInputs
         else if length (tx_outputs tx) > max_outputs limits then Reject TxTooManyOutputs
         else
           try_then
            (if is_coinbase then
               if tx_witnesses tx \<noteq> [] then Reject TxCoinbaseHasWitnesses
               else if length (tx_coinbase_data tx) > max_coinbase_data_size limits
                 then Reject TxCoinbaseDataTooLarge
               else Accept
             else
               if tx_coinbase_data tx \<noteq> [] then Reject TxCoinbaseDataOnNonCoinbase
               else if length (tx_witnesses tx) \<noteq> length (tx_inputs tx)
                 then Reject TxWitnessCountMismatch
               else check_all (\<lambda>input.
                 if is_null_outpoint (in_outpoint input) then Reject TxNullOutpoint else Accept)
                 (tx_inputs tx)) (\<lambda>_.
           try_then (CheckOutputs_loop 0 (tx_outputs tx)) (\<lambda>_.
           try_then
            (if \<not> is_coinbase then
               try_then (CheckDistinct_loop TxDuplicateInput [] (map in_outpoint (tx_inputs tx))) (\<lambda>_.
                 check_all (\<lambda>w. CheckWitness w params) (tx_witnesses tx))
             else Accept) (\<lambda>_.
           if Transaction_Weight tx > max_block_weight params then Reject TxWeightTooLarge
           else Accept))))"

section \<open>Spend authorisation\<close>

text \<open>
  The ordered forward match: the keys that are left are those after \<^verbatim>\<open>key_index\<close>. A key under
  another scheme, or one that does not verify, is consumed.
\<close>

fun SatisfiesThreshold_loop ::
  "crypto_ext \<Rightarrow> hash256 \<Rightarrow> signature list \<Rightarrow> public_key list \<Rightarrow> verdict" where
  "SatisfiesThreshold_loop E message [] keys = Accept"
| "SatisfiesThreshold_loop E message (s # sigs) [] = Reject TxSignatureDoesNotVerify"
| "SatisfiesThreshold_loop E message (s # sigs) (key # keys) =
     (if pk_scheme key \<noteq> sig_scheme s then SatisfiesThreshold_loop E message (s # sigs) keys
      else case Verify E (sig_scheme s) (pk_bytes key) (sig_bytes s) message of
          Valid \<Rightarrow> SatisfiesThreshold_loop E message sigs keys
        | UnknownScheme \<Rightarrow> SatisfiesThreshold_loop E message sigs keys
        | Invalid \<Rightarrow> SatisfiesThreshold_loop E message (s # sigs) keys
        | Malformed \<Rightarrow> SatisfiesThreshold_loop E message (s # sigs) keys
        | Reserved \<Rightarrow> Reject WitnessSignatureSchemeReserved)"

definition SatisfiesThreshold :: "crypto_ext \<Rightarrow> witness \<Rightarrow> hash256 \<Rightarrow> verdict" where
  "SatisfiesThreshold E w message =
     SatisfiesThreshold_loop E message (wit_signatures w) (sc_keys (wit_condition w))"

definition TransactionFee :: "transaction \<Rightarrow> coin list \<Rightarrow> i64 computed" where
  "TransactionFee tx spent_coins =
     (if IsCoinbase tx then Reject TxCoinbaseAuthorisesNothing
      else if length spent_coins \<noteq> length (tx_inputs tx) then Reject TxSpentOutputCountMismatch
      else case SumAmounts 0 (map (\<lambda>c. out_amount (coin_output c)) spent_coins) of
          None \<Rightarrow> Reject TxInputSumOutOfRange
        | Some spent \<Rightarrow>
            case SumAmounts 0 (map out_amount (tx_outputs tx)) of
              None \<Rightarrow> Reject TxOutputSumOutOfRange
            | Some paid \<Rightarrow>
                if paid > spent then Reject TxOutputsExceedInputs else Inr (spent - paid))"

definition CheckInputAuthorisation ::
  "crypto_ext \<Rightarrow> transaction \<Rightarrow> sighash_midstates \<Rightarrow> coin list \<Rightarrow> chain_params \<Rightarrow> nat \<Rightarrow> verdict" where
  "CheckInputAuthorisation E tx midstates spent_coins params index =
     (let spent = coin_output (spent_coins ! index);
          w = tx_witnesses tx ! index
      in if Lock_IsUnspendable (out_lock spent) then Reject TxSpendsUnspendableOutput
         else if lock_version (out_lock spent) \<noteq> LOCK_VERSION_CONDITION_COMMITMENT then Accept
         else if \<not> MatchesConditionCommitment E (out_lock spent) (wit_condition w)
           then Reject TxConditionDoesNotMatchLock
         else if sc_version (wit_condition w) \<noteq> CONDITION_VERSION_THRESHOLD then Accept
         else SatisfiesThreshold E w
           (SignatureHash E (chain_id params) tx midstates (of_nat index) (out_amount spent)
             (wit_condition w)))"

definition CheckSpendAuthorisation ::
  "crypto_ext \<Rightarrow> transaction \<Rightarrow> coin list \<Rightarrow> chain_params \<Rightarrow> verdict" where
  "CheckSpendAuthorisation E tx spent_coins params =
     (if IsCoinbase tx then Reject TxCoinbaseAuthorisesNothing
      else if length spent_coins \<noteq> length (tx_inputs tx) then Reject TxSpentOutputCountMismatch
      else if length (tx_witnesses tx) \<noteq> length (tx_inputs tx) then Reject TxWitnessCountMismatch
      else
        let midstates = ComputeSigHashMidstates E tx
        in check_all (CheckInputAuthorisation E tx midstates spent_coins params)
             [0..<length (tx_inputs tx)])"

definition CheckTransactionInputs ::
  "crypto_ext \<Rightarrow> transaction \<Rightarrow> coin list \<Rightarrow> u32 \<Rightarrow> chain_params \<Rightarrow> i64 computed" where
  "CheckTransactionInputs E tx spent_coins spend_height params =
     (if IsCoinbase tx then Reject TxCoinbaseAuthorisesNothing
      else if length spent_coins \<noteq> length (tx_inputs tx) then Reject TxSpentOutputCountMismatch
      else
        try_then (check_all (\<lambda>c.
            if \<not> coin_is_coinbase c then Accept
            else if uint spend_height - uint (coin_height c) < uint (coinbase_maturity params)
              then Reject TxCoinbaseNotMature
            else Accept) spent_coins) (\<lambda>_.
        try_then (TransactionFee tx spent_coins) (\<lambda>fee.
        try_then (CheckSpendAuthorisation E tx spent_coins params) (\<lambda>_. Inr fee))))"

section \<open>Headers\<close>

definition CheckBlockHeader :: "crypto_ext \<Rightarrow> block_header \<Rightarrow> chain_params \<Rightarrow> verdict" where
  "CheckBlockHeader E header params =
     (case CompactToTarget (hdr_target_bits header) of
        None \<Rightarrow> Reject HeaderTargetMalformed
      | Some target \<Rightarrow>
          case CompactToTarget (pow_limit_bits params) of
            None \<Rightarrow> Reject HeaderTargetMalformed
          | Some floor \<Rightarrow>
              if target > floor then Reject HeaderTargetBelowFloor
              else if \<not> HashMeetsTarget (BlockHeader_Hash E header) target
                then Reject HeaderInsufficientWork
              else Accept)"

text \<open>\<^verbatim>\<open>std::nth_element\<close> leaves at the middle what sorting would.\<close>

definition MedianTimePast :: "i64 list \<Rightarrow> i64" where
  "MedianTimePast timestamps =
     (if timestamps = [] then INT64_MIN
      else
        let window = drop (length timestamps - min (length timestamps) MEDIAN_TIME_SPAN) timestamps
        in sort window ! (length window div 2))"

record header_context =
  ctx_prev_hash :: hash256
  ctx_prev_height :: u32
  ctx_median_time_past :: i64
  ctx_expected_bits :: u32
  ctx_now :: i64

definition ContextualCheckBlockHeader ::
  "block_header \<Rightarrow> header_context \<Rightarrow> chain_params \<Rightarrow> verdict" where
  "ContextualCheckBlockHeader header context params =
     (if hdr_prev_block header \<noteq> ctx_prev_hash context then Reject HeaderWrongPrevBlock
      else if ctx_prev_height context = - 1 \<or> hdr_height header \<noteq> ctx_prev_height context + 1
        then Reject HeaderWrongHeight
      else if hdr_target_bits header \<noteq> ctx_expected_bits context then Reject HeaderUnexpectedTarget
      else if hdr_timestamp header \<le> ctx_median_time_past context then Reject HeaderTimestampTooOld
      else case CheckedAdd int64_limits (ctx_now context) MAX_FUTURE_BLOCK_SECONDS of
          None \<Rightarrow> Reject HeaderTimestampTooFarAhead
        | Some ceiling \<Rightarrow>
            if hdr_timestamp header > ceiling then Reject HeaderTimestampTooFarAhead else Accept)"

section \<open>Blocks\<close>

definition Block_ComputeMerkleRoot :: "crypto_ext \<Rightarrow> block \<Rightarrow> hash256 option" where
  "Block_ComputeMerkleRoot E block =
     ComputeMerkleRoot E (map (Wtxid E) (blk_transactions block))"

definition CheckBlock :: "crypto_ext \<Rightarrow> block \<Rightarrow> chain_params \<Rightarrow> verdict" where
  "CheckBlock E block params =
     try_then (CheckBlockHeader E (blk_header block) params) (\<lambda>_.
       if blk_transactions block = [] then Reject BlockNoTransactions
       else if length (blk_transactions block) > max_transactions (block_limits params)
         then Reject BlockTooManyTransactions
       else if \<not> IsCoinbase (hd (blk_transactions block)) then Reject BlockFirstTxNotCoinbase
       else
         try_then (check_all (\<lambda>tx.
             if IsCoinbase tx then Reject BlockMultipleCoinbases else Accept)
           (tl (blk_transactions block))) (\<lambda>_.
         if in_sequence (hd (tx_inputs (hd (blk_transactions block)))) \<noteq> hdr_height (blk_header block)
           then Reject BlockCoinbaseWrongHeight
         else if Block_Weight block > max_block_weight params then Reject BlockWeightTooLarge
         else if Block_ComputeMerkleRoot E block \<noteq> Some (hdr_merkle_root (blk_header block))
           then Reject BlockMerkleRootMismatch
         else
           try_then (check_all (\<lambda>tx. CheckTransaction tx params) (blk_transactions block)) (\<lambda>_.
           CheckDistinct_loop BlockDuplicateSpend []
             (concat (map (\<lambda>tx. if IsCoinbase tx then [] else map in_outpoint (tx_inputs tx))
               (blk_transactions block))))))"

definition CheckCoinbaseAmount :: "block \<Rightarrow> i64 \<Rightarrow> chain_params \<Rightarrow> verdict" where
  "CheckCoinbaseAmount block total_fees params =
     (if blk_transactions block = [] \<or> \<not> IsCoinbase (hd (blk_transactions block))
        then Reject BlockFirstTxNotCoinbase
      else if \<not> IsValidAmount total_fees then Reject BlockFeesOutOfRange
      else case SumAmounts 0 (map out_amount (tx_outputs (hd (blk_transactions block)))) of
          None \<Rightarrow> Reject TxOutputSumOutOfRange
        | Some claimed \<Rightarrow>
            case CheckedAdd int64_limits
                (BlockReward (hdr_height (blk_header block)) (issuance params)) total_fees of
              None \<Rightarrow> Reject BlockCoinbasePaysTooMuch
            | Some permitted \<Rightarrow>
                if claimed > permitted then Reject BlockCoinbasePaysTooMuch else Accept)"

section \<open>What each rule decides\<close>

lemma CheckDistinct_loop_Accept [verdict_simps]:
  "CheckDistinct_loop err seen os = Accept \<longleftrightarrow> distinct os \<and> set os \<inter> set seen = {}"
  by (induction os arbitrary: seen) auto

lemma CheckOutputs_loop_Accept [verdict_simps]:
  assumes "IsValidAmount acc"
  shows "CheckOutputs_loop acc outs = Accept \<longleftrightarrow>
    (\<forall>out \<in> set outs. IsValidAmount (out_amount out)) \<and>
    IsValidAmount (acc + sum_list (map out_amount outs))"
proof -
  have "CheckOutputs_loop acc outs = Accept \<longleftrightarrow> SumAmounts acc (map out_amount outs) \<noteq> None"
    by (induction acc outs rule: CheckOutputs_loop.induct) (auto split: prod.splits bool.splits)
  then show ?thesis using SumAmounts_Some [OF assms, of "map out_amount outs"] by auto
qed

lemma valid_zero [simp]: "IsValidAmount 0"
  by (simp add: IsValidAmount_def MAX_MONEY_def)

definition key_ok :: "public_key \<Rightarrow> bool" where
  "key_ok k \<longleftrightarrow> pk_scheme k \<noteq> 0 \<and> \<not> HasWrongPublicKeySize k"

lemma CheckKeys_loop_Some:
  "CheckKeys_loop (Some p) keys = Accept \<longleftrightarrow>
     (\<forall>k \<in> set keys. key_ok k) \<and> sorted_wrt PublicKey_less (p # keys)"
proof (induction keys arbitrary: p)
  case Nil
  then show ?case by simp
next
  case (Cons k keys)
  then show ?case
    by (auto simp: key_ok_def SCHEME_RESERVED_def intro: PublicKey_less_trans)
qed

lemma CheckKeys_loop_Accept [verdict_simps]:
  "CheckKeys_loop None keys = Accept \<longleftrightarrow>
     (\<forall>k \<in> set keys. key_ok k) \<and> sorted_wrt PublicKey_less keys"
  by (cases keys) (auto simp: CheckKeys_loop_Some key_ok_def SCHEME_RESERVED_def)

lemma PublicKey_sorted_distinct: "sorted_wrt PublicKey_less keys \<Longrightarrow> distinct keys"
  by (induction keys) auto

text \<open>What an accepted threshold condition is.\<close>

definition condition_ok :: "chain_params \<Rightarrow> spend_condition \<Rightarrow> bool" where
  "condition_ok params c \<longleftrightarrow>
     length (sc_keys c) \<le> max_keys (limits_tx (block_limits params)) \<and>
     1 \<le> unat (sc_threshold c) \<and> unat (sc_threshold c) \<le> length (sc_keys c) \<and>
     (\<forall>k \<in> set (sc_keys c). key_ok k) \<and> sorted_wrt PublicKey_less (sc_keys c)"

lemma CheckSpendCondition_Accept:
  "CheckSpendCondition c params = Accept \<longleftrightarrow> sc_version c \<noteq> 0 \<and>
     (sc_version c = CONDITION_VERSION_THRESHOLD \<longrightarrow> condition_ok params c)"
  by (auto simp: CheckSpendCondition_def condition_ok_def CONDITION_VERSION_RESERVED_def
      CONDITION_VERSION_THRESHOLD_def CheckKeys_loop_Accept unat_gt_0 Suc_le_eq)

lemma CheckWitness_Accept:
  "CheckWitness w params = Accept \<longleftrightarrow>
     CheckSpendCondition (wit_condition w) params = Accept \<and>
     (\<forall>s \<in> set (wit_signatures w). sig_scheme s \<noteq> 0) \<and>
     (sc_version (wit_condition w) = CONDITION_VERSION_THRESHOLD \<longrightarrow>
        length (wit_signatures w) = unat (sc_threshold (wit_condition w)) \<and>
        (\<forall>s \<in> set (wit_signatures w). \<not> HasWrongSignatureSize s))"
  by (auto simp: CheckWitness_def verdict_simps SCHEME_RESERVED_def)

section \<open>Threshold signatures\<close>

text \<open>A key answers a signature if they name one scheme and it verifies, or nobody here can tell.\<close>

definition answers :: "crypto_ext \<Rightarrow> hash256 \<Rightarrow> signature \<Rightarrow> public_key \<Rightarrow> bool" where
  "answers E message s key \<longleftrightarrow> pk_scheme key = sig_scheme s \<and>
     Verify E (sig_scheme s) (pk_bytes key) (sig_bytes s) message \<in> {Valid, UnknownScheme}"

lemma SatisfiesThreshold_loop_iff:
  assumes "\<forall>s \<in> set sigs. sig_scheme s \<noteq> 0"
  shows "SatisfiesThreshold_loop E message sigs keys = Accept \<longleftrightarrow>
    (\<exists>keys'. subseq keys' keys \<and> list_all2 (answers E message) sigs keys')"
  using assms
proof (induction E message sigs keys rule: SatisfiesThreshold_loop.induct)
  case (1 E message keys)
  then show ?case by auto
next
  case (2 E message s sigs)
  then show ?case by (auto simp: list_all2_Cons1)
next
  case (3 E message s sigs key keys)
  let ?match = "\<lambda>sigs keys. \<exists>keys'. subseq keys' keys \<and> list_all2 (answers E message) sigs keys'"
  have skip: "?match (s # sigs) (key # keys) \<longleftrightarrow> ?match (s # sigs) keys" if "\<not> answers E message s key"
  proof
    assume "?match (s # sigs) (key # keys)"
    then obtain k ks where *: "subseq (k # ks) (key # keys)" "answers E message s k"
      "list_all2 (answers E message) sigs ks"
      by (auto simp: list_all2_Cons1)
    with that have "k \<noteq> key" by auto
    with *(1) have "subseq (k # ks) keys" by (meson subseq_Cons2_neq)
    with * show "?match (s # sigs) keys" by auto
  next
    assume "?match (s # sigs) keys"
    then show "?match (s # sigs) (key # keys)" by (meson list_emb_Cons)
  qed
  have take: "?match (s # sigs) (key # keys) \<longleftrightarrow> ?match sigs keys" if "answers E message s key"
  proof
    assume "?match (s # sigs) (key # keys)"
    then obtain k ks where *: "subseq (k # ks) (key # keys)" "list_all2 (answers E message) sigs ks"
      by (auto simp: list_all2_Cons1)
    from *(1) have "subseq ks keys" by (metis subseq_Cons' subseq_Cons2' subseq_Cons2_neq)
    with * show "?match sigs keys" by auto
  next
    assume "?match sigs keys"
    then obtain ks where "subseq ks keys" "list_all2 (answers E message) sigs ks" by blast
    with that show "?match (s # sigs) (key # keys)" by (intro exI [of _ "key # ks"]) simp
  qed
  let ?v = "Verify E (sig_scheme s) (pk_bytes key) (sig_bytes s) message"
  have nr: "?v \<noteq> Reserved" using 3(6) by (simp add: Verify_Reserved)
  show ?case
  proof (cases "answers E message s key")
    case True
    then have sc: "pk_scheme key = sig_scheme s" and v: "?v = Valid \<or> ?v = UnknownScheme"
      by (auto simp: answers_def)
    then have "SatisfiesThreshold_loop E message (s # sigs) (key # keys) =
        SatisfiesThreshold_loop E message sigs keys" by auto
    moreover have "SatisfiesThreshold_loop E message sigs keys = Accept \<longleftrightarrow> ?match sigs keys"
      using v 3(2,4,6) sc by auto
    ultimately show ?thesis using take [OF True] by simp
  next
    case False
    with nr consider "pk_scheme key \<noteq> sig_scheme s"
      | "pk_scheme key = sig_scheme s" "?v = Invalid" | "pk_scheme key = sig_scheme s" "?v = Malformed"
      by (cases ?v) (auto simp: answers_def)
    then have "SatisfiesThreshold_loop E message (s # sigs) (key # keys) =
        SatisfiesThreshold_loop E message (s # sigs) keys \<and>
        (SatisfiesThreshold_loop E message (s # sigs) keys = Accept \<longleftrightarrow> ?match (s # sigs) keys)"
      by cases (use 3(1,3,5,6) in auto)
    then show ?thesis using skip [OF False] by simp
  qed
qed

text \<open>The greedy walk finds a match whenever there is one, in the order of the keys.\<close>

lemma SatisfiesThreshold_iff:
  "(\<forall>s \<in> set (wit_signatures w). sig_scheme s \<noteq> 0) \<Longrightarrow>
   SatisfiesThreshold E w message = Accept \<longleftrightarrow>
     (\<exists>keys. subseq keys (sc_keys (wit_condition w)) \<and>
       list_all2 (answers E message) (wit_signatures w) keys)"
  by (simp add: SatisfiesThreshold_def SatisfiesThreshold_loop_iff)

section \<open>Fees and authorisation\<close>

lemma SumAmounts_eq:
  "SumAmounts 0 xs = (if (\<forall>x \<in> set xs. IsValidAmount x) \<and> IsValidAmount (sum_list xs)
     then Some (sum_list xs) else None)"
  using SumAmounts_Some [OF valid_zero, of xs] by (cases "SumAmounts 0 xs") auto

lemma TransactionFee_Inr:
  "TransactionFee tx coins = Inr fee \<longleftrightarrow>
     \<not> IsCoinbase tx \<and> length coins = length (tx_inputs tx) \<and>
     (\<forall>c \<in> set coins. IsValidAmount (out_amount (coin_output c))) \<and>
     IsValidAmount (\<Sum>c \<leftarrow> coins. out_amount (coin_output c)) \<and>
     (\<forall>out \<in> set (tx_outputs tx). IsValidAmount (out_amount out)) \<and>
     IsValidAmount (\<Sum>out \<leftarrow> tx_outputs tx. out_amount out) \<and>
     0 \<le> fee \<and> (\<Sum>c \<leftarrow> coins. out_amount (coin_output c)) = (\<Sum>out \<leftarrow> tx_outputs tx. out_amount out) + fee"
  by (auto simp: TransactionFee_def SumAmounts_eq)

text \<open>What one accepted input proves: the witness reveals the committed condition and meets it.\<close>

definition input_authorised :: "crypto_ext \<Rightarrow> transaction \<Rightarrow> chain_params \<Rightarrow> nat \<Rightarrow> coin \<Rightarrow> witness \<Rightarrow> bool" where
  "input_authorised E tx params i c w \<longleftrightarrow>
     lock_version (out_lock (coin_output c)) \<noteq> 0 \<and>
     (lock_version (out_lock (coin_output c)) = 1 \<longrightarrow>
        lock_program (out_lock (coin_output c)) =
          Hash256_Span (SpendConditionCommitment E (wit_condition w)) \<and>
        (sc_version (wit_condition w) = 1 \<longrightarrow>
          (\<exists>keys. subseq keys (sc_keys (wit_condition w)) \<and>
            list_all2 (answers E (SignatureHash E (chain_id params) tx (ComputeSigHashMidstates E tx)
              (of_nat i) (out_amount (coin_output c)) (wit_condition w))) (wit_signatures w) keys)))"

lemma CheckInputAuthorisation_Accept:
  assumes "\<forall>s \<in> set (wit_signatures (tx_witnesses tx ! i)). sig_scheme s \<noteq> 0"
  shows "CheckInputAuthorisation E tx (ComputeSigHashMidstates E tx) coins params i = Accept \<longleftrightarrow>
    input_authorised E tx params i (coins ! i) (tx_witnesses tx ! i)"
  using assms
  by (auto simp: CheckInputAuthorisation_def input_authorised_def Let_def Lock_IsUnspendable_def
      LOCK_VERSION_UNSPENDABLE_def LOCK_VERSION_CONDITION_COMMITMENT_def MatchesConditionCommitment_def
      CONDITION_VERSION_THRESHOLD_def SatisfiesThreshold_iff)

lemma CheckSpendAuthorisation_Accept:
  assumes "\<forall>w \<in> set (tx_witnesses tx). \<forall>s \<in> set (wit_signatures w). sig_scheme s \<noteq> 0"
  shows "CheckSpendAuthorisation E tx coins params = Accept \<longleftrightarrow>
    \<not> IsCoinbase tx \<and> length coins = length (tx_inputs tx) \<and>
    length (tx_witnesses tx) = length (tx_inputs tx) \<and>
    (\<forall>i < length (tx_inputs tx). input_authorised E tx params i (coins ! i) (tx_witnesses tx ! i))"
proof (cases "length (tx_witnesses tx) = length (tx_inputs tx)")
  case True
  have "CheckInputAuthorisation E tx (ComputeSigHashMidstates E tx) coins params i = Accept \<longleftrightarrow>
      input_authorised E tx params i (coins ! i) (tx_witnesses tx ! i)" if "i < length (tx_inputs tx)" for i
    using assms that True by (intro CheckInputAuthorisation_Accept) (metis nth_mem)
  then show ?thesis
    by (auto simp: CheckSpendAuthorisation_def Let_def check_all_Inr)
qed (auto simp: CheckSpendAuthorisation_def)

definition coin_mature :: "chain_params \<Rightarrow> u32 \<Rightarrow> coin \<Rightarrow> bool" where
  "coin_mature params height c \<longleftrightarrow> (coin_is_coinbase c \<longrightarrow>
     unat (coin_height c) + unat (coinbase_maturity params) \<le> unat height)"

lemma CheckTransactionInputs_Inr:
  "CheckTransactionInputs E tx coins height params = Inr fee \<longleftrightarrow>
     (\<forall>c \<in> set coins. coin_mature params height c) \<and>
     TransactionFee tx coins = Inr fee \<and>
     CheckSpendAuthorisation E tx coins params = Accept"
proof -
  have m: "uint height - uint (coin_height c) < uint (coinbase_maturity params) \<longleftrightarrow>
      \<not> unat (coin_height c) + unat (coinbase_maturity params) \<le> unat height" for c
    using of_nat_le_iff [of "unat (coin_height c) + unat (coinbase_maturity params)" "unat height",
        where 'a = int]
    by (simp del: of_nat_le_iff, linarith)
  show ?thesis
    by (auto simp: CheckTransactionInputs_def verdict_simps m coin_mature_def TransactionFee_Inr)
qed


section \<open>Transactions\<close>

definition tx_ok :: "chain_params \<Rightarrow> transaction \<Rightarrow> bool" where
  "tx_ok params tx \<longleftrightarrow>
     tx_inputs tx \<noteq> [] \<and> tx_outputs tx \<noteq> [] \<and>
     length (tx_inputs tx) \<le> max_inputs (limits_tx (block_limits params)) \<and>
     length (tx_outputs tx) \<le> max_outputs (limits_tx (block_limits params)) \<and>
     (\<forall>out \<in> set (tx_outputs tx). IsValidAmount (out_amount out)) \<and>
     IsValidAmount (\<Sum>out \<leftarrow> tx_outputs tx. out_amount out) \<and>
     Transaction_Weight tx \<le> max_block_weight params \<and>
     (if IsCoinbase tx then tx_witnesses tx = [] \<and>
        length (tx_coinbase_data tx) \<le> max_coinbase_data_size (limits_tx (block_limits params))
      else tx_coinbase_data tx = [] \<and> length (tx_witnesses tx) = length (tx_inputs tx) \<and>
        (\<forall>i \<in> set (tx_inputs tx). \<not> is_null_outpoint (in_outpoint i)) \<and>
        distinct (map in_outpoint (tx_inputs tx)) \<and>
        (\<forall>w \<in> set (tx_witnesses tx). CheckWitness w params = Accept))"

lemma CheckTransaction_Accept: "CheckTransaction tx params = Accept \<longleftrightarrow> tx_ok params tx"
proof (cases "IsCoinbase tx")
  case True
  then show ?thesis
    by (auto simp: CheckTransaction_def tx_ok_def Let_def verdict_simps)
next
  case False
  then show ?thesis
    by (auto simp: CheckTransaction_def tx_ok_def Let_def verdict_simps)
qed

lemma tx_ok_signatures:
  "tx_ok params tx \<Longrightarrow> \<forall>w \<in> set (tx_witnesses tx). \<forall>s \<in> set (wit_signatures w). sig_scheme s \<noteq> 0"
  by (auto simp: tx_ok_def CheckWitness_Accept split: if_splits)

section \<open>Headers and blocks\<close>

lemma CheckBlockHeader_Accept:
  "CheckBlockHeader E header params = Accept \<longleftrightarrow>
     (\<exists>target floor. CompactToTarget (hdr_target_bits header) = Some target \<and>
        CompactToTarget (pow_limit_bits params) = Some floor \<and>
        arr_val target \<le> arr_val floor \<and>
        hash_val (BlockHeader_Hash E header) \<le> arr_val target)"
  by (auto simp: CheckBlockHeader_def HashMeetsTarget_iff arr_less_iff split: option.splits)

text \<open>The height is checked without wrapping.\<close>

lemma next_height: "p \<noteq> - 1 \<and> h = p + 1 \<longleftrightarrow> unat h = unat p + 1" for p h :: u32
proof (cases "p = - 1")
  case True
  have "unat (- 1 :: u32) = 4294967295"
    by (simp add: unsigned_minus_1_eq_mask mask_eq_exp_minus_1)
  then have "unat p = 4294967295" by (simp only: True)
  with unat_bounds(2) [of h] have "unat h \<noteq> unat p + 1" by linarith
  with True show ?thesis by simp
next
  case False
  then have "1 + p \<noteq> 0" by (simp add: add_eq_0_iff)
  from unatSuc [OF this] have "unat (p + 1) = unat p + 1" by (simp add: add.commute)
  with False show ?thesis by (simp add: word_unat_eq_iff)
qed

lemma ContextualCheckBlockHeader_links:
  assumes "ContextualCheckBlockHeader header context params = Accept"
  shows "hdr_prev_block header = ctx_prev_hash context"
    "unat (hdr_height header) = unat (ctx_prev_height context) + 1"
    "hdr_target_bits header = ctx_expected_bits context"
  using assms next_height [of "ctx_prev_height context" "hdr_height header"]
  by (auto simp: ContextualCheckBlockHeader_def split: if_splits)

lemma ContextualCheckBlockHeader_Accept:
  assumes "i64_ok (ctx_now context)"
  shows "ContextualCheckBlockHeader header context params = Accept \<longleftrightarrow>
    hdr_prev_block header = ctx_prev_hash context \<and>
    unat (hdr_height header) = unat (ctx_prev_height context) + 1 \<and>
    hdr_target_bits header = ctx_expected_bits context \<and>
    ctx_median_time_past context < hdr_timestamp header \<and>
    ctx_now context + MAX_FUTURE_BLOCK_SECONDS \<le> INT64_MAX \<and>
    hdr_timestamp header \<le> ctx_now context + MAX_FUTURE_BLOCK_SECONDS"
  using assms next_height [of "ctx_prev_height context" "hdr_height header"]
  by (auto simp: ContextualCheckBlockHeader_def i64_ok_def MAX_FUTURE_BLOCK_SECONDS_def
      split: option.splits if_splits)

lemma CheckBlock_Accept:
  "CheckBlock E block params = Accept \<longleftrightarrow>
     CheckBlockHeader E (blk_header block) params = Accept \<and>
     (\<exists>cb txs. blk_transactions block = cb # txs \<and>
       length (blk_transactions block) \<le> max_transactions (block_limits params) \<and>
       IsCoinbase cb \<and> (\<forall>tx \<in> set txs. \<not> IsCoinbase tx) \<and>
       in_sequence (hd (tx_inputs cb)) = hdr_height (blk_header block) \<and>
       Block_Weight block \<le> max_block_weight params \<and>
       Block_ComputeMerkleRoot E block = Some (hdr_merkle_root (blk_header block)) \<and>
       (\<forall>tx \<in> set (cb # txs). tx_ok params tx) \<and>
       distinct (concat (map (\<lambda>tx. map in_outpoint (tx_inputs tx)) txs)))"
proof (cases "blk_transactions block")
  case Nil
  then show ?thesis by (auto simp: CheckBlock_def verdict_simps)
next
  case (Cons cb txs)
  have "concat (map (\<lambda>tx. if IsCoinbase tx then [] else map in_outpoint (tx_inputs tx)) txs) =
      concat (map (\<lambda>tx. map in_outpoint (tx_inputs tx)) txs)" if "\<forall>tx \<in> set txs. \<not> IsCoinbase tx"
    using that by (metis (mono_tags, lifting) map_eq_conv)
  then show ?thesis
    unfolding CheckBlock_def Cons
    by (auto simp: verdict_simps CheckTransaction_Accept)
qed

lemma CheckCoinbaseAmount_Accept:
  assumes "issuance_ok (issuance params)"
  shows "CheckCoinbaseAmount block fees params = Accept \<longleftrightarrow>
    (\<exists>cb txs. blk_transactions block = cb # txs \<and> IsCoinbase cb \<and> IsValidAmount fees \<and>
      (\<forall>out \<in> set (tx_outputs cb). IsValidAmount (out_amount out)) \<and>
      IsValidAmount (\<Sum>out \<leftarrow> tx_outputs cb. out_amount out) \<and>
      (\<Sum>out \<leftarrow> tx_outputs cb. out_amount out) \<le>
        BlockReward (hdr_height (blk_header block)) (issuance params) + fees)"
proof -
  let ?r = "BlockReward (hdr_height (blk_header block)) (issuance params)"
  have r: "0 \<le> ?r" "7 * ?r \<le> INT64_MAX"
    using BlockReward_bounds [OF assms, of "hdr_height (blk_header block)"] issuance_okD(3) [OF assms]
    by linarith+
  have ok: "i64_ok (?r + fees)" if "IsValidAmount fees"
    using r that by (simp add: i64_ok_def IsValidAmount_def MAX_MONEY_def)
  then show ?thesis
    by (cases "blk_transactions block") (auto simp: CheckCoinbaseAmount_def SumAmounts_eq)
qed

section \<open>Median time\<close>

lemma length_filter_take:
  assumes "\<forall>x \<in> set (take k xs). P x" and "k \<le> length xs"
  shows "k \<le> length (filter P xs)"
proof -
  have "filter P (take k xs) = take k xs" using assms(1) by (simp add: filter_id_conv)
  then have "length (filter P (take k xs @ drop k xs)) = k + length (filter P (drop k xs))"
    using assms(2) by (simp only: filter_append length_append) simp
  then show ?thesis by simp
qed

lemma length_filter_drop:
  assumes "\<forall>x \<in> set (drop k xs). P x"
  shows "length xs - k \<le> length (filter P xs)"
proof -
  have "filter P (drop k xs) = drop k xs" using assms by (simp add: filter_id_conv)
  then have "length (filter P (take k xs @ drop k xs)) = length (filter P (take k xs)) + (length xs - k)"
    by (simp only: filter_append length_append) simp
  then show ?thesis by simp
qed

lemma MedianTimePast_median:
  assumes "timestamps \<noteq> []"
  defines "window \<equiv> drop (length timestamps - min (length timestamps) MEDIAN_TIME_SPAN) timestamps"
  shows "MedianTimePast timestamps \<in> set window"
    "length window < 2 * length (filter (\<lambda>t. t \<le> MedianTimePast timestamps) window)"
    "length window \<le> 2 * length (filter (\<lambda>t. MedianTimePast timestamps \<le> t) window)"
proof -
  let ?s = "sort window" and ?n = "length window" and ?m = "MedianTimePast timestamps"
  have n: "0 < ?n" using assms by (simp add: MEDIAN_TIME_SPAN_def)
  then have k: "?n div 2 < ?n" by simp
  have m: "?m = ?s ! (?n div 2)" using assms by (simp add: MedianTimePast_def Let_def)
  show "?m \<in> set window" unfolding m using k by (metis length_sort nth_mem set_sort)
  have cnt: "length (filter P window) = length (filter P ?s)" for P
    by (metis filter_sort length_sort)
  have "Suc (?n div 2) \<le> length (filter (\<lambda>t. t \<le> ?m) ?s)"
    using k by (intro length_filter_take) (auto simp: m in_set_conv_nth sorted_nth_mono)
  then show "?n < 2 * length (filter (\<lambda>t. t \<le> ?m) window)" unfolding cnt by linarith
  have "\<forall>t \<in> set (drop (?n div 2) ?s). ?m \<le> t"
    using k by (auto simp: m in_set_conv_nth sorted_nth_mono)
  from length_filter_drop [OF this] have "?n - ?n div 2 \<le> length (filter (\<lambda>t. ?m \<le> t) ?s)" by simp
  then show "?n \<le> 2 * length (filter (\<lambda>t. ?m \<le> t) window)" unfolding cnt by linarith
qed

section \<open>Properties\<close>

text \<open>
  \<^verbatim>\<open>CheckTransaction\<close> accepts exactly the transactions that have inputs and outputs
  within the limits, amounts and an amount sum within the monetary bound, weight within a block,
  and: a coinbase no witnesses and bounded data, any other transaction one well-formed witness per
  input, no null and no repeated outpoint, and no coinbase data.
\<close>

theorem check_transaction_decides: "CheckTransaction tx params = Accept \<longleftrightarrow> tx_ok params tx"
  by (rule CheckTransaction_Accept)

text \<open>What an accepted block is.\<close>

definition block_ok :: "crypto_ext \<Rightarrow> chain_params \<Rightarrow> block \<Rightarrow> bool" where
  "block_ok E params block \<longleftrightarrow>
     (\<exists>target floor. CompactToTarget (hdr_target_bits (blk_header block)) = Some target \<and>
        CompactToTarget (pow_limit_bits params) = Some floor \<and> arr_val target \<le> arr_val floor \<and>
        hash_val (BlockHeader_Hash E (blk_header block)) \<le> arr_val target) \<and>
     (\<exists>cb txs. blk_transactions block = cb # txs \<and>
        length (blk_transactions block) \<le> max_transactions (block_limits params) \<and>
        IsCoinbase cb \<and> (\<forall>tx \<in> set txs. \<not> IsCoinbase tx) \<and>
        in_sequence (hd (tx_inputs cb)) = hdr_height (blk_header block) \<and>
        Block_Weight block \<le> max_block_weight params \<and>
        Block_ComputeMerkleRoot E block = Some (hdr_merkle_root (blk_header block)) \<and>
        (\<forall>tx \<in> set (cb # txs). tx_ok params tx) \<and>
        distinct (concat (map (\<lambda>tx. map in_outpoint (tx_inputs tx)) txs)))"

text \<open>
  Property C17. \<^verbatim>\<open>CheckBlock\<close> accepts exactly the blocks whose hash is, as a number, at most a
  target that is at most the network's floor, whose first transaction and no other is a coinbase
  naming the block's height, whose root commits to the transactions, whose weight and count are
  within bounds, whose transactions are each well formed, and in which no outpoint is spent twice.
\<close>

theorem check_block_decides: "CheckBlock E block params = Accept \<longleftrightarrow> block_ok E params block"
  by (simp only: CheckBlock_Accept CheckBlockHeader_Accept block_ok_def)

lemma CheckTransactionInputs_decides:
  assumes "CheckTransaction tx params = Accept"
  shows "CheckTransactionInputs E tx coins height params = Inr fee \<longleftrightarrow>
    \<not> IsCoinbase tx \<and> length coins = length (tx_inputs tx) \<and>
    list_all (coin_mature params height) coins \<and>
    list_all (\<lambda>c. IsValidAmount (out_amount (coin_output c))) coins \<and>
    IsValidAmount (\<Sum>c \<leftarrow> coins. out_amount (coin_output c)) \<and> 0 \<le> fee \<and>
    (\<Sum>c \<leftarrow> coins. out_amount (coin_output c)) = (\<Sum>out \<leftarrow> tx_outputs tx. out_amount out) + fee \<and>
    list_all (\<lambda>i. input_authorised E tx params i (coins ! i) (tx_witnesses tx ! i))
      [0..<length (tx_inputs tx)]"
  using assms
  by (auto simp: CheckTransactionInputs_Inr TransactionFee_Inr list_all_iff CheckTransaction_Accept
      CheckSpendAuthorisation_Accept [OF tx_ok_signatures]) (auto simp: tx_ok_def)

text \<open>
  Property C18. For a well-formed transaction, spending coins at a height is accepted with a fee
  exactly when it is not a coinbase, there is one coin per input, every coinbase coin has matured,
  all amounts and their sums are within the monetary bound, the inputs pay the outputs and the
  fee, and each input is authorised: its lock is spendable, a committed condition is the one the
  witness reveals, and a threshold condition is met by signatures over this very spend.
\<close>

theorem spend_accepted_iff:
  assumes "CheckTransaction tx params = Accept"
  shows "CheckTransactionInputs E tx coins height params = Inr fee \<longleftrightarrow>
    \<not> IsCoinbase tx \<and> length coins = length (tx_inputs tx) \<and>
    list_all (coin_mature params height) coins \<and>
    list_all (\<lambda>c. IsValidAmount (out_amount (coin_output c))) coins \<and>
    IsValidAmount (\<Sum>c \<leftarrow> coins. out_amount (coin_output c)) \<and> 0 \<le> fee \<and>
    (\<Sum>c \<leftarrow> coins. out_amount (coin_output c)) = (\<Sum>out \<leftarrow> tx_outputs tx. out_amount out) + fee \<and>
    list_all (\<lambda>i. input_authorised E tx params i (coins ! i) (tx_witnesses tx ! i))
      [0..<length (tx_inputs tx)]"
  using assms by (rule CheckTransactionInputs_decides)

definition example_spend :: transaction where
  "example_spend =
     \<lparr>tx_version = 1,
      tx_inputs = [\<lparr>in_outpoint = \<lparr>op_txid = Hash256_zero, op_index = 5\<rparr>, in_sequence = 0\<rparr>],
      tx_outputs =
        [\<lparr>out_amount = 1, out_lock = \<lparr>lock_version = 0, lock_program = []\<rparr>\<rparr>,
         \<lparr>out_amount = 4, out_lock = \<lparr>lock_version = 2, lock_program = []\<rparr>\<rparr>],
      tx_locktime = 0,
      tx_witnesses =
        [\<lparr>wit_condition = \<lparr>sc_version = 2, sc_threshold = 0, sc_keys = []\<rparr>, wit_signatures = []\<rparr>],
      tx_coinbase_data = []\<rparr>"

definition example_coin :: coin where
  "example_coin =
     \<lparr>coin_output = \<lparr>out_amount = 7, out_lock = \<lparr>lock_version = 2, lock_program = []\<rparr>\<rparr>,
      coin_height = 0, coin_is_coinbase = False\<rparr>"

lemma regtest_limits:
  "limits_tx (block_limits REGTEST_PARAMS) =
     \<lparr>max_inputs = 12500, max_outputs = 50000, max_witnesses = 12500, max_lock_program_size = 128,
      max_keys = 16, max_key_size = 4096, max_signatures = 16, max_signature_size = 8192,
      max_coinbase_data_size = 100\<rparr>"
  "max_transactions (block_limits REGTEST_PARAMS) = 45454" "max_block_weight REGTEST_PARAMS = 2000000"
  by (simp_all add: REGTEST_PARAMS_def CONSENSUS_BLOCK_LIMITS_def CONSENSUS_TX_LIMITS_def
      WeightBoundedCount_def MAX_BLOCK_WEIGHT_def WITNESS_SCALE_FACTOR_def size_constants
      MAX_LOCK_PROGRAM_BYTES_def MAX_SPEND_CONDITION_KEYS_def MAX_PUBLIC_KEY_BYTES_def
      MAX_SIGNATURE_BYTES_def MAX_COINBASE_DATA_BYTES_def)

lemma example_spend_not_coinbase: "\<not> IsCoinbase example_spend"
  by (simp add: example_spend_def IsCoinbase_def inputs_are_coinbase_def is_null_outpoint_def
      COINBASE_OUTPOINT_INDEX_def)

lemma example_spend_weight: "Transaction_Weight example_spend = 285"
  by code_simp

lemma example_spend_ok: "tx_ok REGTEST_PARAMS example_spend"
  using example_spend_not_coinbase example_spend_weight
  by (simp add: tx_ok_def regtest_limits)
    (simp add: example_spend_def IsValidAmount_def MAX_MONEY_def is_null_outpoint_def CheckWitness_Accept
      CheckSpendCondition_Accept CONDITION_VERSION_THRESHOLD_def COINBASE_OUTPOINT_INDEX_def)

theorem spend_accepted_iff_witness:
  "CheckTransactionInputs example_crypto example_spend [example_coin] 1 REGTEST_PARAMS = Inr 2"
proof -
  have "CheckTransaction example_spend REGTEST_PARAMS = Accept"
    by (simp add: CheckTransaction_Accept example_spend_ok)
  then show ?thesis
    using example_spend_not_coinbase
    by (subst spend_accepted_iff)
      (simp_all add: example_spend_def example_coin_def coin_mature_def input_authorised_def
        IsValidAmount_def MAX_MONEY_def)
qed

text \<open>
  Property C26. The one-pass match of signatures to keys is complete: on a well-formed witness it
  accepts exactly when the signatures can be assigned, in order, to a subsequence of the
  condition's keys that each answer under their own scheme. No admissible assignment is missed by
  consuming keys greedily.
\<close>

theorem threshold_match_complete:
  assumes "CheckWitness w params = Accept"
  shows "SatisfiesThreshold E w message = Accept \<longleftrightarrow>
    (\<exists>keys. subseq keys (sc_keys (wit_condition w)) \<and>
      list_all2 (answers E message) (wit_signatures w) keys)"
  using assms by (intro SatisfiesThreshold_iff) (simp add: CheckWitness_Accept)

definition example_witness :: witness where
  "example_witness =
     \<lparr>wit_condition = \<lparr>sc_version = 1, sc_threshold = 1,
        sc_keys = [\<lparr>pk_scheme = 1, pk_bytes = replicate 32 0\<rparr>, \<lparr>pk_scheme = 2, pk_bytes = replicate 1312 0\<rparr>]\<rparr>,
      wit_signatures = [\<lparr>sig_scheme = 2, sig_bytes = replicate 2420 0\<rparr>]\<rparr>"

lemma example_witness_ok: "CheckWitness example_witness REGTEST_PARAMS = Accept"
  by (simp add: CheckWitness_Accept CheckSpendCondition_Accept example_witness_def condition_ok_def
      key_ok_def HasWrongPublicKeySize_def HasWrongSignatureSize_def FindScheme_def SCHEMES_def
      scheme_ids PublicKey_less_def regtest_limits)

theorem threshold_match_complete_witness:
  "SatisfiesThreshold example_crypto example_witness Hash256_zero = Accept"
proof -
  let ?k = "\<lparr>pk_scheme = 2, pk_bytes = replicate 1312 0\<rparr>"
  have "subseq [?k] (sc_keys (wit_condition example_witness))" by (simp add: example_witness_def)
  moreover have "list_all2 (answers example_crypto Hash256_zero) (wit_signatures example_witness) [?k]"
    by (simp add: example_witness_def answers_def Verify_def FindScheme_def SCHEMES_def scheme_ids
        VerifyWithOpenSsl_def OpenSslName_def FetchedAlgorithm_def example_crypto_def)
  ultimately show ?thesis using threshold_match_complete [OF example_witness_ok] by blast
qed

text \<open>
  A header fits its place in the chain exactly when it names its predecessor, is one
  higher without wrapping the 32-bit height, carries the target the chain requires, and has a time
  after the median of its predecessors and at most the allowed lead ahead of the clock.
\<close>

theorem header_in_context:
  assumes "i64_ok (ctx_now context)"
  shows "ContextualCheckBlockHeader header context params = Accept \<longleftrightarrow>
    hdr_prev_block header = ctx_prev_hash context \<and>
    unat (hdr_height header) = unat (ctx_prev_height context) + 1 \<and>
    hdr_target_bits header = ctx_expected_bits context \<and>
    ctx_median_time_past context < hdr_timestamp header \<and>
    ctx_now context + MAX_FUTURE_BLOCK_SECONDS \<le> INT64_MAX \<and>
    hdr_timestamp header \<le> ctx_now context + MAX_FUTURE_BLOCK_SECONDS"
  by (rule ContextualCheckBlockHeader_Accept [OF assms])

theorem header_in_context_witness:
  "ContextualCheckBlockHeader
     \<lparr>hdr_version = 1, hdr_height = 8, hdr_prev_block = Hash256_zero, hdr_merkle_root = Hash256_zero,
      hdr_timestamp = 1000, hdr_target_bits = 0x207FFFFF, hdr_nonce = 0\<rparr>
     \<lparr>ctx_prev_hash = Hash256_zero, ctx_prev_height = 7, ctx_median_time_past = 999,
      ctx_expected_bits = 0x207FFFFF, ctx_now = 990\<rparr> REGTEST_PARAMS = Accept"
  by (subst header_in_context) (simp_all add: i64_ok_def MAX_FUTURE_BLOCK_SECONDS_def)

text \<open>
  The median time past is a true median of the last eleven timestamps, or of all of
  them when there are fewer: it is one of them, more than half are at most it, and at least half
  are at least it, so a minority of miners cannot move it past the others' times.
\<close>

theorem median_time_past:
  assumes "timestamps \<noteq> []"
  shows "let window = drop (length timestamps - min (length timestamps) MEDIAN_TIME_SPAN) timestamps;
             m = MedianTimePast timestamps
         in m \<in> set window \<and> length window < 2 * length (filter (\<lambda>t. t \<le> m) window) \<and>
            length window \<le> 2 * length (filter (\<lambda>t. m \<le> t) window)"
  unfolding Let_def using MedianTimePast_median [OF assms] by blast

theorem median_time_past_witness: "MedianTimePast [50, 10, 30] \<in> {50, 10, 30}"
  using median_time_past [of "[50, 10, 30]"] by (simp add: MEDIAN_TIME_SPAN_def Let_def)

end
