(* ===== verification/Connect.thy ===== *)
theory Connect
  imports Coins Validation
begin

text \<open>
  Connecting a block to the UTXO set and disconnecting it (\<^verbatim>\<open>src/utxo/connect.cpp\<close>), with the
  undo record and its encoding. Every change of \<^verbatim>\<open>ConnectBlock\<close> lands in a batch cache over the
  caller's, and is flushed into it only when the whole block succeeded; a function that may
  change the caller's cache returns it, changed or not, beside its verdict.
\<close>

section \<open>Undo records\<close>

record tx_undo =
  undo_spent :: "coin list"

record block_undo =
  undo_transactions :: "tx_undo list"

record connect_result =
  res_undo :: block_undo
  res_total_fees :: i64

definition TxUndo_Serialize :: "tx_undo \<Rightarrow> writer \<Rightarrow> writer" where
  "TxUndo_Serialize u = WriteVec Coin_Serialize (undo_spent u)"

definition TxUndo_Deserialize :: "nat \<Rightarrow> nat \<Rightarrow> tx_undo read" where
  "TxUndo_Deserialize max_ins max_program_size =
     read_then (ReadVec max_ins Coin_MIN_SIZE (Coin_Deserialize max_program_size)) (\<lambda>spent.
       read_ret \<lparr>undo_spent = spent\<rparr>)"

definition BlockUndo_Serialize :: "block_undo \<Rightarrow> writer \<Rightarrow> writer" where
  "BlockUndo_Serialize u = WriteVec TxUndo_Serialize (undo_transactions u)"

definition BlockUndo_Deserialize :: "chain_params \<Rightarrow> block_undo read" where
  "BlockUndo_Deserialize params =
     read_then (ReadVec (max_transactions (block_limits params)) 1
         (TxUndo_Deserialize (max_inputs (limits_tx (block_limits params)))
           (max_lock_program_size (limits_tx (block_limits params))))) (\<lambda>transactions.
       read_ret \<lparr>undo_transactions = transactions\<rparr>)"

section \<open>Connect\<close>

definition OutPointFor :: "hash256 \<Rightarrow> nat \<Rightarrow> outpoint" where
  "OutPointFor txid index = \<lparr>op_txid = txid, op_index = of_nat index\<rparr>"

definition IsStored :: "tx_output \<Rightarrow> bool" where
  "IsStored output \<longleftrightarrow> \<not> Lock_IsUnspendable (out_lock output)"

definition created_coin :: "u32 \<Rightarrow> bool \<Rightarrow> tx_output \<Rightarrow> coin" where
  "created_coin height is_coinbase output =
     \<lparr>coin_output = output, coin_height = height, coin_is_coinbase = is_coinbase\<rparr>"

text \<open>The loop that spends the inputs of a transaction and collects the coins removed.\<close>

fun SpendInputs :: "tx_input list \<Rightarrow> coins_cache \<Rightarrow> validation_error + coin list \<times> coins_cache" where
  "SpendInputs [] batch = Inr ([], batch)"
| "SpendInputs (input # inputs) batch =
     (case SpendCoin (in_outpoint input) batch of
        (None, batch') \<Rightarrow> Reject TxInputMissingOrSpent
      | (Some coin, batch') \<Rightarrow>
          try_then (SpendInputs inputs batch') (\<lambda>(spent, batch''). Inr (coin # spent, batch'')))"

text \<open>The loop that adds the outputs, from output \<open>out_index\<close> on.\<close>

fun AddOutputs ::
  "hash256 \<Rightarrow> u32 \<Rightarrow> bool \<Rightarrow> nat \<Rightarrow> tx_output list \<Rightarrow> coins_cache \<Rightarrow> validation_error + coins_cache"
where
  "AddOutputs txid height is_coinbase out_index [] batch = Inr batch"
| "AddOutputs txid height is_coinbase out_index (output # outputs) batch =
     (if \<not> IsStored output then AddOutputs txid height is_coinbase (Suc out_index) outputs batch
      else case AddCoin (OutPointFor txid out_index) (created_coin height is_coinbase output) batch of
          (False, batch') \<Rightarrow> Reject TxCreatesExistingOutpoint
        | (True, batch') \<Rightarrow> AddOutputs txid height is_coinbase (Suc out_index) outputs batch')"

text \<open>
  The body of the loop over the transactions: the batch, the undo entries so far and the fees
  so far.
\<close>

definition ConnectTx ::
  "crypto_ext \<Rightarrow> chain_params \<Rightarrow> u32 \<Rightarrow> bool \<Rightarrow> transaction \<Rightarrow>
     coins_cache \<times> tx_undo list \<times> i64 \<Rightarrow> validation_error + coins_cache \<times> tx_undo list \<times> i64"
where
  "ConnectTx E params height is_coinbase tx = (\<lambda>(batch, undo, total_fees).
     if IsCoinbase tx \<noteq> is_coinbase then Reject BlockMultipleCoinbases
     else
       try_then
        (if is_coinbase then Inr (batch, undo, total_fees)
         else
           try_then (SpendInputs (tx_inputs tx) batch) (\<lambda>(spent, batch').
           try_then (CheckTransactionInputs E tx spent height params) (\<lambda>fee.
             case TryAccumulate int64_limits total_fees fee of
               (False, _) \<Rightarrow> Reject BlockFeesOutOfRange
             | (True, accumulated) \<Rightarrow>
                 if \<not> IsValidAmount accumulated then Reject BlockFeesOutOfRange
                 else Inr (batch', undo @ [\<lparr>undo_spent = spent\<rparr>], accumulated))))
        (\<lambda>(batch', undo', total').
           try_then (AddOutputs (Txid E tx) height is_coinbase 0 (tx_outputs tx) batch') (\<lambda>batch''.
             Inr (batch'', undo', total'))))"

fun ConnectTxs ::
  "crypto_ext \<Rightarrow> chain_params \<Rightarrow> u32 \<Rightarrow> nat \<Rightarrow> transaction list \<Rightarrow>
     coins_cache \<times> tx_undo list \<times> i64 \<Rightarrow> validation_error + coins_cache \<times> tx_undo list \<times> i64"
where
  "ConnectTxs E params height tx_index [] s = Inr s"
| "ConnectTxs E params height tx_index (tx # txs) s =
     try_then (ConnectTx E params height (tx_index = 0) tx s)
       (ConnectTxs E params height (Suc tx_index) txs)"

definition ConnectBlock ::
  "crypto_ext \<Rightarrow> block \<Rightarrow> coins_cache \<Rightarrow> chain_params \<Rightarrow> connect_result computed \<times> coins_cache"
where
  "ConnectBlock E block coins params =
     (if blk_transactions block = [] then (Reject BlockNoTransactions, coins)
      else if \<not> IsCoinbase (hd (blk_transactions block)) then (Reject BlockFirstTxNotCoinbase, coins)
      else
        case ConnectTxs E params (hdr_height (blk_header block)) 0 (blk_transactions block)
            (Over (cache_view coins), [], 0) of
          Inl e \<Rightarrow> (Reject e, coins)
        | Inr (batch, undo, total_fees) \<Rightarrow>
            case CheckCoinbaseAmount block total_fees params of
              Inl e \<Rightarrow> (Reject e, coins)
            | Inr _ \<Rightarrow>
                (Inr \<lparr>res_undo = \<lparr>undo_transactions = undo\<rparr>, res_total_fees = total_fees\<rparr>,
                 snd (Flush batch coins)))"

section \<open>Disconnect\<close>

datatype disconnect_error =
    UndoDoesNotDescribeBlock | CreatedCoinMissing | CreatedCoinDoesNotMatch | SpentOutpointOccupied

primrec DescribeDisconnect :: "disconnect_error \<Rightarrow> string" where
  "DescribeDisconnect UndoDoesNotDescribeBlock =
     ''undo record does not describe the block being disconnected''"
| "DescribeDisconnect CreatedCoinMissing = ''an output the block created is not in the UTXO set''"
| "DescribeDisconnect CreatedCoinDoesNotMatch =
     ''an output the block created is in the UTXO set with different contents''"
| "DescribeDisconnect SpentOutpointOccupied = ''an outpoint the block spent is unspent again''"

fun RemoveOutputs ::
  "hash256 \<Rightarrow> u32 \<Rightarrow> bool \<Rightarrow> nat \<Rightarrow> tx_output list \<Rightarrow> coins_cache \<Rightarrow> disconnect_error + coins_cache"
where
  "RemoveOutputs txid height is_coinbase out_index [] batch = Inr batch"
| "RemoveOutputs txid height is_coinbase out_index (output # outputs) batch =
     (if \<not> IsStored output then RemoveOutputs txid height is_coinbase (Suc out_index) outputs batch
      else case SpendCoin (OutPointFor txid out_index) batch of
          (None, batch') \<Rightarrow> Reject CreatedCoinMissing
        | (Some removed, batch') \<Rightarrow>
            if removed \<noteq> created_coin height is_coinbase output then Reject CreatedCoinDoesNotMatch
            else RemoveOutputs txid height is_coinbase (Suc out_index) outputs batch')"

text \<open>The inputs are restored last first, so the list given here is reversed.\<close>

fun RestoreInputs :: "(tx_input \<times> coin) list \<Rightarrow> coins_cache \<Rightarrow> disconnect_error + coins_cache" where
  "RestoreInputs [] batch = Inr batch"
| "RestoreInputs ((input, coin) # rest) batch =
     (case AddCoin (in_outpoint input) coin batch of
        (False, batch') \<Rightarrow> Reject SpentOutpointOccupied
      | (True, batch') \<Rightarrow> RestoreInputs rest batch')"

definition DisconnectTx ::
  "crypto_ext \<Rightarrow> u32 \<Rightarrow> bool \<Rightarrow> transaction \<Rightarrow> tx_undo list \<Rightarrow> nat \<Rightarrow> coins_cache \<Rightarrow>
     disconnect_error + coins_cache"
where
  "DisconnectTx E height is_coinbase tx undo tx_index batch =
     try_then (RemoveOutputs (Txid E tx) height is_coinbase 0 (tx_outputs tx) batch) (\<lambda>batch'.
       if is_coinbase then Inr batch'
       else
         let tx_undo = undo ! (tx_index - 1)
         in if length (undo_spent tx_undo) \<noteq> length (tx_inputs tx) then Reject UndoDoesNotDescribeBlock
            else RestoreInputs (rev (zip (tx_inputs tx) (undo_spent tx_undo))) batch')"

text \<open>The loop from the last transaction down to the first; \<open>remaining\<close> counts those left.\<close>

fun DisconnectTxs ::
  "crypto_ext \<Rightarrow> u32 \<Rightarrow> transaction list \<Rightarrow> tx_undo list \<Rightarrow> nat \<Rightarrow> coins_cache \<Rightarrow>
     disconnect_error + coins_cache"
where
  "DisconnectTxs E height txs undo 0 batch = Inr batch"
| "DisconnectTxs E height txs undo (Suc tx_index) batch =
     try_then (DisconnectTx E height (tx_index = 0) (txs ! tx_index) undo tx_index batch)
       (DisconnectTxs E height txs undo tx_index)"

definition DisconnectBlock ::
  "crypto_ext \<Rightarrow> block \<Rightarrow> block_undo \<Rightarrow> coins_cache \<Rightarrow> (disconnect_error + unit) \<times> coins_cache"
where
  "DisconnectBlock E block undo coins =
     (if blk_transactions block = [] \<or>
         length (undo_transactions undo) + 1 \<noteq> length (blk_transactions block)
      then (Reject UndoDoesNotDescribeBlock, coins)
      else
        case DisconnectTxs E (hdr_height (blk_header block)) (blk_transactions block)
            (undo_transactions undo) (length (blk_transactions block)) (Over (cache_view coins)) of
          Inl e \<Rightarrow> (Reject e, coins)
        | Inr batch \<Rightarrow> (Accept, snd (Flush batch coins)))"

section \<open>The undo record's encoding\<close>

definition TxUndo_valid :: "nat \<Rightarrow> nat \<Rightarrow> tx_undo \<Rightarrow> bool" where
  "TxUndo_valid m k u \<longleftrightarrow> fits m (undo_spent u) \<and> (\<forall>c \<in> set (undo_spent u). Coin_valid k c)"

definition BlockUndo_valid :: "chain_params \<Rightarrow> block_undo \<Rightarrow> bool" where
  "BlockUndo_valid params u \<longleftrightarrow> fits (max_transactions (block_limits params)) (undo_transactions u) \<and>
     (\<forall>t \<in> set (undo_transactions u). TxUndo_valid (max_inputs (limits_tx (block_limits params)))
        (max_lock_program_size (limits_tx (block_limits params))) t)"

lemma coins_codec: "codec (WriteVec Coin_Serialize) (ReadVec m Coin_MIN_SIZE (Coin_Deserialize k))
    (\<lambda>xs. fits m xs \<and> (\<forall>x \<in> set xs. Coin_valid k x)) 1"
  using coin.vec_codec [of Coin_MIN_SIZE m k] by (simp add: size_constants conj_assoc)

interpretation txundo: codec TxUndo_Serialize "TxUndo_Deserialize m k" "TxUndo_valid m k" 1 for m k
  by (rule codec.iso_codec [OF coins_codec, where mk = "\<lambda>a. \<lparr>undo_spent = a\<rparr>" and dest = undo_spent])
    (auto simp: TxUndo_Serialize_def TxUndo_Deserialize_def TxUndo_valid_def)

interpretation blockundo: codec BlockUndo_Serialize "BlockUndo_Deserialize params"
  "BlockUndo_valid params" 1 for params
proof -
  let ?m = "max_inputs (limits_tx (block_limits params))"
  let ?k = "max_lock_program_size (limits_tx (block_limits params))"
  have "codec (WriteVec TxUndo_Serialize)
      (ReadVec (max_transactions (block_limits params)) 1 (TxUndo_Deserialize ?m ?k))
      (\<lambda>xs. fits (max_transactions (block_limits params)) xs \<and> (\<forall>x \<in> set xs. TxUndo_valid ?m ?k x)) 1"
    using txundo.vec_codec [of 1 "max_transactions (block_limits params)" ?m ?k] by (simp add: conj_assoc)
  then show "codec BlockUndo_Serialize (BlockUndo_Deserialize params) (BlockUndo_valid params) 1"
    by (rule codec.iso_codec [where mk = "\<lambda>a. \<lparr>undo_transactions = a\<rparr>" and dest = undo_transactions])
      (auto simp: BlockUndo_Serialize_def BlockUndo_Deserialize_def BlockUndo_valid_def)
qed

section \<open>The loops on the map a cache denotes\<close>

text \<open>A batch that stays over the same view and keeps its invariant.\<close>

definition same_base :: "coins_cache \<Rightarrow> coins_cache \<Rightarrow> bool" where
  "same_base k k' \<longleftrightarrow> cache_ok k' \<and> cache_base k' = cache_base k"

lemma same_base_simps [simp]:
  "cache_ok k \<Longrightarrow> same_base k k" "cache_ok k \<Longrightarrow> same_base k (Write o' c k)"
  by (simp_all add: same_base_def)

lemma same_base_trans: "same_base a b \<Longrightarrow> same_base b c \<Longrightarrow> same_base a c"
  by (simp add: same_base_def)

lemma same_base_ok: "same_base a b \<Longrightarrow> cache_ok b"
  by (simp add: same_base_def)

abbreviation outpoints_of :: "tx_input list \<Rightarrow> outpoint list" where
  "outpoints_of ins \<equiv> map in_outpoint ins"

definition without :: "outpoint list \<Rightarrow> (outpoint \<rightharpoonup> coin) \<Rightarrow> (outpoint \<rightharpoonup> coin)" where
  "without os m = (\<lambda>o'. if o' \<in> set os then None else m o')"

lemma SpendInputs_Inr:
  assumes "SpendInputs ins b = Inr (spent, b')" and "cache_ok b"
  shows "same_base b b' \<and> distinct (outpoints_of ins) \<and>
    map (GetCoin b) (outpoints_of ins) = map Some spent \<and>
    GetCoin b' = without (outpoints_of ins) (GetCoin b)"
  using assms
proof (induction ins arbitrary: b spent)
  case Nil
  then show ?case by (auto simp: without_def)
next
  case (Cons i ins)
  let ?o = "in_outpoint i"
  from Cons.prems obtain c cs where c: "GetCoin b ?o = Some c" and spent: "spent = c # cs"
    and r: "SpendInputs ins (Write ?o None b) = Inr (cs, b')"
    by (auto simp: cache_SpendCoin verdict_simps split: option.splits)
  from Cons.IH [OF r cache_ok_simps(3) [OF Cons.prems(2)], unfolded cache_Write [OF Cons.prems(2)]]
  have IH: "same_base (Write ?o None b) b'"
    "distinct (outpoints_of ins)"
    "map ((GetCoin b)(?o := None)) (outpoints_of ins) = map Some cs"
    "GetCoin b' = without (outpoints_of ins) ((GetCoin b)(?o := None))" by blast+
  have ni: "?o \<notin> set (outpoints_of ins)"
  proof
    assume "?o \<in> set (outpoints_of ins)"
    then have "None \<in> set (map ((GetCoin b)(?o := None)) (outpoints_of ins))" by force
    then show False unfolding IH(3) by auto
  qed
  then have "map (GetCoin b) (outpoints_of ins) = map Some cs"
    unfolding IH(3) [symmetric] by (intro map_cong refl) (metis fun_upd_other)
  then show ?case
    using IH(1,2,4) ni c spent Cons.prems(2)
    by (auto simp: without_def fun_eq_iff intro: same_base_trans [OF same_base_simps(2)])
qed

text \<open>The coins a transaction creates, with their outpoints.\<close>

fun created_coins :: "hash256 \<Rightarrow> u32 \<Rightarrow> bool \<Rightarrow> nat \<Rightarrow> tx_output list \<Rightarrow> (outpoint \<times> coin) list" where
  "created_coins txid h cb i [] = []"
| "created_coins txid h cb i (out # outs) =
     (if IsStored out then [(OutPointFor txid i, created_coin h cb out)] else []) @
     created_coins txid h cb (Suc i) outs"

lemma map_of_fresh_update:
  "m o' = None \<Longrightarrow> o' \<notin> dom n \<Longrightarrow> m(o' \<mapsto> c) ++ n = m ++ n(o' \<mapsto> c)"
  by (auto simp: fun_eq_iff map_add_def split: option.splits)

lemma AddOutputs_Inr:
  assumes "AddOutputs txid h cb i outs b = Inr b'" and "cache_ok b"
  shows "same_base b b' \<and> distinct (map fst (created_coins txid h cb i outs)) \<and>
    (\<forall>o' \<in> set (map fst (created_coins txid h cb i outs)). GetCoin b o' = None) \<and>
    GetCoin b' = GetCoin b ++ map_of (created_coins txid h cb i outs)"
  using assms
proof (induction outs arbitrary: b i)
  case Nil
  then show ?case by simp
next
  case (Cons out outs)
  show ?case
  proof (cases "IsStored out")
    case False
    with Cons show ?thesis by simp
  next
    case True
    let ?o = "OutPointFor txid i" and ?c = "created_coin h cb out"
      and ?l = "created_coins txid h cb (Suc i) outs"
    from Cons.prems True have f: "GetCoin b ?o = None"
      and r: "AddOutputs txid h cb (Suc i) outs (Write ?o (Some ?c) b) = Inr b'"
      by (auto simp: cache_AddCoin split: if_splits)
    from Cons.IH [OF r cache_ok_simps(3) [OF Cons.prems(2)], unfolded cache_Write [OF Cons.prems(2)]]
    have IH: "same_base (Write ?o (Some ?c) b) b'"
      "distinct (map fst ?l)" "\<forall>o' \<in> set (map fst ?l). ((GetCoin b)(?o \<mapsto> ?c)) o' = None"
      "GetCoin b' = (GetCoin b)(?o \<mapsto> ?c) ++ map_of ?l" by blast+
    have ni: "?o \<notin> set (map fst ?l)" using IH(3) by auto
    then have "GetCoin b' = GetCoin b ++ (map_of ?l)(?o \<mapsto> ?c)"
      unfolding IH(4) using f by (intro map_of_fresh_update) (auto simp: dom_map_of_conv_image_fst)
    then have 1: "GetCoin b' = GetCoin b ++ map_of (created_coins txid h cb i (out # outs))"
      using True by (simp only: created_coins.simps if_True append.simps map_of.simps fst_conv snd_conv)
    have 2: "\<forall>o' \<in> set (map fst (created_coins txid h cb i (out # outs))). GetCoin b o' = None"
      using IH(3) ni f True by (auto simp del: set_map split: if_splits)
    have "distinct (map fst (created_coins txid h cb i (out # outs)))" "same_base b b'"
      using IH(1,2) ni True Cons.prems(2) by (simp_all add: same_base_def)
    with 1 2 show ?thesis by blast
  qed
qed

lemma RemoveOutputs_created:
  assumes "distinct (map fst (created_coins txid h cb i outs))" and "cache_ok b"
    and "\<forall>(o', c) \<in> set (created_coins txid h cb i outs). GetCoin b o' = Some c"
  shows "\<exists>b'. RemoveOutputs txid h cb i outs b = Inr b' \<and> same_base b b' \<and>
    GetCoin b' = without (map fst (created_coins txid h cb i outs)) (GetCoin b)"
  using assms
proof (induction outs arbitrary: b i)
  case Nil
  then show ?case by (simp add: without_def)
next
  case (Cons out outs)
  show ?case
  proof (cases "IsStored out")
    case False
    with Cons show ?thesis by simp
  next
    case True
    let ?o = "OutPointFor txid i" and ?l = "created_coins txid h cb (Suc i) outs"
    have g: "GetCoin b ?o = Some (created_coin h cb out)" using Cons.prems True by simp
    have ni: "?o \<notin> set (map fst ?l)" using Cons.prems(1) True by simp
    have "\<forall>(o', c) \<in> set ?l. GetCoin (Write ?o None b) o' = Some c"
      using Cons.prems(2,3) True ni by force
    then obtain b' where b': "RemoveOutputs txid h cb (Suc i) outs (Write ?o None b) = Inr b'"
      "same_base (Write ?o None b) b'" "GetCoin b' = without (map fst ?l) (GetCoin (Write ?o None b))"
      using Cons.IH [OF _ cache_ok_simps(3) [OF Cons.prems(2)], of "Suc i" ?o None] Cons.prems(1) True
      by (simp del: set_map cache_Write) blast
    have "GetCoin b' = without (map fst (created_coins txid h cb i (out # outs))) (GetCoin b)"
      unfolding b'(3) cache_Write [OF Cons.prems(2)] using True by (auto simp: without_def fun_eq_iff)
    with b'(1,2) g True Cons.prems(2) show ?thesis
      by (auto simp: cache_SpendCoin same_base_def)
  qed
qed

lemma RestoreInputs_fresh:
  assumes "distinct (map fst l)" and "cache_ok b"
    and "map (\<lambda>(i, c). (in_outpoint i, c)) ins = l" and "\<forall>o' \<in> set (map fst l). GetCoin b o' = None"
  shows "\<exists>b'. RestoreInputs ins b = Inr b' \<and> same_base b b' \<and> GetCoin b' = GetCoin b ++ map_of l"
  using assms
proof (induction ins arbitrary: b l)
  case Nil
  then show ?case by simp
next
  case (Cons e ins)
  obtain i c where e: "e = (i, c)" by (cases e)
  let ?o = "in_outpoint i" and ?l = "map (\<lambda>(i, c). (in_outpoint i, c)) ins"
  have l: "l = (?o, c) # ?l" using Cons.prems(3) e by simp
  have ni: "?o \<notin> set (map fst ?l)" using Cons.prems(1) unfolding l by simp
  have f: "GetCoin b ?o = None" using Cons.prems(4) unfolding l by simp
  have "\<forall>o' \<in> set (map fst ?l). GetCoin (Write ?o (Some c) b) o' = None"
    unfolding cache_Write [OF Cons.prems(2)] using Cons.prems(4) ni unfolding l
    by (metis fun_upd_other list.set_intros(2) list.simps(9))
  moreover have "distinct (map fst ?l)" using Cons.prems(1) unfolding l by simp
  ultimately obtain b' where b': "RestoreInputs ins (Write ?o (Some c) b) = Inr b'"
    "same_base (Write ?o (Some c) b) b'" "GetCoin b' = (GetCoin b)(?o \<mapsto> c) ++ map_of ?l"
    using Cons.IH [OF _ cache_ok_simps(3) [OF Cons.prems(2)] refl]
    unfolding cache_Write [OF Cons.prems(2)] by blast
  have "GetCoin b' = GetCoin b ++ map_of l"
    unfolding b'(3) l using f ni
    by (subst map_of_fresh_update) (simp_all only: dom_map_of_conv_image_fst set_map map_of.simps fst_conv snd_conv not_False_eq_True)
  with b'(1,2) f e Cons.prems(2) show ?case
    by (auto simp: cache_AddCoin same_base_def)
qed


section \<open>Disconnecting what was connected\<close>

text \<open>What one connected transaction does to the map, and what it leaves for its undo.\<close>

lemma ConnectTx_Inr:
  assumes "ConnectTx E params h cb tx (b, undo, fees) = Inr (b', undo', fees')" and "cache_ok b"
  obtains spent where "IsCoinbase tx = cb" "same_base b b'"
    "undo' = (if cb then undo else undo @ [\<lparr>undo_spent = spent\<rparr>])"
    "cb \<Longrightarrow> fees' = fees \<and> spent = []"
    "\<not> cb \<Longrightarrow> distinct (outpoints_of (tx_inputs tx)) \<and>
       map (GetCoin b) (outpoints_of (tx_inputs tx)) = map Some spent \<and>
       (\<exists>fee. CheckTransactionInputs E tx spent h params = Inr fee \<and> fees' = fees + fee) \<and>
       IsValidAmount fees'"
    "distinct (map fst (created_coins (Txid E tx) h cb 0 (tx_outputs tx)))"
    "\<forall>o' \<in> set (map fst (created_coins (Txid E tx) h cb 0 (tx_outputs tx))).
       without (if cb then [] else outpoints_of (tx_inputs tx)) (GetCoin b) o' = None"
    "GetCoin b' = without (if cb then [] else outpoints_of (tx_inputs tx)) (GetCoin b) ++
       map_of (created_coins (Txid E tx) h cb 0 (tx_outputs tx))"
proof (cases cb)
  case True
  with assms have "IsCoinbase tx = cb" "undo' = undo" "fees' = fees"
    and a: "AddOutputs (Txid E tx) h True 0 (tx_outputs tx) b = Inr b'"
    by (auto simp: ConnectTx_def verdict_simps split: if_splits)
  moreover have "without [] (GetCoin b) = GetCoin b" by (simp add: without_def)
  ultimately show ?thesis
    using AddOutputs_Inr [OF a assms(2)] True by (intro that [of "[]"]) simp_all
next
  case False
  with assms obtain spent b1 fee where t: "\<not> IsCoinbase tx"
    and s: "SpendInputs (tx_inputs tx) b = Inr (spent, b1)"
    and c: "CheckTransactionInputs E tx spent h params = Inr fee"
    and u: "undo' = undo @ [\<lparr>undo_spent = spent\<rparr>]" "fees' = fees + fee" "IsValidAmount fees'"
    and a: "AddOutputs (Txid E tx) h False 0 (tx_outputs tx) b1 = Inr b'"
    by (auto simp: ConnectTx_def verdict_simps TryAccumulate_def split: if_splits option.splits)
  note sp = SpendInputs_Inr [OF s assms(2)]
  then have "cache_ok b1" by (simp add: same_base_def)
  from AddOutputs_Inr [OF a this] sp t c u False show ?thesis
    by (intro that [of spent]) (auto simp: same_base_def)
qed


lemma without_added:
  assumes "\<forall>o' \<in> set (map fst l). m o' = None"
  shows "without (map fst l) (m ++ map_of l) = m"
proof
  show "without (map fst l) (m ++ map_of l) o' = m o'" for o'
    using assms map_of_eq_None_iff [of l o'] by (auto simp: without_def map_add_def split: option.splits)
qed

lemma restored:
  assumes "distinct os" and "map m os = map Some cs"
  shows "without os m ++ map_of (rev (zip os cs)) = m"
proof
  fix o'
  have len: "length os = length cs" using assms(2) by (rule map_eq_imp_length_eq)
  have d: "distinct (map fst (zip os cs))" using assms(1) len by simp
  then have r: "map_of (rev (zip os cs)) = map_of (zip os cs)"
    by (subst map_of_inject_set) (simp_all add: rev_map [symmetric])
  show "(without os m ++ map_of (rev (zip os cs))) o' = m o'"
  proof (cases "o' \<in> set os")
    case True
    then obtain i where i: "i < length os" "os ! i = o'" by (auto simp: in_set_conv_nth)
    then have "map_of (zip os cs) o' = Some (cs ! i)" using assms(1) len map_of_zip_nth [of os cs i] by simp
    moreover have "m o' = Some (cs ! i)" using arg_cong [OF assms(2), of "\<lambda>l. l ! i"] i len by simp
    ultimately show ?thesis by (simp add: r)
  next
    case False
    then have "map_of (zip os cs) o' = None" using len by simp
    with False show ?thesis by (simp add: r without_def map_add_def)
  qed
qed


text \<open>Undoing the last transaction connected gives back the map it was connected to.\<close>

lemma DisconnectTx_ConnectTx:
  assumes conn: "ConnectTx E params h (i = 0) tx (b, undo, fees) = Inr (b', undo', fees')"
    and "cache_ok b" and "cache_ok c" and c: "GetCoin c = GetCoin b'"
    and undo: "take (length undo') us = undo'" "length undo = i - 1"
  shows "\<exists>c'. DisconnectTx E h (i = 0) tx us i c = Inr c' \<and> same_base c c' \<and> GetCoin c' = GetCoin b"
proof -
  let ?cb = "i = 0" and ?os = "outpoints_of (tx_inputs tx)"
  let ?l = "created_coins (Txid E tx) h ?cb 0 (tx_outputs tx)"
    and ?m = "without (if ?cb then [] else ?os) (GetCoin b)"
  from ConnectTx_Inr [OF conn \<open>cache_ok b\<close>] obtain spent where
    u: "undo' = (if ?cb then undo else undo @ [\<lparr>undo_spent = spent\<rparr>])"
    and sp: "\<not> ?cb \<Longrightarrow> distinct ?os \<and> map (GetCoin b) ?os = map Some spent"
    and d: "distinct (map fst ?l)" and f: "\<forall>o' \<in> set (map fst ?l). ?m o' = None"
    and m: "GetCoin b' = ?m ++ map_of ?l" by metis
  have "\<forall>(o', x) \<in> set ?l. GetCoin c o' = Some x"
    unfolding c m using d by (auto simp: map_add_Some_iff)
  from RemoveOutputs_created [OF d \<open>cache_ok c\<close> this] obtain c1 where
    c1: "RemoveOutputs (Txid E tx) h ?cb 0 (tx_outputs tx) c = Inr c1" "same_base c c1"
    and g: "GetCoin c1 = without (map fst ?l) (GetCoin c)" by blast
  have g1: "GetCoin c1 = ?m" unfolding g c m by (rule without_added [OF f])
  show ?thesis
  proof (cases ?cb)
    case True
    then have "GetCoin c1 = GetCoin b" unfolding g1 by (simp add: without_def)
    with True c1 show ?thesis by (auto simp: DisconnectTx_def)
  next
    case False
    note sp = sp [OF False]
    have len: "length spent = length (tx_inputs tx)"
      using conjunct2 [OF sp, THEN map_eq_imp_length_eq] by simp
    have "us ! (i - 1) = \<lparr>undo_spent = spent\<rparr>"
      using u undo False by (metis length_append_singleton lessI nth_append_length nth_take)
    then have code: "DisconnectTx E h ?cb tx us i c = RestoreInputs (rev (zip (tx_inputs tx) spent)) c1"
      using c1(1) False len by (simp add: DisconnectTx_def)
    have l: "map (\<lambda>(i, x). (in_outpoint i, x)) (rev (zip (tx_inputs tx) spent)) = rev (zip ?os spent)"
      by (simp add: rev_map zip_map1)
    have dz: "distinct (map fst (rev (zip ?os spent)))" using sp len by (simp add: rev_map [symmetric])
    have fz: "\<forall>o' \<in> set (map fst (rev (zip ?os spent))). GetCoin c1 o' = None"
      unfolding g1 using len False by (auto simp: without_def dest: set_zip_leftD)
    from RestoreInputs_fresh [OF dz same_base_ok [OF c1(2)] l fz] obtain c2 where
      "RestoreInputs (rev (zip (tx_inputs tx) spent)) c1 = Inr c2" "same_base c1 c2"
      "GetCoin c2 = GetCoin c1 ++ map_of (rev (zip ?os spent))" by blast
    moreover have "GetCoin c1 ++ map_of (rev (zip ?os spent)) = GetCoin b"
      unfolding g1 using restored [of ?os "GetCoin b" spent] sp False by simp
    ultimately show ?thesis using code c1(2) same_base_trans by auto
  qed
qed

lemma ConnectTxs_append:
  "ConnectTxs E params h i (xs @ ys) s =
     try_then (ConnectTxs E params h i xs s) (ConnectTxs E params h (i + length xs) ys)"
proof (induction xs arbitrary: i s)
  case (Cons x xs)
  show ?case by (cases "ConnectTx E params h (i = 0) x s") (simp_all add: Cons)
qed simp

lemma ConnectTxs_shape:
  assumes "ConnectTxs E params h 0 txs (b, [], 0) = Inr (b', undo, fees)" and "cache_ok b"
  shows "length undo = length txs - 1 \<and> same_base b b' \<and> IsValidAmount fees"
  using assms
proof (induction txs arbitrary: b' undo fees rule: rev_induct)
  case Nil
  then show ?case by simp
next
  case (snoc tx txs)
  from snoc.prems(1) obtain b1 undo1 fees1 where
    init: "ConnectTxs E params h 0 txs (b, [], 0) = Inr (b1, undo1, fees1)"
    and last: "ConnectTx E params h (length txs = 0) tx (b1, undo1, fees1) = Inr (b', undo, fees)"
    by (auto simp: ConnectTxs_append verdict_simps)
  note IH = snoc.IH [OF init assms(2)]
  from ConnectTx_Inr [OF last same_base_ok] IH obtain spent where "same_base b1 b'"
    "undo = (if length txs = 0 then undo1 else undo1 @ [\<lparr>undo_spent = spent\<rparr>])"
    "length txs = 0 \<Longrightarrow> fees = fees1" "length txs \<noteq> 0 \<Longrightarrow> IsValidAmount fees" by metis
  with IH show ?case by (cases "length txs = 0") (auto simp: same_base_def)
qed

lemma DisconnectTxs_ConnectTxs:
  assumes "ConnectTxs E params h 0 txs (b, [], 0) = Inr (b', undo, fees)" and "cache_ok b"
    and "cache_ok c" and "GetCoin c = GetCoin b'"
  shows "\<exists>c'. DisconnectTxs E h (txs @ ts) (undo @ us) (length txs) c = Inr c' \<and> same_base c c' \<and>
    GetCoin c' = GetCoin b"
  using assms
proof (induction txs arbitrary: b' undo fees c ts us rule: rev_induct)
  case Nil
  then show ?case by simp
next
  case (snoc tx txs)
  let ?n = "length txs"
  from snoc.prems(1) obtain b1 undo1 fees1 where
    init: "ConnectTxs E params h 0 txs (b, [], 0) = Inr (b1, undo1, fees1)"
    and last: "ConnectTx E params h (?n = 0) tx (b1, undo1, fees1) = Inr (b', undo, fees)"
    by (auto simp: ConnectTxs_append verdict_simps)
  from ConnectTxs_shape [OF init assms(2)] have sh: "length undo1 = ?n - 1" "cache_ok b1"
    by (simp_all add: same_base_def)
  from ConnectTx_Inr [OF last sh(2)] obtain v where undo: "undo = undo1 @ v" by (metis append_Nil2)
  from DisconnectTx_ConnectTx [OF last sh(2) snoc.prems(3,4) _ sh(1), of "undo @ us"] obtain c1 where
    c1: "DisconnectTx E h (?n = 0) tx (undo @ us) ?n c = Inr c1" "same_base c c1" "GetCoin c1 = GetCoin b1"
    by auto
  from snoc.IH [OF init assms(2) same_base_ok [OF c1(2)] c1(3), of "tx # ts" "v @ us"] obtain c' where
    c': "DisconnectTxs E h (txs @ tx # ts) (undo1 @ v @ us) ?n c1 = Inr c'" "same_base c1 c'"
      "GetCoin c' = GetCoin b" by auto
  have "DisconnectTxs E h ((txs @ [tx]) @ ts) (undo @ us) (Suc ?n) c =
      DisconnectTxs E h (txs @ tx # ts) (undo1 @ v @ us) ?n c1"
    using c1(1) by (simp add: undo)
  with c' c1(2) same_base_trans show ?case by auto
qed

lemma Flush_base: "cache_base (snd (Flush b k)) = cache_base k"
proof -
  have "cache_base (fold (\<lambda>(o', c). Write o' c) es k) = cache_base k" for es
    by (induction es arbitrary: k) auto
  then show ?thesis by (simp add: Flush_def)
qed

text \<open>
  Disconnecting a block with the undo record its connection produced succeeds and leaves the
  set as it was.
\<close>

lemma ConnectBlock_Inr:
  assumes "cache_ok coins" and "ConnectBlock E block coins params = (Inr res, coins')"
  obtains b undo where "blk_transactions block \<noteq> []" "IsCoinbase (hd (blk_transactions block))"
    "ConnectTxs E params (hdr_height (blk_header block)) 0 (blk_transactions block)
      (Over (cache_view coins), [], 0) = Inr (b, undo, res_total_fees res)"
    "CheckCoinbaseAmount block (res_total_fees res) params = Accept"
    "res_undo res = \<lparr>undo_transactions = undo\<rparr>" "length undo + 1 = length (blk_transactions block)"
    "GetCoin coins' = GetCoin b" "same_base coins coins'"
proof -
  let ?h = "hdr_height (blk_header block)" and ?txs = "blk_transactions block"
  from assms(2) obtain b undo fees where ne: "?txs \<noteq> []" and cb: "IsCoinbase (hd ?txs)"
    and conn: "ConnectTxs E params ?h 0 ?txs (Over (cache_view coins), [], 0) = Inr (b, undo, fees)"
    and amt: "CheckCoinbaseAmount block fees params = Accept"
    and res: "res_undo res = \<lparr>undo_transactions = undo\<rparr>" "res_total_fees res = fees"
    and fl: "coins' = snd (Flush b coins)"
    by (auto simp: ConnectBlock_def split: if_splits sum.splits prod.splits)
  from ConnectTxs_shape [OF conn cache_ok_simps(2) [OF assms(1)]]
  have sh: "length undo = length ?txs - 1" "cache_ok b" "cache_base b = cache_view coins"
    by (simp_all add: same_base_def)
  from Flush_refines [OF assms(1) _ sh(3)] sh(2)
  have "GetCoin coins' = GetCoin b" "cache_ok coins'" by (simp_all add: fl cache_ok_def)
  moreover have "cache_base coins' = cache_base coins" by (simp add: fl Flush_base)
  ultimately show ?thesis
    using ne cb conn amt res sh(1) by (intro that [of b undo]) (simp_all add: same_base_def)
qed

lemma DisconnectBlock_ConnectBlock:
  assumes "cache_ok coins" and conn: "ConnectBlock E block coins params = (Inr res, coins')"
    and k: "cache_ok k" "GetCoin k = GetCoin coins'"
  shows "\<exists>k'. DisconnectBlock E block (res_undo res) k = (Accept, k') \<and>
    GetCoin k' = GetCoin coins \<and> same_base k k'"
proof -
  let ?h = "hdr_height (blk_header block)" and ?txs = "blk_transactions block"
  from ConnectBlock_Inr [OF assms(1) conn] obtain b undo where ne: "?txs \<noteq> []"
    and c: "ConnectTxs E params ?h 0 ?txs (Over (cache_view coins), [], 0) = Inr (b, undo, res_total_fees res)"
    and res: "res_undo res = \<lparr>undo_transactions = undo\<rparr>" and len: "length undo + 1 = length ?txs"
    and g: "GetCoin coins' = GetCoin b" by metis
  have "GetCoin (Over (cache_view k)) = GetCoin b" using k(2) g by simp
  from DisconnectTxs_ConnectTxs [OF c cache_ok_simps(2) [OF assms(1)] cache_ok_simps(2) [OF k(1)] this,
      of "[]" "[]"]
  obtain d where d: "DisconnectTxs E ?h ?txs undo (length ?txs) (Over (cache_view k)) = Inr d"
    "same_base (Over (cache_view k)) d" "GetCoin d = GetCoin coins" by auto
  from Flush_refines [OF k(1), of d] d(2,3)
  have "GetCoin (snd (Flush d k)) = GetCoin coins" "cache_ok (snd (Flush d k))"
    by (simp_all add: same_base_def cache_ok_def)
  with ne len d(1) show ?thesis
    by (cases ?txs) (simp_all add: DisconnectBlock_def res same_base_def Flush_base)
qed

section \<open>Properties\<close>

text \<open>
  Undo records have one encoding: a buffer decodes to one exactly when it is within
  the network's limits and the buffer is what the serializer writes for it.
\<close>

theorem undo_roundtrip:
  "decode_all (BlockUndo_Deserialize params) bs = Some undo \<longleftrightarrow>
     BlockUndo_valid params undo \<and> bs = BlockUndo_Serialize undo []"
  by (rule blockundo.decode_all_iff)

text \<open>
  Property C15. Disconnecting a block with the undo record its connection wrote always succeeds
  and restores the coins exactly: on any well-formed cache that holds what connecting left, the
  result holds what was there before the block, over the same base.
\<close>

theorem disconnect_undoes_connect:
  assumes "cache_ok coins" and "ConnectBlock E block coins params = (Inr res, coins')"
    and "cache_ok k" and "GetCoin k = GetCoin coins'"
  shows "\<exists>k'. DisconnectBlock E block (res_undo res) k = (Accept, k') \<and>
    GetCoin k' = GetCoin coins \<and> cache_ok k' \<and> cache_base k' = cache_base k"
  using DisconnectBlock_ConnectBlock [OF assms] by (auto simp: same_base_def)

definition example_output :: tx_output where
  "example_output = \<lparr>out_amount = 2, out_lock = \<lparr>lock_version = 2, lock_program = []\<rparr>\<rparr>"

definition example_coinbase :: transaction where
  "example_coinbase =
     \<lparr>tx_version = 1, tx_inputs = [MakeCoinbaseInput 1], tx_outputs = [example_output],
      tx_locktime = 0, tx_witnesses = [], tx_coinbase_data = []\<rparr>"

definition example_block :: block where
  "example_block =
     \<lparr>blk_header = \<lparr>hdr_version = 1, hdr_height = 1, hdr_prev_block = Hash256_zero,
        hdr_merkle_root = Hash256_zero, hdr_timestamp = 1000, hdr_target_bits = 0x207FFFFF, hdr_nonce = 0\<rparr>,
      blk_transactions = [example_coinbase, example_spend]\<rparr>"

definition example_coins :: coins_cache where
  "example_coins = Write example_outpoint (Some example_coin) (Over EmptyCoinsView)"

lemma example_checks:
  "CheckTransactionInputs example_crypto example_spend [example_coin] 1 REGTEST_PARAMS = Inr 2"
  using example_spend_not_coinbase CheckSpendAuthorisation_Accept [OF tx_ok_signatures [OF example_spend_ok]]
  by (simp add: CheckTransactionInputs_Inr TransactionFee_Inr)
    (simp add: example_spend_def example_coin_def coin_mature_def input_authorised_def IsValidAmount_def
      MAX_MONEY_def)

lemma example_coinbase_simps:
  "IsCoinbase example_coinbase" "tx_outputs example_coinbase = [example_output]" "IsStored example_output"
  by (simp_all add: example_coinbase_def IsCoinbase_def inputs_are_coinbase_def MakeCoinbaseInput_def
      is_null_outpoint_def IsZero_iff COINBASE_OUTPOINT_INDEX_def IsStored_def Lock_IsUnspendable_def
      LOCK_VERSION_UNSPENDABLE_def example_output_def)

text \<open>The example's transactions one after the other, and its reward.\<close>

lemma example_connect_coinbase:
  assumes "cache_ok b" and "GetCoin b (OutPointFor (Txid E example_coinbase) 0) = None"
  shows "ConnectTx E params 1 True example_coinbase (b, [], 0) =
    Inr (Write (OutPointFor (Txid E example_coinbase) 0) (Some (created_coin 1 True example_output)) b, [], 0)"
  using assms by (simp add: ConnectTx_def example_coinbase_simps cache_AddCoin)

lemma example_connect_spend:
  assumes "cache_ok b" and "GetCoin b example_outpoint = Some example_coin"
    and "GetCoin b (OutPointFor (Txid example_crypto example_spend) 1) = None"
  shows "\<exists>b'. ConnectTx example_crypto REGTEST_PARAMS 1 False example_spend (b, [], 0) =
    Inr (b', [\<lparr>undo_spent = [example_coin]\<rparr>], 2)"
proof -
  let ?p = "OutPointFor (Txid example_crypto example_spend) 1"
  have ne: "?p \<noteq> example_outpoint" by (simp add: OutPointFor_def example_outpoint_def)
  have i: "map in_outpoint (tx_inputs example_spend) = [example_outpoint]" "length (tx_inputs example_spend) = 1"
    by (simp_all add: example_spend_def example_outpoint_def)
  then obtain i where i: "tx_inputs example_spend = [i]" "in_outpoint i = example_outpoint"
    by (cases "tx_inputs example_spend") auto
  obtain o1 o2 where o: "tx_outputs example_spend = [o1, o2]" "\<not> IsStored o1" "IsStored o2"
    by (simp add: example_spend_def IsStored_def Lock_IsUnspendable_def LOCK_VERSION_UNSPENDABLE_def)
  show ?thesis
    using assms i o ne example_spend_not_coinbase example_checks
    by (simp add: ConnectTx_def cache_SpendCoin cache_AddCoin TryAccumulate_def IsValidAmount_def MAX_MONEY_def i64_ok_def)
qed

lemma example_reward: "CheckCoinbaseAmount example_block 2 REGTEST_PARAMS = Accept"
proof -
  have ok: "issuance_ok (issuance REGTEST_PARAMS)" using networks_issuance_ok [of Regtest] by simp
  show ?thesis
    using BlockReward_bounds [OF ok, of 1]
    by (simp add: CheckCoinbaseAmount_Accept [OF ok] example_block_def example_coinbase_simps)
      (simp add: example_output_def IsValidAmount_def MAX_MONEY_def)
qed

lemma example_connects:
  "\<exists>res coins'. ConnectBlock example_crypto example_block example_coins REGTEST_PARAMS = (Inr res, coins')"
proof -
  let ?E = example_crypto and ?b = "Over (cache_view example_coins)"
  let ?o = "OutPointFor (Txid ?E example_coinbase) 0" and ?p = "OutPointFor (Txid ?E example_spend) 1"
  let ?b1 = "Write ?o (Some (created_coin 1 True example_output)) ?b"
  have ok: "cache_ok ?b" by (simp add: example_coins_def)
  have g: "GetCoin ?b = [example_outpoint \<mapsto> example_coin]"
    by (simp add: example_coins_def)
  have ne: "?o \<noteq> example_outpoint" "?p \<noteq> ?o" "?p \<noteq> example_outpoint"
    by (simp_all add: OutPointFor_def example_outpoint_def)
  have 1: "ConnectTx ?E REGTEST_PARAMS 1 True example_coinbase (?b, [], 0) = Inr (?b1, [], 0)"
    using ne ok g by (intro example_connect_coinbase) simp_all
  have "\<exists>b'. ConnectTx ?E REGTEST_PARAMS 1 False example_spend (?b1, [], 0) =
      Inr (b', [\<lparr>undo_spent = [example_coin]\<rparr>], 2)"
    using ne ok g by (intro example_connect_spend) (simp_all del: GetCoin_Over_cache)
  with 1 obtain b' where "ConnectTxs ?E REGTEST_PARAMS 1 0 [example_coinbase, example_spend] (?b, [], 0) =
      Inr (b', [\<lparr>undo_spent = [example_coin]\<rparr>], 2)" by auto
  with example_reward show ?thesis
    by (simp add: ConnectBlock_def example_coinbase_simps) (simp add: example_block_def example_coinbase_simps)
qed

theorem disconnect_undoes_connect_witness:
  "\<exists>res k k'. ConnectBlock example_crypto example_block example_coins REGTEST_PARAMS = (Inr res, k) \<and>
     DisconnectBlock example_crypto example_block (res_undo res) k = (Accept, k') \<and>
     GetCoin k' example_outpoint = Some example_coin"
proof -
  obtain res k where c: "ConnectBlock example_crypto example_block example_coins REGTEST_PARAMS = (Inr res, k)"
    using example_connects by blast
  have ok: "cache_ok example_coins" by (simp add: example_coins_def)
  have "cache_ok k" using ConnectBlock_Inr [OF ok c] by (metis same_base_ok)
  from disconnect_undoes_connect [OF ok c this refl] c show ?thesis
    by (auto simp: example_coins_def)
qed

end
