(* ===== verification/Supply.thy ===== *)
theory Supply
  imports Connect
begin

text \<open>
  What connecting blocks means. First the abstract specification: the same block processing on
  a partial map from outpoints to coins, with no caches, batches or flushes, and the proof that
  \<^verbatim>\<open>ConnectBlock\<close> of \<^verbatim>\<open>src/utxo/connect.cpp\<close> refines it. Then the value of the set: a connected
  block adds at most its scheduled reward. Last, a step relation in which blocks are connected,
  refused and disconnected in any order: the coins are always those of replaying the blocks now
  applied, and their value is at most what the schedule issues.
\<close>

type_synonym utxo = "outpoint \<rightharpoonup> coin"

section \<open>The abstract specification\<close>

fun spend_all :: "tx_input list \<Rightarrow> utxo \<Rightarrow> validation_error + coin list \<times> utxo" where
  "spend_all [] m = Inr ([], m)"
| "spend_all (i # is) m =
     (case m (in_outpoint i) of
        None \<Rightarrow> Reject TxInputMissingOrSpent
      | Some c \<Rightarrow> try_then (spend_all is (m(in_outpoint i := None))) (\<lambda>(cs, m'). Inr (c # cs, m')))"

fun add_all :: "(outpoint \<times> coin) list \<Rightarrow> utxo \<Rightarrow> validation_error + utxo" where
  "add_all [] m = Inr m"
| "add_all ((o', c) # l) m =
     (if m o' = None then add_all l (m(o' \<mapsto> c)) else Reject TxCreatesExistingOutpoint)"

definition connect_tx ::
  "crypto_ext \<Rightarrow> chain_params \<Rightarrow> u32 \<Rightarrow> bool \<Rightarrow> transaction \<Rightarrow> utxo \<times> tx_undo list \<times> i64 \<Rightarrow>
     validation_error + utxo \<times> tx_undo list \<times> i64"
where
  "connect_tx E params h cb tx = (\<lambda>(m, undo, fees).
     if IsCoinbase tx \<noteq> cb then Reject BlockMultipleCoinbases
     else
       try_then
        (if cb then Inr (m, undo, fees)
         else
           try_then (spend_all (tx_inputs tx) m) (\<lambda>(spent, m').
           try_then (CheckTransactionInputs E tx spent h params) (\<lambda>fee.
             if \<not> i64_ok (fees + fee) \<or> \<not> IsValidAmount (fees + fee) then Reject BlockFeesOutOfRange
             else Inr (m', undo @ [\<lparr>undo_spent = spent\<rparr>], fees + fee))))
        (\<lambda>(m', undo', fees').
           try_then (add_all (created_coins (Txid E tx) h cb 0 (tx_outputs tx)) m') (\<lambda>m''.
             Inr (m'', undo', fees'))))"

fun connect_txs ::
  "crypto_ext \<Rightarrow> chain_params \<Rightarrow> u32 \<Rightarrow> nat \<Rightarrow> transaction list \<Rightarrow> utxo \<times> tx_undo list \<times> i64 \<Rightarrow>
     validation_error + utxo \<times> tx_undo list \<times> i64"
where
  "connect_txs E params h i [] s = Inr s"
| "connect_txs E params h i (tx # txs) s =
     try_then (connect_tx E params h (i = 0) tx s) (connect_txs E params h (Suc i) txs)"

definition connect_spec ::
  "crypto_ext \<Rightarrow> chain_params \<Rightarrow> block \<Rightarrow> utxo \<Rightarrow> validation_error + connect_result \<times> utxo" where
  "connect_spec E params block m =
     (if blk_transactions block = [] then Reject BlockNoTransactions
      else if \<not> IsCoinbase (hd (blk_transactions block)) then Reject BlockFirstTxNotCoinbase
      else
        try_then (connect_txs E params (hdr_height (blk_header block)) 0 (blk_transactions block) (m, [], 0))
          (\<lambda>(m', undo, fees).
        try_then (CheckCoinbaseAmount block fees params) (\<lambda>_.
          Inr (\<lparr>res_undo = \<lparr>undo_transactions = undo\<rparr>, res_total_fees = fees\<rparr>, m'))))"

section \<open>Refinement\<close>

lemma map_sum_try: "map_sum id f (try_then x k) = try_then x (\<lambda>y. map_sum id f (k y))"
  by (cases x) simp_all

lemma try_map_sum: "try_then (map_sum id f x) k = try_then x (\<lambda>y. k (f y))"
  by (cases x) simp_all

lemma try_cong: "x = y \<Longrightarrow> (\<And>v. y = Inr v \<Longrightarrow> k v = l v) \<Longrightarrow> try_then x k = try_then y l"
  by (cases y) simp_all

lemma SpendInputs_refines:
  "cache_ok b \<Longrightarrow> map_sum id (map_prod id GetCoin) (SpendInputs ins b) = spend_all ins (GetCoin b)"
proof (induction ins arbitrary: b)
  case Nil
  then show ?case by simp
next
  case (Cons i ins)
  let ?o = "in_outpoint i"
  show ?case
  proof (cases "GetCoin b ?o")
    case None
    then show ?thesis using Cons.prems by (simp add: cache_SpendCoin)
  next
    case (Some c)
    have "spend_all ins ((GetCoin b)(?o := None)) =
        map_sum id (map_prod id GetCoin) (SpendInputs ins (Write ?o None b))"
      using Cons.IH [of "Write ?o None b"] Cons.prems by (simp only: cache_ok_simps cache_Write)
    then show ?thesis
      using Some Cons.prems
      by (cases "SpendInputs ins (Write ?o None b)") (auto simp: cache_SpendCoin)
  qed
qed

lemma AddOutputs_refines:
  "cache_ok b \<Longrightarrow> map_sum id GetCoin (AddOutputs txid h cb i outs b) =
     add_all (created_coins txid h cb i outs) (GetCoin b)"
proof (induction outs arbitrary: b i)
  case Nil
  then show ?case by simp
next
  case (Cons out outs)
  let ?o = "OutPointFor txid i" and ?c = "created_coin h cb out"
  have "map_sum id GetCoin (AddOutputs txid h cb (Suc i) outs (Write ?o (Some ?c) b)) =
      add_all (created_coins txid h cb (Suc i) outs) ((GetCoin b)(?o \<mapsto> ?c))"
    using Cons.IH [of "Write ?o (Some ?c) b" "Suc i"] Cons.prems by (simp only: cache_ok_simps cache_Write)
  then show ?case
    using Cons by (cases "GetCoin b ?o") (auto simp: cache_AddCoin)
qed

abbreviation abs3 :: "coins_cache \<times> 'a \<Rightarrow> utxo \<times> 'a" where
  "abs3 \<equiv> map_prod GetCoin id"

lemma ConnectTx_refines:
  assumes "cache_ok b"
  shows "map_sum id abs3 (ConnectTx E params h cb tx (b, undo, fees)) =
    connect_tx E params h cb tx (GetCoin b, undo, fees)"
proof -
  have add: "map_sum id abs3 (try_then (AddOutputs (Txid E tx) h cb 0 (tx_outputs tx) b') (\<lambda>b''. Inr (b'', u, f))) =
      try_then (add_all (created_coins (Txid E tx) h cb 0 (tx_outputs tx)) (GetCoin b')) (\<lambda>m. Inr (m, u, f))"
    if "cache_ok b'" for b' u f
    using AddOutputs_refines [OF that, symmetric] by (simp add: map_sum_try try_map_sum)
  show ?thesis
  proof (cases "IsCoinbase tx \<noteq> cb \<or> cb")
    case True
    then show ?thesis using add [OF assms] by (auto simp: ConnectTx_def connect_tx_def)
  next
    case False
    have s: "spend_all (tx_inputs tx) (GetCoin b) = map_sum id (map_prod id GetCoin) (SpendInputs (tx_inputs tx) b)"
      using SpendInputs_refines [OF assms] by simp
    show ?thesis
    proof (cases "SpendInputs (tx_inputs tx) b")
      case (Inl e)
      with False s show ?thesis by (simp add: ConnectTx_def connect_tx_def)
    next
      case (Inr p)
      obtain spent b' where p: "p = (spent, b')" by (cases p)
      with Inr SpendInputs_Inr [of "tx_inputs tx" b spent b'] assms have "cache_ok b'"
        by (simp add: same_base_def)
      then show ?thesis
        using False s Inr p add
        by (cases "CheckTransactionInputs E tx spent h params")
          (auto simp: ConnectTx_def connect_tx_def TryAccumulate_def)
    qed
  qed
qed

lemma ConnectTxs_refines:
  assumes "cache_ok b"
  shows "map_sum id abs3 (ConnectTxs E params h i txs (b, undo, fees)) =
    connect_txs E params h i txs (GetCoin b, undo, fees)"
  using assms
proof (induction txs arbitrary: i b undo fees)
  case Nil
  then show ?case by simp
next
  case (Cons tx txs)
  show ?case
  proof (cases "ConnectTx E params h (i = 0) tx (b, undo, fees)")
    case (Inl e)
    with ConnectTx_refines [OF Cons.prems, of E params h "i = 0" tx undo fees, symmetric] show ?thesis by simp
  next
    case (Inr s)
    obtain b' undo' fees' where s: "s = (b', undo', fees')" by (cases s)
    from Inr ConnectTx_Inr [OF _ Cons.prems] s have "cache_ok b'" by (metis same_base_ok)
    from Cons.IH [OF this] Inr s ConnectTx_refines [OF Cons.prems, of E params h "i = 0" tx undo fees, symmetric]
    show ?thesis by simp
  qed
qed

text \<open>Connecting a block to a cache is connecting it to the map the cache denotes.\<close>

lemma ConnectBlock_refines:
  assumes "cache_ok coins"
  shows "case ConnectBlock E block coins params of
      (Inl e, coins') \<Rightarrow> connect_spec E params block (GetCoin coins) = Inl e \<and> coins' = coins
    | (Inr res, coins') \<Rightarrow> connect_spec E params block (GetCoin coins) = Inr (res, GetCoin coins') \<and>
        same_base coins coins'"
proof -
  let ?h = "hdr_height (blk_header block)" and ?txs = "blk_transactions block"
  let ?c = "ConnectTxs E params ?h 0 ?txs (Over (cache_view coins), [], 0)"
  have r: "connect_txs E params ?h 0 ?txs (GetCoin coins, [], 0) = map_sum id abs3 ?c"
    using ConnectTxs_refines [OF cache_ok_simps(2) [OF assms], of E params ?h 0 ?txs "[]" 0] by simp
  show ?thesis
  proof (cases "fst (ConnectBlock E block coins params)")
    case (Inl e)
    then show ?thesis
      by (cases ?c) (auto simp: ConnectBlock_def connect_spec_def r split: if_splits sum.splits prod.splits)
  next
    case (Inr res)
    then obtain coins' where c: "ConnectBlock E block coins params = (Inr res, coins')"
      by (cases "ConnectBlock E block coins params") auto
    from ConnectBlock_Inr [OF assms c] obtain b undo where *: "?txs \<noteq> []" "IsCoinbase (hd ?txs)"
      "?c = Inr (b, undo, res_total_fees res)" "CheckCoinbaseAmount block (res_total_fees res) params = Accept"
      "res_undo res = \<lparr>undo_transactions = undo\<rparr>" "GetCoin coins' = GetCoin b" "same_base coins coins'" by metis
    then have "connect_spec E params block (GetCoin coins) = Inr (res, GetCoin coins')"
      by (simp add: connect_spec_def r)
    with c * show ?thesis by simp
  qed
qed


section \<open>The value of the set\<close>

abbreviation coin_value :: "coin \<Rightarrow> int" where
  "coin_value c \<equiv> out_amount (coin_output c)"

definition utxo_value :: "utxo \<Rightarrow> int" where
  "utxo_value m = (\<Sum>o' \<in> dom m. coin_value (the (m o')))"

lemma finite_without: "finite (dom m) \<Longrightarrow> finite (dom (without os m))"
  by (rule finite_subset [of _ "dom m"]) (auto simp: without_def split: if_splits)

lemma utxo_value_without:
  assumes "finite (dom m)" and "distinct os" and "map m os = map Some cs"
  shows "utxo_value (without os m) = utxo_value m - (\<Sum>c \<leftarrow> cs. coin_value c)"
proof -
  let ?v = "\<lambda>o'. coin_value (the (m o'))"
  have sub: "set os \<subseteq> dom m"
  proof
    fix o' assume "o' \<in> set os"
    then have "m o' \<in> set (map Some cs)" unfolding assms(3) [symmetric] by simp
    then show "o' \<in> dom m" by auto
  qed
  have d: "dom (without os m) = dom m - set os" by (auto simp: without_def split: if_splits)
  have "cs = map (\<lambda>o'. the (m o')) os"
    using arg_cong [OF assms(3), of "map the"] by (simp add: comp_def)
  then have "(\<Sum>c \<leftarrow> cs. coin_value c) = (\<Sum>o' \<leftarrow> os. ?v o')" by (simp add: comp_def)
  also have "\<dots> = sum ?v (set os)" using assms(2) by (simp add: sum_list_distinct_conv_sum_set)
  finally have s: "(\<Sum>c \<leftarrow> cs. coin_value c) = sum ?v (set os)" .
  have "utxo_value (without os m) = sum ?v (dom m - set os)"
    unfolding utxo_value_def d by (intro sum.cong) (auto simp: without_def)
  also have "\<dots> = sum ?v (dom m) - sum ?v (set os)" using assms(1) sub by (rule sum_diff)
  finally show ?thesis unfolding s utxo_value_def .
qed

lemma utxo_value_added:
  assumes "finite (dom m)" and "distinct (map fst l)" and "\<forall>o' \<in> set (map fst l). m o' = None"
  shows "utxo_value (m ++ map_of l) = utxo_value m + (\<Sum>(o', c) \<leftarrow> l. coin_value c)"
  using assms(2,3)
proof (induction l)
  case Nil
  then show ?case by simp
next
  case (Cons p l)
  obtain o' c where p: "p = (o', c)" by (cases p)
  let ?n = "m ++ map_of l"
  have fresh: "o' \<notin> dom ?n"
    using Cons.prems p by (auto simp: map_of_eq_None_iff dom_map_of_conv_image_fst image_iff)
  have fin: "finite (dom ?n)" using assms(1) by (simp add: finite_dom_map_of)
  have n: "m ++ map_of (p # l) = ?n(o' \<mapsto> c)" by (simp add: p)
  have "utxo_value (?n(o' \<mapsto> c)) = coin_value c + utxo_value ?n"
    unfolding utxo_value_def using fresh fin by (auto intro!: sum.cong)
  moreover have "utxo_value ?n = utxo_value m + (\<Sum>(o', c) \<leftarrow> l. coin_value c)"
    using Cons by simp
  ultimately show ?case unfolding n by (simp only: p list.map sum_list.Cons prod.case)
qed

text \<open>Outputs that are not stored only lose value.\<close>

lemma created_value:
  assumes "\<forall>out \<in> set outs. 0 \<le> out_amount out"
  shows "(\<Sum>(o', c) \<leftarrow> created_coins txid h cb i outs. coin_value c) \<le> (\<Sum>out \<leftarrow> outs. out_amount out)"
  using assms
proof (induction outs arbitrary: i)
  case (Cons out outs)
  from Cons.IH [of "Suc i"] Cons.prems show ?case by (simp add: created_coin_def)
qed simp

lemma IsValidAmount_nonneg: "IsValidAmount x \<Longrightarrow> 0 \<le> x"
  by (simp add: IsValidAmount_def)

definition outputs_value :: "transaction \<Rightarrow> int" where
  "outputs_value tx = (\<Sum>out \<leftarrow> tx_outputs tx. out_amount out)"

text \<open>One transaction: what it adds to the set and to the fees is at most what a coinbase creates.\<close>

lemma ConnectTx_value:
  assumes "ConnectTx E params h cb tx (b, undo, fees) = Inr (b', undo', fees')" and "cache_ok b"
    and fin: "finite (dom (GetCoin b))"
    and nonneg: "cb \<Longrightarrow> \<forall>out \<in> set (tx_outputs tx). 0 \<le> out_amount out"
  shows "finite (dom (GetCoin b')) \<and>
    utxo_value (GetCoin b') + fees' \<le>
      utxo_value (GetCoin b) + fees + (if cb then outputs_value tx else 0)"
proof -
  let ?l = "created_coins (Txid E tx) h cb 0 (tx_outputs tx)"
  let ?os = "if cb then [] else outpoints_of (tx_inputs tx)"
  let ?m = "without ?os (GetCoin b)"
  from ConnectTx_Inr [OF assms(1,2)] obtain spent where
    c: "cb \<Longrightarrow> fees' = fees \<and> spent = []"
      "\<not> cb \<Longrightarrow> distinct (outpoints_of (tx_inputs tx)) \<and>
       map (GetCoin b) (outpoints_of (tx_inputs tx)) = map Some spent \<and>
       (\<exists>fee. CheckTransactionInputs E tx spent h params = Inr fee \<and> fees' = fees + fee)"
    and d: "distinct (map fst ?l)" "\<forall>o' \<in> set (map fst ?l). ?m o' = None"
      "GetCoin b' = ?m ++ map_of ?l" by metis
  have m: "finite (dom ?m)" by (rule finite_without [OF fin])
  have "distinct ?os" "map (GetCoin b) ?os = map Some spent" using c by (auto split: if_splits)
  from utxo_value_without [OF fin this] have "utxo_value ?m = utxo_value (GetCoin b) - (\<Sum>c \<leftarrow> spent. coin_value c)" .
  moreover have "utxo_value (GetCoin b') = utxo_value ?m + (\<Sum>(o', c) \<leftarrow> ?l. coin_value c)"
    unfolding d(3) by (rule utxo_value_added [OF m d(1,2)])
  moreover have pos: "\<forall>out \<in> set (tx_outputs tx). 0 \<le> out_amount out"
    using nonneg c(2) by (cases cb) (auto simp: CheckTransactionInputs_Inr TransactionFee_Inr IsValidAmount_nonneg)
  moreover note created_value [OF pos, of "Txid E tx" h cb 0]
  moreover have "fees' - fees = (\<Sum>c \<leftarrow> spent. coin_value c) - (if cb then 0 else outputs_value tx)"
    using c by (cases cb) (auto simp: CheckTransactionInputs_Inr TransactionFee_Inr outputs_value_def)
  moreover have "finite (dom (GetCoin b'))" using m by (simp add: d(3) finite_dom_map_of)
  ultimately show ?thesis by (cases cb) (simp_all add: outputs_value_def)
qed

lemma ConnectTxs_value:
  assumes "ConnectTxs E params h 0 txs (b, [], 0) = Inr (b', undo, fees)" and "cache_ok b"
    and "finite (dom (GetCoin b))" and "txs \<noteq> []"
    and "\<forall>out \<in> set (tx_outputs (hd txs)). 0 \<le> out_amount out"
  shows "finite (dom (GetCoin b')) \<and>
    utxo_value (GetCoin b') + fees \<le> utxo_value (GetCoin b) + outputs_value (hd txs)"
  using assms(4,1,5)
proof (induction txs arbitrary: b' undo fees rule: rev_nonempty_induct)
  case (single tx)
  from single.prems(1) have "ConnectTx E params h True tx (b, [], 0) = Inr (b', undo, fees)"
    by (simp add: verdict_simps)
  from ConnectTx_value [OF this assms(2,3)] single.prems show ?case by simp
next
  case (snoc tx txs)
  from snoc.prems(1) snoc.hyps obtain b1 undo1 fees1 where
    init: "ConnectTxs E params h 0 txs (b, [], 0) = Inr (b1, undo1, fees1)"
    and last: "ConnectTx E params h False tx (b1, undo1, fees1) = Inr (b', undo, fees)"
    by (auto simp: ConnectTxs_append verdict_simps)
  have IH: "finite (dom (GetCoin b1))"
    "utxo_value (GetCoin b1) + fees1 \<le> utxo_value (GetCoin b) + outputs_value (hd txs)"
    using snoc.IH [OF init] snoc.prems(2) snoc.hyps by simp_all
  from ConnectTx_value [OF last _ IH(1)] ConnectTxs_shape [OF init assms(2)] IH(2) snoc.hyps
  show ?case by (simp add: same_base_def)
qed

text \<open>A connected block adds at most its scheduled reward to the value of the set.\<close>

lemma ConnectBlock_value:
  assumes "cache_ok coins" and "ConnectBlock E block coins params = (Inr res, coins')"
    and "finite (dom (GetCoin coins))" and "issuance_ok (issuance params)"
  shows "finite (dom (GetCoin coins')) \<and>
    utxo_value (GetCoin coins') \<le>
      utxo_value (GetCoin coins) + BlockReward (hdr_height (blk_header block)) (issuance params)"
proof -
  let ?txs = "blk_transactions block" and ?h = "hdr_height (blk_header block)"
  from ConnectBlock_Inr [OF assms(1,2)] obtain b undo where ne: "?txs \<noteq> []"
    and conn: "ConnectTxs E params ?h 0 ?txs (Over (cache_view coins), [], 0) = Inr (b, undo, res_total_fees res)"
    and amt: "CheckCoinbaseAmount block (res_total_fees res) params = Accept"
    and g: "GetCoin coins' = GetCoin b" by metis
  from amt [unfolded CheckCoinbaseAmount_Accept [OF assms(4)]] obtain cb txs where
    cb: "?txs = cb # txs" "\<forall>out \<in> set (tx_outputs cb). 0 \<le> out_amount out"
    "outputs_value cb \<le> BlockReward ?h (issuance params) + res_total_fees res"
    by (auto simp: outputs_value_def IsValidAmount_nonneg)
  from ConnectTxs_value [OF conn cache_ok_simps(2) [OF assms(1)] _ ne] cb assms(3)
  show ?thesis unfolding g by simp
qed

section \<open>A ledger\<close>

text \<open>
  The blocks applied above genesis, newest first, each with the undo record its connection
  wrote, and the coins. A step connects a block to the tip, has one refused, disconnects the
  tip, has a disconnection refused, or moves the coins between cache and storage, which keeps
  what they denote.
\<close>

type_synonym applied = "(block \<times> block_undo) list"

inductive ledger_step ::
  "crypto_ext \<Rightarrow> chain_params \<Rightarrow> applied \<times> coins_cache \<Rightarrow> applied \<times> coins_cache \<Rightarrow> bool"
  for E params
where
  connect:
    "ConnectBlock E block coins params = (Inr res, coins') \<Longrightarrow>
     unat (hdr_height (blk_header block)) = Suc (length bs) \<Longrightarrow>
     ledger_step E params (bs, coins) ((block, res_undo res) # bs, coins')"
| refuse:
    "ConnectBlock E block coins params = (Inl e, coins') \<Longrightarrow>
     ledger_step E params (bs, coins) (bs, coins')"
| disconnect:
    "DisconnectBlock E block undo coins = (Inr u, coins') \<Longrightarrow>
     ledger_step E params ((block, undo) # bs, coins) (bs, coins')"
| keep:
    "DisconnectBlock E block undo coins = (Inl e, coins') \<Longrightarrow>
     ledger_step E params (bs, coins) (bs, coins')"
| store:
    "cache_ok coins' \<Longrightarrow> GetCoin coins' = GetCoin coins \<Longrightarrow>
     ledger_step E params (bs, coins) (bs, coins')"

inductive_cases ledger_stepE: "ledger_step E params (bs, coins) s'"

definition ledger_start :: "applied \<times> coins_cache \<Rightarrow> bool" where
  "ledger_start = (\<lambda>(bs, coins). bs = [] \<and> cache_ok coins \<and> GetCoin coins = Map.empty)"

text \<open>The coins of a chain of blocks, by replaying it from nothing on the specification.\<close>

primrec replay :: "crypto_ext \<Rightarrow> chain_params \<Rightarrow> applied \<Rightarrow> utxo option" where
  "replay E params [] = Some Map.empty"
| "replay E params (b # bs) =
     Option.bind (replay E params bs) (\<lambda>m.
       case connect_spec E params (fst b) m of
         Inl e \<Rightarrow> None
       | Inr (res, m') \<Rightarrow>
           if res_undo res = snd b \<and> unat (hdr_height (blk_header (fst b))) = Suc (length bs)
           then Some m' else None)"

definition ledger_ok :: "crypto_ext \<Rightarrow> chain_params \<Rightarrow> applied \<times> coins_cache \<Rightarrow> bool" where
  "ledger_ok E params = (\<lambda>(bs, coins). cache_ok coins \<and> replay E params bs = Some (GetCoin coins))"

text \<open>Every map is denoted by a cache, so facts of \<^const>\<open>ConnectBlock\<close> carry over to the specification.\<close>

definition map_view :: "utxo \<Rightarrow> coins_view" where
  "map_view m = \<lparr>view_GetCoin = m, view_HaveCoin = (\<lambda>o'. m o' \<noteq> None)\<rparr>"

interpretation map_view: lawful_view "map_view m" for m
  by unfold_locales (simp add: map_view_def)

lemma map_view_cache: "cache_ok (Over (map_view m))" "GetCoin (Over (map_view m)) = m"
  using map_view.lawful_view_axioms [of m] map_view.GetCoin_Over [of m]
  by (simp_all add: cache_ok_def) (simp add: map_view_def)

lemma connect_spec_concrete:
  assumes "connect_spec E params block m = Inr (res, m')"
  obtains coins' where "ConnectBlock E block (Over (map_view m)) params = (Inr res, coins')"
    "GetCoin coins' = m'" "cache_ok coins'"
  using ConnectBlock_refines [OF map_view_cache(1), of E params block m] assms that
  by (auto simp: map_view_cache same_base_def split: prod.splits sum.splits)

lemma ConnectBlock_Inl_keeps:
  "ConnectBlock E block coins params = (Inl e, coins') \<Longrightarrow> coins' = coins"
  by (auto simp: ConnectBlock_def split: if_splits sum.splits prod.splits)

lemma DisconnectBlock_Inl_keeps:
  "DisconnectBlock E block undo coins = (Inl e, coins') \<Longrightarrow> coins' = coins"
  by (auto simp: DisconnectBlock_def split: if_splits sum.splits)

lemma replay_ConsD:
  assumes "replay E params ((block, undo) # bs) = Some m'"
  obtains m res where "replay E params bs = Some m" "connect_spec E params block m = Inr (res, m')"
    "res_undo res = undo" "unat (hdr_height (blk_header block)) = Suc (length bs)"
  using assms
  by (cases "replay E params bs"; cases "connect_spec E params block (the (replay E params bs))")
    (auto split: if_splits)

text \<open>Disconnecting the tip of a replayed chain gives the coins of the chain below.\<close>

lemma ledger_disconnect:
  assumes "ledger_ok E params ((block, undo) # bs, coins)"
  shows "\<exists>coins'. DisconnectBlock E block undo coins = (Accept, coins') \<and>
    ledger_ok E params (bs, coins') \<and> same_base coins coins'"
proof -
  from assms obtain m res where m: "replay E params bs = Some m"
    and c: "connect_spec E params block m = Inr (res, GetCoin coins)" and u: "res_undo res = undo"
    and k: "cache_ok coins"
    unfolding ledger_ok_def prod.case by (metis replay_ConsD)
  from connect_spec_concrete [OF c] obtain k' where
    k': "ConnectBlock E block (Over (map_view m)) params = (Inr res, k')" "GetCoin k' = GetCoin coins" by metis
  from DisconnectBlock_ConnectBlock [OF map_view_cache(1) k'(1) k] k'(2) u m show ?thesis
    by (auto simp: ledger_ok_def map_view_cache same_base_def)
qed

lemma ledger_connect:
  assumes "ledger_ok E params (bs, coins)" and "ConnectBlock E block coins params = (Inr res, coins')"
    and "unat (hdr_height (blk_header block)) = Suc (length bs)"
  shows "ledger_ok E params ((block, res_undo res) # bs, coins')"
  using ConnectBlock_refines [of coins E params block] assms by (auto simp: ledger_ok_def same_base_def)

lemma ledger_step_ok:
  assumes "ledger_step E params s s'" and "ledger_ok E params s"
  shows "ledger_ok E params s'"
  using assms
proof cases
  case (connect block coins res coins' bs)
  then show ?thesis using assms(2) ledger_connect by blast
next
  case (refuse block coins e coins' bs)
  then show ?thesis using assms(2) ConnectBlock_Inl_keeps by blast
next
  case (disconnect block undo coins u coins' bs)
  then show ?thesis using ledger_disconnect [of E params block undo bs coins] assms(2) by auto
next
  case (keep block undo coins e coins' bs)
  then show ?thesis using assms(2) DisconnectBlock_Inl_keeps by blast
next
  case (store coins' coins bs)
  then show ?thesis using assms(2) by (simp add: ledger_ok_def)
qed

lemma ledger_reachable_ok:
  assumes "(ledger_step E params)\<^sup>*\<^sup>* s s'" and "ledger_start s"
  shows "ledger_ok E params s'"
  using assms
proof (induction rule: rtranclp_induct)
  case base
  then show ?case by (auto simp: ledger_start_def ledger_ok_def)
next
  case (step s' s'')
  then show ?case by (blast intro: ledger_step_ok)
qed

text \<open>The schedule bounds the value of any replayed chain.\<close>

lemma replay_value:
  assumes "replay E params bs = Some m" and "issuance_ok (issuance params)"
  shows "finite (dom m) \<and> length bs < 2 ^ 32 \<and>
    utxo_value m \<le> (\<Sum>h \<in> {1..<Suc (length bs)}. BlockReward (of_nat h) (issuance params))"
  using assms(1)
proof (induction bs arbitrary: m)
  case Nil
  then show ?case by (auto simp: utxo_value_def)
next
  case (Cons b bs)
  obtain block undo where b: "b = (block, undo)" by (cases b)
  let ?h = "hdr_height (blk_header block)"
  from Cons.prems b obtain m0 res where m0: "replay E params bs = Some m0"
    and c: "connect_spec E params block m0 = Inr (res, m)" and h: "unat ?h = Suc (length bs)"
    by (metis replay_ConsD)
  from connect_spec_concrete [OF c] obtain k where
    k: "ConnectBlock E block (Over (map_view m0)) params = (Inr res, k)" "GetCoin k = m" by metis
  note IH = Cons.IH [OF m0]
  from ConnectBlock_value [OF map_view_cache(1) k(1) _ assms(2)] IH
  have "finite (dom m)" "utxo_value m \<le> utxo_value m0 + BlockReward ?h (issuance params)"
    by (simp_all add: map_view_cache k(2))
  moreover have "?h = of_nat (Suc (length bs))" using h [symmetric] by (simp only: of_nat_unat ucast_id)
  moreover have "Suc (length bs) < 2 ^ 32" using unsigned_less [of ?h, where ?'a = nat] h by simp
  ultimately show ?case using IH b by simp
qed

lemma replay_supply:
  assumes "replay E params bs = Some m" and "issuance_ok (issuance params)"
  shows "utxo_value m \<le> TotalIssuance (issuance params)"
proof -
  let ?r = "\<lambda>h. BlockReward (of_nat h) (issuance params)"
  note v = replay_value [OF assms]
  have "utxo_value m \<le> sum ?r {1..<Suc (length bs)}" using v by simp
  also have "\<dots> \<le> sum ?r {..<Suc (length bs)}"
    using BlockReward_bounds [OF assms(2)] by (intro sum_mono2) auto
  also have "\<dots> \<le> TotalIssuance (issuance params)" using v by (intro BlockReward_sum_le [OF assms(2)]) simp
  finally show ?thesis .
qed

section \<open>Properties\<close>

lemma networks_total: "TotalIssuance (issuance (ParamsFor n)) \<le> MAX_MONEY"
proof -
  have e: "era_blocks (issuance (ParamsFor n)) \<in> {105000, 1050, 105}"
    and r: "initial_reward (issuance (ParamsFor n)) = 100000000000"
    by (cases n; simp add: MAINNET_PARAMS_def TESTNET_PARAMS_def REGTEST_PARAMS_def MAINNET_ISSUANCE_def
        FACETS_PER_AMR_def)+
  have "(\<Sum>e < 179. era_reward 100000000000 e) = 799999999354"
    unfolding era_total_sum [symmetric] by code_simp
  with TotalIssuance_sum [OF networks_issuance_ok, of n 179] mainnet_eras r
  have "TotalIssuance (issuance (ParamsFor n)) = uint (era_blocks (issuance (ParamsFor n))) * 799999999354"
    by simp
  with e show ?thesis by (auto simp: MAX_MONEY_def)
qed

text \<open>A history for concrete inputs: a block is connected, and disconnected again.\<close>

definition example_block1 :: block where
  "example_block1 = example_block\<lparr>blk_transactions := [example_coinbase]\<rparr>"

lemma example_history:
  "\<exists>undo coins coins'. (ledger_step example_crypto (ParamsFor Regtest))\<^sup>*\<^sup>* ([], Over EmptyCoinsView)
     ([(example_block1, undo)], coins) \<and>
   (ledger_step example_crypto (ParamsFor Regtest))\<^sup>*\<^sup>* ([], Over EmptyCoinsView) ([], coins')"
proof -
  let ?E = example_crypto and ?p = REGTEST_PARAMS and ?k = "Over EmptyCoinsView"
  have ok: "issuance_ok (issuance ?p)" using networks_issuance_ok [of Regtest] by simp
  have r: "era_blocks (issuance ?p) = 105" "initial_reward (issuance ?p) = 100000000000"
    by (simp_all add: REGTEST_PARAMS_def MAINNET_ISSUANCE_def FACETS_PER_AMR_def)
  have "BlockReward 1 (issuance ?p) = 100000000000"
    by (simp add: BlockReward_def EraOfHeight_def r)
  then have a: "CheckCoinbaseAmount example_block1 0 ?p = Accept"
    by (simp add: CheckCoinbaseAmount_Accept [OF ok] example_block1_def example_block_def example_coinbase_simps)
      (simp add: example_output_def IsValidAmount_def MAX_MONEY_def)
  have g: "GetCoin (Over (cache_view ?k)) o' = None" for o' by simp
  have "\<exists>b. ConnectTxs ?E ?p 1 0 [example_coinbase] (Over (cache_view ?k), [], 0) = Inr (b, [], 0)"
    using example_connect_coinbase [OF _ g, of ?E ?p] by simp
  with a obtain res coins where c: "ConnectBlock ?E example_block1 ?k ?p = (Inr res, coins)"
    by (auto simp: ConnectBlock_def) (auto simp: example_block1_def example_block_def example_coinbase_simps)
  have h: "unat (hdr_height (blk_header example_block1)) = Suc (length [])"
    by (simp add: example_block1_def example_block_def)
  have s: "ledger_step ?E ?p ([], ?k) ([(example_block1, res_undo res)], coins)"
    using ledger_step.connect [OF c, of "[]"] h by simp
  have "ledger_ok ?E ?p ([(example_block1, res_undo res)], coins)"
    using ledger_step_ok [OF s] by (simp add: ledger_ok_def)
  from ledger_disconnect [OF this] obtain coins' where
    "DisconnectBlock ?E example_block1 (res_undo res) coins = (Accept, coins')" by blast
  from ledger_step.disconnect [OF this, of ?p "[]"] s
  have "(ledger_step ?E ?p)\<^sup>*\<^sup>* ([], ?k) ([], coins')" by (meson rtranclp.simps)
  with s show ?thesis by auto
qed

lemma example_start: "ledger_start ([], Over EmptyCoinsView)"
  by (simp add: ledger_start_def)

text \<open>
  Property C1. The supply is capped: however blocks are connected, refused, disconnected by
  reorganisations and moved to storage, on every network the coins that exist are finitely many
  and their amounts never sum to more than \<^verbatim>\<open>MAX_MONEY\<close>.
\<close>

theorem supply_capped:
  assumes "(ledger_step E (ParamsFor n))\<^sup>*\<^sup>* s (bs, coins)" and "ledger_start s"
  shows "finite (dom (GetCoin coins)) \<and> utxo_value (GetCoin coins) \<le> MAX_MONEY"
proof -
  from ledger_reachable_ok [OF assms] have r: "replay E (ParamsFor n) bs = Some (GetCoin coins)"
    by (simp add: ledger_ok_def)
  from replay_value [OF r networks_issuance_ok] replay_supply [OF r networks_issuance_ok] networks_total [of n]
  show ?thesis by simp
qed

theorem supply_capped_witness:
  "\<exists>undo coins. (ledger_step example_crypto (ParamsFor Regtest))\<^sup>*\<^sup>* ([], Over EmptyCoinsView)
     ([(example_block1, undo)], coins) \<and> utxo_value (GetCoin coins) \<le> MAX_MONEY"
  using example_history supply_capped [OF _ example_start] by blast

text \<open>
  Property C2. Reorganisations leave no trace: in every reachable state the coins are those of
  replaying the blocks now applied, oldest first, on the map specification; blocks that were
  refused, or connected and disconnected again, change nothing.
\<close>

theorem coins_are_replayed_chain:
  assumes "(ledger_step E params)\<^sup>*\<^sup>* s (bs, coins)" and "ledger_start s"
  shows "replay E params bs = Some (GetCoin coins) \<and> cache_ok coins"
  using ledger_reachable_ok [OF assms] by (simp add: ledger_ok_def)

theorem coins_are_replayed_chain_witness:
  "\<exists>coins'. (ledger_step example_crypto (ParamsFor Regtest))\<^sup>*\<^sup>* ([], Over EmptyCoinsView) ([], coins') \<and>
     GetCoin coins' = Map.empty"
proof -
  from example_history obtain coins' where
    h: "(ledger_step example_crypto (ParamsFor Regtest))\<^sup>*\<^sup>* ([], Over EmptyCoinsView) ([], coins')" by blast
  from coins_are_replayed_chain [OF h example_start] h show ?thesis by auto
qed

text \<open>
  Property C25. The tip can always be disconnected: in every reachable state with a block applied,
  reversing it with its undo record succeeds.
\<close>

theorem tip_can_be_disconnected:
  assumes "(ledger_step E params)\<^sup>*\<^sup>* s ((block, undo) # bs, coins)" and "ledger_start s"
  shows "\<exists>coins'. DisconnectBlock E block undo coins = (Accept, coins') \<and>
    replay E params bs = Some (GetCoin coins')"
  using ledger_disconnect [OF ledger_reachable_ok [OF assms]] by (auto simp: ledger_ok_def)

theorem tip_can_be_disconnected_witness:
  "\<exists>undo coins coins'. (ledger_step example_crypto (ParamsFor Regtest))\<^sup>*\<^sup>* ([], Over EmptyCoinsView)
     ([(example_block1, undo)], coins) \<and>
     DisconnectBlock example_crypto example_block1 undo coins = (Accept, coins')"
  using example_history tip_can_be_disconnected [OF _ example_start] by blast

text \<open>
  Property C16. Connecting a block to a cache refines connecting it to the map the cache denotes:
  the same error, with the cache untouched, or the same undo record and fees, with the cache
  denoting the map of the specification.
\<close>

theorem connect_block_refines:
  assumes "cache_ok coins"
  shows "(\<exists>e. ConnectBlock E block coins params = (Reject e, coins) \<and>
      connect_spec E params block (GetCoin coins) = Reject e) \<or>
    (\<exists>res coins'. ConnectBlock E block coins params = (Inr res, coins') \<and>
      connect_spec E params block (GetCoin coins) = Inr (res, GetCoin coins') \<and> cache_ok coins')"
  using ConnectBlock_refines [OF assms, of E params block]
  by (cases "ConnectBlock E block coins params"; cases "fst (ConnectBlock E block coins params)")
    (auto simp: same_base_def)

theorem connect_block_refines_witness:
  "\<exists>res m'. connect_spec example_crypto REGTEST_PARAMS example_block (GetCoin example_coins) = Inr (res, m')"
proof -
  have "cache_ok example_coins" by (simp add: example_coins_def)
  from connect_block_refines [OF this, of example_crypto example_block REGTEST_PARAMS] example_connects
  show ?thesis by auto
qed

text \<open>
  A connected block adds at most its scheduled reward to the value of the unspent
  coins: fees move value to the coinbase and never create it.
\<close>

theorem block_adds_at_most_reward:
  assumes "cache_ok coins" and "ConnectBlock E block coins (ParamsFor n) = (Inr res, coins')"
    and "finite (dom (GetCoin coins))"
  shows "finite (dom (GetCoin coins')) \<and>
    utxo_value (GetCoin coins') \<le>
      utxo_value (GetCoin coins) + BlockReward (hdr_height (blk_header block)) (issuance (ParamsFor n))"
  using ConnectBlock_value [OF assms networks_issuance_ok] .

theorem block_adds_at_most_reward_witness:
  "\<exists>res coins'. ConnectBlock example_crypto example_block example_coins (ParamsFor Regtest) = (Inr res, coins') \<and>
     utxo_value (GetCoin coins') \<le> utxo_value (GetCoin example_coins) + BlockReward 1 (issuance (ParamsFor Regtest))"
proof -
  from example_connects obtain res coins' where
    c: "ConnectBlock example_crypto example_block example_coins (ParamsFor Regtest) = (Inr res, coins')" by auto
  have ok: "cache_ok example_coins" by (simp add: example_coins_def)
  have "GetCoin example_coins = [example_outpoint \<mapsto> example_coin]"
    by (simp add: example_coins_def)
  then have "finite (dom (GetCoin example_coins))" by simp
  from block_adds_at_most_reward [OF ok c this] c show ?thesis by (auto simp: example_block_def)
qed

end
