(* ===== verification/Asert.thy ===== *)
theory Asert
  imports Work Params
begin

text \<open>
  The difficulty rule (\<^verbatim>\<open>src/consensus/asert.cpp\<close>): 320-bit limb arithmetic, the fixed-point
  exponent, the cubic approximation of a power of two, and the rule itself. Each routine is given
  its meaning on natural numbers, and the rule is shown to compute the anchor target scaled by the
  schedule deviation and clamped between 1 and the floor.
\<close>

unbundle bit_operations_syntax

section \<open>Wide values\<close>

text \<open>\<^verbatim>\<open>struct Wide\<close>: five 64-bit limbs, the least significant first.\<close>

type_synonym wide = "u64 list"

definition LIMB_COUNT :: nat where "LIMB_COUNT = 5"
definition LIMB_BITS :: nat where "LIMB_BITS = 64"
definition VALUE_BITS :: nat where "VALUE_BITS = LIMB_COUNT * LIMB_BITS"
definition RADIX_BITS :: nat where "RADIX_BITS = 16"
definition RADIX :: u64 where "RADIX = push_bit RADIX_BITS 1"
definition EXPONENT_SATURATION :: u64 where "EXPONENT_SATURATION = push_bit 32 1"

definition Wide_zero :: wide where
  "Wide_zero = replicate LIMB_COUNT 0"

definition Clamp :: "i64 \<Rightarrow> i64 \<Rightarrow> i64 \<Rightarrow> i64" where
  "Clamp value low high = (if value < low then low else if value > high then high else value)"

definition Wide_IsZero :: "wide \<Rightarrow> bool" where
  "Wide_IsZero value \<longleftrightarrow> list_all (\<lambda>limb. limb = 0) value"

definition FromTarget :: "target \<Rightarrow> wide" where
  "FromTarget t =
     map (\<lambda>limb.
         fold (\<lambda>byte word. word OR push_bit (byte * 8) (ucast (arr_list t ! (32 - 1 - (limb * 8 + byte)))))
           [0..<8] 0)
       [0..<4] @ [0]"

text \<open>\<^verbatim>\<open>(lo, hi) = a * b + add\<close> from 32-bit halves.\<close>

definition MulAdd64 :: "u64 \<Rightarrow> u64 \<Rightarrow> u64 \<Rightarrow> u64 \<times> u64" where
  "MulAdd64 a b add =
     (let a_lo = a AND 0xFFFFFFFF;
          a_hi = drop_bit 32 a;
          b_lo = b AND 0xFFFFFFFF;
          b_hi = drop_bit 32 b;
          p00 = a_lo * b_lo;
          p01 = a_lo * b_hi;
          p10 = a_hi * b_lo;
          p11 = a_hi * b_hi;
          mid_lo = p01 + p10;
          mid_carry = (if mid_lo < p01 then 1 else 0);
          low = push_bit 32 mid_lo + p00;
          low_carry = (if low < p00 then 1 else 0);
          with_add = low + add;
          add_carry = (if with_add < low then 1 else 0)
      in (with_add, p11 + push_bit 32 mid_carry + drop_bit 32 mid_lo + low_carry + add_carry))"

definition Wide_ShiftRight :: "wide \<Rightarrow> nat \<Rightarrow> wide" where
  "Wide_ShiftRight value bits =
     (if bits \<ge> VALUE_BITS then Wide_zero
      else
        let limb_shift = bits div LIMB_BITS;
            bit_shift = bits mod LIMB_BITS
        in map (\<lambda>i.
             if i + limb_shift \<ge> LIMB_COUNT then 0
             else
               let word = drop_bit bit_shift (value ! (i + limb_shift))
               in if bit_shift \<noteq> 0 \<and> i + limb_shift + 1 < LIMB_COUNT
                  then word OR push_bit (LIMB_BITS - bit_shift) (value ! (i + limb_shift + 1))
                  else word) [0..<LIMB_COUNT])"

text \<open>The shifted value, and whether a set bit was pushed past 320 bits.\<close>

definition Wide_ShiftLeft :: "wide \<Rightarrow> nat \<Rightarrow> bool \<times> wide" where
  "Wide_ShiftLeft value bits =
     (if bits = 0 then (False, value)
      else if bits \<ge> VALUE_BITS then (\<not> Wide_IsZero value, Wide_zero)
      else
        let limb_shift = bits div LIMB_BITS;
            bit_shift = bits mod LIMB_BITS;
            shifted = map (\<lambda>destination.
              if destination \<ge> limb_shift then
                let source = destination - limb_shift;
                    word = push_bit bit_shift (value ! source)
                in if bit_shift \<noteq> 0 \<and> source \<ge> 1
                   then word OR drop_bit (LIMB_BITS - bit_shift) (value ! (source - 1))
                   else word
              else 0) [0..<LIMB_COUNT];
            overflow = list_ex (\<lambda>source.
              if source + limb_shift \<ge> LIMB_COUNT then value ! source \<noteq> 0
              else bit_shift \<noteq> 0 \<and> source + limb_shift = LIMB_COUNT - 1 \<and>
                drop_bit (LIMB_BITS - bit_shift) (value ! source) \<noteq> 0) [0..<LIMB_COUNT]
        in (overflow, shifted))"

fun MultiplySmall_loop :: "wide \<Rightarrow> u64 \<Rightarrow> u64 \<Rightarrow> u64 \<times> wide" where
  "MultiplySmall_loop [] factor carry = (carry, [])"
| "MultiplySmall_loop (limb # limbs) factor carry =
     (let (lo, hi) = MulAdd64 limb factor carry;
          (carry', limbs') = MultiplySmall_loop limbs factor hi
      in (carry', lo # limbs'))"

definition MultiplySmall :: "wide \<Rightarrow> u64 \<Rightarrow> bool \<times> wide" where
  "MultiplySmall value factor =
     (let (carry, limbs) = MultiplySmall_loop value factor 0 in (carry \<noteq> 0, limbs))"

text \<open>The limbs are compared from the most significant one.\<close>

fun Exceeds_loop :: "u64 list \<Rightarrow> u64 list \<Rightarrow> bool" where
  "Exceeds_loop (v # vs) (l # ls) = (if v \<noteq> l then v > l else Exceeds_loop vs ls)"
| "Exceeds_loop _ _ = False"

definition Exceeds :: "wide \<Rightarrow> wide \<Rightarrow> bool" where
  "Exceeds value limit = Exceeds_loop (rev value) (rev limit)"

text \<open>Byte \<open>limb * 8 + byte\<close> of the value is written that far from the end of the target.\<close>

definition ToTarget :: "wide \<Rightarrow> target" where
  "ToTarget value =
     arr_of (rev (concat (map (\<lambda>limb. map (\<lambda>byte. ucast (drop_bit (byte * 8) (value ! limb) AND 0xFF) :: u8)
       [0..<8]) [0..<4])))"

section \<open>The exponent\<close>

text \<open>The loop for bits \<open>position\<close> down to 0 of the numerator \<^verbatim>\<open>high << 16\<close>.\<close>

fun ScaledQuotient_loop :: "nat \<Rightarrow> u64 \<Rightarrow> u64 \<Rightarrow> u64 \<Rightarrow> u64 \<Rightarrow> u64" where
  "ScaledQuotient_loop 0 high divisor remainder quot = quot"
| "ScaledQuotient_loop (Suc position) high divisor remainder quot =
     (let numerator_bit = (if position \<ge> 16 then drop_bit (position - 16) high AND 1 else 0);
          shifted = push_bit 1 remainder OR numerator_bit;
          (remainder', quotient_bit) = (if shifted \<ge> divisor then (shifted - divisor, 1) else (shifted, 0));
          quot' = push_bit 1 quot OR quotient_bit
      in if quot' \<ge> EXPONENT_SATURATION then EXPONENT_SATURATION
         else ScaledQuotient_loop position high divisor remainder' quot')"

definition ScaledQuotient :: "u64 \<Rightarrow> u64 \<Rightarrow> u64" where
  "ScaledQuotient high divisor =
     (if divisor = 0 \<or> divisor > push_bit 62 1 then EXPONENT_SATURATION
      else ScaledQuotient_loop 80 high divisor 0 0)"

definition FractionFactor :: "u64 \<Rightarrow> u64" where
  "FractionFactor fraction =
     (let linear = 195766423245049 * fraction;
          quadratic = 971821376 * fraction * fraction;
          cubic = 5127 * fraction * fraction * fraction;
          rounding = push_bit 47 1;
          polynomial = linear + quadratic + cubic + rounding
      in RADIX + drop_bit 48 polynomial)"

section \<open>The rule\<close>

definition AsertNextBits_rule :: "u32 \<Rightarrow> i64 \<Rightarrow> i64 \<Rightarrow> i64 \<Rightarrow> i64 \<Rightarrow> i64 \<Rightarrow> u32 \<Rightarrow> u32" where
  "AsertNextBits_rule anchor_bits anchor_time height_delta tip_time spacing_seconds half_life_seconds
       limit_bits =
     (case (CompactToTarget limit_bits, CompactToTarget anchor_bits) of
        (Some floor, Some anchor) \<Rightarrow>
          let limit = FromTarget floor;
              target = (if Exceeds (FromTarget anchor) limit then limit else FromTarget anchor)
          in if height_delta \<le> 0 then TargetToCompact (ToTarget target)
             else
               let bound = 2 ^ 61;
                   origin = Clamp anchor_time (- bound) bound;
                   observed = Clamp tip_time (- bound) bound;
                   spacing = Clamp spacing_seconds 1 (2 ^ 31);
                   height = Clamp height_delta 1 (2 ^ 31);
                   time_delta = i64_wrap (observed - origin);
                   expected = i64_wrap (spacing * height);
                   num = i64_wrap (time_delta - expected);
                   magnitude = (if num < 0 then 0 - word_of_int num else word_of_int num);
                   half_life = word_of_int (Clamp half_life_seconds 1 (2 ^ 62));
                   scaled = ScaledQuotient magnitude half_life;
                   exponent = (if num < 0 then - sint scaled else sint scaled);
                   integer_shift = drop_bit RADIX_BITS exponent;
                   fraction = word_of_int exponent AND (RADIX - 1);
                   factor = FractionFactor fraction;
                   (multiplied_overflow, multiplied) = MultiplySmall target factor;
                   shift = integer_shift - int RADIX_BITS;
                   (gave_up, shifted) =
                     (if shift > 0 then
                        let (lost, w) = Wide_ShiftLeft multiplied (nat shift)
                        in (lost \<or> multiplied_overflow, w)
                      else if shift < 0 then (False, Wide_ShiftRight multiplied (nat (- shift)))
                      else (False, multiplied))
               in if gave_up then TargetToCompact (ToTarget limit)
                  else if Wide_IsZero shifted then TargetToCompact (arr_of (replicate 31 0 @ [1]))
                  else if Exceeds shifted limit then TargetToCompact (ToTarget limit)
                  else TargetToCompact (ToTarget shifted)
      | _ \<Rightarrow> limit_bits)"

definition AsertNextBits :: "chain_params \<Rightarrow> u32 \<Rightarrow> i64 \<Rightarrow> u32" where
  "AsertNextBits params tip_height tip_time =
     AsertNextBits_rule (genesis_bits params) (genesis_timestamp params) (uint tip_height) tip_time
       (target_block_seconds params) (asert_half_life_seconds params) (pow_limit_bits params)"

section \<open>Limbs as numbers\<close>

fun wide_val :: "wide \<Rightarrow> nat" where
  "wide_val [] = 0"
| "wide_val (limb # limbs) = unat limb + 2 ^ 64 * wide_val limbs"

lemma unat_u64_less: "unat (w :: u64) < 2 ^ 64"
  using unsigned_less [of w, where ?'a = nat] by simp

lemma unat_u64_le: "unat (w :: u64) \<le> 2 ^ 64 - 1"
  using unat_u64_less [of w] by linarith

lemma wide_val_less: "wide_val w < 2 ^ (64 * length w)"
proof (induction w)
  case (Cons x xs)
  have "wide_val (x # xs) < 2 ^ 64 + 2 ^ 64 * wide_val xs" using unat_u64_less [of x] by simp
  also have "\<dots> = 2 ^ 64 * Suc (wide_val xs)" by simp
  also have "\<dots> \<le> 2 ^ 64 * 2 ^ (64 * length xs)" using Cons.IH by (intro mult_le_mono2) simp
  finally show ?case by (simp add: power_add)
qed simp

lemma bit_nat_mod_div:
  fixes m k :: nat
  assumes "m < 2 ^ n"
  shows "bit (m + 2 ^ n * k) i = (if i < n then bit m i else bit k (i - n))"
proof -
  have "(m + 2 ^ n * k) div 2 ^ n = k" using assms by simp
  moreover have "(m + 2 ^ n * k) mod 2 ^ n = m" using assms by simp
  ultimately have "drop_bit n (m + 2 ^ n * k) = k" "take_bit n (m + 2 ^ n * k) = m"
    by (simp_all only: drop_bit_eq_div take_bit_eq_mod)
  then show ?thesis
    by (metis bit_drop_bit_eq bit_take_bit_iff comp_apply le_add_diff_inverse not_less)
qed

lemma carry_nat:
  fixes X Y M :: nat
  assumes "X < M" and "Y < M"
  shows "X + Y = (X + Y) mod M + M * (if (X + Y) mod M < X then 1 else 0)"
proof (cases "X + Y < M")
  case False
  then have "(X + Y) mod M = X + Y - M" using assms by (simp add: mod_if)
  with False assms show ?thesis by simp
qed simp

lemma unat_add_u64: "unat (x + y :: u64) = (unat x + unat y) mod 2 ^ 64"
  by (simp add: unat_word_ariths)

lemma add_carry:
  fixes x y :: u64
  shows "unat x + unat y = unat (x + y) + 2 ^ 64 * (if x + y < x then 1 else 0)"
    "unat x + unat y = unat (y + x) + 2 ^ 64 * (if y + x < x then 1 else 0)"
  unfolding add.commute [of y x] word_less_nat_alt unat_add_u64
  by (rule carry_nat [OF unat_u64_less unat_u64_less])+

lemma halves:
  fixes a :: u64
  shows "unat (a AND 0xFFFFFFFF) = unat a mod 2 ^ 32" "unat (drop_bit 32 a) = unat a div 2 ^ 32"
proof -
  have "a AND 0xFFFFFFFF = take_bit 32 a" by (simp only: take_bit_eq_mask mask_eq_exp_minus_1) simp
  then show "unat (a AND 0xFFFFFFFF) = unat a mod 2 ^ 32"
    by (simp only: unsigned_take_bit_eq) (simp add: take_bit_eq_mod)
  show "unat (drop_bit 32 a) = unat a div 2 ^ 32"
    by (simp only: unat_drop_bit_eq) (simp add: drop_bit_eq_div)
qed

lemma unat_mult_half:
  fixes x y :: u64
  assumes "unat x < 2 ^ 32" and "unat y < 2 ^ 32"
  shows "unat (x * y) = unat x * unat y"
proof -
  have "unat x * unat y < 2 ^ 32 * 2 ^ 32" using assms by (intro mult_strict_mono) simp_all
  then have "unat x * unat y < 2 ^ 64" by simp
  then show ?thesis by (simp add: unat_word_ariths)
qed

text \<open>The split of a product, with \<open>R\<close> for 2^32: what the carries of the code add up to.\<close>

lemma split_product:
  fixes A0 A1 B0 B1 R q r mc low lc out ac add :: nat
  assumes mid: "A0 * B1 + A1 * B0 = q * R + r + R * R * mc"
    and low: "A0 * B0 + r * R = low + R * R * lc"
    and out: "low + add = out + R * R * ac"
  shows "(A1 * R + A0) * (B1 * R + B0) + add = out + R * R * (A1 * B1 + R * mc + q + lc + ac)"
proof -
  have "(A1 * R + A0) * (B1 * R + B0) = R * R * (A1 * B1) + R * (A0 * B1 + A1 * B0) + A0 * B0"
    by (simp add: algebra_simps)
  also have "\<dots> = R * R * (A1 * B1 + q + R * mc) + (A0 * B0 + r * R)"
    unfolding mid by (simp add: algebra_simps)
  finally show ?thesis using low out by (simp add: algebra_simps)
qed

lemma unat_shift_half: "unat (push_bit 32 (x :: u64)) = (unat x mod 2 ^ 32) * 2 ^ 32"
proof -
  have "unat (push_bit 32 x) = (unat x * 2 ^ 32) mod 2 ^ 64"
    by (simp only: unsigned_push_bit_eq) (simp add: push_bit_eq_mult take_bit_eq_mod)
  also have "\<dots> = (unat x * 2 ^ 32) mod (2 ^ 32 * 2 ^ 32)" by simp
  also have "\<dots> = (unat x mod 2 ^ 32) * 2 ^ 32" by (simp only: mult_mod_left)
  finally show ?thesis .
qed

lemma unat_of_nat_u64: "unat (of_nat n :: u64) = n mod 2 ^ 64"
  by (simp add: unat_of_nat)

lemma MulAdd64_val:
  assumes "MulAdd64 a b add = (lo, hi)"
  shows "unat lo + 2 ^ 64 * unat hi = unat a * unat b + unat add"
proof -
  let ?a0 = "a AND 0xFFFFFFFF" and ?a1 = "drop_bit 32 a" and ?b0 = "b AND 0xFFFFFFFF" and ?b1 = "drop_bit 32 b"
  let ?mid = "?a0 * ?b1 + ?a1 * ?b0"
  let ?mc = "(if ?mid < ?a0 * ?b1 then 1 else 0)" and ?low = "push_bit 32 ?mid + ?a0 * ?b0"
  let ?lc = "(if ?low < ?a0 * ?b0 then 1 else 0)" and ?out = "?low + add"
  let ?ac = "(if ?out < ?low then 1 else 0)"
  have small: "unat ?a0 < 2 ^ 32" "unat ?a1 < 2 ^ 32" "unat ?b0 < 2 ^ 32" "unat ?b1 < 2 ^ 32"
    unfolding halves using unat_u64_less [of a] unat_u64_less [of b] by (simp_all add: less_mult_imp_div_less)
  have R: "2 ^ 64 = 2 ^ 32 * (2 ^ 32 :: nat)" by simp
  have m: "unat ?a0 * unat ?b1 + unat ?a1 * unat ?b0 =
      unat ?mid div 2 ^ 32 * 2 ^ 32 + unat ?mid mod 2 ^ 32 + 2 ^ 32 * 2 ^ 32 * ?mc"
    using add_carry(1) [of "?a0 * ?b1" "?a1 * ?b0"] small by (simp only: unat_mult_half R div_mult_mod_eq)
  have l: "unat ?a0 * unat ?b0 + (unat ?mid mod 2 ^ 32) * 2 ^ 32 = unat ?low + 2 ^ 32 * 2 ^ 32 * ?lc"
    using add_carry(2) [of "?a0 * ?b0" "push_bit 32 ?mid"] small by (simp only: unat_mult_half R unat_shift_half)
  have o: "unat ?low + unat add = unat ?out + 2 ^ 32 * 2 ^ 32 * ?ac"
    using add_carry(1) [of ?low add] by (simp only: R)
  let ?H = "unat ?a1 * unat ?b1 + 2 ^ 32 * ?mc + unat ?mid div 2 ^ 32 + ?lc + ?ac"
  have ab: "unat ?a1 * 2 ^ 32 + unat ?a0 = unat a" "unat ?b1 * 2 ^ 32 + unat ?b0 = unat b"
    unfolding halves by simp_all
  have H: "unat a * unat b + unat add = unat ?out + 2 ^ 64 * ?H"
    using split_product [OF m l o] unfolding ab R .
  have "2 ^ 64 * ?H < 2 ^ 64 * 2 ^ 64"
  proof -
    have "unat a * unat b + unat add \<le> (2 ^ 64 - 1) * (2 ^ 64 - 1) + (2 ^ 64 - 1)"
      by (intro add_mono mult_le_mono unat_u64_le)
    also have "\<dots> < 2 ^ 64 * 2 ^ 64" by simp
    finally show ?thesis using H by linarith
  qed
  then have Hs: "?H < 2 ^ 64" by (simp only: mult_less_cancel1)
  have hi: "hi = ?a1 * ?b1 + push_bit 32 ?mc + drop_bit 32 ?mid + ?lc + ?ac"
    using arg_cong [OF assms, of snd] unfolding MulAdd64_def Let_def snd_conv by (rule sym)
  have lo: "lo = ?out"
    using arg_cong [OF assms, of fst] unfolding MulAdd64_def Let_def fst_conv by (rule sym)
  have "push_bit 32 ?mc = (of_nat (2 ^ 32 * ?mc) :: u64)" by simp
  moreover have "drop_bit 32 ?mid = of_nat (unat ?mid div 2 ^ 32)"
    by (simp only: halves(2) [symmetric] of_nat_unat ucast_id)
  ultimately have "hi = of_nat ?H"
    unfolding hi by (simp only: of_nat_add of_nat_mult of_nat_unat ucast_id) simp
  then have "unat hi = ?H mod 2 ^ 64" by (simp only: unat_of_nat_u64)
  also have "\<dots> = ?H" using Hs by (rule mod_less)
  finally show ?thesis unfolding H lo by (rule arg_cong)
qed


lemma limb_shift_out:
  "w = lo # w' \<Longrightarrow> wide_val w + 2 ^ (64 * length (limb # limbs)) * c =
     unat lo + 2 ^ 64 * (wide_val w' + 2 ^ (64 * length limbs) * c)"
  by (simp add: power_add distrib_left)

lemma limb_regroup: "lo + R * (v * f + h) = v * f * R + (lo + R * h)" for lo R v f h :: nat
  by (simp add: algebra_simps)

lemma limb_collect: "v * f * R + (l * f + c) = (l + R * v) * f + c" for v f R l c :: nat
  by (simp add: algebra_simps)

lemma MultiplySmall_loop_val:
  "MultiplySmall_loop v factor carry = (carry', w) \<Longrightarrow>
     length w = length v \<and>
     wide_val w + 2 ^ (64 * length v) * unat carry' = wide_val v * unat factor + unat carry"
proof (induction v factor carry arbitrary: carry' w rule: MultiplySmall_loop.induct)
  case (1 factor carry)
  then show ?case by simp
next
  case (2 limb limbs factor carry)
  obtain lo hi where m: "MulAdd64 limb factor carry = (lo, hi)" by (cases "MulAdd64 limb factor carry")
  obtain w' where r: "MultiplySmall_loop limbs factor hi = (carry', w')" and w: "w = lo # w'"
    using 2(2) m by (auto split: prod.splits)
  from 2(1) [OF m [symmetric] refl r] have IH: "length w' = length limbs"
    "wide_val w' + 2 ^ (64 * length limbs) * unat carry' = wide_val limbs * unat factor + unat hi" by simp_all
  have "wide_val w + 2 ^ (64 * length (limb # limbs)) * unat carry' =
      unat lo + 2 ^ 64 * (wide_val w' + 2 ^ (64 * length limbs) * unat carry')"
    by (rule limb_shift_out [of w lo w' limb limbs]) (rule w)
  also have "\<dots> = wide_val limbs * unat factor * 2 ^ 64 + (unat lo + 2 ^ 64 * unat hi)"
    unfolding IH(2) by (rule limb_regroup)
  also have "\<dots> = wide_val (limb # limbs) * unat factor + unat carry"
    unfolding MulAdd64_val [OF m] wide_val.simps by (rule limb_collect)
  finally show ?case using IH(1) w by simp
qed

lemma MultiplySmall_val:
  assumes "MultiplySmall v factor = (overflow, w)" and "length v = 5"
  shows "length w = 5 \<and> wide_val w = (wide_val v * unat factor) mod 2 ^ 320 \<and>
    (overflow \<longleftrightarrow> 2 ^ 320 \<le> wide_val v * unat factor)"
proof -
  obtain c where l: "MultiplySmall_loop v factor 0 = (c, w)" and ov: "overflow \<longleftrightarrow> c \<noteq> 0"
    using assms(1) by (auto simp: MultiplySmall_def split: prod.splits)
  from MultiplySmall_loop_val [OF l] assms(2)
  have w: "length w = 5" "wide_val w + 2 ^ 320 * unat c = wide_val v * unat factor" by simp_all
  have less: "wide_val w < 2 ^ 320" using wide_val_less [of w] w(1) by simp
  have "(wide_val v * unat factor) mod 2 ^ 320 = wide_val w" unfolding w(2) [symmetric] using less by simp
  moreover have "2 ^ 320 \<le> wide_val v * unat factor \<longleftrightarrow> c \<noteq> 0"
  proof (cases "c = 0")
    case True
    then show ?thesis using w(2) less by simp
  next
    case False
    then have "1 \<le> unat c" by (simp add: unat_gt_0 Suc_le_eq)
    then have "2 ^ 320 * 1 \<le> 2 ^ 320 * unat c" by (rule mult_le_mono2)
    then show ?thesis using w(2) False by linarith
  qed
  ultimately show ?thesis using w(1) ov by simp
qed

lemma wide_val_Cons_cmp:
  "wide_val (y # ys) < wide_val (x # xs) \<longleftrightarrow>
     wide_val ys < wide_val xs \<or> wide_val ys = wide_val xs \<and> y < x"
proof -
  have gen: "b + R * l < a + R * h \<longleftrightarrow> l < h \<or> l = h \<and> b < a" if "a < R" "b < R" for a b R l h :: nat
  proof (cases l h rule: linorder_cases)
    case less
    then have "R * Suc l \<le> R * h" by (intro mult_le_mono2) simp
    then show ?thesis using that less by simp
  next
    case greater
    then have "R * Suc h \<le> R * l" by (intro mult_le_mono2) simp
    then show ?thesis using that greater by simp
  qed simp
  show ?thesis unfolding wide_val.simps word_less_nat_alt by (rule gen) (rule unat_u64_less)+
qed

lemma wide_val_inject: "length xs = length ys \<Longrightarrow> wide_val xs = wide_val ys \<longleftrightarrow> xs = ys"
proof (induction xs ys rule: list_induct2)
  case (Cons x xs y ys)
  then show ?case
    using wide_val_Cons_cmp [of x xs y ys] wide_val_Cons_cmp [of y ys x xs] by (metis less_irrefl list.inject neqE)
qed simp

lemma Exceeds_loop_append:
  "length xs = length ys \<Longrightarrow> Exceeds_loop (xs @ vs) (ys @ ls) \<longleftrightarrow>
     (if xs = ys then Exceeds_loop vs ls else Exceeds_loop xs ys)"
  by (induction xs ys rule: list_induct2) auto

lemma Exceeds_val: "length v = length l \<Longrightarrow> Exceeds v l \<longleftrightarrow> wide_val l < wide_val v"
proof (induction v l rule: list_induct2)
  case (Cons x xs y ys)
  then show ?case
    using wide_val_Cons_cmp [of y ys x xs] wide_val_inject [of xs ys]
    by (auto simp: Exceeds_def Exceeds_loop_append)
qed (simp add: Exceeds_def)


lemma bit_wide_val:
  "bit (wide_val v) i \<longleftrightarrow> i < 64 * length v \<and> bit (v ! (i div 64)) (i mod 64)"
proof (induction v arbitrary: i)
  case (Cons x xs)
  have b: "bit (wide_val (x # xs)) i = (if i < 64 then bit (unat x) i else bit (wide_val xs) (i - 64))"
    unfolding wide_val.simps by (rule bit_nat_mod_div [OF unat_u64_less])
  show ?case
  proof (cases "i < 64")
    case True
    then show ?thesis unfolding b by (simp add: bit_unsigned_iff)
  next
    case False
    then have "i div 64 = Suc ((i - 64) div 64)" "i mod 64 = (i - 64) mod 64"
      by (simp_all add: le_div_geq le_mod_geq)
    with False show ?thesis unfolding b by (auto simp: Cons.IH)
  qed
qed simp

lemma bit_wide_limbs:
  assumes "length v = 5" and "k < 64"
  shows "bit (wide_val v) (64 * j + k) \<longleftrightarrow> j < 5 \<and> bit (v ! j) k"
  using assms by (auto simp: bit_wide_val)

lemma wide_val_eqI:
  assumes len: "length w = 5" and small: "m < 2 ^ 320"
    and bits: "\<And>j k. j < 5 \<Longrightarrow> k < 64 \<Longrightarrow> bit (w ! j) k \<longleftrightarrow> bit m (64 * j + k)"
  shows "wide_val w = m"
proof (rule bit_eqI)
  fix i
  show "bit (wide_val w) i \<longleftrightarrow> bit m i"
  proof (cases "i < 320")
    case True
    then have "i div 64 < 5" "i mod 64 < 64" by auto
    from bits [OF this] True show ?thesis by (simp add: bit_wide_val len)
  next
    case False
    then have "\<not> bit m i" using small by (metis bit_take_bit_iff take_bit_nat_eq_self)
    then show ?thesis using False by (simp add: bit_wide_val len)
  qed
qed

lemma Wide_ShiftRight_val:
  assumes "length v = 5"
  shows "length (Wide_ShiftRight v n) = 5 \<and> wide_val (Wide_ShiftRight v n) = wide_val v div 2 ^ n"
proof -
  have less: "wide_val v < 2 ^ 320" using wide_val_less [of v] assms by simp
  have len: "length (Wide_ShiftRight v n) = 5"
    by (simp add: Wide_ShiftRight_def Wide_zero_def LIMB_COUNT_def Let_def)
  have "wide_val (Wide_ShiftRight v n) = drop_bit n (wide_val v)"
  proof (rule wide_val_eqI [OF len])
    show "drop_bit n (wide_val v) < 2 ^ 320"
      using less by (simp only: drop_bit_eq_div) (rule le_less_trans [OF div_le_dividend])
  next
    fix j k :: nat
    assume j: "j < 5" and k: "k < 64"
    show "bit (Wide_ShiftRight v n ! j) k \<longleftrightarrow> bit (drop_bit n (wide_val v)) (64 * j + k)"
    proof (cases "320 \<le> n")
      case True
      then show ?thesis
        using j by (simp add: Wide_ShiftRight_def VALUE_BITS_def LIMB_COUNT_def LIMB_BITS_def Wide_zero_def
            bit_drop_bit_eq bit_wide_val assms)
    next
      case False
      define q r where "q = n div 64" and "r = n mod 64"
      have n: "n = 64 * q + r" and r: "r < 64" by (simp_all add: q_def r_def)
      show ?thesis
      proof (cases "k + r < 64")
        case True
        have e: "n + (64 * j + k) = 64 * (j + q) + (k + r)" by (simp add: n)
        have "bit (drop_bit n (wide_val v)) (64 * j + k) \<longleftrightarrow> j + q < 5 \<and> bit (v ! (j + q)) (k + r)"
          by (simp only: bit_drop_bit_eq comp_apply e bit_wide_limbs [OF assms True])
        then show ?thesis
          using True j k False
          by (auto simp: Wide_ShiftRight_def VALUE_BITS_def LIMB_COUNT_def LIMB_BITS_def Let_def
              q_def [symmetric] r_def [symmetric] bit_drop_bit_eq bit_or_iff bit_push_bit_iff add.commute)
      next
        case carry: False
        have e: "n + (64 * j + k) = 64 * (j + q + 1) + (k + r - 64)" using carry by (simp add: n)
        have s: "k + r - 64 < 64" using k r by simp
        have "bit (drop_bit n (wide_val v)) (64 * j + k) \<longleftrightarrow> j + q + 1 < 5 \<and> bit (v ! (j + q + 1)) (k + r - 64)"
          by (simp only: bit_drop_bit_eq comp_apply e bit_wide_limbs [OF assms s])
        moreover have "k - (64 - r) = k + r - 64" "64 - r \<le> k" using carry r by simp_all
        moreover have "\<not> bit x (r + k)" for x :: u64 using carry bit_imp_le_length [of x "r + k"] by auto
        ultimately show ?thesis
          using carry j k False r
          by (auto simp: Wide_ShiftRight_def VALUE_BITS_def LIMB_COUNT_def LIMB_BITS_def Let_def
              q_def [symmetric] r_def [symmetric] bit_drop_bit_eq bit_or_iff bit_push_bit_iff)
      qed
    qed
  qed
  then show ?thesis using len by (simp add: drop_bit_eq_div)
qed


lemma wide_val_less_320: "length v = 5 \<Longrightarrow> wide_val v < 2 ^ 320"
  using wide_val_less [of v] by simp

lemma u64_nonzero_bit: "x \<noteq> 0 \<longleftrightarrow> (\<exists>k<64. bit x k)" for x :: u64
  by (auto simp: bit_eq_iff bit_imp_le_length)

lemma u64_drop_nonzero: "drop_bit m x \<noteq> 0 \<longleftrightarrow> (\<exists>k<64. m \<le> k \<and> bit x k)" for x :: u64
proof -
  have "drop_bit m x \<noteq> 0 \<longleftrightarrow> (\<exists>i. bit x (m + i))"
    using bit_eqI [of "drop_bit m x" 0] bit_drop_bit_eq [of m x] by (auto simp: fun_eq_iff)
  also have "\<dots> \<longleftrightarrow> (\<exists>k<64. m \<le> k \<and> bit x k)"
    using bit_imp_le_length [of x] by (auto simp: le_iff_add)
  finally show ?thesis .
qed

lemma nat_ge_power_bit: "2 ^ m \<le> (a :: nat) \<longleftrightarrow> (\<exists>i\<ge>m. bit a i)"
proof -
  have "a < 2 ^ m \<longleftrightarrow> drop_bit m a = 0" by (simp add: drop_bit_eq_div div_eq_0_iff)
  also have "\<dots> \<longleftrightarrow> (\<forall>i. \<not> bit a (m + i))" by (simp add: bit_eq_iff bit_drop_bit_eq)
  finally show ?thesis by (metis le_add1 le_add_diff_inverse not_less)
qed

lemma wide_overflow_limbs:
  assumes "length v = 5" and n: "n = 64 * q + r" and "r < 64" and "n < 320"
  shows "2 ^ 320 \<le> wide_val v * 2 ^ n \<longleftrightarrow>
    (\<exists>s<5. (5 \<le> s + q \<and> v ! s \<noteq> 0) \<or> (s + q = 4 \<and> r \<noteq> 0 \<and> drop_bit (64 - r) (v ! s) \<noteq> 0))"
proof -
  have "2 ^ 320 \<le> wide_val v * 2 ^ n \<longleftrightarrow> 2 ^ (320 - n) * 2 ^ n \<le> wide_val v * 2 ^ n"
    using \<open>n < 320\<close> by (simp only: power_add [symmetric]) simp
  also have "\<dots> \<longleftrightarrow> (\<exists>i\<ge>320 - n. bit (wide_val v) i)"
    by (simp add: nat_ge_power_bit)
  also have "\<dots> \<longleftrightarrow> (\<exists>s<5. \<exists>k<64. 320 \<le> n + (64 * s + k) \<and> bit (v ! s) k)" (is "?L \<longleftrightarrow> ?R")
  proof
    assume ?L
    then obtain i where i: "320 - n \<le> i" "i < 320" "bit (v ! (i div 64)) (i mod 64)"
      by (auto simp: bit_wide_val assms(1))
    have "i div 64 < 5" "i mod 64 < 64" "320 \<le> n + (64 * (i div 64) + i mod 64)" using i by auto
    with i(3) show ?R by blast
  next
    assume ?R
    then obtain s k where "s < 5" "k < 64" "320 \<le> n + (64 * s + k)" "bit (v ! s) k" by blast
    then have "320 - n \<le> 64 * s + k" "bit (wide_val v) (64 * s + k)"
      by (simp_all add: bit_wide_limbs assms(1))
    then show ?L by blast
  qed
  also have "\<dots> \<longleftrightarrow> (\<exists>s<5. (5 \<le> s + q \<and> v ! s \<noteq> 0) \<or>
      (s + q = 4 \<and> r \<noteq> 0 \<and> drop_bit (64 - r) (v ! s) \<noteq> 0))"
  proof -
    have "320 \<le> n + (64 * s + k) \<longleftrightarrow> 5 \<le> s + q \<or> s + q = 4 \<and> r \<noteq> 0 \<and> 64 - r \<le> k"
      if "k < 64" for s k
    proof -
      consider "s + q < 4" | "s + q = 4" | "4 < s + q" by linarith
      then show ?thesis using that \<open>r < 64\<close> unfolding n by cases auto
    qed
    then have "(\<exists>k<64. 320 \<le> n + (64 * s + k) \<and> bit (v ! s) k) \<longleftrightarrow>
        (5 \<le> s + q \<and> v ! s \<noteq> 0) \<or> (s + q = 4 \<and> r \<noteq> 0 \<and> drop_bit (64 - r) (v ! s) \<noteq> 0)" for s
      unfolding u64_drop_nonzero unfolding u64_nonzero_bit by (cases "5 \<le> s + q"; cases "s + q = 4"; cases "r = 0") auto
    then show ?thesis by (simp only:)
  qed
  finally show ?thesis .
qed

lemma Wide_ShiftLeft_limb:
  assumes len: "length v = 5" and n: "n = 64 * q + r" and r: "r < 64" and j: "j < 5" and k: "k < 64"
  shows "bit (if q \<le> j then
       (if r \<noteq> 0 \<and> 1 \<le> j - q then push_bit r (v ! (j - q)) OR drop_bit (64 - r) (v ! (j - q - 1))
        else push_bit r (v ! (j - q))) else (0 :: u64)) k
    \<longleftrightarrow> n \<le> 64 * j + k \<and> bit (wide_val v) (64 * j + k - n)"
proof (cases "r \<le> k")
  case True
  have "n \<le> 64 * j + k \<longleftrightarrow> q \<le> j"
    using True k unfolding n by (cases "q \<le> j") auto
  moreover have "64 * j + k - n = 64 * (j - q) + (k - r)" if "q \<le> j"
    using that True unfolding n by simp
  moreover have "\<not> bit x (64 - r + k)" for x :: u64
    using True bit_imp_le_length [of x "64 - r + k"] by auto
  ultimately show ?thesis
    using True j k bit_wide_limbs [OF len, of "k - r" "j - q"]
    by (auto simp: bit_or_iff bit_push_bit_iff bit_drop_bit_eq)
next
  case False
  have "n \<le> 64 * j + k \<longleftrightarrow> q < j"
    using False r unfolding n by (cases "q < j") auto
  moreover have "64 * j + k - n = 64 * (j - q - 1) + (64 - r + k)" if "q < j"
    using that False r unfolding n by (simp add: algebra_simps)
  moreover have "64 - r + k < 64" using False r by simp
  moreover from this have "bit (wide_val v) (64 * (j - q - 1) + (64 - r + k)) \<longleftrightarrow>
      j - q - 1 < 5 \<and> bit (v ! (j - q - 1)) (64 - r + k)" by (rule bit_wide_limbs [OF len])
  ultimately show ?thesis
    using False j k less_imp_diff_less [OF j, of "Suc q"]
    by (cases "q < j") (simp_all add: bit_or_iff bit_push_bit_iff bit_drop_bit_eq Suc_le_eq)
qed

lemma Wide_zero_val: "wide_val Wide_zero = 0" "length Wide_zero = 5"
  by (simp_all add: Wide_zero_def LIMB_COUNT_def numeral_eq_Suc del: power_Suc)

lemma Wide_IsZero_val: "Wide_IsZero v \<longleftrightarrow> wide_val v = 0"
  unfolding Wide_IsZero_def by (induction v) (auto simp: unat_eq_0)

lemma Wide_ShiftLeft_val:
  assumes sh: "Wide_ShiftLeft v n = (overflow, w)" and len: "length v = 5"
  shows "length w = 5 \<and> wide_val w = (wide_val v * 2 ^ n) mod 2 ^ 320 \<and>
    (overflow \<longleftrightarrow> 2 ^ 320 \<le> wide_val v * 2 ^ n)"
proof -
  have less: "wide_val v < 2 ^ 320" by (rule wide_val_less_320 [OF len])
  consider "n = 0" | "320 \<le> n" | "0 < n" "n < 320" by linarith
  then show ?thesis
  proof cases
    case 1
    with sh less len show ?thesis by (auto simp: Wide_ShiftLeft_def)
  next
    case 2
    have "2 ^ n = 2 ^ 320 * (2 ^ (n - 320) :: nat)" using 2 by (simp only: power_add [symmetric]) simp
    then have "(wide_val v * 2 ^ n) mod 2 ^ 320 = 0" by (simp only: mult.left_commute [of "wide_val v"] mod_mult_self1_is_0)
    moreover have "2 ^ 320 \<le> wide_val v * 2 ^ n \<longleftrightarrow> wide_val v \<noteq> 0"
    proof (cases "wide_val v = 0")
      case False
      have "(2 :: nat) ^ 320 \<le> 2 ^ n" using 2 by (rule power_increasing) simp
      also have "\<dots> \<le> wide_val v * 2 ^ n" using False by simp
      finally show ?thesis using False by simp
    qed simp
    ultimately show ?thesis
      using sh 2 by (auto simp: Wide_ShiftLeft_def VALUE_BITS_def LIMB_COUNT_def LIMB_BITS_def
          Wide_zero_val Wide_IsZero_val)
  next
    case 3
    define q r where "q = n div 64" and "r = n mod 64"
    have n: "n = 64 * q + r" and r: "r < 64" by (simp_all add: q_def r_def)
    let ?limb = "\<lambda>j. if q \<le> j then
       (if r \<noteq> 0 \<and> 1 \<le> j - q then push_bit r (v ! (j - q)) OR drop_bit (64 - r) (v ! (j - q - 1))
        else push_bit r (v ! (j - q))) else 0"
    have w: "w = map ?limb [0..<5]"
      using sh 3 by (auto simp: Wide_ShiftLeft_def VALUE_BITS_def LIMB_COUNT_def LIMB_BITS_def Let_def
          q_def [symmetric] r_def [symmetric])
    have "overflow \<longleftrightarrow> (\<exists>s\<in>{0..<5}. if s + q \<ge> 5 then v ! s \<noteq> 0
        else r \<noteq> 0 \<and> s + q = 5 - 1 \<and> drop_bit (64 - r) (v ! s) \<noteq> 0)"
      using sh 3 unfolding Wide_ShiftLeft_def VALUE_BITS_def LIMB_COUNT_def LIMB_BITS_def Let_def
          q_def [symmetric] r_def [symmetric] list_ex_iff by auto
    moreover have "(if s + q \<ge> 5 then v ! s \<noteq> 0 else r \<noteq> 0 \<and> s + q = 5 - 1 \<and> drop_bit (64 - r) (v ! s) \<noteq> 0) \<longleftrightarrow>
        (5 \<le> s + q \<and> v ! s \<noteq> 0) \<or> (s + q = 4 \<and> r \<noteq> 0 \<and> drop_bit (64 - r) (v ! s) \<noteq> 0)" for s
      by auto
    ultimately have ov: "overflow \<longleftrightarrow> (\<exists>s<5. (5 \<le> s + q \<and> v ! s \<noteq> 0) \<or>
        (s + q = 4 \<and> r \<noteq> 0 \<and> drop_bit (64 - r) (v ! s) \<noteq> 0))"
      by (simp only: Bex_def atLeastLessThan_iff zero_le simp_thms)
    have "wide_val w = take_bit 320 (push_bit n (wide_val v))"
    proof (rule wide_val_eqI)
      show "length w = 5" by (simp add: w)
      show "take_bit 320 (push_bit n (wide_val v)) < 2 ^ 320" by (rule take_bit_nat_less_exp)
      fix j k :: nat
      assume jk: "j < 5" "k < 64"
      then have "w ! j = ?limb j" by (simp add: w)
      then show "bit (w ! j) k \<longleftrightarrow> bit (take_bit 320 (push_bit n (wide_val v))) (64 * j + k)"
        using Wide_ShiftLeft_limb [OF len n r jk] jk by (simp add: bit_take_bit_iff bit_push_bit_iff)
    qed
    then show ?thesis
      using ov wide_overflow_limbs [OF len n r 3(2)] w by (simp add: take_bit_eq_mod push_bit_eq_mult)
  qed
qed


lemma bit_assembled_limb:
  assumes "n \<le> 8" and "k < 64"
  shows "bit (fold (\<lambda>byte word. word OR push_bit (byte * 8) (ucast (f byte :: u8))) [0..<n] (0 :: u64)) k
    \<longleftrightarrow> k div 8 < n \<and> bit (f (k div 8)) (k mod 8)"
  using assms(1)
proof (induction n)
  case (Suc n)
  have "bit (push_bit (n * 8) (ucast (f n) :: u64)) k \<longleftrightarrow> k div 8 = n \<and> bit (f n) (k mod 8)"
  proof (cases "n * 8 \<le> k")
    case True
    show ?thesis
    proof (cases "k - n * 8 < 8")
      case in_byte: True
      moreover define m where "m = k - n * 8"
      ultimately have "k = m + n * 8" "m < 8" using True by simp_all
      then have "k div 8 = n" "k mod 8 = k - n * 8" by simp_all
      then show ?thesis using True assms(2) in_byte by (simp add: bit_push_bit_iff bit_unsigned_iff)
    next
      case False
      then have "\<not> bit (f n) (k - n * 8)" using bit_imp_le_length [of "f n" "k - n * 8"] by auto
      moreover have "k div 8 \<noteq> n" using False True by auto
      ultimately show ?thesis by (simp add: bit_push_bit_iff bit_unsigned_iff)
    qed
  qed (auto simp: bit_push_bit_iff)
  then show ?case using Suc by (auto simp: bit_or_iff less_Suc_eq)
qed simp

lemma FromTarget_val: "length (FromTarget t) = 5 \<and> wide_val (FromTarget t) = arr_val t"
proof -
  have len: "length (FromTarget t) = 5" by (simp add: FromTarget_def)
  have small: "arr_val t < 2 ^ 320"
    using arr_val_less [of t] by (rule less_trans) (rule power_strict_increasing, simp_all)
  have "wide_val (FromTarget t) = arr_val t"
  proof (rule wide_val_eqI [OF len small])
    fix j k :: nat
    assume j: "j < 5" and k: "k < 64"
    have dm: "(64 * j + k) div 8 = j * 8 + k div 8" "(64 * j + k) mod 8 = k mod 8"
      using div_mult_self1 [of 8 k "j * 8"] mod_mult_self1 [of k "j * 8" 8] by (simp_all add: algebra_simps)
    have "bit (arr_val t) (64 * j + k) \<longleftrightarrow>
        j * 8 + k div 8 < 32 \<and> bit (arr_list t ! (31 - (j * 8 + k div 8))) (k mod 8)"
      unfolding arr_val_def bit_be_val dm by simp
    moreover have "FromTarget t ! 4 = 0" by (simp add: FromTarget_def nth_append)
    moreover have "k div 8 < 8" using k by simp
    moreover have "FromTarget t ! j =
        fold (\<lambda>byte word. word OR push_bit (byte * 8) (ucast (arr_list t ! (32 - 1 - (j * 8 + byte))))) [0..<8] 0"
      if "j < 4" using that by (simp add: FromTarget_def nth_append)
    ultimately show "bit (FromTarget t ! j) k \<longleftrightarrow> bit (arr_val t) (64 * j + k)"
      using j bit_assembled_limb [of 8 k "\<lambda>byte. arr_list t ! (32 - 1 - (j * 8 + byte))"] k
      by (cases "j = 4") auto
  qed
  with len show ?thesis by blast
qed

lemma bit_extracted_byte:
  "k < 8 \<Longrightarrow> bit (ucast (drop_bit m (x :: u64) AND 0xFF) :: u8) k \<longleftrightarrow> bit x (m + k)"
proof -
  have "drop_bit m x AND 0xFF = take_bit 8 (drop_bit m x)" by (simp add: take_bit_eq_mask mask_eq_exp_minus_1)
  then show "k < 8 \<Longrightarrow> ?thesis"
    using bit_imp_le_length [of x "m + k"] by (simp only:) (auto simp: bit_simps)
qed

lemma concat_grid:
  "0 < b \<Longrightarrow> concat (map (\<lambda>l. map (f l) [0..<b]) [0..<a]) = map (\<lambda>j. f (j div b) (j mod b)) [0..<a * b]"
proof (induction a)
  case (Suc a)
  have "[0..<Suc a * b] = [0..<a * b] @ map (\<lambda>i. i + a * b) [0..<b]"
    by (simp only: map_add_upt mult_Suc add_0_left upt_add_eq_append [OF zero_le, symmetric] add.commute [of b])
  then show ?case using Suc by (simp add: comp_def)
qed simp

lemma ToTarget_val:
  assumes "length w = 5" and "wide_val w < 2 ^ 256"
  shows "arr_val (ToTarget w) = wide_val w"
proof -
  let ?byte = "\<lambda>j. ucast (drop_bit (j mod 8 * 8) (w ! (j div 8)) AND 0xFF) :: u8"
  have "concat (map (\<lambda>limb. map (\<lambda>byte. ucast (drop_bit (byte * 8) (w ! limb) AND 0xFF) :: u8) [0..<8]) [0..<4])
      = map ?byte [0..<4 * 8]" by (rule concat_grid) simp
  moreover have "(4 :: nat) * 8 = 32" by simp
  ultimately have v: "arr_val (ToTarget w) = be_val (rev (map ?byte [0..<32]))"
    unfolding ToTarget_def by (simp only:) (rule arr_val_arr_of, simp)
  have "be_val (rev (map ?byte [0..<32])) = wide_val w"
  proof (rule bit_eqI)
    fix i
    show "bit (be_val (rev (map ?byte [0..<32]))) i \<longleftrightarrow> bit (wide_val w) i"
    proof (cases "i < 256")
      case True
      then have b: "i div 8 < 32" by simp
      have "i div 64 = i div 8 div 8" "i div 8 mod 8 * 8 + i mod 8 = i mod 64"
        by (simp_all add: div_mult2_eq [symmetric] mod_mult2_eq [of i 8 8, simplified])
      moreover have "rev (map ?byte [0..<32]) ! (31 - i div 8) = ?byte (i div 8)"
        using b by (subst rev_nth) (simp_all only: length_map length_upt nth_map_upt, simp_all)
      ultimately show ?thesis
        using True b assms(1)
        by (simp only: bit_be_val bit_wide_val length_rev length_map length_upt) (simp add: bit_extracted_byte)
    next
      case False
      then have "\<not> bit (wide_val w) i" using assms(2) by (metis bit_take_bit_iff take_bit_nat_eq_self)
      moreover have "\<not> i div 8 < 32" using False by simp
      ultimately show ?thesis by (simp only: bit_be_val length_rev length_map length_upt diff_zero simp_thms)
    qed
  qed
  with v show ?thesis by simp
qed

section \<open>The exponent as a number\<close>

lemma unat_double_or:
  fixes r b :: u64
  assumes "unat r < 2 ^ 63" and "unat b < 2"
  shows "unat (push_bit 1 r OR b) = 2 * unat r + unat b"
proof -
  have p: "unat (push_bit 1 r) = 2 * unat r"
    using assms(1) by (simp only: unsigned_push_bit_eq) (simp add: push_bit_eq_mult take_bit_eq_mod)
  have "push_bit 1 r AND b = 0"
  proof (rule bit_eqI)
    fix n
    show "bit (push_bit 1 r AND b) n \<longleftrightarrow> bit 0 n"
    proof (cases "n = 0")
      case False
      have "b = 0 \<or> b = 1" using assms(2) by (auto simp: less_2_cases_iff word_unat_eq_iff)
      then show ?thesis using False by (auto simp: bit_and_iff bit_1_iff)
    qed (simp only: bit_and_iff, simp add: bit_0)
  qed
  then have "push_bit 1 r OR b = push_bit 1 r + b" by (simp add: disjunctive_add_eq_or)
  then have "unat (push_bit 1 r OR b) = (2 * unat r + unat b) mod 2 ^ 64" by (simp only: unat_add_u64 p)
  also have "\<dots> = 2 * unat r + unat b" using assms by (intro mod_less) simp
  finally show ?thesis .
qed

lemma unat_numerator_bit:
  "unat (if position \<ge> 16 then drop_bit (position - 16) (high :: u64) AND 1 else 0) =
     unat high * 2 ^ 16 div 2 ^ position mod 2"
proof (cases "position \<ge> 16")
  case True
  then have "(2 :: nat) ^ position = 2 ^ 16 * 2 ^ (position - 16)" by (simp only: power_add [symmetric]) simp
  then have e: "unat high * 2 ^ 16 div 2 ^ position = unat high div 2 ^ (position - 16)"
    by (simp only: div_mult2_eq) simp
  have "drop_bit (position - 16) high AND 1 = take_bit 1 (drop_bit (position - 16) high)"
    by (simp add: take_bit_eq_mask mask_eq_exp_minus_1)
  then have "unat (drop_bit (position - 16) high AND 1) = unat high div 2 ^ (position - 16) mod 2"
    by (simp only: unsigned_take_bit_eq unat_drop_bit_eq) (simp add: take_bit_eq_mod drop_bit_eq_div)
  with True e show ?thesis by simp
next
  case False
  then have "(2 :: nat) ^ 16 = 2 ^ position * (2 * 2 ^ (15 - position))"
    by (simp only: power_add [symmetric] power_Suc [symmetric]) simp
  then have "unat high * 2 ^ 16 div 2 ^ position = unat high * (2 * 2 ^ (15 - position))"
    by (simp only: mult.left_commute [of _ "2 ^ position"]) simp
  with False show ?thesis by simp
qed

lemma div_power_Suc_step: "n div 2 ^ p = 2 * (n div 2 ^ Suc p) + n div 2 ^ p mod (2 :: nat)"
  by (simp add: div_mult2_eq mult.commute [of 2 "2 ^ p"])

lemma quotient_reaches:
  fixes d q n r S :: nat
  assumes "q * d + r = n div 2 ^ p" and "S \<le> q" and "0 < d"
  shows "S \<le> n div d"
proof -
  have "q * d \<le> n div 2 ^ p" using assms(1) by simp
  also have "\<dots> \<le> n" by (rule div_le_dividend)
  finally have "q \<le> n div d" using assms(3) by (simp add: less_eq_div_iff_mult_less_eq)
  with assms(2) show ?thesis by simp
qed

lemma unat_EXPONENT_SATURATION: "unat EXPONENT_SATURATION = 2 ^ 32"
  by (simp add: EXPONENT_SATURATION_def)

lemma ScaledQuotient_loop_val:
  assumes "unat q * unat d + unat r = unat high * 2 ^ 16 div 2 ^ position"
    and "unat r < unat d" and "unat d \<le> 2 ^ 62" and "unat q < 2 ^ 32"
  shows "unat (ScaledQuotient_loop position high d r q) = min (2 ^ 32) (unat high * 2 ^ 16 div unat d)"
  using assms
proof (induction position arbitrary: r q)
  case 0
  then have e: "unat high * 2 ^ 16 = unat r + unat q * unat d" by simp
  have "unat high * 2 ^ 16 div unat d = unat q" unfolding e using 0(2) by simp
  with 0 show ?case by simp
next
  case (Suc p)
  let ?N = "unat high * 2 ^ 16"
  let ?b = "if p \<ge> 16 then drop_bit (p - 16) high AND 1 else 0"
  define s where "s = push_bit 1 r OR ?b"
  define r' q' where "r' = (if s \<ge> d then s - d else s)" and "q' = push_bit 1 q OR (if s \<ge> d then 1 else 0)"
  have s: "unat s = 2 * unat r + ?N div 2 ^ p mod 2"
    unfolding s_def unat_numerator_bit [symmetric]
    by (rule unat_double_or) (use Suc.prems unat_numerator_bit [of p high] in simp_all)
  have q': "unat q' = 2 * unat q + (if s \<ge> d then 1 else 0)"
    unfolding q'_def using unat_double_or [of q "if s \<ge> d then 1 else 0"] Suc.prems(4) by (auto split: if_splits)
  have r': "unat r' + (if s \<ge> d then unat d else 0) = unat s"
    by (simp add: r'_def unat_sub word_le_nat_alt)
  have small: "unat r' < unat d"
    using s Suc.prems(2) by (auto simp: r'_def unat_sub word_le_nat_alt)
  have inv: "unat q' * unat d + unat r' = ?N div 2 ^ p"
  proof -
    have "unat q' * unat d + unat r' = 2 * (unat q * unat d) + unat s"
      unfolding q' r' [symmetric] by (simp add: algebra_simps)
    also have "\<dots> = 2 * (?N div 2 ^ Suc p) + ?N div 2 ^ p mod 2"
      unfolding s Suc.prems(1) [symmetric] by (simp add: algebra_simps)
    finally show ?thesis by (simp only: div_power_Suc_step [of ?N p, symmetric])
  qed
  have step: "ScaledQuotient_loop (Suc p) high d r q =
      (if q' \<ge> EXPONENT_SATURATION then EXPONENT_SATURATION else ScaledQuotient_loop p high d r' q')"
    by (simp add: s_def r'_def q'_def Let_def)
  show ?case
  proof (cases "q' \<ge> EXPONENT_SATURATION")
    case True
    then have "2 ^ 32 \<le> unat q'" by (simp only: word_le_nat_alt unat_EXPONENT_SATURATION)
    moreover have "0 < unat d" using Suc.prems(2) by simp
    ultimately have "2 ^ 32 \<le> ?N div unat d" by (rule quotient_reaches [OF inv])
    with True show ?thesis by (simp only: step if_True unat_EXPONENT_SATURATION min_absorb1)
  next
    case False
    then have "unat q' < 2 ^ 32" by (simp only: word_le_nat_alt unat_EXPONENT_SATURATION not_le)
    from Suc.IH [OF inv small Suc.prems(3) this] show ?thesis using False by (simp only: step if_False)
  qed
qed

lemma ScaledQuotient_val:
  assumes "0 < unat d" and "unat d \<le> 2 ^ 62"
  shows "unat (ScaledQuotient high d) = min (2 ^ 32) (unat high * 2 ^ 16 div unat d)"
proof -
  have "unat high * 2 ^ 16 div 2 ^ 80 = 0" using unat_u64_less [of high] by (simp add: div_eq_0_iff)
  then have "unat (ScaledQuotient_loop 80 high d 0 0) = min (2 ^ 32) (unat high * 2 ^ 16 div unat d)"
    using assms by (intro ScaledQuotient_loop_val) simp_all
  moreover have "\<not> (d = 0 \<or> d > push_bit 62 1)"
    using assms by (auto simp: word_less_nat_alt)
  ultimately show ?thesis by (simp only: ScaledQuotient_def if_False)
qed

text \<open>The published polynomial, on the numbers.\<close>

definition fraction_factor :: "nat \<Rightarrow> nat" where
  "fraction_factor f =
     65536 + (195766423245049 * f + 971821376 * f ^ 2 + 5127 * f ^ 3 + 2 ^ 47) div 2 ^ 48"

lemma polynomial_bound:
  assumes "f < 65536"
  shows "195766423245049 * f + 971821376 * f ^ 2 + 5127 * f ^ 3 + 2 ^ 47 < (2 :: nat) ^ 64"
proof -
  have f: "f \<le> 65535" using assms by simp
  have "f ^ 2 \<le> 65535 ^ 2" "f ^ 3 \<le> 65535 ^ 3" using power_mono [OF f] by blast+
  then show ?thesis using f by simp
qed

lemma fraction_factor_bounds: "f < 65536 \<Longrightarrow> 65536 \<le> fraction_factor f \<and> fraction_factor f \<le> 131072"
  using polynomial_bound [of f] by (simp add: fraction_factor_def less_mult_imp_div_less)

lemma fraction_factor_mono: "f \<le> g \<Longrightarrow> fraction_factor f \<le> fraction_factor g"
  unfolding fraction_factor_def by (intro add_left_mono div_le_mono add_mono mult_le_mono power_mono) simp_all

lemma fraction_factor_0 [simp]: "fraction_factor 0 = 65536"
  by (simp add: fraction_factor_def)

lemma FractionFactor_val:
  assumes "unat fraction < 65536"
  shows "unat (FractionFactor fraction) = fraction_factor (unat fraction)"
proof -
  let ?f = "unat fraction"
  let ?p = "195766423245049 * ?f + 971821376 * ?f ^ 2 + 5127 * ?f ^ 3 + 2 ^ 47"
  let ?w = "195766423245049 * fraction + 971821376 * fraction * fraction
      + 5127 * fraction * fraction * fraction + push_bit 47 1"
  have "?w = of_nat ?p" by (simp add: power2_eq_square power3_eq_cube ac_simps)
  then have "unat ?w = ?p mod 2 ^ 64" by (simp only: unat_of_nat_u64)
  then have w: "unat ?w = ?p" using polynomial_bound [OF assms] by (simp only: mod_less)
  have "unat (drop_bit 48 ?w) = ?p div 2 ^ 48" by (simp only: unat_drop_bit_eq w) (simp add: drop_bit_eq_div)
  moreover have "unat (RADIX + drop_bit 48 ?w) = (65536 + unat (drop_bit 48 ?w)) mod 2 ^ 64"
    by (simp add: unat_add_u64 RADIX_def RADIX_BITS_def)
  moreover have "65536 + ?p div 2 ^ 48 < 2 ^ 64" 
    using fraction_factor_bounds [OF assms] by (simp add: fraction_factor_def)
  ultimately show ?thesis by (simp only: FractionFactor_def Let_def fraction_factor_def mod_less)
qed


section \<open>The schedule on integers\<close>

text \<open>
  The published rule on unbounded integers: the deviation from the schedule in units of the half
  life, as a fixed-point number with 16 fraction bits truncated towards zero and saturated at
  \<open>2 ^ 32\<close>; and the anchor scaled by the power of two of that exponent.
\<close>

definition asert_exponent :: "int \<Rightarrow> int \<Rightarrow> int" where
  "asert_exponent deviation half_life =
     (if deviation < 0 then - min (2 ^ 32) (- deviation * 2 ^ 16 div half_life)
      else min (2 ^ 32) (deviation * 2 ^ 16 div half_life))"

definition shift_scaled :: "int \<Rightarrow> nat \<Rightarrow> nat" where
  "shift_scaled s p = (if s \<ge> 16 then p * 2 ^ nat (s - 16) else p div 2 ^ nat (16 - s))"

definition asert_scaled :: "nat \<Rightarrow> int \<Rightarrow> nat" where
  "asert_scaled anchor e = shift_scaled (e div 65536) (anchor * fraction_factor (nat (e mod 65536)))"

definition asert_deviation :: "i64 \<Rightarrow> i64 \<Rightarrow> i64 \<Rightarrow> i64 \<Rightarrow> int" where
  "asert_deviation anchor_time height_delta tip_time spacing_seconds =
     Clamp tip_time (- (2 ^ 61)) (2 ^ 61) - Clamp anchor_time (- (2 ^ 61)) (2 ^ 61)
       - Clamp spacing_seconds 1 (2 ^ 31) * Clamp height_delta 1 (2 ^ 31)"

lemma Clamp_bounds: "low \<le> high \<Longrightarrow> low \<le> Clamp x low high \<and> Clamp x low high \<le> high"
  by (simp add: Clamp_def)

lemma asert_deviation_bounds: "\<bar>asert_deviation a h t s\<bar> \<le> 2 ^ 63"
  "i64_ok (Clamp t (- (2 ^ 61)) (2 ^ 61) - Clamp a (- (2 ^ 61)) (2 ^ 61))"
  "i64_ok (Clamp s 1 (2 ^ 31) * Clamp h 1 (2 ^ 31))" "i64_ok (asert_deviation a h t s)"
proof -
  let ?s = "Clamp s 1 (2 ^ 31)" and ?h = "Clamp h 1 (2 ^ 31)"
  have s: "1 \<le> ?s" "?s \<le> 2 ^ 31" and h: "1 \<le> ?h" "?h \<le> 2 ^ 31"
    using Clamp_bounds [of 1 "2 ^ 31"] by simp_all
  have t: "- (2 ^ 61) \<le> Clamp x (- (2 ^ 61)) (2 ^ 61)" "Clamp x (- (2 ^ 61)) (2 ^ 61) \<le> 2 ^ 61" for x :: int
    using Clamp_bounds [of "- (2 ^ 61)" "2 ^ 61" x] by simp_all
  have "?s * ?h \<le> 2 ^ 31 * 2 ^ 31" using s h by (intro mult_mono) simp_all
  then have p: "?s * ?h \<le> 2 ^ 62" by simp
  have p1: "1 * 1 \<le> ?s * ?h" using s h by (intro mult_mono) simp_all
  show "\<bar>asert_deviation a h t s\<bar> \<le> 2 ^ 63" "i64_ok (asert_deviation a h t s)"
    using p p1 t [of t] t [of a] unfolding asert_deviation_def i64_ok_def by auto
  show "i64_ok (Clamp t (- (2 ^ 61)) (2 ^ 61) - Clamp a (- (2 ^ 61)) (2 ^ 61))"
    using t [of t] t [of a] by (simp add: i64_ok_def)
  show "i64_ok (?s * ?h)" using p p1 by (simp add: i64_ok_def)
qed

lemma unat_word_of_int: "0 \<le> x \<Longrightarrow> x < 2 ^ 64 \<Longrightarrow> unat (word_of_int x :: u64) = nat x"
  by (simp add: unat_eq_nat_uint uint_word_of_int)

lemma magnitude_val:
  assumes "\<bar>x\<bar> \<le> 2 ^ 63"
  shows "unat (if x < 0 then 0 - word_of_int x else word_of_int x :: u64) = nat \<bar>x\<bar>"
  using assms unat_word_of_int [of "- x"] unat_word_of_int [of x] by auto

lemma sint_small: "uint w < 2 ^ 63 \<Longrightarrow> sint w = uint w" for w :: u64
  by (simp only: sint_uint) (intro signed_take_bit_int_eq_self order_trans [OF _ uint_ge_0], simp_all)

lemma ScaledQuotient_exponent:
  assumes "\<bar>x\<bar> \<le> 2 ^ 63" and "1 \<le> h" and "h \<le> 2 ^ 62"
  shows "(if x < 0 then - sint (ScaledQuotient (if x < 0 then 0 - word_of_int x else word_of_int x) (word_of_int h))
      else sint (ScaledQuotient (if x < 0 then 0 - word_of_int x else word_of_int x) (word_of_int h)))
    = asert_exponent x h"
proof -
  let ?m = "if x < 0 then 0 - word_of_int x else word_of_int x :: u64"
  let ?q = "ScaledQuotient ?m (word_of_int h)"
  have h: "unat (word_of_int h :: u64) = nat h" using assms by (intro unat_word_of_int) simp_all
  have "unat ?q = min (2 ^ 32) (nat \<bar>x\<bar> * 2 ^ 16 div nat h)"
    using ScaledQuotient_val [of "word_of_int h" ?m] assms h magnitude_val [OF assms(1)] by simp
  moreover have "int (nat \<bar>x\<bar> * 2 ^ 16 div nat h) = \<bar>x\<bar> * 2 ^ 16 div h"
    using assms(2) by (simp add: zdiv_int)
  ultimately have u: "uint ?q = min (2 ^ 32) (\<bar>x\<bar> * 2 ^ 16 div h)"
    by (simp only: uint_nat of_nat_min) simp
  have "uint ?q \<le> 2 ^ 32" unfolding u by (rule min.cobounded1)
  then have "sint ?q = uint ?q" by (intro sint_small) simp
  then show ?thesis using u by (auto simp: asert_exponent_def)
qed


lemma fraction_val: "unat (word_of_int e AND (RADIX - 1)) = nat (e mod 65536)"
proof -
  have "word_of_int e AND (RADIX - 1) = take_bit 16 (word_of_int e :: u64)"
    by (simp add: take_bit_eq_mask mask_eq_exp_minus_1 RADIX_def RADIX_BITS_def)
  then have "uint (word_of_int e AND (RADIX - 1)) = e mod 65536"
    by (simp only: unsigned_take_bit_eq uint_word_of_int)
      (simp add: take_bit_eq_mod mod_mod_cancel)
  then show ?thesis by (simp only: unat_eq_nat_uint)
qed

lemma hardest_val: "arr_val (arr_of (replicate 31 0 @ [1])) = 1"
  by (simp add: arr_val_arr_of numeral_eq_Suc del: power_Suc)

lemma asert_clamped:
  assumes target: "length target = 5" "wide_val target = T" and limit: "length limit = 5" "wide_val limit = L"
    and small: "L < 2 ^ 256" "T \<le> L" "1 \<le> L" and factor: "unat factor = F" "F \<le> 131072"
    and mult: "MultiplySmall target factor = (multiplied_overflow, multiplied)"
    and shifted: "(gave_up, shifted) =
      (if shift > 0 then let (lost, w) = Wide_ShiftLeft multiplied (nat shift) in (lost \<or> multiplied_overflow, w)
       else if shift < 0 then (False, Wide_ShiftRight multiplied (nat (- shift)))
       else (False, multiplied))"
  shows "\<exists>t. arr_val t = max 1 (min L (shift_scaled (shift + 16) (T * F))) \<and>
    (if gave_up then TargetToCompact (ToTarget limit)
     else if Wide_IsZero shifted then TargetToCompact (arr_of (replicate 31 0 @ [1]))
     else if Exceeds shifted limit then TargetToCompact (ToTarget limit)
     else TargetToCompact (ToTarget shifted)) = TargetToCompact t"
proof -
  let ?v = "shift_scaled (shift + 16) (T * F)"
  have "T * F \<le> (2 ^ 256 - 1) * 131072" using small factor(2) by (intro mult_le_mono) simp_all
  also have "\<dots> < 2 ^ 320" by simp
  finally have prod: "T * F < 2 ^ 320" .
  have m: "length multiplied = 5" "wide_val multiplied = T * F" "\<not> multiplied_overflow"
    using MultiplySmall_val [OF mult target(1)] prod unfolding target(2) factor(1) by simp_all
  have lim: "arr_val (ToTarget limit) = L" using ToTarget_val limit small(1) by simp
  have sh: "length shifted = 5" "(if gave_up then 2 ^ 320 \<le> ?v else wide_val shifted = ?v)"
  proof -
    consider "0 < shift" | "shift < 0" | "shift = 0" by linarith
    then have "length shifted = 5 \<and> (if gave_up then 2 ^ 320 \<le> ?v else wide_val shifted = ?v)"
    proof cases
      case 1
      obtain lost w where l: "Wide_ShiftLeft multiplied (nat shift) = (lost, w)"
        by (cases "Wide_ShiftLeft multiplied (nat shift)")
      with 1 shifted m(3) have "gave_up = lost" "shifted = w" by simp_all
      moreover have "?v = T * F * 2 ^ nat shift" using 1 by (simp add: shift_scaled_def)
      ultimately show ?thesis
        using Wide_ShiftLeft_val [OF l m(1)] unfolding m(2) by (auto simp del: power_eq_0_iff)
    next
      case 2
      then show ?thesis
        using shifted Wide_ShiftRight_val [OF m(1), of "nat (- shift)"] by (simp add: m(2) shift_scaled_def)
    next
      case 3
      then show ?thesis using shifted m by (simp add: shift_scaled_def)
    qed
    then show "length shifted = 5" "(if gave_up then 2 ^ 320 \<le> ?v else wide_val shifted = ?v)" by blast+
  qed
  have big: "L < 2 ^ 320" using small(1) by (rule less_trans) (rule power_strict_increasing, simp_all)
  consider "gave_up" | "\<not> gave_up" "?v = 0" | "\<not> gave_up" "?v \<noteq> 0" "L < ?v" | "\<not> gave_up" "?v \<noteq> 0" "?v \<le> L"
    by linarith
  then show ?thesis
  proof cases
    case 1
    with sh(2) big have "min L ?v = L" by simp
    then show ?thesis using 1 lim small(3) by (intro exI [of _ "ToTarget limit"]) simp
  next
    case 2
    with sh(2) have "Wide_IsZero shifted" by (simp add: Wide_IsZero_val)
    then show ?thesis using 2 hardest_val by (intro exI [of _ "arr_of (replicate 31 0 @ [1])"]) simp
  next
    case 3
    with sh have "\<not> Wide_IsZero shifted" "Exceeds shifted limit"
      by (simp_all add: Wide_IsZero_val Exceeds_val limit)
    then show ?thesis using 3 lim small(3) by (intro exI [of _ "ToTarget limit"]) simp
  next
    case 4
    with sh have "\<not> Wide_IsZero shifted" "\<not> Exceeds shifted limit" "wide_val shifted = ?v"
      by (simp_all add: Wide_IsZero_val Exceeds_val limit)
    moreover have "arr_val (ToTarget shifted) = ?v"
      using ToTarget_val [OF sh(1)] calculation(3) 4(3) small(1) by simp
    ultimately show ?thesis using 4 by (intro exI [of _ "ToTarget shifted"]) simp
  qed
qed


lemma AsertNextBits_rule_val:
  assumes fl: "CompactToTarget limit_bits = Some floor" and an: "CompactToTarget anchor_bits = Some anchor"
    and pos: "0 < height_delta"
  shows "\<exists>t. arr_val t = max 1 (min (arr_val floor) (asert_scaled (min (arr_val anchor) (arr_val floor))
        (asert_exponent (asert_deviation anchor_time height_delta tip_time spacing_seconds)
          (Clamp half_life_seconds 1 (2 ^ 62))))) \<and>
    AsertNextBits_rule anchor_bits anchor_time height_delta tip_time spacing_seconds half_life_seconds limit_bits =
      TargetToCompact t"
proof -
  let ?x = "asert_deviation anchor_time height_delta tip_time spacing_seconds"
  let ?h = "Clamp half_life_seconds 1 (2 ^ 62)"
  define e where "e = asert_exponent ?x ?h"
  let ?limit = "FromTarget floor" and ?target = "if Exceeds (FromTarget anchor) (FromTarget floor) then FromTarget floor else FromTarget anchor"
  let ?factor = "FractionFactor (word_of_int e AND (RADIX - 1))"
  obtain mo m where mult: "MultiplySmall ?target ?factor = (mo, m)" by (cases "MultiplySmall ?target ?factor")
  let ?shift = "drop_bit RADIX_BITS e - int RADIX_BITS"
  let ?shifted = "if ?shift > 0 then let (lost, w) = Wide_ShiftLeft m (nat ?shift) in (lost \<or> mo, w)
     else if ?shift < 0 then (False, Wide_ShiftRight m (nat (- ?shift))) else (False, m)"
  obtain g w where sh: "?shifted = (g, w)" by (cases ?shifted)
  have h: "1 \<le> ?h" "?h \<le> 2 ^ 62" using Clamp_bounds [of 1 "2 ^ 62"] by simp_all
  have wrap: "i64_wrap (i64_wrap (Clamp tip_time (- (2 ^ 61)) (2 ^ 61) - Clamp anchor_time (- (2 ^ 61)) (2 ^ 61))
      - i64_wrap (Clamp spacing_seconds 1 (2 ^ 31) * Clamp height_delta 1 (2 ^ 31))) = ?x"
    unfolding i64_wrap_id [OF asert_deviation_bounds(2)] i64_wrap_id [OF asert_deviation_bounds(3)]
    unfolding asert_deviation_def [symmetric] by (rule i64_wrap_id [OF asert_deviation_bounds(4)])
  have run: "AsertNextBits_rule anchor_bits anchor_time height_delta tip_time spacing_seconds half_life_seconds limit_bits =
    (if g then TargetToCompact (ToTarget ?limit)
     else if Wide_IsZero w then TargetToCompact (arr_of (replicate 31 0 @ [1]))
     else if Exceeds w ?limit then TargetToCompact (ToTarget ?limit)
     else TargetToCompact (ToTarget w))"
    unfolding AsertNextBits_rule_def fl an prod.case option.case Let_def wrap
      ScaledQuotient_exponent [OF asert_deviation_bounds(1) h] e_def [symmetric] mult
    using pos [folded not_le] sh [unfolded Let_def] by (simp only: if_False prod.case)
  have t: "length ?target = 5" "wide_val ?target = min (arr_val anchor) (arr_val floor)"
    using FromTarget_val [of floor] FromTarget_val [of anchor] by (auto simp: Exceeds_val)
  have l: "length ?limit = 5" "wide_val ?limit = arr_val floor" using FromTarget_val [of floor] by simp_all
  have f: "unat ?factor = fraction_factor (nat (e mod 65536))"
    using FractionFactor_val [of "word_of_int e AND (RADIX - 1)"] by (simp add: fraction_val nat_less_iff)
  have "fraction_factor (nat (e mod 65536)) \<le> 131072"
    using fraction_factor_bounds [of "nat (e mod 65536)"] by (simp add: nat_less_iff)
  note final = asert_clamped [OF t l arr_val_less min.cobounded2 _ f this mult sh [symmetric]]
  have "?shift + 16 = e div 65536" by (simp add: RADIX_BITS_def drop_bit_eq_div)
  moreover have "1 \<le> arr_val floor" using CompactToTarget_SomeD(2) [OF fl] by simp
  ultimately show ?thesis
    using final unfolding run asert_scaled_def e_def [symmetric] by simp
qed


section \<open>The scaled target\<close>

lemma shift_scaled_mono: "p \<le> q \<Longrightarrow> shift_scaled s p \<le> shift_scaled s q"
  by (simp add: shift_scaled_def div_le_mono)

lemma shift_scaled_double: "shift_scaled s (2 * p) = shift_scaled (s + 1) p"
proof (cases "s \<ge> 16")
  case True
  then have "nat (s + 1 - 16) = Suc (nat (s - 16))" by simp
  with True show ?thesis by (simp add: shift_scaled_def)
next
  case False
  then have "nat (16 - s) = Suc (nat (15 - s))" by simp
  with False show ?thesis by (auto simp: shift_scaled_def div_mult2_eq)
qed

lemma shift_scaled_0: "shift_scaled (int k) (a * 65536) = a * 2 ^ k"
proof (cases "16 \<le> k")
  case True
  then have "(2 :: nat) ^ k = 65536 * 2 ^ (k - 16)" using power_add [of "2 :: nat" 16 "k - 16"] by simp
  with True show ?thesis by (simp add: shift_scaled_def nat_diff_distrib)
next
  case False
  then have "(65536 :: nat) = 2 ^ k * 2 ^ (16 - k)" using power_add [of "2 :: nat" k "16 - k"] by simp
  moreover have "nat (16 - int k) = 16 - k" by simp
  moreover have "a * (2 ^ k * 2 ^ (16 - k)) div 2 ^ (16 - k) = a * 2 ^ k" by (simp add: mult.assoc [symmetric])
  ultimately show ?thesis using False by (simp add: shift_scaled_def)
qed

lemma shift_scaled_later: "s \<le> s' \<Longrightarrow> shift_scaled s p \<le> shift_scaled s' p"
proof (induction s' rule: int_ge_induct)
  case (step i)
  have "shift_scaled i p \<le> shift_scaled i (2 * p)" by (rule shift_scaled_mono) simp
  with step show ?case by (simp add: shift_scaled_double)
qed simp

lemma asert_scaled_mono:
  assumes "e \<le> e'"
  shows "asert_scaled a e \<le> asert_scaled a e'"
proof (cases "e div 65536 = e' div 65536")
  case True
  then have "e mod 65536 \<le> e' mod 65536"
    using assms div_mult_mod_eq [of e 65536] div_mult_mod_eq [of e' 65536] by linarith
  then show ?thesis
    unfolding asert_scaled_def True by (intro shift_scaled_mono mult_le_mono2 fraction_factor_mono) simp
next
  case False
  let ?f = "\<lambda>e. fraction_factor (nat (e mod 65536))"
  have f: "65536 \<le> ?f e'" "?f e \<le> 131072"
    using fraction_factor_bounds [of "nat (e mod 65536)"] fraction_factor_bounds [of "nat (e' mod 65536)"]
    by (simp_all add: nat_less_iff)
  have "shift_scaled (e div 65536) (a * ?f e) \<le> shift_scaled (e div 65536) (2 * (a * 65536))"
    using f(2) by (intro shift_scaled_mono) simp
  also have "\<dots> \<le> shift_scaled (e' div 65536) (a * 65536)"
    unfolding shift_scaled_double using False zdiv_mono1 [OF assms, of 65536] by (intro shift_scaled_later) simp
  also have "\<dots> \<le> shift_scaled (e' div 65536) (a * ?f e')"
    using f(1) by (intro shift_scaled_mono) simp
  finally show ?thesis by (simp add: asert_scaled_def)
qed

lemma asert_exponent_mono:
  assumes "x \<le> y" and "1 \<le> h"
  shows "asert_exponent x h \<le> asert_exponent y h"
proof -
  have "- x * 2 ^ 16 div h \<ge> - y * 2 ^ 16 div h" "x * 2 ^ 16 div h \<le> y * 2 ^ 16 div h"
    using assms by (intro zdiv_mono1; simp)+
  moreover have "0 \<le> - x * 2 ^ 16 div h" if "x < 0"
    using that assms by (intro div_int_pos_iff [THEN iffD2]) simp
  moreover have "0 \<le> y * 2 ^ 16 div h" if "0 \<le> y"
    using that assms by (intro div_int_pos_iff [THEN iffD2]) simp
  ultimately show ?thesis using assms(1) by (auto simp: asert_exponent_def)
qed

lemma asert_exponent_half_lives:
  assumes "1 \<le> h" and "k \<le> 2 ^ 16"
  shows "asert_exponent (int k * h) h = int k * 65536"
proof -
  have "int k * h * 2 ^ 16 div h = int k * 65536"
    using assms(1) nonzero_mult_div_cancel_left [of h "int k * 65536"] by (simp add: ac_simps)
  moreover have "int k * 65536 \<le> 2 ^ 32" using assms(2) by simp
  moreover have "\<not> int k * h < 0" using assms(1) by (simp add: not_less)
  ultimately show ?thesis by (simp add: asert_exponent_def)
qed

lemma asert_scaled_half_lives: "asert_scaled a (int k * 65536) = a * 2 ^ k"
  by (simp add: asert_scaled_def shift_scaled_0)

lemma AsertNextBits_rule_early:
  assumes "CompactToTarget limit_bits = Some floor" and "CompactToTarget anchor_bits = Some anchor"
    and "height_delta \<le> 0"
  shows "\<exists>t. arr_val t = min (arr_val anchor) (arr_val floor) \<and>
    AsertNextBits_rule anchor_bits anchor_time height_delta tip_time spacing_seconds half_life_seconds limit_bits =
      TargetToCompact t"
proof -
  have "arr_val (ToTarget (FromTarget u)) = arr_val u" for u
    using ToTarget_val [of "FromTarget u"] FromTarget_val [of u] arr_val_less [of u] by simp
  then show ?thesis
    using assms FromTarget_val [of floor] FromTarget_val [of anchor]
    by (auto simp: AsertNextBits_rule_def Let_def Exceeds_val min_def
        intro: exI [of _ "ToTarget (FromTarget anchor)"] exI [of _ "ToTarget (FromTarget floor)"])
qed

section \<open>Properties\<close>

text \<open>
  Property C28. The 320-bit arithmetic of the difficulty rule computes the published rule: for
  parameters that decode and a positive height, the answer is the compact form of the anchor
  target scaled by two to the schedule deviation in half lives (with the cubic approximation of
  the fractional power), clamped between 1 and the floor. No intermediate overflows.
\<close>

theorem asert_computes_schedule:
  assumes "CompactToTarget limit_bits = Some floor" and "CompactToTarget anchor_bits = Some anchor"
    and "0 < height_delta"
  shows "\<exists>t. arr_val t = max 1 (min (arr_val floor) (asert_scaled (min (arr_val anchor) (arr_val floor))
        (asert_exponent (asert_deviation anchor_time height_delta tip_time spacing_seconds)
          (Clamp half_life_seconds 1 (2 ^ 62))))) \<and>
    AsertNextBits_rule anchor_bits anchor_time height_delta tip_time spacing_seconds half_life_seconds limit_bits =
      TargetToCompact t"
  using assms by (rule AsertNextBits_rule_val)

theorem asert_computes_schedule_witness:
  "\<exists>t. 1 \<le> arr_val t \<and> AsertNextBits_rule 0x1D00FFFF 0 1 120 120 3600 0x1D00FFFF = TargetToCompact t"
proof -
  have "CompactToTarget 0x1D00FFFF \<noteq> None" by code_simp
  then obtain f where f: "CompactToTarget 0x1D00FFFF = Some f" by blast
  from asert_computes_schedule [OF f f, of 1 0 120 120 3600] show ?thesis by (metis max.cobounded1 zero_less_one)
qed

lemma AsertNextBits_rule_within_floor:
  assumes "CompactToTarget limit_bits = Some floor"
  shows "\<exists>t. CompactToTarget (AsertNextBits_rule anchor_bits anchor_time height_delta tip_time
      spacing_seconds half_life_seconds limit_bits) = Some t \<and> 0 < arr_val t \<and> arr_val t \<le> arr_val floor"
proof -
  have fl: "0 < arr_val floor" using CompactToTarget_SomeD(2) [OF assms] by simp
  have enc: ?thesis
    if u: "AsertNextBits_rule anchor_bits anchor_time height_delta tip_time spacing_seconds half_life_seconds
        limit_bits = TargetToCompact u" "1 \<le> arr_val u" "arr_val u \<le> arr_val floor" for u
  proof -
    obtain t where t: "CompactToTarget (TargetToCompact u) = Some t" "arr_val t \<le> arr_val u"
      using CompactToTarget_TargetToCompact [of u] u(2) by (auto simp: Suc_le_eq)
    with CompactToTarget_SomeD(2) [OF t(1)] u show ?thesis by auto
  qed
  show ?thesis
  proof (cases "CompactToTarget anchor_bits")
    case None
    then show ?thesis using assms fl by (simp add: AsertNextBits_rule_def)
  next
    case (Some anchor)
    show ?thesis
    proof (cases "0 < height_delta")
      case True
      obtain u where u: "arr_val u = max 1 (min (arr_val floor) (asert_scaled (min (arr_val anchor) (arr_val floor))
          (asert_exponent (asert_deviation anchor_time height_delta tip_time spacing_seconds)
            (Clamp half_life_seconds 1 (2 ^ 62)))))"
        "AsertNextBits_rule anchor_bits anchor_time height_delta tip_time spacing_seconds half_life_seconds
          limit_bits = TargetToCompact u"
        using AsertNextBits_rule_val [OF assms Some True] by blast
      show ?thesis by (rule enc [OF u(2)]) (use u(1) fl in auto)
    next
      case False
      then obtain u where "arr_val u = min (arr_val anchor) (arr_val floor)"
        "AsertNextBits_rule anchor_bits anchor_time height_delta tip_time spacing_seconds half_life_seconds
          limit_bits = TargetToCompact u"
        using AsertNextBits_rule_early [OF assms Some, of height_delta] by (meson not_less)
      then show ?thesis using enc [of u] fl CompactToTarget_SomeD(2) [OF Some] by auto
    qed
  qed
qed

text \<open>
  Whatever the clocks say, the next target decodes, and it is positive and not above
  the proof-of-work floor.
\<close>

theorem asert_within_floor:
  assumes "CompactToTarget limit_bits = Some floor"
  shows "\<exists>t. CompactToTarget (AsertNextBits_rule anchor_bits anchor_time height_delta tip_time
      spacing_seconds half_life_seconds limit_bits) = Some t \<and> 0 < arr_val t \<and> arr_val t \<le> arr_val floor"
  by (rule AsertNextBits_rule_within_floor [OF assms])

theorem asert_within_floor_witness:
  "CompactToTarget (AsertNextBits_rule 0x1D00FFFF 0 1 999999999 120 3600 0x1D00FFFF) \<noteq> None"
proof -
  have "CompactToTarget 0x1D00FFFF \<noteq> None" by code_simp
  then obtain f where f: "CompactToTarget 0x1D00FFFF = Some f" by blast
  from asert_within_floor [OF f, of "0x1D00FFFF" 0 1 999999999 120 3600] show ?thesis by auto
qed

text \<open>
  A later tip time never makes the next block harder: the answer, as a number, does
  not decrease with the time of the tip.
\<close>

theorem asert_monotone_in_time:
  assumes "tip_time \<le> tip_time'"
  shows "AsertNextBits_rule anchor_bits anchor_time height_delta tip_time spacing_seconds half_life_seconds limit_bits
    \<le> AsertNextBits_rule anchor_bits anchor_time height_delta tip_time' spacing_seconds half_life_seconds limit_bits"
proof -
  consider "height_delta \<le> 0 \<or> CompactToTarget limit_bits = None \<or> CompactToTarget anchor_bits = None"
    | floor anchor where "CompactToTarget limit_bits = Some floor" "CompactToTarget anchor_bits = Some anchor"
      "0 < height_delta" by fastforce
  then show ?thesis
  proof cases
    case 1
    then show ?thesis
      by (cases "CompactToTarget limit_bits"; cases "CompactToTarget anchor_bits") (auto simp: AsertNextBits_rule_def Let_def)
  next
    case (2 floor anchor)
    let ?e = "\<lambda>t. asert_exponent (asert_deviation anchor_time height_delta t spacing_seconds)
      (Clamp half_life_seconds 1 (2 ^ 62))"
    have "asert_deviation anchor_time height_delta tip_time spacing_seconds \<le>
        asert_deviation anchor_time height_delta tip_time' spacing_seconds"
      using assms by (simp add: asert_deviation_def Clamp_def)
    then have "?e tip_time \<le> ?e tip_time'" by (rule asert_exponent_mono) (simp add: Clamp_def)
    then have le: "asert_scaled a (?e tip_time) \<le> asert_scaled a (?e tip_time')" for a by (rule asert_scaled_mono)
    obtain t t' where t: "arr_val t = max 1 (min (arr_val floor) (asert_scaled (min (arr_val anchor) (arr_val floor)) (?e tip_time)))"
        "AsertNextBits_rule anchor_bits anchor_time height_delta tip_time spacing_seconds half_life_seconds limit_bits = TargetToCompact t"
      and t': "arr_val t' = max 1 (min (arr_val floor) (asert_scaled (min (arr_val anchor) (arr_val floor)) (?e tip_time')))"
        "AsertNextBits_rule anchor_bits anchor_time height_delta tip_time' spacing_seconds half_life_seconds limit_bits = TargetToCompact t'"
      using AsertNextBits_rule_val [OF 2] by metis
    have "arr_val t \<le> arr_val t'" unfolding t(1) t'(1) using le by (intro max.mono min.mono order_refl)
    moreover have "arr_val t \<noteq> 0" unfolding t(1) by simp
    ultimately show ?thesis unfolding t(2) t'(2) by (intro TargetToCompact_mono)
  qed
qed

theorem asert_monotone_in_time_witness:
  "AsertNextBits_rule 0x1C00FFFF 0 1 120 120 3600 0x1D00FFFF \<le> AsertNextBits_rule 0x1C00FFFF 0 1 3720 120 3600 0x1D00FFFF"
  by (rule asert_monotone_in_time) simp

text \<open>
  A chain that is a whole number of half lives behind its schedule gets the anchor
  target doubled that many times, up to the floor; on schedule, exactly the anchor's own bits.
\<close>

theorem asert_doubles_per_half_life:
  assumes "CompactToTarget limit_bits = Some floor" and "CompactToTarget anchor_bits = Some anchor"
    and "arr_val anchor \<le> arr_val floor" and "0 < height_delta" and "1 \<le> half_life" and "half_life \<le> 2 ^ 62"
    and "asert_deviation anchor_time height_delta tip_time spacing_seconds = int k * half_life" and "k \<le> 2 ^ 16"
  shows "\<exists>t. arr_val t = min (arr_val floor) (arr_val anchor * 2 ^ k) \<and>
    AsertNextBits_rule anchor_bits anchor_time height_delta tip_time spacing_seconds half_life limit_bits
      = TargetToCompact t \<and>
    (k = 0 \<longrightarrow> TargetToCompact t = anchor_bits)"
proof -
  have h: "Clamp half_life 1 (2 ^ 62) = half_life" using assms(5,6) by (simp add: Clamp_def)
  have "arr_val anchor \<noteq> 0" "TargetToCompact anchor = anchor_bits"
    using CompactToTarget_SomeD [OF assms(2)] by simp_all
  moreover obtain t where t: "arr_val t = max 1 (min (arr_val floor) (arr_val anchor * 2 ^ k))"
    "AsertNextBits_rule anchor_bits anchor_time height_delta tip_time spacing_seconds half_life limit_bits = TargetToCompact t"
    using AsertNextBits_rule_val [OF assms(1,2,4), of anchor_time tip_time spacing_seconds half_life] assms(3)
    unfolding h assms(7) asert_exponent_half_lives [OF assms(5,8)] asert_scaled_half_lives
    by (auto simp: min_absorb1)
  moreover have "t = anchor" if "k = 0"
    using t(1) that calculation(1) assms(3) by (simp add: arr_val_inject [symmetric])
  ultimately show ?thesis using assms(3) by (intro exI [of _ t]) auto
qed

theorem asert_doubles_per_half_life_witness:
  "AsertNextBits_rule 0x1D00FFFF 0 1 120 120 3600 0x1D00FFFF = 0x1D00FFFF"
proof -
  have "CompactToTarget 0x1D00FFFF \<noteq> None" by code_simp
  then obtain f where f: "CompactToTarget 0x1D00FFFF = Some f" by blast
  have "asert_deviation 0 1 120 120 = int 0 * 3600" by code_simp
  from asert_doubles_per_half_life [OF f f _ _ _ _ this] show ?thesis by auto
qed

end
