(* ===== verification/Mempool.thy ===== *)
theory Mempool
  imports Supply Asert
begin

text \<open>
  The mempool (\<^verbatim>\<open>src/mempool.cpp\<close>, \<^verbatim>\<open>include/amarian/mempool.hpp\<close>): unconfirmed transactions with their
  in-pool parents and children, an index of the outpoints they spend and one of their txids.

  A hash map that is iterated over is an association list, and a hash set a list without
  duplicates; what the code inserts is listed in the order of insertion, and no theorem depends on
  that order. Sums of fees wrap as \<^verbatim>\<open>int64_t\<close> does, and the running total of weights as \<^verbatim>\<open>size_t\<close>.
\<close>

unbundle bit_operations_syntax

section \<open>Fee rates\<close>

record product =
  prod_hi :: u64
  prod_lo :: u64

definition Mul64 :: "u64 \<Rightarrow> u64 \<Rightarrow> product" where
  "Mul64 a b =
     (let a_lo = a AND 0xFFFFFFFF; a_hi = drop_bit 32 a;
          b_lo = b AND 0xFFFFFFFF; b_hi = drop_bit 32 b;
          ll = a_lo * b_lo; lh = a_lo * b_hi; hl = a_hi * b_lo; hh = a_hi * b_hi;
          mid = drop_bit 32 ll + (lh AND 0xFFFFFFFF) + (hl AND 0xFFFFFFFF)
      in \<lparr>prod_hi = hh + drop_bit 32 lh + drop_bit 32 hl + drop_bit 32 mid,
          prod_lo = (ll AND 0xFFFFFFFF) OR push_bit 32 mid\<rparr>)"

definition CompareProducts :: "product \<Rightarrow> product \<Rightarrow> int" where
  "CompareProducts a b =
     (if prod_hi a \<noteq> prod_hi b then (if prod_hi a < prod_hi b then - 1 else 1)
      else if prod_lo a \<noteq> prod_lo b then (if prod_lo a < prod_lo b then - 1 else 1)
      else 0)"

definition CompareFeerate :: "i64 \<Rightarrow> nat \<Rightarrow> i64 \<Rightarrow> nat \<Rightarrow> int" where
  "CompareFeerate fee_a weight_a fee_b weight_b =
     (if weight_a = 0 \<or> weight_b = 0 then
        if weight_a = weight_b then 0 else if weight_a = 0 then - 1 else 1
      else
        let scaled_a = (if fee_a > 0 then word_of_int fee_a else 0);
            scaled_b = (if fee_b > 0 then word_of_int fee_b else 0)
        in CompareProducts (Mul64 scaled_a (of_nat weight_b)) (Mul64 scaled_b (of_nat weight_a)))"

definition FeerateFloor :: "i64 \<Rightarrow> nat \<Rightarrow> i64" where
  "FeerateFloor fee weight = (if weight = 0 \<or> fee \<le> 0 then 0 else trunc_div fee (int weight))"

section \<open>The pool\<close>

definition MAX_MEMPOOL_WEIGHT :: nat where "MAX_MEMPOOL_WEIGHT = 50000000"
definition MIN_RELAY_FEERATE :: i64 where "MIN_RELAY_FEERATE = 1"
definition MAX_MEMPOOL_DESCENDANTS :: nat where "MAX_MEMPOOL_DESCENDANTS = 25"
definition MAX_MEMPOOL_ANCESTORS :: nat where "MAX_MEMPOOL_ANCESTORS = 25"
definition MAX_REPLACEMENT_EVICTIONS :: nat where "MAX_REPLACEMENT_EVICTIONS = 100"

datatype reject_reason =
    Coinbase | AlreadyPresent | ConsensusRuleFailed | MissingOrSpentInput | ZeroWeight | FeeBelowRelayMinimum
  | TooManyAncestors | TooManyDescendants | ConflictFeerateTooLow | ConflictFeeTooLow | ConflictsTooMany | PoolFull

primrec DescribeReject :: "reject_reason \<Rightarrow> string" where
  "DescribeReject Coinbase = ''a coinbase exists only inside a block''"
| "DescribeReject AlreadyPresent = ''already in the mempool''"
| "DescribeReject ConsensusRuleFailed = ''a consensus rule refused it''"
| "DescribeReject MissingOrSpentInput =
     ''an input names an outpoint that is not unspent and not in the mempool''"
| "DescribeReject ZeroWeight = ''no weight, so no fee rate''"
| "DescribeReject FeeBelowRelayMinimum = ''pays less than the minimum relay fee rate''"
| "DescribeReject TooManyAncestors = ''too many unconfirmed ancestors''"
| "DescribeReject TooManyDescendants = ''would give an ancestor too many unconfirmed descendants''"
| "DescribeReject ConflictFeerateTooLow = ''conflicts with a mempool package that pays a higher fee rate''"
| "DescribeReject ConflictFeeTooLow = ''conflicts with mempool transactions paying more in total fees''"
| "DescribeReject ConflictsTooMany = ''would replace more mempool transactions than one transaction may''"
| "DescribeReject PoolFull = ''the mempool is full of transactions paying more''"

record rejection =
  rejection_reason :: reject_reason
  rejection_rule :: "validation_error option"

record pool_entry =
  pe_tx :: transaction
  pe_txid :: hash256
  pe_wtxid :: hash256
  pe_fee :: i64
  pe_weight :: nat
  pe_time :: i64

record entry_internal =
  int_entry :: pool_entry
  int_children :: "hash256 list"
  int_parents :: "hash256 list"

type_synonym pool_entries = "(hash256 \<times> entry_internal) list"

record mempool =
  mp_entries :: pool_entries
  mp_spent_by :: "outpoint \<rightharpoonup> hash256"
  mp_by_txid :: "hash256 \<rightharpoonup> hash256"
  mp_total_weight :: u64
  mp_total_fees :: i64

definition Mempool_new :: mempool where
  "Mempool_new =
     \<lparr>mp_entries = [], mp_spent_by = Map.empty, mp_by_txid = Map.empty, mp_total_weight = 0, mp_total_fees = 0\<rparr>"

abbreviation entry_of :: "mempool \<Rightarrow> hash256 \<rightharpoonup> entry_internal" where
  "entry_of p \<equiv> map_of (mp_entries p)"

definition Pool_Find :: "mempool \<Rightarrow> hash256 \<Rightarrow> pool_entry option" where
  "Pool_Find p wtxid = map_option int_entry (entry_of p wtxid)"

definition FindByTxid :: "mempool \<Rightarrow> hash256 \<Rightarrow> pool_entry option" where
  "FindByTxid p txid = Option.bind (mp_by_txid p txid) (Pool_Find p)"

definition SpenderOf :: "mempool \<Rightarrow> outpoint \<Rightarrow> pool_entry option" where
  "SpenderOf p outpoint = Option.bind (mp_spent_by p outpoint) (Pool_Find p)"

definition Wtxids :: "mempool \<Rightarrow> hash256 list" where
  "Wtxids p = map fst (mp_entries p)"

section \<open>Who depends on whom\<close>

definition hs_insert :: "'a \<Rightarrow> 'a list \<Rightarrow> 'a list" where
  "hs_insert x xs = (if x \<in> set xs then xs else xs @ [x])"

text \<open>The inner loop of the two searches: what is newly reached joins the queue.\<close>

fun push_new :: "hash256 list \<Rightarrow> hash256 list \<Rightarrow> hash256 list \<Rightarrow> hash256 list \<times> hash256 list" where
  "push_new [] frontier reached = (frontier, reached)"
| "push_new (x # xs) frontier reached =
     (if x \<in> set reached then push_new xs frontier reached
      else push_new xs (frontier @ [x]) (reached @ [x]))"

lemma push_new_measure:
  assumes "push_new xs frontier reached = (frontier', reached')" and "set xs \<subseteq> U" and "finite U"
  shows "length frontier' + card (U - set reached') = length frontier + card (U - set reached)"
  using assms(1,2)
proof (induction xs frontier reached rule: push_new.induct)
  case (1 frontier reached)
  then show ?case by simp
next
  case (2 x xs frontier reached)
  show ?case
  proof (cases "x \<in> set reached")
    case True
    with 2 show ?thesis by simp
  next
    case False
    have "U - set reached = insert x (U - set (reached @ [x]))" "x \<notin> U - set (reached @ [x])"
      using False 2(4) by auto
    then have "card (U - set reached) = Suc (card (U - set (reached @ [x])))"
      using assms(3) by (metis card_insert_disjoint finite_Diff)
    with 2(2) [OF False] 2(3,4) False show ?thesis by simp
  qed
qed

text \<open>The two searches differ only in the links they follow.\<close>

function reach_loop ::
  "(entry_internal \<Rightarrow> hash256 list) \<Rightarrow> pool_entries \<Rightarrow> hash256 list \<Rightarrow> hash256 list \<Rightarrow> hash256 list"
where
  "reach_loop links entries [] reached = reached"
| "reach_loop links entries (current # frontier) reached =
     (case map_of entries current of
        None \<Rightarrow> reach_loop links entries frontier reached
      | Some e \<Rightarrow>
          case push_new (links e) frontier reached of (frontier', reached') \<Rightarrow>
            reach_loop links entries frontier' reached')"
  by pat_completeness auto

termination
proof (relation "measure (\<lambda>(links, entries, frontier, reached).
    length frontier + card ((\<Union>e \<in> snd ` set entries. set (links e)) - set reached))", goal_cases)
  case (3 links entries current frontier reached e frontier' reached')
  let ?U = "\<Union>e \<in> snd ` set entries. set (links e)"
  from 3(1) have "e \<in> snd ` set entries" by (metis map_of_SomeD image_eqI snd_conv)
  then have "set (links e) \<subseteq> ?U" by blast
  moreover have "push_new (links e) frontier reached = (frontier', reached')" using 3(2) by simp
  ultimately have "length frontier' + card (?U - set reached') = length frontier + card (?U - set reached)"
    using push_new_measure [of "links e" frontier reached frontier' reached' ?U] by simp
  then show ?case by simp
qed simp_all

definition DescendantsOf :: "mempool \<Rightarrow> hash256 \<Rightarrow> hash256 list" where
  "DescendantsOf p wtxid =
     (if entry_of p wtxid = None then [] else reach_loop int_children (mp_entries p) [wtxid] [wtxid])"

definition AncestorsOf :: "mempool \<Rightarrow> hash256 \<Rightarrow> hash256 list" where
  "AncestorsOf p wtxid =
     (if entry_of p wtxid = None then [] else reach_loop int_parents (mp_entries p) [wtxid] [wtxid])"

definition DescendantTotals :: "mempool \<Rightarrow> hash256 \<Rightarrow> i64 \<times> nat" where
  "DescendantTotals p wtxid =
     fold (\<lambda>id (fee, weight).
         case entry_of p id of
           None \<Rightarrow> (fee, weight)
         | Some e \<Rightarrow> (i64_wrap (fee + pe_fee (int_entry e)), weight + pe_weight (int_entry e)))
       (DescendantsOf p wtxid) (0, 0)"

definition DirectConflicts :: "mempool \<Rightarrow> transaction \<Rightarrow> hash256 list" where
  "DirectConflicts p tx =
     fold (\<lambda>input conflicts.
         case mp_spent_by p (in_outpoint input) of None \<Rightarrow> conflicts | Some w \<Rightarrow> hs_insert w conflicts)
       (tx_inputs tx) []"

section \<open>Removal\<close>

definition modify_entry ::
  "hash256 \<Rightarrow> (entry_internal \<Rightarrow> entry_internal) \<Rightarrow> pool_entries \<Rightarrow> pool_entries" where
  "modify_entry w f entries =
     (case map_of entries w of None \<Rightarrow> entries | Some e \<Rightarrow> AList.update w (f e) entries)"

definition Unlink :: "hash256 \<Rightarrow> mempool \<Rightarrow> mempool" where
  "Unlink wtxid p =
     (case entry_of p wtxid of
        None \<Rightarrow> p
      | Some doomed \<Rightarrow>
          let entries1 = fold (\<lambda>parent.
                modify_entry parent (\<lambda>e. e\<lparr>int_children := removeAll wtxid (int_children e)\<rparr>))
                (int_parents doomed) (mp_entries p);
              entries2 = fold (\<lambda>child.
                modify_entry child (\<lambda>e. e\<lparr>int_parents := removeAll wtxid (int_parents e)\<rparr>))
                (int_children doomed) entries1;
              spent_by = fold (\<lambda>input m.
                if m (in_outpoint input) = Some wtxid then m(in_outpoint input := None) else m)
                (tx_inputs (pe_tx (int_entry doomed))) (mp_spent_by p);
              txid = pe_txid (int_entry doomed);
              by_txid = (if mp_by_txid p txid = Some wtxid then (mp_by_txid p)(txid := None) else mp_by_txid p)
          in \<lparr>mp_entries = AList.delete wtxid entries2, mp_spent_by = spent_by, mp_by_txid = by_txid,
              mp_total_weight = mp_total_weight p - of_nat (pe_weight (int_entry doomed)),
              mp_total_fees = i64_wrap (mp_total_fees p - pe_fee (int_entry doomed))\<rparr>)"

definition Remove :: "hash256 \<Rightarrow> mempool \<Rightarrow> mempool" where
  "Remove wtxid p = Unlink wtxid p"

definition RemoveRecursive :: "hash256 \<Rightarrow> mempool \<Rightarrow> nat \<times> mempool" where
  "RemoveRecursive wtxid p =
     (let doomed = DescendantsOf p wtxid in (length doomed, fold Unlink doomed p))"

text \<open>The two loops of \<^verbatim>\<open>RemoveForBlock\<close>, and their bodies.\<close>

definition remove_confirmed :: "crypto_ext \<Rightarrow> transaction \<Rightarrow> nat \<times> mempool \<Rightarrow> nat \<times> mempool" where
  "remove_confirmed E tx = (\<lambda>(removed, p).
     case mp_by_txid p (Txid E tx) of
       None \<Rightarrow> (removed, p)
     | Some wtxid \<Rightarrow> (removed + 1, Remove wtxid p))"

definition remove_spender :: "tx_input \<Rightarrow> nat \<times> mempool \<Rightarrow> nat \<times> mempool" where
  "remove_spender input = (\<lambda>(removed, p).
     case mp_spent_by p (in_outpoint input) of
       None \<Rightarrow> (removed, p)
     | Some spender \<Rightarrow> (case RemoveRecursive spender p of (n, p') \<Rightarrow> (removed + n, p')))"

definition RemoveForBlock :: "crypto_ext \<Rightarrow> block \<Rightarrow> mempool \<Rightarrow> nat \<times> mempool" where
  "RemoveForBlock E block p =
     fold (\<lambda>tx s. if IsCoinbase tx then s else fold remove_spender (tx_inputs tx) s) (blk_transactions block)
       (fold (remove_confirmed E) (blk_transactions block) (0, p))"

section \<open>Judging again\<close>

fun ResolveInputs_loop :: "mempool \<Rightarrow> coins_view \<Rightarrow> u32 \<Rightarrow> tx_input list \<Rightarrow> coin list option" where
  "ResolveInputs_loop p base spend_height [] = Some []"
| "ResolveInputs_loop p base spend_height (input # inputs) =
     (case view_GetCoin base (in_outpoint input) of
        Some confirmed \<Rightarrow> map_option ((#) confirmed) (ResolveInputs_loop p base spend_height inputs)
      | None \<Rightarrow>
          case FindByTxid p (op_txid (in_outpoint input)) of
            None \<Rightarrow> None
          | Some parent \<Rightarrow>
              if unat (op_index (in_outpoint input)) \<ge> length (tx_outputs (pe_tx parent)) then None
              else map_option
                ((#) \<lparr>coin_output = tx_outputs (pe_tx parent) ! unat (op_index (in_outpoint input)),
                   coin_height = spend_height, coin_is_coinbase = False\<rparr>)
                (ResolveInputs_loop p base spend_height inputs))"

definition ResolveInputs :: "mempool \<Rightarrow> transaction \<Rightarrow> coins_view \<Rightarrow> u32 \<Rightarrow> coin list option" where
  "ResolveInputs p tx base spend_height = ResolveInputs_loop p base spend_height (tx_inputs tx)"

definition rejudge ::
  "crypto_ext \<Rightarrow> coins_view \<Rightarrow> u32 \<Rightarrow> chain_params \<Rightarrow> hash256 \<Rightarrow> nat \<times> mempool \<Rightarrow> nat \<times> mempool" where
  "rejudge E base spend_height params wtxid = (\<lambda>(removed, p).
     case entry_of p wtxid of
       None \<Rightarrow> (removed, p)
     | Some e \<Rightarrow>
         let tx = pe_tx (int_entry e);
             drop = (case RemoveRecursive wtxid p of (n, p') \<Rightarrow> (removed + n, p'))
         in case ResolveInputs p tx base spend_height of
              None \<Rightarrow> drop
            | Some spent \<Rightarrow>
                case CheckTransactionInputs E tx spent spend_height params of
                  Inl _ \<Rightarrow> drop
                | Inr _ \<Rightarrow> (removed, p))"

definition RemoveForReorg ::
  "crypto_ext \<Rightarrow> coins_view \<Rightarrow> u32 \<Rightarrow> chain_params \<Rightarrow> mempool \<Rightarrow> nat \<times> mempool" where
  "RemoveForReorg E base spend_height params p = fold (rejudge E base spend_height params) (Wtxids p) (0, p)"

section \<open>Eviction\<close>

definition Trim_step ::
  "mempool \<Rightarrow> hash256 \<Rightarrow> (hash256 \<times> i64 \<times> nat) option \<Rightarrow> (hash256 \<times> i64 \<times> nat) option" where
  "Trim_step p wtxid worst =
     (case DescendantTotals p wtxid of (fee, weight) \<Rightarrow>
        case worst of
          None \<Rightarrow> Some (wtxid, fee, weight)
        | Some (worst_id, worst_fee, worst_weight) \<Rightarrow>
            let cmp = CompareFeerate fee weight worst_fee worst_weight
            in if cmp < 0 \<or> cmp = 0 \<and> wtxid < worst_id then Some (wtxid, fee, weight) else worst)"

definition Trim_scan :: "mempool \<Rightarrow> (hash256 \<times> i64 \<times> nat) option" where
  "Trim_scan p = fold (Trim_step p) (map fst (mp_entries p)) None"

lemma Trim_step_cases:
  "Trim_step p w worst = Some (w, DescendantTotals p w) \<or> Trim_step p w worst = worst \<and> worst \<noteq> None"
  by (auto simp: Trim_step_def Let_def split: prod.splits option.splits)

text \<open>Which entries a removal leaves.\<close>

lemma modify_entry_keys [simp]: "map fst (modify_entry w f es) = map fst es"
proof (cases "map_of es w")
  case (Some e)
  then have "w \<in> set (map fst es)" by (metis map_of_SomeD image_eqI fst_conv set_map)
  with Some show ?thesis by (simp add: modify_entry_def update_keys)
qed (simp add: modify_entry_def)

lemma fold_modify_keys: "map fst (fold (\<lambda>x. modify_entry x f) xs es) = map fst es"
  by (induction xs arbitrary: es) simp_all

lemma Unlink_keys [simp]: "Wtxids (Unlink w p) = removeAll w (Wtxids p)"
proof (cases "entry_of p w")
  case None
  then have "w \<notin> set (Wtxids p)" by (simp add: Wtxids_def map_of_eq_None_iff)
  with None show ?thesis by (simp add: Unlink_def)
next
  case (Some e)
  then show ?thesis by (simp add: Unlink_def Wtxids_def Let_def delete_keys fold_modify_keys)
qed

lemma fold_Unlink_keys: "Wtxids (fold Unlink ws p) = filter (\<lambda>w. w \<notin> set ws) (Wtxids p)"
proof (induction ws arbitrary: p)
  case (Cons w ws)
  show ?case unfolding fold.simps o_apply Cons.IH Unlink_keys by (auto simp: removeAll_filter_not_eq intro!: filter_cong)
qed simp

lemma known_iff_key: "entry_of p w \<noteq> None \<longleftrightarrow> w \<in> set (Wtxids p)"
  by (simp add: Wtxids_def map_of_eq_None_iff)

lemma push_new_reached: "push_new xs fr reached = (fr', reached') \<Longrightarrow> set reached \<subseteq> set reached'"
  by (induction xs fr reached rule: push_new.induct) (auto split: if_splits)

lemma reach_loop_reached: "set reached \<subseteq> set (reach_loop links es fr reached)"
proof (induction links es fr reached rule: reach_loop.induct)
  case (2 links es current frontier reached)
  show ?case
  proof (cases "map_of es current")
    case None
    with 2(1) show ?thesis by simp
  next
    case (Some e)
    obtain fr' re' where p: "push_new (links e) frontier reached = (fr', re')" by fastforce
    from 2(2) [OF Some p [symmetric]] push_new_reached [OF p] Some p show ?thesis by simp
  qed
qed simp

lemma DescendantsOf_self: "w \<in> set (Wtxids p) \<Longrightarrow> w \<in> set (DescendantsOf p w)"
  using reach_loop_reached [of "[w]" int_children "mp_entries p" "[w]"] known_iff_key [of p w]
  by (simp add: DescendantsOf_def del: reach_loop.simps)

lemma Trim_scan_key:
  assumes "Trim_scan p = Some (w, fee, weight)"
  shows "w \<in> set (Wtxids p)"
proof -
  have "fold (Trim_step p) ids worst = Some (w, fee, weight) \<Longrightarrow>
      w \<in> set ids \<or> (\<exists>f x. worst = Some (w, f, x))" for ids worst
  proof (induction ids arbitrary: worst)
    case (Cons i ids)
    from Cons.IH [OF Cons.prems [unfolded fold.simps o_apply]] Trim_step_cases [of p i worst] show ?case by auto
  qed simp
  from this [OF assms [unfolded Trim_scan_def]] show ?thesis by (simp add: Wtxids_def)
qed

lemma RemoveRecursive_fewer:
  assumes "RemoveRecursive w p = (n, p')" and "w \<in> set (Wtxids p)"
  shows "length (mp_entries p') < length (mp_entries p)"
proof -
  have "w \<notin> set (Wtxids p')"
    using assms DescendantsOf_self [OF assms(2)] by (auto simp: RemoveRecursive_def Let_def fold_Unlink_keys)
  then have "length (Wtxids p') < length (Wtxids p)"
    using assms DescendantsOf_self [OF assms(2)]
    by (auto simp: RemoveRecursive_def Let_def fold_Unlink_keys intro!: length_filter_less)
  then show ?thesis by (simp add: Wtxids_def)
qed

function Trim_loop :: "nat \<Rightarrow> nat \<Rightarrow> mempool \<Rightarrow> nat \<times> mempool" where
  "Trim_loop target_weight evicted p =
     (if unat (mp_total_weight p) > target_weight \<and> mp_entries p \<noteq> [] then
        case Trim_scan p of
          None \<Rightarrow> (evicted, p)
        | Some (worst, _, _) \<Rightarrow>
            (case RemoveRecursive worst p of (n, p') \<Rightarrow> Trim_loop target_weight (evicted + n) p')
      else (evicted, p))"
  by pat_completeness auto

termination
proof (relation "measure (\<lambda>(target, evicted, p). length (mp_entries p))", goal_cases)
  case (2 target_weight evicted p x a x' y x2 n p')
  then show ?case using RemoveRecursive_fewer [of a p n p'] Trim_scan_key [of p a] by auto
qed simp

declare Trim_loop.simps [simp del] reach_loop.simps [simp del]

definition Trim :: "nat \<Rightarrow> mempool \<Rightarrow> nat \<times> mempool" where
  "Trim target_weight p = Trim_loop target_weight 0 p"

section \<open>Acceptance\<close>

definition refused :: "reject_reason \<Rightarrow> validation_error option \<Rightarrow> rejection" where
  "refused reason rule = \<lparr>rejection_reason = reason, rejection_rule = rule\<rparr>"

text \<open>What an arrival would displace, and what it pays for that.\<close>

definition doomed_by :: "mempool \<Rightarrow> transaction \<Rightarrow> hash256 list" where
  "doomed_by p tx = fold (\<lambda>id doomed. fold hs_insert (DescendantsOf p id) doomed) (DirectConflicts p tx) []"

definition displaced_fee :: "mempool \<Rightarrow> hash256 list \<Rightarrow> i64" where
  "displaced_fee p doomed =
     fold (\<lambda>id fee. case entry_of p id of None \<Rightarrow> fee | Some e \<Rightarrow> i64_wrap (fee + pe_fee (int_entry e))) doomed 0"

definition replacement_refusal :: "mempool \<Rightarrow> transaction \<Rightarrow> i64 \<Rightarrow> nat \<Rightarrow> reject_reason option" where
  "replacement_refusal p tx fee weight =
     (let doomed = doomed_by p tx
      in if length doomed > MAX_REPLACEMENT_EVICTIONS then Some ConflictsTooMany
         else if doomed = [] then None
         else if list_ex (\<lambda>id. case DescendantTotals p id of (cluster_fee, cluster_weight) \<Rightarrow>
             CompareFeerate fee weight cluster_fee cluster_weight \<le> 0) (DirectConflicts p tx)
           then Some ConflictFeerateTooLow
         else if fee \<le> displaced_fee p doomed then Some ConflictFeeTooLow
         else None)"

text \<open>Where an arrival sits.\<close>

definition pool_parents :: "mempool \<Rightarrow> transaction \<Rightarrow> hash256 list" where
  "pool_parents p tx =
     fold (\<lambda>input parents.
         case mp_by_txid p (op_txid (in_outpoint input)) of None \<Rightarrow> parents | Some w \<Rightarrow> hs_insert w parents)
       (tx_inputs tx) []"

definition surviving_ancestors :: "mempool \<Rightarrow> hash256 list \<Rightarrow> hash256 list \<Rightarrow> hash256 list" where
  "surviving_ancestors p doomed parents =
     fold (\<lambda>parent ancestors.
         fold (\<lambda>id ancestors. if id \<in> set doomed then ancestors else hs_insert id ancestors)
           (AncestorsOf p parent) ancestors)
       parents []"

definition surviving_descendants :: "mempool \<Rightarrow> hash256 list \<Rightarrow> hash256 \<Rightarrow> nat" where
  "surviving_descendants p doomed wtxid =
     length (filter (\<lambda>descendant. descendant \<noteq> wtxid \<and> descendant \<notin> set doomed) (DescendantsOf p wtxid))"

definition shape_refusal :: "mempool \<Rightarrow> hash256 list \<Rightarrow> hash256 list \<Rightarrow> rejection option" where
  "shape_refusal p doomed parents =
     (let ancestors = surviving_ancestors p doomed parents
      in if list_ex (\<lambda>parent. parent \<in> set doomed) parents
           then Some (refused MissingOrSpentInput (Some TxInputMissingOrSpent))
         else if length ancestors > MAX_MEMPOOL_ANCESTORS then Some (refused TooManyAncestors None)
         else if list_ex (\<lambda>id. surviving_descendants p doomed id + 1 > MAX_MEMPOOL_DESCENDANTS) ancestors
           then Some (refused TooManyDescendants None)
         else None)"

text \<open>The new entry, its links and its place in the indices.\<close>

definition insert_entry :: "pool_entry \<Rightarrow> hash256 list \<Rightarrow> mempool \<Rightarrow> mempool" where
  "insert_entry entry parents p =
     (let wtxid = pe_wtxid entry;
          entries = (wtxid, \<lparr>int_entry = entry, int_children = [], int_parents = parents\<rparr>) # mp_entries p
      in \<lparr>mp_entries = fold (\<lambda>parent.
            modify_entry parent (\<lambda>e. e\<lparr>int_children := hs_insert wtxid (int_children e)\<rparr>)) parents entries,
          mp_spent_by = fold (\<lambda>input m. m(in_outpoint input \<mapsto> wtxid)) (tx_inputs (pe_tx entry)) (mp_spent_by p),
          mp_by_txid = (mp_by_txid p)(pe_txid entry \<mapsto> wtxid),
          mp_total_weight = mp_total_weight p + of_nat (pe_weight entry),
          mp_total_fees = i64_wrap (mp_total_fees p + pe_fee entry)\<rparr>)"

definition AcceptCoins ::
  "crypto_ext \<Rightarrow> transaction \<Rightarrow> coin list \<Rightarrow> u32 \<Rightarrow> i64 \<Rightarrow> chain_params \<Rightarrow> mempool \<Rightarrow> (rejection + pool_entry) \<times> mempool"
where
  "AcceptCoins E tx spent_coins spend_height now params p =
     (if IsCoinbase tx then (Inl (refused Coinbase None), p)
      else if entry_of p (Wtxid E tx) \<noteq> None then (Inl (refused AlreadyPresent None), p)
      else case CheckTransaction tx params of
        Inl e \<Rightarrow> (Inl (refused ConsensusRuleFailed (Some e)), p)
      | Inr _ \<Rightarrow>
      (case CheckTransactionInputs E tx spent_coins spend_height params of
        Inl e \<Rightarrow> (Inl (refused ConsensusRuleFailed (Some e)), p)
      | Inr fee \<Rightarrow>
          let weight = Transaction_Weight tx in
          if weight = 0 then (Inl (refused ZeroWeight None), p)
          else if weight > MAX_MEMPOOL_WEIGHT then (Inl (refused PoolFull None), p)
          else if fee < int weight * MIN_RELAY_FEERATE then (Inl (refused FeeBelowRelayMinimum None), p)
          else case replacement_refusal p tx fee weight of
            Some reason \<Rightarrow> (Inl (refused reason None), p)
          | None \<Rightarrow>
          let doomed = doomed_by p tx; parents = pool_parents p tx in
          case shape_refusal p doomed parents of
            Some refusal \<Rightarrow> (Inl refusal, p)
          | None \<Rightarrow>
              let entry = \<lparr>pe_tx = tx, pe_txid = Txid E tx, pe_wtxid = Wtxid E tx, pe_fee = fee,
                    pe_weight = weight, pe_time = now\<rparr>;
                  p1 = insert_entry entry parents (fold Unlink doomed p)
              in if unat (mp_total_weight p1) > MAX_MEMPOOL_WEIGHT then
                   let p2 = snd (Trim MAX_MEMPOOL_WEIGHT p1)
                   in if entry_of p2 (Wtxid E tx) = None then (Inl (refused PoolFull None), p2)
                      else (Inr entry, p2)
                 else (Inr entry, p1)))"

definition AcceptTx ::
  "crypto_ext \<Rightarrow> transaction \<Rightarrow> coins_view \<Rightarrow> u32 \<Rightarrow> i64 \<Rightarrow> chain_params \<Rightarrow> mempool \<Rightarrow> (rejection + pool_entry) \<times> mempool"
where
  "AcceptTx E tx base spend_height now params p =
     (if IsCoinbase tx then (Inl (refused Coinbase None), p)
      else case CheckTransaction tx params of
        Inl e \<Rightarrow> (Inl (refused ConsensusRuleFailed (Some e)), p)
      | Inr _ \<Rightarrow>
          case ResolveInputs p tx base spend_height of
            None \<Rightarrow> (Inl (refused MissingOrSpentInput (Some TxInputMissingOrSpent)), p)
          | Some spent \<Rightarrow> AcceptCoins E tx spent spend_height now params p)"

section \<open>Selection\<close>

text \<open>\<^verbatim>\<open>std::sort\<close> under a strict total order has one result, which insertion computes.\<close>

type_synonym candidate = "hash256 \<times> i64 \<times> nat"

definition ranks_before :: "candidate \<Rightarrow> candidate \<Rightarrow> bool" where
  "ranks_before a b = (case a of (id_a, fee_a, weight_a) \<Rightarrow> case b of (id_b, fee_b, weight_b) \<Rightarrow>
     let cmp = CompareFeerate fee_a weight_a fee_b weight_b
     in if cmp \<noteq> 0 then cmp > 0 else id_a < id_b)"

fun insert_ranked :: "candidate \<Rightarrow> candidate list \<Rightarrow> candidate list" where
  "insert_ranked c [] = [c]"
| "insert_ranked c (d # ds) = (if ranks_before d c then d # insert_ranked c ds else c # d # ds)"

definition ranked_candidates :: "mempool \<Rightarrow> candidate list" where
  "ranked_candidates p = foldr insert_ranked (map (\<lambda>id. (id, DescendantTotals p id)) (map fst (mp_entries p))) []"

text \<open>One round of emitting a package: the first entry that can go, or None when none can.\<close>

fun emit_scan ::
  "mempool \<Rightarrow> hash256 list \<Rightarrow> hash256 list \<Rightarrow> hash256 list \<Rightarrow> ((hash256 \<times> pool_entry) option \<times> hash256 list) option" where
  "emit_scan p included skipped [] = None"
| "emit_scan p included skipped (w # package) =
     (case entry_of p w of
        None \<Rightarrow> Some (None, skipped @ package)
      | Some e \<Rightarrow>
          if list_all (\<lambda>parent. parent \<in> set included) (int_parents e)
          then Some (Some (w, int_entry e), skipped @ package)
          else emit_scan p included (skipped @ [w]) package)"

lemma emit_scan_shorter:
  "emit_scan p included skipped package = Some (r, package') \<Longrightarrow> length package' < length skipped + length package"
  by (induction p included skipped package rule: emit_scan.induct) (fastforce split: option.splits if_splits)+

function emit_loop ::
  "mempool \<Rightarrow> hash256 list \<Rightarrow> pool_entry list \<times> hash256 list \<times> nat \<Rightarrow> pool_entry list \<times> hash256 list \<times> nat" where
  "emit_loop p package (selected, included, used) =
     (if package = [] then (selected, included, used)
      else case emit_scan p included [] package of
          None \<Rightarrow> (selected, included, used)
        | Some (None, package') \<Rightarrow> emit_loop p package' (selected, included, used)
        | Some (Some (w, entry), package') \<Rightarrow>
            emit_loop p package' (selected @ [entry], hs_insert w included, used + pe_weight entry))"
  by pat_completeness auto

termination
  by (relation "measure (\<lambda>(p, package, s). length package)") (auto dest: emit_scan_shorter)

declare emit_loop.simps [simp del]

definition package_of :: "mempool \<Rightarrow> hash256 list \<Rightarrow> hash256 \<Rightarrow> hash256 list" where
  "package_of p included wtxid =
     filter (\<lambda>a. a \<notin> set included \<and> entry_of p a \<noteq> None) (AncestorsOf p wtxid)"

definition package_weight :: "mempool \<Rightarrow> hash256 list \<Rightarrow> nat" where
  "package_weight p package = sum_list (map (\<lambda>id. pe_weight (int_entry (the (entry_of p id)))) package)"

definition select_candidate ::
  "mempool \<Rightarrow> nat \<Rightarrow> candidate \<Rightarrow> pool_entry list \<times> hash256 list \<times> nat \<Rightarrow> pool_entry list \<times> hash256 list \<times> nat" where
  "select_candidate p available_weight c = (\<lambda>(selected, included, used).
     if fst c \<in> set included then (selected, included, used)
     else
       let package = package_of p included (fst c)
       in if used + package_weight p package > available_weight then (selected, included, used)
          else emit_loop p package (selected, included, used))"

definition GetTemplates :: "mempool \<Rightarrow> nat \<Rightarrow> pool_entry list" where
  "GetTemplates p available_weight =
     fst (fold (select_candidate p available_weight) (ranked_candidates p) ([], [], 0))"

definition LowestPackageFeerate :: "mempool \<Rightarrow> i64" where
  "LowestPackageFeerate p =
     (case fold (\<lambda>id lowest.
          case DescendantTotals p id of (fee, weight) \<Rightarrow>
            let rate = FeerateFloor fee weight
            in case lowest of None \<Rightarrow> Some rate | Some l \<Rightarrow> if rate < l then Some rate else lowest)
        (map fst (mp_entries p)) None of
        None \<Rightarrow> 0
      | Some lowest \<Rightarrow> lowest)"

section \<open>Fee rates are compared exactly\<close>

definition product_val :: "product \<Rightarrow> nat" where
  "product_val q = unat (prod_hi q) * 2 ^ 64 + unat (prod_lo q)"

lemma unat_join_halves:
  fixes x y :: u64
  shows "unat ((x AND 0xFFFFFFFF) OR push_bit 32 y) = unat x mod 2 ^ 32 + (unat y mod 2 ^ 32) * 2 ^ 32"
proof -
  let ?l = "x AND 0xFFFFFFFF"
  have l: "?l = take_bit 32 x" by (simp only: take_bit_eq_mask mask_eq_exp_minus_1) simp
  have "?l AND push_bit 32 y = 0"
    unfolding l by (rule bit_eqI) (auto simp: bit_simps)
  then have o: "?l OR push_bit 32 y = ?l + push_bit 32 y" by (simp add: disjunctive_add_eq_or)
  have "unat ?l + unat (push_bit 32 y) < 2 ^ 32 + (2 ^ 32 - 1) * 2 ^ 32"
    unfolding halves unat_shift_half by (intro add_less_le_mono mult_le_mono1) (simp_all add: less_Suc_eq_le [symmetric])
  then have "unat ?l + unat (push_bit 32 y) < 2 ^ 64" by simp
  then show ?thesis unfolding o unat_add_u64 by (simp add: halves unat_shift_half)
qed

text \<open>The schoolbook product in halves of \<open>R\<close>, with its carries.\<close>

lemma schoolbook:
  fixes A0 A1 B0 B1 R :: nat
  assumes "mid = A0 * B0 div R + A0 * B1 mod R + A1 * B0 mod R"
  shows "(A1 * B1 + A0 * B1 div R + A1 * B0 div R + mid div R) * (R * R) + (A0 * B0 mod R + (mid mod R) * R) =
    (A1 * R + A0) * (B1 * R + B0)"
proof -
  have l: "A0 * B0 = (A0 * B0 div R) * R + A0 * B0 mod R" and h: "A0 * B1 = (A0 * B1 div R) * R + A0 * B1 mod R"
    and k: "A1 * B0 = (A1 * B0 div R) * R + A1 * B0 mod R" and m: "mid = (mid div R) * R + mid mod R" by simp_all
  have "(A1 * R + A0) * (B1 * R + B0) = A1 * B1 * (R * R) + (A0 * B1) * R + (A1 * B0) * R + A0 * B0"
    by (simp add: algebra_simps)
  also have "\<dots> = (A1 * B1 + A0 * B1 div R + A1 * B0 div R) * (R * R) + mid * R + A0 * B0 mod R"
    unfolding assms by (subst h, subst k, subst l) (simp only: algebra_simps)
  also have "mid * R = (mid div R) * (R * R) + (mid mod R) * R"
    by (subst m) (simp only: algebra_simps)
  finally show ?thesis by (simp only: algebra_simps)
qed

lemma unat_sum4:
  fixes x y z w :: u64
  assumes "unat x + unat y + unat z + unat w < 2 ^ 64"
  shows "unat (x + y + z + w) = unat x + unat y + unat z + unat w"
proof -
  have "unat (x + y) = unat x + unat y" using assms by (simp only: unat_add_u64) simp
  moreover from this have "unat (x + y + z) = unat x + unat y + unat z"
    using assms by (simp only: unat_add_u64 [of "x + y"]) simp
  ultimately show ?thesis using assms by (simp only: unat_add_u64 [of "x + y + z"]) simp
qed

lemma Mul64_val: "product_val (Mul64 a b) = unat a * unat b"
proof -
  let ?R = "2 ^ 32 :: nat"
  let ?A0 = "unat a mod ?R" and ?A1 = "unat a div ?R" and ?B0 = "unat b mod ?R" and ?B1 = "unat b div ?R"
  let ?a0 = "a AND 0xFFFFFFFF" and ?a1 = "drop_bit 32 a" and ?b0 = "b AND 0xFFFFFFFF" and ?b1 = "drop_bit 32 b"
  have small: "?A0 < ?R" "?A1 < ?R" "?B0 < ?R" "?B1 < ?R"
    using unat_u64_less [of a] unat_u64_less [of b] by (simp_all add: less_mult_imp_div_less)
  have ll: "unat (?a0 * ?b0) = ?A0 * ?B0" and lh: "unat (?a0 * ?b1) = ?A0 * ?B1" and hl: "unat (?a1 * ?b0) = ?A1 * ?B0"
    and hh: "unat (?a1 * ?b1) = ?A1 * ?B1"
    using small by (simp_all add: unat_mult_half halves)
  let ?mid = "drop_bit 32 (?a0 * ?b0) + (?a0 * ?b1 AND 0xFFFFFFFF) + (?a1 * ?b0 AND 0xFFFFFFFF)"
  let ?M = "?A0 * ?B0 div ?R + ?A0 * ?B1 mod ?R + ?A1 * ?B0 mod ?R"
  have "?A0 * ?B0 div ?R < ?R"
    using mult_strict_mono [OF small(1,3)] by (intro less_mult_imp_div_less) simp
  moreover have "?A0 * ?B1 mod ?R < ?R" "?A1 * ?B0 mod ?R < ?R" by simp_all
  ultimately have "?M < 3 * ?R" by linarith
  then have M: "?M < 2 ^ 64" by (rule less_le_trans) simp
  have mid: "unat ?mid = ?M"
    using unat_sum4 [of "drop_bit 32 (?a0 * ?b0)" "?a0 * ?b1 AND 0xFFFFFFFF" "?a1 * ?b0 AND 0xFFFFFFFF" 0] M
    by (simp only: halves ll lh hl unat_0 add_0_right)
  let ?H = "?A1 * ?B1 + ?A0 * ?B1 div ?R + ?A1 * ?B0 div ?R + ?M div ?R"
  have "?H * (?R * ?R) + (?A0 * ?B0 mod ?R + (?M mod ?R) * ?R) = (?A1 * ?R + ?A0) * (?B1 * ?R + ?B0)"
    by (rule schoolbook [OF refl])
  then have e: "?H * (?R * ?R) + (?A0 * ?B0 mod ?R + (?M mod ?R) * ?R) = unat a * unat b"
    by (simp only: div_mult_mod_eq)
  have "unat a * unat b < 2 ^ 64 * 2 ^ 64" by (intro mult_strict_mono) (simp_all only: unat_u64_less, simp_all)
  with e have "?H * (?R * ?R) < 2 ^ 64 * 2 ^ 64" by linarith
  then have H: "?H < 2 ^ 64" by simp
  have "unat (prod_hi (Mul64 a b)) = ?H"
  proof -
    have hi: "prod_hi (Mul64 a b) = ?a1 * ?b1 + drop_bit 32 (?a0 * ?b1) + drop_bit 32 (?a1 * ?b0) + drop_bit 32 ?mid"
      unfolding Mul64_def Let_def by (simp only: product.simps)
    have c: "unat (drop_bit 32 (?a0 * ?b1)) = ?A0 * ?B1 div ?R" "unat (drop_bit 32 (?a1 * ?b0)) = ?A1 * ?B0 div ?R"
      "unat (drop_bit 32 ?mid) = ?M div ?R"
      by (simp_all only: halves lh hl mid)
    show ?thesis
      unfolding hi using unat_sum4 [of "?a1 * ?b1" "drop_bit 32 (?a0 * ?b1)" "drop_bit 32 (?a1 * ?b0)" "drop_bit 32 ?mid"] H
      by (simp only: c hh)
  qed
  moreover have "unat (prod_lo (Mul64 a b)) = ?A0 * ?B0 mod ?R + (?M mod ?R) * ?R"
    unfolding Mul64_def Let_def by (simp only: product.simps unat_join_halves ll mid)
  ultimately show ?thesis using e unfolding product_val_def by (simp only: power_add [symmetric] numeral_plus_numeral semiring_norm)
qed

lemma less_digits:
  fixes M :: nat
  assumes "l < M" and "l' < M"
  shows "h * M + l < h' * M + l' \<longleftrightarrow> h < h' \<or> h = h' \<and> l < l'"
proof -
  have "h * M + l < h' * M + l'" if "h < h'" and "l < M" for h h' l l'
  proof -
    have "Suc h * M \<le> h' * M" using that(1) by (intro mult_le_mono1) simp
    with that(2) show ?thesis by simp
  qed
  from this [of h h' l l'] this [of h' h l' l] assms show ?thesis by (cases h h' rule: linorder_cases) auto
qed

lemma CompareProducts_val: "CompareProducts a b = sgn (int (product_val a) - int (product_val b))"
proof -
  have lo: "unat (prod_lo q) < 2 ^ 64" for q by (rule unat_u64_less)
  have less: "product_val a < product_val b \<longleftrightarrow> prod_hi a < prod_hi b \<or> prod_hi a = prod_hi b \<and> prod_lo a < prod_lo b" for a b
    unfolding product_val_def word_less_nat_alt word_unat_eq_iff by (rule less_digits [OF lo lo])
  have "CompareProducts a b = (if product_val a < product_val b then - 1 else if product_val b < product_val a then 1 else 0)"
    unfolding less CompareProducts_def
    by (cases "prod_hi a" "prod_hi b" rule: linorder_cases; cases "prod_lo a" "prod_lo b" rule: linorder_cases) (auto dest: less_imp_neq)
  then show ?thesis by (simp add: sgn_if)
qed

lemma CompareFeerate_val:
  assumes "0 < wa" "wa < 2 ^ 64" "0 < wb" "wb < 2 ^ 64" and "fa < 2 ^ 64" "fb < 2 ^ 64"
  shows "CompareFeerate fa wa fb wb = sgn (max 0 fa * int wb - max 0 fb * int wa)"
proof -
  have s: "uint (word_of_int f :: u64) = f" if "0 < f" "f < 2 ^ 64" for f
    using that by (simp add: uint_word_of_int)
  have w: "unat (of_nat n :: u64) = n" if "n < 2 ^ 64" for n
    using that by (simp add: unat_of_nat_u64)
  show ?thesis
    using assms by (simp add: CompareFeerate_def Let_def CompareProducts_val Mul64_val s w mult_pos_pos)
qed

section \<open>The searches compute reachability\<close>

definition edges :: "(entry_internal \<Rightarrow> hash256 list) \<Rightarrow> pool_entries \<Rightarrow> (hash256 \<times> hash256) set" where
  "edges links es = {(a, b). \<exists>e. map_of es a = Some e \<and> b \<in> set (links e)}"

lemma push_new_spec:
  assumes "push_new xs fr reached = (fr', reached')"
  shows "set reached' = set reached \<union> set xs" "set fr' = set fr \<union> (set xs - set reached)"
    "distinct reached \<Longrightarrow> distinct reached'"
  using assms by (induction xs fr reached rule: push_new.induct) (auto split: if_splits)

lemma reach_loop_within:
  assumes "set reached \<subseteq> X" and "set fr \<subseteq> X" and "edges links es `` X \<subseteq> X"
  shows "set (reach_loop links es fr reached) \<subseteq> X"
  using assms
proof (induction links es fr reached rule: reach_loop.induct)
  case (2 links es current frontier reached)
  show ?case
  proof (cases "map_of es current")
    case None
    with 2(1) 2(3-) show ?thesis by (simp add: reach_loop.simps)
  next
    case (Some e)
    obtain fr' re' where p: "push_new (links e) frontier reached = (fr', re')" by fastforce
    have "set (links e) \<subseteq> X" using Some 2(4,5) by (auto simp: edges_def)
    with 2(3,4) push_new_spec(1,2) [OF p] have "set re' \<subseteq> X" "set fr' \<subseteq> X" by auto
    from 2(2) [OF Some p [symmetric] this 2(5)] Some p show ?thesis by (simp add: reach_loop.simps)
  qed
qed (simp add: reach_loop.simps)

lemma reach_loop_closed:
  assumes "edges links es `` (set reached - set fr) \<subseteq> set reached" and "set fr \<subseteq> set reached"
  shows "edges links es `` set (reach_loop links es fr reached) \<subseteq> set (reach_loop links es fr reached)"
  using assms
proof (induction links es fr reached rule: reach_loop.induct)
  case (2 links es current frontier reached)
  show ?case
  proof (cases "map_of es current")
    case None
    have "edges links es `` {current} = {}" using None by (auto simp: edges_def)
    then have "edges links es `` (set reached - set frontier) \<subseteq> set reached" using 2(3) by fastforce
    with 2(1) [OF None] 2(4) None show ?thesis by (simp add: reach_loop.simps)
  next
    case (Some e)
    obtain fr' re' where p: "push_new (links e) frontier reached = (fr', re')" by fastforce
    note n = push_new_spec [OF p]
    have "edges links es `` {current} = set (links e)" using Some by (auto simp: edges_def)
    then have "edges links es `` (set re' - set fr') \<subseteq> set re'"
      using 2(3) unfolding n by fastforce
    moreover have "set fr' \<subseteq> set re'" using 2(4) unfolding n by auto
    ultimately show ?thesis using 2(2) [OF Some p [symmetric]] Some p by (simp add: reach_loop.simps)
  qed
qed (simp add: reach_loop.simps)

lemma reach_loop_distinct: "distinct reached \<Longrightarrow> distinct (reach_loop links es fr reached)"
proof (induction links es fr reached rule: reach_loop.induct)
  case (2 links es current frontier reached)
  show ?case
  proof (cases "map_of es current")
    case None
    with 2 show ?thesis by (simp add: reach_loop.simps)
  next
    case (Some e)
    obtain fr' re' where p: "push_new (links e) frontier reached = (fr', re')" by fastforce
    from 2(2) [OF Some p [symmetric]] push_new_spec(3) [OF p] 2(3) Some p show ?thesis by (simp add: reach_loop.simps)
  qed
qed (simp add: reach_loop.simps)

lemma reach_loop_set: "set (reach_loop links es [w] [w]) = (edges links es)\<^sup>* `` {w}"
proof
  show "set (reach_loop links es [w] [w]) \<subseteq> (edges links es)\<^sup>* `` {w}"
    by (rule reach_loop_within) (auto intro: rtrancl_into_rtrancl)
next
  let ?R = "set (reach_loop links es [w] [w])"
  have w: "w \<in> ?R" using reach_loop_reached [of "[w]" links es "[w]"] by simp
  have c: "edges links es `` ?R \<subseteq> ?R" by (rule reach_loop_closed) simp_all
  have "x \<in> ?R" if "(w, x) \<in> (edges links es)\<^sup>*" for x
    using that by (induction rule: rtrancl_induct) (use w c in blast)+
  then show "(edges links es)\<^sup>* `` {w} \<subseteq> ?R" by blast
qed

definition child_rel :: "mempool \<Rightarrow> (hash256 \<times> hash256) set" where
  "child_rel p = {(a, b). \<exists>e. entry_of p a = Some e \<and> b \<in> set (int_children e)}"

definition parent_rel :: "mempool \<Rightarrow> (hash256 \<times> hash256) set" where
  "parent_rel p = {(a, b). \<exists>e. entry_of p a = Some e \<and> b \<in> set (int_parents e)}"

lemma DescendantsOf_set: "entry_of p w \<noteq> None \<Longrightarrow> set (DescendantsOf p w) = (child_rel p)\<^sup>* `` {w}"
  unfolding DescendantsOf_def using reach_loop_set [of int_children "mp_entries p" w]
  by (auto simp: child_rel_def edges_def)

lemma AncestorsOf_set: "entry_of p w \<noteq> None \<Longrightarrow> set (AncestorsOf p w) = (parent_rel p)\<^sup>* `` {w}"
  unfolding AncestorsOf_def using reach_loop_set [of int_parents "mp_entries p" w]
  by (auto simp: parent_rel_def edges_def)

lemma DescendantsOf_distinct: "distinct (DescendantsOf p w)" "distinct (AncestorsOf p w)"
  by (simp_all add: DescendantsOf_def AncestorsOf_def reach_loop_distinct)

section \<open>The invariant of the pool\<close>

abbreviation spends :: "entry_internal \<Rightarrow> outpoint set" where
  "spends e \<equiv> set (outpoints_of (tx_inputs (pe_tx (int_entry e))))"

definition entry_ok :: "crypto_ext \<Rightarrow> chain_params \<Rightarrow> hash256 \<Rightarrow> pool_entry \<Rightarrow> bool" where
  "entry_ok E params w e \<longleftrightarrow> pe_wtxid e = w \<and> Wtxid E (pe_tx e) = w \<and> pe_txid e = Txid E (pe_tx e) \<and>
     pe_weight e = Transaction_Weight (pe_tx e) \<and> 0 < pe_weight e \<and> pe_weight e \<le> MAX_MEMPOOL_WEIGHT \<and>
     int (pe_weight e) \<le> pe_fee e \<and> pe_fee e \<le> MAX_MONEY \<and> \<not> IsCoinbase (pe_tx e) \<and> tx_ok params (pe_tx e)"

text \<open>Links are recorded on both sides, so both ends of a link are in the pool, and there is no cycle.\<close>

definition links_ok :: "mempool \<Rightarrow> bool" where
  "links_ok p \<longleftrightarrow> parent_rel p = (child_rel p)\<inverse> \<and> acyclic (child_rel p)"

text \<open>The indices say exactly what the entries spend and which txids they have.\<close>

definition indices_ok :: "mempool \<Rightarrow> bool" where
  "indices_ok p \<longleftrightarrow>
     (\<forall>o' w. mp_spent_by p o' = Some w \<longleftrightarrow> (\<exists>e. entry_of p w = Some e \<and> o' \<in> spends e)) \<and>
     (\<forall>t w. mp_by_txid p t = Some w \<longleftrightarrow> (\<exists>e. entry_of p w = Some e \<and> pe_txid (int_entry e) = t))"

definition pool_weight :: "mempool \<Rightarrow> nat" where
  "pool_weight p = (\<Sum>w \<in> dom (entry_of p). pe_weight (int_entry (the (entry_of p w))))"

definition pool_fees :: "mempool \<Rightarrow> int" where
  "pool_fees p = (\<Sum>w \<in> dom (entry_of p). pe_fee (int_entry (the (entry_of p w))))"

definition totals_ok :: "mempool \<Rightarrow> bool" where
  "totals_ok p \<longleftrightarrow> mp_total_weight p = of_nat (pool_weight p) \<and> mp_total_fees p = i64_wrap (pool_fees p)"

definition packages_ok :: "mempool \<Rightarrow> bool" where
  "packages_ok p \<longleftrightarrow> (\<forall>w. card ((child_rel p)\<^sup>+ `` {w}) \<le> MAX_MEMPOOL_DESCENDANTS \<and>
     card (((child_rel p)\<inverse>)\<^sup>+ `` {w}) \<le> MAX_MEMPOOL_ANCESTORS)"

definition pool_ok :: "crypto_ext \<Rightarrow> chain_params \<Rightarrow> mempool \<Rightarrow> bool" where
  "pool_ok E params p \<longleftrightarrow> distinct (Wtxids p) \<and> (\<forall>w e. entry_of p w = Some e \<longrightarrow> entry_ok E params w (int_entry e)) \<and>
     links_ok p \<and> indices_ok p \<and> totals_ok p \<and> packages_ok p"

lemma pool_okD:
  assumes "pool_ok E params p"
  shows "distinct (Wtxids p)" "links_ok p" "indices_ok p" "totals_ok p" "packages_ok p"
    "\<And>w e. entry_of p w = Some e \<Longrightarrow> entry_ok E params w (int_entry e)"
  using assms by (simp_all add: pool_ok_def)

lemma child_rel_known:
  assumes "links_ok p" and "(a, b) \<in> child_rel p"
  shows "entry_of p a \<noteq> None" "entry_of p b \<noteq> None" "(b, a) \<in> parent_rel p"
proof -
  show "(b, a) \<in> parent_rel p" using assms by (simp add: links_ok_def)
  then show "entry_of p b \<noteq> None" by (auto simp: parent_rel_def)
  show "entry_of p a \<noteq> None" using assms(2) by (auto simp: child_rel_def)
qed

lemma linked_children:
  assumes "links_ok p" and "entry_of p a = Some e" and "entry_of p b = Some f"
  shows "b \<in> set (int_children e) \<longleftrightarrow> a \<in> set (int_parents f)"
proof -
  have "(b, a) \<in> parent_rel p \<longleftrightarrow> (a, b) \<in> child_rel p" using assms(1) by (simp add: links_ok_def)
  with assms(2,3) show ?thesis by (simp add: parent_rel_def child_rel_def)
qed

lemma finite_known: "finite (dom (entry_of p))"
  by (rule finite_dom_map_of)

section \<open>Removing entries\<close>

definition drop_links :: "hash256 set \<Rightarrow> entry_internal \<Rightarrow> entry_internal" where
  "drop_links W e = e\<lparr>int_children := filter (\<lambda>x. x \<notin> W) (int_children e),
     int_parents := filter (\<lambda>x. x \<notin> W) (int_parents e)\<rparr>"

lemma drop_links_fields [simp]:
  "int_entry (drop_links W e) = int_entry e"
  "int_children (drop_links W e) = filter (\<lambda>x. x \<notin> W) (int_children e)"
  "int_parents (drop_links W e) = filter (\<lambda>x. x \<notin> W) (int_parents e)"
  by (simp_all add: drop_links_def)

lemma drop_links_drop [simp]: "drop_links W (drop_links V e) = drop_links (V \<union> W) e"
  by (simp add: drop_links_def)

definition strip_map :: "hash256 set \<Rightarrow> ('a \<rightharpoonup> hash256) \<Rightarrow> ('a \<rightharpoonup> hash256)" where
  "strip_map W m = (\<lambda>k. case m k of None \<Rightarrow> None | Some w \<Rightarrow> if w \<in> W then None else Some w)"

lemma strip_map_Some: "strip_map W m k = Some w \<longleftrightarrow> m k = Some w \<and> w \<notin> W"
  by (auto simp: strip_map_def split: option.splits)

text \<open>The pool without the entries of a set.\<close>

definition restricts :: "mempool \<Rightarrow> hash256 set \<Rightarrow> mempool \<Rightarrow> bool" where
  "restricts p W p' \<longleftrightarrow> entry_of p' = (\<lambda>x. if x \<in> W then None else map_option (drop_links W) (entry_of p x)) \<and>
     mp_spent_by p' = strip_map W (mp_spent_by p) \<and> mp_by_txid p' = strip_map W (mp_by_txid p)"

lemma map_of_modify:
  "map_of (modify_entry w f es) = (\<lambda>x. if x = w then map_option f (map_of es x) else map_of es x)"
  by (auto simp: modify_entry_def update_conv' fun_eq_iff split: option.splits)

lemma map_of_fold_modify:
  assumes "\<And>e. f (f e) = f e"
  shows "map_of (fold (\<lambda>x. modify_entry x f) xs es) =
    (\<lambda>x. if x \<in> set xs then map_option f (map_of es x) else map_of es x)"
  by (induction xs arbitrary: es) (auto simp: map_of_modify fun_eq_iff option.map_comp comp_def assms)

lemma Unlink_entry:
  assumes "links_ok p"
  shows "entry_of (Unlink w p) = (\<lambda>x. if x = w then None else map_option (drop_links {w}) (entry_of p x))"
proof (cases "entry_of p w")
  case None
  have "drop_links {w} e = e" if "entry_of p x = Some e" for x e
  proof -
    have "(x, w) \<notin> child_rel p" "(x, w) \<notin> parent_rel p"
      using child_rel_known(2) [OF assms, of x w] child_rel_known(1) [OF assms, of w x] assms None
      by (auto simp: links_ok_def)
    with that have "w \<notin> set (int_children e)" "w \<notin> set (int_parents e)"
      by (simp_all add: child_rel_def parent_rel_def)
    then have "filter (\<lambda>x. x \<notin> {w}) (int_children e) = int_children e" "filter (\<lambda>x. x \<notin> {w}) (int_parents e) = int_parents e"
      by (auto simp: filter_id_conv)
    then show ?thesis by (simp add: drop_links_def)
  qed
  then have "map_option (drop_links {w}) (entry_of p x) = entry_of p x" for x by (cases "entry_of p x") simp_all
  with None show ?thesis by (auto simp: Unlink_def fun_eq_iff)
next
  case (Some d)
  have idem: "(e\<lparr>int_children := removeAll w (int_children e)\<rparr>)\<lparr>int_children := removeAll w (int_children (e\<lparr>int_children := removeAll w (int_children e)\<rparr>))\<rparr> =
      e\<lparr>int_children := removeAll w (int_children e)\<rparr>"
    "(e\<lparr>int_parents := removeAll w (int_parents e)\<rparr>)\<lparr>int_parents := removeAll w (int_parents (e\<lparr>int_parents := removeAll w (int_parents e)\<rparr>))\<rparr> =
      e\<lparr>int_parents := removeAll w (int_parents e)\<rparr>" for e
    by simp_all
  have r: "filter (\<lambda>x. x \<notin> {w}) l = removeAll w l" for l
    by (auto simp: removeAll_filter_not_eq intro: filter_cong)
  have f: "entry_of (Unlink w p) = (\<lambda>x. if x = w then None else
      let m = (if x \<in> set (int_parents d)
        then map_option (\<lambda>e. e\<lparr>int_children := removeAll w (int_children e)\<rparr>) (entry_of p x) else entry_of p x)
      in if x \<in> set (int_children d) then map_option (\<lambda>e. e\<lparr>int_parents := removeAll w (int_parents e)\<rparr>) m else m)"
    by (simp add: Unlink_def Some Let_def delete_conv' map_of_fold_modify [OF idem(1)] map_of_fold_modify [OF idem(2)]
        fun_eq_iff)
  show ?thesis
  proof
    fix x
    show "entry_of (Unlink w p) x = (if x = w then None else map_option (drop_links {w}) (entry_of p x))"
    proof (cases "entry_of p x")
      case None
      then show ?thesis by (simp add: f Let_def)
    next
      case e: (Some e)
      have "x \<notin> set (int_parents d) \<Longrightarrow> removeAll w (int_children e) = int_children e"
        "x \<notin> set (int_children d) \<Longrightarrow> removeAll w (int_parents e) = int_parents e"
        using linked_children [OF assms e Some] linked_children [OF assms Some e] by simp_all
      then show ?thesis unfolding drop_links_def r f Let_def using e by simp
    qed
  qed
qed

lemma fold_forget:
  "fold (\<lambda>input m. if m (in_outpoint input) = Some w then m(in_outpoint input := None) else m) ins m =
     (\<lambda>o'. if o' \<in> set (outpoints_of ins) \<and> m o' = Some w then None else m o')"
  by (induction ins arbitrary: m) (auto simp: fun_eq_iff)

lemma Unlink_indices:
  assumes "indices_ok p"
  shows "mp_spent_by (Unlink w p) = strip_map {w} (mp_spent_by p)"
    "mp_by_txid (Unlink w p) = strip_map {w} (mp_by_txid p)"
proof -
  have s: "mp_spent_by p o' = Some w \<longleftrightarrow> (\<exists>e. entry_of p w = Some e \<and> o' \<in> spends e)"
    and t: "mp_by_txid p t = Some w \<longleftrightarrow> (\<exists>e. entry_of p w = Some e \<and> pe_txid (int_entry e) = t)" for o' t
    using assms by (simp_all add: indices_ok_def)
  show "mp_spent_by (Unlink w p) = strip_map {w} (mp_spent_by p)"
  proof (cases "entry_of p w")
    case None
    with s show ?thesis by (auto simp: Unlink_def strip_map_def fun_eq_iff split: option.splits)
  next
    case (Some e)
    have f: "mp_spent_by (Unlink w p) = (\<lambda>o'. if o' \<in> spends e \<and> mp_spent_by p o' = Some w then None else mp_spent_by p o')"
      by (simp add: Unlink_def Some Let_def fold_forget)
    have "o' \<in> spends e" if "mp_spent_by p o' = Some w" for o' using s [of o'] that Some by simp
    then show ?thesis unfolding f by (auto simp: strip_map_def fun_eq_iff simp del: set_map split: option.splits)
  qed
  show "mp_by_txid (Unlink w p) = strip_map {w} (mp_by_txid p)"
  proof (cases "entry_of p w")
    case None
    with t show ?thesis by (auto simp: Unlink_def strip_map_def fun_eq_iff split: option.splits)
  next
    case (Some e)
    have m: "mp_by_txid p (pe_txid (int_entry e)) = Some w" using t Some by simp
    have u: "t' = pe_txid (int_entry e)" if "mp_by_txid p t' = Some w" for t' using t [of t'] that Some by simp
    have f: "mp_by_txid (Unlink w p) = (mp_by_txid p)(pe_txid (int_entry e) := None)"
      by (simp add: Unlink_def Some Let_def m)
    show ?thesis
    proof
      fix t'
      show "mp_by_txid (Unlink w p) t' = strip_map {w} (mp_by_txid p) t'"
        unfolding f strip_map_def using m u [of t'] by (cases "mp_by_txid p t'") auto
    qed
  qed
qed

lemma restricts_rel:
  assumes "restricts p W p'"
  shows "child_rel p' = child_rel p \<inter> (- W) \<times> (- W)" "parent_rel p' = parent_rel p \<inter> (- W) \<times> (- W)"
  using assms by (auto simp: restricts_def child_rel_def parent_rel_def split: if_splits)

lemma restricts_dom: "restricts p W p' \<Longrightarrow> dom (entry_of p') = dom (entry_of p) - W"
  by (auto simp: restricts_def split: if_splits)

lemma restricts_links:
  assumes "restricts p W p'" and "links_ok p"
  shows "links_ok p'"
proof -
  have "acyclic (child_rel p')"
    using assms(2) unfolding restricts_rel(1) [OF assms(1)] links_ok_def by (meson acyclic_subset inf_le1)
  with assms(2) show ?thesis unfolding links_ok_def restricts_rel [OF assms(1)] by auto
qed

lemma restricts_indices:
  assumes "restricts p W p'" and "indices_ok p"
  shows "indices_ok p'"
  using assms unfolding restricts_def indices_ok_def
  by (auto simp: strip_map_Some split: if_splits)

lemma restricts_packages:
  assumes "restricts p W p'" and "links_ok p" and "packages_ok p"
  shows "packages_ok p'"
proof -
  let ?c = "child_rel p"
  have sub: "child_rel p' \<subseteq> ?c" using restricts_rel(1) [OF assms(1)] by blast
  have "?c \<subseteq> dom (entry_of p) \<times> dom (entry_of p)" using child_rel_known [OF assms(2)] by auto
  then have fin: "finite ?c" using finite_known by (metis finite_SigmaI finite_subset)
  then have f: "finite (?c\<^sup>+ `` {w})" "finite ((?c\<inverse>)\<^sup>+ `` {w})" for w
    by (simp_all add: finite_trancl finite_Image trancl_converse)
  have "card ((child_rel p')\<^sup>+ `` {w}) \<le> card (?c\<^sup>+ `` {w})" for w
    by (rule card_mono [OF f(1)]) (use trancl_mono [OF _ sub] in auto)
  moreover have "card (((child_rel p')\<inverse>)\<^sup>+ `` {w}) \<le> card ((?c\<inverse>)\<^sup>+ `` {w})" for w
    by (rule card_mono [OF f(2)]) (use trancl_mono [of _ "(child_rel p')\<inverse>" "?c\<inverse>"] sub in auto)
  ultimately show ?thesis using assms(3) unfolding packages_ok_def by (meson le_trans)
qed

lemma i64_wrap_absorb:
  "i64_wrap (i64_wrap x - y) = i64_wrap (x - y)" "i64_wrap (i64_wrap x + y) = i64_wrap (x + y)"
  by (simp_all add: i64_wrap_def)

lemma Unlink_totals:
  assumes "links_ok p" and "totals_ok p"
  shows "totals_ok (Unlink w p)"
proof (cases "entry_of p w")
  case None
  with assms show ?thesis by (simp add: Unlink_def)
next
  case (Some d)
  note e = Unlink_entry [OF assms(1), of w]
  have dom: "dom (entry_of (Unlink w p)) = dom (entry_of p) - {w}" unfolding e by (auto split: if_splits)
  have same: "int_entry (the (entry_of (Unlink w p) x)) = int_entry (the (entry_of p x))"
    if "x \<in> dom (entry_of p) - {w}" for x
    using that unfolding e by auto
  have "pool_weight p = pe_weight (int_entry d) + pool_weight (Unlink w p)"
    "pool_fees p = pe_fee (int_entry d) + pool_fees (Unlink w p)"
    using Some finite_known [of p] sum.cong [OF refl, of "dom (entry_of p) - {w}", OF arg_cong [where f = pe_weight, OF same]]
      sum.cong [OF refl, of "dom (entry_of p) - {w}", OF arg_cong [where f = pe_fee, OF same]]
    unfolding pool_weight_def pool_fees_def dom by (simp_all add: sum.remove [of _ w] domI)
  moreover have "mp_total_weight (Unlink w p) = mp_total_weight p - of_nat (pe_weight (int_entry d))"
    "mp_total_fees (Unlink w p) = i64_wrap (mp_total_fees p - pe_fee (int_entry d))"
    by (simp_all add: Unlink_def Some Let_def)
  ultimately show ?thesis using assms(2) by (simp add: totals_ok_def i64_wrap_absorb)
qed

lemma Unlink_restricts:
  assumes "pool_ok E params p"
  shows "restricts p {w} (Unlink w p)" "pool_ok E params (Unlink w p)"
proof -
  note o = pool_okD [OF assms]
  show r: "restricts p {w} (Unlink w p)"
    unfolding restricts_def Unlink_indices [OF o(3)] by (simp add: Unlink_entry [OF o(2)] fun_eq_iff)
  have "entry_ok E params x (int_entry e)" if "entry_of (Unlink w p) x = Some e" for x e
    using that o(6) unfolding Unlink_entry [OF o(2)] by (auto split: if_splits)
  then show "pool_ok E params (Unlink w p)"
    using o(1) restricts_links [OF r o(2)] restricts_indices [OF r o(3)] Unlink_totals [OF o(2,4)]
      restricts_packages [OF r o(2,5)]
    by (simp add: pool_ok_def distinct_removeAll)
qed

lemma restricts_refl: "restricts p {} p"
proof -
  have d: "drop_links {} = (\<lambda>e. e)" by (simp add: fun_eq_iff drop_links_def)
  show ?thesis
    by (auto simp: restricts_def strip_map_def fun_eq_iff d option.map_ident split: option.splits)
qed

lemma restricts_trans:
  assumes "restricts p V q" and "restricts q W r"
  shows "restricts p (V \<union> W) r"
  using assms unfolding restricts_def
  by (auto simp: fun_eq_iff strip_map_def option.map_comp comp_def split: option.splits)

lemma fold_Unlink_restricts:
  assumes "pool_ok E params p"
  shows "restricts p (set ws) (fold Unlink ws p) \<and> pool_ok E params (fold Unlink ws p)"
  using assms
proof (induction ws arbitrary: p)
  case Nil
  then show ?case by (simp add: restricts_refl)
next
  case (Cons w ws)
  note u = Unlink_restricts [OF Cons.prems, of w]
  from Cons.IH [OF u(2)] restricts_trans [OF u(1)] show ?case by fastforce
qed

text \<open>A removal that takes the children of whatever it takes.\<close>

definition prunes :: "mempool \<Rightarrow> mempool \<Rightarrow> bool" where
  "prunes p p' \<longleftrightarrow> (\<exists>W. restricts p W p' \<and> child_rel p `` W \<subseteq> W)"

lemma prunes_refl: "prunes p p"
  using restricts_refl by (auto simp: prunes_def)

lemma prunes_trans:
  assumes "prunes p q" and "prunes q r"
  shows "prunes p r"
proof -
  obtain V where V: "restricts p V q" "child_rel p `` V \<subseteq> V" using assms(1) by (auto simp: prunes_def)
  obtain W where W: "restricts q W r" "child_rel q `` W \<subseteq> W" using assms(2) by (auto simp: prunes_def)
  have "child_rel p `` (V \<union> W) \<subseteq> V \<union> W" using V(2) W(2) unfolding restricts_rel(1) [OF V(1)] by blast
  with restricts_trans [OF V(1) W(1)] show ?thesis by (auto simp: prunes_def)
qed

lemma RemoveRecursive_restricts:
  assumes "pool_ok E params p" and "RemoveRecursive w p = (n, p')"
  shows "restricts p (set (DescendantsOf p w)) p'" "pool_ok E params p'" "n = card (set (DescendantsOf p w))"
  using fold_Unlink_restricts [OF assms(1), of "DescendantsOf p w"] assms(2) DescendantsOf_distinct(1) [of p w]
  by (auto simp: RemoveRecursive_def Let_def distinct_card)

lemma RemoveRecursive_prunes:
  assumes "pool_ok E params p" and "RemoveRecursive w p = (n, p')"
  shows "prunes p p'"
proof -
  have "child_rel p `` set (DescendantsOf p w) \<subseteq> set (DescendantsOf p w)"
  proof (cases "entry_of p w = None")
    case True
    then show ?thesis by (simp add: DescendantsOf_def)
  next
    case False
    from DescendantsOf_set [OF False] show ?thesis by (auto intro: rtrancl_into_rtrancl)
  qed
  with RemoveRecursive_restricts(1) [OF assms] show ?thesis by (auto simp: prunes_def)
qed

lemma fold_keeps: "(\<And>x s. P s \<Longrightarrow> P (f x s)) \<Longrightarrow> P s \<Longrightarrow> P (fold f xs s)"
  by (induction xs arbitrary: s) simp_all

lemma restricts_weight: "restricts p W p' \<Longrightarrow> pool_weight p' \<le> pool_weight p"
proof -
  assume r: "restricts p W p'"
  have "pool_weight p' = (\<Sum>w \<in> dom (entry_of p) - W. pe_weight (int_entry (the (entry_of p w))))"
    unfolding pool_weight_def restricts_dom [OF r]
    by (rule sum.cong) (use r in \<open>auto simp: restricts_def\<close>)
  also have "\<dots> \<le> pool_weight p" unfolding pool_weight_def by (rule sum_mono2 [OF finite_known]) auto
  finally show ?thesis .
qed

lemma Trim_scan_finds:
  assumes "mp_entries p \<noteq> []"
  shows "Trim_scan p \<noteq> None"
proof -
  have "fold (Trim_step p) ids worst \<noteq> None" if "worst \<noteq> None" for ids worst
    using that
  proof (induction ids arbitrary: worst)
    case (Cons i ids)
    then show ?case using Trim_step_cases [of p i worst] by auto
  qed simp
  moreover have "Trim_step p w None \<noteq> None" for w using Trim_step_cases [of p w None] by auto
  ultimately show ?thesis using assms by (cases "mp_entries p") (simp_all add: Trim_scan_def)
qed

lemma totals_weight:
  assumes "totals_ok p" and "pool_weight p < 2 ^ 64"
  shows "unat (mp_total_weight p) = pool_weight p"
  using assms by (simp add: totals_ok_def unat_of_nat_u64)

lemma Trim_loop_ok:
  assumes "pool_ok E params p" and "pool_weight p < 2 ^ 64" and "Trim_loop target n p = (m, p')"
  shows "pool_ok E params p' \<and> pool_weight p' \<le> min (pool_weight p) target \<and> prunes p p'"
  using assms
proof (induction target n p rule: Trim_loop.induct)
  case (1 target n p)
  note t = totals_weight [OF pool_okD(4) [OF 1(2)] 1(3)]
  show ?case
  proof (cases "pool_weight p > target \<and> mp_entries p \<noteq> []")
    case True
    then obtain w f x where s: "Trim_scan p = Some (w, f, x)" using Trim_scan_finds by (metis not_None_eq prod_cases3)
    obtain k q where q: "RemoveRecursive w p = (k, q)" by fastforce
    note r = RemoveRecursive_restricts [OF 1(2) q]
    have le: "pool_weight q \<le> pool_weight p" by (rule restricts_weight [OF r(1)])
    have l: "Trim_loop target (n + k) q = (m, p')" using 1(4) True t s q by (simp add: Trim_loop.simps [of target n p])
    have "pool_ok E params p' \<and> pool_weight p' \<le> min (pool_weight q) target \<and> prunes q p'"
      using 1(1) [OF _ s refl refl q [symmetric] r(2) _ l] True t le 1(3) by simp
    with le prunes_trans [OF RemoveRecursive_prunes [OF 1(2) q]] show ?thesis by auto
  next
    case False
    then have "p' = p" using 1(4) t by (auto simp: Trim_loop.simps [of target n p])
    moreover have "pool_weight p \<le> target" using False by (auto simp: pool_weight_def)
    ultimately show ?thesis using 1(2) prunes_refl by auto
  qed
qed

end
