(* ===== verification/Pool.thy ===== *)
theory Pool
  imports Complex_Main Mempool
begin

text \<open>
  What the mempool keeps: acceptance, removal and eviction preserve its invariant, replacements pay
  for what they displace, and the selection for a block is in a valid order, within its room, and
  taken by exact fee rate.
\<close>

section \<open>Sets built by insertion\<close>

lemma hs_insert_set [simp]: "set (hs_insert x xs) = insert x (set xs)"
  by (auto simp: hs_insert_def)

lemma hs_insert_distinct [simp]: "distinct (hs_insert x xs) \<longleftrightarrow> distinct xs"
  by (simp add: hs_insert_def)

lemma fold_hs_insert: "set (fold hs_insert ys xs) = set xs \<union> set ys" "distinct xs \<Longrightarrow> distinct (fold hs_insert ys xs)"
  by (induction ys arbitrary: xs) auto

lemma fold_collect:
  "set (fold (\<lambda>i acc. case m i of None \<Rightarrow> acc | Some w \<Rightarrow> hs_insert w acc) is acc) = set acc \<union> {w. \<exists>i \<in> set is. m i = Some w}"
  "distinct acc \<Longrightarrow> distinct (fold (\<lambda>i acc. case m i of None \<Rightarrow> acc | Some w \<Rightarrow> hs_insert w acc) is acc)"
  by (induction "is" arbitrary: acc) (auto split: option.splits)

lemma DirectConflicts_set:
  "set (DirectConflicts p tx) = {w. \<exists>o' \<in> set (outpoints_of (tx_inputs tx)). mp_spent_by p o' = Some w}"
  unfolding DirectConflicts_def fold_collect(1) [where m = "\<lambda>i. mp_spent_by p (in_outpoint i)"] by auto

lemma pool_parents_set:
  "set (pool_parents p tx) = {w. \<exists>o' \<in> set (outpoints_of (tx_inputs tx)). mp_by_txid p (op_txid o') = Some w}"
  unfolding pool_parents_def fold_collect(1) [where m = "\<lambda>i. mp_by_txid p (op_txid (in_outpoint i))"] by auto

lemma doomed_by_set: "set (doomed_by p tx) = (\<Union>w \<in> set (DirectConflicts p tx). set (DescendantsOf p w))"
proof -
  have "set (fold (\<lambda>w doomed. fold hs_insert (DescendantsOf p w) doomed) ws acc) =
      set acc \<union> (\<Union>w \<in> set ws. set (DescendantsOf p w))" for ws acc
    by (induction ws arbitrary: acc) (auto simp: fold_hs_insert)
  then show ?thesis by (simp add: doomed_by_def)
qed

lemma doomed_by_distinct: "distinct (doomed_by p tx)"
  unfolding doomed_by_def
  by (rule fold_keeps [where P = distinct]) (simp_all add: fold_hs_insert)

lemma surviving_ancestors_set:
  "set (surviving_ancestors p doomed parents) = (\<Union>w \<in> set parents. set (AncestorsOf p w)) - set doomed"
  "distinct (surviving_ancestors p doomed parents)"
proof -
  let ?f = "\<lambda>w acc. if w \<in> set doomed then acc else hs_insert w acc"
  have i: "set (fold ?f ws acc) = set acc \<union> (set ws - set doomed)" "distinct acc \<Longrightarrow> distinct (fold ?f ws acc)" for ws acc
    by (induction ws arbitrary: acc) auto
  have "set (fold (\<lambda>parent. fold ?f (AncestorsOf p parent)) parents acc) =
      set acc \<union> ((\<Union>w \<in> set parents. set (AncestorsOf p w)) - set doomed)" for acc
    by (induction parents arbitrary: acc) (auto simp: i)
  then show "set (surviving_ancestors p doomed parents) = (\<Union>w \<in> set parents. set (AncestorsOf p w)) - set doomed"
    by (simp add: surviving_ancestors_def)
  show "distinct (surviving_ancestors p doomed parents)"
    unfolding surviving_ancestors_def by (rule fold_keeps [where P = distinct]) (simp_all add: i)
qed

section \<open>Inserting an entry\<close>

text \<open>What the pool's links become when a new node is put below some known ones.\<close>

lemma trancl_sink:
  assumes "(x, y) \<in> (r \<union> P \<times> {w})\<^sup>+" and "w \<notin> Domain r" and "w \<notin> P"
  shows "(x, y) \<in> r\<^sup>+ \<or> y = w \<and> (\<exists>a \<in> P. (x, a) \<in> r\<^sup>*)"
  using assms(1)
proof (induction rule: trancl_induct)
  case (base y)
  then show ?case by auto
next
  case (step y z)
  have "y \<noteq> w" using step.hyps(2) assms(2,3) by auto
  with step show ?case by (auto intro: trancl_into_trancl trancl_into_rtrancl)
qed

lemma acyclic_sink:
  assumes "acyclic r" and "w \<notin> Domain r" and "w \<notin> P"
  shows "acyclic (r \<union> P \<times> {w})"
proof (rule acyclicI, intro allI notI)
  fix x assume x: "(x, x) \<in> (r \<union> P \<times> {w})\<^sup>+"
  from trancl_sink [OF this assms(2,3)] assms(1) have "x = w" by (auto simp: acyclic_def)
  from tranclD [OF x] this assms(2,3) show False by auto
qed

text \<open>An entry may be inserted when it is new and its parents are in the pool.\<close>

definition insertable :: "mempool \<Rightarrow> pool_entry \<Rightarrow> hash256 list \<Rightarrow> bool" where
  "insertable p entry parents \<longleftrightarrow> entry_of p (pe_wtxid entry) = None \<and> (\<forall>w \<in> set parents. entry_of p w \<noteq> None) \<and>
     (\<forall>o' \<in> set (outpoints_of (tx_inputs (pe_tx entry))). mp_spent_by p o' = None) \<and> mp_by_txid p (pe_txid entry) = None"

lemma insert_entry_entry:
  assumes "insertable p entry parents"
  shows "entry_of (insert_entry entry parents p) = (\<lambda>x.
    if x = pe_wtxid entry then Some \<lparr>int_entry = entry, int_children = [], int_parents = parents\<rparr>
    else if x \<in> set parents
      then map_option (\<lambda>e. e\<lparr>int_children := hs_insert (pe_wtxid entry) (int_children e)\<rparr>) (entry_of p x)
    else entry_of p x)"
proof -
  let ?w = "pe_wtxid entry"
  have idem: "(e\<lparr>int_children := hs_insert ?w (int_children e)\<rparr>)\<lparr>int_children := hs_insert ?w (int_children (e\<lparr>int_children := hs_insert ?w (int_children e)\<rparr>))\<rparr> =
      e\<lparr>int_children := hs_insert ?w (int_children e)\<rparr>" for e
    by (simp add: hs_insert_def)
  have "?w \<notin> set parents" using assms by (auto simp: insertable_def)
  then show ?thesis
    by (auto simp: insert_entry_def Let_def map_of_fold_modify [OF idem] fun_eq_iff)
qed

lemma insert_entry_rel:
  assumes "insertable p entry parents"
  shows "child_rel (insert_entry entry parents p) = child_rel p \<union> set parents \<times> {pe_wtxid entry}"
    "parent_rel (insert_entry entry parents p) = parent_rel p \<union> {pe_wtxid entry} \<times> set parents"
proof -
  let ?w = "pe_wtxid entry"
  have n: "entry_of p ?w = None" and k: "\<And>w. w \<in> set parents \<Longrightarrow> entry_of p w \<noteq> None" "?w \<notin> set parents"
    using assms by (auto simp: insertable_def)
  show "child_rel (insert_entry entry parents p) = child_rel p \<union> set parents \<times> {?w}"
    unfolding child_rel_def insert_entry_entry [OF assms] using n k by (auto split: if_splits) force+
  show "parent_rel (insert_entry entry parents p) = parent_rel p \<union> {?w} \<times> set parents"
    unfolding parent_rel_def insert_entry_entry [OF assms] using n k by (auto split: if_splits)
qed

lemma insert_entry_links:
  assumes "insertable p entry parents" and "links_ok p"
  shows "links_ok (insert_entry entry parents p)"
proof -
  have "pe_wtxid entry \<notin> Domain (child_rel p)" "pe_wtxid entry \<notin> set parents"
    using assms(1) by (auto simp: insertable_def child_rel_def)
  from acyclic_sink [OF _ this] assms(2) show ?thesis
    unfolding links_ok_def insert_entry_rel [OF assms(1)] by auto
qed

lemma fold_spend:
  "fold (\<lambda>input m. m(in_outpoint input \<mapsto> w)) ins m = (\<lambda>o'. if o' \<in> set (outpoints_of ins) then Some w else m o')"
  by (induction ins arbitrary: m) (auto simp: fun_eq_iff)

lemma insert_entry_fields:
  "mp_spent_by (insert_entry entry parents p) =
     (\<lambda>o'. if o' \<in> set (outpoints_of (tx_inputs (pe_tx entry))) then Some (pe_wtxid entry) else mp_spent_by p o')"
  "mp_by_txid (insert_entry entry parents p) = (mp_by_txid p)(pe_txid entry \<mapsto> pe_wtxid entry)"
  "mp_total_weight (insert_entry entry parents p) = mp_total_weight p + of_nat (pe_weight entry)"
  "mp_total_fees (insert_entry entry parents p) = i64_wrap (mp_total_fees p + pe_fee entry)"
  by (simp_all add: insert_entry_def Let_def fold_spend)

lemma insert_entry_keys: "Wtxids (insert_entry entry parents p) = pe_wtxid entry # Wtxids p"
  by (simp add: insert_entry_def Wtxids_def Let_def fold_modify_keys)

lemma insert_entry_pool_entry:
  assumes "insertable p entry parents"
  shows "map_option int_entry (entry_of (insert_entry entry parents p) x) =
    (if x = pe_wtxid entry then Some entry else map_option int_entry (entry_of p x))"
  by (simp add: insert_entry_entry [OF assms] option.map_comp comp_def)

lemma insert_entry_indices:
  assumes "insertable p entry parents" and "indices_ok p"
  shows "indices_ok (insert_entry entry parents p)"
proof -
  let ?p = "insert_entry entry parents p" and ?w = "pe_wtxid entry"
  have e: "(\<exists>e. entry_of q w = Some e \<and> P (int_entry e)) \<longleftrightarrow> (\<exists>e. map_option int_entry (entry_of q w) = Some e \<and> P e)" for q w P
    by auto
  have s: "mp_spent_by p o' = Some w \<longleftrightarrow> (\<exists>e. map_option int_entry (entry_of p w) = Some e \<and> o' \<in> set (outpoints_of (tx_inputs (pe_tx e))))"
    and t: "mp_by_txid p t = Some w \<longleftrightarrow> (\<exists>e. map_option int_entry (entry_of p w) = Some e \<and> pe_txid e = t)" for o' t w
    using assms(2) unfolding indices_ok_def e by blast+
  have n: "entry_of p ?w = None" using assms(1) by (simp add: insertable_def)
  have "mp_spent_by ?p o' = Some w \<longleftrightarrow>
      (\<exists>e. map_option int_entry (entry_of ?p w) = Some e \<and> o' \<in> set (outpoints_of (tx_inputs (pe_tx e))))" for o' w
    unfolding insert_entry_pool_entry [OF assms(1)] insert_entry_fields
    using s [of o' w] n assms(1) by (auto simp: insertable_def simp del: set_map)
  moreover have "mp_by_txid ?p t = Some w \<longleftrightarrow>
      (\<exists>e. map_option int_entry (entry_of ?p w) = Some e \<and> pe_txid e = t)" for t w
    unfolding insert_entry_pool_entry [OF assms(1)] insert_entry_fields
    using t [of t w] n assms(1) by (auto simp: insertable_def)
  ultimately show ?thesis unfolding indices_ok_def e by blast
qed

lemma dom_entry_of: "dom (entry_of p) = set (Wtxids p)"
  by (simp add: Wtxids_def dom_map_of_conv_image_fst)

lemma insert_entry_weight:
  assumes "insertable p entry parents"
  shows "pool_weight (insert_entry entry parents p) = pool_weight p + pe_weight entry"
    "pool_fees (insert_entry entry parents p) = pool_fees p + pe_fee entry"
proof -
  let ?q = "insert_entry entry parents p" and ?w = "pe_wtxid entry"
  have n: "?w \<notin> dom (entry_of p)" using assms by (simp add: insertable_def domIff)
  have d: "dom (entry_of ?q) = insert ?w (dom (entry_of p))"
    by (simp add: dom_entry_of insert_entry_keys)
  have new: "int_entry (the (entry_of ?q ?w)) = entry" by (simp add: insert_entry_entry [OF assms])
  have old: "int_entry (the (entry_of ?q x)) = int_entry (the (entry_of p x))" if "x \<in> dom (entry_of p)" for x
    using that n by (auto simp: insert_entry_entry [OF assms])
  show "pool_weight ?q = pool_weight p + pe_weight entry" "pool_fees ?q = pool_fees p + pe_fee entry"
    unfolding pool_weight_def pool_fees_def d using n finite_known [of p] by (simp_all add: new old)
qed

lemma insert_entry_totals:
  assumes "insertable p entry parents" and "totals_ok p"
  shows "totals_ok (insert_entry entry parents p)"
  using assms(2) by (simp add: totals_ok_def insert_entry_weight [OF assms(1)] insert_entry_fields i64_wrap_absorb)

text \<open>The entries an insertion below \<open>parents\<close> puts an entry below of.\<close>

definition above :: "mempool \<Rightarrow> hash256 list \<Rightarrow> hash256 set" where
  "above p parents = {a. \<exists>b \<in> set parents. (a, b) \<in> (child_rel p)\<^sup>*}"

lemma finite_child_rel:
  assumes "links_ok p"
  shows "finite (child_rel p)" "finite ((child_rel p)\<^sup>+ `` {w})" "finite (((child_rel p)\<inverse>)\<^sup>+ `` {w})"
proof -
  have "child_rel p \<subseteq> dom (entry_of p) \<times> dom (entry_of p)" using child_rel_known [OF assms] by auto
  then show "finite (child_rel p)" using finite_known by (metis finite_SigmaI finite_subset)
  then show "finite ((child_rel p)\<^sup>+ `` {w})" "finite (((child_rel p)\<inverse>)\<^sup>+ `` {w})"
    by (simp_all add: finite_trancl finite_Image trancl_converse)
qed

lemma insert_entry_packages:
  assumes i: "insertable p entry parents" and l: "links_ok p" and k: "packages_ok p"
    and anc: "card (above p parents) \<le> MAX_MEMPOOL_ANCESTORS" and fin: "finite (above p parents)"
    and desc: "\<And>a. a \<in> above p parents \<Longrightarrow> card ((child_rel p)\<^sup>+ `` {a}) < MAX_MEMPOOL_DESCENDANTS"
  shows "packages_ok (insert_entry entry parents p)"
proof -
  let ?r = "child_rel p" and ?w = "pe_wtxid entry"
  let ?s = "?r \<union> set parents \<times> {?w}"
  have n: "entry_of p ?w = None" and np: "?w \<notin> set parents" using i by (auto simp: insertable_def)
  have nd: "?w \<notin> Domain ?r" using n by (auto simp: child_rel_def)
  have nr: "(a, ?w) \<notin> ?r\<^sup>+" for a
  proof
    assume "(a, ?w) \<in> ?r\<^sup>+"
    then obtain b where "(b, ?w) \<in> ?r" by (metis tranclE)
    with child_rel_known(2) [OF l] n show False by blast
  qed
  have sink: "(x, y) \<in> ?s\<^sup>+ \<Longrightarrow> (x, y) \<in> ?r\<^sup>+ \<or> y = ?w \<and> x \<in> above p parents" for x y
    using trancl_sink [OF _ nd np, of x y] by (auto simp: above_def)
  have "card (?s\<^sup>+ `` {a}) \<le> MAX_MEMPOOL_DESCENDANTS" for a
  proof (cases "a \<in> above p parents")
    case True
    have "card (?s\<^sup>+ `` {a}) \<le> card (insert ?w (?r\<^sup>+ `` {a}))"
      by (rule card_mono) (use finite_child_rel(2) [OF l] sink in auto)
    also have "\<dots> \<le> Suc (card (?r\<^sup>+ `` {a}))" by (rule card_insert_le_m1) simp_all
    finally show ?thesis using desc [OF True] by simp
  next
    case False
    have "card (?s\<^sup>+ `` {a}) \<le> card (?r\<^sup>+ `` {a})"
      by (rule card_mono) (use finite_child_rel(2) [OF l] sink False in auto)
    then show ?thesis using k by (meson packages_ok_def le_trans)
  qed
  moreover have "card ((?s\<inverse>)\<^sup>+ `` {a}) \<le> MAX_MEMPOOL_ANCESTORS" for a
  proof (cases "a = ?w")
    case True
    have "card ((?s\<inverse>)\<^sup>+ `` {a}) \<le> card (above p parents)"
      by (rule card_mono [OF fin]) (use sink nr True in \<open>auto simp: trancl_converse\<close>)
    with anc show ?thesis by simp
  next
    case False
    have "card ((?s\<inverse>)\<^sup>+ `` {a}) \<le> card ((?r\<inverse>)\<^sup>+ `` {a})"
      by (rule card_mono) (use finite_child_rel(3) [OF l] sink False in \<open>auto simp: trancl_converse\<close>)
    then show ?thesis using k by (meson packages_ok_def le_trans)
  qed
  ultimately show ?thesis unfolding packages_ok_def insert_entry_rel [OF i] by blast
qed

lemma insert_entry_ok:
  assumes ok: "pool_ok E params p" and i: "insertable p entry parents" and e: "entry_ok E params (pe_wtxid entry) entry"
    and "card (above p parents) \<le> MAX_MEMPOOL_ANCESTORS" and "finite (above p parents)"
    and "\<And>a. a \<in> above p parents \<Longrightarrow> card ((child_rel p)\<^sup>+ `` {a}) < MAX_MEMPOOL_DESCENDANTS"
  shows "pool_ok E params (insert_entry entry parents p)"
proof -
  let ?q = "insert_entry entry parents p"
  note o = pool_okD [OF ok]
  have "pe_wtxid entry \<notin> set (Wtxids p)" using i known_iff_key [of p "pe_wtxid entry"] by (auto simp: insertable_def)
  moreover have "entry_ok E params w (int_entry f)" if "entry_of ?q w = Some f" for w f
    using that e o(6) insert_entry_pool_entry [OF i, of w] by (cases "entry_of p w") (auto split: if_splits)
  ultimately show ?thesis
    using o insert_entry_links [OF i o(2)] insert_entry_indices [OF i o(3)] insert_entry_totals [OF i o(4)]
      insert_entry_packages [OF i o(2,5) assms(4-6)]
    by (simp add: pool_ok_def insert_entry_keys)
qed

section \<open>Accepting\<close>

text \<open>No transaction of the pool has the arrival's txid and other inputs: that would be a hash collision.\<close>

definition no_clash :: "crypto_ext \<Rightarrow> transaction \<Rightarrow> mempool \<Rightarrow> bool" where
  "no_clash E tx p \<longleftrightarrow> (\<forall>w e. entry_of p w = Some e \<longrightarrow> pe_txid (int_entry e) = Txid E tx \<longrightarrow>
     tx_inputs (pe_tx (int_entry e)) = tx_inputs tx)"

definition new_pool_entry :: "crypto_ext \<Rightarrow> transaction \<Rightarrow> i64 \<Rightarrow> i64 \<Rightarrow> pool_entry" where
  "new_pool_entry E tx fee now = \<lparr>pe_tx = tx, pe_txid = Txid E tx, pe_wtxid = Wtxid E tx, pe_fee = fee,
     pe_weight = Transaction_Weight tx, pe_time = now\<rparr>"

lemma AcceptCoins_cases:
  assumes "AcceptCoins E tx coins h now params p = (r, p')"
  obtains (refused) e where "r = Inl e" "p' = p"
  | (entered) fee p1 where "\<not> IsCoinbase tx" "entry_of p (Wtxid E tx) = None" "tx_ok params tx"
      "CheckTransactionInputs E tx coins h params = Inr fee" "0 < Transaction_Weight tx"
      "Transaction_Weight tx \<le> MAX_MEMPOOL_WEIGHT" "int (Transaction_Weight tx) \<le> fee"
      "replacement_refusal p tx fee (Transaction_Weight tx) = None"
      "shape_refusal p (doomed_by p tx) (pool_parents p tx) = None"
      "p1 = insert_entry (new_pool_entry E tx fee now) (pool_parents p tx) (fold Unlink (doomed_by p tx) p)"
      "unat (mp_total_weight p1) \<le> MAX_MEMPOOL_WEIGHT \<and> p' = p1 \<and> r = Inr (new_pool_entry E tx fee now) \<or>
       unat (mp_total_weight p1) > MAX_MEMPOOL_WEIGHT \<and> p' = snd (Trim MAX_MEMPOOL_WEIGHT p1) \<and>
       r = (if entry_of p' (Wtxid E tx) = None then Inl (refused PoolFull None) else Inr (new_pool_entry E tx fee now))"
  using assms
  by (auto simp: AcceptCoins_def Let_def MIN_RELAY_FEERATE_def CheckTransaction_Accept [symmetric] new_pool_entry_def
      split: if_splits sum.splits option.splits)

lemma parent_rel_star: "links_ok p \<Longrightarrow> (b, a) \<in> (parent_rel p)\<^sup>* \<longleftrightarrow> (a, b) \<in> (child_rel p)\<^sup>*"
  by (simp add: links_ok_def rtrancl_converse)

text \<open>The part of the pool an arrival leaves in place, and that the arrival fits into it.\<close>

lemma arrival_fits:
  assumes ok: "pool_ok E params p" and new: "entry_of p (Wtxid E tx) = None" and tx: "tx_ok params tx"
    and shape: "shape_refusal p (doomed_by p tx) (pool_parents p tx) = None" and clash: "no_clash E tx p"
    and q: "q = fold Unlink (doomed_by p tx) p"
  shows "insertable q (new_pool_entry E tx fee now) (pool_parents p tx)"
    and "card (above q (pool_parents p tx)) \<le> MAX_MEMPOOL_ANCESTORS" and "finite (above q (pool_parents p tx))"
    and "\<And>a. a \<in> above q (pool_parents p tx) \<Longrightarrow> card ((child_rel q)\<^sup>+ `` {a}) < MAX_MEMPOOL_DESCENDANTS"
    and "pool_ok E params q"
proof -
  let ?D = "set (doomed_by p tx)" and ?P = "pool_parents p tx"
  have r: "restricts p ?D q" and okq: "pool_ok E params q" using fold_Unlink_restricts [OF ok, of "doomed_by p tx"] q by auto
  note o = pool_okD [OF ok]
  show "pool_ok E params q" by (rule okq)
  have safe: "w \<notin> ?D" if "w \<in> set ?P" for w
    using shape that by (auto simp: shape_refusal_def Let_def list_ex_iff split: if_splits)
  have anc: "length (surviving_ancestors p (doomed_by p tx) ?P) \<le> MAX_MEMPOOL_ANCESTORS"
    and desc: "\<And>a. a \<in> set (surviving_ancestors p (doomed_by p tx) ?P) \<Longrightarrow>
      surviving_descendants p (doomed_by p tx) a < MAX_MEMPOOL_DESCENDANTS"
    using shape by (auto simp: shape_refusal_def Let_def list_ex_iff not_less split: if_splits)
  have kp: "entry_of p w \<noteq> None" if "w \<in> set ?P" for w
    using that o(3) unfolding pool_parents_set indices_ok_def by fastforce
  have conflict: "v \<in> ?D" if "o' \<in> set (outpoints_of (tx_inputs tx))" and "mp_spent_by p o' = Some v" for o' v
  proof -
    have "entry_of p v \<noteq> None" using that(2) o(3) unfolding indices_ok_def by fastforce
    then have "v \<in> set (DescendantsOf p v)" by (simp add: DescendantsOf_set)
    moreover have "v \<in> set (DirectConflicts p tx)" using that by (auto simp: DirectConflicts_set)
    ultimately show ?thesis by (auto simp: doomed_by_set)
  qed
  have "mp_by_txid q (Txid E tx) = None"
  proof (cases "mp_by_txid p (Txid E tx)")
    case (Some v)
    then obtain e where e: "entry_of p v = Some e" "pe_txid (int_entry e) = Txid E tx"
      using o(3) by (auto simp: indices_ok_def)
    then have same: "tx_inputs (pe_tx (int_entry e)) = tx_inputs tx" using clash by (simp add: no_clash_def)
    obtain o' where o': "o' \<in> set (outpoints_of (tx_inputs tx))" using tx by (cases "tx_inputs tx") (auto simp: tx_ok_def)
    then have "mp_spent_by p o' = Some v" using o(3) e(1) same unfolding indices_ok_def by auto
    with conflict [OF o'] Some r show ?thesis by (simp add: restricts_def strip_map_def)
  qed (use r in \<open>simp add: restricts_def strip_map_def\<close>)
  moreover have "mp_spent_by q o' = None" if "o' \<in> set (outpoints_of (tx_inputs tx))" for o'
    using conflict [OF that] r by (auto simp: restricts_def strip_map_def split: option.splits)
  moreover have "entry_of q (Wtxid E tx) = None" using new r by (simp add: restricts_def)
  moreover have "entry_of q w \<noteq> None" if "w \<in> set ?P" for w
    using kp [OF that] safe [OF that] r by (simp add: restricts_def)
  ultimately show "insertable q (new_pool_entry E tx fee now) ?P"
    by (simp add: insertable_def new_pool_entry_def)
  have sub: "child_rel q \<subseteq> child_rel p" using restricts_rel(1) [OF r] by blast
  have out: "a \<notin> ?D \<and> entry_of p a \<noteq> None" if "(a, b) \<in> child_rel q \<or> (b, a) \<in> child_rel q" for a b
    using that restricts_rel(1) [OF r] child_rel_known [OF o(2)] by blast
  have ab: "a \<in> set (surviving_ancestors p (doomed_by p tx) ?P) \<and> entry_of p a \<noteq> None" if "a \<in> above q ?P" for a
  proof -
    from that obtain b where b: "b \<in> set ?P" "(a, b) \<in> (child_rel q)\<^sup>*" by (auto simp: above_def)
    then have "a \<in> set (AncestorsOf p b)"
      using rtrancl_mono [OF sub] AncestorsOf_set [OF kp [OF b(1)]] parent_rel_star [OF o(2)] by auto
    moreover have "a \<notin> ?D \<and> entry_of p a \<noteq> None"
      using b(2) by (cases rule: converse_rtranclE) (use safe [OF b(1)] kp [OF b(1)] out in auto)
    ultimately show ?thesis using b(1) by (auto simp: surviving_ancestors_set)
  qed
  then have "above q ?P \<subseteq> set (surviving_ancestors p (doomed_by p tx) ?P)" by blast
  then show "finite (above q ?P)" "card (above q ?P) \<le> MAX_MEMPOOL_ANCESTORS"
    using anc by (auto intro: finite_subset order_trans [OF card_mono] order_trans [OF card_length])
  fix a assume a: "a \<in> above q ?P"
  let ?S = "filter (\<lambda>d. d \<noteq> a \<and> d \<notin> ?D) (DescendantsOf p a)"
  have "(child_rel q)\<^sup>+ `` {a} \<subseteq> set ?S"
  proof
    fix d assume d: "d \<in> (child_rel q)\<^sup>+ `` {a}"
    then have p: "(a, d) \<in> (child_rel p)\<^sup>+" using trancl_mono sub by blast
    then have "d \<noteq> a" using o(2) by (auto simp: links_ok_def acyclic_def)
    moreover have "d \<notin> ?D" using d out by (auto elim: tranclE)
    moreover have "d \<in> set (DescendantsOf p a)" using p ab [OF a] DescendantsOf_set by (auto dest: trancl_into_rtrancl)
    ultimately show "d \<in> set ?S" by simp
  qed
  then have "card ((child_rel q)\<^sup>+ `` {a}) \<le> surviving_descendants p (doomed_by p tx) a"
    unfolding surviving_descendants_def by (meson List.finite_set card_length card_mono le_trans)
  with desc ab [OF a] show "card ((child_rel q)\<^sup>+ `` {a}) < MAX_MEMPOOL_DESCENDANTS" by fastforce
qed

lemma fee_bounded: "CheckTransactionInputs E tx coins h params = Inr fee \<Longrightarrow> 0 \<le> fee \<and> fee \<le> MAX_MONEY"
  by (auto simp: CheckTransactionInputs_Inr TransactionFee_Inr IsValidAmount_def)

text \<open>An acceptance that is not refused outright: the arrival is inserted, then the pool is cut to its cap.\<close>

lemma AcceptCoins_enters:
  assumes ok: "pool_ok E params p" and w: "pool_weight p \<le> MAX_MEMPOOL_WEIGHT" and clash: "no_clash E tx p"
    and acc: "AcceptCoins E tx coins h now params p = (r, p')"
  obtains (refused) e where "r = Inl e" "p' = p"
  | (entered) fee q p1 where "entry_of p (Wtxid E tx) = None" "tx_ok params tx" "\<not> IsCoinbase tx"
      "CheckTransactionInputs E tx coins h params = Inr fee" "int (Transaction_Weight tx) \<le> fee"
      "0 < Transaction_Weight tx" "Transaction_Weight tx \<le> MAX_MEMPOOL_WEIGHT"
      "replacement_refusal p tx fee (Transaction_Weight tx) = None"
      "restricts p (set (doomed_by p tx)) q" "pool_ok E params q"
      "insertable q (new_pool_entry E tx fee now) (pool_parents p tx)"
      "p1 = insert_entry (new_pool_entry E tx fee now) (pool_parents p tx) q" "pool_ok E params p1"
      "prunes p1 p'" "pool_ok E params p'" "pool_weight p' \<le> MAX_MEMPOOL_WEIGHT"
      "\<And>entry. r = Inr entry \<Longrightarrow> entry = new_pool_entry E tx fee now"
  using acc
proof (cases rule: AcceptCoins_cases)
  case (refused e)
  then show ?thesis using that(1) by blast
next
  case (entered fee p1)
  let ?q = "fold Unlink (doomed_by p tx) p" and ?e = "new_pool_entry E tx fee now"
  note f = arrival_fits [OF ok entered(2,3,9) clash refl]
  have r: "restricts p (set (doomed_by p tx)) ?q" using fold_Unlink_restricts [OF ok] by blast
  have e: "entry_ok E params (pe_wtxid ?e) ?e"
    using entered fee_bounded [OF entered(4)] by (simp add: entry_ok_def new_pool_entry_def)
  have ok1: "pool_ok E params p1" unfolding entered(10) by (rule insert_entry_ok [OF f(5,1) e f(2,3,4)])
  have "pool_weight ?q \<le> MAX_MEMPOOL_WEIGHT" using restricts_weight [OF r] w by simp
  then have w1: "pool_weight p1 < 2 ^ 64"
    unfolding entered(10) insert_entry_weight [OF f(1)] using entered(6)
    by (simp add: MAX_MEMPOOL_WEIGHT_def new_pool_entry_def)
  note t = totals_weight [OF pool_okD(4) [OF ok1] w1]
  have cut: "pool_ok E params p' \<and> pool_weight p' \<le> MAX_MEMPOOL_WEIGHT \<and> prunes p1 p'"
  proof (cases "unat (mp_total_weight p1) \<le> MAX_MEMPOOL_WEIGHT")
    case True
    with entered(11) have "p' = p1" by auto
    with True ok1 t prunes_refl show ?thesis by auto
  next
    case False
    with entered(11) have "p' = snd (Trim_loop MAX_MEMPOOL_WEIGHT 0 p1)" by (simp add: Trim_def)
    with Trim_loop_ok [OF ok1 w1, of MAX_MEMPOOL_WEIGHT 0] show ?thesis
      by (metis min.boundedE prod.collapse)
  qed
  have "entry = ?e" if "r = Inr entry" for entry using entered(11) that by (auto split: if_splits)
  with that(2) [OF entered(2,3,1,4,7,5,6,8) r f(5,1) entered(10) ok1] cut show ?thesis by blast
qed

lemma AcceptCoins_ok:
  assumes "pool_ok E params p" and "pool_weight p \<le> MAX_MEMPOOL_WEIGHT" and "no_clash E tx p"
    and "AcceptCoins E tx coins h now params p = (r, p')"
  shows "pool_ok E params p' \<and> pool_weight p' \<le> MAX_MEMPOOL_WEIGHT"
  using assms by (cases rule: AcceptCoins_enters [OF assms]) auto

lemma AcceptTx_ok:
  assumes "pool_ok E params p" and "pool_weight p \<le> MAX_MEMPOOL_WEIGHT" and "no_clash E tx p"
    and "AcceptTx E tx base h now params p = (r, p')"
  shows "pool_ok E params p' \<and> pool_weight p' \<le> MAX_MEMPOOL_WEIGHT"
  using assms AcceptCoins_ok [OF assms(1-3)]
  by (auto simp: AcceptTx_def split: if_splits sum.splits option.splits)

section \<open>Selecting for a block\<close>

text \<open>A list of entries in which every entry comes once, after its in-pool parents.\<close>

fun parents_first :: "mempool \<Rightarrow> hash256 set \<Rightarrow> pool_entry list \<Rightarrow> bool" where
  "parents_first p seen [] \<longleftrightarrow> True"
| "parents_first p seen (e # es) \<longleftrightarrow>
     (case entry_of p (pe_wtxid e) of
        None \<Rightarrow> False
      | Some i \<Rightarrow> int_entry i = e \<and> pe_wtxid e \<notin> seen \<and> set (int_parents i) \<subseteq> seen) \<and>
     parents_first p (insert (pe_wtxid e) seen) es"

lemma parents_first_append:
  "parents_first p seen (xs @ ys) \<longleftrightarrow> parents_first p seen xs \<and> parents_first p (seen \<union> pe_wtxid ` set xs) ys"
  by (induction xs arbitrary: seen) (auto simp: insert_commute Un_insert_left)

abbreviation weight_at :: "mempool \<Rightarrow> hash256 \<Rightarrow> nat" where
  "weight_at p w \<equiv> pe_weight (int_entry (the (entry_of p w)))"

definition selection_ok :: "mempool \<Rightarrow> pool_entry list \<times> hash256 list \<times> nat \<Rightarrow> bool" where
  "selection_ok p = (\<lambda>(selected, included, used). parents_first p {} selected \<and> included = map pe_wtxid selected \<and>
     distinct included \<and> set included \<subseteq> dom (entry_of p) \<and> used = sum (weight_at p) (set included))"

lemma emit_scan_None:
  assumes "emit_scan p included skipped package = None" and "x \<in> set package"
  shows "\<exists>e. entry_of p x = Some e \<and> \<not> set (int_parents e) \<subseteq> set included"
  using assms
  by (induction p included skipped package rule: emit_scan.induct)
    (auto split: option.splits if_splits simp: list_all_iff)

lemma emit_scan_Some:
  assumes "emit_scan p included skipped package = Some (r, package')" and "set package \<subseteq> dom (entry_of p)"
  shows "\<exists>w e a b. r = Some (w, int_entry e) \<and> entry_of p w = Some e \<and> set (int_parents e) \<subseteq> set included \<and>
    package = a @ w # b \<and> package' = skipped @ a @ b"
  using assms
proof (induction p included skipped package rule: emit_scan.induct)
  case (2 p included skipped w package)
  then obtain e where e: "entry_of p w = Some e" by auto
  show ?case
  proof (cases "set (int_parents e) \<subseteq> set included")
    case True
    then have "r = Some (w, int_entry e)" "package' = skipped @ package"
      using 2(2) e by (simp_all add: list_all_iff subset_iff split: if_splits)
    with e True show ?thesis by (intro exI [of _ w] exI [of _ e] exI [of _ "[]"] exI [of _ package]) simp
  next
    case False
    then have "\<not> list_all (\<lambda>x. x \<in> set included) (int_parents e)" by (auto simp: list_all_iff)
    with 2 e obtain v f a b where "r = Some (v, int_entry f)" "entry_of p v = Some f" "set (int_parents f) \<subseteq> set included"
      "package = a @ v # b" "package' = (skipped @ [w]) @ a @ b"
      by fastforce
    then show ?thesis by (intro exI [of _ v] exI [of _ f] exI [of _ "w # a"] exI [of _ b]) simp
  qed
qed simp

text \<open>A package that holds the missing parents of its entries is emitted whole.\<close>

lemma emit_loop_emits:
  assumes pool: "pool_ok E params p" and sel: "selection_ok p s" and pk: "distinct package" "set package \<subseteq> dom (entry_of p)"
    "set package \<inter> set (fst (snd s)) = {}"
    and closed: "\<And>w e. w \<in> set package \<Longrightarrow> entry_of p w = Some e \<Longrightarrow> set (int_parents e) \<subseteq> set (fst (snd s)) \<union> set package"
    and run: "emit_loop p package s = s'"
  shows "selection_ok p s' \<and> set (fst (snd s')) = set (fst (snd s)) \<union> set package \<and>
    snd (snd s') = snd (snd s) + package_weight p package"
  using sel pk closed run
proof (induction "length package" arbitrary: package s rule: less_induct)
  case less
  obtain selected included used where s: "s = (selected, included, used)" by (cases s)
  note l = pool_okD(2) [OF pool]
  show ?case
  proof (cases "package = []")
    case True
    with less.prems s show ?thesis by (simp add: emit_loop.simps package_weight_def)
  next
    case False
    have "wf (child_rel p)" using finite_acyclic_wf [OF finite_child_rel(1) [OF l]] l by (simp add: links_ok_def)
    then obtain z where z: "z \<in> set package" "\<And>y. (y, z) \<in> child_rel p \<Longrightarrow> y \<notin> set package"
      using False by (metis wfE_min' set_empty)
    obtain e where e: "entry_of p z = Some e" using z(1) less.prems(3) by auto
    have "set (int_parents e) \<subseteq> set included"
    proof
      fix y assume y: "y \<in> set (int_parents e)"
      then have "(z, y) \<in> parent_rel p" using e by (auto simp: parent_rel_def)
      then have "(y, z) \<in> child_rel p" using l by (simp add: links_ok_def)
      with z(2) y less.prems(5) [OF z(1) e] s show "y \<in> set included" by auto
    qed
    then have "emit_scan p included [] package \<noteq> None" using emit_scan_None [OF _ z(1), of p included "[]"] e by fastforce
    then obtain r package' where sc: "emit_scan p included [] package = Some (r, package')" by auto
    from emit_scan_Some [OF sc less.prems(3)] obtain w f a b where
      w: "r = Some (w, int_entry f)" "entry_of p w = Some f" "set (int_parents f) \<subseteq> set included"
      "package = a @ w # b" "package' = a @ b" by auto
    have wi: "w \<notin> set included" using less.prems(4) w(4) s by auto
    have we: "pe_wtxid (int_entry f) = w" using pool_okD(6) [OF pool w(2)] by (simp add: entry_ok_def)
    let ?s = "(selected @ [int_entry f], included @ [w], used + pe_weight (int_entry f))"
    have s0: "selection_ok p (selected, included, used)" using less.prems(1) s by simp
    have s1: "selection_ok p ?s"
      using s0 w(2,3) wi we by (simp add: selection_ok_def parents_first_append domIff subset_iff) (auto simp: domIff)
    have run: "emit_loop p package' ?s = s'"
      using less.prems(6) sc w(1) False wi unfolding s by (simp add: emit_loop.simps [of p package] hs_insert_def)
    have cl: "set (int_parents g) \<subseteq> set (fst (snd ?s)) \<union> set package'" if "v \<in> set package'" "entry_of p v = Some g" for v g
      using less.prems(5) [of v g] that w(4,5) s by auto
    have "selection_ok p s' \<and> set (fst (snd s')) = set (fst (snd ?s)) \<union> set package' \<and>
        snd (snd s') = snd (snd ?s) + package_weight p package'"
      by (rule less.hyps [OF _ s1 _ _ _ cl run]) (use less.prems(2,3,4) w(4,5) s in auto)
    then show ?thesis using w s by (auto simp: package_weight_def)
  qed
qed

lemma package_closed:
  assumes pool: "pool_ok E params p" and c: "entry_of p c \<noteq> None"
  shows "distinct (package_of p included c)" "set (package_of p included c) \<subseteq> dom (entry_of p)"
    "set (package_of p included c) \<inter> set included = {}" "c \<in> set included \<union> set (package_of p included c)"
    "\<And>w e. w \<in> set (package_of p included c) \<Longrightarrow> entry_of p w = Some e \<Longrightarrow>
       set (int_parents e) \<subseteq> set included \<union> set (package_of p included c)"
proof -
  note l = pool_okD(2) [OF pool] and A = AncestorsOf_set [OF c]
  show "distinct (package_of p included c)" by (simp add: package_of_def DescendantsOf_distinct)
  show "set (package_of p included c) \<subseteq> dom (entry_of p)" "set (package_of p included c) \<inter> set included = {}"
    by (auto simp: package_of_def)
  show "c \<in> set included \<union> set (package_of p included c)" using c by (auto simp: package_of_def A)
  fix w e assume w: "w \<in> set (package_of p included c)" "entry_of p w = Some e"
  show "set (int_parents e) \<subseteq> set included \<union> set (package_of p included c)"
  proof
    fix y assume "y \<in> set (int_parents e)"
    then have y: "(w, y) \<in> parent_rel p" using w(2) by (auto simp: parent_rel_def)
    then have "y \<in> (parent_rel p)\<^sup>* `` {c}" using w(1) A by (auto simp: package_of_def intro: rtrancl_into_rtrancl)
    moreover have "entry_of p y \<noteq> None" using y l child_rel_known(1) [OF l, of y w] by (simp add: links_ok_def)
    ultimately show "y \<in> set included \<union> set (package_of p included c)" by (simp add: package_of_def A)
  qed
qed

lemma select_candidate_ok:
  assumes pool: "pool_ok E params p" and sel: "selection_ok p s" "snd (snd s) \<le> available" and c: "entry_of p (fst c) \<noteq> None"
    and run: "select_candidate p available c s = s'"
  shows "selection_ok p s'" "snd (snd s') \<le> available" "set (fst (snd s)) \<subseteq> set (fst (snd s'))"
    "pool_weight p \<le> available \<Longrightarrow> fst c \<in> set (fst (snd s'))"
proof -
  obtain selected included used where s: "s = (selected, included, used)" by (cases s)
  let ?k = "package_of p included (fst c)"
  note k = package_closed [where included = included, OF pool c]
  have w: "package_weight p ?k = sum (weight_at p) (set ?k)"
    using k(1) by (simp add: package_weight_def sum_list_distinct_conv_sum_set)
  have i: "set included \<subseteq> dom (entry_of p)" "used = sum (weight_at p) (set included)"
    using sel(1) unfolding s selection_ok_def prod.case by blast+
  have "used + package_weight p ?k = sum (weight_at p) (set included \<union> set ?k)"
    unfolding w i(2) using k(3) by (subst sum.union_disjoint) auto
  also have "\<dots> \<le> pool_weight p"
    unfolding pool_weight_def by (rule sum_mono2 [OF finite_known]) (use i(1) k(2) in auto)
  finally have fits: "used + package_weight p ?k \<le> pool_weight p" .
  consider (present) "fst c \<in> set included" "s' = s"
    | (over) "fst c \<notin> set included" "used + package_weight p ?k > available" "s' = s"
    | (emit) "fst c \<notin> set included" "used + package_weight p ?k \<le> available" "emit_loop p ?k s = s'"
    using run s by (auto simp: select_candidate_def Let_def split: if_splits)
  then have "selection_ok p s' \<and> snd (snd s') \<le> available \<and> set (fst (snd s)) \<subseteq> set (fst (snd s')) \<and>
    (pool_weight p \<le> available \<longrightarrow> fst c \<in> set (fst (snd s')))"
  proof cases
    case emit
    have "selection_ok p s' \<and> set (fst (snd s')) = set (fst (snd s)) \<union> set ?k \<and>
        snd (snd s') = snd (snd s) + package_weight p ?k"
      by (rule emit_loop_emits [OF pool sel(1) _ _ _ _ emit(3)]) (use k s in auto)
    with emit(2) k(4) s show ?thesis by auto
  qed (use sel s fits in auto)
  then show "selection_ok p s'" "snd (snd s') \<le> available" "set (fst (snd s)) \<subseteq> set (fst (snd s'))"
    "pool_weight p \<le> available \<Longrightarrow> fst c \<in> set (fst (snd s'))" by blast+
qed

lemma insert_ranked_set: "set (insert_ranked c ds) = insert c (set ds)"
  by (induction c ds rule: insert_ranked.induct) auto

lemma ranked_candidates_set: "fst ` set (ranked_candidates p) = set (Wtxids p)"
proof -
  have "set (foldr insert_ranked cs []) = set cs" for cs by (induction cs) (simp_all add: insert_ranked_set)
  then show ?thesis by (simp add: ranked_candidates_def Wtxids_def image_image)
qed

lemma select_all_ok:
  assumes pool: "pool_ok E params p" and "selection_ok p s" "snd (snd s) \<le> available"
    and "fst ` set cs \<subseteq> set (Wtxids p)" and "fold (select_candidate p available) cs s = s'"
  shows "selection_ok p s' \<and> snd (snd s') \<le> available \<and> set (fst (snd s)) \<subseteq> set (fst (snd s')) \<and>
    (pool_weight p \<le> available \<longrightarrow> fst ` set cs \<subseteq> set (fst (snd s')))"
  using assms(2-)
proof (induction cs arbitrary: s)
  case (Cons c cs)
  have k: "entry_of p (fst c) \<noteq> None" using Cons.prems(3) known_iff_key [of p "fst c"] by simp
  note o = select_candidate_ok [OF pool Cons.prems(1,2) k refl]
  have "selection_ok p s' \<and> snd (snd s') \<le> available \<and>
      set (fst (snd (select_candidate p available c s))) \<subseteq> set (fst (snd s')) \<and>
      (pool_weight p \<le> available \<longrightarrow> fst ` set cs \<subseteq> set (fst (snd s')))"
    using Cons.IH [OF o(1,2)] Cons.prems by simp
  with o(3,4) show ?case by auto
qed simp

lemma GetTemplates_ok:
  assumes "pool_ok E params p"
  shows "parents_first p {} (GetTemplates p available)"
    "(\<Sum>e \<leftarrow> GetTemplates p available. pe_weight e) \<le> available"
    "distinct (map pe_wtxid (GetTemplates p available))"
    "pool_weight p \<le> available \<Longrightarrow> pe_wtxid ` set (GetTemplates p available) = set (Wtxids p)"
proof -
  let ?s = "fold (select_candidate p available) (ranked_candidates p) ([], [], 0)"
  obtain selected included used where s: "?s = (selected, included, used)" by (cases ?s)
  have "selection_ok p ([], [], 0)" by (simp add: selection_ok_def)
  from select_all_ok [OF assms this _ _ s] have
    o: "selection_ok p (selected, included, used)" "used \<le> available"
      "pool_weight p \<le> available \<Longrightarrow> set (Wtxids p) \<subseteq> set included"
    by (simp_all add: ranked_candidates_set)
  have t: "GetTemplates p available = selected" by (simp add: GetTemplates_def s)
  have e: "weight_at p (pe_wtxid e) = pe_weight e" if "e \<in> set selected" for e
  proof -
    note split_list [OF that]
    then obtain xs ys where x: "selected = xs @ e # ys" by blast
    have "parents_first p {} selected" using o(1) by (simp add: selection_ok_def)
    then show ?thesis unfolding x by (auto simp: parents_first_append split: option.splits)
  qed
  have d: "distinct (map pe_wtxid selected)" and u: "used = sum (weight_at p) (set (map pe_wtxid selected))"
    and k: "set (map pe_wtxid selected) \<subseteq> dom (entry_of p)" and i: "included = map pe_wtxid selected"
    using o(1) unfolding selection_ok_def prod.case by metis+
  show "parents_first p {} (GetTemplates p available)" using o(1) by (simp add: t selection_ok_def)
  have "(\<Sum>e \<leftarrow> selected. pe_weight e) = (\<Sum>e \<leftarrow> selected. weight_at p (pe_wtxid e))"
    using e by (intro arg_cong [where f = sum_list] map_cong) simp_all
  also have "\<dots> = used"
    using sum_list_distinct_conv_sum_set [OF d, of "weight_at p"] u by (simp add: comp_def)
  finally show "(\<Sum>e \<leftarrow> GetTemplates p available. pe_weight e) \<le> available" using o(2) t by simp
  show "distinct (map pe_wtxid (GetTemplates p available))" using d t by simp
  show "pe_wtxid ` set (GetTemplates p available) = set (Wtxids p)" if "pool_weight p \<le> available"
    using o(3) [OF that] k i by (auto simp: t dom_entry_of)
qed

text \<open>The order candidates are taken in: by exact rate, ties by hash.\<close>

definition rate :: "candidate \<Rightarrow> rat" where
  "rate c = (case c of (w, fee, weight) \<Rightarrow> of_int (max 0 fee) / of_nat weight)"

definition rated :: "candidate \<Rightarrow> bool" where
  "rated c \<longleftrightarrow> (case c of (w, fee, weight) \<Rightarrow> i64_ok fee \<and> 0 < weight \<and> weight < 2 ^ 64)"

lemma ranks_before_iff:
  assumes "rated a" and "rated b"
  shows "ranks_before a b \<longleftrightarrow> rate a > rate b \<or> rate a = rate b \<and> fst a < fst b"
proof -
  obtain v f x where a: "a = (v, f, x)" by (cases a)
  obtain w g y where b: "b = (w, g, y)" by (cases b)
  have p: "(0 :: rat) < of_nat x" "(0 :: rat) < of_nat y" using assms by (simp_all add: rated_def a b)
  have c: "CompareFeerate f x g y = sgn (max 0 f * int y - max 0 g * int x)"
    by (rule CompareFeerate_val) (use assms in \<open>auto simp: rated_def a b i64_ok_def\<close>)
  have m: "(of_int (max 0 f * int y) :: rat) = of_int (max 0 f) * of_nat y" "(of_int (max 0 g * int x) :: rat) = of_int (max 0 g) * of_nat x"
    by simp_all
  have "rate a > rate b \<longleftrightarrow> (of_int (max 0 g * int x) :: rat) < of_int (max 0 f * int y)"
    unfolding m using p by (simp add: rate_def a b divide_simps)
  moreover have "rate a = rate b \<longleftrightarrow> (of_int (max 0 g * int x) :: rat) = of_int (max 0 f * int y)"
    unfolding m using p by (auto simp add: rate_def a b divide_simps)
  ultimately have r: "rate a > rate b \<longleftrightarrow> max 0 g * int x < max 0 f * int y" "rate a = rate b \<longleftrightarrow> max 0 g * int x = max 0 f * int y"
    by (simp_all only: of_int_less_iff of_int_eq_iff)
  have "ranks_before a b \<longleftrightarrow> max 0 g * int x < max 0 f * int y \<or> max 0 g * int x = max 0 f * int y \<and> v < w"
    by (auto simp: ranks_before_def a b Let_def c sgn_if)
  then show ?thesis unfolding r by (simp add: a b)
qed

lemma insert_ranked_sorted:
  assumes "rated c" and "\<forall>d \<in> set ds. rated d" and "fst c \<notin> fst ` set ds" and "sorted_wrt ranks_before ds"
  shows "sorted_wrt ranks_before (insert_ranked c ds)"
  using assms
proof (induction c ds rule: insert_ranked.induct)
  case (2 c d ds)
  show ?case
  proof (cases "ranks_before d c")
    case True
    with 2 show ?thesis by (auto simp: insert_ranked_set)
  next
    case False
    have cd: "ranks_before c d"
      using False 2(2,3,4) ranks_before_iff [of d c] ranks_before_iff [of c d] by (auto simp: not_less_iff_gr_or_eq)
    have "ranks_before c x" if "x \<in> set ds" for x
      using cd 2(2,3,5) that ranks_before_iff [of c d] ranks_before_iff [of d x] ranks_before_iff [of c x] by auto
    with cd False 2(5) show ?thesis by simp
  qed
qed simp

lemma fold_totals:
  assumes "\<And>w. w \<in> set ws \<Longrightarrow> entry_of p w \<noteq> None" and "distinct ws"
  shows "fold (\<lambda>id (fee, weight).
         case entry_of p id of
           None \<Rightarrow> (fee, weight)
         | Some e \<Rightarrow> (i64_wrap (fee + pe_fee (int_entry e)), weight + pe_weight (int_entry e))) ws (i64_wrap f, x) =
    (i64_wrap (f + (\<Sum>w \<in> set ws. pe_fee (int_entry (the (entry_of p w))))),
     x + (\<Sum>w \<in> set ws. weight_at p w))"
  using assms
proof (induction ws arbitrary: f x)
  case (Cons w ws)
  obtain e where e: "entry_of p w = Some e" using Cons.prems(1) by fastforce
  have "fold (\<lambda>id (fee, weight).
         case entry_of p id of
           None \<Rightarrow> (fee, weight)
         | Some e \<Rightarrow> (i64_wrap (fee + pe_fee (int_entry e)), weight + pe_weight (int_entry e))) ws
      (i64_wrap (f + pe_fee (int_entry e)), x + pe_weight (int_entry e)) =
    (i64_wrap (f + pe_fee (int_entry e) + (\<Sum>w \<in> set ws. pe_fee (int_entry (the (entry_of p w))))),
     x + pe_weight (int_entry e) + (\<Sum>w \<in> set ws. weight_at p w))"
    by (rule Cons.IH) (use Cons.prems in auto)
  then show ?case using e Cons.prems(2) by (simp add: i64_wrap_absorb add.assoc)
qed simp

text \<open>What a package pays and weighs: the sums over the entry and its descendants.\<close>

lemma DescendantTotals_sums:
  assumes ok: "pool_ok E params p" and k: "entry_of p w \<noteq> None"
  shows "DescendantTotals p w =
    (i64_wrap (\<Sum>d \<in> (child_rel p)\<^sup>* `` {w}. pe_fee (int_entry (the (entry_of p d)))),
     \<Sum>d \<in> (child_rel p)\<^sup>* `` {w}. weight_at p d)"
proof -
  note l = pool_okD(2) [OF ok]
  have "entry_of p d \<noteq> None" if "d \<in> set (DescendantsOf p w)" for d
  proof -
    have "(w, d) \<in> (child_rel p)\<^sup>*" using that by (simp add: DescendantsOf_set [OF k])
    then show ?thesis by (cases rule: rtranclE) (use k child_rel_known(2) [OF l] in auto)
  qed
  from fold_totals [where f = 0 and x = 0 and ws = "DescendantsOf p w", OF this DescendantsOf_distinct(1)] show ?thesis
    by (simp add: DescendantTotals_def DescendantsOf_set [OF k] i64_ok_def)
qed

lemma candidate_rated:
  assumes ok: "pool_ok E params p" and k: "w \<in> set (Wtxids p)" and w: "pool_weight p < 2 ^ 64"
  shows "rated (w, DescendantTotals p w)"
proof -
  have e: "entry_of p w \<noteq> None" using k known_iff_key [of p w] by simp
  note l = pool_okD(2) [OF ok]
  let ?D = "(child_rel p)\<^sup>* `` {w}"
  have sub: "?D \<subseteq> dom (entry_of p)"
    using e child_rel_known(2) [OF l] by (auto elim: rtranclE)
  have "weight_at p w \<le> (\<Sum>d \<in> ?D. weight_at p d)"
    by (rule member_le_sum) (use finite_subset [OF sub finite_known] in auto)
  moreover have "0 < weight_at p w"
  proof -
    obtain i where i: "entry_of p w = Some i" using e by auto
    from pool_okD(6) [OF ok i] i show ?thesis by (simp add: entry_ok_def)
  qed
  moreover have "(\<Sum>d \<in> ?D. weight_at p d) \<le> pool_weight p"
    unfolding pool_weight_def by (rule sum_mono2 [OF finite_known sub]) simp
  ultimately show ?thesis using w by (simp add: rated_def DescendantTotals_sums [OF ok e])
qed

lemma ranked_candidates_sorted:
  assumes ok: "pool_ok E params p" and w: "pool_weight p < 2 ^ 64"
  shows "sorted_wrt ranks_before (ranked_candidates p)"
proof -
  have "sorted_wrt ranks_before (foldr insert_ranked (map (\<lambda>id. (id, DescendantTotals p id)) ws) [])"
    if "distinct ws" "set ws \<subseteq> set (Wtxids p)" for ws
    using that
  proof (induction ws)
    case (Cons v ws)
    have s: "set (foldr insert_ranked cs []) = set cs" for cs by (induction cs) (simp_all add: insert_ranked_set)
    show ?case unfolding list.map foldr.simps o_apply
      by (rule insert_ranked_sorted) (use Cons candidate_rated [OF ok _ w] in \<open>auto simp: s\<close>)
  qed simp
  from this [OF pool_okD(1) [OF ok] subset_refl] show ?thesis unfolding ranked_candidates_def Wtxids_def .
qed

section \<open>Reachable pools\<close>

text \<open>The loops of removals only take entries away.\<close>

definition shrinks :: "crypto_ext \<Rightarrow> chain_params \<Rightarrow> mempool \<Rightarrow> mempool \<Rightarrow> bool" where
  "shrinks E params p p' \<longleftrightarrow> pool_ok E params p' \<and> (\<exists>W. restricts p W p')"

lemma shrinks_refl: "pool_ok E params p \<Longrightarrow> shrinks E params p p"
  using restricts_refl by (auto simp: shrinks_def)

lemma shrinks_trans: "shrinks E params p q \<Longrightarrow> shrinks E params q r \<Longrightarrow> shrinks E params p r"
  unfolding shrinks_def using restricts_trans by blast

lemma shrinks_Unlink: "shrinks E params p q \<Longrightarrow> shrinks E params p (Unlink w q)"
  unfolding shrinks_def using restricts_trans Unlink_restricts by blast

lemma shrinks_RemoveRecursive: "shrinks E params p q \<Longrightarrow> RemoveRecursive w q = (n, r) \<Longrightarrow> shrinks E params p r"
  unfolding shrinks_def using restricts_trans RemoveRecursive_restricts(1,2) by blast

lemma RemoveForBlock_shrinks:
  assumes "pool_ok E params p"
  shows "shrinks E params p (snd (RemoveForBlock E block p))"
  unfolding RemoveForBlock_def
proof (rule fold_keeps [where P = "\<lambda>s. shrinks E params p (snd s)"])
  fix tx :: transaction and s :: "nat \<times> mempool" assume s: "shrinks E params p (snd s)"
  have "shrinks E params p (snd (fold remove_spender (tx_inputs tx) s))"
    by (rule fold_keeps [where P = "\<lambda>s. shrinks E params p (snd s)", OF _ s])
      (auto simp: remove_spender_def split: prod.splits option.splits intro: shrinks_RemoveRecursive)
  with s show "shrinks E params p (snd (if IsCoinbase tx then s else fold remove_spender (tx_inputs tx) s))" by simp
next
  show "shrinks E params p (snd (fold (remove_confirmed E) (blk_transactions block) (0, p)))"
    by (rule fold_keeps [where P = "\<lambda>s. shrinks E params p (snd s)"])
      (auto simp: remove_confirmed_def Remove_def assms shrinks_refl split: prod.splits option.splits intro: shrinks_Unlink)
qed

lemma RemoveForReorg_shrinks:
  assumes "pool_ok E params p"
  shows "shrinks E params p (snd (RemoveForReorg E base h params p))"
  unfolding RemoveForReorg_def
  by (rule fold_keeps [where P = "\<lambda>s. shrinks E params p (snd s)"])
    (auto simp: rejudge_def Let_def assms shrinks_refl split: prod.splits option.splits sum.splits
      intro: shrinks_RemoveRecursive)

lemma shrinks_weight: "shrinks E params p p' \<Longrightarrow> pool_ok E params p' \<and> pool_weight p' \<le> pool_weight p"
  using restricts_weight by (auto simp: shrinks_def)

inductive pool_step :: "crypto_ext \<Rightarrow> chain_params \<Rightarrow> mempool \<Rightarrow> mempool \<Rightarrow> bool" for E params where
  accept: "AcceptTx E tx base h now params p = (r, p') \<Longrightarrow> no_clash E tx p \<Longrightarrow> pool_step E params p p'"
| accept_coins: "AcceptCoins E tx coins h now params p = (r, p') \<Longrightarrow> no_clash E tx p \<Longrightarrow> pool_step E params p p'"
| remove: "pool_step E params p (Remove w p)"
| remove_recursive: "RemoveRecursive w p = (n, p') \<Longrightarrow> pool_step E params p p'"
| block: "RemoveForBlock E b p = (n, p') \<Longrightarrow> pool_step E params p p'"
| reorg: "RemoveForReorg E base h params p = (n, p') \<Longrightarrow> pool_step E params p p'"
| trim: "Trim target p = (n, p') \<Longrightarrow> pool_step E params p p'"

lemma pool_step_ok:
  assumes "pool_step E params p p'" and "pool_ok E params p" and "pool_weight p \<le> MAX_MEMPOOL_WEIGHT"
  shows "pool_ok E params p' \<and> pool_weight p' \<le> MAX_MEMPOOL_WEIGHT"
  using assms(1)
proof cases
  case (accept tx base h now r)
  with AcceptTx_ok [OF assms(2,3)] show ?thesis by blast
next
  case (accept_coins tx coins h now r)
  with AcceptCoins_ok [OF assms(2,3)] show ?thesis by blast
next
  case (remove w)
  with Unlink_restricts [OF assms(2), of w] restricts_weight assms(3) show ?thesis
    unfolding Remove_def by (metis le_trans)
next
  case (remove_recursive w n)
  with RemoveRecursive_restricts [OF assms(2) remove_recursive] restricts_weight assms(3) show ?thesis by (metis le_trans)
next
  case (block b n)
  with shrinks_weight [OF RemoveForBlock_shrinks [OF assms(2), of b]] assms(3) show ?thesis by auto
next
  case (reorg base h n)
  with shrinks_weight [OF RemoveForReorg_shrinks [OF assms(2), of base h]] assms(3) show ?thesis by auto
next
  case (trim target n)
  have "pool_weight p < 2 ^ 64" using assms(3) by (simp add: MAX_MEMPOOL_WEIGHT_def)
  from Trim_loop_ok [OF assms(2) this] trim assms(3) show ?thesis by (fastforce simp: Trim_def)
qed

lemma Mempool_new_ok: "pool_ok E params Mempool_new" "pool_weight Mempool_new = 0"
  by (simp_all add: pool_ok_def Mempool_new_def Wtxids_def links_ok_def child_rel_def parent_rel_def indices_ok_def
      totals_ok_def pool_weight_def pool_fees_def packages_ok_def acyclic_def i64_wrap_def)

lemma pool_reachable_ok:
  assumes "(pool_step E params)\<^sup>*\<^sup>* Mempool_new p"
  shows "pool_ok E params p" "pool_weight p \<le> MAX_MEMPOOL_WEIGHT"
proof -
  have "pool_ok E params p \<and> pool_weight p \<le> MAX_MEMPOOL_WEIGHT"
    using assms by (induction rule: rtranclp_induct) (auto simp: Mempool_new_ok dest: pool_step_ok)
  then show "pool_ok E params p" "pool_weight p \<le> MAX_MEMPOOL_WEIGHT" by simp_all
qed

section \<open>Replacement\<close>

text \<open>Sums of fees over packages and over what one arrival may displace stay within 64 bits.\<close>

lemma fee_sum_ok:
  assumes ok: "pool_ok E params p" and "finite W" and "W \<subseteq> dom (entry_of p)" and "card W \<le> 100"
  shows "i64_ok (\<Sum>w \<in> W. pe_fee (int_entry (the (entry_of p w))))"
proof -
  have b: "0 \<le> pe_fee (int_entry (the (entry_of p w))) \<and> pe_fee (int_entry (the (entry_of p w))) \<le> MAX_MONEY"
    if w: "w \<in> W" for w
  proof -
    from assms(3) w obtain e where e: "entry_of p w = Some e" by blast
    from pool_okD(6) [OF ok e] e show ?thesis by (simp add: entry_ok_def)
  qed
  have "(\<Sum>w \<in> W. pe_fee (int_entry (the (entry_of p w)))) \<le> of_nat (card W) * MAX_MONEY"
    by (rule sum_bounded_above) (use b in blast)
  also have "\<dots> \<le> 100 * MAX_MONEY" using assms(4) by (simp add: MAX_MONEY_def)
  finally show ?thesis using sum_nonneg [of W "\<lambda>w. pe_fee (int_entry (the (entry_of p w)))"] b
    by (simp add: i64_ok_def MAX_MONEY_def)
qed

lemma package_fee_exact:
  assumes ok: "pool_ok E params p" and k: "entry_of p w \<noteq> None"
  shows "DescendantTotals p w =
    (\<Sum>d \<in> (child_rel p)\<^sup>* `` {w}. pe_fee (int_entry (the (entry_of p d))),
     \<Sum>d \<in> (child_rel p)\<^sup>* `` {w}. weight_at p d)"
proof -
  note l = pool_okD(2) [OF ok]
  let ?D = "(child_rel p)\<^sup>* `` {w}"
  have D: "?D = insert w ((child_rel p)\<^sup>+ `` {w})" by (auto simp: rtrancl_eq_or_trancl)
  have "card ((child_rel p)\<^sup>+ `` {w}) \<le> 25" using pool_okD(5) [OF ok] by (simp add: packages_ok_def MAX_MEMPOOL_DESCENDANTS_def)
  then have c: "finite ?D" "card ?D \<le> 100"
    unfolding D using finite_child_rel(2) [OF l] by (simp_all add: card_insert_if)
  have "?D \<subseteq> dom (entry_of p)" using k child_rel_known(2) [OF l] by (auto elim: rtranclE)
  from fee_sum_ok [OF ok c(1) this c(2)] show ?thesis by (simp add: DescendantTotals_sums [OF ok k])
qed

lemma displaced_fee_exact:
  assumes ok: "pool_ok E params p" and "length (doomed_by p tx) \<le> MAX_REPLACEMENT_EVICTIONS"
  shows "displaced_fee p (doomed_by p tx) = (\<Sum>w \<in> set (doomed_by p tx). pe_fee (int_entry (the (entry_of p w))))"
proof -
  let ?f = "\<lambda>w. pe_fee (int_entry (the (entry_of p w)))"
  note o = pool_okD [OF ok]
  have sub: "set (doomed_by p tx) \<subseteq> dom (entry_of p)"
  proof
    fix d assume "d \<in> set (doomed_by p tx)"
    then obtain w where w: "w \<in> set (DirectConflicts p tx)" "d \<in> set (DescendantsOf p w)" by (auto simp: doomed_by_set)
    then have k: "entry_of p w \<noteq> None" using o(3) unfolding DirectConflicts_set indices_ok_def by fastforce
    have "(w, d) \<in> (child_rel p)\<^sup>*" using w(2) by (simp add: DescendantsOf_set [OF k])
    then show "d \<in> dom (entry_of p)" by (cases rule: rtranclE) (use k child_rel_known(2) [OF o(2)] in auto)
  qed
  have "fold (\<lambda>id fee. case entry_of p id of None \<Rightarrow> fee | Some e \<Rightarrow> i64_wrap (fee + pe_fee (int_entry e))) ws (i64_wrap f) =
      i64_wrap (f + sum ?f (set ws))" if "distinct ws" "set ws \<subseteq> dom (entry_of p)" for ws f
    using that
  proof (induction ws arbitrary: f)
    case (Cons w ws)
    then obtain e where e: "entry_of p w = Some e" by auto
    with Cons.IH [of "f + pe_fee (int_entry e)"] Cons.prems show ?case by (simp add: i64_wrap_absorb add.assoc)
  qed simp
  from this [OF doomed_by_distinct sub, of 0] have "displaced_fee p (doomed_by p tx) = i64_wrap (sum ?f (set (doomed_by p tx)))"
    by (simp add: displaced_fee_def i64_ok_def)
  moreover have "card (set (doomed_by p tx)) \<le> 100"
    using assms(2) doomed_by_distinct [of p tx] by (simp add: distinct_card MAX_REPLACEMENT_EVICTIONS_def)
  ultimately show ?thesis using fee_sum_ok [OF ok _ sub] by simp
qed

section \<open>Properties\<close>

text \<open>
  Property C8. The mempool stays consistent: in every pool reached by accepting, removing, judging
  again and evicting, the links are recorded on both sides and have no cycle, the indices name
  exactly the entries that spend an outpoint or have a txid, no two entries spend the same coin,
  every entry has at most 25 ancestors and 25 descendants, the running weight is the sum of the
  weights, and it is within the cap.
\<close>

theorem mempool_stays_consistent:
  assumes "(pool_step E params)\<^sup>*\<^sup>* Mempool_new p"
  shows "links_ok p \<and> indices_ok p \<and> packages_ok p \<and>
    unat (mp_total_weight p) = pool_weight p \<and> pool_weight p \<le> MAX_MEMPOOL_WEIGHT \<and>
    (\<forall>v w e f. entry_of p v = Some e \<longrightarrow> entry_of p w = Some f \<longrightarrow> spends e \<inter> spends f \<noteq> {} \<longrightarrow> v = w)"
proof -
  note k = pool_reachable_ok [OF assms]
  note o = pool_okD [OF k(1)]
  have "unat (mp_total_weight p) = pool_weight p"
    by (rule totals_weight [OF o(4)]) (use k(2) in \<open>simp add: MAX_MEMPOOL_WEIGHT_def\<close>)
  moreover have "v = w" if "entry_of p v = Some e" "entry_of p w = Some f" "spends e \<inter> spends f \<noteq> {}" for v w e f
  proof -
    from that(3) obtain x where x: "x \<in> spends e" "x \<in> spends f" by blast
    have "mp_spent_by p x = Some v" "mp_spent_by p x = Some w"
      using o(3) x that(1,2) unfolding indices_ok_def by blast+
    then show ?thesis by simp
  qed
  ultimately show ?thesis using o k(2) by blast
qed


text \<open>
  Property C10. A replacement pays for what it displaces: when a reachable pool accepts a
  transaction, every entry it conflicts with is gone, it pays an exactly higher rate than each
  conflicting package, and strictly more than all the displaced entries together; the sums are
  exact, for no 64-bit sum of these fees can overflow.
\<close>

theorem replacement_pays:
  assumes "(pool_step E params)\<^sup>*\<^sup>* Mempool_new p" and "no_clash E tx p"
    and "AcceptCoins E tx coins h now params p = (Inr entry, p')" and "w \<in> set (DirectConflicts p tx)"
  shows "entry_of p' w = None \<and>
    rate (w, \<Sum>d \<in> (child_rel p)\<^sup>* `` {w}. pe_fee (int_entry (the (entry_of p d))),
             \<Sum>d \<in> (child_rel p)\<^sup>* `` {w}. weight_at p d) < rate (w, pe_fee entry, pe_weight entry) \<and>
    (\<Sum>d \<in> set (doomed_by p tx). pe_fee (int_entry (the (entry_of p d)))) < pe_fee entry"
proof -
  note ok = pool_reachable_ok [OF assms(1)]
  from ok assms(2,3) show ?thesis
  proof (cases rule: AcceptCoins_enters)
    case (entered fee q p1)
    note o = pool_okD [OF ok(1)]
    have w64: "pool_weight p < 2 ^ 64" using ok(2) by (simp add: MAX_MEMPOOL_WEIGHT_def)
    have k: "entry_of p w \<noteq> None" using assms(4) o(3) unfolding DirectConflicts_set indices_ok_def by fastforce
    have "w \<in> set (DescendantsOf p w)" by (simp add: DescendantsOf_set [OF k])
    then have d: "w \<in> set (doomed_by p tx)" using assms(4) unfolding doomed_by_set by blast
    have e: "entry = new_pool_entry E tx fee now" using entered(17) by simp
    have len: "length (doomed_by p tx) \<le> MAX_REPLACEMENT_EVICTIONS" and fees: "displaced_fee p (doomed_by p tx) < fee"
      and rates: "\<And>v. v \<in> set (DirectConflicts p tx) \<Longrightarrow>
        0 < CompareFeerate fee (Transaction_Weight tx) (fst (DescendantTotals p v)) (snd (DescendantTotals p v))"
      using entered(8) d by (auto simp: replacement_refusal_def Let_def list_ex_iff case_prod_beta not_le split: if_splits)
    have r: "rated (w, DescendantTotals p w)"
      by (rule candidate_rated [OF ok(1) _ w64]) (use k known_iff_key [of p w] in simp)
    have r': "rated (w, fee, Transaction_Weight tx)"
      using entered(5-7) fee_bounded [OF entered(4)]
      by (simp add: rated_def i64_ok_def MAX_MONEY_def MAX_MEMPOOL_WEIGHT_def)
    have "ranks_before (w, fee, Transaction_Weight tx) (w, DescendantTotals p w)"
      using rates [OF assms(4)] by (simp add: ranks_before_def Let_def case_prod_beta)
    then have "rate (w, DescendantTotals p w) < rate (w, fee, Transaction_Weight tx)"
      unfolding ranks_before_iff [OF r' r] by auto
    moreover have "entry_of p' w = None"
    proof -
      have q: "entry_of q w = None" using entered(9) d by (simp add: restricts_def)
      then have "w \<notin> set (pool_parents p tx)" using entered(11) by (auto simp: insertable_def)
      moreover have "w \<noteq> Wtxid E tx" using k entered(1) by auto
      ultimately have "entry_of p1 w = None"
        using q unfolding entered(12) insert_entry_entry [OF entered(11)] by (simp add: new_pool_entry_def)
      with entered(14) show ?thesis by (auto simp: prunes_def restricts_def)
    qed
    ultimately show ?thesis
      using fees unfolding displaced_fee_exact [OF ok(1) len] package_fee_exact [OF ok(1) k] e
      by (simp add: new_pool_entry_def)
  qed simp
qed

section \<open>A replacement, concretely\<close>

definition rich_coin :: coin where
  "rich_coin = example_coin\<lparr>coin_output := \<lparr>out_amount = 1000, out_lock = \<lparr>lock_version = 2, lock_program = []\<rparr>\<rparr>\<rparr>"

definition outbid :: transaction where
  "outbid = example_spend\<lparr>tx_outputs :=
     [\<lparr>out_amount = 1, out_lock = \<lparr>lock_version = 0, lock_program = []\<rparr>\<rparr>,
      \<lparr>out_amount = 3, out_lock = \<lparr>lock_version = 2, lock_program = []\<rparr>\<rparr>]\<rparr>"

definition example_pool :: mempool where
  "example_pool = insert_entry (new_pool_entry example_crypto example_spend 995 0) [] Mempool_new"

lemma example_ids:
  "Txid example_crypto example_spend \<noteq> Hash256_zero" "Wtxid example_crypto example_spend \<noteq> Wtxid example_crypto outbid"
  "Transaction_Weight outbid = 285"
  by code_simp+

lemma outbid_not_coinbase: "\<not> IsCoinbase outbid"
  using example_spend_not_coinbase by (simp add: outbid_def IsCoinbase_def)

lemma outbid_ok: "tx_ok REGTEST_PARAMS outbid"
  using outbid_not_coinbase example_ids(3)
  by (simp add: tx_ok_def regtest_limits)
    (simp add: outbid_def example_spend_def IsValidAmount_def MAX_MONEY_def is_null_outpoint_def CheckWitness_Accept
      CheckSpendCondition_Accept CONDITION_VERSION_THRESHOLD_def COINBASE_OUTPOINT_INDEX_def)

lemma example_fees:
  "CheckTransactionInputs example_crypto example_spend [rich_coin] 1 REGTEST_PARAMS = Inr 995"
  "CheckTransactionInputs example_crypto outbid [rich_coin] 1 REGTEST_PARAMS = Inr 996"
proof -
  note s = rich_coin_def example_coin_def coin_mature_def input_authorised_def IsValidAmount_def MAX_MONEY_def
  have "CheckTransaction example_spend REGTEST_PARAMS = Accept" by (simp add: CheckTransaction_Accept example_spend_ok)
  then show "CheckTransactionInputs example_crypto example_spend [rich_coin] 1 REGTEST_PARAMS = Inr 995"
    using example_spend_not_coinbase by (subst CheckTransactionInputs_decides) (simp_all add: example_spend_def s)
  have "CheckTransaction outbid REGTEST_PARAMS = Accept" by (simp add: CheckTransaction_Accept outbid_ok)
  then show "CheckTransactionInputs example_crypto outbid [rich_coin] 1 REGTEST_PARAMS = Inr 996"
    using outbid_not_coinbase by (subst CheckTransactionInputs_decides) (simp_all add: outbid_def example_spend_def s)
qed

lemma Mempool_new_fields [simp]:
  "mp_entries Mempool_new = []" "mp_spent_by Mempool_new = Map.empty" "mp_by_txid Mempool_new = Map.empty"
  "mp_total_weight Mempool_new = 0" "mp_total_fees Mempool_new = 0"
  by (simp_all add: Mempool_new_def)

lemma example_pool_accepted:
  "AcceptCoins example_crypto example_spend [rich_coin] 1 0 REGTEST_PARAMS Mempool_new =
     (Inr (new_pool_entry example_crypto example_spend 995 0), example_pool)"
proof -
  have d: "DirectConflicts Mempool_new example_spend = []" "pool_parents Mempool_new example_spend = []"
    by (simp_all add: DirectConflicts_def pool_parents_def example_spend_def)
  have x: "doomed_by Mempool_new example_spend = []" by (simp add: doomed_by_def d)
  have "mp_total_weight example_pool = 285"
    by (simp add: example_pool_def insert_entry_fields new_pool_entry_def example_spend_weight)
  then have w: "\<not> MAX_MEMPOOL_WEIGHT < unat (mp_total_weight example_pool)" by (simp add: MAX_MEMPOOL_WEIGHT_def)
  have n: "CheckTransaction example_spend REGTEST_PARAMS = Accept" by (simp add: CheckTransaction_Accept example_spend_ok)
  show ?thesis
    using w example_spend_not_coinbase
    by (simp add: AcceptCoins_def n example_fees example_spend_weight MAX_MEMPOOL_WEIGHT_def MIN_RELAY_FEERATE_def
        replacement_refusal_def x d shape_refusal_def surviving_ancestors_def Let_def example_pool_def new_pool_entry_def)
qed

lemma example_pool_reachable: "(pool_step example_crypto REGTEST_PARAMS)\<^sup>*\<^sup>* Mempool_new example_pool"
  using pool_step.accept_coins [OF example_pool_accepted] by (auto simp: no_clash_def)

lemma example_pool_entry:
  "mp_entries example_pool = [(Wtxid example_crypto example_spend,
     \<lparr>int_entry = new_pool_entry example_crypto example_spend 995 0, int_children = [], int_parents = []\<rparr>)]"
  "mp_by_txid example_pool = [Txid example_crypto example_spend \<mapsto> Wtxid example_crypto example_spend]"
  "mp_spent_by example_pool = [example_outpoint \<mapsto> Wtxid example_crypto example_spend]"
  by (simp_all add: example_pool_def insert_entry_def new_pool_entry_def Let_def example_spend_def example_outpoint_def)

lemma outbid_inputs: "tx_inputs outbid = [\<lparr>in_outpoint = example_outpoint, in_sequence = 0\<rparr>]"
  by (simp add: outbid_def example_spend_def example_outpoint_def)

lemma outbid_accepted:
  "\<exists>p'. AcceptCoins example_crypto outbid [rich_coin] 1 0 REGTEST_PARAMS example_pool =
     (Inr (new_pool_entry example_crypto outbid 996 0), p')"
    and outbid_conflicts: "Wtxid example_crypto example_spend \<in> set (DirectConflicts example_pool outbid)"
    and outbid_no_clash: "no_clash example_crypto outbid example_pool"
proof -
  let ?w = "Wtxid example_crypto example_spend"
  have d: "DirectConflicts example_pool outbid = [?w]"
    by (simp add: DirectConflicts_def outbid_inputs example_pool_entry hs_insert_def)
  then show "?w \<in> set (DirectConflicts example_pool outbid)" by simp
  show "no_clash example_crypto outbid example_pool"
    by (auto simp: no_clash_def example_pool_entry new_pool_entry_def outbid_def split: if_splits)
  have pp: "pool_parents example_pool outbid = []"
    using example_ids(1) by (simp add: pool_parents_def outbid_inputs example_pool_entry example_outpoint_def)
  have ds: "DescendantsOf example_pool ?w = [?w]"
    by (simp add: DescendantsOf_def example_pool_entry reach_loop.simps)
  have x: "doomed_by example_pool outbid = [?w]" by (simp add: doomed_by_def d ds hs_insert_def)
  have t: "DescendantTotals example_pool ?w = (995, 285)"
    by (simp add: DescendantTotals_def ds example_pool_entry new_pool_entry_def example_spend_weight i64_ok_def)
  have c: "CompareFeerate 996 285 995 285 = 1" by (subst CompareFeerate_val) simp_all
  have f: "displaced_fee example_pool [?w] = 995"
    by (simp add: displaced_fee_def example_pool_entry new_pool_entry_def i64_ok_def)
  have r: "replacement_refusal example_pool outbid 996 285 = None"
    by (simp add: replacement_refusal_def x d t c f MAX_REPLACEMENT_EVICTIONS_def)
  have n: "CheckTransaction outbid REGTEST_PARAMS = Accept" by (simp add: CheckTransaction_Accept outbid_ok)
  let ?p1 = "insert_entry (new_pool_entry example_crypto outbid 996 0) [] (Unlink ?w example_pool)"
  have "mp_total_weight (Unlink ?w example_pool) = 0"
    by (simp add: Unlink_def example_pool_entry Let_def new_pool_entry_def example_spend_weight)
      (simp add: example_pool_def insert_entry_fields new_pool_entry_def example_spend_weight)
  then have "mp_total_weight ?p1 = 285" by (simp add: insert_entry_fields new_pool_entry_def example_ids)
  then have w: "\<not> MAX_MEMPOOL_WEIGHT < unat (mp_total_weight ?p1)" by (simp add: MAX_MEMPOOL_WEIGHT_def)
  have "AcceptCoins example_crypto outbid [rich_coin] 1 0 REGTEST_PARAMS example_pool =
     (Inr (new_pool_entry example_crypto outbid 996 0), ?p1)"
    using w outbid_not_coinbase example_ids(2) [symmetric]
    by (simp add: AcceptCoins_def n example_fees example_ids MAX_MEMPOOL_WEIGHT_def MIN_RELAY_FEERATE_def
        r x pp shape_refusal_def surviving_ancestors_def Let_def new_pool_entry_def example_pool_entry)
  then show "\<exists>p'. AcceptCoins example_crypto outbid [rich_coin] 1 0 REGTEST_PARAMS example_pool =
     (Inr (new_pool_entry example_crypto outbid 996 0), p')" by blast
qed

theorem replacement_pays_witness:
  "\<exists>p'. AcceptCoins example_crypto outbid [rich_coin] 1 0 REGTEST_PARAMS example_pool =
       (Inr (new_pool_entry example_crypto outbid 996 0), p') \<and>
     entry_of p' (Wtxid example_crypto example_spend) = None"
proof -
  obtain p' where p': "AcceptCoins example_crypto outbid [rich_coin] 1 0 REGTEST_PARAMS example_pool =
     (Inr (new_pool_entry example_crypto outbid 996 0), p')" using outbid_accepted by blast
  from replacement_pays [OF example_pool_reachable outbid_no_clash p' outbid_conflicts] p' show ?thesis by blast
qed

theorem mempool_stays_consistent_witness:
  "entry_of example_pool (Wtxid example_crypto example_spend) \<noteq> None \<and> packages_ok example_pool \<and>
     unat (mp_total_weight example_pool) = pool_weight example_pool"
  using mempool_stays_consistent [OF example_pool_reachable] by (simp add: example_pool_entry)


end
