(* ===== verification/Genesis.thy ===== *)
theory Genesis
  imports Connect
begin

text \<open>
  The genesis block (\<^verbatim>\<open>src/consensus/genesis.cpp\<close>): how it is built from the parameters of a
  network, how it is checked at start-up, and the search for its nonce. Genesis is shown to have
  its defining shape by construction, and connecting it is shown to leave the coins alone, which
  is why the chain starts above it with no coins.
\<close>

section \<open>The code\<close>

definition GENESIS_MESSAGE :: string where
  "GENESIS_MESSAGE = ''Reuters 05/Sep/2026 Philippine VP Duterte posts bail after arrest order''"

definition BuildGenesisCoinbase :: "chain_params \<Rightarrow> transaction" where
  "BuildGenesisCoinbase params =
     \<lparr>tx_version = 1,
      tx_inputs = [MakeCoinbaseInput 0],
      tx_outputs =
        [\<lparr>out_amount = 0,
          out_lock = \<lparr>lock_version = LOCK_VERSION_UNSPENDABLE, lock_program = Hash256_Span (chain_id params)\<rparr>\<rparr>],
      tx_locktime = 0,
      tx_witnesses = [],
      tx_coinbase_data = string_bytes GENESIS_MESSAGE\<rparr>"

definition BuildGenesisBlock :: "crypto_ext \<Rightarrow> chain_params \<Rightarrow> block" where
  "BuildGenesisBlock E params =
     (let transactions = [BuildGenesisCoinbase params];
          root = ComputeMerkleRoot E (map (Wtxid E) transactions)
      in \<lparr>blk_header =
            \<lparr>hdr_version = 1,
             hdr_height = 0,
             hdr_prev_block = Hash256_zero,
             hdr_merkle_root = (case root of Some hash \<Rightarrow> hash | None \<Rightarrow> Hash256_zero),
             hdr_timestamp = genesis_timestamp params,
             hdr_target_bits = genesis_bits params,
             hdr_nonce = genesis_nonce params\<rparr>,
          blk_transactions = transactions\<rparr>)"

datatype genesis_fault = GenesisOk | HashMismatch | MalformedTarget | InsufficientWork | MalformedBlock

definition CheckGenesis :: "crypto_ext \<Rightarrow> chain_params \<Rightarrow> genesis_fault" where
  "CheckGenesis E params =
     (case CompactToTarget (genesis_bits params) of
        None \<Rightarrow> MalformedTarget
      | Some target \<Rightarrow>
          let genesis = BuildGenesisBlock E params;
              coinbase = hd (blk_transactions genesis);
              hash = Block_Hash E genesis
          in if length (blk_transactions genesis) \<noteq> 1 then MalformedBlock
             else if \<not> IsCoinbase coinbase \<or> length (tx_outputs coinbase) \<noteq> 1 then MalformedBlock
             else if out_amount (hd (tx_outputs coinbase)) \<noteq> 0 \<or>
               \<not> Lock_IsUnspendable (out_lock (hd (tx_outputs coinbase))) then MalformedBlock
             else if hdr_height (blk_header genesis) \<noteq> 0 \<or>
               \<not> IsZero (hdr_prev_block (blk_header genesis)) then MalformedBlock
             else if Some (hdr_merkle_root (blk_header genesis)) \<noteq> Block_ComputeMerkleRoot E genesis
               then MalformedBlock
             else if hash \<noteq> genesis_hash params then HashMismatch
             else if \<not> HashMeetsTarget hash target then InsufficientWork
             else GenesisOk)"

primrec DescribeGenesis :: "genesis_fault \<Rightarrow> string" where
  "DescribeGenesis GenesisOk = ''ok''"
| "DescribeGenesis HashMismatch = ''genesis does not hash to the recorded value''"
| "DescribeGenesis MalformedTarget = ''genesis target_bits is not a valid compact target''"
| "DescribeGenesis InsufficientWork = ''genesis hash does not meet its own target''"
| "DescribeGenesis MalformedBlock = ''genesis does not have the shape genesis is defined to have''"

text \<open>The loop over the offsets, \<open>remaining\<close> of them left from \<open>nonce\<close> on.\<close>

fun FindGenesisNonce_loop :: "crypto_ext \<Rightarrow> block_header \<Rightarrow> target \<Rightarrow> u64 \<Rightarrow> nat \<Rightarrow> u64 option" where
  "FindGenesisNonce_loop E header target nonce 0 = None"
| "FindGenesisNonce_loop E header target nonce (Suc remaining) =
     (if HashMeetsTarget (BlockHeader_Hash E (header\<lparr>hdr_nonce := nonce\<rparr>)) target then Some nonce
      else FindGenesisNonce_loop E header target (nonce + 1) remaining)"

definition FindGenesisNonce :: "crypto_ext \<Rightarrow> chain_params \<Rightarrow> u64 \<Rightarrow> u64 \<Rightarrow> u64 option" where
  "FindGenesisNonce E params start_nonce attempts =
     (case CompactToTarget (genesis_bits params) of
        None \<Rightarrow> None
      | Some target \<Rightarrow>
          FindGenesisNonce_loop E (blk_header (BuildGenesisBlock E params)) target start_nonce (unat attempts))"

section \<open>Genesis by construction\<close>

lemma genesis_shape:
  "blk_transactions (BuildGenesisBlock E params) = [BuildGenesisCoinbase params]"
  "hdr_height (blk_header (BuildGenesisBlock E params)) = 0"
  "IsZero (hdr_prev_block (blk_header (BuildGenesisBlock E params)))"
  "Block_ComputeMerkleRoot E (BuildGenesisBlock E params) =
     Some (hdr_merkle_root (blk_header (BuildGenesisBlock E params)))"
  "hdr_target_bits (blk_header (BuildGenesisBlock E params)) = genesis_bits params"
  by (simp_all add: BuildGenesisBlock_def Let_def Block_ComputeMerkleRoot_def ComputeMerkleRoot_root IsZero_iff)

lemma genesis_coinbase:
  "IsCoinbase (BuildGenesisCoinbase params)"
  "tx_outputs (BuildGenesisCoinbase params) = [\<lparr>out_amount = 0,
     out_lock = \<lparr>lock_version = LOCK_VERSION_UNSPENDABLE, lock_program = Hash256_Span (chain_id params)\<rparr>\<rparr>]"
  by (simp_all add: BuildGenesisCoinbase_def IsCoinbase_def inputs_are_coinbase_def MakeCoinbaseInput_def
      is_null_outpoint_def IsZero_iff COINBASE_OUTPOINT_INDEX_def)

lemma CheckGenesis_cases:
  "CheckGenesis E params =
     (case CompactToTarget (genesis_bits params) of
        None \<Rightarrow> MalformedTarget
      | Some target \<Rightarrow>
          if Block_Hash E (BuildGenesisBlock E params) \<noteq> genesis_hash params then HashMismatch
          else if \<not> HashMeetsTarget (genesis_hash params) target then InsufficientWork
          else GenesisOk)"
  by (simp add: CheckGenesis_def Let_def genesis_shape genesis_coinbase Lock_IsUnspendable_def
      split: option.split)

lemma FindGenesisNonce_loop_Some:
  "FindGenesisNonce_loop E header target start n = Some nonce \<longleftrightarrow>
     (\<exists>k<n. nonce = start + of_nat k \<and>
       HashMeetsTarget (BlockHeader_Hash E (header\<lparr>hdr_nonce := nonce\<rparr>)) target \<and>
       (\<forall>j<k. \<not> HashMeetsTarget (BlockHeader_Hash E (header\<lparr>hdr_nonce := start + of_nat j\<rparr>)) target))"
proof (induction n arbitrary: start)
  case (Suc n)
  show ?case
  proof (cases "HashMeetsTarget (BlockHeader_Hash E (header\<lparr>hdr_nonce := start\<rparr>)) target")
    case True
    then show ?thesis by (fastforce intro: exI [of _ 0])
  next
    case False
    then show ?thesis by (auto simp: Suc.IH Ex_less_Suc2 All_less_Suc2 add.assoc)
  qed
qed simp

section \<open>Properties\<close>

text \<open>
  The start-up check of genesis accepts exactly when the parameters' target decodes,
  the block built from them has the recorded hash, and that hash meets the target; the built block
  always has the shape genesis is defined to have, so \<^verbatim>\<open>MalformedBlock\<close> never occurs.
\<close>

theorem check_genesis_decides:
  "(CheckGenesis E params = GenesisOk \<longleftrightarrow>
      Block_Hash E (BuildGenesisBlock E params) = genesis_hash params \<and>
      CheckProofOfWork (genesis_hash params) (genesis_bits params)) \<and>
   CheckGenesis E params \<noteq> MalformedBlock"
  by (simp add: CheckGenesis_cases CheckProofOfWork_def split: option.split)

text \<open>
  Connecting genesis would change nothing: on every network it is accepted with no
  fees and an empty undo record, and the coins are left exactly as they were.
\<close>

theorem genesis_leaves_coins:
  "ConnectBlock E (BuildGenesisBlock E (ParamsFor n)) coins (ParamsFor n) =
     (Inr \<lparr>res_undo = \<lparr>undo_transactions = []\<rparr>, res_total_fees = 0\<rparr>, coins)"
proof -
  let ?g = "BuildGenesisBlock E (ParamsFor n)"
  have "\<not> IsStored (hd (tx_outputs (BuildGenesisCoinbase (ParamsFor n))))"
    by (simp add: IsStored_def Lock_IsUnspendable_def genesis_coinbase)
  then have "ConnectTxs E (ParamsFor n) 0 0 [BuildGenesisCoinbase (ParamsFor n)] (Over (cache_view coins), [], 0)
      = Inr (Over (cache_view coins), [], 0)"
    by (simp add: ConnectTx_def genesis_coinbase verdict_simps)
  moreover have "CheckCoinbaseAmount ?g 0 (ParamsFor n) = Accept"
    using BlockReward_bounds [OF networks_issuance_ok, of 0 n]
    by (simp add: CheckCoinbaseAmount_Accept [OF networks_issuance_ok] genesis_shape genesis_coinbase)
  moreover have "snd (Flush (Over (cache_view coins)) coins) = coins" by (simp add: Flush_def Over_def)
  ultimately show ?thesis by (simp add: ConnectBlock_def genesis_shape genesis_coinbase)
qed

text \<open>
  The nonce search returns the first nonce, counting up from the start with 64-bit
  wrap-around, whose header meets the target, and fails only if none of the attempts does.
\<close>

theorem genesis_nonce_search:
  assumes "CompactToTarget (genesis_bits params) = Some target"
  shows "FindGenesisNonce E params start attempts = Some nonce \<longleftrightarrow>
    (\<exists>k<unat attempts. nonce = start + of_nat k \<and>
       HashMeetsTarget (BlockHeader_Hash E (blk_header (BuildGenesisBlock E params)\<lparr>hdr_nonce := nonce\<rparr>)) target \<and>
       (\<forall>j<k. \<not> HashMeetsTarget
          (BlockHeader_Hash E (blk_header (BuildGenesisBlock E params)\<lparr>hdr_nonce := start + of_nat j\<rparr>)) target))"
  using assms by (simp add: FindGenesisNonce_def FindGenesisNonce_loop_Some)

theorem genesis_nonce_search_witness:
  "FindGenesisNonce (example_crypto\<lparr>ext_SHA256 := (\<lambda>_. zero32)\<rparr>) REGTEST_PARAMS 5 1 = Some 5"
proof -
  have "hash_val Hash256_zero = 0"
    by (simp add: hash_val_def Hash256_zero_def Hash256_Span_def numeral_eq_Suc del: power_Suc)
  then have "HashMeetsTarget Hash256_zero target" for target by (simp add: HashMeetsTarget_iff)
  moreover have "DoubleSha256 (example_crypto\<lparr>ext_SHA256 := (\<lambda>_. zero32)\<rparr>) bs = Hash256_zero" for bs
    by (simp add: DoubleSha256_def Sha256_def Hash256_zero_def)
  moreover have "CompactToTarget 0x207FFFFF \<noteq> None" by code_simp
  then obtain t where t: "CompactToTarget (genesis_bits REGTEST_PARAMS) = Some t"
    by (auto simp: REGTEST_PARAMS_def REGTEST_POW_LIMIT_BITS_def)
  ultimately show ?thesis
    unfolding genesis_nonce_search [OF t] by (simp add: BlockHeader_Hash_def)
qed

end
