(* ===== verification/BlockIndex.thy ===== *)
theory BlockIndex
  imports Asert Genesis "HOL-Library.AList"
begin

text \<open>
  The block index (\<^verbatim>\<open>src/chain/block_index.cpp\<close>): every header this node knows, as a tree, the
  selection rule, the context of a child, and the plan of a switch between two tips.

  An entry is allocated once, owned by the map under its hash, and never removed, so a
  \<^verbatim>\<open>BlockIndexEntry*\<close> is modelled as the hash of the entry and is followed through the index, which
  also gives the current values of its two mutable fields. \<^verbatim>\<open>nullptr\<close> is \<open>None\<close>. The two hash maps
  are association lists whose order stands for the unspecified iteration order. A walk along parent
  links is a partial function, whose outer \<open>None\<close> means that it does not return; the invariant of
  the index shows that it does.
\<close>

section \<open>Entries\<close>

datatype block_validity = Header | Body | Full

text \<open>The enumerators are declared in ascending order, and compared.\<close>

primrec validity_level :: "block_validity \<Rightarrow> nat" where
  "validity_level Header = 0"
| "validity_level Body = 1"
| "validity_level Full = 2"

lemma validity_level_inject: "validity_level a = validity_level b \<longleftrightarrow> a = b"
  by (cases a; cases b) simp_all

instantiation block_validity :: linorder
begin

definition "less_eq_block_validity a b \<longleftrightarrow> validity_level a \<le> validity_level b"
definition "less_block_validity a b \<longleftrightarrow> validity_level a < validity_level b"

instance
  by standard (auto simp: less_eq_block_validity_def less_block_validity_def validity_level_inject)

end

datatype block_failure = NoFailure | FailedItself | FailedAncestor

record block_index_entry =
  ent_header :: block_header
  ent_hash :: hash256
  ent_height :: u32
  ent_total_work :: work
  ent_parent :: "hash256 option"
  ent_validity :: block_validity
  ent_failure :: block_failure
  ent_sequence :: u64

definition IsEligible :: "block_index_entry \<Rightarrow> bool" where
  "IsEligible entry \<longleftrightarrow> ent_failure entry = NoFailure"

datatype index_error = UnknownPredecessor | PredecessorInvalid | AlreadyRuledOut

datatype header_error = HeaderInvalid validation_error | HeaderNotIndexed index_error

primrec DescribeIndex :: "index_error \<Rightarrow> string" where
  "DescribeIndex UnknownPredecessor = ''the header's predecessor is not known''"
| "DescribeIndex PredecessorInvalid = ''the header builds on a branch that was rejected''"
| "DescribeIndex AlreadyRuledOut = ''the block has already been ruled out''"

primrec DescribeHeaderError :: "header_error \<Rightarrow> string" where
  "DescribeHeaderError (HeaderInvalid reason) = Describe reason"
| "DescribeHeaderError (HeaderNotIndexed reason) = DescribeIndex reason"

record block_index =
  idx_entries :: "(hash256 \<times> block_index_entry) list"
  idx_children :: "(hash256 \<times> hash256) list"
  idx_genesis :: hash256
  idx_best_header :: "hash256 option"
  idx_next_sequence :: u64

definition Find :: "block_index \<Rightarrow> hash256 \<Rightarrow> block_index_entry option" where
  "Find index hash = map_of (idx_entries index) hash"

text \<open>Following a pointer.\<close>

definition entry_at :: "block_index \<Rightarrow> hash256 \<Rightarrow> block_index_entry" where
  "entry_at index hash = the (Find index hash)"

definition IndexGenesis :: "block_index \<Rightarrow> hash256" where
  "IndexGenesis index = idx_genesis index"

definition BestHeader :: "block_index \<Rightarrow> hash256 option" where
  "BestHeader index = idx_best_header index"

definition IndexSize :: "block_index \<Rightarrow> nat" where
  "IndexSize index = length (idx_entries index)"

definition ChildrenOf :: "block_index \<Rightarrow> hash256 \<Rightarrow> hash256 list" where
  "ChildrenOf index hash = map snd (filter (\<lambda>(parent, _). parent = hash) (idx_children index))"

text \<open>\<^verbatim>\<open>BlockIndexEntry::Ancestor\<close>, with its loop.\<close>

partial_function (option) Ancestor_loop :: "block_index \<Rightarrow> u32 \<Rightarrow> hash256 option \<Rightarrow> hash256 option option" where
  "Ancestor_loop index wanted_height walk =
     (case walk of
        None \<Rightarrow> Some None
      | Some h \<Rightarrow>
          if ent_height (entry_at index h) > wanted_height
          then Ancestor_loop index wanted_height (ent_parent (entry_at index h))
          else Some (Some h))"

definition Ancestor :: "block_index \<Rightarrow> hash256 \<Rightarrow> u32 \<Rightarrow> hash256 option option" where
  "Ancestor index h wanted_height =
     (if wanted_height > ent_height (entry_at index h) then Some None
      else Ancestor_loop index wanted_height (Some h))"

section \<open>Selection\<close>

definition IsBetterTip :: "block_index_entry \<Rightarrow> block_index_entry \<Rightarrow> bool" where
  "IsBetterTip candidate incumbent \<longleftrightarrow>
     (if \<not> IsEligible candidate then False
      else if \<not> IsEligible incumbent then True
      else if ent_total_work candidate \<noteq> ent_total_work incumbent
        then ent_total_work candidate > ent_total_work incumbent
      else ent_sequence candidate < ent_sequence incumbent)"

section \<open>Context for a child\<close>

text \<open>The timestamps on the way up, newest first; the loop is bounded by the span.\<close>

fun MedianTimePastAt_loop :: "block_index \<Rightarrow> nat \<Rightarrow> hash256 option \<Rightarrow> i64 list" where
  "MedianTimePastAt_loop index 0 walk = []"
| "MedianTimePastAt_loop index (Suc n) None = []"
| "MedianTimePastAt_loop index (Suc n) (Some h) =
     hdr_timestamp (ent_header (entry_at index h)) #
       MedianTimePastAt_loop index n (ent_parent (entry_at index h))"

definition MedianTimePastAt :: "block_index \<Rightarrow> hash256 \<Rightarrow> i64" where
  "MedianTimePastAt index h = MedianTimePast (rev (MedianTimePastAt_loop index MEDIAN_TIME_SPAN (Some h)))"

definition NextTargetBits :: "block_index_entry \<Rightarrow> chain_params \<Rightarrow> u32" where
  "NextTargetBits parent params =
     (if trivial_difficulty params then pow_limit_bits params
      else AsertNextBits params (ent_height parent) (hdr_timestamp (ent_header parent)))"

definition NextTargetBits_at :: "block_index_entry \<Rightarrow> i64 \<Rightarrow> chain_params \<Rightarrow> u32" where
  "NextTargetBits_at parent candidate_timestamp params =
     (if trivial_difficulty params then pow_limit_bits params
      else
        let spacing = target_block_seconds params;
            time = hdr_timestamp (ent_header parent);
            gap_is_large = (spacing > 0 \<and> time \<le> i64_wrap (INT64_MAX - i64_wrap (2 * spacing)) \<and>
              candidate_timestamp > i64_wrap (time + i64_wrap (2 * spacing)))
        in if allow_min_difficulty_blocks params \<and> gap_is_large then pow_limit_bits params
           else NextTargetBits parent params)"

definition HeaderContextFor ::
  "block_index \<Rightarrow> hash256 \<Rightarrow> i64 \<Rightarrow> chain_params \<Rightarrow> i64 option \<Rightarrow> header_context" where
  "HeaderContextFor index parent now params candidate_timestamp =
     \<lparr>ctx_prev_hash = ent_hash (entry_at index parent),
      ctx_prev_height = ent_height (entry_at index parent),
      ctx_median_time_past = MedianTimePastAt index parent,
      ctx_expected_bits = NextTargetBits_at (entry_at index parent)
        (case candidate_timestamp of Some t \<Rightarrow> t | None \<Rightarrow> now) params,
      ctx_now = now\<rparr>"

section \<open>Planning a switch\<close>

record chain_switch =
  sw_fork_point :: "hash256 option"
  sw_disconnect :: "hash256 list"
  sw_connect :: "hash256 list"

text \<open>
  The three loops, each with the entries it pushes and the pointers it ends at. A pushed list is
  in the order of the pushes.
\<close>

partial_function (option) lower_older ::
  "block_index \<Rightarrow> hash256 option \<Rightarrow> hash256 \<Rightarrow> hash256 list \<Rightarrow> (hash256 list \<times> hash256 option) option" where
  "lower_older index older newer disconnect =
     (case older of
        Some o' \<Rightarrow>
          if ent_height (entry_at index o') > ent_height (entry_at index newer)
          then lower_older index (ent_parent (entry_at index o')) newer (disconnect @ [o'])
          else Some (disconnect, older)
      | None \<Rightarrow> Some (disconnect, older))"

partial_function (option) lower_newer ::
  "block_index \<Rightarrow> hash256 option \<Rightarrow> hash256 option \<Rightarrow> hash256 list \<Rightarrow> (hash256 list \<times> hash256 option) option" where
  "lower_newer index older newer connect =
     (case newer of
        Some n \<Rightarrow>
          if (case older of None \<Rightarrow> True
              | Some o' \<Rightarrow> ent_height (entry_at index n) > ent_height (entry_at index o'))
          then lower_newer index older (ent_parent (entry_at index n)) (connect @ [n])
          else Some (connect, newer)
      | None \<Rightarrow> Some (connect, newer))"

partial_function (option) lower_both ::
  "block_index \<Rightarrow> hash256 option \<Rightarrow> hash256 option \<Rightarrow> hash256 list \<Rightarrow> hash256 list \<Rightarrow>
     (hash256 list \<times> hash256 list \<times> hash256 option \<times> hash256 option) option" where
  "lower_both index older newer disconnect connect =
     (case older of
        None \<Rightarrow> Some (disconnect, connect, older, newer)
      | Some o' \<Rightarrow>
          case newer of
            None \<Rightarrow> Some (disconnect, connect, older, newer)
          | Some n \<Rightarrow>
              if o' \<noteq> n
              then lower_both index (ent_parent (entry_at index o')) (ent_parent (entry_at index n))
                (disconnect @ [o']) (connect @ [n])
              else Some (disconnect, connect, older, newer))"

definition PlanChainSwitch :: "block_index \<Rightarrow> hash256 option \<Rightarrow> hash256 option \<Rightarrow> chain_switch option" where
  "PlanChainSwitch index from to =
     (case to of
        None \<Rightarrow> Some \<lparr>sw_fork_point = None, sw_disconnect = [], sw_connect = []\<rparr>
      | Some target \<Rightarrow>
          Option.bind (lower_older index from target []) (\<lambda>(disconnect, older).
          Option.bind (lower_newer index older (Some target) []) (\<lambda>(connect, newer).
          Option.bind (lower_both index older newer disconnect connect) (\<lambda>(disconnect', connect', older', newer').
            Some \<lparr>sw_fork_point = (if older' = newer' then older' else None),
              sw_disconnect = disconnect', sw_connect = rev connect'\<rparr>))))"

section \<open>The index\<close>

definition BlockIndex_new :: "crypto_ext \<Rightarrow> block_header \<Rightarrow> block_index" where
  "BlockIndex_new E genesis_header =
     (let hash = BlockHeader_Hash E genesis_header;
          entry = \<lparr>ent_header = genesis_header, ent_hash = hash, ent_height = hdr_height genesis_header,
            ent_total_work = OfCompactTarget (hdr_target_bits genesis_header), ent_parent = None,
            ent_validity = Full, ent_failure = NoFailure, ent_sequence = 0\<rparr>
      in \<lparr>idx_entries = [(hash, entry)], idx_children = [], idx_genesis = hash,
          idx_best_header = Some hash, idx_next_sequence = 1\<rparr>)"

definition ForNetwork :: "crypto_ext \<Rightarrow> chain_params \<Rightarrow> block_index" where
  "ForNetwork E params = BlockIndex_new E (blk_header (BuildGenesisBlock E params))"

definition AddHeader ::
  "crypto_ext \<Rightarrow> block_index \<Rightarrow> block_header \<Rightarrow> i64 \<Rightarrow> chain_params \<Rightarrow> (header_error + hash256) \<times> block_index"
where
  "AddHeader E index header now params =
     (let hash = BlockHeader_Hash E header
      in if Find index hash \<noteq> None then (Inr hash, index)
         else case CheckBlockHeader E header params of
             Inl e \<Rightarrow> (Inl (HeaderInvalid e), index)
           | Inr _ \<Rightarrow>
               case Find index (hdr_prev_block header) of
                 None \<Rightarrow> (Inl (HeaderNotIndexed UnknownPredecessor), index)
               | Some parent \<Rightarrow>
                   if \<not> IsEligible parent then (Inl (HeaderNotIndexed PredecessorInvalid), index)
                   else case ContextualCheckBlockHeader header
                       (HeaderContextFor index (hdr_prev_block header) now params (Some (hdr_timestamp header)))
                       params of
                     Inl e \<Rightarrow> (Inl (HeaderInvalid e), index)
                   | Inr _ \<Rightarrow>
                       let entry = \<lparr>ent_header = header, ent_hash = hash, ent_height = hdr_height header,
                             ent_total_work = ent_total_work parent + OfCompactTarget (hdr_target_bits header),
                             ent_parent = Some (hdr_prev_block header), ent_validity = Header,
                             ent_failure = NoFailure, ent_sequence = idx_next_sequence index\<rparr>;
                           index' = index\<lparr>idx_next_sequence := idx_next_sequence index + 1,
                             idx_entries := (hash, entry) # idx_entries index,
                             idx_children := (hdr_prev_block header, hash) # idx_children index\<rparr>
                       in (Inr hash,
                           if (case idx_best_header index' of None \<Rightarrow> True
                               | Some best \<Rightarrow> IsBetterTip entry (entry_at index' best))
                           then index'\<lparr>idx_best_header := Some hash\<rparr> else index'))"

text \<open>A change of a stored entry.\<close>

definition update_entry ::
  "hash256 \<Rightarrow> block_index_entry \<Rightarrow> (hash256 \<times> block_index_entry) list \<Rightarrow> (hash256 \<times> block_index_entry) list" where
  "update_entry = AList.update"

definition RecordValidity :: "block_index \<Rightarrow> hash256 \<Rightarrow> block_validity \<Rightarrow> block_index" where
  "RecordValidity index hash reached =
     (case Find index hash of
        None \<Rightarrow> index
      | Some stored \<Rightarrow>
          if reached > ent_validity stored
          then index\<lparr>idx_entries := update_entry hash (stored\<lparr>ent_validity := reached\<rparr>) (idx_entries index)\<rparr>
          else index)"

text \<open>The inner loop of \<^verbatim>\<open>RecordFailure\<close> over the children of one entry; the frontier is a stack.\<close>

fun mark_children ::
  "hash256 list \<Rightarrow> (hash256 \<times> block_index_entry) list \<times> hash256 list \<times> nat \<Rightarrow>
     (hash256 \<times> block_index_entry) list \<times> hash256 list \<times> nat"
where
  "mark_children [] s = s"
| "mark_children (child # rest) (entries, frontier, marked) =
     (case map_of entries child of
        None \<Rightarrow> mark_children rest (entries, frontier, marked)
      | Some descendant \<Rightarrow>
          if ent_failure descendant \<noteq> NoFailure then mark_children rest (entries, frontier, marked)
          else mark_children rest
            (update_entry child (descendant\<lparr>ent_failure := FailedAncestor\<rparr>) entries, child # frontier, Suc marked))"

definition eligible_count :: "(hash256 \<times> block_index_entry) list \<Rightarrow> nat" where
  "eligible_count entries = length (filter (\<lambda>(_, entry). IsEligible entry) entries)"

lemma eligible_count_update:
  "map_of entries h = Some e \<Longrightarrow> IsEligible e \<Longrightarrow> \<not> IsEligible e' \<Longrightarrow>
     Suc (eligible_count (update_entry h e' entries)) = eligible_count entries"
  by (induction entries) (auto simp: eligible_count_def update_entry_def split: if_splits)

lemma mark_children_count:
  "mark_children cs (entries, frontier, marked) = (entries', frontier', marked') \<Longrightarrow>
     2 * eligible_count entries' + length frontier' \<le> 2 * eligible_count entries + length frontier"
proof (induction cs "(entries, frontier, marked)" arbitrary: entries frontier marked rule: mark_children.induct)
  case (2 child rest entries frontier marked)
  show ?case
  proof (cases "map_of entries child")
    case None
    with 2 show ?thesis by simp
  next
    case (Some d)
    show ?thesis
    proof (cases "ent_failure d = NoFailure")
      case True
      have "Suc (eligible_count (update_entry child (d\<lparr>ent_failure := FailedAncestor\<rparr>) entries)) = eligible_count entries"
        using eligible_count_update [OF Some] True by (simp add: IsEligible_def)
      with 2(3) [OF Some] 2(4) Some True show ?thesis by simp
    next
      case False
      with 2 Some show ?thesis by simp
    qed
  qed
qed simp

function RecordFailure_loop ::
  "(hash256 \<times> hash256) list \<Rightarrow> (hash256 \<times> block_index_entry) list \<times> hash256 list \<times> nat \<Rightarrow>
     (hash256 \<times> block_index_entry) list \<times> nat"
where
  "RecordFailure_loop children (entries, [], marked) = (entries, marked)"
| "RecordFailure_loop children (entries, current # frontier, marked) =
     RecordFailure_loop children
       (mark_children (map snd (filter (\<lambda>(parent, _). parent = current) children)) (entries, frontier, marked))"
  by pat_completeness auto

termination
proof (relation "measure (\<lambda>(_, entries, frontier, _). 2 * eligible_count entries + length frontier)")
  fix children :: "(hash256 \<times> hash256) list" and entries :: "(hash256 \<times> block_index_entry) list"
    and current and frontier :: "hash256 list" and marked :: nat
  let ?cs = "map snd (filter (\<lambda>(parent, _). parent = current) children)"
  obtain a b c where "mark_children ?cs (entries, frontier, marked) = (a, b, c)"
    by (metis prod.exhaust)
  with mark_children_count [OF this]
  show "((children, mark_children ?cs (entries, frontier, marked)), children, entries, current # frontier, marked)
      \<in> measure (\<lambda>(_, entries, frontier, _). 2 * eligible_count entries + length frontier)" by simp
qed simp

text \<open>The best of the eligible entries, in the order the map is iterated.\<close>

fun RescanForBestHeader_loop ::
  "block_index \<Rightarrow> (hash256 \<times> block_index_entry) list \<Rightarrow> hash256 option \<Rightarrow> hash256 option" where
  "RescanForBestHeader_loop index [] best = best"
| "RescanForBestHeader_loop index ((hash, candidate) # rest) best =
     (if \<not> IsEligible candidate then RescanForBestHeader_loop index rest best
      else if (case best of None \<Rightarrow> True | Some b \<Rightarrow> IsBetterTip candidate (entry_at index b))
        then RescanForBestHeader_loop index rest (Some hash)
      else RescanForBestHeader_loop index rest best)"

definition RescanForBestHeader :: "block_index \<Rightarrow> block_index" where
  "RescanForBestHeader index =
     index\<lparr>idx_best_header := RescanForBestHeader_loop index (idx_entries index) None\<rparr>"

definition RecordFailure :: "block_index \<Rightarrow> hash256 \<Rightarrow> nat \<times> block_index" where
  "RecordFailure index hash =
     (case Find index hash of
        None \<Rightarrow> (0, index)
      | Some root \<Rightarrow>
          if ent_failure root \<noteq> NoFailure then (0, index)
          else
            let (entries, marked) = RecordFailure_loop (idx_children index)
                  (update_entry hash (root\<lparr>ent_failure := FailedItself\<rparr>) (idx_entries index), [hash], 1);
                index' = index\<lparr>idx_entries := entries\<rparr>
            in (marked,
                if (case idx_best_header index' of None \<Rightarrow> True
                    | Some best \<Rightarrow> \<not> IsEligible (entry_at index' best))
                then RescanForBestHeader index' else index'))"

section \<open>The tree\<close>

text \<open>Every entry but genesis hangs below its parent, one higher.\<close>

definition tree_ok :: "crypto_ext \<Rightarrow> block_index \<Rightarrow> bool" where
  "tree_ok E index \<longleftrightarrow>
     distinct (map fst (idx_entries index)) \<and>
     (\<exists>g. Find index (idx_genesis index) = Some g \<and> ent_parent g = None \<and> ent_height g = 0) \<and>
     (\<forall>h e. Find index h = Some e \<longrightarrow> ent_hash e = h \<and> h = BlockHeader_Hash E (ent_header e) \<and>
        hdr_height (ent_header e) = ent_height e) \<and>
     (\<forall>h e. Find index h = Some e \<longrightarrow> h \<noteq> idx_genesis index \<longrightarrow>
        (\<exists>p pe. ent_parent e = Some p \<and> hdr_prev_block (ent_header e) = p \<and> Find index p = Some pe \<and>
           unat (ent_height e) = Suc (unat (ent_height pe)) \<and>
           ent_total_work e = ent_total_work pe + OfCompactTarget (hdr_target_bits (ent_header e)))) \<and>
     (\<forall>p h. (p, h) \<in> set (idx_children index) \<longleftrightarrow> (\<exists>e. Find index h = Some e \<and> ent_parent e = Some p))"

abbreviation known :: "block_index \<Rightarrow> hash256 \<Rightarrow> bool" where
  "known index h \<equiv> Find index h \<noteq> None"

abbreviation height_of :: "block_index \<Rightarrow> hash256 \<Rightarrow> nat" where
  "height_of index h \<equiv> unat (ent_height (entry_at index h))"

abbreviation parent_of :: "block_index \<Rightarrow> hash256 \<Rightarrow> hash256 option" where
  "parent_of index h \<equiv> ent_parent (entry_at index h)"

lemma entry_at_Find [simp]: "Find index h = Some e \<Longrightarrow> entry_at index h = e"
  by (simp add: entry_at_def)

lemma tree_parent:
  assumes "tree_ok E index" and "known index h" and "parent_of index h = Some p"
  shows "known index p" "height_of index h = Suc (height_of index p)"
    "ent_total_work (entry_at index h) = ent_total_work (entry_at index p) +
       OfCompactTarget (hdr_target_bits (ent_header (entry_at index h)))"
    "hdr_prev_block (ent_header (entry_at index h)) = p"
proof -
  obtain e where e: "Find index h = Some e" using assms(2) by blast
  with assms have "h \<noteq> idx_genesis index" by (auto simp: tree_ok_def)
  with assms e show "known index p" "height_of index h = Suc (height_of index p)"
    "ent_total_work (entry_at index h) = ent_total_work (entry_at index p) +
       OfCompactTarget (hdr_target_bits (ent_header (entry_at index h)))"
    "hdr_prev_block (ent_header (entry_at index h)) = p"
    unfolding tree_ok_def by (fastforce)+
qed

lemma tree_root:
  assumes "tree_ok E index" and "known index h"
  shows "parent_of index h = None \<longleftrightarrow> h = idx_genesis index"
    "height_of index h = 0 \<longleftrightarrow> h = idx_genesis index"
proof -
  show p: "parent_of index h = None \<longleftrightarrow> h = idx_genesis index"
    using assms by (fastforce simp: tree_ok_def)
  show "height_of index h = 0 \<longleftrightarrow> h = idx_genesis index"
  proof (cases "h = idx_genesis index")
    case True
    with assms(1) show ?thesis by (auto simp: tree_ok_def)
  next
    case False
    with p obtain q where "parent_of index h = Some q" by auto
    from tree_parent(2) [OF assms this] False show ?thesis by simp
  qed
qed

text \<open>The entries from one up to genesis.\<close>

fun ancestry_upto :: "nat \<Rightarrow> block_index \<Rightarrow> hash256 \<Rightarrow> hash256 list" where
  "ancestry_upto 0 index h = [h]"
| "ancestry_upto (Suc n) index h =
     h # (case parent_of index h of None \<Rightarrow> [] | Some p \<Rightarrow> ancestry_upto n index p)"

definition ancestry :: "block_index \<Rightarrow> hash256 \<Rightarrow> hash256 list" where
  "ancestry index h = ancestry_upto (height_of index h) index h"

lemma ancestry_rec:
  assumes "tree_ok E index" and "known index h"
  shows "ancestry index h = h # (case parent_of index h of None \<Rightarrow> [] | Some p \<Rightarrow> ancestry index p)"
  using tree_parent(2) [OF assms] tree_root [OF assms]
  by (cases "height_of index h") (auto simp: ancestry_def split: option.split)

lemma ancestry_heights:
  assumes "tree_ok E index" and "known index h"
  shows "map (height_of index) (ancestry index h) = rev [0..<Suc (height_of index h)] \<and>
    (\<forall>a \<in> set (ancestry index h). known index a) \<and> last (ancestry index h) = idx_genesis index"
  using assms(2)
proof (induction "height_of index h" arbitrary: h)
  case 0
  then show ?case
    using tree_root [OF assms(1) 0(2)] ancestry_rec [OF assms(1) 0(2)] by simp
next
  case (Suc n)
  from Suc.hyps(2) obtain p where p: "parent_of index h = Some p"
    using tree_root [OF assms(1) Suc.prems] by fastforce
  note t = tree_parent [OF assms(1) Suc.prems p]
  have IH: "map (height_of index) (ancestry index p) = rev [0..<Suc (height_of index p)] \<and>
    (\<forall>a \<in> set (ancestry index p). known index a) \<and> last (ancestry index p) = idx_genesis index"
    using Suc.hyps t by simp
  moreover have "ancestry index p \<noteq> []" using ancestry_rec [OF assms(1) t(1)] by simp
  ultimately show ?case
    using ancestry_rec [OF assms(1) Suc.prems] p t(2) Suc.prems by simp
qed

lemma ancestry_below:
  assumes "tree_ok E index" and "known index h" and "a \<in> set (ancestry index h)"
  shows "known index a" "height_of index a \<le> height_of index h"
proof -
  note h = ancestry_heights [OF assms(1,2)]
  show "known index a" using h assms(3) by blast
  have "height_of index a \<in> set (map (height_of index) (ancestry index h))" using assms(3) by simp
  also have "\<dots> = {0..<Suc (height_of index h)}" using h by (metis set_rev set_upt)
  finally show "height_of index a \<le> height_of index h" by simp
qed

lemma ancestry_hd: "tree_ok E index \<Longrightarrow> known index h \<Longrightarrow> h \<in> set (ancestry index h)"
  using ancestry_rec [of E index h] by simp

section \<open>The walks return\<close>

lemma Ancestor_loop_returns:
  assumes "tree_ok E index" and "known index h"
  shows "\<exists>a. Ancestor_loop index w (Some h) = Some (Some a) \<and> a \<in> set (ancestry index h) \<and>
    height_of index a = min (unat w) (height_of index h)"
  using assms(2)
proof (induction "height_of index h" arbitrary: h)
  case 0
  then show ?case
    using ancestry_hd [OF assms(1) 0(2)]
    by (subst Ancestor_loop.simps) (auto simp: word_less_nat_alt)
next
  case (Suc n)
  show ?case
  proof (cases "ent_height (entry_at index h) > w")
    case True
    obtain p where p: "parent_of index h = Some p"
      using tree_root [OF assms(1) Suc.prems] Suc.hyps(2) by fastforce
    note t = tree_parent [OF assms(1) Suc.prems p]
    from Suc.hyps(1) [OF _ t(1)] Suc.hyps(2) t(2) obtain a where
      a: "Ancestor_loop index w (Some p) = Some (Some a)" "a \<in> set (ancestry index p)"
      "height_of index a = min (unat w) (height_of index p)" by auto
    with True p t(2) ancestry_rec [OF assms(1) Suc.prems] show ?thesis
      by (subst Ancestor_loop.simps) (auto simp: word_less_nat_alt)
  next
    case False
    then show ?thesis
      using ancestry_hd [OF assms(1) Suc.prems]
      by (subst Ancestor_loop.simps) (auto simp: word_less_nat_alt)
  qed
qed

lemma lower_older_returns:
  assumes "tree_ok E index" and "known index h"
  shows "\<exists>ds o'. lower_older index (Some h) n dis = Some (dis @ ds, Some o') \<and> known index o' \<and>
    ancestry index h = ds @ ancestry index o' \<and>
    height_of index o' = min (height_of index h) (height_of index n) \<and>
    (\<forall>d \<in> set ds. height_of index n < height_of index d)"
  using assms(2)
proof (induction "height_of index h" arbitrary: h dis)
  case 0
  then show ?case
    by (subst lower_older.simps) (auto simp: word_less_nat_alt intro!: exI [of _ "[]"])
next
  case (Suc k)
  show ?case
  proof (cases "ent_height (entry_at index h) > ent_height (entry_at index n)")
    case True
    obtain p where p: "parent_of index h = Some p"
      using tree_root [OF assms(1) Suc.prems] Suc.hyps(2) by fastforce
    note t = tree_parent [OF assms(1) Suc.prems p]
    from Suc.hyps(1) [OF _ t(1), of "dis @ [h]"] Suc.hyps(2) t(2) obtain ds o' where
      "lower_older index (Some p) n (dis @ [h]) = Some ((dis @ [h]) @ ds, Some o')" "known index o'"
      "ancestry index p = ds @ ancestry index o'"
      "height_of index o' = min (height_of index p) (height_of index n)"
      "\<forall>d \<in> set ds. height_of index n < height_of index d" by auto
    with True p t(2) ancestry_rec [OF assms(1) Suc.prems] show ?thesis
      by (subst lower_older.simps) (auto simp: word_less_nat_alt intro!: exI [of _ "h # ds"])
  next
    case False
    with Suc.prems show ?thesis
      by (subst lower_older.simps) (auto simp: word_less_nat_alt intro!: exI [of _ "[]"])
  qed
qed

lemma lower_newer_returns:
  assumes "tree_ok E index" and "known index h"
  shows "\<exists>cs n. lower_newer index (Some o') (Some h) con = Some (con @ cs, Some n) \<and> known index n \<and>
    ancestry index h = cs @ ancestry index n \<and>
    height_of index n = min (height_of index h) (height_of index o') \<and>
    (\<forall>c \<in> set cs. height_of index o' < height_of index c)"
  using assms(2)
proof (induction "height_of index h" arbitrary: h con)
  case 0
  then show ?case
    by (subst lower_newer.simps) (auto simp: word_less_nat_alt intro!: exI [of _ "[]"])
next
  case (Suc k)
  show ?case
  proof (cases "ent_height (entry_at index h) > ent_height (entry_at index o')")
    case True
    obtain p where p: "parent_of index h = Some p"
      using tree_root [OF assms(1) Suc.prems] Suc.hyps(2) by fastforce
    note t = tree_parent [OF assms(1) Suc.prems p]
    from Suc.hyps(1) [OF _ t(1), of "con @ [h]"] Suc.hyps(2) t(2) obtain cs n where
      "lower_newer index (Some o') (Some p) (con @ [h]) = Some ((con @ [h]) @ cs, Some n)" "known index n"
      "ancestry index p = cs @ ancestry index n"
      "height_of index n = min (height_of index p) (height_of index o')"
      "\<forall>c \<in> set cs. height_of index o' < height_of index c" by auto
    with True p t(2) ancestry_rec [OF assms(1) Suc.prems] show ?thesis
      by (subst lower_newer.simps) (auto simp: word_less_nat_alt intro!: exI [of _ "h # cs"])
  next
    case False
    with Suc.prems show ?thesis
      by (subst lower_newer.simps) (auto simp: word_less_nat_alt intro!: exI [of _ "[]"])
  qed
qed

lemma lower_both_returns:
  assumes "tree_ok E index" and "known index a" and "known index b" and "height_of index a = height_of index b"
  shows "\<exists>ds cs f. lower_both index (Some a) (Some b) dis con = Some (dis @ ds, con @ cs, Some f, Some f) \<and>
    known index f \<and> ancestry index a = ds @ ancestry index f \<and> ancestry index b = cs @ ancestry index f \<and>
    set ds \<inter> set cs = {}"
  using assms(2-4)
proof (induction "height_of index a" arbitrary: a b dis con)
  case 0
  then have "a = b" using tree_root(2) [OF assms(1)] by metis
  with 0 show ?case by (subst lower_both.simps) (auto intro!: exI [of _ "[]"])
next
  case (Suc k)
  show ?case
  proof (cases "a = b")
    case True
    with Suc.prems show ?thesis by (subst lower_both.simps) (auto intro!: exI [of _ "[]"])
  next
    case False
    obtain p q where p: "parent_of index a = Some p" and q: "parent_of index b = Some q"
      using tree_root [OF assms(1) Suc.prems(1)] tree_root [OF assms(1) Suc.prems(2)] Suc.hyps(2) Suc.prems(3)
      by fastforce
    note tp = tree_parent [OF assms(1) Suc.prems(1) p] and tq = tree_parent [OF assms(1) Suc.prems(2) q]
    from Suc.hyps(1) [of p q "dis @ [a]" "con @ [b]"] Suc.hyps(2) Suc.prems(3) tp tq obtain ds cs f where
      IH: "lower_both index (Some p) (Some q) (dis @ [a]) (con @ [b]) =
        Some ((dis @ [a]) @ ds, (con @ [b]) @ cs, Some f, Some f)" "known index f"
      "ancestry index p = ds @ ancestry index f" "ancestry index q = cs @ ancestry index f" "set ds \<inter> set cs = {}"
      by auto
    have "a \<notin> set (ancestry index q)" "b \<notin> set (ancestry index p)"
      using ancestry_below(2) [OF assms(1) tq(1), of a] ancestry_below(2) [OF assms(1) tp(1), of b]
        tp(2) tq(2) Suc.prems(3) by auto
    with IH False p q show ?thesis
      using ancestry_rec [OF assms(1) Suc.prems(1)] ancestry_rec [OF assms(1) Suc.prems(2)]
      by (subst lower_both.simps) (auto intro!: exI [of _ "a # ds"] exI [of _ "b # cs"] exI [of _ f])
  qed
qed

text \<open>The plan of a switch, at the last common ancestor.\<close>

lemma PlanChainSwitch_returns:
  assumes "tree_ok E index" and "known index from" and "known index to"
  obtains plan f where "PlanChainSwitch index (Some from) (Some to) = Some plan" "sw_fork_point plan = Some f"
    "known index f" "ancestry index from = sw_disconnect plan @ ancestry index f"
    "ancestry index to = rev (sw_connect plan) @ ancestry index f"
    "set (sw_disconnect plan) \<inter> set (sw_connect plan) = {}"
proof -
  obtain ds o' where o': "lower_older index (Some from) to [] = Some (ds, Some o')" "known index o'"
    "ancestry index from = ds @ ancestry index o'" "height_of index o' = min (height_of index from) (height_of index to)"
    "\<forall>d \<in> set ds. height_of index to < height_of index d"
    using lower_older_returns [OF assms(1,2), of to "[]"] by auto
  obtain cs n where n: "lower_newer index (Some o') (Some to) [] = Some (cs, Some n)" "known index n"
    "ancestry index to = cs @ ancestry index n" "height_of index n = min (height_of index to) (height_of index o')"
    "\<forall>c \<in> set cs. height_of index o' < height_of index c"
    using lower_newer_returns [OF assms(1,3), of o' "[]"] by auto
  have "height_of index o' = height_of index n" using o'(4) n(4) by simp
  from lower_both_returns [OF assms(1) o'(2) n(2) this, of ds cs] obtain ds' cs' f where
    b: "lower_both index (Some o') (Some n) ds cs = Some (ds @ ds', cs @ cs', Some f, Some f)" "known index f"
    "ancestry index o' = ds' @ ancestry index f" "ancestry index n = cs' @ ancestry index f" "set ds' \<inter> set cs' = {}"
    by auto
  have below: "height_of index x \<le> height_of index o'" if "x \<in> set ds' \<union> set cs'" for x
    using that b(3,4) ancestry_below(2) [OF assms(1) o'(2), of x] ancestry_below(2) [OF assms(1) n(2), of x] n(4)
    by auto
  have above: "height_of index x \<le> height_of index to" if "x \<in> set (cs @ cs')" for x
    using that b(4) n(3) ancestry_below(2) [OF assms(1,3), of x] by auto
  have "(set ds \<union> set ds') \<inter> (set cs \<union> set cs') = {}"
    using b(5) below above o'(5) n(5) by fastforce
  with o' n b show ?thesis
    by (intro that [of "\<lparr>sw_fork_point = Some f, sw_disconnect = ds @ ds', sw_connect = rev (cs @ cs')\<rparr>" f])
      (auto simp: PlanChainSwitch_def)
qed

section \<open>The best header\<close>

text \<open>Sequence numbers are those below the next one, each used once.\<close>

definition sequences_ok :: "block_index \<Rightarrow> bool" where
  "sequences_ok index \<longleftrightarrow> unat (idx_next_sequence index) = length (idx_entries index) \<and>
     (\<forall>h e. Find index h = Some e \<longrightarrow> ent_sequence e < idx_next_sequence index) \<and>
     (\<forall>h e h' e'. Find index h = Some e \<longrightarrow> Find index h' = Some e' \<longrightarrow>
        ent_sequence e = ent_sequence e' \<longrightarrow> h = h')"

definition best_ok :: "block_index \<Rightarrow> bool" where
  "best_ok index \<longleftrightarrow>
     (case idx_best_header index of
        None \<Rightarrow> \<forall>h e. Find index h = Some e \<longrightarrow> \<not> IsEligible e
      | Some b \<Rightarrow> \<exists>be. Find index b = Some be \<and> IsEligible be \<and>
          (\<forall>h e. Find index h = Some e \<longrightarrow> \<not> IsBetterTip e be))"

text \<open>A ruled-out entry rules out its children.\<close>

definition failures_ok :: "block_index \<Rightarrow> bool" where
  "failures_ok index \<longleftrightarrow>
     (\<forall>h e p pe. Find index h = Some e \<longrightarrow> ent_parent e = Some p \<longrightarrow> Find index p = Some pe \<longrightarrow>
        IsEligible e \<longrightarrow> IsEligible pe)"

definition index_ok :: "crypto_ext \<Rightarrow> block_index \<Rightarrow> bool" where
  "index_ok E index \<longleftrightarrow> tree_ok E index \<and> sequences_ok index \<and> failures_ok index \<and> best_ok index"

lemma IsBetterTip_irrefl [simp]: "\<not> IsBetterTip a a"
  by (simp add: IsBetterTip_def)

lemma IsBetterTip_trans: "IsBetterTip a b \<Longrightarrow> IsBetterTip b c \<Longrightarrow> IsBetterTip a c"
  by (auto simp: IsBetterTip_def split: if_splits)

lemma IsBetterTip_not_trans: "\<not> IsBetterTip a b \<Longrightarrow> IsBetterTip c b \<Longrightarrow> \<not> IsBetterTip a c"
  by (auto simp: IsBetterTip_def split: if_splits)

lemma IsBetterTip_total:
  "IsEligible a \<or> IsEligible b \<Longrightarrow> ent_sequence a \<noteq> ent_sequence b \<Longrightarrow> IsBetterTip a b \<or> IsBetterTip b a"
  by (auto simp: IsBetterTip_def)

lemma RescanForBestHeader_loop_best:
  assumes "\<forall>(h, e) \<in> set es. Find index h = Some e"
    and "case best of None \<Rightarrow> True | Some b \<Rightarrow> known index b \<and> IsEligible (entry_at index b)"
  shows "case RescanForBestHeader_loop index es best of
      None \<Rightarrow> best = None \<and> (\<forall>(h, e) \<in> set es. \<not> IsEligible e)
    | Some b \<Rightarrow> known index b \<and> IsEligible (entry_at index b) \<and>
        (\<forall>(h, e) \<in> set es. \<not> IsBetterTip e (entry_at index b)) \<and>
        (\<forall>b0. best = Some b0 \<longrightarrow> \<not> IsBetterTip (entry_at index b0) (entry_at index b))"
  using assms
proof (induction index es best rule: RescanForBestHeader_loop.induct)
  case (1 index best)
  then show ?case by (auto split: option.splits)
next
  case (2 index hash candidate rest best)
  have c: "Find index hash = Some candidate" "entry_at index hash = candidate" using 2(4) by simp_all
  show ?case
  proof (cases "IsEligible candidate")
    case False
    then have "\<not> IsBetterTip candidate b" for b by (simp add: IsBetterTip_def)
    with False 2(1) [OF False] 2(4,5) show ?thesis by (auto split: option.splits)
  next
    case el: True
    show ?thesis
    proof (cases "case best of None \<Rightarrow> True | Some b \<Rightarrow> IsBetterTip candidate (entry_at index b)")
      case True
      have IH: "case RescanForBestHeader_loop index rest (Some hash) of
          None \<Rightarrow> False
        | Some b \<Rightarrow> known index b \<and> IsEligible (entry_at index b) \<and>
            (\<forall>(h, e) \<in> set rest. \<not> IsBetterTip e (entry_at index b)) \<and>
            \<not> IsBetterTip candidate (entry_at index b)"
        using 2(2) el True 2(4) c by (simp split: option.splits)
      show ?thesis
        using IH True el by (auto split: option.splits dest: IsBetterTip_not_trans IsBetterTip_trans)
    next
      case False
      then obtain b0 where b0: "best = Some b0" "\<not> IsBetterTip candidate (entry_at index b0)"
        by (auto split: option.splits)
      have IH: "case RescanForBestHeader_loop index rest best of
          None \<Rightarrow> False
        | Some b \<Rightarrow> known index b \<and> IsEligible (entry_at index b) \<and>
            (\<forall>(h, e) \<in> set rest. \<not> IsBetterTip e (entry_at index b)) \<and>
            \<not> IsBetterTip (entry_at index b0) (entry_at index b)"
        using 2(3) el False 2(4,5) b0(1) by (simp split: option.splits)
      have "\<not> IsBetterTip candidate (entry_at index b)" if "\<not> IsBetterTip (entry_at index b0) (entry_at index b)"
        "IsEligible (entry_at index b)" for b
        using that b0(2) 2(5) b0(1) el by (auto simp: IsBetterTip_def split: if_splits)
      with IH el False b0 show ?thesis by (auto split: option.splits)
    qed
  qed
qed

lemma Find_set:
  "distinct (map fst (idx_entries index)) \<Longrightarrow> (h, e) \<in> set (idx_entries index) \<longleftrightarrow> Find index h = Some e"
  by (simp add: Find_def)

lemma RescanForBestHeader_best:
  assumes "distinct (map fst (idx_entries index))"
  shows "best_ok (RescanForBestHeader index)"
proof -
  have all: "\<forall>(h, e) \<in> set (idx_entries index). Find index h = Some e" using Find_set [OF assms] by auto
  have F: "Find (RescanForBestHeader index) = Find index"
    by (simp add: fun_eq_iff Find_def RescanForBestHeader_def)
  from RescanForBestHeader_loop_best [OF all, of None] Find_set [OF assms]
  show ?thesis unfolding best_ok_def F
    by (fastforce simp: RescanForBestHeader_def entry_at_def split: option.splits)
qed

section \<open>Adding a header\<close>

text \<open>The entry of a new header, and the index with it.\<close>

definition new_entry :: "crypto_ext \<Rightarrow> block_index \<Rightarrow> block_index_entry \<Rightarrow> block_header \<Rightarrow> block_index_entry" where
  "new_entry E index parent header =
     \<lparr>ent_header = header, ent_hash = BlockHeader_Hash E header, ent_height = hdr_height header,
      ent_total_work = ent_total_work parent + OfCompactTarget (hdr_target_bits header),
      ent_parent = Some (hdr_prev_block header), ent_validity = Header,
      ent_failure = NoFailure, ent_sequence = idx_next_sequence index\<rparr>"

definition with_entry :: "crypto_ext \<Rightarrow> block_index \<Rightarrow> block_index_entry \<Rightarrow> block_header \<Rightarrow> block_index" where
  "with_entry E index parent header =
     index\<lparr>idx_next_sequence := idx_next_sequence index + 1,
       idx_entries := (BlockHeader_Hash E header, new_entry E index parent header) # idx_entries index,
       idx_children := (hdr_prev_block header, BlockHeader_Hash E header) # idx_children index\<rparr>"

lemma AddHeader_cases:
  assumes "AddHeader E index header now params = (r, index')"
  obtains (failed) err where "r = Inl err" "index' = index"
  | (found) "r = Inr (BlockHeader_Hash E header)" "known index (BlockHeader_Hash E header)" "index' = index"
  | (added) parent where "r = Inr (BlockHeader_Hash E header)" "\<not> known index (BlockHeader_Hash E header)"
      "CheckBlockHeader E header params = Accept"
      "Find index (hdr_prev_block header) = Some parent" "IsEligible parent"
      "ContextualCheckBlockHeader header
         (HeaderContextFor index (hdr_prev_block header) now params (Some (hdr_timestamp header))) params = Accept"
      "index' = (if (case idx_best_header index of None \<Rightarrow> True
            | Some best \<Rightarrow> IsBetterTip (new_entry E index parent header)
                (entry_at (with_entry E index parent header) best))
         then (with_entry E index parent header)\<lparr>idx_best_header := Some (BlockHeader_Hash E header)\<rparr>
         else with_entry E index parent header)"
proof (cases "known index (BlockHeader_Hash E header)")
  case True
  with assms found show ?thesis by (simp add: AddHeader_def Let_def)
next
  case new: False
  let ?ctx = "HeaderContextFor index (hdr_prev_block header) now params (Some (hdr_timestamp header))"
  show ?thesis
  proof (cases "CheckBlockHeader E header params")
    case (Inl e)
    with assms new failed show ?thesis by (auto simp: AddHeader_def Let_def)
  next
    case chk: (Inr u)
    show ?thesis
    proof (cases "Find index (hdr_prev_block header)")
      case None
      with assms new chk failed show ?thesis by (auto simp: AddHeader_def Let_def)
    next
      case (Some parent)
      show ?thesis
      proof (cases "IsEligible parent")
        case False
        with assms new chk Some failed show ?thesis by (auto simp: AddHeader_def Let_def)
      next
        case el: True
        show ?thesis
        proof (cases "ContextualCheckBlockHeader header ?ctx params")
          case (Inl e)
          with assms new chk Some el failed show ?thesis by (auto simp: AddHeader_def Let_def)
        next
          case (Inr v)
          have "AddHeader E index header now params = (Inr (BlockHeader_Hash E header),
              if (case idx_best_header index of None \<Rightarrow> True
                  | Some best \<Rightarrow> IsBetterTip (new_entry E index parent header)
                      (entry_at (with_entry E index parent header) best))
              then (with_entry E index parent header)\<lparr>idx_best_header := Some (BlockHeader_Hash E header)\<rparr>
              else with_entry E index parent header)"
            unfolding AddHeader_def Let_def new_entry_def with_entry_def using new chk Some el Inr by simp
          with assms added [of parent] new chk Some el Inr show ?thesis by simp
        qed
      qed
    qed
  qed
qed

lemma with_entry_Find:
  "Find (with_entry E index parent header) h =
     (if h = BlockHeader_Hash E header then Some (new_entry E index parent header) else Find index h)"
  by (simp add: Find_def with_entry_def)

lemma Find_best [simp]: "Find (index\<lparr>idx_best_header := b\<rparr>) = Find index"
  by (simp add: fun_eq_iff Find_def)

lemma tree_ok_best [simp]: "tree_ok E (index\<lparr>idx_best_header := b\<rparr>) \<longleftrightarrow> tree_ok E index"
  by (simp add: tree_ok_def)

lemma tree_ok_with_entry:
  assumes "tree_ok E index" and "\<not> known index (BlockHeader_Hash E header)"
    and "Find index (hdr_prev_block header) = Some parent"
    and "unat (hdr_height header) = Suc (unat (ent_height parent))"
  shows "tree_ok E (with_entry E index parent header)"
proof -
  let ?i = "with_entry E index parent header" and ?h = "BlockHeader_Hash E header"
  have g: "idx_genesis ?i = idx_genesis index" by (simp add: with_entry_def)
  have d: "distinct (map fst (idx_entries ?i))"
    using assms(1,2) by (auto simp: tree_ok_def with_entry_def Find_def map_of_eq_None_iff)
  have ne: "hdr_prev_block header \<noteq> ?h" "idx_genesis index \<noteq> ?h"
    using assms by (auto simp: tree_ok_def)
  have c: "(p, h) \<in> set (idx_children ?i) \<longleftrightarrow> (\<exists>e. Find ?i h = Some e \<and> ent_parent e = Some p)" for p h
  proof -
    have C: "(p, h) \<in> set (idx_children index) \<longleftrightarrow> (\<exists>e. Find index h = Some e \<and> ent_parent e = Some p)"
      using assms(1) unfolding tree_ok_def by blast
    have "(p, h) \<in> set (idx_children ?i) \<longleftrightarrow> p = hdr_prev_block header \<and> h = ?h \<or> (p, h) \<in> set (idx_children index)"
      by (auto simp: with_entry_def)
    moreover have "ent_parent (new_entry E index parent header) = Some (hdr_prev_block header)" by (simp add: new_entry_def)
    ultimately show ?thesis
      using C assms(2) unfolding with_entry_Find by (cases "h = ?h") (simp_all, metis)
  qed
  have p: "\<exists>p pe. ent_parent e = Some p \<and> hdr_prev_block (ent_header e) = p \<and> Find ?i p = Some pe \<and>
      unat (ent_height e) = Suc (unat (ent_height pe)) \<and>
      ent_total_work e = ent_total_work pe + OfCompactTarget (hdr_target_bits (ent_header e))"
    if f: "Find ?i h = Some e" "h \<noteq> idx_genesis index" for h e
  proof (cases "h = ?h")
    case True
    with f assms(3,4) ne show ?thesis by (simp add: with_entry_Find) (auto simp: new_entry_def)
  next
    case False
    with f(1) have F: "Find index h = Some e" by (simp add: with_entry_Find)
    have "\<exists>p pe. ent_parent e = Some p \<and> hdr_prev_block (ent_header e) = p \<and> Find index p = Some pe \<and>
        unat (ent_height e) = Suc (unat (ent_height pe)) \<and>
        ent_total_work e = ent_total_work pe + OfCompactTarget (hdr_target_bits (ent_header e))"
      using assms(1) F f(2) unfolding tree_ok_def by blast
    then obtain p pe where "ent_parent e = Some p" "hdr_prev_block (ent_header e) = p"
      "Find index p = Some pe" "unat (ent_height e) = Suc (unat (ent_height pe))"
      "ent_total_work e = ent_total_work pe + OfCompactTarget (hdr_target_bits (ent_header e))"
      by blast
    moreover from this assms(2) have "p \<noteq> ?h" by auto
    ultimately show ?thesis by (auto simp: with_entry_Find)
  qed
  have k: "ent_hash e = h \<and> h = BlockHeader_Hash E (ent_header e) \<and> hdr_height (ent_header e) = ent_height e"
    if "Find ?i h = Some e" for h e
    using that assms(1) by (auto simp: with_entry_Find tree_ok_def new_entry_def split: if_splits)
  have "\<exists>g. Find ?i (idx_genesis index) = Some g \<and> ent_parent g = None \<and> ent_height g = 0"
    using assms(1) ne by (auto simp: with_entry_Find tree_ok_def)
  with d c p k show ?thesis unfolding tree_ok_def g by blast
qed

lemma sequences_ok_with_entry:
  assumes "sequences_ok index" and "IndexSize index < 2 ^ 64 - 1" and "\<not> known index (BlockHeader_Hash E header)"
  shows "sequences_ok (with_entry E index parent header)"
proof -
  let ?n = "idx_next_sequence index"
  have n: "unat (?n + 1) = Suc (unat ?n)"
    using assms(1,2) by (simp add: sequences_ok_def IndexSize_def unat_add_u64)
  have lt: "s < ?n + 1" if "s < ?n \<or> s = ?n" for s using that n by (auto simp: word_less_nat_alt)
  show ?thesis
    using assms(1,3) n lt unfolding sequences_ok_def with_entry_Find
    by (fastforce simp: with_entry_def new_entry_def split: if_splits)
qed

lemma best_ok_with_entry:
  assumes "best_ok index" and new: "\<not> known index (BlockHeader_Hash E header)"
  shows "best_ok (if (case idx_best_header index of None \<Rightarrow> True
            | Some best \<Rightarrow> IsBetterTip (new_entry E index parent header)
                (entry_at (with_entry E index parent header) best))
         then (with_entry E index parent header)\<lparr>idx_best_header := Some (BlockHeader_Hash E header)\<rparr>
         else with_entry E index parent header)"
proof -
  let ?i = "with_entry E index parent header" and ?e = "new_entry E index parent header"
  have b: "idx_best_header ?i = idx_best_header index" by (simp add: with_entry_def)
  have el: "IsEligible ?e" by (simp add: new_entry_def IsEligible_def)
  show ?thesis
  proof (cases "idx_best_header index")
    case None
    then have "\<not> IsBetterTip e ?e" if "Find index h = Some e" for h e
      using that assms(1) by (auto simp: best_ok_def IsBetterTip_def)
    with None el show ?thesis by (auto simp: best_ok_def with_entry_Find)
  next
    case (Some best)
    then obtain be where be: "Find index best = Some be" "IsEligible be"
      "\<And>h e. Find index h = Some e \<Longrightarrow> \<not> IsBetterTip e be" using assms(1) by (auto simp: best_ok_def)
    with new have F: "Find ?i best = Some be" by (auto simp: with_entry_Find)
    show ?thesis
    proof (cases "IsBetterTip ?e be")
      case True
      have "\<not> IsBetterTip e ?e" if "Find index h = Some e" for h e
        using IsBetterTip_not_trans [OF be(3) [OF that] True] .
      with True Some F el show ?thesis by (auto simp: best_ok_def with_entry_Find)
    next
      case False
      with Some F be b show ?thesis by (auto simp: best_ok_def with_entry_Find)
    qed
  qed
qed

lemma AddHeader_ok:
  assumes "index_ok E index" and "AddHeader E index header now params = (r, index')"
    and "IndexSize index < 2 ^ 64 - 1"
  shows "index_ok E index'"
  using assms(2)
proof (cases rule: AddHeader_cases)
  case (added parent)
  let ?h = "BlockHeader_Hash E header" and ?i = "with_entry E index parent header"
  from assms(1) have ok: "tree_ok E index" "sequences_ok index" "failures_ok index" "best_ok index"
    by (simp_all add: index_ok_def)
  have "unat (hdr_height header) = Suc (unat (ent_height parent))"
    using ContextualCheckBlockHeader_links(2) [OF added(6)] added(4) by (simp add: HeaderContextFor_def)
  note t = tree_ok_with_entry [OF ok(1) added(2,4) this]
  note s = sequences_ok_with_entry [OF ok(2) assms(3) added(2), of parent]
  have f: "failures_ok ?i"
    using ok(3) added(2,4,5) unfolding failures_ok_def with_entry_Find
    by (auto simp: new_entry_def IsEligible_def split: if_splits)
  show ?thesis
    using t s f best_ok_with_entry [OF ok(4) added(2), of parent] unfolding added(7) index_ok_def
    by (auto simp: sequences_ok_def failures_ok_def)
qed (use assms(1) in simp_all)

section \<open>Recording verdicts\<close>

text \<open>Only the two mutable fields of entries change.\<close>

definition strip :: "block_index_entry \<Rightarrow> block_index_entry" where
  "strip e = e\<lparr>ent_validity := Header, ent_failure := NoFailure\<rparr>"

definition same_shape ::
  "(hash256 \<times> block_index_entry) list \<Rightarrow> (hash256 \<times> block_index_entry) list \<Rightarrow> bool" where
  "same_shape es es' \<longleftrightarrow> map fst es' = map fst es \<and>
     (\<forall>h. map_option strip (map_of es' h) = map_option strip (map_of es h))"

definition elig :: "(hash256 \<times> block_index_entry) list \<Rightarrow> hash256 \<Rightarrow> bool" where
  "elig es h \<longleftrightarrow> (\<exists>e. map_of es h = Some e \<and> IsEligible e)"

lemma strip_fields:
  assumes "strip e = strip e'"
  shows "ent_header e = ent_header e'" "ent_hash e = ent_hash e'" "ent_height e = ent_height e'"
    "ent_total_work e = ent_total_work e'" "ent_parent e = ent_parent e'" "ent_sequence e = ent_sequence e'"
  using assms by (cases e; cases e'; simp add: strip_def)+

lemma strip_changes [simp]:
  "strip (e\<lparr>ent_validity := v\<rparr>) = strip e" "strip (e\<lparr>ent_failure := f\<rparr>) = strip e"
  by (simp_all add: strip_def)

lemma same_shape_refl [simp]: "same_shape es es"
  by (simp add: same_shape_def)

lemma same_shape_trans: "same_shape a b \<Longrightarrow> same_shape b c \<Longrightarrow> same_shape a c"
  by (simp add: same_shape_def)

lemma map_of_update_entry: "map_of (update_entry h e es) = (map_of es)(h \<mapsto> e)"
  unfolding update_entry_def by (rule map_of_update)

lemma update_entry_keys: "map_of es h \<noteq> None \<Longrightarrow> map fst (update_entry h e es) = map fst es"
  by (induction es) (auto simp: update_entry_def split: if_splits)

lemma same_shape_update:
  "map_of es h = Some e \<Longrightarrow> strip e' = strip e \<Longrightarrow> same_shape es (update_entry h e' es)"
  by (simp add: same_shape_def update_entry_keys map_of_update_entry)

lemma same_shape_Find:
  assumes "same_shape (idx_entries index) es"
  shows "Find (index\<lparr>idx_entries := es\<rparr>) h = Some e' \<Longrightarrow> \<exists>e. Find index h = Some e \<and> strip e = strip e'"
    "Find index h = Some e \<Longrightarrow> \<exists>e'. Find (index\<lparr>idx_entries := es\<rparr>) h = Some e' \<and> strip e = strip e'"
proof -
  have s: "map_option strip (map_of es h) = map_option strip (map_of (idx_entries index) h)"
    using assms unfolding same_shape_def by blast
  show "Find (index\<lparr>idx_entries := es\<rparr>) h = Some e' \<Longrightarrow> \<exists>e. Find index h = Some e \<and> strip e = strip e'"
    using s by (cases "map_of (idx_entries index) h") (simp_all add: Find_def)
  show "Find index h = Some e \<Longrightarrow> \<exists>e'. Find (index\<lparr>idx_entries := es\<rparr>) h = Some e' \<and> strip e = strip e'"
    using s by (cases "map_of es h") (simp_all add: Find_def)
qed

lemma tree_ok_same_shape:
  assumes "tree_ok E index" and shape: "same_shape (idx_entries index) es"
  shows "tree_ok E (index\<lparr>idx_entries := es\<rparr>)"
proof -
  let ?i = "index\<lparr>idx_entries := es\<rparr>"
  note F = same_shape_Find [OF shape]
  from assms(1) have
    t1: "distinct (map fst (idx_entries index))" and
    t2: "\<exists>g. Find index (idx_genesis index) = Some g \<and> ent_parent g = None \<and> ent_height g = 0" and
    t3: "\<And>h e. Find index h = Some e \<Longrightarrow> ent_hash e = h \<and> h = BlockHeader_Hash E (ent_header e) \<and>
      hdr_height (ent_header e) = ent_height e" and
    t4: "\<And>h e. Find index h = Some e \<Longrightarrow> h \<noteq> idx_genesis index \<Longrightarrow>
        (\<exists>p pe. ent_parent e = Some p \<and> hdr_prev_block (ent_header e) = p \<and> Find index p = Some pe \<and>
           unat (ent_height e) = Suc (unat (ent_height pe)) \<and>
           ent_total_work e = ent_total_work pe + OfCompactTarget (hdr_target_bits (ent_header e)))" and
    t5: "\<And>p h. (p, h) \<in> set (idx_children index) \<longleftrightarrow> (\<exists>e. Find index h = Some e \<and> ent_parent e = Some p)"
    unfolding tree_ok_def by blast+
  have "distinct (map fst (idx_entries ?i))" using t1 shape by (simp add: same_shape_def)
  moreover have "\<exists>g. Find ?i (idx_genesis ?i) = Some g \<and> ent_parent g = None \<and> ent_height g = 0"
  proof -
    obtain g where g: "Find index (idx_genesis index) = Some g" "ent_parent g = None" "ent_height g = 0" using t2 by blast
    from F(2) [OF g(1)] obtain g' where "Find ?i (idx_genesis index) = Some g'" "strip g = strip g'" by blast
    with g strip_fields [of g g'] show ?thesis by simp
  qed
  moreover have "ent_hash e = h \<and> h = BlockHeader_Hash E (ent_header e) \<and> hdr_height (ent_header e) = ent_height e"
    if "Find ?i h = Some e" for h e using F(1) [OF that] t3 strip_fields by metis
  moreover have "\<exists>p pe. ent_parent e = Some p \<and> hdr_prev_block (ent_header e) = p \<and> Find ?i p = Some pe \<and>
           unat (ent_height e) = Suc (unat (ent_height pe)) \<and>
           ent_total_work e = ent_total_work pe + OfCompactTarget (hdr_target_bits (ent_header e))"
    if f: "Find ?i h = Some e" "h \<noteq> idx_genesis ?i" for h e
  proof -
    obtain e0 where e0: "Find index h = Some e0" "strip e0 = strip e" using F(1) [OF f(1)] by blast
    from f(2) have "h \<noteq> idx_genesis index" by simp
    from t4 [OF e0(1) this] obtain p pe where p: "ent_parent e0 = Some p" "hdr_prev_block (ent_header e0) = p"
      "Find index p = Some pe" "unat (ent_height e0) = Suc (unat (ent_height pe))"
      "ent_total_work e0 = ent_total_work pe + OfCompactTarget (hdr_target_bits (ent_header e0))" by blast
    from F(2) [OF p(3)] obtain pe' where "Find ?i p = Some pe'" "strip pe = strip pe'" by blast
    with p strip_fields [OF e0(2)] strip_fields [of pe pe'] show ?thesis by metis
  qed
  moreover have "(p, h) \<in> set (idx_children ?i) \<longleftrightarrow> (\<exists>e. Find ?i h = Some e \<and> ent_parent e = Some p)" for p h
  proof -
    have "(\<exists>e. Find index h = Some e \<and> ent_parent e = Some p) \<longleftrightarrow> (\<exists>e. Find ?i h = Some e \<and> ent_parent e = Some p)"
      using F(1) [of h] F(2) [of h] strip_fields(5) by metis
    with t5 show ?thesis by simp
  qed
  ultimately show ?thesis unfolding tree_ok_def by blast
qed

lemma sequences_ok_same_shape:
  assumes "sequences_ok index" and shape: "same_shape (idx_entries index) es"
  shows "sequences_ok (index\<lparr>idx_entries := es\<rparr>)"
proof -
  let ?i = "index\<lparr>idx_entries := es\<rparr>"
  note F = same_shape_Find(1) [OF shape]
  have "length es = length (idx_entries index)" using shape unfolding same_shape_def by (metis length_map)
  moreover have "ent_sequence e < idx_next_sequence ?i" if f: "Find ?i h = Some e" for h e
  proof -
    obtain a where a: "Find index h = Some a" "strip a = strip e" using F [OF f] by blast
    from a(1) assms(1) have "ent_sequence a < idx_next_sequence index" unfolding sequences_ok_def by blast
    with strip_fields(6) [OF a(2)] show ?thesis by simp
  qed
  moreover have "h = h'" if f: "Find ?i h = Some e" "Find ?i h' = Some e'" "ent_sequence e = ent_sequence e'" for h e h' e'
  proof -
    obtain a b where "Find index h = Some a" "Find index h' = Some b" "strip a = strip e" "strip b = strip e'"
      using F [OF f(1)] F [OF f(2)] by blast
    with f(3) assms(1) strip_fields(6) [of a e] strip_fields(6) [of b e'] show ?thesis
      unfolding sequences_ok_def by metis
  qed
  ultimately show ?thesis using assms(1) unfolding sequences_ok_def by simp
qed

lemma ancestry_upto_same_shape:
  assumes "tree_ok E index" and shape: "same_shape (idx_entries index) es" and "known index h"
  shows "ancestry_upto n (index\<lparr>idx_entries := es\<rparr>) h = ancestry_upto n index h"
  using assms(3)
proof (induction n arbitrary: h)
  case (Suc n)
  obtain e where e: "Find index h = Some e" using Suc.prems by blast
  from same_shape_Find(2) [OF shape this] obtain e' where
    e': "Find (index\<lparr>idx_entries := es\<rparr>) h = Some e'" "strip e = strip e'" by blast
  have "ancestry_upto n (index\<lparr>idx_entries := es\<rparr>) p = ancestry_upto n index p" if "ent_parent e = Some p" for p
    using Suc.IH tree_parent(1) [OF assms(1) Suc.prems] that e by simp
  with e e' strip_fields(5) [OF e'(2)] show ?case by (auto split: option.split)
qed simp

lemma ancestry_same_shape:
  assumes "tree_ok E index" and shape: "same_shape (idx_entries index) es" and "known index h"
  shows "ancestry (index\<lparr>idx_entries := es\<rparr>) h = ancestry index h"
proof -
  obtain e where e: "Find index h = Some e" using assms(3) by blast
  from same_shape_Find(2) [OF shape this] obtain e' where
    "Find (index\<lparr>idx_entries := es\<rparr>) h = Some e'" "strip e = strip e'" by blast
  with e strip_fields(3) [of e e'] ancestry_upto_same_shape [OF assms] show ?thesis by (simp add: ancestry_def)
qed

lemma RecordValidity_ok:
  assumes "index_ok E index"
  shows "index_ok E (RecordValidity index h v)"
proof (cases "Find index h")
  case None
  with assms show ?thesis by (simp add: RecordValidity_def)
next
  case (Some e)
  let ?es = "update_entry h (e\<lparr>ent_validity := v\<rparr>) (idx_entries index)" 
  let ?i = "index\<lparr>idx_entries := ?es\<rparr>"
  have sh: "same_shape (idx_entries index) ?es" using Some by (intro same_shape_update) (simp_all add: Find_def)
  have F: "Find ?i x = (if x = h then Some (e\<lparr>ent_validity := v\<rparr>) else Find index x)" for x
    by (simp add: Find_def map_of_update_entry)
  have el: "IsEligible (e\<lparr>ent_validity := v\<rparr>) = IsEligible e" by (simp add: IsEligible_def)
  have bt: "IsBetterTip (e\<lparr>ent_validity := v\<rparr>) x = IsBetterTip e x" "IsBetterTip x (e\<lparr>ent_validity := v\<rparr>) = IsBetterTip x e" for x
    by (simp_all add: IsBetterTip_def IsEligible_def)
  have "failures_ok ?i" using assms Some el unfolding index_ok_def failures_ok_def F by (auto split: if_splits)
  moreover have "best_ok ?i"
  proof (cases "idx_best_header index")
    case None
    then show ?thesis using assms Some el unfolding index_ok_def best_ok_def F by auto
  next
    case b: (Some b)
    then obtain be where be: "Find index b = Some be" "IsEligible be"
      "\<And>h e. Find index h = Some e \<Longrightarrow> \<not> IsBetterTip e be" using assms unfolding index_ok_def best_ok_def by auto
    have n: "\<not> IsBetterTip x' be" if "Find ?i x = Some x'" for x x'
      using that be(3) [OF Some] be(3) [of x] bt(1) [of be] unfolding F by (cases "x = h") auto
    obtain be' where "Find ?i b = Some be'" "IsEligible be'" "\<And>x. IsBetterTip x be' = IsBetterTip x be"
      using be(1,2) Some el bt(2) that unfolding F by (cases "b = h") auto
    with b n show ?thesis by (simp add: best_ok_def)
  qed
  ultimately have "index_ok E ?i"
    using assms tree_ok_same_shape [OF _ sh] sequences_ok_same_shape [OF _ sh] unfolding index_ok_def by blast
  with assms Some show ?thesis by (simp add: RecordValidity_def)
qed

lemma mark_children_spec:
  assumes "mark_children cs (es, fr, m) = (es', fr', m')"
  shows "same_shape es es' \<and> m' + eligible_count es' = m + eligible_count es \<and>
    (\<forall>h. elig es' h \<longleftrightarrow> elig es h \<and> h \<notin> set cs) \<and>
    set fr' = set fr \<union> {h \<in> set cs. elig es h}"
  using assms
proof (induction cs "(es, fr, m)" arbitrary: es fr m rule: mark_children.induct)
  case (2 c cs es fr m)
  show ?case
  proof (cases "elig es c")
    case True
    then obtain d where d: "map_of es c = Some d" "IsEligible d" by (auto simp: elig_def)
    let ?es = "update_entry c (d\<lparr>ent_failure := FailedAncestor\<rparr>) es"
    have n: "\<not> IsEligible (d\<lparr>ent_failure := FailedAncestor\<rparr>)" by (simp add: IsEligible_def)
    have IH: "same_shape ?es es' \<and> m' + eligible_count es' = Suc m + eligible_count ?es \<and>
      (\<forall>h. elig es' h \<longleftrightarrow> elig ?es h \<and> h \<notin> set cs) \<and>
      set fr' = set (c # fr) \<union> {h \<in> set cs. elig ?es h}"
      using 2(3) [OF d(1)] 2(4) d by (simp add: IsEligible_def)
    have "elig ?es h \<longleftrightarrow> elig es h \<and> h \<noteq> c" for h
      using n by (auto simp: elig_def map_of_update_entry)
    moreover have "same_shape es ?es" by (rule same_shape_update [OF d(1)]) simp
    ultimately show ?thesis
      using IH eligible_count_update [OF d n] True same_shape_trans [of es ?es es'] by auto
  next
    case False
    have "mark_children cs (es, fr, m) = (es', fr', m')"
      using 2(4) False by (auto simp: elig_def IsEligible_def split: option.splits if_splits)
    moreover have "map_of es c = None \<or> (\<exists>d. map_of es c = Some d \<and> ent_failure d \<noteq> NoFailure)"
      using False by (cases "map_of es c") (auto simp: elig_def IsEligible_def)
    ultimately have "same_shape es es' \<and> m' + eligible_count es' = m + eligible_count es \<and>
      (\<forall>h. elig es' h \<longleftrightarrow> elig es h \<and> h \<notin> set cs) \<and> set fr' = set fr \<union> {h \<in> set cs. elig es h}"
      using 2(1,2) by blast
    with False show ?thesis by auto
  qed
qed simp

lemma RecordFailure_loop_spec:
  assumes "RecordFailure_loop ch (es, fr, m) = (es', m')"
    and "\<forall>p c. (p, c) \<in> set ch \<longrightarrow> \<not> elig es p \<longrightarrow> p \<notin> set fr \<longrightarrow> \<not> elig es c"
    and "\<forall>f \<in> set fr. \<not> elig es f"
  shows "same_shape es es' \<and> m' + eligible_count es' = m + eligible_count es \<and>
    (\<forall>h. elig es' h \<longrightarrow> elig es h) \<and>
    (\<forall>p c. (p, c) \<in> set ch \<longrightarrow> \<not> elig es' p \<longrightarrow> \<not> elig es' c) \<and>
    (\<forall>h. elig es h \<longrightarrow> \<not> elig es' h \<longrightarrow> (\<exists>f \<in> set fr. (f, h) \<in> (set ch)\<^sup>+))"
  using assms
proof (induction ch "(es, fr, m)" arbitrary: es fr m rule: RecordFailure_loop.induct)
  case (1 ch es m)
  then show ?case by auto
next
  case (2 ch es x fr m)
  let ?cs = "map snd (filter (\<lambda>(parent, _). parent = x) ch)"
  obtain es1 fr1 m1 where mk: "mark_children ?cs (es, fr, m) = (es1, fr1, m1)" by (metis prod.exhaust)
  note M = mark_children_spec [OF mk]
  have cs: "c \<in> set ?cs \<longleftrightarrow> (x, c) \<in> set ch" for c by force
  have "RecordFailure_loop ch (es1, fr1, m1) = (es', m')" using 2(2) mk by simp
  moreover have "\<forall>p c. (p, c) \<in> set ch \<longrightarrow> \<not> elig es1 p \<longrightarrow> p \<notin> set fr1 \<longrightarrow> \<not> elig es1 c"
    using M 2(3) cs by (metis (mono_tags, lifting) UnCI mem_Collect_eq set_ConsD)
  moreover have "\<forall>f \<in> set fr1. \<not> elig es1 f" using M 2(4) by auto
  ultimately have IH: "same_shape es1 es' \<and> m' + eligible_count es' = m1 + eligible_count es1 \<and>
    (\<forall>h. elig es' h \<longrightarrow> elig es1 h) \<and>
    (\<forall>p c. (p, c) \<in> set ch \<longrightarrow> \<not> elig es' p \<longrightarrow> \<not> elig es' c) \<and>
    (\<forall>h. elig es1 h \<longrightarrow> \<not> elig es' h \<longrightarrow> (\<exists>f \<in> set fr1. (f, h) \<in> (set ch)\<^sup>+))"
    using 2(1) [OF mk] by blast
  have "\<exists>f \<in> set (x # fr). (f, h) \<in> (set ch)\<^sup>+" if h: "elig es h" "\<not> elig es' h" for h
  proof (cases "elig es1 h")
    case True
    with IH h obtain f where f: "f \<in> set fr1" "(f, h) \<in> (set ch)\<^sup>+" by blast
    with M cs [of f] show ?thesis by (auto intro: trancl_into_trancl2)
  next
    case False
    with M h cs show ?thesis by auto
  qed
  with IH M same_shape_trans [of es es1 es'] show ?case by auto
qed

lemma children_ancestry:
  assumes "tree_ok E index" and "known index x"
  shows "(h, x) \<in> (set (idx_children index))\<^sup>* \<longleftrightarrow> h \<in> set (ancestry index x)"
  using assms(2)
proof (induction "height_of index x" arbitrary: x rule: less_induct)
  case less
  have c: "(p, x) \<in> set (idx_children index) \<longleftrightarrow> parent_of index x = Some p" for p
    using assms(1) less.prems unfolding tree_ok_def by (auto simp del: split_paired_Ex)
  have "(h, x) \<in> (set (idx_children index))\<^sup>* \<longleftrightarrow>
      h = x \<or> (\<exists>p. (h, p) \<in> (set (idx_children index))\<^sup>* \<and> parent_of index x = Some p)"
    using c by (metis rtrancl.simps)
  also have "\<dots> \<longleftrightarrow> h \<in> set (ancestry index x)"
  proof (cases "parent_of index x")
    case None
    then show ?thesis using ancestry_rec [OF assms(1) less.prems] by auto
  next
    case (Some p)
    note t = tree_parent [OF assms(1) less.prems Some]
    have "(h, p) \<in> (set (idx_children index))\<^sup>* \<longleftrightarrow> h \<in> set (ancestry index p)" by (rule less.hyps) (use t in simp_all)
    then show ?thesis using ancestry_rec [OF assms(1) less.prems] Some by auto
  qed
  finally show ?case .
qed

lemma IsBetterTip_cong:
  assumes "strip a = strip a'" and "strip b = strip b'" and "IsEligible a = IsEligible a'" and "IsEligible b = IsEligible b'"
  shows "IsBetterTip a b = IsBetterTip a' b'"
  using strip_fields [OF assms(1)] strip_fields [OF assms(2)] assms(3,4) by (simp add: IsBetterTip_def)

lemma closed_children:
  assumes "\<forall>p c. (p, c) \<in> R \<longrightarrow> \<not> P p \<longrightarrow> \<not> P c" and "(h, x) \<in> R\<^sup>*" and "\<not> P h"
  shows "\<not> P x"
  using assms(2,3) by (induction rule: rtrancl_induct) (use assms(1) in auto)

text \<open>Ruling an entry out rules out exactly its descendants.\<close>

lemma RecordFailure_spec:
  assumes ok: "index_ok E index" and root: "Find index h = Some root" "IsEligible root"
    and rec: "RecordFailure index h = (n, index')"
  shows "same_shape (idx_entries index) (idx_entries index')" (is ?shape)
    and "idx_genesis index' = idx_genesis index" (is ?genesis)
    and "\<And>x. elig (idx_entries index') x \<longleftrightarrow> elig (idx_entries index) x \<and> h \<notin> set (ancestry index x)" (is "\<And>x. ?elig x")
    and "n + eligible_count (idx_entries index') = eligible_count (idx_entries index)" (is ?count)
    and "index_ok E index'"
proof -
  let ?es = "idx_entries index" and ?ch = "idx_children index"
  let ?init = "update_entry h (root\<lparr>ent_failure := FailedItself\<rparr>) ?es"
  have t: "tree_ok E index" and s: "sequences_ok index" and f: "failures_ok index" and b: "best_ok index"
    using ok by (simp_all add: index_ok_def)
  have n0: "\<not> IsEligible (root\<lparr>ent_failure := FailedItself\<rparr>)" by (simp add: IsEligible_def)
  have r: "map_of ?es h = Some root" using root(1) by (simp add: Find_def)
  have e0: "elig ?init x \<longleftrightarrow> elig ?es x \<and> x \<noteq> h" for x
    using n0 by (auto simp: elig_def map_of_update_entry)
  have closed: "\<not> elig ?es c" if "(p, c) \<in> set ?ch" "\<not> elig ?es p" for p c
  proof -
    have "\<exists>e. Find index c = Some e \<and> ent_parent e = Some p" using that(1) t unfolding tree_ok_def by blast
    then obtain e where e: "Find index c = Some e" "ent_parent e = Some p" by blast
    have "known index c" "parent_of index c = Some p" using e by simp_all
    from tree_parent(1) [OF t this] obtain pe where pe: "Find index p = Some pe" by blast
    with that(2) have "\<not> IsEligible pe" by (simp add: elig_def Find_def)
    with f e pe have "\<not> IsEligible e" unfolding failures_ok_def by blast
    with e(1) show ?thesis by (simp add: elig_def Find_def)
  qed
  obtain es' m where loop: "RecordFailure_loop ?ch (?init, [h], 1) = (es', m)"
    by (cases "RecordFailure_loop ?ch (?init, [h], 1)")
  have L: "same_shape ?init es' \<and> m + eligible_count es' = 1 + eligible_count ?init \<and>
    (\<forall>x. elig es' x \<longrightarrow> elig ?init x) \<and>
    (\<forall>p c. (p, c) \<in> set ?ch \<longrightarrow> \<not> elig es' p \<longrightarrow> \<not> elig es' c) \<and>
    (\<forall>x. elig ?init x \<longrightarrow> \<not> elig es' x \<longrightarrow> (\<exists>f \<in> set [h]. (f, x) \<in> (set ?ch)\<^sup>+))"
    by (rule RecordFailure_loop_spec [OF loop]) (use e0 closed in auto)
  let ?i = "index\<lparr>idx_entries := es'\<rparr>"
  have sh: "same_shape ?es es'"
    using L same_shape_update [OF r, of "root\<lparr>ent_failure := FailedItself\<rparr>"] same_shape_trans by auto
  have el: "elig es' x \<longleftrightarrow> elig ?es x \<and> h \<notin> set (ancestry index x)" for x
  proof (cases "known index x")
    case False
    then have "\<not> elig ?es x" by (simp add: elig_def Find_def)
    with L e0 show ?thesis by blast
  next
    case True
    note desc = children_ancestry [OF t True, of h]
    have "\<not> elig es' h" using L e0 by blast
    with L closed_children [of "set ?ch" "elig es'" h x] desc have "elig es' x \<Longrightarrow> h \<notin> set (ancestry index x)" by blast
    moreover have "elig es' x" if "elig ?es x" "h \<notin> set (ancestry index x)"
      using that L e0 desc by (metis empty_iff list.set(1) rtrancl.rtrancl_refl set_ConsD trancl_into_rtrancl)
    ultimately show ?thesis using L e0 by blast
  qed
  have rf: "(n, index') = (m, if (case idx_best_header ?i of None \<Rightarrow> True | Some best \<Rightarrow> \<not> IsEligible (entry_at ?i best))
      then RescanForBestHeader ?i else ?i)"
    unfolding rec [symmetric] RecordFailure_def root(1) using root(2) loop by (simp add: IsEligible_def Let_def)
  then have ents: "idx_entries index' = es'" by (simp add: RescanForBestHeader_def split: if_splits)
  show ?shape ?genesis ?count
    using sh ents L eligible_count_update [OF r root(2) n0] rf
    by (simp_all add: RescanForBestHeader_def split: if_splits)
  show "?elig x" for x using el ents by simp
  have ti: "tree_ok E ?i" by (rule tree_ok_same_shape [OF t sh])
  have Fe: "Find ?i x = Some e \<Longrightarrow> IsEligible e \<longleftrightarrow> elig es' x" for x e by (simp add: elig_def Find_def)
  have fi: "failures_ok ?i"
  proof -
    have "IsEligible pe" if a: "Find ?i x = Some e" "ent_parent e = Some p" "Find ?i p = Some pe" "IsEligible e" for x e p pe
    proof -
      have "(p, x) \<in> set ?ch" using ti a(1,2) unfolding tree_ok_def by (auto simp del: split_paired_Ex)
      with L a Fe show ?thesis by blast
    qed
    then show ?thesis unfolding failures_ok_def by blast
  qed
  have bi: "best_ok index'"
  proof (cases "case idx_best_header ?i of None \<Rightarrow> True | Some best \<Rightarrow> \<not> IsEligible (entry_at ?i best)")
    case True
    have "distinct (map fst (idx_entries ?i))" using ti unfolding tree_ok_def by blast
    from RescanForBestHeader_best [OF this] rf True show ?thesis by simp
  next
    case False
    then obtain best where best: "idx_best_header index = Some best" "IsEligible (entry_at ?i best)"
      by (auto split: option.splits)
    then obtain be where be: "Find index best = Some be" "IsEligible be"
      "\<And>x e. Find index x = Some e \<Longrightarrow> \<not> IsBetterTip e be" using b unfolding best_ok_def by auto
    obtain be' where be': "Find ?i best = Some be'" "strip be = strip be'" using same_shape_Find(2) [OF sh be(1)] by blast
    have "\<not> IsBetterTip e' be'" if e': "Find ?i x = Some e'" for x e'
    proof (cases "IsEligible e'")
      case True
      obtain e where e: "Find index x = Some e" "strip e = strip e'" using same_shape_Find(1) [OF sh e'] by blast
      have "IsEligible e" using True Fe [OF e'] el e(1) by (auto simp: elig_def Find_def)
      then show ?thesis
        using IsBetterTip_cong [OF e(2) be'(2)] be(2,3) e(1) best(2) be'(1) True by auto
    qed (simp add: IsBetterTip_def)
    with False rf best be' show ?thesis by (auto simp: best_ok_def)
  qed
  show "index_ok E index'"
    using ti sequences_ok_same_shape [OF s sh] fi bi rf unfolding index_ok_def
    by (auto simp: RescanForBestHeader_def sequences_ok_def failures_ok_def split: if_splits)
qed

lemma RecordFailure_noop:
  assumes "\<not> elig (idx_entries index) h"
  shows "RecordFailure index h = (0, index)"
  using assms by (auto simp: RecordFailure_def elig_def Find_def IsEligible_def split: option.splits)

lemma RecordFailure_ok:
  assumes "index_ok E index" and "RecordFailure index h = (n, index')"
  shows "index_ok E index'"
proof (cases "elig (idx_entries index) h")
  case True
  then obtain e where "Find index h = Some e" "IsEligible e" by (auto simp: elig_def Find_def)
  from RecordFailure_spec(5) [OF assms(1) this assms(2)] show ?thesis .
next
  case False
  with assms RecordFailure_noop [OF False] show ?thesis by simp
qed

section \<open>Reachable indices\<close>

lemma ForNetwork_Find:
  "Find (ForNetwork E params) h =
     (if h = BlockHeader_Hash E (blk_header (BuildGenesisBlock E params))
      then Some \<lparr>ent_header = blk_header (BuildGenesisBlock E params), ent_hash = h, ent_height = 0,
        ent_total_work = OfCompactTarget (genesis_bits params), ent_parent = None, ent_validity = Full,
        ent_failure = NoFailure, ent_sequence = 0\<rparr>
      else None)"
  by (simp add: ForNetwork_def BlockIndex_new_def Find_def Let_def genesis_shape)

lemma ForNetwork_fields:
  "idx_genesis (ForNetwork E params) = BlockHeader_Hash E (blk_header (BuildGenesisBlock E params))"
  "idx_best_header (ForNetwork E params) = Some (BlockHeader_Hash E (blk_header (BuildGenesisBlock E params)))"
  "idx_children (ForNetwork E params) = []" "idx_next_sequence (ForNetwork E params) = 1"
  "length (idx_entries (ForNetwork E params)) = 1"
  "map fst (idx_entries (ForNetwork E params)) = [BlockHeader_Hash E (blk_header (BuildGenesisBlock E params))]"
  by (simp_all add: ForNetwork_def BlockIndex_new_def Let_def)

lemma ForNetwork_ok: "index_ok E (ForNetwork E params)"
  unfolding index_ok_def tree_ok_def sequences_ok_def failures_ok_def best_ok_def ForNetwork_Find ForNetwork_fields
  by (auto simp: genesis_shape IsEligible_def)

text \<open>
  The operations the node performs on an index. A header is added while the 64-bit sequence
  numbers are not used up.
\<close>

inductive index_step :: "crypto_ext \<Rightarrow> chain_params \<Rightarrow> block_index \<Rightarrow> block_index \<Rightarrow> bool" for E params where
  add_header:
    "AddHeader E index header now params = (r, index') \<Longrightarrow> IndexSize index < 2 ^ 64 - 1 \<Longrightarrow>
     index_step E params index index'"
| record_validity: "index_step E params index (RecordValidity index h v)"
| record_failure: "RecordFailure index h = (n, index') \<Longrightarrow> index_step E params index index'"

lemma index_step_ok: "index_step E params index index' \<Longrightarrow> index_ok E index \<Longrightarrow> index_ok E index'"
  by (induction rule: index_step.induct) (auto intro: AddHeader_ok RecordValidity_ok RecordFailure_ok)

lemma index_reachable_ok:
  assumes "(index_step E params)\<^sup>*\<^sup>* (ForNetwork E params) index"
  shows "index_ok E index"
  using assms by (induction rule: rtranclp_induct) (auto intro: ForNetwork_ok index_step_ok)

lemma eligible_ancestors:
  assumes ok: "tree_ok E index" "failures_ok index" and "known index h" "IsEligible (entry_at index h)"
    and "a \<in> set (ancestry index h)"
  shows "IsEligible (entry_at index a)"
  using assms(3-5)
proof (induction "height_of index h" arbitrary: h rule: less_induct)
  case less
  show ?case
  proof (cases "parent_of index h")
    case None
    then show ?thesis using less.prems ancestry_rec [OF ok(1) less.prems(1)] by simp
  next
    case (Some p)
    note t = tree_parent [OF ok(1) less.prems(1) Some]
    from less.prems(1) t(1) obtain e pe where e: "Find index h = Some e" "Find index p = Some pe" by blast
    with ok(2) Some less.prems(2) have "IsEligible (entry_at index p)" unfolding failures_ok_def by simp
    with less.hyps [of p] t less.prems ancestry_rec [OF ok(1) less.prems(1)] Some show ?thesis by auto
  qed
qed

section \<open>Properties\<close>

text \<open>
  Property C7. The best header is the best: in every index reached from a network's genesis by
  adding headers and recording verdicts, when any entry is eligible the best header is one that
  no entry beats, every ancestor of it is eligible, and its ancestry runs down to genesis through
  every height once.
\<close>

theorem best_header_is_best:
  assumes "(index_step E params)\<^sup>*\<^sup>* (ForNetwork E params) index" and "Find index h = Some e" and "IsEligible e"
  shows "\<exists>b be. BestHeader index = Some b \<and> Find index b = Some be \<and> \<not> IsBetterTip e be \<and>
    (\<forall>a \<in> set (ancestry index b). IsEligible (entry_at index a)) \<and>
    map (height_of index) (ancestry index b) = rev [0..<Suc (unat (ent_height be))] \<and>
    last (ancestry index b) = IndexGenesis index"
proof -
  have ok: "tree_ok E index" "failures_ok index" "best_ok index"
    using index_reachable_ok [OF assms(1)] by (simp_all add: index_ok_def)
  with assms(2,3) obtain b be where b: "idx_best_header index = Some b" "Find index b = Some be" "IsEligible be"
    "\<not> IsBetterTip e be"
    unfolding best_ok_def by (cases "idx_best_header index") auto
  have k: "known index b" using b(2) by simp
  from b eligible_ancestors [OF ok(1,2) k] ancestry_heights [OF ok(1) k] show ?thesis
    by (auto simp: BestHeader_def IndexGenesis_def)
qed

theorem best_header_is_best_witness:
  "\<exists>b. BestHeader (ForNetwork example_crypto REGTEST_PARAMS) = Some b \<and>
     last (ancestry (ForNetwork example_crypto REGTEST_PARAMS) b) =
       IndexGenesis (ForNetwork example_crypto REGTEST_PARAMS)"
proof -
  let ?i = "ForNetwork example_crypto REGTEST_PARAMS"
  obtain e where "Find ?i (idx_genesis ?i) = Some e" "IsEligible e"
    by (simp add: ForNetwork_Find ForNetwork_fields IsEligible_def)
  from best_header_is_best [OF rtranclp.rtrancl_refl this] show ?thesis by blast
qed

text \<open>
  Property C13. A planned switch is the switch: between any two known entries planning returns; it
  disconnects exactly the blocks of the old branch above the fork, tip first, and connects exactly
  those of the new branch above it, lowest first, and no block is on both lists.
\<close>

theorem planned_switch:
  assumes "(index_step E params)\<^sup>*\<^sup>* (ForNetwork E params) index" and "known index from" and "known index to"
  shows "\<exists>plan f. PlanChainSwitch index (Some from) (Some to) = Some plan \<and> sw_fork_point plan = Some f \<and>
    ancestry index from = sw_disconnect plan @ ancestry index f \<and>
    ancestry index to = rev (sw_connect plan) @ ancestry index f \<and>
    set (sw_disconnect plan) \<inter> set (sw_connect plan) = {}"
proof -
  have "tree_ok E index" using index_reachable_ok [OF assms(1)] by (simp add: index_ok_def)
  from PlanChainSwitch_returns [OF this assms(2,3)] show ?thesis by metis
qed

theorem planned_switch_witness:
  "\<exists>plan. PlanChainSwitch (ForNetwork example_crypto REGTEST_PARAMS)
     (Some (IndexGenesis (ForNetwork example_crypto REGTEST_PARAMS)))
     (Some (IndexGenesis (ForNetwork example_crypto REGTEST_PARAMS))) = Some plan"
proof -
  let ?i = "ForNetwork example_crypto REGTEST_PARAMS"
  have "known ?i (IndexGenesis ?i)" by (simp add: ForNetwork_Find IndexGenesis_def ForNetwork_fields)
  from planned_switch [OF rtranclp.rtrancl_refl this this] show ?thesis by blast
qed



end
