(* ===== verification/ChainState.thy ===== *)
theory ChainState
  imports BlockIndex Supply
begin

text \<open>
  The chain state (\<^verbatim>\<open>src/chain/chain_state.cpp\<close>, \<^verbatim>\<open>src/chain/block_store.cpp\<close>): the active chain,
  accepting headers and blocks, connecting and disconnecting the tip, and activation of the best
  chain.

  The collaborators of \<^verbatim>\<open>ChainState\<close> are interfaces: a block store and an optional sink are records
  of their virtual functions over a state of any type, and the observer is the sequence of calls it
  received. \<^verbatim>\<open>MemoryBlockStore\<close> is the store of the repository that keeps everything in memory.
\<close>

section \<open>Block stores\<close>

record 's block_store =
  store_HaveBlock :: "'s \<Rightarrow> hash256 \<Rightarrow> bool"
  store_GetBlock :: "'s \<Rightarrow> hash256 \<Rightarrow> block option"
  store_GetUndo :: "'s \<Rightarrow> hash256 \<Rightarrow> block_undo option"
  store_PutBlock :: "hash256 \<Rightarrow> block \<Rightarrow> 's \<Rightarrow> 's"
  store_PutUndo :: "hash256 \<Rightarrow> block_undo \<Rightarrow> 's \<Rightarrow> 's"

record memory_block_store =
  mem_blocks :: "hash256 \<rightharpoonup> block"
  mem_undo :: "hash256 \<rightharpoonup> block_undo"

definition Memory_HaveBlock :: "memory_block_store \<Rightarrow> hash256 \<Rightarrow> bool" where
  "Memory_HaveBlock store hash \<longleftrightarrow> mem_blocks store hash \<noteq> None"

definition Memory_GetBlock :: "memory_block_store \<Rightarrow> hash256 \<Rightarrow> block option" where
  "Memory_GetBlock store hash = mem_blocks store hash"

definition Memory_GetUndo :: "memory_block_store \<Rightarrow> hash256 \<Rightarrow> block_undo option" where
  "Memory_GetUndo store hash = mem_undo store hash"

text \<open>\<^verbatim>\<open>emplace\<close> keeps what is there; \<^verbatim>\<open>insert_or_assign\<close> replaces it.\<close>

definition Memory_PutBlock :: "hash256 \<Rightarrow> block \<Rightarrow> memory_block_store \<Rightarrow> memory_block_store" where
  "Memory_PutBlock hash block store =
     (if mem_blocks store hash = None then store\<lparr>mem_blocks := (mem_blocks store)(hash \<mapsto> block)\<rparr> else store)"

definition Memory_PutUndo :: "hash256 \<Rightarrow> block_undo \<Rightarrow> memory_block_store \<Rightarrow> memory_block_store" where
  "Memory_PutUndo hash undo store = store\<lparr>mem_undo := (mem_undo store)(hash \<mapsto> undo)\<rparr>"

definition MemoryBlockStore :: "memory_block_store block_store" where
  "MemoryBlockStore =
     \<lparr>store_HaveBlock = Memory_HaveBlock, store_GetBlock = Memory_GetBlock, store_GetUndo = Memory_GetUndo,
      store_PutBlock = Memory_PutBlock, store_PutUndo = Memory_PutUndo\<rparr>"

section \<open>State\<close>

record 'k chain_sink =
  sink_CommitHeader :: "block_index_entry \<Rightarrow> 'k \<Rightarrow> bool \<times> 'k"
  sink_CommitTip :: "coins_cache \<Rightarrow> hash256 \<Rightarrow> 'k \<Rightarrow> bool \<times> coins_cache \<times> 'k"
  sink_HasFault :: "'k \<Rightarrow> bool"

datatype tip_event = BlockConnected block hash256 | BlockDisconnected block hash256

text \<open>What a state is bound to, and the state.\<close>

record ('s, 'k) chain_env =
  env_crypto :: crypto_ext
  env_params :: chain_params
  env_store :: "'s block_store"
  env_sink :: "'k chain_sink"

record ('s, 'k) chain_state =
  cs_index :: block_index
  cs_coins :: coins_cache
  cs_store :: 's
  cs_sink :: "'k option"
  cs_observer :: "tip_event list option"
  cs_blocks :: "hash256 list"

record rejected_block =
  rej_hash :: hash256
  rej_height :: u32
  rej_error :: validation_error

record activation_summary =
  sum_tip :: hash256
  sum_connected :: nat
  sum_disconnected :: nat
  sum_rejected :: "rejected_block list"
  sum_reached_best_header :: bool

definition Reorganised :: "activation_summary \<Rightarrow> bool" where
  "Reorganised summary \<longleftrightarrow> sum_disconnected summary > 0"

datatype activation_error =
    BlockBodyUnavailable | UndoRecordUnavailable | RevertRejected | ChainOutOfStep | CommitFailed | StorageFaulted

primrec DescribeActivation :: "activation_error \<Rightarrow> string" where
  "DescribeActivation BlockBodyUnavailable = ''a block on the path has no stored body''"
| "DescribeActivation UndoRecordUnavailable = ''a connected block has no stored undo record''"
| "DescribeActivation RevertRejected = ''reversing a block disagreed with the unspent output set''"
| "DescribeActivation ChainOutOfStep = ''the block index and the active chain disagree about what is applied''"
| "DescribeActivation CommitFailed = ''the new tip could not be made durable''"
| "DescribeActivation StorageFaulted = ''storage reported a fault, so a block's verdict cannot be trusted''"

record activation_failure =
  fail_error :: activation_error
  fail_block :: hash256
  fail_revert :: "disconnect_error option"

definition Stopped :: "activation_error \<Rightarrow> hash256 \<Rightarrow> activation_failure" where
  "Stopped error block = \<lparr>fail_error = error, fail_block = block, fail_revert = None\<rparr>"

section \<open>The active chain\<close>

definition AtHeight :: "hash256 list \<Rightarrow> u32 \<Rightarrow> hash256 option" where
  "AtHeight blocks height = (if unat height \<ge> length blocks then None else Some (blocks ! unat height))"

definition ActiveChain_Tip :: "hash256 list \<Rightarrow> hash256 option" where
  "ActiveChain_Tip blocks = (if blocks = [] then None else Some (last blocks))"

definition Contains :: "block_index \<Rightarrow> hash256 list \<Rightarrow> hash256 \<Rightarrow> bool" where
  "Contains index blocks entry \<longleftrightarrow> AtHeight blocks (ent_height (entry_at index entry)) = Some entry"

definition ChainState_new :: "block_index \<Rightarrow> coins_cache \<Rightarrow> 's \<Rightarrow> ('s, 'k) chain_state" where
  "ChainState_new index coins store =
     \<lparr>cs_index = index, cs_coins = coins, cs_store = store, cs_sink = None, cs_observer = None,
      cs_blocks = [IndexGenesis index]\<rparr>"

definition Tip :: "('s, 'k) chain_state \<Rightarrow> hash256" where
  "Tip s = last (cs_blocks s)"

definition PersistTo :: "'k \<Rightarrow> ('s, 'k) chain_state \<Rightarrow> ('s, 'k) chain_state" where
  "PersistTo sink s = s\<lparr>cs_sink := Some sink\<rparr>"

definition ObserveWith :: "('s, 'k) chain_state \<Rightarrow> ('s, 'k) chain_state" where
  "ObserveWith s = s\<lparr>cs_observer := Some []\<rparr>"

partial_function (option) ResumeAt_loop ::
  "block_index \<Rightarrow> hash256 option \<Rightarrow> hash256 list \<Rightarrow> hash256 list option" where
  "ResumeAt_loop index entry upwards =
     (case entry of
        None \<Rightarrow> Some upwards
      | Some h \<Rightarrow> ResumeAt_loop index (ent_parent (entry_at index h)) (upwards @ [h]))"

definition ResumeAt :: "hash256 \<Rightarrow> ('s, 'k) chain_state \<Rightarrow> ('s, 'k) chain_state option" where
  "ResumeAt tip s =
     Option.bind (ResumeAt_loop (cs_index s) (Some tip) []) (\<lambda>upwards. Some (s\<lparr>cs_blocks := rev upwards\<rparr>))"

definition CommitEntry :: "('s, 'k) chain_env \<Rightarrow> hash256 \<Rightarrow> ('s, 'k) chain_state \<Rightarrow> bool \<times> ('s, 'k) chain_state" where
  "CommitEntry env entry s =
     (case cs_sink s of
        None \<Rightarrow> (True, s)
      | Some sink \<Rightarrow>
          let (committed, sink') = sink_CommitHeader (env_sink env) (entry_at (cs_index s) entry) sink
          in (committed, s\<lparr>cs_sink := Some sink'\<rparr>))"

definition StorageFaulted_now :: "('s, 'k) chain_env \<Rightarrow> ('s, 'k) chain_state \<Rightarrow> bool" where
  "StorageFaulted_now env s \<longleftrightarrow>
     (case cs_sink s of None \<Rightarrow> False | Some sink \<Rightarrow> sink_HasFault (env_sink env) sink)"

definition CommitCurrentTip :: "('s, 'k) chain_env \<Rightarrow> ('s, 'k) chain_state \<Rightarrow> bool \<times> ('s, 'k) chain_state" where
  "CommitCurrentTip env s =
     (case cs_sink s of
        None \<Rightarrow> (True, s)
      | Some sink \<Rightarrow>
          let (committed, coins, sink') =
            sink_CommitTip (env_sink env) (cs_coins s) (ent_hash (entry_at (cs_index s) (Tip s))) sink
          in (committed, s\<lparr>cs_coins := coins, cs_sink := Some sink'\<rparr>))"

definition notify :: "tip_event \<Rightarrow> ('s, 'k) chain_state \<Rightarrow> ('s, 'k) chain_state" where
  "notify event s = s\<lparr>cs_observer := map_option (\<lambda>log. log @ [event]) (cs_observer s)\<rparr>"

section \<open>Accepting\<close>

definition AcceptBlock ::
  "('s, 'k) chain_env \<Rightarrow> block \<Rightarrow> i64 \<Rightarrow> ('s, 'k) chain_state \<Rightarrow> (header_error + hash256) \<times> ('s, 'k) chain_state"
where
  "AcceptBlock env block now s =
     (case AddHeader (env_crypto env) (cs_index s) (blk_header block) now (env_params env) of
        (Inl e, index) \<Rightarrow> (Inl e, s\<lparr>cs_index := index\<rparr>)
      | (Inr entry, index) \<Rightarrow>
          let s1 = s\<lparr>cs_index := index\<rparr>;
              hash = ent_hash (entry_at index entry)
          in if \<not> IsEligible (entry_at index entry) then (Inl (HeaderNotIndexed AlreadyRuledOut), s1)
             else if store_HaveBlock (env_store env) (cs_store s1) hash then (Inr entry, s1)
             else case CheckBlock (env_crypto env) block (env_params env) of
                 Inl e \<Rightarrow>
                   (Inl (HeaderInvalid e),
                    snd (CommitEntry env entry (s1\<lparr>cs_index := snd (RecordFailure (cs_index s1) entry)\<rparr>)))
               | Inr _ \<Rightarrow>
                   (Inr entry,
                    snd (CommitEntry env entry
                      (s1\<lparr>cs_store := store_PutBlock (env_store env) hash block (cs_store s1),
                          cs_index := RecordValidity (cs_index s1) entry Body\<rparr>))))"

definition AcceptHeader ::
  "('s, 'k) chain_env \<Rightarrow> block_header \<Rightarrow> i64 \<Rightarrow> ('s, 'k) chain_state \<Rightarrow> (header_error + hash256) \<times> ('s, 'k) chain_state"
where
  "AcceptHeader env header now s =
     (case AddHeader (env_crypto env) (cs_index s) header now (env_params env) of
        (Inl e, index) \<Rightarrow> (Inl e, s\<lparr>cs_index := index\<rparr>)
      | (Inr entry, index) \<Rightarrow>
          let s1 = s\<lparr>cs_index := index\<rparr>
          in if \<not> IsEligible (entry_at index entry) then (Inl (HeaderNotIndexed AlreadyRuledOut), s1)
             else (Inr entry, snd (CommitEntry env entry s1)))"

section \<open>Moving the tip\<close>

definition DisconnectTip ::
  "('s, 'k) chain_env \<Rightarrow> activation_summary \<Rightarrow> ('s, 'k) chain_state \<Rightarrow>
     (activation_failure + activation_summary) \<times> ('s, 'k) chain_state"
where
  "DisconnectTip env summary s =
     (let entry = Tip s;
          hash = ent_hash (entry_at (cs_index s) entry)
      in if ent_parent (entry_at (cs_index s) entry) = None then (Inl (Stopped ChainOutOfStep hash), s)
         else case store_GetBlock (env_store env) (cs_store s) hash of
             None \<Rightarrow> (Inl (Stopped BlockBodyUnavailable hash), s)
           | Some block \<Rightarrow>
               case store_GetUndo (env_store env) (cs_store s) hash of
                 None \<Rightarrow> (Inl (Stopped UndoRecordUnavailable hash), s)
               | Some undo \<Rightarrow>
                   case DisconnectBlock (env_crypto env) block undo (cs_coins s) of
                     (Inl e, coins) \<Rightarrow>
                       (Inl \<lparr>fail_error = RevertRejected, fail_block = hash, fail_revert = Some e\<rparr>,
                        s\<lparr>cs_coins := coins\<rparr>)
                   | (Inr _, coins) \<Rightarrow>
                       let (committed, s1) =
                         CommitCurrentTip env (s\<lparr>cs_coins := coins, cs_blocks := butlast (cs_blocks s)\<rparr>)
                       in if \<not> committed then (Inl (Stopped CommitFailed hash), s1)
                          else (Inr (summary\<lparr>sum_disconnected := sum_disconnected summary + 1\<rparr>),
                                notify (BlockDisconnected block entry) s1))"

text \<open>A block a rule refused: ruled out in the index, and reported.\<close>

definition reject_entry ::
  "('s, 'k) chain_env \<Rightarrow> hash256 \<Rightarrow> validation_error \<Rightarrow> activation_summary \<Rightarrow> ('s, 'k) chain_state \<Rightarrow>
     (activation_failure + bool \<times> activation_summary) \<times> ('s, 'k) chain_state"
where
  "reject_entry env entry e summary s =
     (let hash = ent_hash (entry_at (cs_index s) entry)
      in if StorageFaulted_now env s then (Inl (Stopped StorageFaulted hash), s)
         else
           (Inr (False, summary\<lparr>sum_rejected := sum_rejected summary @
              [\<lparr>rej_hash = hash, rej_height = ent_height (entry_at (cs_index s) entry), rej_error = e\<rparr>]\<rparr>),
            snd (CommitEntry env entry (s\<lparr>cs_index := snd (RecordFailure (cs_index s) entry)\<rparr>))))"

text \<open>The part of \<^verbatim>\<open>ConnectTip\<close> after the context-free rules.\<close>

definition ConnectTip_apply ::
  "('s, 'k) chain_env \<Rightarrow> hash256 \<Rightarrow> block \<Rightarrow> activation_summary \<Rightarrow> ('s, 'k) chain_state \<Rightarrow>
     (activation_failure + bool \<times> activation_summary) \<times> ('s, 'k) chain_state"
where
  "ConnectTip_apply env entry block summary s =
     (let hash = ent_hash (entry_at (cs_index s) entry)
      in case ConnectBlock (env_crypto env) block (cs_coins s) (env_params env) of
           (Inl e, coins) \<Rightarrow> reject_entry env entry e summary (s\<lparr>cs_coins := coins\<rparr>)
         | (Inr result, coins) \<Rightarrow>
             let s1 = s\<lparr>cs_coins := coins,
                   cs_store := store_PutUndo (env_store env) hash (res_undo result) (cs_store s),
                   cs_blocks := cs_blocks s @ [entry],
                   cs_index := RecordValidity (cs_index s) entry Full\<rparr>;
                 s2 = snd (CommitEntry env entry s1);
                 (committed, s3) = CommitCurrentTip env s2
             in if \<not> committed then (Inl (Stopped CommitFailed hash), s3)
                else (Inr (True, summary\<lparr>sum_connected := sum_connected summary + 1\<rparr>),
                      notify (BlockConnected block entry) s3))"

definition ConnectTip ::
  "('s, 'k) chain_env \<Rightarrow> hash256 \<Rightarrow> activation_summary \<Rightarrow> ('s, 'k) chain_state \<Rightarrow>
     (activation_failure + bool \<times> activation_summary) \<times> ('s, 'k) chain_state"
where
  "ConnectTip env entry summary s =
     (let hash = ent_hash (entry_at (cs_index s) entry)
      in if ent_parent (entry_at (cs_index s) entry) \<noteq> Some (Tip s) then (Inl (Stopped ChainOutOfStep hash), s)
         else case store_GetBlock (env_store env) (cs_store s) hash of
             None \<Rightarrow> (Inl (Stopped BlockBodyUnavailable hash), s)
           | Some block \<Rightarrow>
               if ent_validity (entry_at (cs_index s) entry) < Body then
                 case CheckBlock (env_crypto env) block (env_params env) of
                   Inl e \<Rightarrow> reject_entry env entry e summary s
                 | Inr _ \<Rightarrow> ConnectTip_apply env entry block summary
                     (s\<lparr>cs_index := RecordValidity (cs_index s) entry Body\<rparr>)
               else ConnectTip_apply env entry block summary s)"

section \<open>Activation\<close>

fun DisconnectAll ::
  "('s, 'k) chain_env \<Rightarrow> hash256 list \<Rightarrow> activation_summary \<Rightarrow> ('s, 'k) chain_state \<Rightarrow>
     (activation_failure + activation_summary) \<times> ('s, 'k) chain_state"
where
  "DisconnectAll env [] summary s = (Inr summary, s)"
| "DisconnectAll env (entry # entries) summary s =
     (if entry \<noteq> Tip s then (Inl (Stopped ChainOutOfStep (ent_hash (entry_at (cs_index s) entry))), s)
      else case DisconnectTip env summary s of
          (Inl failure, s') \<Rightarrow> (Inl failure, s')
        | (Inr summary', s') \<Rightarrow> DisconnectAll env entries summary' s')"

fun ConnectAll ::
  "('s, 'k) chain_env \<Rightarrow> hash256 list \<Rightarrow> activation_summary \<Rightarrow> ('s, 'k) chain_state \<Rightarrow>
     (activation_failure + activation_summary) \<times> ('s, 'k) chain_state"
where
  "ConnectAll env [] summary s = (Inr summary, s)"
| "ConnectAll env (entry # entries) summary s =
     (case ConnectTip env entry summary s of
        (Inl failure, s') \<Rightarrow> (Inl failure, s')
      | (Inr (applied, summary'), s') \<Rightarrow>
          if \<not> applied then (Inr summary', s') else ConnectAll env entries summary' s')"

definition reachable_part :: "('s, 'k) chain_env \<Rightarrow> ('s, 'k) chain_state \<Rightarrow> hash256 list \<Rightarrow> hash256 list" where
  "reachable_part env s connect =
     takeWhile (\<lambda>h. store_HaveBlock (env_store env) (cs_store s) (ent_hash (entry_at (cs_index s) h))) connect"

partial_function (option) ActivateBestChain_loop ::
  "('s, 'k) chain_env \<Rightarrow> activation_summary \<Rightarrow> ('s, 'k) chain_state \<Rightarrow>
     ((activation_failure + activation_summary) \<times> ('s, 'k) chain_state) option"
where
  "ActivateBestChain_loop env summary s =
     (if BestHeader (cs_index s) = None \<or> BestHeader (cs_index s) = Some (Tip s) then
        Some (Inr (summary\<lparr>sum_tip := Tip s, sum_reached_best_header := (BestHeader (cs_index s) = Some (Tip s))\<rparr>), s)
      else
        Option.bind (PlanChainSwitch (cs_index s) (Some (Tip s)) (BestHeader (cs_index s))) (\<lambda>plan.
          case sw_fork_point plan of
            None \<Rightarrow> Some (Inl (Stopped ChainOutOfStep
              (ent_hash (entry_at (cs_index s) (the (BestHeader (cs_index s)))))), s)
          | Some fork_point \<Rightarrow>
              if \<not> Contains (cs_index s) (cs_blocks s) fork_point
              then Some (Inl (Stopped ChainOutOfStep (ent_hash (entry_at (cs_index s) fork_point))), s)
              else
                let reachable = reachable_part env s (sw_connect plan);
                    attainable = (if reachable = [] then fork_point else last reachable)
                in if \<not> IsBetterTip (entry_at (cs_index s) attainable) (entry_at (cs_index s) (Tip s))
                   then Some (Inr (summary\<lparr>sum_tip := Tip s\<rparr>), s)
                   else
                     case DisconnectAll env (sw_disconnect plan) summary s of
                       (Inl failure, s1) \<Rightarrow> Some (Inl failure, s1)
                     | (Inr summary1, s1) \<Rightarrow>
                         case ConnectAll env reachable summary1 s1 of
                           (Inl failure, s2) \<Rightarrow> Some (Inl failure, s2)
                         | (Inr summary2, s2) \<Rightarrow>
                             ActivateBestChain_loop env (summary2\<lparr>sum_tip := Tip s2\<rparr>) s2))"

definition ActivateBestChain ::
  "('s, 'k) chain_env \<Rightarrow> ('s, 'k) chain_state \<Rightarrow>
     ((activation_failure + activation_summary) \<times> ('s, 'k) chain_state) option"
where
  "ActivateBestChain env s =
     ActivateBestChain_loop env
       \<lparr>sum_tip = Tip s, sum_connected = 0, sum_disconnected = 0, sum_rejected = [],
        sum_reached_best_header = False\<rparr> s"

section \<open>Contracts\<close>

locale lawful_store =
  fixes S :: "'s block_store"
  assumes have_iff: "store_HaveBlock S st h \<longleftrightarrow> store_GetBlock S st h \<noteq> None"
    and get_put_block: "store_GetBlock S (store_PutBlock S h b st) h' =
      (if h' = h \<and> store_GetBlock S st h = None then Some b else store_GetBlock S st h')"
    and undo_put_block: "store_GetUndo S (store_PutBlock S h b st) h' = store_GetUndo S st h'"
    and undo_put_undo: "store_GetUndo S (store_PutUndo S h u st) h' = (if h' = h then Some u else store_GetUndo S st h')"
    and get_put_undo: "store_GetBlock S (store_PutUndo S h u st) h' = store_GetBlock S st h'"

interpretation memory: lawful_store MemoryBlockStore
  by unfold_locales
    (auto simp: MemoryBlockStore_def Memory_HaveBlock_def Memory_GetBlock_def Memory_GetUndo_def
      Memory_PutBlock_def Memory_PutUndo_def)

text \<open>Committing a tip moves coins to storage, and so keeps what the cache denotes.\<close>

definition lawful_sink :: "'k chain_sink \<Rightarrow> bool" where
  "lawful_sink K \<longleftrightarrow> (\<forall>coins h k committed coins' k'. sink_CommitTip K coins h k = (committed, coins', k') \<longrightarrow>
     cache_ok coins \<longrightarrow> cache_ok coins' \<and> GetCoin coins' = GetCoin coins)"

section \<open>Growing the index\<close>

definition index_ext :: "block_index \<Rightarrow> block_index \<Rightarrow> bool" where
  "index_ext index index' \<longleftrightarrow> (\<forall>h e. Find index h = Some e \<longrightarrow> (\<exists>e'. Find index' h = Some e' \<and> strip e = strip e'))"

lemma index_extD:
  assumes "index_ext index index'" and "known index h"
  shows "known index' h" "ent_parent (entry_at index' h) = ent_parent (entry_at index h)"
    "ent_height (entry_at index' h) = ent_height (entry_at index h)"
    "ent_hash (entry_at index' h) = ent_hash (entry_at index h)"
    "ent_header (entry_at index' h) = ent_header (entry_at index h)"
    "strip (entry_at index' h) = strip (entry_at index h)"
proof -
  obtain e e' where "Find index h = Some e" "Find index' h = Some e'" and s: "strip e = strip e'"
    using assms unfolding index_ext_def by blast
  with strip_fields [OF s] show "known index' h" "ent_parent (entry_at index' h) = ent_parent (entry_at index h)"
    "ent_height (entry_at index' h) = ent_height (entry_at index h)"
    "ent_hash (entry_at index' h) = ent_hash (entry_at index h)"
    "ent_header (entry_at index' h) = ent_header (entry_at index h)"
    "strip (entry_at index' h) = strip (entry_at index h)" by simp_all
qed

lemma index_ext_refl [simp]: "index_ext index index"
  by (simp add: index_ext_def)

lemma index_ext_trans: "index_ext a b \<Longrightarrow> index_ext b c \<Longrightarrow> index_ext a c"
  unfolding index_ext_def by metis

lemma index_ext_shape:
  assumes "same_shape (idx_entries index) (idx_entries index')"
  shows "index_ext index index'" "known index' h \<Longrightarrow> known index h"
proof -
  have F: "Find (index\<lparr>idx_entries := idx_entries index'\<rparr>) h = Find index' h" for h by (simp add: Find_def)
  show "index_ext index index'" using same_shape_Find(2) [OF assms] unfolding index_ext_def F by blast
  show "known index' h \<Longrightarrow> known index h" using same_shape_Find(1) [OF assms, of h] unfolding F by blast
qed

lemma ancestry_upto_ext:
  assumes "tree_ok E index" and "index_ext index index'" and "known index h"
  shows "ancestry_upto n index' h = ancestry_upto n index h"
  using assms(3)
proof (induction n arbitrary: h)
  case (Suc n)
  show ?case
  proof (cases "parent_of index h")
    case None
    then show ?thesis using index_extD(2) [OF assms(2) Suc.prems] by simp
  next
    case (Some p)
    from Suc.IH [OF tree_parent(1) [OF assms(1) Suc.prems Some]] Some index_extD(2) [OF assms(2) Suc.prems]
    show ?thesis by simp
  qed
qed simp

lemma ancestry_ext:
  "tree_ok E index \<Longrightarrow> index_ext index index' \<Longrightarrow> known index h \<Longrightarrow> ancestry index' h = ancestry index h"
  using ancestry_upto_ext [of E index index' h "height_of index h"] index_extD(3) [of index index' h]
  by (simp add: ancestry_def)

lemma index_okD:
  assumes "index_ok E index"
  shows "tree_ok E index" "sequences_ok index" "failures_ok index" "best_ok index"
  using assms by (simp_all add: index_ok_def)

lemma tree_hash: "tree_ok E index \<Longrightarrow> known index h \<Longrightarrow> ent_hash (entry_at index h) = h"
  by (auto simp: tree_ok_def)

lemma tree_header_height:
  "tree_ok E index \<Longrightarrow> known index h \<Longrightarrow> hdr_height (ent_header (entry_at index h)) = ent_height (entry_at index h)"
  by (auto simp: tree_ok_def)

lemma AddHeader_ext:
  assumes "AddHeader E index header now params = (r, index')"
  shows "index_ext index index'"
    "\<And>h. r = Inr h \<Longrightarrow> h = BlockHeader_Hash E header \<and> known index' h"
    "\<And>h. r = Inr h \<Longrightarrow> (\<forall>e. Find index h = Some e \<longrightarrow> ent_header e = header) \<Longrightarrow> ent_header (entry_at index' h) = header"
proof -
  have "index_ext index index' \<and> (\<forall>h. r = Inr h \<longrightarrow> h = BlockHeader_Hash E header \<and> known index' h \<and>
      ((\<forall>e. Find index h = Some e \<longrightarrow> ent_header e = header) \<longrightarrow> ent_header (entry_at index' h) = header))"
    using assms
  proof (cases rule: AddHeader_cases)
    case (added parent)
    let ?i = "with_entry E index parent header"
    have F: "Find index' h = Find ?i h" for h using added(7) by simp
    then have "entry_at index' (BlockHeader_Hash E header) = new_entry E index parent header"
      by (simp add: entry_at_def with_entry_Find)
    moreover have "index_ext index index'"
      using added(2) unfolding index_ext_def F with_entry_Find by auto
    ultimately show ?thesis using added(1) F by (auto simp: with_entry_Find new_entry_def)
  qed auto
  then show "index_ext index index'"
    "\<And>h. r = Inr h \<Longrightarrow> h = BlockHeader_Hash E header \<and> known index' h"
    "\<And>h. r = Inr h \<Longrightarrow> (\<forall>e. Find index h = Some e \<longrightarrow> ent_header e = header) \<Longrightarrow> ent_header (entry_at index' h) = header"
    by blast+
qed

lemma RecordValidity_ext:
  "same_shape (idx_entries index) (idx_entries (RecordValidity index h v))"
  "elig (idx_entries (RecordValidity index h v)) x \<longleftrightarrow> elig (idx_entries index) x"
  "eligible_count (idx_entries (RecordValidity index h v)) = eligible_count (idx_entries index)"
proof -
  have up: "map_of es h = Some e \<Longrightarrow> eligible_count (update_entry h (e\<lparr>ent_validity := v\<rparr>) es) = eligible_count es" for e es
    by (induction es) (auto simp: eligible_count_def update_entry_def IsEligible_def split: if_splits)
  show "same_shape (idx_entries index) (idx_entries (RecordValidity index h v))"
    by (auto simp: RecordValidity_def Find_def intro: same_shape_update split: option.splits)
  show "elig (idx_entries (RecordValidity index h v)) x \<longleftrightarrow> elig (idx_entries index) x"
    by (auto simp: RecordValidity_def Find_def elig_def map_of_update_entry IsEligible_def split: option.splits if_splits)
  show "eligible_count (idx_entries (RecordValidity index h v)) = eligible_count (idx_entries index)"
    using up by (auto simp: RecordValidity_def Find_def split: option.splits)
qed

lemma RecordFailure_shape:
  assumes "index_ok E index" and "RecordFailure index h = (n, index')"
  shows "same_shape (idx_entries index) (idx_entries index')"
proof (cases "elig (idx_entries index) h")
  case True
  then obtain e where "Find index h = Some e" "IsEligible e" by (auto simp: elig_def Find_def)
  from RecordFailure_spec(1) [OF assms(1) this assms(2)] show ?thesis .
next
  case False
  with assms RecordFailure_noop [OF False] show ?thesis by simp
qed

section \<open>The invariant\<close>

text \<open>
  The applied blocks are the ancestry of the tip; each above genesis has its body, under the
  header the index has, and its undo record; and the coins are those of replaying them.
\<close>

definition applied_of :: "'s block_store \<Rightarrow> 's \<Rightarrow> hash256 list \<Rightarrow> applied" where
  "applied_of S st hs = map (\<lambda>h. (the (store_GetBlock S st h), the (store_GetUndo S st h))) hs"

definition above_genesis :: "('s, 'k) chain_state \<Rightarrow> hash256 list" where
  "above_genesis s = butlast (ancestry (cs_index s) (Tip s))"

definition chain_ok :: "('s, 'k) chain_env \<Rightarrow> ('s, 'k) chain_state \<Rightarrow> bool" where
  "chain_ok env s \<longleftrightarrow> index_ok (env_crypto env) (cs_index s) \<and> cs_blocks s \<noteq> [] \<and> known (cs_index s) (Tip s) \<and>
     cs_blocks s = rev (ancestry (cs_index s) (Tip s)) \<and>
     (\<forall>h b. store_GetBlock (env_store env) (cs_store s) h = Some b \<longrightarrow>
        known (cs_index s) h \<and> ent_header (entry_at (cs_index s) h) = blk_header b) \<and>
     (\<forall>h \<in> set (above_genesis s). store_GetBlock (env_store env) (cs_store s) h \<noteq> None \<and>
        store_GetUndo (env_store env) (cs_store s) h \<noteq> None) \<and>
     ledger_ok (env_crypto env) (env_params env)
       (applied_of (env_store env) (cs_store s) (above_genesis s), cs_coins s)"

lemma chain_okD:
  assumes "chain_ok env s"
  shows "index_ok (env_crypto env) (cs_index s)" "cs_blocks s \<noteq> []" "known (cs_index s) (Tip s)"
    "cs_blocks s = rev (ancestry (cs_index s) (Tip s))"
    "\<And>h b. store_GetBlock (env_store env) (cs_store s) h = Some b \<Longrightarrow>
       known (cs_index s) h \<and> ent_header (entry_at (cs_index s) h) = blk_header b"
    "\<And>h. h \<in> set (above_genesis s) \<Longrightarrow> store_GetBlock (env_store env) (cs_store s) h \<noteq> None \<and>
       store_GetUndo (env_store env) (cs_store s) h \<noteq> None"
    "ledger_ok (env_crypto env) (env_params env)
       (applied_of (env_store env) (cs_store s) (above_genesis s), cs_coins s)"
    "tree_ok (env_crypto env) (cs_index s)"
  using assms unfolding chain_ok_def index_ok_def by blast+

lemma chain_ok_index:
  assumes ok: "chain_ok env s" and "index_ok (env_crypto env) index'" and ext: "index_ext (cs_index s) index'"
  shows "chain_ok env (s\<lparr>cs_index := index'\<rparr>)"
proof -
  note o = chain_okD [OF ok]
  have t: "Tip (s\<lparr>cs_index := index'\<rparr>) = Tip s" by (simp add: Tip_def)
  have a: "ancestry index' (Tip s) = ancestry (cs_index s) (Tip s)" by (rule ancestry_ext [OF o(8) ext o(3)])
  then have g: "above_genesis (s\<lparr>cs_index := index'\<rparr>) = above_genesis s" by (simp add: above_genesis_def t)
  show ?thesis
    unfolding chain_ok_def g t using o assms(2) a index_extD [OF ext] by simp
qed

lemma chain_ok_sink [simp]:
  "chain_ok env (s\<lparr>cs_sink := k\<rparr>) = chain_ok env s" "chain_ok env (s\<lparr>cs_observer := b\<rparr>) = chain_ok env s"
  by (simp_all add: chain_ok_def Tip_def above_genesis_def)

lemma CommitEntry_frame:
  "\<exists>k. snd (CommitEntry env h s) = s\<lparr>cs_sink := k\<rparr> \<and> (k = None \<longleftrightarrow> cs_sink s = None)"
proof (cases "cs_sink s")
  case None
  then have "snd (CommitEntry env h s) = s\<lparr>cs_sink := None\<rparr>" by (simp add: CommitEntry_def)
  with None show ?thesis by blast
next
  case (Some k)
  then show ?thesis by (auto simp: CommitEntry_def split: prod.splits)
qed

lemma CommitCurrentTip_frame:
  assumes "lawful_sink (env_sink env)" and "CommitCurrentTip env s = (committed, s')" and "cache_ok (cs_coins s)"
  shows "\<exists>k coins. s' = s\<lparr>cs_coins := coins, cs_sink := k\<rparr> \<and> cache_ok coins \<and> GetCoin coins = GetCoin (cs_coins s) \<and>
    (k = None \<longleftrightarrow> cs_sink s = None) \<and> (cs_sink s = None \<longrightarrow> committed)"
proof (cases "cs_sink s")
  case None
  with assms have "s' = s\<lparr>cs_coins := cs_coins s, cs_sink := None\<rparr>" "committed" by (auto simp: CommitCurrentTip_def)
  with None assms(3) show ?thesis by blast
next
  case (Some k)
  obtain c coins k' where
    k: "sink_CommitTip (env_sink env) (cs_coins s) (ent_hash (entry_at (cs_index s) (Tip s))) k = (c, coins, k')"
    by (metis prod.exhaust)
  with assms Some have "s' = s\<lparr>cs_coins := coins, cs_sink := Some k'\<rparr>" by (simp add: CommitCurrentTip_def)
  moreover have "cache_ok coins \<and> GetCoin coins = GetCoin (cs_coins s)"
    using assms(1,3) k unfolding lawful_sink_def by blast
  ultimately show ?thesis using Some by (intro exI [of _ "Some k'"] exI [of _ coins]) simp
qed

lemma chain_ok_coins:
  assumes "chain_ok env s" and "cache_ok coins" and "GetCoin coins = GetCoin (cs_coins s)"
  shows "chain_ok env (s\<lparr>cs_coins := coins\<rparr>)"
  using assms by (simp add: chain_ok_def Tip_def above_genesis_def ledger_ok_def)

lemma chain_ok_cache: "chain_ok env s \<Longrightarrow> cache_ok (cs_coins s)"
  using chain_okD(7) [of env s] by (simp add: ledger_ok_def)

section \<open>Accepting keeps the invariant\<close>

lemma above_genesis_cong:
  "cs_index s' = cs_index s \<Longrightarrow> cs_blocks s' = cs_blocks s \<Longrightarrow> above_genesis s' = above_genesis s \<and> Tip s' = Tip s"
  by (simp add: above_genesis_def Tip_def)

text \<open>A stop that is not a contradiction of this node with itself: only a sink can cause it.\<close>

definition sink_stop :: "('s, 'k) chain_state \<Rightarrow> activation_failure \<Rightarrow> bool" where
  "sink_stop s f \<longleftrightarrow> cs_sink s \<noteq> None \<and> fail_error f \<in> {CommitFailed, StorageFaulted}"

context lawful_store
begin

lemma chain_ok_PutBlock:
  assumes ok: "chain_ok env s" and S: "env_store env = S" and "known (cs_index s) h"
    and "ent_header (entry_at (cs_index s) h) = blk_header b"
  shows "chain_ok env (s\<lparr>cs_store := store_PutBlock S h b (cs_store s)\<rparr>)"
proof -
  note o = chain_okD [OF ok, unfolded S]
  have "applied_of S (store_PutBlock S h b (cs_store s)) (above_genesis s) = applied_of S (cs_store s) (above_genesis s)"
    unfolding applied_of_def
    by (intro map_cong refl) (auto simp: get_put_block undo_put_block dest: o(6))
  moreover have "above_genesis (s\<lparr>cs_store := x\<rparr>) = above_genesis s" "Tip (s\<lparr>cs_store := x\<rparr>) = Tip s" for x
    by (simp_all add: above_genesis_def Tip_def)
  ultimately show ?thesis
    unfolding chain_ok_def S using o assms(3,4) by (auto simp: get_put_block undo_put_block split: if_splits)
qed

lemma AcceptBlock_ok:
  assumes ok: "chain_ok env s" and S: "env_store env = S"
    and room: "IndexSize (cs_index s) < 2 ^ 64 - 1"
    and nc: "\<forall>e. Find (cs_index s) (BlockHeader_Hash (env_crypto env) (blk_header block)) = Some e \<longrightarrow>
      ent_header e = blk_header block"
    and acc: "AcceptBlock env block now s = (r, s')"
  shows "chain_ok env s'"
proof -
  let ?E = "env_crypto env"
  obtain a index where add: "AddHeader ?E (cs_index s) (blk_header block) now (env_params env) = (a, index)"
    by (metis prod.exhaust)
  note x = AddHeader_ext [OF add]
  have iok: "index_ok ?E index" by (rule AddHeader_ok [OF chain_okD(1) [OF ok] add room])
  let ?s1 = "s\<lparr>cs_index := index\<rparr>"
  have ok1: "chain_ok env ?s1" by (rule chain_ok_index [OF ok iok x(1)])
  show ?thesis
  proof (cases a)
    case (Inl e)
    with acc add ok1 show ?thesis by (simp add: AcceptBlock_def)
  next
    case (Inr h)
    with x(2,3) nc have k: "h = BlockHeader_Hash ?E (blk_header block)" "known index h"
      "ent_header (entry_at index h) = blk_header block" by auto
    have hh: "ent_hash (entry_at index h) = h" using iok k(2) tree_hash index_okD(1) by blast
    obtain n index2 where rf: "RecordFailure index h = (n, index2)" by (cases "RecordFailure index h")
    have ok2: "chain_ok env (s\<lparr>cs_index := index2\<rparr>)"
      using chain_ok_index [OF ok1, of index2] RecordFailure_ok [OF iok rf]
        index_ext_shape(1) [OF RecordFailure_shape [OF iok rf]] by simp
    have ok3: "chain_ok env (s\<lparr>cs_store := store_PutBlock S h block (cs_store s), cs_index := RecordValidity index h Body\<rparr>)"
      using chain_ok_index [OF chain_ok_PutBlock [OF ok1 S, of h block], of "RecordValidity index h Body"]
        RecordValidity_ok [OF iok] index_ext_shape(1) [OF RecordValidity_ext(1)] k(2,3) by simp
    show ?thesis
    proof (cases "\<not> IsEligible (entry_at index h) \<or> store_HaveBlock S (cs_store s) h")
      case True
      with acc add Inr ok1 hh S show ?thesis by (auto simp: AcceptBlock_def Let_def split: if_splits)
    next
      case False
      then have s': "s' = snd (CommitEntry env h (case CheckBlock ?E block (env_params env) of
          Inl e \<Rightarrow> s\<lparr>cs_index := index2\<rparr>
        | Inr _ \<Rightarrow> s\<lparr>cs_store := store_PutBlock S h block (cs_store s), cs_index := RecordValidity index h Body\<rparr>))"
        using acc add Inr hh S rf by (auto simp: AcceptBlock_def Let_def split: sum.splits)
      obtain t where t: "s' = snd (CommitEntry env h t)" "chain_ok env t"
        using s' ok2 ok3 by (auto split: sum.splits)
      with CommitEntry_frame [of env h t] show ?thesis by auto
    qed
  qed
qed

lemma AcceptHeader_ok:
  assumes ok: "chain_ok env s" and room: "IndexSize (cs_index s) < 2 ^ 64 - 1"
    and acc: "AcceptHeader env header now s = (r, s')"
  shows "chain_ok env s'"
proof -
  let ?E = "env_crypto env"
  obtain a index where add: "AddHeader ?E (cs_index s) header now (env_params env) = (a, index)"
    by (metis prod.exhaust)
  have ok1: "chain_ok env (s\<lparr>cs_index := index\<rparr>)"
    by (rule chain_ok_index [OF ok AddHeader_ok [OF chain_okD(1) [OF ok] add room] AddHeader_ext(1) [OF add]])
  have "s' = s\<lparr>cs_index := index\<rparr> \<or> (\<exists>h. s' = snd (CommitEntry env h (s\<lparr>cs_index := index\<rparr>)))"
    using acc add by (auto simp: AcceptHeader_def Let_def split: sum.splits if_splits)
  with ok1 CommitEntry_frame [of env _ "s\<lparr>cs_index := index\<rparr>"] show ?thesis by (auto simp: fun_eq_iff) (metis chain_ok_sink(1))
qed

section \<open>Moving the tip keeps the invariant\<close>

lemma tip_parent:
  assumes ok: "chain_ok env s" and p: "parent_of (cs_index s) (Tip s) = Some p"
  shows "above_genesis s = Tip s # butlast (ancestry (cs_index s) p)" "known (cs_index s) p"
    "butlast (cs_blocks s) = rev (ancestry (cs_index s) p)" "ancestry (cs_index s) p \<noteq> []"
    "hd (ancestry (cs_index s) p) = p"
proof -
  note o = chain_okD [OF ok]
  show k: "known (cs_index s) p" by (rule tree_parent(1) [OF o(8,3) p])
  have a: "ancestry (cs_index s) (Tip s) = Tip s # ancestry (cs_index s) p"
    using ancestry_rec [OF o(8,3)] p by simp
  show ne: "ancestry (cs_index s) p \<noteq> []" "hd (ancestry (cs_index s) p) = p"
    using ancestry_rec [OF o(8) k] by simp_all
  show "above_genesis s = Tip s # butlast (ancestry (cs_index s) p)" using a ne by (simp add: above_genesis_def)
  show "butlast (cs_blocks s) = rev (ancestry (cs_index s) p)" using o(4) a by (simp add: butlast_append)
qed

lemma chain_ok_popped:
  assumes ok: "chain_ok env s" and p: "parent_of (cs_index s) (Tip s) = Some p"
    and l: "ledger_ok (env_crypto env) (env_params env)
      (applied_of (env_store env) (cs_store s) (butlast (ancestry (cs_index s) p)), coins)"
  shows "chain_ok env (s\<lparr>cs_coins := coins, cs_blocks := butlast (cs_blocks s)\<rparr>)"
    "Tip (s\<lparr>cs_coins := coins, cs_blocks := butlast (cs_blocks s)\<rparr>) = p"
proof -
  note o = chain_okD [OF ok] and t = tip_parent [OF ok p]
  let ?s = "s\<lparr>cs_coins := coins, cs_blocks := butlast (cs_blocks s)\<rparr>"
  show tip: "Tip ?s = p" unfolding Tip_def using t(3,4,5) by (simp add: last_rev)
  then have "above_genesis ?s = butlast (ancestry (cs_index s) p)" by (simp add: above_genesis_def)
  then show "chain_ok env ?s"
    unfolding chain_ok_def tip using o t l by auto
qed

lemma DisconnectTip_ok:
  assumes ok: "chain_ok env s" and S: "env_store env = S" and sink: "lawful_sink (env_sink env)"
    and p: "parent_of (cs_index s) (Tip s) = Some p" and d: "DisconnectTip env summary s = (r, s')"
  shows "chain_ok env s' \<and> cs_index s' = cs_index s \<and> cs_store s' = cs_store s \<and>
    (cs_sink s' = None \<longleftrightarrow> cs_sink s = None) \<and> Tip s' = p \<and> (\<forall>f. r = Inl f \<longrightarrow> sink_stop s f)"
proof -
  let ?E = "env_crypto env" and ?h = "Tip s"
  note o = chain_okD [OF ok] and t = tip_parent [OF ok p]
  have hh: "ent_hash (entry_at (cs_index s) ?h) = ?h" by (rule tree_hash [OF o(8,3)])
  from o(6) [of ?h] t(1) S obtain b u where b: "store_GetBlock S (cs_store s) ?h = Some b"
    and u: "store_GetUndo S (cs_store s) ?h = Some u" by auto
  have "applied_of S (cs_store s) (above_genesis s) =
      (b, u) # applied_of S (cs_store s) (butlast (ancestry (cs_index s) p))"
    by (simp add: t(1) applied_of_def b u)
  with o(7) S have l: "ledger_ok ?E (env_params env) ((b, u) # applied_of S (cs_store s) (butlast (ancestry (cs_index s) p)), cs_coins s)"
    by simp
  from ledger_disconnect [OF l] obtain coins where dc: "DisconnectBlock ?E b u (cs_coins s) = (Accept, coins)"
    and l': "ledger_ok ?E (env_params env) (applied_of S (cs_store s) (butlast (ancestry (cs_index s) p)), coins)" by blast
  let ?s1 = "s\<lparr>cs_coins := coins, cs_blocks := butlast (cs_blocks s)\<rparr>"
  note pop = chain_ok_popped [OF ok p, of coins, unfolded S, OF l']
  obtain c s2 where cm: "CommitCurrentTip env ?s1 = (c, s2)" by (cases "CommitCurrentTip env ?s1")
  from CommitCurrentTip_frame [OF sink cm chain_ok_cache [OF pop(1)]] obtain k coins2 where
    s2: "s2 = ?s1\<lparr>cs_coins := coins2, cs_sink := k\<rparr>" "cache_ok coins2" "GetCoin coins2 = GetCoin coins"
    "k = None \<longleftrightarrow> cs_sink s = None" "cs_sink s = None \<longrightarrow> c" by auto
  have ok2: "chain_ok env s2" unfolding s2(1) using chain_ok_coins [OF pop(1) s2(2)] s2(3) by simp
  have "(r, s') = (if \<not> c then (Inl (Stopped CommitFailed ?h), s2)
      else (Inr (summary\<lparr>sum_disconnected := sum_disconnected summary + 1\<rparr>), notify (BlockDisconnected b ?h) s2))"
    using d p b u dc cm S hh by (auto simp: DisconnectTip_def Let_def split: if_splits)
  moreover have "Tip s2 = p" using pop(2) by (simp add: s2(1) Tip_def)
  moreover have "Tip (notify ev s2) = Tip s2" "chain_ok env (notify ev s2) = chain_ok env s2" for ev
    by (simp_all add: notify_def Tip_def)
  ultimately show ?thesis
    using ok2 s2 by (auto simp: sink_stop_def Stopped_def notify_def split: if_splits)
qed

end

section \<open>Connecting keeps the invariant\<close>

lemma eligible_count_card:
  assumes "distinct (map fst es)"
  shows "eligible_count es = card {h. elig es h}" "finite {h. elig es h}"
proof -
  let ?f = "filter (\<lambda>(_, e). IsEligible e) es"
  have s: "{h. elig es h} = fst ` set ?f"
    using assms by (force simp: elig_def)
  show "finite {h. elig es h}" unfolding s by simp
  have "distinct (map fst ?f)" using assms by (rule distinct_map_filter)
  then show "eligible_count es = card {h. elig es h}"
    unfolding s eligible_count_def by (metis distinct_card length_map set_map)
qed

lemma tree_distinct: "tree_ok E index \<Longrightarrow> distinct (map fst (idx_entries index))"
  by (simp add: tree_ok_def)

lemma RecordFailure_fewer:
  assumes "index_ok E index" and "elig (idx_entries index) h" and "RecordFailure index h = (n, index')"
  shows "eligible_count (idx_entries index') < eligible_count (idx_entries index)"
proof -
  obtain e where e: "Find index h = Some e" "IsEligible e" using assms(2) by (auto simp: elig_def Find_def)
  note sp = RecordFailure_spec [OF assms(1) e assms(3)]
  have t: "tree_ok E index" "tree_ok E index'" using assms(1) sp(5) by (simp_all add: index_ok_def)
  have "h \<in> set (ancestry index h)" using ancestry_hd [OF t(1), of h] e by simp
  then have "{x. elig (idx_entries index') x} \<subset> {x. elig (idx_entries index) x}" using sp(3) assms(2) by auto
  then show ?thesis
    using eligible_count_card [OF tree_distinct [OF t(1)]] eligible_count_card [OF tree_distinct [OF t(2)]]
    by (simp add: psubset_card_mono)
qed

text \<open>What a step of the chain may do to the index.\<close>

definition same_eligible :: "block_index \<Rightarrow> block_index \<Rightarrow> bool" where
  "same_eligible index index' \<longleftrightarrow> (\<forall>x. elig (idx_entries index') x \<longleftrightarrow> elig (idx_entries index) x)"

lemma same_eligible_refl [simp]: "same_eligible index index"
  by (simp add: same_eligible_def)

lemma same_eligible_trans: "same_eligible a b \<Longrightarrow> same_eligible b c \<Longrightarrow> same_eligible a c"
  by (simp add: same_eligible_def)

context lawful_store
begin

lemma chain_ok_pushed:
  assumes ok: "chain_ok env s" and S: "env_store env = S" and k: "known (cs_index s) h"
    and p: "parent_of (cs_index s) h = Some (Tip s)" and b: "store_GetBlock S (cs_store s) h = Some b"
    and c: "ConnectBlock (env_crypto env) b (cs_coins s) (env_params env) = (Inr res, coins)"
  shows "chain_ok env (s\<lparr>cs_coins := coins, cs_store := store_PutUndo S h (res_undo res) (cs_store s),
    cs_blocks := cs_blocks s @ [h]\<rparr>)" (is "chain_ok env ?s")
    and "Tip (s\<lparr>cs_coins := coins, cs_store := store_PutUndo S h (res_undo res) (cs_store s),
    cs_blocks := cs_blocks s @ [h]\<rparr>) = h"
proof -
  note o = chain_okD [OF ok, unfolded S]
  show tip: "Tip ?s = h" by (simp add: Tip_def)
  have a: "ancestry (cs_index s) h = h # ancestry (cs_index s) (Tip s)" using ancestry_rec [OF o(8) k] p by simp
  have ne: "ancestry (cs_index s) (Tip s) \<noteq> []" using ancestry_rec [OF o(8,3)] by simp
  have g: "above_genesis ?s = h # above_genesis s" using a ne tip by (simp add: above_genesis_def)
  have hts: "map (height_of (cs_index s)) (ancestry (cs_index s) (Tip s)) = rev [0..<Suc (height_of (cs_index s) (Tip s))]"
    using ancestry_heights [OF o(8,3)] by blast
  then have len: "length (above_genesis s) = height_of (cs_index s) (Tip s)"
    unfolding above_genesis_def by (metis length_butlast length_map length_rev length_upt diff_Suc_1 diff_zero)
  have hd: "unat (hdr_height (blk_header b)) = Suc (length (above_genesis s))"
    using o(5) [OF b] tree_header_height [OF o(8) k] tree_parent(2) [OF o(8) k p] len by simp
  have new: "h \<notin> set (above_genesis s)"
  proof
    assume "h \<in> set (above_genesis s)"
    then have "h \<in> set (ancestry (cs_index s) (Tip s))" unfolding above_genesis_def by (rule in_set_butlastD)
    from ancestry_below(2) [OF o(8,3) this] tree_parent(2) [OF o(8) k p] show False by simp
  qed
  have "applied_of S (store_PutUndo S h (res_undo res) (cs_store s)) (above_genesis ?s) =
      (b, res_undo res) # applied_of S (cs_store s) (above_genesis s)"
    unfolding g applied_of_def using new b by (auto simp: get_put_undo undo_put_undo)
  moreover have "ledger_ok (env_crypto env) (env_params env)
      ((b, res_undo res) # applied_of S (cs_store s) (above_genesis s), coins)"
    by (rule ledger_connect [OF o(7) c]) (simp add: hd applied_of_def)
  ultimately show "chain_ok env ?s"
    unfolding chain_ok_def S tip using o g a k b by (auto simp: get_put_undo undo_put_undo)
qed

lemma reject_entry_ok:
  assumes ok: "chain_ok env s" and k: "elig (idx_entries (cs_index s)) h"
    and r: "reject_entry env h e summary s = (r, s')"
  shows "chain_ok env s' \<and> cs_store s' = cs_store s \<and> index_ext (cs_index s) (cs_index s') \<and>
    (cs_sink s' = None \<longleftrightarrow> cs_sink s = None) \<and> Tip s' = Tip s \<and>
    (case r of Inl f \<Rightarrow> sink_stop s f
     | Inr (applied, _) \<Rightarrow> \<not> applied \<and>
         eligible_count (idx_entries (cs_index s')) < eligible_count (idx_entries (cs_index s)))"
proof (cases "StorageFaulted_now env s")
  case True
  with r ok show ?thesis
    by (auto simp: reject_entry_def Let_def sink_stop_def Stopped_def StorageFaulted_now_def split: option.splits)
next
  case False
  obtain n index where rf: "RecordFailure (cs_index s) h = (n, index)" by (cases "RecordFailure (cs_index s) h")
  note iok = chain_okD(1) [OF ok]
  let ?s1 = "s\<lparr>cs_index := index\<rparr>"
  have x: "index_ext (cs_index s) index" by (rule index_ext_shape(1) [OF RecordFailure_shape [OF iok rf]])
  have ok1: "chain_ok env ?s1" by (rule chain_ok_index [OF ok RecordFailure_ok [OF iok rf] x])
  obtain q where q: "snd (CommitEntry env h ?s1) = ?s1\<lparr>cs_sink := q\<rparr>" "q = None \<longleftrightarrow> cs_sink s = None"
    using CommitEntry_frame [of env h ?s1] by auto
  have "s' = ?s1\<lparr>cs_sink := q\<rparr>" "\<exists>v. r = Inr (False, v)"
    using r False rf q by (auto simp: reject_entry_def Let_def)
  then show ?thesis
    using ok1 x q(2) RecordFailure_fewer [OF iok k rf] by (auto simp: Tip_def)
qed

lemma ConnectTip_apply_ok:
  assumes ok: "chain_ok env s" and S: "env_store env = S" and sink: "lawful_sink (env_sink env)"
    and k: "elig (idx_entries (cs_index s)) h"
    and p: "parent_of (cs_index s) h = Some (Tip s)" and b: "store_GetBlock S (cs_store s) h = Some b"
    and r: "ConnectTip_apply env h b summary s = (r, s')"
  shows "chain_ok env s' \<and> (\<forall>x. store_GetBlock S (cs_store s') x = store_GetBlock S (cs_store s) x) \<and>
    index_ext (cs_index s) (cs_index s') \<and> (cs_sink s' = None \<longleftrightarrow> cs_sink s = None) \<and>
    (case r of Inl f \<Rightarrow> sink_stop s f
     | Inr (applied, _) \<Rightarrow>
         if applied then Tip s' = h \<and> same_eligible (cs_index s) (cs_index s')
         else Tip s' = Tip s \<and> eligible_count (idx_entries (cs_index s')) < eligible_count (idx_entries (cs_index s)))"
proof -
  have kn: "known (cs_index s) h" using k by (auto simp: elig_def Find_def)
  have hh: "ent_hash (entry_at (cs_index s) h) = h" by (rule tree_hash [OF chain_okD(8) [OF ok] kn])
  obtain a coins where c: "ConnectBlock (env_crypto env) b (cs_coins s) (env_params env) = (a, coins)"
    by (cases "ConnectBlock (env_crypto env) b (cs_coins s) (env_params env)")
  show ?thesis
  proof (cases a)
    case (Inl e)
    with c ConnectBlock_Inl_keeps have "coins = cs_coins s" by blast
    with r c Inl have "reject_entry env h e summary s = (r, s')" by (simp add: ConnectTip_apply_def Let_def)
    from reject_entry_ok [OF ok k this] show ?thesis by (auto split: sum.splits)
  next
    case (Inr res)
    let ?p = "s\<lparr>cs_coins := coins, cs_store := store_PutUndo S h (res_undo res) (cs_store s), cs_blocks := cs_blocks s @ [h]\<rparr>"
    note push = chain_ok_pushed [OF ok S kn p b c [unfolded Inr]]
    let ?i = "RecordValidity (cs_index s) h Full"
    let ?s1 = "?p\<lparr>cs_index := ?i\<rparr>"
    have x: "index_ext (cs_index s) ?i" by (rule index_ext_shape(1) [OF RecordValidity_ext(1)])
    have "index_ext (cs_index ?p) ?i" using x by simp
    from chain_ok_index [OF push(1) RecordValidity_ok [OF chain_okD(1) [OF ok]] this] have ok1: "chain_ok env ?s1" by simp
    obtain q where q: "snd (CommitEntry env h ?s1) = ?s1\<lparr>cs_sink := q\<rparr>" "q = None \<longleftrightarrow> cs_sink s = None"
      using CommitEntry_frame [of env h ?s1] by auto
    let ?s2 = "?s1\<lparr>cs_sink := q\<rparr>"
    have ok2: "chain_ok env ?s2" using ok1 by simp
    obtain cm s3 where cm: "CommitCurrentTip env ?s2 = (cm, s3)" by (cases "CommitCurrentTip env ?s2")
    from CommitCurrentTip_frame [OF sink cm chain_ok_cache [OF ok2]] obtain q' coins' where
      s3: "s3 = ?s2\<lparr>cs_coins := coins', cs_sink := q'\<rparr>" "cache_ok coins'" "GetCoin coins' = GetCoin (cs_coins ?s2)"
      "q' = None \<longleftrightarrow> q = None" "q = None \<longrightarrow> cm" by auto
    have ok3: "chain_ok env s3" unfolding s3(1) chain_ok_sink(1) by (rule chain_ok_coins [OF ok2 s3(2,3)])
    have res: "(r, s') = (if \<not> cm then (Inl (Stopped CommitFailed h), s3)
        else (Inr (True, summary\<lparr>sum_connected := sum_connected summary + 1\<rparr>), notify (BlockConnected b h) s3))"
      using r c Inr S hh q(1) cm by (auto simp: ConnectTip_apply_def Let_def split: if_splits)
    have f3: "Tip s3 = h" "cs_index s3 = ?i"
      "\<forall>x. store_GetBlock S (cs_store s3) x = store_GetBlock S (cs_store s) x"
      unfolding s3(1) by (simp_all add: Tip_def get_put_undo)
    have "same_eligible (cs_index s) ?i" by (simp add: same_eligible_def RecordValidity_ext(2))
    moreover have "cs_sink s3 = q'" by (simp add: s3(1))
    ultimately show ?thesis
      using res ok3 f3 s3(4,5) q(2) x
      by (auto simp: sink_stop_def Stopped_def notify_def Tip_def split: if_splits)
  qed
qed

lemma ConnectTip_ok:
  assumes ok: "chain_ok env s" and S: "env_store env = S" and sink: "lawful_sink (env_sink env)"
    and k: "elig (idx_entries (cs_index s)) h"
    and p: "parent_of (cs_index s) h = Some (Tip s)" and b: "store_GetBlock S (cs_store s) h \<noteq> None"
    and r: "ConnectTip env h summary s = (r, s')"
  shows "chain_ok env s' \<and> (\<forall>x. store_GetBlock S (cs_store s') x = store_GetBlock S (cs_store s) x) \<and>
    index_ext (cs_index s) (cs_index s') \<and> (cs_sink s' = None \<longleftrightarrow> cs_sink s = None) \<and>
    (case r of Inl f \<Rightarrow> sink_stop s f
     | Inr (applied, _) \<Rightarrow>
         if applied then Tip s' = h \<and> same_eligible (cs_index s) (cs_index s')
         else Tip s' = Tip s \<and> eligible_count (idx_entries (cs_index s')) < eligible_count (idx_entries (cs_index s)))"
proof -
  have kn: "known (cs_index s) h" using k by (auto simp: elig_def Find_def)
  have hh: "ent_hash (entry_at (cs_index s) h) = h" by (rule tree_hash [OF chain_okD(8) [OF ok] kn])
  obtain b where b: "store_GetBlock S (cs_store s) h = Some b" using b by blast
  let ?i = "RecordValidity (cs_index s) h Body"
  let ?s1 = "s\<lparr>cs_index := ?i\<rparr>"
  have x: "index_ext (cs_index s) ?i" by (rule index_ext_shape(1) [OF RecordValidity_ext(1)])
  have ok1: "chain_ok env ?s1" by (rule chain_ok_index [OF ok RecordValidity_ok [OF chain_okD(1) [OF ok]] x])
  have cases: "ConnectTip env h summary s =
      (if ent_validity (entry_at (cs_index s) h) < Body then
         case CheckBlock (env_crypto env) b (env_params env) of
           Inl e \<Rightarrow> reject_entry env h e summary s | Inr _ \<Rightarrow> ConnectTip_apply env h b summary ?s1
       else ConnectTip_apply env h b summary s)"
    using p b S hh by (simp add: ConnectTip_def Let_def)
  consider (reject) e where "reject_entry env h e summary s = (r, s')"
    | (checked) "ConnectTip_apply env h b summary ?s1 = (r, s')"
    | (known) "ConnectTip_apply env h b summary s = (r, s')"
    using r unfolding cases by (auto split: if_splits sum.splits)
  then show ?thesis
  proof cases
    case (reject e)
    from reject_entry_ok [OF ok k this] show ?thesis by (auto split: sum.splits)
  next
    case checked
    have tip: "Tip ?s1 = Tip s" by (simp add: Tip_def)
    have k1: "elig (idx_entries (cs_index ?s1)) h" using k by (simp add: RecordValidity_ext(2))
    have p1: "parent_of (cs_index ?s1) h = Some (Tip ?s1)" using p tip index_extD(2) [OF x kn] by simp
    have b1: "store_GetBlock S (cs_store ?s1) h = Some b" using b by simp
    have "same_eligible (cs_index s) ?i" by (simp add: same_eligible_def RecordValidity_ext(2))
    with ConnectTip_apply_ok [OF ok1 S sink k1 p1 b1 checked] x tip show ?thesis
      by (auto simp: sink_stop_def RecordValidity_ext(3) split: sum.splits if_splits
          intro: index_ext_trans same_eligible_trans)
  next
    case known
    show ?thesis by (rule ConnectTip_apply_ok [OF ok S sink k p b known])
  qed
qed

end

section \<open>Activation returns\<close>

fun links :: "block_index \<Rightarrow> hash256 \<Rightarrow> hash256 list \<Rightarrow> bool" where
  "links index p [] \<longleftrightarrow> True"
| "links index p (c # cs) \<longleftrightarrow> known index c \<and> parent_of index c = Some p \<and> links index c cs"

lemma links_append: "links index p (cs @ [c]) \<longleftrightarrow> links index p cs \<and> known index c \<and> parent_of index c = Some (last (p # cs))"
  by (induction cs arbitrary: p) auto

lemma links_take: "links index p (xs @ ys) \<Longrightarrow> links index p xs"
  by (induction xs arbitrary: p) auto

lemma links_ext: "index_ext index index' \<Longrightarrow> links index p cs \<Longrightarrow> links index' p cs"
  by (induction cs arbitrary: p) (simp_all add: index_extD)

lemma ancestry_nonempty:
  assumes "tree_ok E index" and "known index h"
  shows "ancestry index h \<noteq> []" "hd (ancestry index h) = h"
  using ancestry_rec [OF assms] by simp_all

lemma ancestry_step:
  assumes "tree_ok E index" and "known index h" and "ancestry index h = x # xs" and "xs \<noteq> []"
  obtains p where "parent_of index h = Some p" "ancestry index p = xs"
proof (cases "parent_of index h")
  case None
  with ancestry_rec [OF assms(1,2)] assms(3,4) show ?thesis by simp
next
  case (Some p)
  with ancestry_rec [OF assms(1,2)] assms(3) that show ?thesis by simp
qed

lemma links_ancestry:
  assumes "tree_ok E index" and "known index f" and "known index t"
    and "ancestry index t = rev cs @ ancestry index f"
  shows "links index f cs"
  using assms(3,4)
proof (induction cs arbitrary: t rule: rev_induct)
  case (snoc c cs)
  have "ancestry index t = c # rev cs @ ancestry index f" using snoc.prems(2) by simp
  with ancestry_nonempty [OF assms(1) snoc.prems(1)] have tc: "t = c" by simp
  have a: "ancestry index c = c # rev cs @ ancestry index f" using snoc.prems(2) tc by simp
  have ne: "rev cs @ ancestry index f \<noteq> []" using ancestry_nonempty [OF assms(1,2)] by simp
  have kc: "known index c" using snoc.prems(1) tc by simp
  obtain p where p: "parent_of index c = Some p" "ancestry index p = rev cs @ ancestry index f"
    by (rule ancestry_step [OF assms(1) kc a ne])
  have kp: "known index p" by (rule tree_parent(1) [OF assms(1) kc p(1)])
  have "hd (rev cs @ ancestry index f) = last (f # cs)"
    using ancestry_nonempty [OF assms(1,2)] by (cases cs rule: rev_cases) simp_all
  then have "p = last (f # cs)" using ancestry_nonempty(2) [OF assms(1) kp] unfolding p(2) by (rule trans [OF sym, rotated])
  with snoc.IH [OF kp p(2)] p(1) snoc.prems(1) tc show ?case by (simp add: links_append)
qed simp

lemma elig_ancestors:
  assumes "index_ok E index" and "elig (idx_entries index) t" and "a \<in> set (ancestry index t)"
  shows "elig (idx_entries index) a"
  using assms(2,3)
proof (induction "height_of index t" arbitrary: t rule: less_induct)
  case less
  have k: "known index t" using less.prems(1) by (auto simp: elig_def Find_def)
  note T = index_okD(1) [OF assms(1)]
  show ?case
  proof (cases "a = t")
    case True
    with less.prems show ?thesis by simp
  next
    case False
    then obtain p where p: "parent_of index t = Some p" "a \<in> set (ancestry index p)"
      using less.prems(2) ancestry_rec [OF T k] by (auto split: option.splits)
    note tp = tree_parent [OF T k p(1)]
    have "elig (idx_entries index) p"
      using index_okD(3) [OF assms(1)] less.prems(1) p(1) tp(1) unfolding failures_ok_def elig_def
      by (metis Find_def entry_at_Find option.exhaust)
    then show ?thesis using less.hyps [of p] tp(2) p(2) by simp
  qed
qed

lemma elig_entry: "elig (idx_entries index) h \<longleftrightarrow> known index h \<and> IsEligible (entry_at index h)"
  by (auto simp: elig_def Find_def entry_at_def)

lemma same_eligible_count:
  assumes "same_eligible index index'" and "tree_ok E index" and "tree_ok E index'"
  shows "eligible_count (idx_entries index') = eligible_count (idx_entries index)"
  using assms(1) eligible_count_card(1) [OF tree_distinct [OF assms(2)]] eligible_count_card(1) [OF tree_distinct [OF assms(3)]]
  by (simp add: same_eligible_def)

text \<open>The entries better than a given one.\<close>

definition better_than :: "block_index \<Rightarrow> hash256 \<Rightarrow> hash256 set" where
  "better_than index tip = {h. elig (idx_entries index) h \<and> IsBetterTip (entry_at index h) (entry_at index tip)}"

lemma better_than_fewer:
  assumes t: "tree_ok E index" and same: "same_eligible index index'" and ext: "index_ext index index'"
    and k: "known index tip" "known index a" and better: "IsBetterTip (entry_at index a) (entry_at index tip)"
  shows "card (better_than index' a) < card (better_than index tip)"
proof -
  have el: "elig (idx_entries index) a" using better k(2) by (auto simp: elig_entry IsBetterTip_def split: if_splits)
  have cong: "IsBetterTip (entry_at index' x) (entry_at index' a) = IsBetterTip (entry_at index x) (entry_at index a)"
    if "elig (idx_entries index) x" for x
  proof (rule IsBetterTip_cong)
    have kx: "known index x" using that by (simp add: elig_entry)
    show "strip (entry_at index' x) = strip (entry_at index x)" by (rule index_extD(6) [OF ext kx])
    show "strip (entry_at index' a) = strip (entry_at index a)" by (rule index_extD(6) [OF ext k(2)])
    show "IsEligible (entry_at index' x) = IsEligible (entry_at index x)"
      "IsEligible (entry_at index' a) = IsEligible (entry_at index a)"
      using same that el unfolding same_eligible_def elig_entry by blast+
  qed
  have "better_than index' a \<subset> better_than index tip"
  proof
    show "better_than index' a \<subseteq> better_than index tip"
      using same cong better IsBetterTip_trans unfolding better_than_def same_eligible_def by blast
    have "a \<in> better_than index tip" "a \<notin> better_than index' a" using el better by (simp_all add: better_than_def)
    then show "better_than index' a \<noteq> better_than index tip" by blast
  qed
  moreover have "finite (better_than index tip)"
    using eligible_count_card(2) [OF tree_distinct [OF t]] by (rule rev_finite_subset) (auto simp: better_than_def)
  ultimately show ?thesis by (rule psubset_card_mono [rotated])
qed

text \<open>The highest block of a plan this node could get to.\<close>

definition attainable :: "('s, 'k) chain_env \<Rightarrow> ('s, 'k) chain_state \<Rightarrow> chain_switch \<Rightarrow> hash256" where
  "attainable env s plan = last (the (sw_fork_point plan) # reachable_part env s (sw_connect plan))"

text \<open>Where activation stops: at the best header, or where its branch offers nothing better.\<close>

definition settled :: "('s, 'k) chain_env \<Rightarrow> ('s, 'k) chain_state \<Rightarrow> bool" where
  "settled env s \<longleftrightarrow>
     (case BestHeader (cs_index s) of
        None \<Rightarrow> True
      | Some best \<Rightarrow> best = Tip s \<or>
          (\<exists>plan. PlanChainSwitch (cs_index s) (Some (Tip s)) (Some best) = Some plan \<and>
             \<not> IsBetterTip (entry_at (cs_index s) (attainable env s plan)) (entry_at (cs_index s) (Tip s))))"

context lawful_store
begin

lemma DisconnectAll_ok:
  assumes ok: "chain_ok env s" and S: "env_store env = S" and sink: "lawful_sink (env_sink env)"
    and f: "known (cs_index s) f" and a: "ancestry (cs_index s) (Tip s) = ds @ ancestry (cs_index s) f"
    and r: "DisconnectAll env ds summary s = (r, s')"
  shows "chain_ok env s' \<and> cs_index s' = cs_index s \<and> cs_store s' = cs_store s \<and>
    (cs_sink s' = None \<longleftrightarrow> cs_sink s = None) \<and> (case r of Inl f \<Rightarrow> sink_stop s f | Inr _ \<Rightarrow> Tip s' = f)"
  using ok f a r
proof (induction ds arbitrary: s summary)
  case Nil
  note o = chain_okD [OF Nil.prems(1)]
  have "Tip s = f"
    using ancestry_nonempty(2) [OF o(8,3)] unfolding Nil.prems(3) append_Nil ancestry_nonempty(2) [OF o(8) Nil.prems(2)] by (rule sym)
  with Nil show ?case by auto
next
  case (Cons d ds)
  note o = chain_okD [OF Cons.prems(1)]
  have d: "d = Tip s" using ancestry_nonempty(2) [OF o(8,3)] Cons.prems(3) by simp
  have "ds @ ancestry (cs_index s) f \<noteq> []" using ancestry_nonempty(1) [OF o(8) Cons.prems(2)] by simp
  then obtain p where p: "parent_of (cs_index s) (Tip s) = Some p" "ancestry (cs_index s) p = ds @ ancestry (cs_index s) f"
    by (rule ancestry_step [OF o(8,3) Cons.prems(3) [simplified]])
  obtain r1 s1 where d1: "DisconnectTip env summary s = (r1, s1)" by (cases "DisconnectTip env summary s")
  note D = DisconnectTip_ok [OF Cons.prems(1) S sink p(1) d1]
  show ?case
  proof (cases r1)
    case (Inl e)
    with D d d1 Cons.prems(4) show ?thesis by auto
  next
    case (Inr summary1)
    with d d1 Cons.prems(4) have "DisconnectAll env ds summary1 s1 = (r, s')" by simp
    from Cons.IH [OF _ _ _ this] D p(2) Cons.prems(2)
    show ?thesis by (auto simp: sink_stop_def split: sum.splits)
  qed
qed

lemma ConnectAll_ok:
  assumes "chain_ok env s" and S: "env_store env = S" and sink: "lawful_sink (env_sink env)"
    and "links (cs_index s) (Tip s) cs"
    and "\<forall>c \<in> set cs. elig (idx_entries (cs_index s)) c \<and> store_GetBlock S (cs_store s) c \<noteq> None"
    and "ConnectAll env cs summary s = (r, s')"
  shows "chain_ok env s' \<and> index_ext (cs_index s) (cs_index s') \<and> (cs_sink s' = None \<longleftrightarrow> cs_sink s = None) \<and>
    (case r of Inl f \<Rightarrow> sink_stop s f
     | Inr _ \<Rightarrow> eligible_count (idx_entries (cs_index s')) < eligible_count (idx_entries (cs_index s)) \<or>
         same_eligible (cs_index s) (cs_index s') \<and> Tip s' = last (Tip s # cs))"
  using assms(1,4,5,6)
proof (induction cs arbitrary: s summary)
  case Nil
  then show ?case by auto
next
  case (Cons c cs)
  have l: "parent_of (cs_index s) c = Some (Tip s)" "links (cs_index s) c cs" using Cons.prems(2) by simp_all
  have e: "elig (idx_entries (cs_index s)) c" "store_GetBlock S (cs_store s) c \<noteq> None" using Cons.prems(3) by simp_all
  obtain r1 s1 where c1: "ConnectTip env c summary s = (r1, s1)" by (cases "ConnectTip env c summary s")
  note C = ConnectTip_ok [OF Cons.prems(1) S sink e(1) l(1) e(2) c1]
  show ?case
  proof (cases r1)
    case (Inl e)
    with C c1 Cons.prems(4) show ?thesis by auto
  next
    case (Inr v)
    obtain applied summary1 where v: "v = (applied, summary1)" by (cases v)
    show ?thesis
    proof (cases applied)
      case False
      with C c1 Cons.prems(4) Inr v show ?thesis by auto
    next
      case True
      with C Inr v have C': "chain_ok env s1" "\<forall>x. store_GetBlock S (cs_store s1) x = store_GetBlock S (cs_store s) x"
        "index_ext (cs_index s) (cs_index s1)" "cs_sink s1 = None \<longleftrightarrow> cs_sink s = None" "Tip s1 = c"
        "same_eligible (cs_index s) (cs_index s1)" by auto
      have "ConnectAll env cs summary1 s1 = (r, s')" using True c1 Cons.prems(4) Inr v by simp
      moreover have "links (cs_index s1) (Tip s1) cs" using links_ext [OF C'(3) l(2)] C'(5) by simp
      moreover have "\<forall>c \<in> set cs. elig (idx_entries (cs_index s1)) c \<and> store_GetBlock S (cs_store s1) c \<noteq> None"
        using Cons.prems(3) C'(2,6) by (simp add: same_eligible_def)
      ultimately have "chain_ok env s' \<and> index_ext (cs_index s1) (cs_index s') \<and> (cs_sink s' = None \<longleftrightarrow> cs_sink s1 = None) \<and>
        (case r of Inl f \<Rightarrow> sink_stop s1 f
         | Inr _ \<Rightarrow> eligible_count (idx_entries (cs_index s')) < eligible_count (idx_entries (cs_index s1)) \<or>
             same_eligible (cs_index s1) (cs_index s') \<and> Tip s' = last (Tip s1 # cs))"
        using Cons.IH [OF C'(1)] by blast
      moreover have "eligible_count (idx_entries (cs_index s1)) = eligible_count (idx_entries (cs_index s))"
        by (rule same_eligible_count [OF C'(6) chain_okD(8) [OF Cons.prems(1)] chain_okD(8) [OF C'(1)]])
      ultimately show ?thesis
        using C'(3-6) by (auto simp: sink_stop_def split: sum.splits intro: index_ext_trans same_eligible_trans)
    qed
  qed
qed

end

lemma Contains_ancestor:
  assumes ok: "chain_ok env s" and f: "f \<in> set (ancestry (cs_index s) (Tip s))"
  shows "Contains (cs_index s) (cs_blocks s) f"
proof -
  note o = chain_okD [OF ok]
  have m: "map (height_of (cs_index s)) (cs_blocks s) = [0..<length (cs_blocks s)]"
  proof -
    have "map (height_of (cs_index s)) (cs_blocks s) = [0..<Suc (height_of (cs_index s) (Tip s))]"
      using ancestry_heights [OF o(8,3)] unfolding o(4) rev_map [symmetric] by (metis rev_rev_ident)
    moreover from this have "length (cs_blocks s) = Suc (height_of (cs_index s) (Tip s))"
      by (metis length_map length_upt diff_zero)
    ultimately show ?thesis by simp
  qed
  have "f \<in> set (cs_blocks s)" using f unfolding o(4) by simp
  then obtain i where i: "i < length (cs_blocks s)" "cs_blocks s ! i = f" by (auto simp: in_set_conv_nth)
  have "height_of (cs_index s) f = i" using arg_cong [OF m, of "\<lambda>l. l ! i"] i by simp
  with i show ?thesis by (simp add: Contains_def AtHeight_def)
qed

text \<open>The plan activation makes, with what it relies on.\<close>

lemma activation_plan:
  assumes ok: "chain_ok env s" and best: "BestHeader (cs_index s) = Some t"
  obtains plan f where "PlanChainSwitch (cs_index s) (Some (Tip s)) (Some t) = Some plan" "sw_fork_point plan = Some f"
    "known (cs_index s) f" "ancestry (cs_index s) (Tip s) = sw_disconnect plan @ ancestry (cs_index s) f"
    "Contains (cs_index s) (cs_blocks s) f" "links (cs_index s) f (sw_connect plan)"
    "\<forall>c \<in> set (sw_connect plan). elig (idx_entries (cs_index s)) c"
proof -
  note o = chain_okD [OF ok]
  from index_okD(4) [OF o(1)] best have e: "elig (idx_entries (cs_index s)) t"
    by (auto simp: best_ok_def BestHeader_def elig_def Find_def)
  then have k: "known (cs_index s) t" by (simp add: elig_entry)
  obtain plan f where P: "PlanChainSwitch (cs_index s) (Some (Tip s)) (Some t) = Some plan" "sw_fork_point plan = Some f"
    "known (cs_index s) f" "ancestry (cs_index s) (Tip s) = sw_disconnect plan @ ancestry (cs_index s) f"
    "ancestry (cs_index s) t = rev (sw_connect plan) @ ancestry (cs_index s) f"
    by (rule PlanChainSwitch_returns [OF o(8,3) k])
  have "f \<in> set (ancestry (cs_index s) (Tip s))" unfolding P(4) using ancestry_hd [OF o(8) P(3)] by simp
  from Contains_ancestor [OF ok this] links_ancestry [OF o(8) P(3) k P(5)] P(1-4) show ?thesis
    using elig_ancestors [OF o(1) e] unfolding P(5) by (intro that [of plan f]) auto
qed

context lawful_store
begin

lemma reachable_links:
  assumes ok: "chain_ok env s" and S: "env_store env = S"
    and "links (cs_index s) f cs" and "\<forall>c \<in> set cs. elig (idx_entries (cs_index s)) c"
  shows "links (cs_index s) f (reachable_part env s cs)"
    "\<forall>c \<in> set (reachable_part env s cs). elig (idx_entries (cs_index s)) c \<and> store_GetBlock S (cs_store s) c \<noteq> None"
proof -
  show "links (cs_index s) f (reachable_part env s cs)"
    unfolding reachable_part_def by (metis links_take takeWhile_dropWhile_id assms(3))
  show "\<forall>c \<in> set (reachable_part env s cs). elig (idx_entries (cs_index s)) c \<and> store_GetBlock S (cs_store s) c \<noteq> None"
  proof
    fix c assume "c \<in> set (reachable_part env s cs)"
    then have c: "c \<in> set cs" "store_HaveBlock S (cs_store s) (ent_hash (entry_at (cs_index s) c))"
      unfolding reachable_part_def S by (auto dest: set_takeWhileD)
    with assms(4) have e: "elig (idx_entries (cs_index s)) c" by blast
    then have "ent_hash (entry_at (cs_index s) c) = c" using tree_hash [OF chain_okD(8) [OF ok]] by (simp add: elig_entry)
    with c e show "elig (idx_entries (cs_index s)) c \<and> store_GetBlock S (cs_store s) c \<noteq> None" by (simp add: have_iff)
  qed
qed

text \<open>One pass of the loop: it stops, or leaves fewer eligible entries, or a better tip.\<close>

lemma activation_pass:
  assumes ok: "chain_ok env s" and S: "env_store env = S" and sink: "lawful_sink (env_sink env)"
  shows "(\<exists>summ. ActivateBestChain_loop env summary s = Some (Inr summ, s) \<and> sum_tip summ = Tip s \<and> settled env s) \<or>
    (\<exists>f s'. ActivateBestChain_loop env summary s = Some (Inl f, s') \<and> chain_ok env s' \<and> sink_stop s f) \<or>
    (\<exists>summary' s'. ActivateBestChain_loop env summary s = ActivateBestChain_loop env summary' s' \<and> chain_ok env s' \<and>
       (cs_sink s' = None \<longleftrightarrow> cs_sink s = None) \<and>
       (eligible_count (idx_entries (cs_index s')) < eligible_count (idx_entries (cs_index s)) \<or>
        eligible_count (idx_entries (cs_index s')) = eligible_count (idx_entries (cs_index s)) \<and>
        card (better_than (cs_index s') (Tip s')) < card (better_than (cs_index s) (Tip s))))"
proof (cases "BestHeader (cs_index s) = None \<or> BestHeader (cs_index s) = Some (Tip s)")
  case True
  then show ?thesis
    by (intro disjI1) (auto simp: ActivateBestChain_loop.simps settled_def)
next
  case False
  then obtain t where t: "BestHeader (cs_index s) = Some t" "t \<noteq> Tip s" by auto
  obtain plan f where P: "PlanChainSwitch (cs_index s) (Some (Tip s)) (Some t) = Some plan" "sw_fork_point plan = Some f"
    "known (cs_index s) f" "ancestry (cs_index s) (Tip s) = sw_disconnect plan @ ancestry (cs_index s) f"
    "Contains (cs_index s) (cs_blocks s) f" "links (cs_index s) f (sw_connect plan)"
    "\<forall>c \<in> set (sw_connect plan). elig (idx_entries (cs_index s)) c"
    by (rule activation_plan [OF ok t(1)])
  let ?cs = "reachable_part env s (sw_connect plan)" and ?a = "attainable env s plan"
  have a: "?a = (if ?cs = [] then f else last ?cs)" by (simp add: attainable_def P(2))
  note R = reachable_links [OF ok S P(6,7)]
  have loop: "ActivateBestChain_loop env summary s =
      (if \<not> IsBetterTip (entry_at (cs_index s) ?a) (entry_at (cs_index s) (Tip s))
       then Some (Inr (summary\<lparr>sum_tip := Tip s\<rparr>), s)
       else case DisconnectAll env (sw_disconnect plan) summary s of
           (Inl failure, s1) \<Rightarrow> Some (Inl failure, s1)
         | (Inr summary1, s1) \<Rightarrow>
             case ConnectAll env ?cs summary1 s1 of
               (Inl failure, s2) \<Rightarrow> Some (Inl failure, s2)
             | (Inr summary2, s2) \<Rightarrow> ActivateBestChain_loop env (summary2\<lparr>sum_tip := Tip s2\<rparr>) s2)"
    unfolding a by (subst ActivateBestChain_loop.simps) (simp add: t P Let_def)
  show ?thesis
  proof (cases "IsBetterTip (entry_at (cs_index s) ?a) (entry_at (cs_index s) (Tip s))")
    case False
    with P(1) t have "settled env s" by (simp add: settled_def)
    with False loop show ?thesis by (intro disjI1) simp
  next
    case True
    obtain r1 s1 where d: "DisconnectAll env (sw_disconnect plan) summary s = (r1, s1)"
      by (cases "DisconnectAll env (sw_disconnect plan) summary s")
    note D = DisconnectAll_ok [OF ok S sink P(3,4) d]
    show ?thesis
    proof (cases r1)
      case (Inl e)
      with D d loop True show ?thesis by (intro disjI2 disjI1) auto
    next
      case (Inr summary1)
      with D have D': "chain_ok env s1" "cs_index s1 = cs_index s" "cs_store s1 = cs_store s"
        "cs_sink s1 = None \<longleftrightarrow> cs_sink s = None" "Tip s1 = f" by auto
      obtain r2 s2 where c: "ConnectAll env ?cs summary1 s1 = (r2, s2)" by (cases "ConnectAll env ?cs summary1 s1")
      have "links (cs_index s1) (Tip s1) ?cs"
        "\<forall>c \<in> set ?cs. elig (idx_entries (cs_index s1)) c \<and> store_GetBlock S (cs_store s1) c \<noteq> None"
        using R D'(2,3,5) by simp_all
      note C = ConnectAll_ok [OF D'(1) S sink this c]
      show ?thesis
      proof (cases r2)
        case (Inl e)
        with C D'(4) c d Inr loop True show ?thesis by (intro disjI2 disjI1) (auto simp: sink_stop_def)
      next
        case r2: (Inr summary2)
        have next_: "ActivateBestChain_loop env summary s = ActivateBestChain_loop env (summary2\<lparr>sum_tip := Tip s2\<rparr>) s2"
          using loop True d Inr c r2 by simp
        have "eligible_count (idx_entries (cs_index s2)) < eligible_count (idx_entries (cs_index s)) \<or>
          eligible_count (idx_entries (cs_index s2)) = eligible_count (idx_entries (cs_index s)) \<and>
          card (better_than (cs_index s2) (Tip s2)) < card (better_than (cs_index s) (Tip s))"
        proof (cases "eligible_count (idx_entries (cs_index s2)) < eligible_count (idx_entries (cs_index s))")
          case False
          with C r2 D'(2,5) have same: "same_eligible (cs_index s) (cs_index s2)" "Tip s2 = last (f # ?cs)"
            "index_ext (cs_index s) (cs_index s2)" by auto
          note T = chain_okD(8) [OF ok]
          have ka: "known (cs_index s) ?a" using P(3) R(2) unfolding a by (auto simp: elig_entry)
          have "Tip s2 = ?a" using same(2) by (simp add: a)
          with better_than_fewer [OF T same(1,3) chain_okD(3) [OF ok] ka True]
            same_eligible_count [OF same(1) T chain_okD(8) [of env s2]] C show ?thesis by simp
        qed simp
        moreover have "chain_ok env s2" "cs_sink s2 = None \<longleftrightarrow> cs_sink s = None" using C D'(4) by simp_all
        ultimately show ?thesis using next_
          by (intro disjI2 exI [of _ "summary2\<lparr>sum_tip := Tip s2\<rparr>"] exI [of _ s2]) blast
      qed
    qed
  qed
qed

lemma ActivateBestChain_loop_ok:
  assumes "chain_ok env s" and S: "env_store env = S" and sink: "lawful_sink (env_sink env)"
  shows "\<exists>r s'. ActivateBestChain_loop env summary s = Some (r, s') \<and> chain_ok env s' \<and>
    (case r of Inl f \<Rightarrow> sink_stop s f | Inr summ \<Rightarrow> sum_tip summ = Tip s' \<and> settled env s')"
  using assms(1)
proof (induction "(eligible_count (idx_entries (cs_index s)), card (better_than (cs_index s) (Tip s)))"
    arbitrary: s summary rule: wf_induct_rule [OF wf_lex_prod [OF wf_less_than wf_less_than]])
  case (1 s)
  from activation_pass [OF 1(2) S sink, of summary] show ?case
  proof (elim disjE exE conjE)
    fix summary' s'
    assume n: "ActivateBestChain_loop env summary s = ActivateBestChain_loop env summary' s'" "chain_ok env s'"
      "cs_sink s' = None \<longleftrightarrow> cs_sink s = None"
    then have st: "sink_stop s' f = sink_stop s f" for f by (simp add: sink_stop_def)
    assume "eligible_count (idx_entries (cs_index s')) < eligible_count (idx_entries (cs_index s))"
    then show ?thesis using 1(1) [of s' summary'] n(1,2) unfolding n(1) st by simp
  next
    fix summary' s'
    assume n: "ActivateBestChain_loop env summary s = ActivateBestChain_loop env summary' s'" "chain_ok env s'"
      "cs_sink s' = None \<longleftrightarrow> cs_sink s = None"
    then have st: "sink_stop s' f = sink_stop s f" for f by (simp add: sink_stop_def)
    assume "eligible_count (idx_entries (cs_index s')) = eligible_count (idx_entries (cs_index s))"
      "card (better_than (cs_index s') (Tip s')) < card (better_than (cs_index s) (Tip s))"
    then show ?thesis using 1(1) [of s' summary'] n(1,2) unfolding n(1) st by simp
  qed (use 1(2) in auto)
qed

end

section \<open>Reachable states\<close>

text \<open>
  What a node does with its chain state. A header offered must not collide with the different
  header of a known block, and the 64-bit sequence numbers must not be used up.
\<close>

inductive chain_step :: "('s, 'k) chain_env \<Rightarrow> ('s, 'k) chain_state \<Rightarrow> ('s, 'k) chain_state \<Rightarrow> bool" for env where
  accept_block:
    "AcceptBlock env block now s = (r, s') \<Longrightarrow> IndexSize (cs_index s) < 2 ^ 64 - 1 \<Longrightarrow>
     (\<And>e. Find (cs_index s) (BlockHeader_Hash (env_crypto env) (blk_header block)) = Some e \<Longrightarrow>
        ent_header e = blk_header block) \<Longrightarrow>
     chain_step env s s'"
| accept_header:
    "AcceptHeader env header now s = (r, s') \<Longrightarrow> IndexSize (cs_index s) < 2 ^ 64 - 1 \<Longrightarrow> chain_step env s s'"
| activate: "ActivateBestChain env s = Some (r, s') \<Longrightarrow> chain_step env s s'"

inductive_cases chain_stepE: "chain_step env s s'"

definition chain_start :: "('s, 'k) chain_env \<Rightarrow> ('s, 'k) chain_state \<Rightarrow> bool" where
  "chain_start env s \<longleftrightarrow> cs_index s = ForNetwork (env_crypto env) (env_params env) \<and>
     cs_blocks s = [IndexGenesis (cs_index s)] \<and> cache_ok (cs_coins s) \<and> GetCoin (cs_coins s) = Map.empty \<and>
     (\<forall>h. store_GetBlock (env_store env) (cs_store s) h = None)"

lemma chain_start_ok:
  assumes "chain_start env s"
  shows "chain_ok env s"
proof -
  let ?E = "env_crypto env" and ?p = "env_params env"
  have i: "cs_index s = ForNetwork ?E ?p" and b: "cs_blocks s = [IndexGenesis (ForNetwork ?E ?p)]"
    using assms by (simp_all add: chain_start_def)
  let ?g = "BlockHeader_Hash ?E (blk_header (BuildGenesisBlock ?E ?p))"
  have t: "Tip s = ?g" by (simp add: Tip_def b IndexGenesis_def ForNetwork_fields)
  have k: "known (ForNetwork ?E ?p) ?g" by (simp add: ForNetwork_Find)
  have a: "ancestry (ForNetwork ?E ?p) ?g = [?g]"
    using ancestry_rec [OF index_okD(1) [OF ForNetwork_ok] k] by (simp add: ForNetwork_Find entry_at_def)
  then have g: "above_genesis s = []" by (simp add: above_genesis_def i t)
  have "ledger_ok (env_crypto env) (env_params env) (applied_of (env_store env) (cs_store s) [], cs_coins s)"
    using assms by (simp add: chain_start_def applied_of_def ledger_ok_def)
  then show ?thesis
    unfolding chain_ok_def i t g using ForNetwork_ok k a assms
    by (simp add: chain_start_def b i IndexGenesis_def ForNetwork_fields)
qed

context lawful_store
begin

lemma chain_step_ok:
  assumes "chain_step env s s'" and "chain_ok env s" and "env_store env = S" and "lawful_sink (env_sink env)"
  shows "chain_ok env s'"
  using assms(1)
proof cases
  case (accept_block block now r)
  then show ?thesis using AcceptBlock_ok [OF assms(2,3)] by blast
next
  case (accept_header header now r)
  then show ?thesis using AcceptHeader_ok [OF assms(2)] by blast
next
  case (activate r)
  then show ?thesis
    using ActivateBestChain_loop_ok [OF assms(2-4)] unfolding ActivateBestChain_def by (metis Pair_inject option.inject)
qed

lemma chain_reachable_ok:
  assumes "(chain_step env)\<^sup>*\<^sup>* s s'" and "chain_start env s" and "env_store env = S" and "lawful_sink (env_sink env)"
  shows "chain_ok env s'"
  using assms(1) by (induction rule: rtranclp_induct) (use assms(2-4) chain_start_ok chain_step_ok in blast)+

end

lemma AcceptBlock_bad_body:
  assumes ok: "chain_ok env s" and k: "Find (cs_index s) (BlockHeader_Hash (env_crypto env) (blk_header block)) = Some e"
    and el: "IsEligible e" and nb: "\<not> store_HaveBlock (env_store env) (cs_store s) (ent_hash e)"
    and bad: "CheckBlock (env_crypto env) block (env_params env) = Reject v"
  obtains s' where "AcceptBlock env block now s = (Inl (HeaderInvalid v), s')" "index_ok (env_crypto env) (cs_index s')"
    "known (cs_index s') (ent_hash e)"
    "\<And>x. elig (idx_entries (cs_index s')) x \<longleftrightarrow>
       elig (idx_entries (cs_index s)) x \<and> ent_hash e \<notin> set (ancestry (cs_index s) x)"
proof -
  let ?E = "env_crypto env" and ?h = "BlockHeader_Hash (env_crypto env) (blk_header block)"
  note o = chain_okD [OF ok]
  have h: "ent_hash e = ?h" using tree_hash [OF o(8), of ?h] k by simp
  have add: "AddHeader ?E (cs_index s) (blk_header block) now (env_params env) = (Inr ?h, cs_index s)"
    using k by (simp add: AddHeader_def Let_def)
  obtain n index where rf: "RecordFailure (cs_index s) ?h = (n, index)" by (cases "RecordFailure (cs_index s) ?h")
  let ?t = "s\<lparr>cs_index := index\<rparr>"
  have acc: "AcceptBlock env block now s = (Inl (HeaderInvalid v), snd (CommitEntry env ?h ?t))"
    using add k el nb bad rf h by (simp add: AcceptBlock_def Let_def)
  obtain q where q: "snd (CommitEntry env ?h ?t) = ?t\<lparr>cs_sink := q\<rparr>" using CommitEntry_frame [of env ?h ?t] by blast
  note R = RecordFailure_spec [OF o(1) k el rf]
  have "known index ?h" by (rule index_extD(1) [OF index_ext_shape(1) [OF R(1)]]) (simp add: k)
  with acc q R h show ?thesis by (intro that [of "?t\<lparr>cs_sink := q\<rparr>"]) auto
qed

lemma chain_ok_in_step:
  assumes ok: "chain_ok env s" and "env_params env = ParamsFor n"
  shows "cs_blocks s = rev (ancestry (cs_index s) (Tip s)) \<and> hd (cs_blocks s) = IndexGenesis (cs_index s) \<and>
    replay (env_crypto env) (ParamsFor n) (applied_of (env_store env) (cs_store s) (rev (tl (cs_blocks s)))) =
      Some (GetCoin (cs_coins s)) \<and>
    utxo_value (GetCoin (cs_coins s)) \<le> MAX_MONEY"
proof -
  note o = chain_okD [OF ok]
  have ne: "ancestry (cs_index s) (Tip s) \<noteq> []" by (rule ancestry_nonempty(1) [OF o(8,3)])
  have "rev (tl (cs_blocks s)) = above_genesis s" unfolding o(4) above_genesis_def by (simp add: butlast_rev [symmetric])
  then have r: "replay (env_crypto env) (ParamsFor n) (applied_of (env_store env) (cs_store s) (rev (tl (cs_blocks s)))) =
      Some (GetCoin (cs_coins s))"
    using o(7) assms(2) by (simp add: ledger_ok_def)
  have "hd (cs_blocks s) = IndexGenesis (cs_index s)"
    using ancestry_heights [OF o(8,3)] ne unfolding o(4) IndexGenesis_def by (simp add: hd_rev)
  with o(4) r replay_supply [OF r networks_issuance_ok] networks_total [of n] show ?thesis by simp
qed

section \<open>Properties\<close>

text \<open>
  Property C3. The chain and the coins stay in step: in every state reached from a fresh node by
  accepting blocks and headers and activating chains, on every network, the active chain is the
  ancestry of its tip down to genesis, the coins are those of replaying its stored blocks on the
  map specification, and their value never exceeds \<^verbatim>\<open>MAX_MONEY\<close>.
\<close>

theorem chain_and_coins_in_step:
  assumes "(chain_step env)\<^sup>*\<^sup>* s0 s" and "chain_start env s0" and "env_store env = MemoryBlockStore"
    and "lawful_sink (env_sink env)" and "env_params env = ParamsFor n"
  shows "cs_blocks s = rev (ancestry (cs_index s) (Tip s)) \<and> hd (cs_blocks s) = IndexGenesis (cs_index s) \<and>
    replay (env_crypto env) (ParamsFor n) (applied_of MemoryBlockStore (cs_store s) (rev (tl (cs_blocks s)))) =
      Some (GetCoin (cs_coins s)) \<and>
    utxo_value (GetCoin (cs_coins s)) \<le> MAX_MONEY"
  using chain_ok_in_step [OF memory.chain_reachable_ok [OF assms(1-4)] assms(5)] unfolding assms(3) .

definition fresh_env :: "crypto_ext \<Rightarrow> network \<Rightarrow> (memory_block_store, unit) chain_env" where
  "fresh_env E n =
     \<lparr>env_crypto = E, env_params = ParamsFor n, env_store = MemoryBlockStore,
      env_sink = \<lparr>sink_CommitHeader = (\<lambda>_ k. (True, k)), sink_CommitTip = (\<lambda>coins _ k. (True, coins, k)),
        sink_HasFault = (\<lambda>_. False)\<rparr>\<rparr>"

definition fresh_state :: "crypto_ext \<Rightarrow> network \<Rightarrow> (memory_block_store, unit) chain_state" where
  "fresh_state E n = ChainState_new (ForNetwork E (ParamsFor n)) (Over EmptyCoinsView)
     \<lparr>mem_blocks = Map.empty, mem_undo = Map.empty\<rparr>"

lemma fresh_env_simps [simp]:
  "env_crypto (fresh_env E n) = E" "env_params (fresh_env E n) = ParamsFor n"
  "env_store (fresh_env E n) = MemoryBlockStore" "lawful_sink (env_sink (fresh_env E n))"
  by (simp_all add: fresh_env_def lawful_sink_def)

lemma fresh_start: "chain_start (fresh_env E n) (fresh_state E n)"
  by (simp add: chain_start_def fresh_state_def ChainState_new_def MemoryBlockStore_def Memory_GetBlock_def)

theorem chain_and_coins_in_step_witness:
  "hd (cs_blocks (fresh_state example_crypto Mainnet)) = IndexGenesis (cs_index (fresh_state example_crypto Mainnet))"
  by (rule chain_and_coins_in_step [where n = Mainnet, OF rtranclp.rtrancl_refl fresh_start,
    THEN conjunct2, THEN conjunct1]) simp_all

text \<open>
  Property C4. Activation of the best chain returns, from every reachable state: each pass of its
  loop rules a block out for good, or leaves the tip at a better entry, or is the last.
\<close>

theorem activation_terminates:
  assumes "(chain_step env)\<^sup>*\<^sup>* s0 s" and "chain_start env s0" and "env_store env = MemoryBlockStore"
    and "lawful_sink (env_sink env)"
  shows "\<exists>r s'. ActivateBestChain env s = Some (r, s')"
  using memory.ActivateBestChain_loop_ok [OF memory.chain_reachable_ok [OF assms] assms(3,4)]
  unfolding ActivateBestChain_def by metis

theorem activation_terminates_witness:
  "\<exists>r s'. ActivateBestChain (fresh_env example_crypto Regtest) (fresh_state example_crypto Regtest) = Some (r, s')"
  by (rule activation_terminates [OF rtranclp.rtrancl_refl fresh_start]) simp_all

text \<open>
  Property C5. Activation never finds the node contradicting itself: from every reachable state
  it fails only because a sink refused a commit or reported a fault, so never without a sink; and
  when it succeeds, the reported tip is the tip, and either it is the best header, or no header is
  eligible, or the stored part of the best header's branch is not better than it.
\<close>

theorem activation_settles:
  assumes "(chain_step env)\<^sup>*\<^sup>* s0 s" and "chain_start env s0" and "env_store env = MemoryBlockStore"
    and "lawful_sink (env_sink env)" and "ActivateBestChain env s = Some (r, s')"
  shows "case r of
      Inl f \<Rightarrow> cs_sink s \<noteq> None \<and> fail_error f \<in> {CommitFailed, StorageFaulted}
    | Inr summary \<Rightarrow> sum_tip summary = Tip s' \<and> settled env s'"
  using memory.ActivateBestChain_loop_ok [OF memory.chain_reachable_ok [OF assms(1-4)] assms(3,4)] assms(5)
  unfolding ActivateBestChain_def sink_stop_def by (metis Pair_inject option.inject)

theorem activation_settles_witness:
  "\<exists>summary s'. ActivateBestChain (fresh_env example_crypto Regtest) (fresh_state example_crypto Regtest) =
     Some (Inr summary, s') \<and> sum_tip summary = Tip s'"
proof -
  let ?e = "fresh_env example_crypto Regtest" and ?s = "fresh_state example_crypto Regtest"
  have "BestHeader (cs_index ?s) = Some (Tip ?s)"
    by (simp add: fresh_state_def ChainState_new_def BestHeader_def Tip_def IndexGenesis_def ForNetwork_fields)
  then obtain r s' where a: "ActivateBestChain ?e ?s = Some (r, s')"
    by (auto simp: ActivateBestChain_def ActivateBestChain_loop.simps)
  have n: "cs_sink ?s = None" by (simp add: fresh_state_def ChainState_new_def)
  from activation_settles [OF rtranclp.rtrancl_refl fresh_start _ _ a] n a show ?thesis
    by (auto split: sum.splits)
qed

text \<open>
  Property C31. A bad body rules out its header: when a body offered under a known header fails the
  context-free rules (because it is not the body the header commits to, say), the header and every
  entry above it are ruled out, and the right body is refused from then on.
\<close>

theorem bad_body_rules_out_header:
  assumes "chain_ok env s" and "Find (cs_index s) (BlockHeader_Hash (env_crypto env) (blk_header bad)) = Some e"
    and "IsEligible e" and "\<not> store_HaveBlock (env_store env) (cs_store s) (ent_hash e)"
    and "CheckBlock (env_crypto env) bad (env_params env) = Reject v"
    and "blk_header good = blk_header bad"
  shows "\<exists>s'. AcceptBlock env bad now s = (Inl (HeaderInvalid v), s') \<and>
    (\<forall>x. elig (idx_entries (cs_index s')) x \<longleftrightarrow>
       elig (idx_entries (cs_index s)) x \<and> ent_hash e \<notin> set (ancestry (cs_index s) x)) \<and>
    fst (AcceptBlock env good now' s') = Inl (HeaderNotIndexed AlreadyRuledOut)"
proof -
  let ?h = "BlockHeader_Hash (env_crypto env) (blk_header bad)"
  note o = chain_okD [OF assms(1)]
  have h: "ent_hash e = ?h" using tree_hash [OF o(8), of ?h] assms(2) by simp
  obtain s' where s': "AcceptBlock env bad now s = (Inl (HeaderInvalid v), s')" "known (cs_index s') ?h"
    "\<And>x. elig (idx_entries (cs_index s')) x \<longleftrightarrow> elig (idx_entries (cs_index s)) x \<and> ?h \<notin> set (ancestry (cs_index s) x)"
    using AcceptBlock_bad_body [OF assms(1-5), of now] unfolding h by metis
  have "?h \<in> set (ancestry (cs_index s) ?h)" by (rule ancestry_hd [OF o(8)]) (simp add: assms(2))
  with s'(2,3) have n: "\<not> IsEligible (entry_at (cs_index s') ?h)" by (auto simp: elig_entry)
  from s'(2) have "AddHeader (env_crypto env) (cs_index s') (blk_header good) now' (env_params env) = (Inr ?h, cs_index s')"
    by (simp add: AddHeader_def Let_def assms(6))
  with n have "fst (AcceptBlock env good now' s') = Inl (HeaderNotIndexed AlreadyRuledOut)"
    by (simp add: AcceptBlock_def Let_def)
  with s' show ?thesis unfolding h by blast
qed

text \<open>Offered under genesis, whose body is never stored, a bad body rules out every block.\<close>

theorem bad_body_rules_out_header_witness:
  "\<exists>bad v s'. AcceptBlock (fresh_env example_crypto Regtest) bad 0 (fresh_state example_crypto Regtest) =
      (Inl (HeaderInvalid v), s') \<and> (\<forall>x. \<not> elig (idx_entries (cs_index s')) x)"
proof -
  let ?E = example_crypto and ?e = "fresh_env example_crypto Regtest" and ?s = "fresh_state example_crypto Regtest"
  define bad where "bad = BuildGenesisBlock ?E REGTEST_PARAMS\<lparr>blk_transactions := []\<rparr>"
  have ok: "chain_ok ?e ?s" by (rule chain_start_ok [OF fresh_start])
  have i: "cs_index ?s = ForNetwork ?E REGTEST_PARAMS" by (simp add: fresh_state_def ChainState_new_def)
  have hb: "blk_header bad = blk_header (BuildGenesisBlock ?E REGTEST_PARAMS)" by (simp add: bad_def)
  obtain e where e: "Find (cs_index ?s) (BlockHeader_Hash (env_crypto ?e) (blk_header bad)) = Some e"
    "IsEligible e" "ent_hash e = BlockHeader_Hash ?E (blk_header bad)"
    by (simp add: i hb ForNetwork_Find IsEligible_def)
  have nb: "\<not> store_HaveBlock (env_store ?e) (cs_store ?s) (ent_hash e)"
    by (simp add: MemoryBlockStore_def Memory_HaveBlock_def fresh_state_def ChainState_new_def)
  have "CheckBlock ?E bad REGTEST_PARAMS \<noteq> Accept" by (simp add: CheckBlock_Accept) (simp add: bad_def)
  then obtain v where v: "CheckBlock (env_crypto ?e) bad (env_params ?e) = Reject v"
    by (cases "CheckBlock ?E bad REGTEST_PARAMS") auto
  from bad_body_rules_out_header [OF ok e(1,2) nb v refl, of 0 0] obtain s' where
    s': "AcceptBlock ?e bad 0 ?s = (Inl (HeaderInvalid v), s')"
    "\<And>x. elig (idx_entries (cs_index s')) x \<longleftrightarrow> elig (idx_entries (cs_index ?s)) x \<and> ent_hash e \<notin> set (ancestry (cs_index ?s) x)"
    by blast
  have "\<not> elig (idx_entries (cs_index s')) x" for x
  proof
    assume x: "elig (idx_entries (cs_index s')) x"
    then have "known (cs_index ?s) x" using s'(2) by (simp add: elig_entry)
    then have "x = ent_hash e" unfolding i by (auto simp: ForNetwork_Find e(3) hb split: if_splits)
    with x s'(2) ancestry_hd [OF chain_okD(8) [OF ok], of x] show False by (auto simp: elig_entry)
  qed
  with s'(1) show ?thesis by blast
qed

end
