(* ===== verification/PoolSync.thy ===== *)
theory PoolSync
  imports Pool ChainState
begin

text \<open>
  The mempool and the chain (\<^verbatim>\<open>mempool\<close>, \<^verbatim>\<open>utxo/connect\<close> and \<^verbatim>\<open>PoolKeeper\<close> in \<^verbatim>\<open>node/amariand\<close>): the
  keeper that tells the pool of blocks connected and disconnected, and the invariant it keeps. A
  pool is in step with the unspent coins and the next height (\<open>synced\<close>) when every entry is linked to
  the entries it spends from, would be accepted by the rules with the fee recorded for it, and is not
  confirmed. Acceptance, eviction and connected blocks keep it, the sweep after a reorganisation
  restores it, and what is selected from such a pool connects, in its order, to the coins.
\<close>

section \<open>The keeper of the pool\<close>

text \<open>
  \<^verbatim>\<open>PoolKeeper\<close> owns the pool and observes the chain: a connected block is taken out of the pool at
  once, a disconnected one only sets a flag, and \<^verbatim>\<open>Settle\<close> sweeps the pool once activation has returned.
\<close>

record pool_keeper =
  pk_pool :: mempool
  pk_reorganised :: bool

definition PoolKeeper_new :: pool_keeper where
  "PoolKeeper_new = \<lparr>pk_pool = Mempool_new, pk_reorganised = False\<rparr>"

definition Keeper_BlockConnected :: "crypto_ext \<Rightarrow> block \<Rightarrow> pool_keeper \<Rightarrow> pool_keeper" where
  "Keeper_BlockConnected E block k = k\<lparr>pk_pool := snd (RemoveForBlock E block (pk_pool k))\<rparr>"

definition Keeper_BlockDisconnected :: "pool_keeper \<Rightarrow> pool_keeper" where
  "Keeper_BlockDisconnected k = k\<lparr>pk_reorganised := True\<rparr>"

definition notify_keeper :: "crypto_ext \<Rightarrow> tip_event \<Rightarrow> pool_keeper \<Rightarrow> pool_keeper" where
  "notify_keeper E event k =
     (case event of
        BlockConnected block _ \<Rightarrow> Keeper_BlockConnected E block k
      | BlockDisconnected _ _ \<Rightarrow> Keeper_BlockDisconnected k)"

definition spend_height_above :: "u32 \<Rightarrow> u32" where
  "spend_height_above tip_height = (if tip_height < - 1 then tip_height + 1 else tip_height)"

definition Settle :: "crypto_ext \<Rightarrow> coins_view \<Rightarrow> u32 \<Rightarrow> chain_params \<Rightarrow> pool_keeper \<Rightarrow> pool_keeper" where
  "Settle E coins tip_height params k =
     (if \<not> pk_reorganised k then k
      else \<lparr>pk_pool = snd (RemoveForReorg E coins (spend_height_above tip_height) params (pk_pool k)),
            pk_reorganised = False\<rparr>)"

section \<open>The specification of connection, unfolded\<close>

lemma map_upd_Some:
  "map (m(a := None)) xs = map Some ds \<longleftrightarrow> a \<notin> set xs \<and> map m xs = map Some ds"
proof (induction xs arbitrary: ds)
  case (Cons x xs)
  then show ?case by (cases ds) auto
qed auto

lemma spend_all_iff:
  "spend_all ins m = Inr (cs, m') \<longleftrightarrow> distinct (outpoints_of ins) \<and> map m (outpoints_of ins) = map Some cs \<and>
     m' = without (outpoints_of ins) m"
proof (induction ins arbitrary: m cs)
  case Nil
  then show ?case by (auto simp: without_def)
next
  case (Cons i ins)
  let ?o = "in_outpoint i"
  show ?case
  proof (cases "m ?o")
    case None
    then show ?thesis by auto
  next
    case (Some c)
    have w: "without (outpoints_of ins) (m(?o := None)) = without (outpoints_of (i # ins)) m"
      by (auto simp: without_def fun_eq_iff)
    have "spend_all (i # ins) m = Inr (cs, m') \<longleftrightarrow> (\<exists>ds. cs = c # ds \<and> spend_all ins (m(?o := None)) = Inr (ds, m'))"
      using Some by (cases "spend_all ins (m(?o := None))") auto
    then show ?thesis unfolding Cons.IH map_upd_Some w using Some by (cases cs) auto
  qed
qed

lemma add_all_iff:
  "add_all l m = Inr m' \<longleftrightarrow> distinct (map fst l) \<and> (\<forall>o' \<in> set (map fst l). m o' = None) \<and> m' = m ++ map_of l"
proof (induction l m rule: add_all.induct)
  case (2 o' c l m)
  show ?case
  proof (cases "m o' = None")
    case True
    have u: "m(o' \<mapsto> c) ++ map_of l = m ++ map_of ((o', c) # l)" if "o' \<notin> set (map fst l)"
      using map_of_fresh_update [where m = m and o' = o' and c = c and n = "map_of l"] True that
      by (simp add: dom_map_of_conv_image_fst)
    have v: "(\<forall>x \<in> set (map fst l). (m(o' \<mapsto> c)) x = None) \<longleftrightarrow>
        o' \<notin> set (map fst l) \<and> (\<forall>x \<in> set (map fst l). m x = None)"
      by (metis fun_upd_apply option.distinct(1))
    have s: "add_all ((o', c) # l) m = add_all l (m(o' \<mapsto> c))" using True by simp
    have "add_all ((o', c) # l) m = Inr m' \<longleftrightarrow> distinct (map fst l) \<and> o' \<notin> set (map fst l) \<and>
        (\<forall>x \<in> set (map fst l). m x = None) \<and> m' = m(o' \<mapsto> c) ++ map_of l"
      unfolding s 2(1) [OF True] v by blast
    also have "\<dots> \<longleftrightarrow> distinct (map fst ((o', c) # l)) \<and> (\<forall>x \<in> set (map fst ((o', c) # l)). m x = None) \<and>
        m' = m ++ map_of ((o', c) # l)"
      by (simp only: list.map fst_conv distinct.simps list.set ball_simps True) (metis u)
    finally show ?thesis .
  qed auto
qed auto

lemma connect_spend_iff:
  "connect_tx E params h False tx (m, undo, fees) = Inr (m', undo', fees') \<longleftrightarrow> \<not> IsCoinbase tx \<and>
     (\<exists>spent fee. distinct (outpoints_of (tx_inputs tx)) \<and> map m (outpoints_of (tx_inputs tx)) = map Some spent \<and>
        CheckTransactionInputs E tx spent h params = Inr fee \<and> IsValidAmount (fees + fee) \<and>
        undo' = undo @ [\<lparr>undo_spent = spent\<rparr>] \<and> fees' = fees + fee) \<and>
     distinct (map fst (created_coins (Txid E tx) h False 0 (tx_outputs tx))) \<and>
     (\<forall>o' \<in> set (map fst (created_coins (Txid E tx) h False 0 (tx_outputs tx))).
        without (outpoints_of (tx_inputs tx)) m o' = None) \<and>
     m' = without (outpoints_of (tx_inputs tx)) m ++ map_of (created_coins (Txid E tx) h False 0 (tx_outputs tx))"
proof -
  let ?l = "created_coins (Txid E tx) h False 0 (tx_outputs tx)"
  have "connect_tx E params h False tx (m, undo, fees) = Inr (m', undo', fees') \<longleftrightarrow> \<not> IsCoinbase tx \<and>
      (\<exists>spent m1 fee. spend_all (tx_inputs tx) m = Inr (spent, m1) \<and> CheckTransactionInputs E tx spent h params = Inr fee \<and>
        IsValidAmount (fees + fee) \<and> undo' = undo @ [\<lparr>undo_spent = spent\<rparr>] \<and> fees' = fees + fee \<and> add_all ?l m1 = Inr m')"
    by (auto simp: connect_tx_def verdict_simps IsValidAmount_i64 split: sum.splits if_splits prod.splits)
  then show ?thesis unfolding spend_all_iff add_all_iff by blast
qed

lemma connect_coinbase_iff:
  "connect_tx E params h True tx (m, undo, fees) = Inr (m', undo', fees') \<longleftrightarrow> IsCoinbase tx \<and> undo' = undo \<and> fees' = fees \<and>
     distinct (map fst (created_coins (Txid E tx) h True 0 (tx_outputs tx))) \<and>
     (\<forall>o' \<in> set (map fst (created_coins (Txid E tx) h True 0 (tx_outputs tx))). m o' = None) \<and>
     m' = m ++ map_of (created_coins (Txid E tx) h True 0 (tx_outputs tx))"
proof -
  have "connect_tx E params h True tx (m, undo, fees) = Inr (m', undo', fees') \<longleftrightarrow> IsCoinbase tx \<and> undo' = undo \<and> fees' = fees \<and>
      add_all (created_coins (Txid E tx) h True 0 (tx_outputs tx)) m = Inr m'"
    by (auto simp: connect_tx_def verdict_simps split: sum.splits if_splits prod.splits)
  then show ?thesis unfolding add_all_iff by blast
qed

lemma connect_txs_append:
  "connect_txs E params h i (xs @ ys) s =
     try_then (connect_txs E params h i xs s) (connect_txs E params h (i + length xs) ys)"
proof (induction xs arbitrary: i s)
  case (Cons x xs)
  then show ?case by (cases "connect_tx E params h (i = 0) x s") simp_all
qed simp

text \<open>Where created coins are, and how many.\<close>

lemma created_coins_txid: "(o', c) \<in> set (created_coins t h cb i outs) \<Longrightarrow> op_txid o' = t"
  by (induction outs arbitrary: i) (auto simp: OutPointFor_def split: if_splits)

lemma created_coins_nth:
  assumes "k < length outs" and "IsStored (outs ! k)"
  shows "(OutPointFor t (i + k), created_coin h cb (outs ! k)) \<in> set (created_coins t h cb i outs)"
  using assms
proof (induction outs arbitrary: i k)
  case (Cons out outs)
  show ?case
  proof (cases k)
    case 0
    with Cons.prems show ?thesis by simp
  next
    case (Suc j)
    with Cons.IH [of j "Suc i"] Cons.prems show ?thesis by simp
  qed
qed simp

lemma created_coins_index: "(o', c) \<in> set (created_coins t h cb i outs) \<Longrightarrow> \<exists>k. i \<le> k \<and> k < i + length outs \<and> o' = OutPointFor t k"
proof (induction outs arbitrary: i)
  case (Cons out outs)
  from Cons.prems consider "o' = OutPointFor t i" | "(o', c) \<in> set (created_coins t h cb (Suc i) outs)"
    by (auto split: if_splits)
  then show ?case
  proof cases
    case 1
    then show ?thesis by (intro exI [of _ i]) simp
  next
    case 2
    from Cons.IH [OF this] obtain k where "Suc i \<le> k" "k < Suc i + length outs" "o' = OutPointFor t k" by blast
    then show ?thesis by (intro exI [of _ k]) simp
  qed
qed simp

lemma created_coins_distinct:
  assumes "i + length outs \<le> 2 ^ 32"
  shows "distinct (map fst (created_coins t h cb i outs))"
  using assms
proof (induction outs arbitrary: i)
  case (Cons out outs)
  have "OutPointFor t i \<noteq> OutPointFor t k" if "Suc i \<le> k" "k < Suc i + length outs" for k
  proof
    assume "OutPointFor t i = OutPointFor t k"
    then have "unat (of_nat i :: u32) = unat (of_nat k :: u32)" by (simp add: OutPointFor_def)
    with that Cons.prems show False by (simp add: unat_of_nat)
  qed
  then have "OutPointFor t i \<notin> fst ` set (created_coins t h cb (Suc i) outs)"
    using created_coins_index [of _ _ t h cb "Suc i" outs] by fastforce
  with Cons show ?case by simp
qed simp

section \<open>What connecting transactions does to the coins\<close>

definition spent_in :: "transaction list \<Rightarrow> outpoint set" where
  "spent_in txs = (\<Union>tx \<in> {tx \<in> set txs. \<not> IsCoinbase tx}. set (outpoints_of (tx_inputs tx)))"

lemma spent_in_Cons: "spent_in (tx # txs) = spent_in [tx] \<union> spent_in txs"
  by (auto simp: spent_in_def)

lemma connect_tx_map:
  assumes "connect_tx E params h cb tx (m, undo, fees) = Inr (m', undo', fees')"
  shows "IsCoinbase tx = cb"
    and "\<And>o' c. m o' = Some c \<Longrightarrow> o' \<notin> spent_in [tx] \<Longrightarrow> m' o' = Some c"
    and "\<And>o' c. (o', c) \<in> set (created_coins (Txid E tx) h cb 0 (tx_outputs tx)) \<Longrightarrow> m' o' = Some c"
    and "\<And>o' c. m' o' = Some c \<Longrightarrow> m o' = Some c \<and> o' \<notin> spent_in [tx] \<or> (o', c) \<in> set (created_coins (Txid E tx) h cb 0 (tx_outputs tx))"
proof -
  let ?l = "created_coins (Txid E tx) h cb 0 (tx_outputs tx)"
  have c: "IsCoinbase tx = cb \<and> distinct (map fst ?l) \<and> (\<forall>o' \<in> set (map fst ?l). (if o' \<in> spent_in [tx] then None else m o') = None) \<and>
      m' = (\<lambda>o'. if o' \<in> spent_in [tx] then None else m o') ++ map_of ?l"
  proof (cases cb)
    case True
    have "connect_tx E params h True tx (m, undo, fees) = Inr (m', undo', fees')" using assms True by simp
    then show ?thesis unfolding connect_coinbase_iff using True by (auto simp: spent_in_def)
  next
    case False
    have "connect_tx E params h False tx (m, undo, fees) = Inr (m', undo', fees')" using assms False by simp
    then show ?thesis unfolding connect_spend_iff using False by (auto simp: spent_in_def without_def)
  qed
  then show "IsCoinbase tx = cb" by blast
  from c have d: "distinct (map fst ?l)" and f: "\<And>o'. o' \<in> set (map fst ?l) \<Longrightarrow> (if o' \<in> spent_in [tx] then None else m o') = None"
    and m': "m' = (\<lambda>o'. if o' \<in> spent_in [tx] then None else m o') ++ map_of ?l" by blast+
  show "m' o' = Some c" if "m o' = Some c" "o' \<notin> spent_in [tx]" for o' c
  proof -
    have "o' \<notin> set (map fst ?l)" using f [of o'] that by auto
    then have "map_of ?l o' = None" by (simp add: map_of_eq_None_iff)
    with that show ?thesis by (simp add: m' map_add_def)
  qed
  show "m' o' = Some c" if "(o', c) \<in> set ?l" for o' c
    using map_of_is_SomeI [OF d that] by (simp add: m' map_add_def)
  show "m o' = Some c \<and> o' \<notin> spent_in [tx] \<or> (o', c) \<in> set ?l" if "m' o' = Some c" for o' c
    using that by (auto simp: m' map_add_def split: option.splits if_splits dest: map_of_SomeD)
qed

lemma connect_txs_ConsD:
  assumes "connect_txs E params h i (tx # txs) (m, undo, fees) = Inr (m', undo', fees')"
  obtains m1 u f where "connect_tx E params h (i = 0) tx (m, undo, fees) = Inr (m1, u, f)"
    "connect_txs E params h (Suc i) txs (m1, u, f) = Inr (m', undo', fees')"
  using assms by (cases "connect_tx E params h (i = 0) tx (m, undo, fees)") auto

text \<open>A coin that is not spent stays, a created coin that is not spent is there, and nothing else is.\<close>

lemma connect_txs_keeps:
  "connect_txs E params h i txs (m, undo, fees) = Inr (m', undo', fees') \<Longrightarrow> m o' = Some c \<Longrightarrow> o' \<notin> spent_in txs \<Longrightarrow>
     m' o' = Some c"
proof (induction txs arbitrary: i m undo fees)
  case (Cons tx txs)
  from Cons.prems(1) obtain m1 u f where c: "connect_tx E params h (i = 0) tx (m, undo, fees) = Inr (m1, u, f)"
    "connect_txs E params h (Suc i) txs (m1, u, f) = Inr (m', undo', fees')" by (rule connect_txs_ConsD)
  have n: "o' \<notin> spent_in [tx]" "o' \<notin> spent_in txs" using Cons.prems(3) spent_in_Cons [of tx txs] by blast+
  show ?case by (rule Cons.IH [OF c(2) connect_tx_map(2) [OF c(1) Cons.prems(2) n(1)] n(2)])
qed simp

lemma connect_txs_creates:
  "connect_txs E params h i txs (m, undo, fees) = Inr (m', undo', fees') \<Longrightarrow> tx \<in> set txs \<Longrightarrow>
     (o', c) \<in> set (created_coins (Txid E tx) h (IsCoinbase tx) 0 (tx_outputs tx)) \<Longrightarrow> o' \<notin> spent_in txs \<Longrightarrow> m' o' = Some c"
proof (induction txs arbitrary: i m undo fees)
  case (Cons t txs)
  from Cons.prems(1) obtain m1 u f where c: "connect_tx E params h (i = 0) t (m, undo, fees) = Inr (m1, u, f)"
    "connect_txs E params h (Suc i) txs (m1, u, f) = Inr (m', undo', fees')" by (rule connect_txs_ConsD)
  have n: "o' \<notin> spent_in txs" using Cons.prems(4) spent_in_Cons [of t txs] by blast
  show ?case
  proof (cases "tx = t")
    case True
    have "m1 o' = Some c" using connect_tx_map(1,3) [OF c(1)] Cons.prems(3) True by simp
    then show ?thesis by (rule connect_txs_keeps [OF c(2) _ n])
  next
    case False
    with Cons.prems(2) have "tx \<in> set txs" by simp
    from Cons.IH [OF c(2) this Cons.prems(3) n] show ?thesis .
  qed
qed simp

lemma connect_txs_only:
  "connect_txs E params h i txs (m, undo, fees) = Inr (m', undo', fees') \<Longrightarrow> m' o' = Some c \<Longrightarrow>
     m o' = Some c \<or> (\<exists>tx \<in> set txs. (o', c) \<in> set (created_coins (Txid E tx) h (IsCoinbase tx) 0 (tx_outputs tx)))"
proof (induction txs arbitrary: i m undo fees)
  case (Cons tx txs)
  from Cons.prems(1) obtain m1 u f where c: "connect_tx E params h (i = 0) tx (m, undo, fees) = Inr (m1, u, f)"
    "connect_txs E params h (Suc i) txs (m1, u, f) = Inr (m', undo', fees')" by (rule connect_txs_ConsD)
  from Cons.IH [OF c(2) Cons.prems(2)] show ?case
    using connect_tx_map(4) [OF c(1), of o' c] connect_tx_map(1) [OF c(1)] by auto
qed simp

section \<open>A pool in step with the coins\<close>

text \<open>The coin an input names: a confirmed one, or an output of a transaction in the pool.\<close>

definition pool_coin :: "mempool \<Rightarrow> u32 \<Rightarrow> outpoint \<Rightarrow> coin option" where
  "pool_coin p h o' =
     (case FindByTxid p (op_txid o') of
        None \<Rightarrow> None
      | Some parent \<Rightarrow>
          if unat (op_index o') \<ge> length (tx_outputs (pe_tx parent)) then None
          else Some \<lparr>coin_output = tx_outputs (pe_tx parent) ! unat (op_index o'), coin_height = h, coin_is_coinbase = False\<rparr>)"

lemma pool_coin_Some:
  "pool_coin p h o' = Some c \<longleftrightarrow> (\<exists>v k. mp_by_txid p (op_txid o') = Some v \<and> entry_of p v = Some k \<and>
     unat (op_index o') < length (tx_outputs (pe_tx (int_entry k))) \<and>
     c = created_coin h False (tx_outputs (pe_tx (int_entry k)) ! unat (op_index o')))"
  by (auto simp: pool_coin_def FindByTxid_def Pool_Find_def created_coin_def bind_eq_Some_conv
      split: option.splits if_splits)

definition coin_for :: "mempool \<Rightarrow> utxo \<Rightarrow> u32 \<Rightarrow> outpoint \<Rightarrow> coin option" where
  "coin_for p m h o' = (case m o' of Some c \<Rightarrow> Some c | None \<Rightarrow> pool_coin p h o')"

lemma ResolveInputs_iff:
  "ResolveInputs p tx base h = Some cs \<longleftrightarrow>
     map (coin_for p (view_GetCoin base) h) (outpoints_of (tx_inputs tx)) = map Some cs"
proof -
  have "ResolveInputs_loop p base h ins = Some cs \<longleftrightarrow> map (coin_for p (view_GetCoin base) h) (outpoints_of ins) = map Some cs" for ins cs
  proof (induction ins arbitrary: cs)
    case (Cons i ins)
    show ?case
    proof (cases "coin_for p (view_GetCoin base) h (in_outpoint i)")
      case None
      then have "ResolveInputs_loop p base h (i # ins) = None"
        by (auto simp: coin_for_def pool_coin_def split: option.splits if_splits)
      with None show ?thesis by auto
    next
      case (Some c)
      then have "ResolveInputs_loop p base h (i # ins) = map_option ((#) c) (ResolveInputs_loop p base h ins)"
        by (auto simp: coin_for_def pool_coin_def split: option.splits if_splits)
      with Some Cons.IH show ?thesis by (cases cs) auto
    qed
  qed auto
  then show ?thesis by (simp add: ResolveInputs_def)
qed

definition linked :: "mempool \<Rightarrow> bool" where
  "linked p \<longleftrightarrow> (\<forall>w e o' v. entry_of p w = Some e \<longrightarrow> o' \<in> spends e \<longrightarrow> mp_by_txid p (op_txid o') = Some v \<longrightarrow>
     v \<in> set (int_parents e))"

definition unconfirmed :: "utxo \<Rightarrow> mempool \<Rightarrow> bool" where
  "unconfirmed m p \<longleftrightarrow> (\<forall>w e o'. entry_of p w = Some e \<longrightarrow> op_txid o' = pe_txid (int_entry e) \<longrightarrow> m o' = None)"

definition judged_entry :: "crypto_ext \<Rightarrow> chain_params \<Rightarrow> utxo \<Rightarrow> u32 \<Rightarrow> mempool \<Rightarrow> pool_entry \<Rightarrow> bool" where
  "judged_entry E params m h p e \<longleftrightarrow>
     (\<exists>cs. map (coin_for p m h) (outpoints_of (tx_inputs (pe_tx e))) = map Some cs \<and>
        CheckTransactionInputs E (pe_tx e) cs h params = Inr (pe_fee e))"

definition judged :: "crypto_ext \<Rightarrow> chain_params \<Rightarrow> utxo \<Rightarrow> u32 \<Rightarrow> mempool \<Rightarrow> bool" where
  "judged E params m h p \<longleftrightarrow> (\<forall>w e. entry_of p w = Some e \<longrightarrow> judged_entry E params m h p (int_entry e))"

definition synced :: "crypto_ext \<Rightarrow> chain_params \<Rightarrow> utxo \<Rightarrow> u32 \<Rightarrow> mempool \<Rightarrow> bool" where
  "synced E params m h p \<longleftrightarrow> pool_ok E params p \<and> linked p \<and> unconfirmed m p \<and> judged E params m h p"

lemma syncedD:
  assumes "synced E params m h p"
  shows "pool_ok E params p" "linked p" "unconfirmed m p" "judged E params m h p"
  using assms by (simp_all add: synced_def)

lemma restricts_entry:
  assumes "restricts p W p'" and "entry_of p' w = Some e"
  shows "\<exists>d. entry_of p w = Some d \<and> w \<notin> W \<and> e = drop_links W d \<and> int_entry e = int_entry d"
proof -
  have "entry_of p' w = (if w \<in> W then None else map_option (drop_links W) (entry_of p w))"
    using assms(1) by (simp add: restricts_def)
  with assms(2) show ?thesis by (auto split: if_splits)
qed

lemma linked_restricts:
  assumes "restricts p W p'" and "linked p"
  shows "linked p'"
  unfolding linked_def
proof (intro allI impI)
  fix w e o' v assume a: "entry_of p' w = Some e" "o' \<in> spends e" "mp_by_txid p' (op_txid o') = Some v"
  have v: "mp_by_txid p (op_txid o') = Some v" "v \<notin> W" using a(3) assms(1) by (simp_all add: restricts_def strip_map_Some)
  obtain d where d: "entry_of p w = Some d" "e = drop_links W d"
    using restricts_entry [OF assms(1) a(1)] by blast
  have "v \<in> set (int_parents d)" using assms(2) d(1) a(2) v(1) unfolding linked_def d(2) by auto
  with v(2) show "v \<in> set (int_parents e)" by (simp add: d(2))
qed

lemma unconfirmed_restricts: "restricts p W p' \<Longrightarrow> unconfirmed m p \<Longrightarrow> unconfirmed m p'"
  by (auto simp: restricts_def unconfirmed_def split: if_splits)

text \<open>Coins named by inputs are the same when the transactions they come from stay.\<close>

lemma pool_coin_stays:
  assumes r: "restricts p W p'" and "mp_by_txid p (op_txid o') = None \<or> (\<exists>v. mp_by_txid p (op_txid o') = Some v \<and> v \<notin> W)"
  shows "pool_coin p' h o' = pool_coin p h o'"
proof -
  have b: "mp_by_txid p' (op_txid o') = mp_by_txid p (op_txid o')"
    using assms by (auto simp: restricts_def strip_map_def)
  have "FindByTxid p' (op_txid o') = FindByTxid p (op_txid o')"
  proof (cases "mp_by_txid p (op_txid o')")
    case None
    then show ?thesis by (simp add: FindByTxid_def b)
  next
    case (Some v)
    then have "v \<notin> W" using assms(2) by simp
    then have "entry_of p' v = map_option (drop_links W) (entry_of p v)" using r by (simp add: restricts_def)
    then show ?thesis by (simp add: FindByTxid_def b Some Pool_Find_def option.map_comp comp_def)
  qed
  then show ?thesis by (simp add: pool_coin_def)
qed

lemma judged_prunes:
  assumes ok: "pool_ok E params p" and l: "linked p" and j: "judged_entry E params m h p (int_entry e)"
    and pr: "restricts p W p'" "child_rel p `` W \<subseteq> W" and e: "entry_of p w = Some e" "w \<notin> W"
  shows "judged_entry E params m h p' (int_entry e)"
proof -
  have "coin_for p' m h o' = coin_for p m h o'" if o': "o' \<in> spends e" for o'
  proof -
    have "v \<notin> W" if v: "mp_by_txid p (op_txid o') = Some v" for v
    proof
      assume "v \<in> W"
      have "v \<in> set (int_parents e)" using l e(1) o' v unfolding linked_def by blast
      then have "(w, v) \<in> parent_rel p" using e(1) by (auto simp: parent_rel_def)
      then have "(v, w) \<in> child_rel p" using pool_okD(2) [OF ok] by (simp add: links_ok_def)
      with \<open>v \<in> W\<close> pr(2) e(2) show False by blast
    qed
    then have "pool_coin p' h o' = pool_coin p h o'"
      by (intro pool_coin_stays [OF pr(1)]) (cases "mp_by_txid p (op_txid o')"; auto)
    then show ?thesis by (cases "m o'") (simp_all add: coin_for_def)
  qed
  then have q: "map (coin_for p' m h) (outpoints_of (tx_inputs (pe_tx (int_entry e)))) =
      map (coin_for p m h) (outpoints_of (tx_inputs (pe_tx (int_entry e))))"
    by (intro map_cong) auto
  show ?thesis using j unfolding judged_entry_def q .
qed

lemma synced_prunes:
  assumes "synced E params m h p" and "prunes p p'" and "pool_ok E params p'"
  shows "synced E params m h p'"
proof -
  note s = syncedD [OF assms(1)]
  obtain W where W: "restricts p W p'" "child_rel p `` W \<subseteq> W" using assms(2) by (auto simp: prunes_def)
  have "judged_entry E params m h p' (int_entry e)" if "entry_of p' w = Some e" for w e
  proof -
    from restricts_entry [OF W(1) that] obtain d
      where d: "entry_of p w = Some d" "w \<notin> W" "int_entry e = int_entry d" by blast
    from s(4) d(1) have "judged_entry E params m h p (int_entry d)" by (simp add: judged_def)
    from judged_prunes [OF s(1,2) this W d(1,2)] show ?thesis by (simp add: d(3))
  qed
  then show ?thesis
    using assms(3) s linked_restricts [OF W(1)] unconfirmed_restricts [OF W(1)]
    by (simp add: synced_def judged_def)
qed

section \<open>Connecting what the pool selects\<close>

lemma outputs_within_weight: "length (tx_outputs tx) \<le> Transaction_Weight tx"
proof -
  have "length (TxOutput_Serialize x []) = 8 + length (Lock_Serialize (out_lock x) [])" for x
    by (simp only: TxOutput_Serialize_def writes_seq length_fcomp [OF lock.ser_append] length_ints)
  then have out: "1 \<le> length (TxOutput_Serialize x [])" for x by simp
  have "length xs \<le> (\<Sum>x \<leftarrow> xs. length (TxOutput_Serialize x []))" for xs
    by (induction xs) (use add_mono [OF out] in \<open>simp_all\<close>)
  from this [of "tx_outputs tx"] have "length (tx_outputs tx) \<le> length (WriteVec TxOutput_Serialize (tx_outputs tx) [])"
    by (simp add: length_WriteVec [OF txout.ser_append])
  moreover have "length (WriteVec TxOutput_Serialize (tx_outputs tx) []) \<le> length (SerializeWithoutWitnesses tx [])"
    by (simp only: SerializeWithoutWitnesses_def writes_seq length_fcomp [OF u32.ser_append]
        length_fcomp [OF codec.ser_append [OF outputs_codec]] le_add2 trans_le_add1)
  ultimately show ?thesis using Transaction_Weight_parts [of tx] by linarith
qed

lemma accepted_stored:
  assumes "CheckTransactionInputs E tx cs h params = Inr fee" and "c \<in> set cs"
  shows "IsStored (coin_output c)"
proof -
  from assms(2) obtain i where i: "i < length cs" "c = cs ! i" by (auto simp: in_set_conv_nth)
  from assms(1) have "length cs = length (tx_inputs tx)"
    "CheckInputAuthorisation E tx (ComputeSigHashMidstates E tx) cs params i = Accept"
    using i by (auto simp: CheckTransactionInputs_Inr CheckSpendAuthorisation_def TransactionFee_Inr check_all_Inr
        Let_def split: if_splits)
  then show ?thesis by (auto simp: CheckInputAuthorisation_def Let_def IsStored_def i split: if_splits)
qed

lemma parents_first_entry:
  "parents_first p seen es \<Longrightarrow> x \<in> set es \<Longrightarrow> \<exists>i. entry_of p (pe_wtxid x) = Some i \<and> int_entry i = x"
  by (induction es arbitrary: seen) (auto split: option.splits)

lemma spent_in_pool:
  assumes ok: "pool_ok E params p" and "parents_first p {} (pre @ [e])" and o': "o' \<in> set (outpoints_of (tx_inputs (pe_tx e)))"
  shows "o' \<notin> spent_in (map pe_tx pre)"
proof
  assume "o' \<in> spent_in (map pe_tx pre)"
  then obtain x where x: "x \<in> set pre" "o' \<in> set (outpoints_of (tx_inputs (pe_tx x)))" by (auto simp: spent_in_def)
  have "parents_first p {} pre" and new: "pe_wtxid e \<notin> pe_wtxid ` set pre"
    using assms(2) by (auto simp: parents_first_append split: option.splits)
  with x(1) parents_first_entry obtain i where i: "entry_of p (pe_wtxid x) = Some i" "int_entry i = x" by blast
  obtain j where j: "entry_of p (pe_wtxid e) = Some j" "int_entry j = e"
    using parents_first_entry [OF assms(2), of e] by auto
  have "mp_spent_by p o' = Some (pe_wtxid x)" "mp_spent_by p o' = Some (pe_wtxid e)"
    using pool_okD(3) [OF ok] x(2) o' i j unfolding indices_ok_def by blast+
  with x(1) new show False by (metis image_eqI option.inject)
qed

text \<open>
  When the entries before it in the selection have been connected, every input of the next entry
  finds the coin the pool judged it by: a confirmed coin, or the output of a parent just connected.
\<close>

lemma selected_coins:
  assumes ok: "pool_ok E params p" and l: "linked p" and sel: "parents_first p {} (pre @ [e])"
    and con: "connect_txs E params h 1 (map pe_tx pre) (m, undo0, fees0) = Inr (mD, undo, fD)"
    and cs: "map (coin_for p m h) (outpoints_of (tx_inputs (pe_tx e))) = map Some cs"
    and stored: "\<And>c. c \<in> set cs \<Longrightarrow> IsStored (coin_output c)"
  shows "map mD (outpoints_of (tx_inputs (pe_tx e))) = map Some cs"
proof -
  have pre: "parents_first p {} pre" using sel by (simp add: parents_first_append)
  obtain i where i: "entry_of p (pe_wtxid e) = Some i" "int_entry i = e" "set (int_parents i) \<subseteq> pe_wtxid ` set pre"
    using sel by (auto simp: parents_first_append split: option.splits)
  have "mD o' = coin_for p m h o'" if o': "o' \<in> set (outpoints_of (tx_inputs (pe_tx e)))" for o'
  proof -
    have "coin_for p m h o' \<in> set (map Some cs)" unfolding cs [symmetric] using o' unfolding set_map by (rule imageI)
    then obtain c where c: "coin_for p m h o' = Some c" "c \<in> set cs" by auto
    note fresh = spent_in_pool [OF ok sel o']
    show ?thesis
    proof (cases "m o'")
      case (Some d)
      then show ?thesis using connect_txs_keeps [OF con Some fresh] by (simp add: coin_for_def)
    next
      case None
      then have "pool_coin p h o' = Some c" using c(1) by (simp add: coin_for_def)
      then obtain v k where v: "mp_by_txid p (op_txid o') = Some v" "entry_of p v = Some k"
          "unat (op_index o') < length (tx_outputs (pe_tx (int_entry k)))"
          "c = created_coin h False (tx_outputs (pe_tx (int_entry k)) ! unat (op_index o'))"
        by (auto simp: pool_coin_Some)
      have "v \<in> set (int_parents i)" using l i(1,2) o' v(1) unfolding linked_def by blast
      with i(3) obtain x where x: "x \<in> set pre" "v = pe_wtxid x" by blast
      with parents_first_entry [OF pre x(1)] v(2) have k: "int_entry k = x" by auto
      have e: "entry_ok E params v (int_entry k)" by (rule pool_okD(6) [OF ok v(2)])
      have t: "op_txid o' = Txid E (pe_tx x)"
        using pool_okD(3) [OF ok] v(1,2) e unfolding indices_ok_def by (auto simp: entry_ok_def k)
      have "(OutPointFor (op_txid o') (0 + unat (op_index o')), c) \<in>
          set (created_coins (op_txid o') h False 0 (tx_outputs (pe_tx x)))"
        using stored [OF c(2)] v(3) unfolding v(4) k by (intro created_coins_nth) (simp_all add: created_coin_def)
      moreover have "OutPointFor (op_txid o') (0 + unat (op_index o')) = o'" by (simp add: OutPointFor_def)
      moreover have "\<not> IsCoinbase (pe_tx x)" using e by (simp add: entry_ok_def k)
      ultimately have "(o', c) \<in> set (created_coins (Txid E (pe_tx x)) h (IsCoinbase (pe_tx x)) 0 (tx_outputs (pe_tx x)))"
        by (simp add: t)
      from connect_txs_creates [OF con _ this fresh] x(1) c(1) show ?thesis by simp
    qed
  qed
  then have "map mD (outpoints_of (tx_inputs (pe_tx e))) = map (coin_for p m h) (outpoints_of (tx_inputs (pe_tx e)))"
    by (intro map_cong) auto
  with cs show ?thesis by (simp only:)
qed

lemma selected_fresh:
  assumes ok: "pool_ok E params p" and un: "unconfirmed m p" and sel: "parents_first p {} (pre @ [e])"
    and con: "connect_txs E params h 1 (map pe_tx pre) (m, undo0, fees0) = Inr (mD, undo, fD)"
    and o': "op_txid o' = Txid E (pe_tx e)"
  shows "mD o' = None"
proof (rule ccontr)
  assume "mD o' \<noteq> None"
  then obtain c where c: "mD o' = Some c" by blast
  have pre: "parents_first p {} pre" and new: "pe_wtxid e \<notin> pe_wtxid ` set pre"
    using sel by (auto simp: parents_first_append split: option.splits)
  obtain i where i: "entry_of p (pe_wtxid e) = Some i" "int_entry i = e"
    using parents_first_entry [OF sel, of e] by auto
  have t: "pe_txid e = Txid E (pe_tx e)" using pool_okD(6) [OF ok i(1)] i(2) by (simp add: entry_ok_def)
  have "m o' = None" using un i o' t unfolding unconfirmed_def by metis
  with connect_txs_only [OF con c] obtain x
    where x: "x \<in> set pre" "(o', c) \<in> set (created_coins (Txid E (pe_tx x)) h (IsCoinbase (pe_tx x)) 0 (tx_outputs (pe_tx x)))"
    by auto
  from parents_first_entry [OF pre x(1)] obtain j where j: "entry_of p (pe_wtxid x) = Some j" "int_entry j = x" by blast
  have "pe_txid x = Txid E (pe_tx x)" using pool_okD(6) [OF ok j(1)] j(2) by (simp add: entry_ok_def)
  then have "pe_txid x = pe_txid e" using created_coins_txid [OF x(2)] o' t by simp
  then have "mp_by_txid p (pe_txid e) = Some (pe_wtxid x)" "mp_by_txid p (pe_txid e) = Some (pe_wtxid e)"
    using pool_okD(3) [OF ok] i j unfolding indices_ok_def by blast+
  with x(1) new show False by (metis image_eqI option.inject)
qed

text \<open>So the next entry connects, if the fees stay in range.\<close>

definition pool_tx_result :: "crypto_ext \<Rightarrow> u32 \<Rightarrow> transaction \<Rightarrow> utxo \<Rightarrow> utxo" where
  "pool_tx_result E h tx m = without (outpoints_of (tx_inputs tx)) m ++ map_of (created_coins (Txid E tx) h False 0 (tx_outputs tx))"

lemma selected_connects:
  assumes ok: "pool_ok E params p" and l: "linked p" and un: "unconfirmed m p" and j: "judged E params m h p"
    and sel: "parents_first p {} (pre @ [e])"
    and con: "connect_txs E params h 1 (map pe_tx pre) (m, undo0, fees0) = Inr (mD, undo, fD)"
  obtains cs where "map mD (outpoints_of (tx_inputs (pe_tx e))) = map Some cs"
    "CheckTransactionInputs E (pe_tx e) cs h params = Inr (pe_fee e)" "0 \<le> pe_fee e" "distinct (outpoints_of (tx_inputs (pe_tx e)))"
    "distinct (map fst (created_coins (Txid E (pe_tx e)) h False 0 (tx_outputs (pe_tx e))))"
    "\<forall>o' \<in> set (map fst (created_coins (Txid E (pe_tx e)) h False 0 (tx_outputs (pe_tx e)))).
       without (outpoints_of (tx_inputs (pe_tx e))) mD o' = None"
    "IsValidAmount (fD + pe_fee e) \<Longrightarrow> connect_tx E params h False (pe_tx e) (mD, undo, fD) =
       Inr (pool_tx_result E h (pe_tx e) mD, undo @ [\<lparr>undo_spent = cs\<rparr>], fD + pe_fee e)"
proof -
  let ?tx = "pe_tx e" and ?l = "created_coins (Txid E (pe_tx e)) h False 0 (tx_outputs (pe_tx e))"
  obtain i where i: "entry_of p (pe_wtxid e) = Some i" "int_entry i = e"
    using parents_first_entry [OF sel, of e] by auto
  have e: "entry_ok E params (pe_wtxid e) e" using pool_okD(6) [OF ok i(1)] i(2) by simp
  then have tx: "tx_ok params ?tx" "\<not> IsCoinbase ?tx" "Transaction_Weight ?tx \<le> MAX_MEMPOOL_WEIGHT" "0 \<le> pe_fee e"
    by (simp_all add: entry_ok_def)
  have "judged_entry E params m h p e" using j i unfolding judged_def by blast
  then obtain cs where cs: "map (coin_for p m h) (outpoints_of (tx_inputs ?tx)) = map Some cs"
    "CheckTransactionInputs E ?tx cs h params = Inr (pe_fee e)" unfolding judged_entry_def by blast
  have coins: "map mD (outpoints_of (tx_inputs ?tx)) = map Some cs"
    by (rule selected_coins [OF ok l sel con cs(1)]) (rule accepted_stored [OF cs(2)])
  have di: "distinct (outpoints_of (tx_inputs ?tx))" using tx(1,2) by (simp add: tx_ok_def)
  have "length (tx_outputs ?tx) \<le> 2 ^ 32"
    using outputs_within_weight [of ?tx] tx(3) by (simp add: MAX_MEMPOOL_WEIGHT_def)
  then have dl: "distinct (map fst ?l)" by (intro created_coins_distinct) simp
  have fresh: "\<forall>o' \<in> set (map fst ?l). without (outpoints_of (tx_inputs ?tx)) mD o' = None"
    using selected_fresh [OF ok un sel con] created_coins_txid by (fastforce simp: without_def)
  have "connect_tx E params h False ?tx (mD, undo, fD) =
      Inr (pool_tx_result E h ?tx mD, undo @ [\<lparr>undo_spent = cs\<rparr>], fD + pe_fee e)" if "IsValidAmount (fD + pe_fee e)"
    unfolding connect_spend_iff pool_tx_result_def using tx(2) di coins cs(2) that dl fresh by blast
  from that [OF coins cs(2) tx(4) di dl fresh this] show thesis .
qed

lemma connect_snoc:
  assumes "connect_txs E params h 1 xs (m, undo0, fees0) = Inr (m1, undo1, f1)"
    and "connect_tx E params h False x (m1, undo1, f1) = Inr s"
  shows "connect_txs E params h 1 (xs @ [x]) (m, undo0, fees0) = Inr s"
  using assms by (simp add: connect_txs_append)

abbreviation fees_of :: "pool_entry list \<Rightarrow> int" where
  "fees_of es \<equiv> (\<Sum>e \<leftarrow> es. pe_fee e)"

text \<open>The whole selection connects, when its fees are within the monetary bound.\<close>

lemma selection_connects:
  assumes ok: "pool_ok E params p" and l: "linked p" and un: "unconfirmed m p" and j: "judged E params m h p"
    and "parents_first p {} es" and "fees_of es \<le> MAX_MONEY"
  shows "\<exists>m' undo. connect_txs E params h 1 (map pe_tx es) (m, undo0, 0) = Inr (m', undo, fees_of es) \<and> 0 \<le> fees_of es"
  using assms(5,6)
proof (induction es rule: rev_induct)
  case (snoc e es)
  obtain i where i: "entry_of p (pe_wtxid e) = Some i" "int_entry i = e"
    using parents_first_entry [OF snoc.prems(1), of e] by auto
  have nn: "0 \<le> pe_fee e" using pool_okD(6) [OF ok i(1)] i(2) by (simp add: entry_ok_def)
  have "parents_first p {} es" "fees_of es \<le> MAX_MONEY" using snoc.prems nn by (simp_all add: parents_first_append)
  from snoc.IH [OF this] obtain m1 undo1 where
    c: "connect_txs E params h 1 (map pe_tx es) (m, undo0, 0) = Inr (m1, undo1, fees_of es)" "0 \<le> fees_of es" by blast
  have v: "IsValidAmount (fees_of es + pe_fee e)" using c(2) nn snoc.prems(2) by (simp add: IsValidAmount_def)
  obtain u where "connect_tx E params h False (pe_tx e) (m1, undo1, fees_of es) =
      Inr (pool_tx_result E h (pe_tx e) m1, u, fees_of es + pe_fee e)"
    using v by (cases rule: selected_connects [OF ok l un j snoc.prems(1) c(1)]) blast
  from connect_snoc [OF c(1) this] c(2) nn show ?case by simp
qed simp

text \<open>Its fees are paid out of confirmed coins, so they are at most the value of those.\<close>

definition coins_valid :: "utxo \<Rightarrow> bool" where
  "coins_valid m \<longleftrightarrow> finite (dom m) \<and> (\<forall>o' c. m o' = Some c \<longrightarrow> 0 \<le> coin_value c)"

lemma coins_valid_nonneg: "coins_valid m \<Longrightarrow> 0 \<le> utxo_value m"
  unfolding utxo_value_def by (rule sum_nonneg) (auto simp: coins_valid_def)

lemma pool_tx_result_value:
  assumes "coins_valid m" and "distinct (outpoints_of (tx_inputs tx))" and "map m (outpoints_of (tx_inputs tx)) = map Some cs"
    and "CheckTransactionInputs E tx cs h params = Inr fee"
    and "distinct (map fst (created_coins (Txid E tx) h False 0 (tx_outputs tx)))"
    and "\<forall>o' \<in> set (map fst (created_coins (Txid E tx) h False 0 (tx_outputs tx))). without (outpoints_of (tx_inputs tx)) m o' = None"
  shows "coins_valid (pool_tx_result E h tx m) \<and> utxo_value (pool_tx_result E h tx m) + fee \<le> utxo_value m"
proof -
  let ?l = "created_coins (Txid E tx) h False 0 (tx_outputs tx)" and ?m = "without (outpoints_of (tx_inputs tx)) m"
  have fin: "finite (dom m)" using assms(1) by (simp add: coins_valid_def)
  have m: "finite (dom ?m)" by (rule finite_without [OF fin])
  have pos: "\<forall>out \<in> set (tx_outputs tx). 0 \<le> out_amount out"
    and f: "(\<Sum>c \<leftarrow> cs. coin_value c) = (\<Sum>out \<leftarrow> tx_outputs tx. out_amount out) + fee"
    using assms(4) by (auto simp: CheckTransactionInputs_Inr TransactionFee_Inr IsValidAmount_nonneg)
  have l: "0 \<le> coin_value c" if "(o', c) \<in> set (created_coins t h cb i outs)" "\<forall>out \<in> set outs. 0 \<le> out_amount out" for o' c t cb i outs
    using that by (induction outs arbitrary: i) (auto simp: created_coin_def split: if_splits)
  have "0 \<le> coin_value c" if "pool_tx_result E h tx m o' = Some c" for o' c
    using that assms(1) l [OF _ pos] 
    by (auto simp: pool_tx_result_def map_add_def without_def coins_valid_def split: option.splits if_splits dest: map_of_SomeD)
  moreover have "finite (dom (pool_tx_result E h tx m))" using m by (simp add: pool_tx_result_def finite_dom_map_of)
  moreover have "utxo_value (pool_tx_result E h tx m) = utxo_value m - (\<Sum>c \<leftarrow> cs. coin_value c) + (\<Sum>(o', c) \<leftarrow> ?l. coin_value c)"
    unfolding pool_tx_result_def utxo_value_added [OF m assms(5,6)] utxo_value_without [OF fin assms(2,3)] ..
  ultimately show ?thesis using f created_value [OF pos, of "Txid E tx" h False 0] by (simp add: coins_valid_def)
qed

lemma selection_fees_bounded:
  assumes ok: "pool_ok E params p" and l: "linked p" and un: "unconfirmed m p" and j: "judged E params m h p"
    and v: "coins_valid m" "utxo_value m \<le> MAX_MONEY" and "parents_first p {} es"
  shows "\<exists>m' undo. connect_txs E params h 1 (map pe_tx es) (m, [], 0) = Inr (m', undo, fees_of es) \<and> 0 \<le> fees_of es \<and>
    coins_valid m' \<and> utxo_value m' + fees_of es \<le> utxo_value m"
  using assms(7)
proof (induction es rule: rev_induct)
  case (snoc e es)
  have "parents_first p {} es" using snoc.prems by (simp add: parents_first_append)
  from snoc.IH [OF this] obtain m1 undo1 where
    c: "connect_txs E params h 1 (map pe_tx es) (m, [], 0) = Inr (m1, undo1, fees_of es)" "0 \<le> fees_of es"
      "coins_valid m1" "utxo_value m1 + fees_of es \<le> utxo_value m" by blast
  show ?case
  proof (cases rule: selected_connects [OF ok l un j snoc.prems c(1)])
    case (1 cs)
    note r = pool_tx_result_value [OF c(3) 1(4,1,2,5,6)]
    have "fees_of es + pe_fee e \<le> MAX_MONEY"
      using r c(4) v(2) coins_valid_nonneg [of "pool_tx_result E h (pe_tx e) m1"] by linarith
    then have "IsValidAmount (fees_of es + pe_fee e)" using c(2) 1(3) by (simp add: IsValidAmount_def)
    from connect_snoc [OF c(1) 1(7) [OF this]] c(2,4) 1(3) r show ?thesis by simp
  qed
qed (use v in simp)

section \<open>Accepting keeps the pool in step\<close>

lemma judged_entryD:
  assumes "judged_entry E params m h p e" and "o' \<in> set (outpoints_of (tx_inputs (pe_tx e)))"
  shows "\<exists>c. coin_for p m h o' = Some c \<and> IsStored (coin_output c)"
proof -
  from assms(1) obtain cs where cs: "map (coin_for p m h) (outpoints_of (tx_inputs (pe_tx e))) = map Some cs"
    "CheckTransactionInputs E (pe_tx e) cs h params = Inr (pe_fee e)" by (auto simp: judged_entry_def)
  have "coin_for p m h o' \<in> set (map Some cs)" unfolding cs(1) [symmetric] using assms(2) unfolding set_map by (rule imageI)
  then show ?thesis using accepted_stored [OF cs(2)] by auto
qed

lemma judged_entry_cong:
  assumes "judged_entry E params m h p e"
    and "\<And>o'. o' \<in> set (outpoints_of (tx_inputs (pe_tx e))) \<Longrightarrow> coin_for p' m' h o' = coin_for p m h o'"
  shows "judged_entry E params m' h p' e"
proof -
  have q: "map (coin_for p' m' h) (outpoints_of (tx_inputs (pe_tx e))) = map (coin_for p m h) (outpoints_of (tx_inputs (pe_tx e)))"
    using assms(2) by (intro map_cong) auto
  show ?thesis using assms(1) unfolding judged_entry_def q .
qed

lemma insert_entry_txids: "mp_by_txid (insert_entry entry parents q) t = (if t = pe_txid entry then Some (pe_wtxid entry) else mp_by_txid q t)"
  by (simp add: insert_entry_def Let_def)

lemma insert_entry_int:
  assumes "insertable q entry parents" and "x \<noteq> pe_wtxid entry"
  shows "map_option int_entry (entry_of (insert_entry entry parents q) x) = map_option int_entry (entry_of q x)"
    and "map_option int_parents (entry_of (insert_entry entry parents q) x) = map_option int_parents (entry_of q x)"
  unfolding insert_entry_entry [OF assms(1)] using assms(2) by (auto simp: option.map_comp comp_def)

lemma insert_coin_for:
  assumes ok: "pool_ok E params q" and ins: "insertable q entry parents" and "op_txid o' \<noteq> pe_txid entry"
  shows "coin_for (insert_entry entry parents q) m h o' = coin_for q m h o'"
proof -
  have "FindByTxid (insert_entry entry parents q) (op_txid o') = FindByTxid q (op_txid o')"
  proof (cases "mp_by_txid q (op_txid o')")
    case None
    then show ?thesis by (simp add: FindByTxid_def insert_entry_txids assms(3))
  next
    case (Some v)
    then have "entry_of q v \<noteq> None" using pool_okD(3) [OF ok] unfolding indices_ok_def by fastforce
    then have "v \<noteq> pe_wtxid entry" using ins by (auto simp: insertable_def)
    with insert_entry_int(1) [OF ins this] Some show ?thesis
      by (simp add: FindByTxid_def insert_entry_txids assms(3) Pool_Find_def)
  qed
  then show ?thesis by (cases "m o'") (simp_all add: coin_for_def pool_coin_def)
qed

lemma own_output_unknown:
  assumes "insertable q entry parents" and "\<And>o'. op_txid o' = pe_txid entry \<Longrightarrow> m o' = None"
    and "judged_entry E params m h q e" and "o' \<in> set (outpoints_of (tx_inputs (pe_tx e)))"
  shows "op_txid o' \<noteq> pe_txid entry"
proof
  assume t: "op_txid o' = pe_txid entry"
  have "coin_for q m h o' = None"
    using assms(1) assms(2) [OF t] t by (simp add: coin_for_def pool_coin_def FindByTxid_def insertable_def)
  with judged_entryD [OF assms(3,4)] show False by simp
qed

lemma insert_synced:
  assumes s: "synced E params m h q" and ins: "insertable q entry parents"
    and par: "\<And>o' v. o' \<in> set (outpoints_of (tx_inputs (pe_tx entry))) \<Longrightarrow> mp_by_txid q (op_txid o') = Some v \<Longrightarrow> v \<in> set parents"
    and fresh: "\<And>o'. op_txid o' = pe_txid entry \<Longrightarrow> m o' = None"
    and j: "judged_entry E params m h q entry" and ok: "pool_ok E params (insert_entry entry parents q)"
  shows "synced E params m h (insert_entry entry parents q)"
proof -
  let ?p = "insert_entry entry parents q"
  note d = syncedD [OF s]
  have old: "\<exists>f. entry_of q w = Some f \<and> int_entry e = int_entry f \<and> int_parents e = int_parents f"
    if "entry_of ?p w = Some e" "w \<noteq> pe_wtxid entry" for w e
    using insert_entry_int [OF ins that(2)] that(1) by (cases "entry_of q w") auto
  have new: "e = \<lparr>int_entry = entry, int_children = [], int_parents = parents\<rparr>" if "entry_of ?p (pe_wtxid entry) = Some e" for e
    using that unfolding insert_entry_entry [OF ins] by simp
  have je: "judged_entry E params m h q (int_entry e)" if "entry_of ?p w = Some e" for w e
    using that old new j d(4) unfolding judged_def by (cases "w = pe_wtxid entry") fastforce+
  have "judged_entry E params m h ?p (int_entry e)" if e: "entry_of ?p w = Some e" for w e
    by (rule judged_entry_cong [OF je [OF e]])
      (rule insert_coin_for [OF d(1) ins own_output_unknown [OF ins fresh je [OF e]]])
  moreover have "linked ?p" unfolding linked_def
  proof (intro allI impI)
    fix w e o' v assume a: "entry_of ?p w = Some e" "o' \<in> spends e" "mp_by_txid ?p (op_txid o') = Some v"
    have "op_txid o' \<noteq> pe_txid entry" by (rule own_output_unknown [OF ins fresh je [OF a(1)] a(2)])
    then have v: "mp_by_txid q (op_txid o') = Some v" using a(3) by (simp add: insert_entry_txids)
    show "v \<in> set (int_parents e)"
    proof (cases "w = pe_wtxid entry")
      case True
      with new a(1,2) par v show ?thesis by simp
    next
      case False
      from old [OF a(1) this] obtain f where f: "entry_of q w = Some f" "int_entry e = int_entry f" "int_parents e = int_parents f" by blast
      with d(2) a(2) v show ?thesis unfolding linked_def by metis
    qed
  qed
  moreover have "unconfirmed m ?p" unfolding unconfirmed_def
  proof (intro allI impI)
    fix w e and o' :: outpoint assume a: "entry_of ?p w = Some e" "op_txid o' = pe_txid (int_entry e)"
    show "m o' = None"
    proof (cases "w = pe_wtxid entry")
      case True
      with new a fresh show ?thesis by simp
    next
      case False
      from old [OF a(1) this] a(2) d(3) show ?thesis unfolding unconfirmed_def by metis
    qed
  qed
  ultimately show ?thesis using ok by (simp add: synced_def judged_def)
qed

lemma doomed_by_closed:
  assumes ok: "pool_ok E params p"
  shows "child_rel p `` set (doomed_by p tx) \<subseteq> set (doomed_by p tx)"
proof
  fix c assume "c \<in> child_rel p `` set (doomed_by p tx)"
  then obtain d w where w: "(d, c) \<in> child_rel p" "w \<in> set (DirectConflicts p tx)" "d \<in> set (DescendantsOf p w)"
    by (auto simp: doomed_by_set)
  have k: "entry_of p w \<noteq> None" using w(2) pool_okD(3) [OF ok] unfolding DirectConflicts_set indices_ok_def by fastforce
  have "c \<in> set (DescendantsOf p w)" using w(1,3) unfolding DescendantsOf_set [OF k] by (auto intro: rtrancl_into_rtrancl)
  with w(2) show "c \<in> set (doomed_by p tx)" by (auto simp: doomed_by_set)
qed

text \<open>
  An arrival judged by the coins keeps the pool in step with them, if no unspent coin has its txid:
  that would be a second transaction with the same identifier.
\<close>

lemma AcceptTx_synced:
  assumes s: "synced E params m h p" and w: "pool_weight p \<le> MAX_MEMPOOL_WEIGHT" and clash: "no_clash E tx p"
    and fresh: "\<And>o'. op_txid o' = Txid E tx \<Longrightarrow> m o' = None" and base: "view_GetCoin base = m"
    and acc: "AcceptTx E tx base h now params p = (r, p')"
  shows "synced E params m h p'"
proof (cases "p' = p")
  case False
  then obtain cs where cs: "ResolveInputs p tx base h = Some cs" "AcceptCoins E tx cs h now params p = (r, p')"
    using acc by (auto simp: AcceptTx_def split: if_splits sum.splits option.splits)
  note d = syncedD [OF s]
  from d(1) w clash cs(2) show ?thesis
  proof (cases rule: AcceptCoins_enters)
    case (refused e)
    with False show ?thesis by simp
  next
    case (entered fee q p1)
    let ?e = "new_pool_entry E tx fee now" and ?D = "set (doomed_by p tx)"
    have f: "pe_tx ?e = tx" "pe_txid ?e = Txid E tx" "pe_fee ?e = fee" by (simp_all add: new_pool_entry_def)
    have sq: "synced E params m h q"
      by (rule synced_prunes [OF s _ entered(10)]) (use entered(9) doomed_by_closed [OF d(1)] in \<open>auto simp: prunes_def\<close>)
    have stay: "pool_coin q h o' = pool_coin p h o'" if o': "o' \<in> set (outpoints_of (tx_inputs tx))" for o'
    proof (rule pool_coin_stays [OF entered(9)], cases "mp_by_txid p (op_txid o')")
      case (Some v)
      then have "v \<in> set (pool_parents p tx)" using o' unfolding pool_parents_set by blast
      then have "entry_of q v \<noteq> None" using entered(11) by (simp add: insertable_def)
      then have "v \<notin> ?D" using entered(9) by (auto simp: restricts_def)
      with Some show "mp_by_txid p (op_txid o') = None \<or> (\<exists>v. mp_by_txid p (op_txid o') = Some v \<and> v \<notin> ?D)" by simp
    qed simp
    have "coin_for q m h o' = coin_for p m h o'" if "o' \<in> set (outpoints_of (tx_inputs tx))" for o'
      using stay [OF that] by (cases "m o'") (simp_all add: coin_for_def)
    then have m: "map (coin_for q m h) (outpoints_of (tx_inputs tx)) = map (coin_for p m h) (outpoints_of (tx_inputs tx))"
      by (intro map_cong) auto
    have "judged_entry E params m h q ?e"
      unfolding judged_entry_def f m using cs(1) entered(4) unfolding ResolveInputs_iff base by blast
    moreover have "v \<in> set (pool_parents p tx)"
      if "o' \<in> set (outpoints_of (tx_inputs (pe_tx ?e)))" "mp_by_txid q (op_txid o') = Some v" for o' v
    proof -
      have "mp_by_txid p (op_txid o') = Some v" using that(2) entered(9) by (simp add: restricts_def strip_map_Some)
      with that(1) show ?thesis unfolding pool_parents_set f by blast
    qed
    ultimately have "synced E params m h p1"
      unfolding entered(12) using fresh entered(13) by (intro insert_synced [OF sq entered(11)]) (simp_all add: f entered(12))
    from synced_prunes [OF this entered(14,15)] show ?thesis .
  qed
qed (use s in simp)

section \<open>The chain moves\<close>

text \<open>A coin that may take another's place in an accepted spend.\<close>

definition alike :: "coin \<Rightarrow> coin \<Rightarrow> bool" where
  "alike c d \<longleftrightarrow> coin_output d = coin_output c \<and> (coin_is_coinbase d \<longrightarrow> d = c)"

lemma alike_refl: "alike c c"
  by (simp add: alike_def)

lemma CheckTransactionInputs_alike:
  assumes "CheckTransactionInputs E tx cs h params = Inr fee" and "tx_ok params tx" and a: "list_all2 alike cs ds"
    and "unat h \<le> unat h'"
  shows "CheckTransactionInputs E tx ds h' params = Inr fee"
proof -
  have t: "CheckTransaction tx params = Accept" using assms(2) by (simp add: CheckTransaction_Accept)
  have o: "map coin_output ds = map coin_output cs" and len: "length ds = length cs"
    using a by (auto simp: alike_def list_all2_conv_all_nth intro!: nth_equalityI)
  have mature: "coin_mature params h' (ds ! i)" if "i < length cs" "coin_mature params h (cs ! i)" for i
    using a that assms(4) by (auto simp: alike_def list_all2_conv_all_nth coin_mature_def)
  have auth: "input_authorised E tx params i (ds ! i) w = input_authorised E tx params i (cs ! i) w" if "i < length cs" for i w
    using a that by (simp add: alike_def list_all2_conv_all_nth input_authorised_def)
  have sums: "(\<Sum>c \<leftarrow> ds. coin_value c) = (\<Sum>c \<leftarrow> cs. coin_value c)"
    using arg_cong [OF o, of "\<lambda>l. sum_list (map out_amount l)"] by (simp add: comp_def)
  have amounts: "list_all (\<lambda>c. IsValidAmount (coin_value c)) ds = list_all (\<lambda>c. IsValidAmount (coin_value c)) cs"
    using arg_cong [OF o, of "list_all (\<lambda>x. IsValidAmount (out_amount x))"] by (simp add: list.pred_map comp_def)
  from assms(1) show ?thesis
    unfolding CheckTransactionInputs_decides [OF t] sums amounts len
    using mature auth by (auto simp: list_all_length len)
qed

lemma judged_entry_alike:
  assumes "judged_entry E params m h p e" and "tx_ok params (pe_tx e)" and "unat h \<le> unat h'"
    and "\<And>o' c. o' \<in> set (outpoints_of (tx_inputs (pe_tx e))) \<Longrightarrow> coin_for p m h o' = Some c \<Longrightarrow> IsStored (coin_output c) \<Longrightarrow>
      \<exists>d. coin_for p' m' h' o' = Some d \<and> alike c d"
  shows "judged_entry E params m' h' p' e"
proof -
  let ?os = "outpoints_of (tx_inputs (pe_tx e))"
  from assms(1) obtain cs where cs: "map (coin_for p m h) ?os = map Some cs"
    "CheckTransactionInputs E (pe_tx e) cs h params = Inr (pe_fee e)" by (auto simp: judged_entry_def)
  have len: "length cs = length ?os" using arg_cong [OF cs(1), of length] by simp
  have i: "coin_for p m h (?os ! i) = Some (cs ! i)" if "i < length ?os" for i
    using arg_cong [OF cs(1), of "\<lambda>l. l ! i"] that len by simp
  have ex: "\<exists>d. coin_for p' m' h' (?os ! i) = Some d \<and> alike (cs ! i) d" if "i < length ?os" for i
    using assms(4) [OF nth_mem [OF that] i [OF that] accepted_stored [OF cs(2)]] that len by simp
  let ?ds = "map (\<lambda>o'. the (coin_for p' m' h' o')) ?os"
  have "map (coin_for p' m' h') ?os = map Some ?ds"
    using ex by (intro nth_equalityI) fastforce+
  moreover have "list_all2 alike cs ?ds" unfolding list_all2_conv_all_nth using ex len by fastforce
  ultimately show ?thesis
    using CheckTransactionInputs_alike [OF cs(2) assms(2) _ assms(3)] unfolding judged_entry_def by blast
qed

subsection \<open>A reorganisation\<close>

text \<open>Coins at the same outpoint have the same output: their txid commits to it.\<close>

definition outputs_agree :: "mempool \<Rightarrow> utxo \<Rightarrow> u32 \<Rightarrow> utxo \<Rightarrow> bool" where
  "outputs_agree p m h m' \<longleftrightarrow> (\<forall>o' c d. coin_for p m h o' = Some c \<longrightarrow> m' o' = Some d \<longrightarrow> coin_output d = coin_output c)"

lemma pool_coin_shrinks:
  assumes "restricts p W q" and "pool_coin q h o' = Some c"
  shows "pool_coin p h o' = Some c"
proof -
  from assms(2) obtain v k where v: "mp_by_txid q (op_txid o') = Some v" "entry_of q v = Some k"
    "unat (op_index o') < length (tx_outputs (pe_tx (int_entry k)))"
    "c = created_coin h False (tx_outputs (pe_tx (int_entry k)) ! unat (op_index o'))" by (auto simp: pool_coin_Some)
  have "mp_by_txid p (op_txid o') = Some v" using v(1) assms(1) by (simp add: restricts_def strip_map_Some)
  with restricts_entry [OF assms(1) v(2)] v(3,4) show ?thesis unfolding pool_coin_Some by metis
qed

lemma pool_coin_output: "pool_coin p h o' = Some c \<Longrightarrow> \<exists>d. pool_coin p h' o' = Some d \<and> coin_output d = coin_output c"
  by (auto simp: pool_coin_Some created_coin_def)

lemma pool_coin_unconfirmed:
  assumes "pool_ok E params p" and "unconfirmed m p" and "pool_coin p h o' = Some c"
  shows "coin_for p m h o' = Some c"
proof -
  from assms(3) obtain v k where "mp_by_txid p (op_txid o') = Some v" "entry_of p v = Some k" by (auto simp: pool_coin_Some)
  then have "pe_txid (int_entry k) = op_txid o'" using pool_okD(3) [OF assms(1)] unfolding indices_ok_def by fastforce
  then have "m o' = None" using assms(2) \<open>entry_of p v = Some k\<close> unfolding unconfirmed_def by metis
  with assms(3) show ?thesis by (simp add: coin_for_def)
qed

text \<open>Judging an entry again gives the fee it entered with.\<close>

lemma rejudged_fee:
  assumes s: "synced E params m h p" and agree: "outputs_agree p m h m'" and r: "restricts p W q"
    and e: "entry_of p w = Some e"
    and cs: "map (coin_for q m' h') (outpoints_of (tx_inputs (pe_tx (int_entry e)))) = map Some cs"
    and f: "CheckTransactionInputs E (pe_tx (int_entry e)) cs h' params = Inr fee"
  shows "fee = pe_fee (int_entry e)"
proof -
  let ?os = "outpoints_of (tx_inputs (pe_tx (int_entry e)))"
  note d = syncedD [OF s]
  have "judged_entry E params m h p (int_entry e)" using d(4) e by (simp add: judged_def)
  then obtain bs where bs: "map (coin_for p m h) ?os = map Some bs"
    "CheckTransactionInputs E (pe_tx (int_entry e)) bs h params = Inr (pe_fee (int_entry e))" by (auto simp: judged_entry_def)
  have len: "length bs = length ?os" "length cs = length ?os" using arg_cong [OF bs(1), of length] arg_cong [OF cs, of length] by simp_all
  have "coin_output (cs ! i) = coin_output (bs ! i)" if i: "i < length ?os" for i
  proof -
    have b: "coin_for p m h (?os ! i) = Some (bs ! i)" using arg_cong [OF bs(1), of "\<lambda>l. l ! i"] i len by simp
    have c: "coin_for q m' h' (?os ! i) = Some (cs ! i)" using arg_cong [OF cs, of "\<lambda>l. l ! i"] i len by simp
    show ?thesis
    proof (cases "m' (?os ! i)")
      case (Some x)
      with c have "x = cs ! i" by (simp add: coin_for_def)
      with agree b Some show ?thesis unfolding outputs_agree_def by blast
    next
      case None
      with c have "pool_coin q h' (?os ! i) = Some (cs ! i)" by (simp add: coin_for_def)
      from pool_coin_output [OF pool_coin_shrinks [OF r this], of h] obtain x
        where x: "pool_coin p h (?os ! i) = Some x" "coin_output x = coin_output (cs ! i)" by blast
      from pool_coin_unconfirmed [OF d(1,3) x(1)] b x(2) show ?thesis by simp
    qed
  qed
  then have o: "map coin_output cs = map coin_output bs" using len by (intro nth_equalityI) simp_all
  have "(\<Sum>c \<leftarrow> cs. coin_value c) = (\<Sum>c \<leftarrow> bs. coin_value c)"
    using arg_cong [OF o, of "\<lambda>l. sum_list (map out_amount l)"] by (simp add: comp_def)
  with f bs(2) show ?thesis by (simp add: CheckTransactionInputs_Inr TransactionFee_Inr)
qed

lemma rejudge_step:
  assumes s: "synced E params m h p" and agree: "outputs_agree p m h m'" and base: "view_GetCoin base = m'"
    and q: "restricts p V q" "pool_ok E params q"
    and r: "rejudge E base h' params w (n, q) = (n', q')"
  shows "prunes q q' \<and> pool_ok E params q' \<and> (\<forall>e. entry_of q' w = Some e \<longrightarrow> judged_entry E params m' h' q' (int_entry e))"
proof (cases "entry_of q w")
  case None
  with r q(2) prunes_refl show ?thesis by (auto simp: rejudge_def)
next
  case (Some e)
  obtain k q1 where rec: "RemoveRecursive w q = (k, q1)" by fastforce
  note rr = RemoveRecursive_restricts [OF q(2) rec]
  have "w \<in> set (DescendantsOf q w)" using Some by (simp add: DescendantsOf_set)
  then have gone: "entry_of q1 w = None" using rr(1) by (simp add: restricts_def)
  show ?thesis
  proof (cases "\<exists>cs fee. ResolveInputs q (pe_tx (int_entry e)) base h' = Some cs \<and>
      CheckTransactionInputs E (pe_tx (int_entry e)) cs h' params = Inr fee")
    case True
    then obtain cs fee where c: "ResolveInputs q (pe_tx (int_entry e)) base h' = Some cs"
      "CheckTransactionInputs E (pe_tx (int_entry e)) cs h' params = Inr fee" by blast
    then have q': "q' = q" using r Some by (simp add: rejudge_def)
    from restricts_entry [OF q(1) Some] obtain x where x: "entry_of p w = Some x" "int_entry e = int_entry x" by blast
    have cs: "map (coin_for q m' h') (outpoints_of (tx_inputs (pe_tx (int_entry e)))) = map Some cs"
      using c(1) unfolding ResolveInputs_iff base .
    have "fee = pe_fee (int_entry e)" using rejudged_fee [OF s agree q(1) x(1)] cs c(2) unfolding x(2) by blast
    with cs c(2) have "judged_entry E params m' h' q (int_entry e)" unfolding judged_entry_def by blast
    with q' Some q(2) prunes_refl show ?thesis by simp
  next
    case False
    then have "q' = q1" using r Some rec by (auto simp: rejudge_def Let_def split: option.splits sum.splits)
    with rr(2) RemoveRecursive_prunes [OF q(2) rec] gone show ?thesis by simp
  qed
qed

text \<open>
  The sweep restores the step whatever was removed since: the blocks of the new branch have already
  taken what they confirm and what they conflict with when it runs.
\<close>

lemma rejudge_loop:
  assumes s: "synced E params m h p" and agree: "outputs_agree p m h m'" and base: "view_GetCoin base = m'"
    and "restricts p V q" and "pool_ok E params q" and "fold (rejudge E base h' params) ws (k, q) = (n, p')"
    and "\<And>w e. w \<in> done \<Longrightarrow> entry_of q w = Some e \<Longrightarrow> judged_entry E params m' h' q (int_entry e)"
  shows "prunes q p' \<and> pool_ok E params p' \<and>
    (\<forall>w e. w \<in> done \<union> set ws \<longrightarrow> entry_of p' w = Some e \<longrightarrow> judged_entry E params m' h' p' (int_entry e))"
  using assms(4-)
proof (induction ws arbitrary: "done" k q V)
  case Nil
  then show ?case using prunes_refl by auto
next
  case (Cons w ws)
  obtain k1 q1 where q1: "rejudge E base h' params w (k, q) = (k1, q1)" by fastforce
  have step: "prunes q q1" "pool_ok E params q1"
    "\<And>e. entry_of q1 w = Some e \<Longrightarrow> judged_entry E params m' h' q1 (int_entry e)"
    using rejudge_step [OF s agree base Cons.prems(1,2) q1] by blast+
  obtain W where W: "restricts q W q1" "child_rel q `` W \<subseteq> W" using step(1) by (auto simp: prunes_def)
  note l = linked_restricts [OF Cons.prems(1) syncedD(2) [OF s]]
  have "judged_entry E params m' h' q1 (int_entry e)" if "x \<in> insert w done" "entry_of q1 x = Some e" for x e
  proof (cases "x = w")
    case False
    from restricts_entry [OF W(1) that(2)] obtain f where f: "entry_of q x = Some f" "x \<notin> W" "int_entry e = int_entry f" by blast
    have "judged_entry E params m' h' q (int_entry f)" using Cons.prems(4) that(1) False f(1) by blast
    from judged_prunes [OF Cons.prems(2) l this W f(1,2)] f(3) show ?thesis by simp
  qed (use that step(3) in simp)
  moreover have "fold (rejudge E base h' params) ws (k1, q1) = (n, p')" using Cons.prems(3) q1 by simp
  ultimately show ?case
    using Cons.IH [OF restricts_trans [OF Cons.prems(1) W(1)] step(2), of k1 "insert w done"] prunes_trans [OF step(1)] by auto
qed

lemma RemoveForReorg_synced:
  assumes s: "synced E params m h p" and agree: "outputs_agree p m h m'" and base: "view_GetCoin base = m'"
    and q: "restricts p V q" "pool_ok E params q" and un: "unconfirmed m' q" and r: "RemoveForReorg E base h' params q = (n, p')"
  shows "synced E params m' h' p'"
proof -
  from rejudge_loop [OF s agree base q, of h' "Wtxids q" 0 n p' "{}"] r
  have f: "prunes q p'" "pool_ok E params p'"
    "\<And>w e. w \<in> set (Wtxids q) \<Longrightarrow> entry_of p' w = Some e \<Longrightarrow> judged_entry E params m' h' p' (int_entry e)"
    by (auto simp: RemoveForReorg_def)
  obtain W where W: "restricts q W p'" using f(1) by (auto simp: prunes_def)
  have "w \<in> set (Wtxids q)" if "entry_of p' w = Some e" for w e
    using restricts_entry [OF W that] domI [of "entry_of q" w] by (auto simp: Wtxids_def dom_map_of_conv_image_fst)
  then show ?thesis
    using f(2,3) linked_restricts [OF W linked_restricts [OF q(1) syncedD(2) [OF s]]] unconfirmed_restricts [OF W un]
    by (auto simp: synced_def judged_def)
qed

subsection \<open>A connected block\<close>

lemma confirmed_loop:
  assumes "pool_ok E params p" and "fold (remove_confirmed E) txs (n, p) = (n', p')"
  shows "restricts p {w. \<exists>tx \<in> set txs. mp_by_txid p (Txid E tx) = Some w} p' \<and> pool_ok E params p'"
  using assms
proof (induction txs arbitrary: n p)
  case Nil
  then show ?case using restricts_refl [of p'] by simp
next
  case (Cons tx txs)
  show ?case
  proof (cases "mp_by_txid p (Txid E tx)")
    case None
    then have "remove_confirmed E tx (n, p) = (n, p)" by (simp add: remove_confirmed_def)
    then have "fold (remove_confirmed E) txs (n, p) = (n', p')" using Cons.prems(2) by simp
    moreover have "{w. \<exists>t \<in> set (tx # txs). mp_by_txid p (Txid E t) = Some w} = {w. \<exists>t \<in> set txs. mp_by_txid p (Txid E t) = Some w}"
      using None by auto
    ultimately show ?thesis using Cons.IH [OF Cons.prems(1)] by simp
  next
    case (Some w)
    note u = Unlink_restricts [OF Cons.prems(1), of w]
    have "remove_confirmed E tx (n, p) = (n + 1, Unlink w p)" using Some by (simp add: remove_confirmed_def Remove_def)
    then have "fold (remove_confirmed E) txs (n + 1, Unlink w p) = (n', p')" using Cons.prems(2) by simp
    from Cons.IH [OF u(2) this] have
      r: "restricts (Unlink w p) {v. \<exists>t \<in> set txs. mp_by_txid (Unlink w p) (Txid E t) = Some v} p'" "pool_ok E params p'" by simp_all
    have "mp_by_txid (Unlink w p) = strip_map {w} (mp_by_txid p)" using u(1) by (simp add: restricts_def)
    then have "{w} \<union> {v. \<exists>t \<in> set txs. mp_by_txid (Unlink w p) (Txid E t) = Some v} =
        {v. \<exists>t \<in> set (tx # txs). mp_by_txid p (Txid E t) = Some v}"
      using Some by (auto simp: strip_map_Some)
    with restricts_trans [OF u(1) r(1)] r(2) show ?thesis by simp
  qed
qed

lemma prunes_spent_by: "prunes p q \<Longrightarrow> mp_spent_by p o' = None \<Longrightarrow> mp_spent_by q o' = None"
  by (auto simp: prunes_def restricts_def strip_map_def)

lemma remove_spender_prunes:
  assumes ok: "pool_ok E params p" and "remove_spender i (n, p) = (n', p')"
  shows "prunes p p' \<and> pool_ok E params p' \<and> mp_spent_by p' (in_outpoint i) = None"
proof (cases "mp_spent_by p (in_outpoint i)")
  case None
  with assms prunes_refl show ?thesis by (auto simp: remove_spender_def)
next
  case (Some w)
  obtain k where rec: "RemoveRecursive w p = (k, p')" using assms(2) Some by (auto simp: remove_spender_def split: prod.splits)
  note rr = RemoveRecursive_restricts [OF ok rec]
  have "entry_of p w \<noteq> None" using Some pool_okD(3) [OF ok] unfolding indices_ok_def by fastforce
  then have "w \<in> set (DescendantsOf p w)" by (simp add: DescendantsOf_set)
  with Some rr(1) have "mp_spent_by p' (in_outpoint i) = None" by (simp add: restricts_def strip_map_def)
  with rr(2) RemoveRecursive_prunes [OF ok rec] show ?thesis by simp
qed

lemma spender_loop:
  assumes "pool_ok E params p" and "fold remove_spender is (n, p) = (n', p')"
  shows "prunes p p' \<and> pool_ok E params p' \<and> (\<forall>i \<in> set is. mp_spent_by p' (in_outpoint i) = None)"
  using assms
proof (induction "is" arbitrary: n p)
  case (Cons i "is")
  obtain n1 p1 where 1: "remove_spender i (n, p) = (n1, p1)" by fastforce
  note s = remove_spender_prunes [OF Cons.prems(1) 1]
  have "fold remove_spender is (n1, p1) = (n', p')" using Cons.prems(2) 1 by simp
  with Cons.IH [of p1 n1] s prunes_trans prunes_spent_by show ?case by (metis set_ConsD)
qed (simp add: prunes_refl)

lemma spenders_loop:
  assumes "pool_ok E params p"
    and "fold (\<lambda>tx s. if IsCoinbase tx then s else fold remove_spender (tx_inputs tx) s) txs (n, p) = (n', p')"
  shows "prunes p p' \<and> pool_ok E params p' \<and> (\<forall>o' \<in> spent_in txs. mp_spent_by p' o' = None)"
  using assms
proof (induction txs arbitrary: n p)
  case (Cons tx txs)
  let ?f = "\<lambda>tx s. if IsCoinbase tx then s else fold remove_spender (tx_inputs tx) s"
  obtain n1 p1 where 1: "?f tx (n, p) = (n1, p1)" by fastforce
  have s: "prunes p p1" "pool_ok E params p1" "\<forall>o' \<in> spent_in [tx]. mp_spent_by p1 o' = None"
    using 1 spender_loop [OF Cons.prems(1), of "tx_inputs tx" n n1 p1] Cons.prems(1) prunes_refl
    by (auto simp: spent_in_def split: if_splits)
  have "fold ?f txs (n1, p1) = (n', p')" using Cons.prems(2) unfolding fold.simps comp_def 1 .
  from Cons.IH [OF s(2) this] have t: "prunes p1 p'" "pool_ok E params p'" "\<forall>o' \<in> spent_in txs. mp_spent_by p' o' = None" by simp_all
  have "mp_spent_by p' o' = None" if "o' \<in> spent_in (tx # txs)" for o'
    using that s(3) t(3) prunes_spent_by [OF t(1)] unfolding spent_in_Cons [of tx txs] by blast
  with t(2) prunes_trans [OF s(1) t(1)] show ?case by blast
qed (simp add: prunes_refl spent_in_def)

text \<open>The copy of a transaction that was mined has the inputs and outputs of the copy in the pool.\<close>

definition same_bodies :: "crypto_ext \<Rightarrow> transaction list \<Rightarrow> mempool \<Rightarrow> bool" where
  "same_bodies E txs p \<longleftrightarrow> (\<forall>tx \<in> set txs. \<forall>w e. entry_of p w = Some e \<longrightarrow> pe_txid (int_entry e) = Txid E tx \<longrightarrow>
     tx_inputs (pe_tx (int_entry e)) = tx_inputs tx \<and> tx_outputs (pe_tx (int_entry e)) = tx_outputs tx)"

text \<open>A confirmed transaction's output is now an unspent coin.\<close>

lemma confirmed_coin:
  assumes s: "synced E params m h p" and bodies: "same_bodies E txs p"
    and con: "connect_txs E params h 0 txs (m, [], 0) = Inr (m', undo, fees)"
    and tx: "tx \<in> set txs" "mp_by_txid p (op_txid o') = Some v" "mp_by_txid p (Txid E tx) = Some v"
    and c: "pool_coin p h o' = Some c" "IsStored (coin_output c)" and unspent: "o' \<notin> spent_in txs"
  shows "m' o' = Some c"
proof -
  note d = syncedD [OF s] and ix = pool_okD(3) [OF syncedD(1) [OF s]]
  obtain k where k: "entry_of p v = Some k" "unat (op_index o') < length (tx_outputs (pe_tx (int_entry k)))"
      "c = created_coin h False (tx_outputs (pe_tx (int_entry k)) ! unat (op_index o'))"
    using c(1) tx(2) by (auto simp: pool_coin_Some)
  have t: "pe_txid (int_entry k) = op_txid o'" "pe_txid (int_entry k) = Txid E tx"
    using ix tx(2,3) k(1) unfolding indices_ok_def by fastforce+
  with bodies tx(1) k(1) have b: "tx_inputs (pe_tx (int_entry k)) = tx_inputs tx" "tx_outputs (pe_tx (int_entry k)) = tx_outputs tx"
    unfolding same_bodies_def by blast+
  have "\<not> IsCoinbase (pe_tx (int_entry k))" using pool_okD(6) [OF d(1) k(1)] by (simp add: entry_ok_def)
  then have cb: "\<not> IsCoinbase tx" using b(1) by (simp add: IsCoinbase_def)
  have "(OutPointFor (Txid E tx) (0 + unat (op_index o')), created_coin h False (tx_outputs tx ! unat (op_index o'))) \<in>
      set (created_coins (Txid E tx) h False 0 (tx_outputs tx))"
    by (rule created_coins_nth) (use k(2,3) c(2) b(2) in \<open>simp_all add: created_coin_def\<close>)
  moreover have "OutPointFor (Txid E tx) (0 + unat (op_index o')) = o'" using t by (simp add: OutPointFor_def)
  ultimately have "(o', c) \<in> set (created_coins (Txid E tx) h (IsCoinbase tx) 0 (tx_outputs tx))"
    using k(3) b(2) cb by simp
  from connect_txs_creates [OF con tx(1) this unspent] show ?thesis .
qed

text \<open>What the two loops leave: the confirmed are gone, then the conflicting and all below them.\<close>

lemma RemoveForBlock_restricts:
  assumes ok: "pool_ok E params p" and rem: "RemoveForBlock E block p = (n, p')"
  obtains p1 W where "restricts p {w. \<exists>tx \<in> set (blk_transactions block). mp_by_txid p (Txid E tx) = Some w} p1"
    "pool_ok E params p1" "restricts p1 W p'" "child_rel p1 `` W \<subseteq> W" "pool_ok E params p'"
    "\<And>o'. o' \<in> spent_in (blk_transactions block) \<Longrightarrow> mp_spent_by p' o' = None"
proof -
  obtain n1 p1 where 1: "fold (remove_confirmed E) (blk_transactions block) (0, p) = (n1, p1)" by fastforce
  note c = confirmed_loop [OF ok 1]
  have "fold (\<lambda>tx s. if IsCoinbase tx then s else fold remove_spender (tx_inputs tx) s) (blk_transactions block) (n1, p1) = (n, p')"
    using rem unfolding RemoveForBlock_def 1 .
  from spenders_loop [OF _ this] c have t: "prunes p1 p'" "pool_ok E params p'"
    "\<forall>o' \<in> spent_in (blk_transactions block). mp_spent_by p' o' = None" by blast+
  then obtain W where "restricts p1 W p'" "child_rel p1 `` W \<subseteq> W" by (auto simp: prunes_def)
  with that c t(2,3) show thesis by blast
qed

lemma unconfirmed_after_block:
  assumes s: "synced E params m h p" and con: "connect_txs E params h 0 txs (m, [], 0) = Inr (m', undo, fees)"
    and r: "restricts p W p'" and sub: "\<And>tx w. tx \<in> set txs \<Longrightarrow> mp_by_txid p (Txid E tx) = Some w \<Longrightarrow> w \<in> W"
  shows "unconfirmed m' p'"
  unfolding unconfirmed_def
proof (intro allI impI, rule ccontr)
  note d = syncedD [OF s]
  fix w e and o' :: outpoint assume a: "entry_of p' w = Some e" "op_txid o' = pe_txid (int_entry e)" "m' o' \<noteq> None"
  from restricts_entry [OF r a(1)] obtain f where f: "entry_of p w = Some f" "w \<notin> W" "int_entry e = int_entry f" by blast
  have mo: "m o' = None" using d(3) f(1,3) a(2) unfolding unconfirmed_def by metis
  from a(3) obtain x where "m' o' = Some x" by blast
  from connect_txs_only [OF con this] mo obtain tx where "tx \<in> set txs" "op_txid o' = Txid E tx"
    using created_coins_txid by fastforce
  moreover have "mp_by_txid p (op_txid o') = Some w" using pool_okD(3) [OF d(1)] f a(2) unfolding indices_ok_def by metis
  ultimately show False using f(2) sub by auto
qed

lemma RemoveForBlock_synced:
  assumes s: "synced E params m h p" and bodies: "same_bodies E (blk_transactions block) p"
    and con: "connect_txs E params h 0 (blk_transactions block) (m, [], 0) = Inr (m', undo, fees)"
    and le: "unat h \<le> unat h'" and rem: "RemoveForBlock E block p = (n, p')"
  shows "synced E params m' h' p'"
  using syncedD(1) [OF s] rem
proof (cases rule: RemoveForBlock_restricts)
  case (1 p1 W)
  let ?C = "{w. \<exists>tx \<in> set (blk_transactions block). mp_by_txid p (Txid E tx) = Some w}"
  note d = syncedD [OF s] and r = restricts_trans [OF 1(1,3)]
  have un: "unconfirmed m' p'" by (rule unconfirmed_after_block [OF s con r]) blast
  have "judged_entry E params m' h' p' (int_entry e)" if e: "entry_of p' w = Some e" for w e
  proof -
    from restricts_entry [OF r e] obtain f where f: "entry_of p w = Some f" "w \<notin> ?C \<union> W" "int_entry e = int_entry f" by blast
    have "judged_entry E params m h p (int_entry e)" using d(4) f(1,3) by (simp add: judged_def)
    moreover have "tx_ok params (pe_tx (int_entry e))" using pool_okD(6) [OF 1(5) e] by (simp add: entry_ok_def)
    moreover have "\<exists>x. coin_for p' m' h' o' = Some x \<and> alike cn x"
      if o': "o' \<in> spends e" and cn: "coin_for p m h o' = Some cn" "IsStored (coin_output cn)" for o' cn
    proof -
      have "mp_spent_by p' o' = Some w" using pool_okD(3) [OF 1(5)] e o' unfolding indices_ok_def by blast
      then have unspent: "o' \<notin> spent_in (blk_transactions block)" using 1(6) by fastforce
      show ?thesis
      proof (cases "m o'")
        case (Some x)
        with connect_txs_keeps [OF con Some unspent] cn(1) alike_refl show ?thesis by (simp add: coin_for_def)
      next
        case None
        then have pc: "pool_coin p h o' = Some cn" using cn(1) by (simp add: coin_for_def)
        then obtain v where v: "mp_by_txid p (op_txid o') = Some v" by (auto simp: pool_coin_Some)
        show ?thesis
        proof (cases "v \<in> ?C")
          case True
          with confirmed_coin [OF s bodies con _ v _ pc cn(2) unspent] alike_refl show ?thesis by (auto simp: coin_for_def)
        next
          case False
          have "v \<in> set (int_parents f)" using d(2) f(1,3) o' v unfolding linked_def by metis
          moreover obtain f1 where "entry_of p1 w = Some f1" "int_parents f1 = filter (\<lambda>x. x \<notin> ?C) (int_parents f)"
            using 1(1) f(1,2) by (simp add: restricts_def)
          ultimately have "(w, v) \<in> parent_rel p1" using False by (auto simp: parent_rel_def)
          then have "(v, w) \<in> child_rel p1" using pool_okD(2) [OF 1(2)] by (simp add: links_ok_def)
          then have "v \<notin> ?C \<union> W" using 1(4) f(2) False by blast
          then have "pool_coin p' h' o' = pool_coin p h' o'" by (intro pool_coin_stays [OF r]) (use v in blast)
          moreover obtain x where x: "pool_coin p h' o' = Some x" "alike cn x"
            using pc by (auto simp: pool_coin_Some alike_def created_coin_def)
          ultimately show ?thesis using pool_coin_unconfirmed [OF 1(5) un, of h' o' x] by simp
        qed
      qed
    qed
    ultimately show ?thesis using judged_entry_alike [OF _ _ le] by blast
  qed
  with 1(5) linked_restricts [OF r d(2)] un show ?thesis by (simp add: synced_def judged_def)
qed

section \<open>The keeper keeps the pool in step\<close>

text \<open>Blocks connected one on another, from a height on.\<close>

fun connected_run :: "crypto_ext \<Rightarrow> chain_params \<Rightarrow> block list \<Rightarrow> utxo \<Rightarrow> u32 \<Rightarrow> utxo \<Rightarrow> u32 \<Rightarrow> bool" where
  "connected_run E params [] m h m' h' \<longleftrightarrow> m' = m \<and> h' = h"
| "connected_run E params (b # bs) m h m' h' \<longleftrightarrow>
     hdr_height (blk_header b) = h \<and> h \<noteq> - 1 \<and>
     (case connect_spec E params b m of Inl _ \<Rightarrow> False | Inr (_, m1) \<Rightarrow> connected_run E params bs m1 (h + 1) m' h')"

inductive keeper_step :: "crypto_ext \<Rightarrow> chain_params \<Rightarrow> utxo \<times> u32 \<times> mempool \<Rightarrow> utxo \<times> u32 \<times> mempool \<Rightarrow> bool" for E params where
  accept: "AcceptTx E tx base h now params p = (r, p') \<Longrightarrow> view_GetCoin base = m \<Longrightarrow> no_clash E tx p \<Longrightarrow>
    (\<And>o'. op_txid o' = Txid E tx \<Longrightarrow> m o' = None) \<Longrightarrow> keeper_step E params (m, h, p) (m, h, p')"
| evict: "RemoveRecursive w p = (n, p') \<Longrightarrow> keeper_step E params (m, h, p) (m, h, p')"
| trim: "Trim target p = (n, p') \<Longrightarrow> keeper_step E params (m, h, p) (m, h, p')"
| extend: "connected_run E params bs m h m' h' \<Longrightarrow> (\<And>b. b \<in> set bs \<Longrightarrow> same_bodies E (blk_transactions b) p) \<Longrightarrow>
    k = fold (notify_keeper E) (map (\<lambda>b. BlockConnected b (Block_Hash E b)) bs) \<lparr>pk_pool = p, pk_reorganised = False\<rparr> \<Longrightarrow>
    p' = pk_pool (Settle E base tip params k) \<Longrightarrow> keeper_step E params (m, h, p) (m', h', p')"
| reorganise: "k = fold (notify_keeper E) events \<lparr>pk_pool = p, pk_reorganised = False\<rparr> \<Longrightarrow> BlockDisconnected b g \<in> set events \<Longrightarrow>
    view_GetCoin base = m' \<Longrightarrow> outputs_agree p m h m' \<Longrightarrow> unconfirmed m' (pk_pool k) \<Longrightarrow>
    p' = pk_pool (Settle E base tip params k) \<Longrightarrow> keeper_step E params (m, h, p) (m', spend_height_above tip, p')"

lemma same_bodies_restricts:
  assumes "restricts p W q" and "same_bodies E txs p"
  shows "same_bodies E txs q"
  unfolding same_bodies_def
proof (intro ballI allI impI)
  fix tx w e assume a: "tx \<in> set txs" "entry_of q w = Some e" "pe_txid (int_entry e) = Txid E tx"
  from restricts_entry [OF assms(1) a(2)] obtain d where "entry_of p w = Some d" "int_entry e = int_entry d" by blast
  with assms(2) a(1,3) show "tx_inputs (pe_tx (int_entry e)) = tx_inputs tx \<and> tx_outputs (pe_tx (int_entry e)) = tx_outputs tx"
    unfolding same_bodies_def by simp
qed

lemma RemoveForBlock_shrinks': "pool_ok E params p \<Longrightarrow> \<exists>W. restricts p W (snd (RemoveForBlock E b p)) \<and> pool_ok E params (snd (RemoveForBlock E b p))"
  using RemoveForBlock_shrinks unfolding shrinks_def by blast

lemma connected_run_synced:
  assumes "connected_run E params bs m h m' h'" and "synced E params m h p" and "pool_weight p \<le> MAX_MEMPOOL_WEIGHT"
    and "\<And>b. b \<in> set bs \<Longrightarrow> same_bodies E (blk_transactions b) p"
  shows "\<exists>q. fold (notify_keeper E) (map (\<lambda>b. BlockConnected b (Block_Hash E b)) bs) \<lparr>pk_pool = p, pk_reorganised = False\<rparr> = \<lparr>pk_pool = q, pk_reorganised = False\<rparr> \<and>
    synced E params m' h' q \<and> pool_weight q \<le> MAX_MEMPOOL_WEIGHT"
  using assms
proof (induction bs arbitrary: m h p)
  case (Cons b bs)
  obtain res m1 where c: "connect_spec E params b m = Inr (res, m1)" "hdr_height (blk_header b) = h" "h \<noteq> - 1"
    "connected_run E params bs m1 (h + 1) m' h'"
    using Cons.prems(1) by (auto split: sum.splits)
  obtain undo fees where con: "connect_txs E params h 0 (blk_transactions b) (m, [], 0) = Inr (m1, undo, fees)"
    using c(1,2) by (auto simp: connect_spec_def verdict_simps split: if_splits sum.splits prod.splits)
  obtain n q where q: "RemoveForBlock E b p = (n, q)" by fastforce
  have "unat (h + 1) = unat h + 1" using next_height [of h "h + 1"] c(3) by simp
  then have s: "synced E params m1 (h + 1) q"
    using RemoveForBlock_synced [OF Cons.prems(2) _ con _ q, of "h + 1"] Cons.prems(4) by simp
  obtain W where W: "restricts p W q" using RemoveForBlock_shrinks' [OF syncedD(1) [OF Cons.prems(2)], of b] q by auto
  have w: "pool_weight q \<le> MAX_MEMPOOL_WEIGHT" using restricts_weight [OF W] Cons.prems(3) by simp
  have b: "same_bodies E (blk_transactions x) q" if "x \<in> set bs" for x
    using same_bodies_restricts [OF W] Cons.prems(4) that by simp
  from Cons.IH [OF c(4) s w b] show ?case by (simp add: notify_keeper_def Keeper_BlockConnected_def q)
qed simp

lemma notified_restricts:
  assumes "pool_ok E params p"
  shows "\<exists>W. restricts p W (pk_pool (fold (notify_keeper E) events \<lparr>pk_pool = p, pk_reorganised = r\<rparr>)) \<and>
    pool_ok E params (pk_pool (fold (notify_keeper E) events \<lparr>pk_pool = p, pk_reorganised = r\<rparr>))"
  using assms
proof (induction events arbitrary: p r)
  case Nil
  then show ?case using restricts_refl by auto
next
  case (Cons e events)
  show ?case
  proof (cases e)
    case (BlockConnected b g)
    let ?q = "snd (RemoveForBlock E b p)"
    obtain V where V: "restricts p V ?q" "pool_ok E params ?q" using RemoveForBlock_shrinks' [OF Cons.prems] by blast
    from Cons.IH [OF V(2), of r] restricts_trans [OF V(1)] show ?thesis
      by (fastforce simp: BlockConnected notify_keeper_def Keeper_BlockConnected_def)
  next
    case (BlockDisconnected b g)
    with Cons.IH [OF Cons.prems, of True] show ?thesis by (simp add: notify_keeper_def Keeper_BlockDisconnected_def)
  qed
qed

lemma notified_flag:
  "pk_reorganised (fold (notify_keeper E) events k) \<longleftrightarrow> pk_reorganised k \<or> (\<exists>b g. BlockDisconnected b g \<in> set events)"
  by (induction events arbitrary: k) (auto simp: notify_keeper_def Keeper_BlockConnected_def Keeper_BlockDisconnected_def split: tip_event.splits)

definition kept :: "crypto_ext \<Rightarrow> chain_params \<Rightarrow> utxo \<times> u32 \<times> mempool \<Rightarrow> bool" where
  "kept E params = (\<lambda>(m, h, p). synced E params m h p \<and> pool_weight p \<le> MAX_MEMPOOL_WEIGHT)"

lemma kept_prunes:
  assumes "kept E params (m, h, p)" and "prunes p p'" and "pool_ok E params p'"
  shows "kept E params (m, h, p')"
proof -
  obtain W where "restricts p W p'" using assms(2) by (auto simp: prunes_def)
  with synced_prunes [OF _ assms(2,3)] restricts_weight assms(1) show ?thesis by (fastforce simp: kept_def)
qed

lemma keeper_step_kept:
  assumes "keeper_step E params s s'" and "kept E params s"
  shows "kept E params s'"
  using assms
proof (cases rule: keeper_step.cases)
  case (accept tx base h now p r p' m)
  then have k: "synced E params m h p" "pool_weight p \<le> MAX_MEMPOOL_WEIGHT" using assms(2) by (simp_all add: kept_def)
  from AcceptTx_synced [OF k accept(5,6,4,3)] AcceptTx_ok [OF syncedD(1) [OF k(1)] k(2) accept(5,3)] accept(2)
  show ?thesis by (simp add: kept_def)
next
  case (evict w p n p' m h)
  then have ok: "pool_ok E params p" using assms(2) by (simp add: kept_def synced_def)
  from kept_prunes [OF _ RemoveRecursive_prunes [OF ok evict(3)] RemoveRecursive_restricts(2) [OF ok evict(3)]] assms(2) evict(1,2)
  show ?thesis by simp
next
  case (trim target p n p' m h)
  then have ok: "pool_ok E params p" and "pool_weight p < 2 ^ 64"
    using assms(2) by (simp_all add: kept_def synced_def MAX_MEMPOOL_WEIGHT_def)
  from Trim_loop_ok [OF this] trim(3) have "pool_ok E params p'" "prunes p p'" by (auto simp: Trim_def)
  with kept_prunes assms(2) trim(1,2) show ?thesis by blast
next
  case (extend bs m h m' h' p k p' base tip)
  with assms(2) have "synced E params m h p" "pool_weight p \<le> MAX_MEMPOOL_WEIGHT" by (simp_all add: kept_def)
  from connected_run_synced [OF extend(3) this extend(4)] extend(2,5,6) show ?thesis by (auto simp: Settle_def kept_def)
next
  case (reorganise k events p b g base m' m h p' tip)
  with assms(2) have s: "synced E params m h p" "pool_weight p \<le> MAX_MEMPOOL_WEIGHT" by (simp_all add: kept_def)
  obtain W where W: "restricts p W (pk_pool k)" "pool_ok E params (pk_pool k)"
    using notified_restricts [OF syncedD(1) [OF s(1)], of events False] reorganise(3) by auto
  have "pk_reorganised k" using reorganise(3,4) by (auto simp: notified_flag)
  then obtain n where r: "RemoveForReorg E base (spend_height_above tip) params (pk_pool k) = (n, p')"
    using reorganise(8) by (simp add: Settle_def prod_eq_iff)
  have "synced E params m' (spend_height_above tip) p'"
    by (rule RemoveForReorg_synced [OF s(1) reorganise(6,5) W reorganise(7) r])
  moreover have "pool_weight p' \<le> MAX_MEMPOOL_WEIGHT"
    using shrinks_weight [OF RemoveForReorg_shrinks [OF W(2), of base "spend_height_above tip"]] restricts_weight [OF W(1)] s(2) r by simp
  ultimately show ?thesis using reorganise(2) by (simp add: kept_def)
qed

lemma Mempool_new_kept: "kept E params (m, h, Mempool_new)"
  by (simp add: kept_def synced_def linked_def unconfirmed_def judged_def Mempool_new_ok)

lemma keeper_reachable_kept:
  "(keeper_step E params)\<^sup>*\<^sup>* (m0, h0, Mempool_new) s \<Longrightarrow> kept E params s"
  by (induction rule: rtranclp_induct) (auto intro: Mempool_new_kept keeper_step_kept)

section \<open>Properties\<close>


definition example_utxo :: utxo where
  "example_utxo = [example_outpoint \<mapsto> rich_coin]"

lemma example_kept: "(keeper_step example_crypto REGTEST_PARAMS)\<^sup>*\<^sup>* (example_utxo, 1, Mempool_new) (example_utxo, 1, example_pool)"
proof -
  have i: "tx_inputs example_spend = [\<lparr>in_outpoint = example_outpoint, in_sequence = 0\<rparr>]"
    by (simp add: example_spend_def example_outpoint_def)
  have n: "CheckTransaction example_spend REGTEST_PARAMS = Accept" by (simp add: CheckTransaction_Accept example_spend_ok)
  have r: "ResolveInputs Mempool_new example_spend (map_view example_utxo) 1 = Some [rich_coin]"
    by (simp add: ResolveInputs_def i map_view_def example_utxo_def)
  have a: "AcceptTx example_crypto example_spend (map_view example_utxo) 1 0 REGTEST_PARAMS Mempool_new =
      (Inr (new_pool_entry example_crypto example_spend 995 0), example_pool)"
    using example_spend_not_coinbase by (simp add: AcceptTx_def n r example_pool_accepted)
  have "keeper_step example_crypto REGTEST_PARAMS (example_utxo, 1, Mempool_new) (example_utxo, 1, example_pool)"
    by (rule keeper_step.accept [OF a])
      (use example_ids in \<open>auto simp: map_view_def no_clash_def example_utxo_def example_outpoint_def\<close>)
  then show ?thesis by blast
qed


end
