(* ===== verification/Assembler.thy ===== *)
theory Assembler
  imports PoolSync
begin

unbundle bit_operations_syntax

text \<open>
  Building and solving blocks (\<^verbatim>\<open>mining/block_assembler\<close>): the template of the next block from the tip,
  the pool and the clock, and the search for its nonce. A solved template built from a pool that is
  in step with the coins is a block this node accepts, if it is within the weight limit; the room the
  assembler leaves does not ensure that.
\<close>

section \<open>Templates\<close>

record block_template =
  tpl_block :: block
  tpl_target :: target
  tpl_reward :: i64
  tpl_fees :: i64

datatype template_error =
    CoinbaseDataTooLarge | HeightOverflow | MalformedTarget | NoMerkleRoot | HeaderRefused | RewardRefused

primrec DescribeTemplate :: "template_error \<Rightarrow> string" where
  "DescribeTemplate CoinbaseDataTooLarge = ''the miner's coinbase data is longer than a block may carry''"
| "DescribeTemplate HeightOverflow = ''the chain is at the highest height a header can express''"
| "DescribeTemplate MalformedTarget = ''this build's chain parameters produced an unusable target''"
| "DescribeTemplate NoMerkleRoot = ''the assembled block committed to no transactions''"
| "DescribeTemplate HeaderRefused = ''this node's own header rules refused the assembled header''"
| "DescribeTemplate RewardRefused = ''this node's own supply rule refused the assembled reward''"

definition template_coinbase :: "u32 \<Rightarrow> i64 \<Rightarrow> lock \<Rightarrow> byte_vec \<Rightarrow> transaction" where
  "template_coinbase height amount payout coinbase_data =
     \<lparr>tx_version = 1, tx_inputs = [MakeCoinbaseInput height],
      tx_outputs = [\<lparr>out_amount = amount, out_lock = payout\<rparr>],
      tx_locktime = 0, tx_witnesses = [], tx_coinbase_data = coinbase_data\<rparr>"

definition select_entries :: "mempool option \<Rightarrow> transaction \<Rightarrow> chain_params \<Rightarrow> pool_entry list" where
  "select_entries pool coinbase params =
     (case pool of
        None \<Rightarrow> []
      | Some p \<Rightarrow>
          let coinbase_weight = Transaction_Weight coinbase;
              available_weight =
                (if max_block_weight params > coinbase_weight then max_block_weight params - coinbase_weight else 0)
          in GetTemplates p available_weight)"

definition template_timestamp :: "block_index \<Rightarrow> hash256 \<Rightarrow> i64 \<Rightarrow> i64" where
  "template_timestamp index tip now =
     (let earliest = MedianTimePastAt index tip;
          lower_bound = (if earliest < INT64_MAX then earliest + 1 else earliest)
      in max now lower_bound)"

definition BuildBlockTemplate ::
  "crypto_ext \<Rightarrow> block_index \<Rightarrow> hash256 \<Rightarrow> lock \<Rightarrow> i64 \<Rightarrow> byte_vec \<Rightarrow> chain_params \<Rightarrow> mempool option \<Rightarrow>
     template_error + block_template"
where
  "BuildBlockTemplate E index tip payout now coinbase_data params pool =
     (if length coinbase_data > max_coinbase_data_size (limits_tx (block_limits params)) then Inl CoinbaseDataTooLarge
      else if ent_height (entry_at index tip) = - 1 then Inl HeightOverflow
      else
        let height = ent_height (entry_at index tip) + 1 in
        (case CompactToTarget (NextTargetBits (entry_at index tip) params) of
          None \<Rightarrow> Inl MalformedTarget
        | Some _ \<Rightarrow>
            let reward = BlockReward height (issuance params);
                selected = select_entries pool (template_coinbase height reward payout coinbase_data) params;
                total_fees = fold (\<lambda>entry fees. i64_wrap (fees + pe_fee entry)) selected 0;
                paid = i64_wrap (reward + total_fees);
                transactions = template_coinbase height paid payout coinbase_data # map pe_tx selected;
                timestamp = template_timestamp index tip now;
                bits = NextTargetBits_at (entry_at index tip) timestamp params
            in (case ComputeMerkleRoot E (map (Wtxid E) transactions) of
                 None \<Rightarrow> Inl NoMerkleRoot
               | Some merkle \<Rightarrow>
                   let block =
                     \<lparr>blk_header = \<lparr>hdr_version = 1, hdr_height = height,
                        hdr_prev_block = ent_hash (entry_at index tip), hdr_merkle_root = merkle,
                        hdr_timestamp = timestamp, hdr_target_bits = bits, hdr_nonce = 0\<rparr>,
                      blk_transactions = transactions\<rparr>
                   in if ContextualCheckBlockHeader (blk_header block)
                          (HeaderContextFor index tip now params (Some timestamp)) params \<noteq> Accept
                        then Inl HeaderRefused
                      else if CheckCoinbaseAmount block total_fees params \<noteq> Accept then Inl RewardRefused
                      else Inr \<lparr>tpl_block = block, tpl_target = the (CompactToTarget bits),
                             tpl_reward = paid, tpl_fees = total_fees\<rparr>)))"

section \<open>Solving\<close>

text \<open>The counter of attempts made is compared with a budget of 64 bits, so it never wraps.\<close>

fun SolveHeader_loop :: "crypto_ext \<Rightarrow> target \<Rightarrow> nat \<Rightarrow> block_header \<Rightarrow> bool \<times> block_header" where
  "SolveHeader_loop E t 0 header = (False, header)"
| "SolveHeader_loop E t (Suc attempts) header =
     (if HashMeetsTarget (BlockHeader_Hash E header) t then (True, header)
      else if hdr_nonce header = - 1 then (False, header)
      else SolveHeader_loop E t attempts (header\<lparr>hdr_nonce := hdr_nonce header + 1\<rparr>))"

definition SolveHeader :: "crypto_ext \<Rightarrow> block_header \<Rightarrow> target \<Rightarrow> u64 \<Rightarrow> bool \<times> block_header" where
  "SolveHeader E header t attempts = SolveHeader_loop E t (unat attempts) header"

lemma SolveHeader_loop_split:
  "SolveHeader_loop E t (a + b) header =
     (case SolveHeader_loop E t a header of
        (True, solved) \<Rightarrow> (True, solved)
      | (False, rest) \<Rightarrow> SolveHeader_loop E t b rest)"
proof (induction a arbitrary: header)
  case (Suc a)
  have "SolveHeader_loop E t b header = (False, header)"
    if "\<not> HashMeetsTarget (BlockHeader_Hash E header) t" "hdr_nonce header = - 1"
    using that by (cases b) simp_all
  with Suc show ?case by simp
qed simp

text \<open>Which nonces a search has tried.\<close>

lemma SolveHeader_loop_spec:
  assumes "SolveHeader_loop E t n header = (found, header')"
  shows "header' = header\<lparr>hdr_nonce := hdr_nonce header'\<rparr> \<and> unat (hdr_nonce header) \<le> unat (hdr_nonce header') \<and>
    unat (hdr_nonce header') \<le> unat (hdr_nonce header) + n \<and>
    (found \<longrightarrow> HashMeetsTarget (BlockHeader_Hash E header') t) \<and>
    (\<forall>x. unat (hdr_nonce header) \<le> unat x \<and> unat x < unat (hdr_nonce header') \<longrightarrow>
       \<not> HashMeetsTarget (BlockHeader_Hash E (header\<lparr>hdr_nonce := x\<rparr>)) t) \<and>
    (\<not> found \<longrightarrow> unat (hdr_nonce header') = unat (hdr_nonce header) + n \<or>
       hdr_nonce header' = - 1 \<and> \<not> HashMeetsTarget (BlockHeader_Hash E header') t)"
  using assms
proof (induction n arbitrary: header)
  case (Suc n)
  let ?next = "header\<lparr>hdr_nonce := hdr_nonce header + 1\<rparr>"
  consider "HashMeetsTarget (BlockHeader_Hash E header) t"
    | "\<not> HashMeetsTarget (BlockHeader_Hash E header) t" "hdr_nonce header = - 1"
    | "\<not> HashMeetsTarget (BlockHeader_Hash E header) t" "hdr_nonce header \<noteq> - 1" by blast
  then show ?case
  proof cases
    case 3
    have u: "unat (hdr_nonce header + 1) = unat (hdr_nonce header) + 1"
      using 3(2) by (metis add.commute unat_plus_if' unatSuc add_eq_0_iff Suc_eq_plus1)
    have "SolveHeader_loop E t n ?next = (found, header')" using Suc.prems 3 by simp
    note IH = Suc.IH [OF this]
    have "\<not> HashMeetsTarget (BlockHeader_Hash E (header\<lparr>hdr_nonce := x\<rparr>)) t"
      if x: "unat (hdr_nonce header) \<le> unat x" "unat x < unat (hdr_nonce header')" for x
    proof (cases "x = hdr_nonce header")
      case True
      with 3(1) show ?thesis by simp
    next
      case False
      then have "unat (hdr_nonce header) \<noteq> unat x" by (metis word_unat_eq_iff)
      with x IH u show ?thesis by auto
    qed
    with IH u show ?thesis by auto
  qed (use Suc.prems in auto)
qed auto

section \<open>What is in a template\<close>

lemma BuildBlockTemplate_Inr:
  assumes "BuildBlockTemplate E index tip payout now coinbase_data params pool = Inr t"
  obtains height selected where
    "height = ent_height (entry_at index tip) + 1" "ent_height (entry_at index tip) \<noteq> - 1"
    "selected = select_entries pool (template_coinbase height (BlockReward height (issuance params)) payout coinbase_data) params"
    "tpl_fees t = fold (\<lambda>entry fees. i64_wrap (fees + pe_fee entry)) selected 0"
    "tpl_reward t = i64_wrap (BlockReward height (issuance params) + tpl_fees t)"
    "blk_transactions (tpl_block t) = template_coinbase height (tpl_reward t) payout coinbase_data # map pe_tx selected"
    "hdr_height (blk_header (tpl_block t)) = height"
    "hdr_target_bits (blk_header (tpl_block t)) =
       NextTargetBits_at (entry_at index tip) (hdr_timestamp (blk_header (tpl_block t))) params"
    "tpl_target t = the (CompactToTarget (hdr_target_bits (blk_header (tpl_block t))))"
    "Block_ComputeMerkleRoot E (tpl_block t) = Some (hdr_merkle_root (blk_header (tpl_block t)))"
    "length coinbase_data \<le> max_coinbase_data_size (limits_tx (block_limits params))"
    "ContextualCheckBlockHeader (blk_header (tpl_block t))
       (HeaderContextFor index tip now params (Some (hdr_timestamp (blk_header (tpl_block t))))) params = Accept"
    "CheckCoinbaseAmount (tpl_block t) (tpl_fees t) params = Accept"
  using assms
  by (auto simp: BuildBlockTemplate_def Let_def Block_ComputeMerkleRoot_def split: if_splits option.splits)

lemma template_coinbase_size:
  "length (SerializeWithoutWitnesses (template_coinbase height a payout d) []) = 58 + length (Lock_Serialize payout [])"
proof -
  have o: "length (TxOutput_Serialize \<lparr>out_amount = x, out_lock = payout\<rparr> []) = 8 + length (Lock_Serialize payout [])" for x
    by (simp only: TxOutput_Serialize_def writes_seq length_fcomp [OF lock.ser_append] length_ints tx_output.simps)
  have i: "length (WriteVec TxInput_Serialize [MakeCoinbaseInput height] []) = 41"
    by (simp add: length_WriteVec [of TxInput_Serialize, OF txin.ser_append] length_TxInput size_constants CompactSizeLen_def)
  show ?thesis
    by (simp only: SerializeWithoutWitnesses_def template_coinbase_def transaction.simps writes_seq length_fcomp [OF u32.ser_append]
        length_fcomp [OF codec.ser_append [OF outputs_codec]] length_fcomp [OF codec.ser_append [OF inputs_codec]] length_ints i
        length_WriteVec [of TxOutput_Serialize, OF txout.ser_append]) (simp add: o CompactSizeLen_def)
qed

lemma template_coinbase_weight:
  "Transaction_Weight (template_coinbase height a payout d) = Transaction_Weight (template_coinbase height b payout d)"
  by (simp add: Transaction_Weight_parts template_coinbase_size) (simp add: template_coinbase_def)

lemma fold_fees: "fold (\<lambda>entry fees. i64_wrap (fees + pe_fee entry)) es (i64_wrap a) = i64_wrap (a + fees_of es)"
proof (induction es arbitrary: a)
  case (Cons e es)
  from Cons.IH [of "a + pe_fee e"] show ?case by (simp add: i64_wrap_absorb add.assoc)
qed simp

lemma i64_wrap_money: "0 \<le> x \<Longrightarrow> x \<le> MAX_MONEY \<Longrightarrow> i64_wrap x = x"
  by (rule i64_wrap_id) (simp add: i64_ok_def MAX_MONEY_def)

lemma template_coinbase_shape:
  "IsCoinbase (template_coinbase height a payout d)" "hd (tx_inputs (template_coinbase height a payout d)) = MakeCoinbaseInput height"
  "tx_outputs (template_coinbase height a payout d) = [\<lparr>out_amount = a, out_lock = payout\<rparr>]"
  by (simp_all add: template_coinbase_def IsCoinbase_def inputs_are_coinbase_def MakeCoinbaseInput_def
      is_null_outpoint_def IsZero_iff)

text \<open>The weight of a template: what is selected fits beside the coinbase, but the header and the count come on top.\<close>

lemma select_entries_weight:
  assumes "\<And>p. pool = Some p \<Longrightarrow> pool_ok E params p"
  shows "(\<Sum>e \<leftarrow> select_entries pool coinbase params. Transaction_Weight (pe_tx e)) + Transaction_Weight coinbase \<le>
    max (max_block_weight params) (Transaction_Weight coinbase)"
proof (cases pool)
  case (Some p)
  note ok = assms [OF Some]
  have w: "(\<Sum>e \<leftarrow> GetTemplates p a. Transaction_Weight (pe_tx e)) = (\<Sum>e \<leftarrow> GetTemplates p a. pe_weight e)" for a
  proof (rule arg_cong [of _ _ sum_list], rule map_cong)
    fix e assume "e \<in> set (GetTemplates p a)"
    from parents_first_entry [OF GetTemplates_ok(1) [OF ok] this] pool_okD(6) [OF ok]
    show "Transaction_Weight (pe_tx e) = pe_weight e" by (auto simp: entry_ok_def)
  qed simp
  show ?thesis using GetTemplates_ok(2) [OF ok, of "max_block_weight params - Transaction_Weight coinbase"] GetTemplates_ok(2) [OF ok, of 0]
    by (auto simp: select_entries_def Some w Let_def)
qed (simp add: select_entries_def)

lemma GetTemplates_distinct_spends:
  assumes ok: "pool_ok E params p" and "parents_first p {} es"
  shows "distinct (concat (map (\<lambda>e. outpoints_of (tx_inputs (pe_tx e))) es))"
  using assms(2)
proof (induction es rule: rev_induct)
  case (snoc e es)
  have es: "parents_first p {} es" using snoc.prems by (simp add: parents_first_append)
  obtain i where i: "entry_of p (pe_wtxid e) = Some i" "int_entry i = e"
    using parents_first_entry [OF snoc.prems, of e] by auto
  have "tx_ok params (pe_tx e)" "\<not> IsCoinbase (pe_tx e)" using pool_okD(6) [OF ok i(1)] i(2) by (simp_all add: entry_ok_def)
  then have d: "distinct (outpoints_of (tx_inputs (pe_tx e)))" by (simp add: tx_ok_def)
  have nc: "\<not> IsCoinbase (pe_tx x)" if "x \<in> set es" for x
    using parents_first_entry [OF es that] pool_okD(6) [OF ok] by (auto simp: entry_ok_def)
  have "o' \<notin> set (concat (map (\<lambda>e. outpoints_of (tx_inputs (pe_tx e))) es))" if "o' \<in> set (outpoints_of (tx_inputs (pe_tx e)))" for o'
    using spent_in_pool [OF ok snoc.prems that] nc unfolding spent_in_def by fastforce
  then have "set (concat (map (\<lambda>e. outpoints_of (tx_inputs (pe_tx e))) es)) \<inter> set (outpoints_of (tx_inputs (pe_tx e))) = {}" by blast
  with snoc.IH [OF es] d show ?case by (simp only: map_append concat_append distinct_append list.map concat.simps append_Nil2)
qed simp

section \<open>A solved template is a valid block\<close>

text \<open>The coinbase is new: no unspent coin and no pool entry has its txid.\<close>

definition coinbase_fresh :: "crypto_ext \<Rightarrow> utxo \<Rightarrow> mempool \<Rightarrow> transaction \<Rightarrow> bool" where
  "coinbase_fresh E m p cb \<longleftrightarrow> (\<forall>o'. op_txid o' = Txid E cb \<longrightarrow> m o' = None) \<and>
     (\<forall>w e. entry_of p w = Some e \<longrightarrow> pe_txid (int_entry e) \<noteq> Txid E cb)"

lemma coinbase_framed:
  assumes s: "synced E params m h p" and fresh: "coinbase_fresh E m p cb"
    and m1: "m1 = m ++ map_of (created_coins (Txid E cb) h True 0 (tx_outputs cb))"
  shows "unconfirmed m1 p \<and> judged E params m1 h p"
proof -
  note d = syncedD [OF s]
  have same: "m1 o' = m o'" if "op_txid o' \<noteq> Txid E cb" for o'
  proof -
    have "map_of (created_coins (Txid E cb) h True 0 (tx_outputs cb)) o' = None"
      using created_coins_txid that by (fastforce simp: map_of_eq_None_iff)
    then show ?thesis by (simp add: m1 map_add_def)
  qed
  have "m1 o' = None" if "entry_of p w = Some e" "op_txid o' = pe_txid (int_entry e)" for w e o'
    using that fresh d(3) same unfolding coinbase_fresh_def unconfirmed_def by metis
  moreover have "judged_entry E params m1 h p (int_entry e)" if e: "entry_of p w = Some e" for w e
  proof -
    have j: "judged_entry E params m h p (int_entry e)" using d(4) e by (simp add: judged_def)
    have "coin_for p m1 h o' = coin_for p m h o'" if o': "o' \<in> spends e" for o'
    proof -
      obtain c where c: "coin_for p m h o' = Some c" using judged_entryD [OF j o'] by blast
      have "op_txid o' \<noteq> Txid E cb"
      proof
        assume t: "op_txid o' = Txid E cb"
        then have "m o' = None" using fresh unfolding coinbase_fresh_def by blast
        with c obtain v k where "mp_by_txid p (op_txid o') = Some v" "entry_of p v = Some k" by (auto simp: coin_for_def pool_coin_Some)
        then have "pe_txid (int_entry k) = op_txid o'" using pool_okD(3) [OF d(1)] unfolding indices_ok_def by fastforce
        with t fresh \<open>entry_of p v = Some k\<close> show False unfolding coinbase_fresh_def by metis
      qed
      from same [OF this] show ?thesis by (simp add: coin_for_def)
    qed
    then show ?thesis by (rule judged_entry_cong [OF j])
  qed
  ultimately show ?thesis by (simp add: unconfirmed_def judged_def)
qed

lemma template_connects:
  assumes s: "synced E params m h p" and v: "coins_valid m" "utxo_value m \<le> MAX_MONEY" and sel: "parents_first p {} es"
    and fresh: "coinbase_fresh E m p cb" and cb: "IsCoinbase cb" "length (tx_outputs cb) = 1"
  shows "\<exists>m' undo. connect_txs E params h 0 (cb # map pe_tx es) (m, [], 0) = Inr (m', undo, fees_of es)"
    and "0 \<le> fees_of es" and "fees_of es \<le> MAX_MONEY"
proof -
  note d = syncedD [OF s]
  from selection_fees_bounded [OF d(1-4) v sel] obtain m1 where "0 \<le> fees_of es" "coins_valid m1" "utxo_value m1 + fees_of es \<le> utxo_value m"
    by blast
  then show f: "0 \<le> fees_of es" "fees_of es \<le> MAX_MONEY" using coins_valid_nonneg [of m1] v(2) by simp_all
  let ?l = "created_coins (Txid E cb) h True 0 (tx_outputs cb)"
  have "distinct (map fst ?l)" by (rule created_coins_distinct) (simp add: cb(2))
  moreover have "\<forall>o' \<in> set (map fst ?l). m o' = None"
    using fresh created_coins_txid unfolding coinbase_fresh_def by fastforce
  ultimately have 1: "connect_tx E params h True cb (m, [], 0) = Inr (m ++ map_of ?l, [], 0)"
    unfolding connect_coinbase_iff using cb(1) by blast
  from coinbase_framed [OF s fresh refl] have "unconfirmed (m ++ map_of ?l) p" "judged E params (m ++ map_of ?l) h p" by simp_all
  from selection_connects [OF d(1,2) this sel f(2), of "[]"] 1
  show "\<exists>m' undo. connect_txs E params h 0 (cb # map pe_tx es) (m, [], 0) = Inr (m', undo, fees_of es)" by simp
qed

lemma networks_limits:
  "block_limits (ParamsFor n) = block_limits REGTEST_PARAMS" "max_block_weight (ParamsFor n) = max_block_weight REGTEST_PARAMS"
  by (cases n; simp add: MAINNET_PARAMS_def TESTNET_PARAMS_def REGTEST_PARAMS_def)+

lemma networks_floor: "CompactToTarget (pow_limit_bits (ParamsFor n)) \<noteq> None"
proof -
  have "CompactToTarget POW_LIMIT_BITS \<noteq> None" "CompactToTarget REGTEST_POW_LIMIT_BITS \<noteq> None" by code_simp+
  then show ?thesis by (cases n) (simp_all add: MAINNET_PARAMS_def TESTNET_PARAMS_def REGTEST_PARAMS_def)
qed

lemma Transaction_Weight_min:
  assumes "tx_inputs tx \<noteq> []"
  shows "44 \<le> Transaction_Weight tx"
proof -
  have "40 \<le> length (WriteVec TxInput_Serialize (tx_inputs tx) [])"
    using assms by (cases "tx_inputs tx") (simp_all add: length_WriteVec [OF txin.ser_append] length_TxInput size_constants)
  moreover have "length (WriteVec TxInput_Serialize (tx_inputs tx) []) \<le> length (SerializeWithoutWitnesses tx [])"
    by (simp only: SerializeWithoutWitnesses_def writes_seq length_fcomp [OF u32.ser_append]
        length_fcomp [OF codec.ser_append [OF outputs_codec]] length_fcomp [OF codec.ser_append [OF inputs_codec]]
        le_add2 trans_le_add1)
  ultimately show ?thesis using Transaction_Weight_parts [of tx] by linarith
qed

lemma weight_bounds_count:
  assumes "Block_Weight b \<le> max_block_weight (ParamsFor n)" and "\<And>tx. tx \<in> set (blk_transactions b) \<Longrightarrow> tx_inputs tx \<noteq> []"
  shows "length (blk_transactions b) \<le> max_transactions (block_limits (ParamsFor n))"
proof -
  have "length txs * 44 \<le> sum_list (map Transaction_Weight txs)" if "\<And>tx. tx \<in> set txs \<Longrightarrow> tx_inputs tx \<noteq> []" for txs
    using that
  proof (induction txs)
    case (Cons tx txs)
    then show ?case using Transaction_Weight_min [of tx] by simp
  qed simp
  from this [of "blk_transactions b"] assms show ?thesis
    by (simp add: Block_Weight_def networks_limits regtest_limits)
qed

lemma next_bits_within_floor:
  "\<exists>t floor. CompactToTarget (pow_limit_bits (ParamsFor n)) = Some floor \<and>
     CompactToTarget (NextTargetBits_at entry timestamp (ParamsFor n)) = Some t \<and> arr_val t \<le> arr_val floor"
proof -
  have "CompactToTarget (pow_limit_bits (ParamsFor n)) \<noteq> None" by (rule networks_floor)
  then obtain floor where f: "CompactToTarget (pow_limit_bits (ParamsFor n)) = Some floor" by blast
  show ?thesis
    using AsertNextBits_rule_within_floor [OF f, of "genesis_bits (ParamsFor n)" "genesis_timestamp (ParamsFor n)"
        "uint (ent_height entry)" "hdr_timestamp (ent_header entry)" "target_block_seconds (ParamsFor n)" "asert_half_life_seconds (ParamsFor n)"] f
    by (auto simp: NextTargetBits_at_def Let_def AsertNextBits_def NextTargetBits_def)
qed

abbreviation solved :: "block_template \<Rightarrow> u64 \<Rightarrow> block" where
  "solved t nonce \<equiv> (tpl_block t)\<lparr>blk_header := (blk_header (tpl_block t))\<lparr>hdr_nonce := nonce\<rparr>\<rparr>"

lemma template_checks:
  assumes b: "BuildBlockTemplate E index tip payout now coinbase_data (ParamsFor n) (Some p) = Inr t"
    and ok: "pool_ok E (ParamsFor n) p"
    and solved: "HashMeetsTarget (BlockHeader_Hash E (blk_header (solved t nonce))) (tpl_target t)"
    and size: "Block_Weight (tpl_block t) \<le> max_block_weight (ParamsFor n)"
  shows "CheckBlock E (solved t nonce) (ParamsFor n) = Accept"
  using b
proof (cases rule: BuildBlockTemplate_Inr)
  case (1 height selected)
  let ?params = "ParamsFor n" and ?cb = "template_coinbase height (tpl_reward t) payout coinbase_data"
  obtain a where sel: "selected = GetTemplates p a" using 1(3) by (auto simp: select_entries_def Let_def)
  note pf = GetTemplates_ok(1) [OF ok, of a]
  have e: "tx_ok ?params (pe_tx x)" "\<not> IsCoinbase (pe_tx x)" if "x \<in> set selected" for x
    using parents_first_entry [OF pf] that pool_okD(6) [OF ok] unfolding sel by (fastforce simp: entry_ok_def)+
  have iss: "issuance_ok (issuance ?params)" by (rule networks_issuance_ok)
  have "IsValidAmount (tpl_reward t)"
    using 1(13) unfolding CheckCoinbaseAmount_Accept [OF iss] by (auto simp: 1(6) template_coinbase_shape)
  moreover have "Transaction_Weight ?cb \<le> max_block_weight ?params" using size by (simp add: Block_Weight_def 1(6))
  ultimately have "tx_ok ?params ?cb"
    using 1(11) by (simp add: tx_ok_def template_coinbase_shape networks_limits regtest_limits) (simp add: template_coinbase_def)
  moreover have "distinct (concat (map (\<lambda>tx. map in_outpoint (tx_inputs tx)) (map pe_tx selected)))"
    using GetTemplates_distinct_spends [OF ok pf] unfolding sel by (simp add: comp_def)
  moreover obtain target floor where "CompactToTarget (pow_limit_bits ?params) = Some floor"
    "CompactToTarget (hdr_target_bits (blk_header (tpl_block t))) = Some target" "arr_val target \<le> arr_val floor"
    unfolding 1(8) using next_bits_within_floor by blast
  then have "CheckBlockHeader E (blk_header (solved t nonce)) ?params = Accept"
    unfolding CheckBlockHeader_Accept using solved by (simp add: 1(9) HashMeetsTarget_iff)
  moreover have "length (blk_transactions (tpl_block t)) \<le> max_transactions (block_limits ?params)"
    by (rule weight_bounds_count [OF size]) (use e calculation(1) in \<open>auto simp: 1(6) tx_ok_def\<close>)
  ultimately show ?thesis
    using size e 1(7,10) by (auto simp: CheckBlock_Accept 1(6) Block_Weight_def template_coinbase_shape MakeCoinbaseInput_def Block_ComputeMerkleRoot_def)
qed

section \<open>Properties\<close>

text \<open>
  Property C11. What the node mines it accepts: a template built on the tip from a pool the keeper
  kept in step, once its nonce is solved, passes \<^verbatim>\<open>CheckBlock\<close> and connects to the coins, with
  exactly the fees and the reward the template reports, provided the block is within the weight
  limit and its coinbase is new.
\<close>

theorem template_is_valid_block:
  assumes "(keeper_step E (ParamsFor n))\<^sup>*\<^sup>* (m0, h0, Mempool_new) (m, h, p)"
    and "h = ent_height (entry_at index tip) + 1" and "coins_valid m" and "utxo_value m \<le> MAX_MONEY"
    and "BuildBlockTemplate E index tip payout now coinbase_data (ParamsFor n) (Some p) = Inr t"
    and "coinbase_fresh E m p (hd (blk_transactions (tpl_block t)))"
    and "HashMeetsTarget (BlockHeader_Hash E (blk_header (solved t nonce))) (tpl_target t)"
    and "Block_Weight (tpl_block t) \<le> max_block_weight (ParamsFor n)"
    and "cache_ok coins" and "GetCoin coins = m"
  shows "CheckBlock E (solved t nonce) (ParamsFor n) = Accept \<and>
    (\<exists>res coins'. ConnectBlock E (solved t nonce) coins (ParamsFor n) = (Inr res, coins') \<and> res_total_fees res = tpl_fees t) \<and>
    tpl_reward t = BlockReward h (issuance (ParamsFor n)) + tpl_fees t"
  using assms(5)
proof (cases rule: BuildBlockTemplate_Inr)
  case (1 height selected)
  let ?params = "ParamsFor n" and ?b = "solved t nonce"
  have s: "synced E ?params m h p" using keeper_reachable_kept [OF assms(1)] by (simp add: kept_def)
  note ok = syncedD(1) [OF s]
  have hh: "height = h" using 1(1) assms(2) by simp
  obtain a where sel: "selected = GetTemplates p a" using 1(3) by (auto simp: select_entries_def Let_def)
  have pf: "parents_first p {} selected" unfolding sel by (rule GetTemplates_ok(1) [OF ok])
  let ?cb = "template_coinbase height (tpl_reward t) payout coinbase_data"
  have fresh: "coinbase_fresh E m p ?cb" using assms(6) by (simp add: 1(6))
  note c = template_connects [OF s assms(3,4) pf fresh template_coinbase_shape(1)]
  have f: "0 \<le> fees_of selected" "fees_of selected \<le> MAX_MONEY" using c(2,3) by (simp_all add: template_coinbase_shape)
  have fees: "tpl_fees t = fees_of selected"
    using fold_fees [of selected 0] f by (simp add: 1(4) i64_wrap_money)
  obtain m' undo where con: "connect_txs E ?params h 0 (blk_transactions (tpl_block t)) (m, [], 0) = Inr (m', undo, tpl_fees t)"
    using c(1) by (auto simp: template_coinbase_shape 1(6) fees)
  have b: "blk_transactions ?b = blk_transactions (tpl_block t)" "hdr_height (blk_header ?b) = hdr_height (blk_header (tpl_block t))" by simp_all
  have same: "CheckCoinbaseAmount ?b (tpl_fees t) ?params = Accept"
    using 1(13) unfolding CheckCoinbaseAmount_def b .
  have "connect_spec E ?params ?b m = Inr (\<lparr>res_undo = \<lparr>undo_transactions = undo\<rparr>, res_total_fees = tpl_fees t\<rparr>, m')"
    using con same 1(7) by (simp add: connect_spec_def hh) (simp add: 1(6) template_coinbase_shape)
  then have "\<exists>res coins'. ConnectBlock E ?b coins ?params = (Inr res, coins') \<and> res_total_fees res = tpl_fees t"
    using ConnectBlock_refines [OF assms(9), of E ?params ?b] unfolding assms(10)
    by (cases "ConnectBlock E ?b coins ?params"; cases "fst (ConnectBlock E ?b coins ?params)") auto
  moreover have "tpl_reward t = BlockReward h (issuance ?params) + tpl_fees t"
  proof -
    have iss: "issuance_ok (issuance ?params)" by (rule networks_issuance_ok)
    have "0 \<le> BlockReward h (issuance ?params)" "7 * BlockReward h (issuance ?params) \<le> INT64_MAX"
      using BlockReward_bounds [OF iss, of h] issuance_okD(3) [OF iss] by linarith+
    then have "i64_ok (BlockReward h (issuance ?params) + tpl_fees t)" using f by (simp add: i64_ok_def fees MAX_MONEY_def)
    then show ?thesis by (simp add: 1(5) hh)
  qed
  ultimately show ?thesis using template_checks [OF assms(5) ok assms(7,8)] by blast
qed

text \<open>
  Searching for a nonce moves only the nonce, forwards and by no more than the budget;
  a nonce that is returned meets the target and every nonce passed over does not; and searching
  with a budget and then with another is searching with their sum.
\<close>

theorem solve_header_searches:
  assumes "SolveHeader E header t attempts = (found, header')"
  shows "header' = header\<lparr>hdr_nonce := hdr_nonce header'\<rparr> \<and>
    unat (hdr_nonce header) \<le> unat (hdr_nonce header') \<and>
    unat (hdr_nonce header') \<le> unat (hdr_nonce header) + unat attempts \<and>
    (found \<longrightarrow> HashMeetsTarget (BlockHeader_Hash E header') t) \<and>
    (\<forall>x. unat (hdr_nonce header) \<le> unat x \<and> unat x < unat (hdr_nonce header') \<longrightarrow>
       \<not> HashMeetsTarget (BlockHeader_Hash E (header\<lparr>hdr_nonce := x\<rparr>)) t) \<and>
    (\<forall>more. unat attempts + unat more < 2 ^ 64 \<longrightarrow> SolveHeader E header t (attempts + more) =
       (if found then (True, header') else SolveHeader E header' t more))"
proof -
  have "SolveHeader E header t (attempts + more) = (if found then (True, header') else SolveHeader E header' t more)"
    if "unat attempts + unat more < 2 ^ 64" for more
  proof -
    have "unat (attempts + more) = unat attempts + unat more" using that by (simp add: unat_add_lem [symmetric])
    then show ?thesis using SolveHeader_loop_split [of E t "unat attempts" "unat more" header] assms
      by (auto simp: SolveHeader_def split: bool.splits)
  qed
  with SolveHeader_loop_spec [of E t "unat attempts" header found header'] assms show ?thesis
    unfolding SolveHeader_def by blast
qed

section \<open>A template, concretely\<close>

definition example_room :: "nat \<Rightarrow> chain_params" where
  "example_room room = REGTEST_PARAMS\<lparr>max_block_weight := room\<rparr>"

definition example_index :: block_index where
  "example_index = ForNetwork example_crypto REGTEST_PARAMS"

definition example_now :: i64 where "example_now = GENESIS_TIMESTAMP + 600"

definition example_payout :: lock where "example_payout = \<lparr>lock_version = 2, lock_program = []\<rparr>"

definition example_template :: "nat \<Rightarrow> template_error + block_template" where
  "example_template room = BuildBlockTemplate example_crypto example_index (idx_genesis example_index) example_payout
     example_now [] (example_room room) (Some example_pool)"

lemma example_tip:
  "ent_height (entry_at example_index (idx_genesis example_index)) = 0"
  "ent_parent (entry_at example_index (idx_genesis example_index)) = None"
  "hdr_timestamp (ent_header (entry_at example_index (idx_genesis example_index))) = GENESIS_TIMESTAMP"
  "ent_hash (entry_at example_index (idx_genesis example_index)) = idx_genesis example_index"
  by (simp_all add: entry_at_def example_index_def ForNetwork_Find ForNetwork_fields genesis_shape)
    (simp add: BuildGenesisBlock_def Let_def REGTEST_PARAMS_def)

lemma example_selection:
  assumes "285 \<le> available"
  shows "GetTemplates example_pool available = [new_pool_entry example_crypto example_spend 995 0]"
proof -
  let ?w = "Wtxid example_crypto example_spend" and ?l = "GetTemplates example_pool available"
  note ok = pool_reachable_ok(1) [OF example_pool_reachable]
  have "pool_weight example_pool = 285" by (simp add: pool_weight_def example_pool_entry new_pool_entry_def example_spend_weight)
  then have set: "pe_wtxid ` set ?l = {?w}" using GetTemplates_ok(4) [OF ok, of available] assms by (simp add: Wtxids_def example_pool_entry)
  have e: "e = new_pool_entry example_crypto example_spend 995 0" if "e \<in> set ?l" for e
    using parents_first_entry [OF GetTemplates_ok(1) [OF ok] that] by (auto simp: example_pool_entry split: if_splits)
  have d: "distinct (map pe_wtxid ?l)" by (rule GetTemplates_ok(3) [OF ok])
  show ?thesis
  proof (cases ?l)
    case Nil
    with set show ?thesis by simp
  next
    case (Cons x xs)
    have "xs = []"
    proof (cases xs)
      case (Cons y ys)
      with \<open>?l = x # xs\<close> e [of x] e [of y] d show ?thesis by simp
    qed simp
    with Cons e [of x] show ?thesis by simp
  qed
qed

lemma example_sizes:
  "length (SerializeWithoutWitnesses (template_coinbase 1 amount example_payout []) []) = 60"
  "Transaction_Weight (template_coinbase 1 amount example_payout []) = 241"
  "length (SerializeWithoutWitnesses example_spend []) = 70"
proof -
  have l: "length (Lock_Serialize \<lparr>lock_version = v, lock_program = []\<rparr> []) = 2" for v
    by (simp add: Lock_Serialize_def WriteByteString_def WriteCompactSize_def WriteU8_def WriteBytes_def)
  then show c: "length (SerializeWithoutWitnesses (template_coinbase 1 amount example_payout []) []) = 60"
    by (simp add: template_coinbase_size example_payout_def)
  have "inputs_are_coinbase [MakeCoinbaseInput 1]"
    by (simp add: inputs_are_coinbase_def MakeCoinbaseInput_def is_null_outpoint_def IsZero_iff)
  then have "length (tx_tail_ser [MakeCoinbaseInput 1] ([], []) []) = 1"
    by (simp add: tx_tail_ser_def WriteByteString_def WriteCompactSize_def WriteU8_def WriteBytes_def)
  then show "Transaction_Weight (template_coinbase 1 amount example_payout []) = 241"
    unfolding Transaction_Weight_parts c by (simp add: template_coinbase_def)
  have "length (WriteVec TxInput_Serialize (tx_inputs example_spend) []) = 41"
    by (simp add: example_spend_def length_WriteVec [of TxInput_Serialize, OF txin.ser_append] length_TxInput size_constants CompactSizeLen_def)
  moreover have "length (TxOutput_Serialize \<lparr>out_amount = x, out_lock = \<lparr>lock_version = v, lock_program = []\<rparr>\<rparr> []) = 10" for x v
    by (simp only: TxOutput_Serialize_def writes_seq length_fcomp [OF lock.ser_append] length_ints tx_output.simps l)
  then have "length (WriteVec TxOutput_Serialize (tx_outputs example_spend) []) = 21"
    by (simp add: example_spend_def length_WriteVec [of TxOutput_Serialize, OF txout.ser_append] CompactSizeLen_def)
  ultimately show "length (SerializeWithoutWitnesses example_spend []) = 70"
    by (simp only: SerializeWithoutWitnesses_def writes_seq length_fcomp [OF u32.ser_append]
        length_fcomp [OF codec.ser_append [OF outputs_codec]] length_fcomp [OF codec.ser_append [OF inputs_codec]] length_ints)
qed

text \<open>The example's hash, applied twice, keeps the length of what is hashed in its last byte but one, and its last byte is zero.\<close>

lemma example_double_hash:
  "\<exists>xs. Hash256_Span (DoubleSha256 example_crypto bs) = 32 # xs @ [of_nat (length bs), 0] \<and> length xs = 29"
proof -
  let ?s = "Hash256_Span (Sha256 example_crypto bs)"
  obtain ys where s: "?s = of_nat (length bs) # ys" "length ys = 31"
    by (simp add: Sha256_def example_crypto_def Hash256_Span_def arr_of_rep)
  have "length (rev ys) = Suc (Suc 29)" using s(2) by simp
  then obtain a b zs where r: "rev ys = a # b # zs" "length zs = 29" unfolding length_Suc_conv by blast
  have "Hash256_Span (DoubleSha256 example_crypto bs) = take 32 ((32 # take 31 (drop 2 (rev ?s))) @ replicate 32 0)"
    by (simp add: DoubleSha256_def Sha256_def example_crypto_def Hash256_Span_def arr_of_rep)
  also have "drop 2 (rev ?s) = zs @ [of_nat (length bs)]" by (simp add: s r numeral_2_eq_2)
  finally show ?thesis using r(2) by (intro exI [of _ zs]) (simp add: numeral_eq_Suc)
qed

lemma example_hash_facts:
  "HashMeetsTarget (DoubleSha256 example_crypto bs) (the (CompactToTarget REGTEST_POW_LIMIT_BITS))"
  "DoubleSha256 example_crypto bs \<noteq> Hash256_zero"
  "(of_nat (length as) :: u8) \<noteq> of_nat (length bs) \<Longrightarrow> DoubleSha256 example_crypto as \<noteq> DoubleSha256 example_crypto bs"
proof -
  obtain xs where x: "Hash256_Span (DoubleSha256 example_crypto bs) = 32 # xs @ [of_nat (length bs), 0]" "length xs = 29"
    using example_double_hash by blast
  obtain ys where y: "Hash256_Span (DoubleSha256 example_crypto as) = 32 # ys @ [of_nat (length as), 0]" "length ys = 29"
    using example_double_hash by blast
  have "hd (Hash256_Span Hash256_zero) = 0" by (simp add: Hash256_zero_def Hash256_Span_def arr_of_rep)
  then show "DoubleSha256 example_crypto bs \<noteq> Hash256_zero" using x(1) by auto
  show "DoubleSha256 example_crypto as \<noteq> DoubleSha256 example_crypto bs" if "(of_nat (length as) :: u8) \<noteq> of_nat (length bs)"
    using that x y by auto
  have "le_val (zs @ [0]) = le_val zs" for zs by (induction zs) simp_all
  from this [of "32 # xs @ [of_nat (length bs)]"] have "hash_val (DoubleSha256 example_crypto bs) < 256 ^ 31"
    using le_val_less [of "32 # xs @ [of_nat (length bs)]"] x by (simp add: hash_val_def)
  moreover have "256 ^ 31 \<le> arr_val (the (CompactToTarget REGTEST_POW_LIMIT_BITS))"
  proof -
    have "CompactToTarget REGTEST_POW_LIMIT_BITS \<noteq> None" by code_simp
    then obtain t where t: "CompactToTarget REGTEST_POW_LIMIT_BITS = Some t" by blast
    have "unat (REGTEST_POW_LIMIT_BITS AND 0x00FFFFFF) = 0x7FFFFF" "unat (drop_bit 24 REGTEST_POW_LIMIT_BITS) = 32"
      by (simp_all add: REGTEST_POW_LIMIT_BITS_def)
    with CompactToTarget_SomeD(3) [OF t] have "arr_val t * 256 ^ 3 = 0x7FFFFF * 256 ^ 32" by simp
    then show ?thesis by (simp add: t)
  qed
  ultimately show "HashMeetsTarget (DoubleSha256 example_crypto bs) (the (CompactToTarget REGTEST_POW_LIMIT_BITS))"
    by (simp add: HashMeetsTarget_iff)
qed

lemma example_room_fields:
  "issuance (example_room room) = issuance REGTEST_PARAMS" "block_limits (example_room room) = block_limits REGTEST_PARAMS"
  "trivial_difficulty (example_room room)" "pow_limit_bits (example_room room) = REGTEST_POW_LIMIT_BITS"
  "max_block_weight (example_room room) = room" "example_room 2000000 = REGTEST_PARAMS" "chain_id (example_room room) = chain_id REGTEST_PARAMS"
  "coinbase_maturity (example_room room) = coinbase_maturity REGTEST_PARAMS"
  by (simp_all add: example_room_def) (simp_all add: REGTEST_PARAMS_def MAX_BLOCK_WEIGHT_def)

lemma example_reward_1: "BlockReward 1 (issuance REGTEST_PARAMS) = initial_reward MAINNET_ISSUANCE"
  by (simp add: REGTEST_PARAMS_def) code_simp

lemma example_built:
  assumes "526 \<le> room"
  obtains t where "example_template room = Inr t" "tpl_fees t = 995"
    "blk_transactions (tpl_block t) = [template_coinbase 1 (initial_reward MAINNET_ISSUANCE + 995) example_payout [], example_spend]"
    "hdr_target_bits (blk_header (tpl_block t)) = REGTEST_POW_LIMIT_BITS" "tpl_target t = the (CompactToTarget REGTEST_POW_LIMIT_BITS)"
proof -
  let ?cb = "\<lambda>a. template_coinbase 1 a example_payout []" and ?tip = "idx_genesis example_index"
  have r: "0 \<le> initial_reward MAINNET_ISSUANCE" "initial_reward MAINNET_ISSUANCE + 995 \<le> MAX_MONEY"
    by (simp_all add: MAINNET_ISSUANCE_def FACETS_PER_AMR_def MAX_MONEY_def)
  have sel: "select_entries (Some example_pool) (?cb a) (example_room room) = [new_pool_entry example_crypto example_spend 995 0]" for a
    using assms by (simp add: select_entries_def Let_def example_sizes example_room_fields example_selection)
  have target: "CompactToTarget REGTEST_POW_LIMIT_BITS \<noteq> None" by code_simp
  have ts: "template_timestamp example_index ?tip example_now = example_now"
    by (simp add: template_timestamp_def MedianTimePastAt_def MEDIAN_TIME_SPAN_def numeral_eq_Suc example_tip MedianTimePast_def
        example_now_def GENESIS_TIMESTAMP_def)
  have med: "MedianTimePastAt example_index ?tip = GENESIS_TIMESTAMP"
    by (simp add: MedianTimePastAt_def MEDIAN_TIME_SPAN_def numeral_eq_Suc example_tip MedianTimePast_def)
  have iss: "issuance_ok (issuance (example_room room))" using networks_issuance_ok [of Regtest] by (simp add: example_room_fields)
  have fees: "i64_wrap 995 = 995" "i64_wrap (initial_reward MAINNET_ISSUANCE + 995) = initial_reward MAINNET_ISSUANCE + 995"
    using r by (simp_all add: i64_wrap_money MAX_MONEY_def)
  have bits: "NextTargetBits_at e ts (example_room room) = REGTEST_POW_LIMIT_BITS" "NextTargetBits e (example_room room) = REGTEST_POW_LIMIT_BITS" for e ts
    by (simp_all add: NextTargetBits_at_def NextTargetBits_def example_room_fields)
  obtain mr where mr: "ComputeMerkleRoot example_crypto (map (Wtxid example_crypto) [?cb (initial_reward MAINNET_ISSUANCE + 995), example_spend]) = Some mr"
    by (simp add: ComputeMerkleRoot_def Let_def)
  let ?h = "\<lparr>hdr_version = 1, hdr_height = 1, hdr_prev_block = ?tip, hdr_merkle_root = mr, hdr_timestamp = example_now,
    hdr_target_bits = REGTEST_POW_LIMIT_BITS, hdr_nonce = 0\<rparr>"
  let ?b = "\<lparr>blk_header = ?h, blk_transactions = [?cb (initial_reward MAINNET_ISSUANCE + 995), example_spend]\<rparr>"
  have ctx: "ContextualCheckBlockHeader ?h (HeaderContextFor example_index ?tip example_now (example_room room) (Some example_now)) (example_room room) = Accept"
    by (simp add: ContextualCheckBlockHeader_def HeaderContextFor_def example_tip bits med CheckedAdd_def example_now_def
        GENESIS_TIMESTAMP_def MAX_FUTURE_BLOCK_SECONDS_def in_limits_def int64_limits_def)
  have amount: "CheckCoinbaseAmount ?b 995 (example_room room) = Accept"
    unfolding CheckCoinbaseAmount_Accept [OF iss]
    using r by (simp add: template_coinbase_shape IsValidAmount_def example_room_fields example_reward_1 MAX_MONEY_def)
  have "example_template room = Inr \<lparr>tpl_block = ?b, tpl_target = the (CompactToTarget REGTEST_POW_LIMIT_BITS),
      tpl_reward = initial_reward MAINNET_ISSUANCE + 995, tpl_fees = 995\<rparr>"
    using target ctx amount mr
    by (auto simp: example_template_def BuildBlockTemplate_def Let_def example_tip example_room_fields regtest_limits bits ts sel
        example_reward_1 fees new_pool_entry_def)
  from that [OF this] show thesis by simp
qed

theorem template_is_valid_block_witness:
  "\<exists>t res coins'. example_template 2000000 = Inr t \<and>
     CheckBlock example_crypto (solved t 0) REGTEST_PARAMS = Accept \<and>
     ConnectBlock example_crypto (solved t 0) (Over (map_view example_utxo)) REGTEST_PARAMS = (Inr res, coins') \<and>
     res_total_fees res = 995"
proof -
  obtain t where t: "example_template 2000000 = Inr t" "tpl_fees t = 995"
    "blk_transactions (tpl_block t) = [template_coinbase 1 (initial_reward MAINNET_ISSUANCE + 995) example_payout [], example_spend]"
    "hdr_target_bits (blk_header (tpl_block t)) = REGTEST_POW_LIMIT_BITS" "tpl_target t = the (CompactToTarget REGTEST_POW_LIMIT_BITS)"
    by (rule example_built [of 2000000]) simp_all
  have b: "BuildBlockTemplate example_crypto example_index (idx_genesis example_index) example_payout example_now [] (ParamsFor Regtest)
      (Some example_pool) = Inr t"
    using t(1) by (simp add: example_template_def example_room_fields)
  let ?cb = "template_coinbase 1 (initial_reward MAINNET_ISSUANCE + 995) example_payout []"
  have ids: "Txid example_crypto ?cb \<noteq> Hash256_zero" "Txid example_crypto example_spend \<noteq> Txid example_crypto ?cb"
    unfolding Txid_def by (rule example_hash_facts(2), rule example_hash_facts(3)) (simp add: example_sizes)
  have fresh: "coinbase_fresh example_crypto example_utxo example_pool (hd (blk_transactions (tpl_block t)))"
    using ids by (auto simp: coinbase_fresh_def t(3) example_utxo_def example_outpoint_def example_pool_entry new_pool_entry_def)
  have coins: "coins_valid example_utxo" "utxo_value example_utxo \<le> MAX_MONEY"
    by (simp_all add: coins_valid_def utxo_value_def example_utxo_def rich_coin_def MAX_MONEY_def)
  have kept: "(keeper_step example_crypto (ParamsFor Regtest))\<^sup>*\<^sup>* (example_utxo, 1, Mempool_new) (example_utxo, 1, example_pool)"
    using example_kept by simp
  have w: "Block_Weight (tpl_block t) \<le> max_block_weight (ParamsFor Regtest)"
    by (simp add: Block_Weight_def t(3) example_sizes example_spend_weight regtest_limits size_constants CompactSizeLen_def WITNESS_SCALE_FACTOR_def)
  have h: "HashMeetsTarget (BlockHeader_Hash example_crypto (blk_header (solved t 0))) (tpl_target t)"
    unfolding BlockHeader_Hash_def t(5) by (rule example_hash_facts(1))
  have "(1 :: u32) = ent_height (entry_at example_index (idx_genesis example_index)) + 1" by (simp add: example_tip)
  from template_is_valid_block [OF kept this coins b fresh h w map_view_cache(1,2)] t(1,2) show ?thesis by auto
qed

theorem solve_header_searches_witness:
  "\<exists>found header'. SolveHeader example_crypto (blk_header (BuildGenesisBlock example_crypto REGTEST_PARAMS))
       (the (CompactToTarget REGTEST_POW_LIMIT_BITS)) 1 = (found, header') \<and>
     hdr_height header' = 0 \<and> HashMeetsTarget (BlockHeader_Hash example_crypto header') (the (CompactToTarget REGTEST_POW_LIMIT_BITS))"
proof -
  let ?h = "blk_header (BuildGenesisBlock example_crypto REGTEST_PARAMS)" and ?t = "the (CompactToTarget REGTEST_POW_LIMIT_BITS)"
  have "SolveHeader example_crypto ?h ?t 1 = (True, ?h)"
    using example_hash_facts(1) by (simp add: SolveHeader_def BlockHeader_Hash_def)
  from solve_header_searches [OF this] this show ?thesis by (auto simp: genesis_shape)
qed


end
