(* ===== verification/Wire.thy ===== *)
theory Wire
  imports Params Commitments
begin

text \<open>
  The wire protocol (\<^verbatim>\<open>net/message\<close>, \<^verbatim>\<open>net/protocol\<close>): the frame around every message and the payload of
  each command. An enumeration with a fixed underlying type holds any value of that type, so a
  command or an inventory type without an enumerator is a constructor of its own. The checksum is
  copied out of the digest byte by byte; the build is a little-endian one, so as an integer it is the
  little-endian value of the first four bytes. Every payload is a \<open>codec\<close>; a frame is recognised
  exactly when it is what the sender writes.
\<close>

section \<open>Commands and frames\<close>

definition HEADER_SIZE :: nat where "HEADER_SIZE = 14"

definition MAX_MESSAGE_SIZE :: nat where "MAX_MESSAGE_SIZE = 4 * 2 ^ 20"

datatype command =
    Hello | HelloAck | GetHeaders | Headers | Inv | GetData | Tx | Block | GetAddr | Addr | Ping | Pong
  | UnnamedCommand u16

definition COMMAND_COUNT :: nat where "COMMAND_COUNT = 12"

primrec command_id :: "command \<Rightarrow> u16" where
  "command_id Hello = 0"
| "command_id HelloAck = 1"
| "command_id GetHeaders = 2"
| "command_id Headers = 3"
| "command_id Inv = 4"
| "command_id GetData = 5"
| "command_id Tx = 6"
| "command_id Block = 7"
| "command_id GetAddr = 8"
| "command_id Addr = 9"
| "command_id Ping = 10"
| "command_id Pong = 11"
| "command_id (UnnamedCommand n) = n"

definition ENUMERATED_COMMANDS :: "command list" where
  "ENUMERATED_COMMANDS = [Hello, HelloAck, GetHeaders, Headers, Inv, GetData, Tx, Block, GetAddr, Addr, Ping, Pong]"

text \<open>\<^verbatim>\<open>static_cast<Command>\<close>.\<close>

definition to_command :: "u16 \<Rightarrow> command" where
  "to_command n = (if unat n < length ENUMERATED_COMMANDS then ENUMERATED_COMMANDS ! unat n else UnnamedCommand n)"

definition IsKnownCommand :: "u16 \<Rightarrow> bool" where
  "IsKnownCommand n \<longleftrightarrow> unat n < COMMAND_COUNT"

primrec CommandName :: "command \<Rightarrow> string" where
  "CommandName Hello = ''hello''"
| "CommandName HelloAck = ''hello_ack''"
| "CommandName GetHeaders = ''getheaders''"
| "CommandName Headers = ''headers''"
| "CommandName Inv = ''inv''"
| "CommandName GetData = ''getdata''"
| "CommandName Tx = ''tx''"
| "CommandName Block = ''block''"
| "CommandName GetAddr = ''getaddr''"
| "CommandName Addr = ''addr''"
| "CommandName Ping = ''ping''"
| "CommandName Pong = ''pong''"
| "CommandName (UnnamedCommand n) = ''unknown''"

record message =
  msg_command :: command
  msg_payload :: byte_vec

text \<open>The fields of \<^verbatim>\<open>Framed\<close> that its result makes valid.\<close>

datatype framed = Complete message nat | NeedMore | Malformed string

definition checksum_of :: "crypto_ext \<Rightarrow> byte_vec \<Rightarrow> u32" where
  "checksum_of E payload = of_nat (le_val (take 4 (Hash256_Span (DoubleSha256 E payload))))"

definition ValidateChecksum :: "crypto_ext \<Rightarrow> byte_vec \<Rightarrow> u32 \<Rightarrow> bool" where
  "ValidateChecksum E payload checksum \<longleftrightarrow>
     (if payload = [] then checksum = 0 else checksum_of E payload = checksum)"

text \<open>\<^verbatim>\<open>std::to_string\<close> of an unsigned value.\<close>

fun to_string :: "nat \<Rightarrow> string" where
  "to_string n = (if n < 10 then [char_of (48 + n)] else to_string (n div 10) @ [char_of (48 + n mod 10)])"

declare to_string.simps [simp del]

definition FrameMessage :: "crypto_ext \<Rightarrow> byte_vec \<Rightarrow> network_magic \<Rightarrow> framed" where
  "FrameMessage E buffer expected_magic =
     (if length buffer < HEADER_SIZE then NeedMore
      else case ReadBytes 4 (Reader (take HEADER_SIZE buffer)) of
        (None, _) \<Rightarrow> Malformed ''cannot read magic''
      | (Some m, r1) \<Rightarrow>
          if m \<noteq> expected_magic then Malformed ''magic mismatch''
          else (case ReadU16 r1 of
            (None, _) \<Rightarrow> Malformed ''cannot read command''
          | (Some cmd_raw, r2) \<Rightarrow>
              if \<not> IsKnownCommand cmd_raw then Malformed (''unknown command '' @ to_string (unat cmd_raw))
              else (case ReadU32 r2 of
                (None, _) \<Rightarrow> Malformed ''cannot read length''
              | (Some len, r3) \<Rightarrow>
                  if unat len > MAX_MESSAGE_SIZE
                  then Malformed (''message exceeds maximum size: '' @ to_string (unat len))
                  else (case ReadU32 r3 of
                    (None, _) \<Rightarrow> Malformed ''cannot read checksum''
                  | (Some checksum, r4) \<Rightarrow>
                      let total_size = HEADER_SIZE + unat len; payload = take (unat len) (drop HEADER_SIZE buffer)
                      in if length buffer < total_size then NeedMore
                         else if \<not> ValidateChecksum E payload checksum then Malformed ''checksum mismatch''
                         else Complete \<lparr>msg_command = to_command cmd_raw, msg_payload = payload\<rparr> total_size))))"

definition SerialiseMessage :: "crypto_ext \<Rightarrow> command \<Rightarrow> byte_vec \<Rightarrow> network_magic \<Rightarrow> byte_vec" where
  "SerialiseMessage E command payload net_magic =
     writes
      [WriteBytes net_magic,
       WriteU16 (command_id command),
       WriteU32 (of_nat (length payload)),
       WriteU32 (if length payload > 0 then checksum_of E payload else 0),
       WriteBytes payload] []"

section \<open>Payloads\<close>

definition ReadHash256Vec :: "nat \<Rightarrow> hash256 list read" where
  "ReadHash256Vec max_items = ReadVec max_items 32 ReadHash256"

definition WriteHash256Vec :: "hash256 list \<Rightarrow> writer \<Rightarrow> writer" where
  "WriteHash256Vec = WriteVec WriteHash256"

datatype inventory_type = Inventory_Error | Inventory_Transaction | Inventory_Block | UnnamedInventory u32

primrec inventory_type_id :: "inventory_type \<Rightarrow> u32" where
  "inventory_type_id Inventory_Error = 0"
| "inventory_type_id Inventory_Transaction = 1"
| "inventory_type_id Inventory_Block = 2"
| "inventory_type_id (UnnamedInventory n) = n"

definition to_inventory_type :: "u32 \<Rightarrow> inventory_type" where
  "to_inventory_type n =
     (if n = 0 then Inventory_Error else if n = 1 then Inventory_Transaction
      else if n = 2 then Inventory_Block else UnnamedInventory n)"

record inventory =
  inv_type :: inventory_type
  inv_hash :: hash256

definition SerializeInventory :: "inventory \<Rightarrow> writer \<Rightarrow> writer" where
  "SerializeInventory item = writes [WriteU32 (inventory_type_id (inv_type item)), WriteHash256 (inv_hash item)]"

definition DeserializeInventory :: "inventory read" where
  "DeserializeInventory = read_then ReadU32 (\<lambda>raw_type. read_then ReadHash256 (\<lambda>hash.
     read_ret \<lparr>inv_type = to_inventory_type raw_type, inv_hash = hash\<rparr>))"

definition NODE_HISTORICAL :: u64 where "NODE_HISTORICAL = 1"

definition NODE_RELAY :: u64 where "NODE_RELAY = 2"

record hello_payload =
  hello_protocol_version :: u32
  hello_services :: u64
  hello_timestamp :: i64
  hello_chain_id :: hash256
  hello_best_height :: u32
  hello_nonce :: u64
  hello_user_agent :: byte_vec

definition HelloPayload_Serialize :: "hello_payload \<Rightarrow> writer \<Rightarrow> writer" where
  "HelloPayload_Serialize p = writes
     [WriteU32 (hello_protocol_version p), WriteU64 (hello_services p), WriteI64 (hello_timestamp p),
      WriteHash256 (hello_chain_id p), WriteU32 (hello_best_height p), WriteU64 (hello_nonce p),
      WriteByteString (hello_user_agent p)]"

definition HelloPayload_Deserialize :: "nat \<Rightarrow> hello_payload read" where
  "HelloPayload_Deserialize max_user_agent_len =
     read_then ReadU32 (\<lambda>version. read_then ReadU64 (\<lambda>services. read_then ReadI64 (\<lambda>timestamp.
     read_then ReadHash256 (\<lambda>chain. read_then ReadU32 (\<lambda>height. read_then ReadU64 (\<lambda>nonce.
     read_then (ReadByteString max_user_agent_len) (\<lambda>agent.
       read_ret \<lparr>hello_protocol_version = version, hello_services = services, hello_timestamp = timestamp,
         hello_chain_id = chain, hello_best_height = height, hello_nonce = nonce, hello_user_agent = agent\<rparr>)))))))"

text \<open>\<^verbatim>\<open>HelloAckPayload\<close> has no fields; \<^verbatim>\<open>GetAddrPayload\<close> is the same type.\<close>

definition HelloAckPayload_Serialize :: "unit \<Rightarrow> writer \<Rightarrow> writer" where
  "HelloAckPayload_Serialize _ w = w"

definition HelloAckPayload_Deserialize :: "unit read" where
  "HelloAckPayload_Deserialize r = (Some (), r)"

record getheaders_payload =
  gh_protocol_version :: u32
  gh_locator :: "hash256 list"
  gh_stop_hash :: hash256

definition GetHeadersPayload_Serialize :: "getheaders_payload \<Rightarrow> writer \<Rightarrow> writer" where
  "GetHeadersPayload_Serialize p =
     writes [WriteU32 (gh_protocol_version p), WriteHash256Vec (gh_locator p), WriteHash256 (gh_stop_hash p)]"

definition GetHeadersPayload_Deserialize :: "nat \<Rightarrow> getheaders_payload read" where
  "GetHeadersPayload_Deserialize max_items =
     read_then ReadU32 (\<lambda>version. read_then (ReadHash256Vec max_items) (\<lambda>locator. read_then ReadHash256 (\<lambda>stop.
       read_ret \<lparr>gh_protocol_version = version, gh_locator = locator, gh_stop_hash = stop\<rparr>)))"

definition HeadersPayload_MAX_COUNT :: nat where "HeadersPayload_MAX_COUNT = 2000"

text \<open>The payloads that are one vector are the vector.\<close>

definition HeadersPayload_Serialize :: "block_header list \<Rightarrow> writer \<Rightarrow> writer" where
  "HeadersPayload_Serialize = WriteVec BlockHeader_Serialize"

definition HeadersPayload_Deserialize :: "block_header list read" where
  "HeadersPayload_Deserialize = ReadVec HeadersPayload_MAX_COUNT BlockHeader_SIZE BlockHeader_Deserialize"

definition GetDataPayload_Serialize :: "inventory list \<Rightarrow> writer \<Rightarrow> writer" where
  "GetDataPayload_Serialize = WriteVec SerializeInventory"

definition GetDataPayload_Deserialize :: "nat \<Rightarrow> inventory list read" where
  "GetDataPayload_Deserialize max_items = ReadVec max_items 36 DeserializeInventory"

definition TxPayload_Serialize :: "transaction \<Rightarrow> writer \<Rightarrow> writer" where
  "TxPayload_Serialize = Transaction_Serialize"

definition TxPayload_Deserialize :: "tx_limits \<Rightarrow> transaction read" where
  "TxPayload_Deserialize limits = Transaction_Deserialize limits"

definition BlockPayload_Serialize :: "block \<Rightarrow> writer \<Rightarrow> writer" where
  "BlockPayload_Serialize = Block_Serialize"

definition BlockPayload_Deserialize :: "block_limits \<Rightarrow> block read" where
  "BlockPayload_Deserialize limits = Block_Deserialize limits"

record network_address =
  na_addr_ver :: u8
  na_address :: byte_vec
  na_port :: u16

definition NetworkAddress_Serialize :: "network_address \<Rightarrow> writer \<Rightarrow> writer" where
  "NetworkAddress_Serialize a = writes [WriteU8 (na_addr_ver a), WriteBytes (na_address a), WriteU16 (na_port a)]"

definition NetworkAddress_Deserialize :: "network_address read" where
  "NetworkAddress_Deserialize =
     read_then ReadU8 (\<lambda>ver. read_then (ReadBytes 16) (\<lambda>address. read_then ReadU16 (\<lambda>port.
       read_ret \<lparr>na_addr_ver = ver, na_address = address, na_port = port\<rparr>)))"

definition AddrPayload_Serialize :: "network_address list \<Rightarrow> writer \<Rightarrow> writer" where
  "AddrPayload_Serialize = WriteVec NetworkAddress_Serialize"

definition AddrPayload_Deserialize :: "nat \<Rightarrow> network_address list read" where
  "AddrPayload_Deserialize max_items = ReadVec max_items 19 NetworkAddress_Deserialize"

definition PingPayload_Serialize :: "u64 \<Rightarrow> writer \<Rightarrow> writer" where
  "PingPayload_Serialize nonce = WriteU64 nonce"

definition PingPayload_Deserialize :: "u64 read" where
  "PingPayload_Deserialize = ReadU64"

section \<open>Every payload is a codec\<close>

definition inventory_ok :: "inventory \<Rightarrow> bool" where
  "inventory_ok item \<longleftrightarrow> to_inventory_type (inventory_type_id (inv_type item)) = inv_type item"

definition hello_ok :: "nat \<Rightarrow> hello_payload \<Rightarrow> bool" where
  "hello_ok m p \<longleftrightarrow> i64_ok (hello_timestamp p) \<and> fits m (hello_user_agent p)"

lemma inventory_type_id_cast [simp]: "inventory_type_id (to_inventory_type n) = n"
  by (simp add: to_inventory_type_def)

interpretation inventory: codec SerializeInventory DeserializeInventory inventory_ok 36
  by (rule codec.iso_codec [OF u32.pair_codec [OF hash256.codec_axioms],
      where mk = "\<lambda>(a, b). \<lparr>inv_type = to_inventory_type a, inv_hash = b\<rparr>"
        and dest = "\<lambda>x. (inventory_type_id (inv_type x), inv_hash x)"])
    (auto simp: SerializeInventory_def DeserializeInventory_def inventory_ok_def)

interpretation hello: codec HelloPayload_Serialize "HelloPayload_Deserialize m" "hello_ok m" 65 for m
  by (rule codec.iso_codec [OF u32.pair_codec [OF u64.pair_codec [OF i64.pair_codec [OF hash256.pair_codec [OF
      u32.pair_codec [OF u64.pair_codec [OF byte_string_codec]]]]]],
      where mk = "\<lambda>(a, b, c, d, e, f, g). \<lparr>hello_protocol_version = a, hello_services = b, hello_timestamp = c,
         hello_chain_id = d, hello_best_height = e, hello_nonce = f, hello_user_agent = g\<rparr>"
        and dest = "\<lambda>x. (hello_protocol_version x, hello_services x, hello_timestamp x,
         hello_chain_id x, hello_best_height x, hello_nonce x, hello_user_agent x)"])
    (auto simp: HelloPayload_Serialize_def HelloPayload_Deserialize_def hello_ok_def fcomp_assoc)

lemma hash_vec_codec: "codec WriteHash256Vec (ReadHash256Vec m) (fits m) 1"
  using hash256.vec_codec [of 32 m] by (simp add: WriteHash256Vec_def ReadHash256Vec_def)

interpretation getheaders: codec GetHeadersPayload_Serialize "GetHeadersPayload_Deserialize m"
  "\<lambda>p. fits m (gh_locator p)" 37 for m
  by (rule codec.iso_codec [OF u32.pair_codec [OF codec.pair_codec [OF hash_vec_codec hash256.codec_axioms]],
      where mk = "\<lambda>(a, b, c). \<lparr>gh_protocol_version = a, gh_locator = b, gh_stop_hash = c\<rparr>"
        and dest = "\<lambda>x. (gh_protocol_version x, gh_locator x, gh_stop_hash x)"])
    (auto simp: GetHeadersPayload_Serialize_def GetHeadersPayload_Deserialize_def fcomp_assoc)

interpretation headers: codec HeadersPayload_Serialize HeadersPayload_Deserialize
  "\<lambda>hs. length hs \<le> HeadersPayload_MAX_COUNT \<and> (\<forall>h \<in> set hs. BlockHeader_valid h)" 1
  using header.vec_codec [of BlockHeader_SIZE HeadersPayload_MAX_COUNT]
  by (simp add: HeadersPayload_Serialize_def HeadersPayload_Deserialize_def size_constants HeadersPayload_MAX_COUNT_def
      conj_assoc cong: conj_cong)

interpretation getdata: codec GetDataPayload_Serialize "GetDataPayload_Deserialize m"
  "\<lambda>xs. fits m xs \<and> (\<forall>x \<in> set xs. inventory_ok x)" 1 for m
  using inventory.vec_codec [of 36 m] by (simp add: GetDataPayload_Serialize_def GetDataPayload_Deserialize_def conj_assoc)

interpretation address: codec NetworkAddress_Serialize NetworkAddress_Deserialize "\<lambda>a. length (na_address a) = 16" 19
proof -
  have b: "codec WriteBytes (ReadBytes 16) (\<lambda>x. length x = 16) 16"
    unfolding ReadBytes_def
    by (intro codec.intro codec_axioms.intro) (simp_all add: WriteBytes_def Consume_parser)
  show "codec NetworkAddress_Serialize NetworkAddress_Deserialize (\<lambda>a. length (na_address a) = 16) 19"
    by (rule codec.iso_codec [OF u8.pair_codec [OF codec.pair_codec [OF b u16.codec_axioms]],
        where mk = "\<lambda>(a, b, c). \<lparr>na_addr_ver = a, na_address = b, na_port = c\<rparr>"
          and dest = "\<lambda>x. (na_addr_ver x, na_address x, na_port x)"])
      (auto simp: NetworkAddress_Serialize_def NetworkAddress_Deserialize_def fcomp_assoc)
qed

interpretation addr: codec AddrPayload_Serialize "AddrPayload_Deserialize m"
  "\<lambda>xs. fits m xs \<and> (\<forall>a \<in> set xs. length (na_address a) = 16)" 1 for m
  using address.vec_codec [of 19 m] by (simp add: AddrPayload_Serialize_def AddrPayload_Deserialize_def conj_assoc)

section \<open>Frames\<close>

lemma command_id_cast: "command_id (to_command n) = n"
proof -
  have "unat n < 12 \<Longrightarrow> n \<in> {0,1,2,3,4,5,6,7,8,9,10,11}"
    by (simp add: word_unat_eq_iff) arith
  then show ?thesis
    by (auto simp: to_command_def ENUMERATED_COMMANDS_def)
qed

lemma to_command_id: "\<forall>n. c \<noteq> UnnamedCommand n \<Longrightarrow> to_command (command_id c) = c \<and> IsKnownCommand (command_id c)"
  by (cases c) (simp_all add: to_command_def ENUMERATED_COMMANDS_def IsKnownCommand_def COMMAND_COUNT_def)

definition header_ser :: "byte_vec \<times> u16 \<times> u32 \<times> u32 \<Rightarrow> writer \<Rightarrow> writer" where
  "header_ser = (\<lambda>(m, c, l, s). fcomp (WriteBytes m) (fcomp (WriteU16 c) (fcomp (WriteU32 l) (WriteU32 s))))"

text \<open>The four fields of a frame's header, read as the code does.\<close>

definition header_read :: "(byte_vec \<times> u16 \<times> u32 \<times> u32) read" where
  "header_read = read_then (ReadBytes 4) (\<lambda>m. read_then ReadU16 (\<lambda>c. read_then ReadU32 (\<lambda>l. read_then ReadU32 (\<lambda>s.
     read_ret (m, c, l, s)))))"

interpretation frame_header: codec header_ser header_read "\<lambda>(m, _). length m = 4" 14
proof -
  have b: "codec WriteBytes (ReadBytes 4) (\<lambda>x. length x = 4) 4"
    unfolding ReadBytes_def
    by (intro codec.intro codec_axioms.intro) (simp_all add: WriteBytes_def Consume_parser)
  show "codec header_ser header_read (\<lambda>(m, _). length m = 4) 14"
    by (rule codec.iso_codec [OF codec.pair_codec [OF b u16.pair_codec [OF u32.pair_codec [OF u32.codec_axioms]]],
        where mk = "\<lambda>x. x" and dest = "\<lambda>x. x"]) (auto simp: header_ser_def header_read_def)
qed

lemma length_header_ser [simp]: "length m = 4 \<Longrightarrow> length (header_ser (m, c, l, s) []) = 14"
  by (simp add: header_ser_def WriteBytes_def WriteU16_def WriteU32_def AppendLittleEndian_def)

lemma SerialiseMessage_header:
  "SerialiseMessage E c payload m =
     header_ser (m, command_id c, of_nat (length payload), if length payload > 0 then checksum_of E payload else 0) [] @ payload"
  by (simp add: SerialiseMessage_def header_ser_def WriteBytes_def)

text \<open>Fourteen bytes always are some header.\<close>

lemma header_bytes:
  assumes "length bs = 14"
  obtains m c l s where "bs = header_ser (m, c, l, s) []" "length m = 4"
proof
  let ?m = "take 4 bs" and ?c = "of_nat (le_val (take 2 (drop 4 bs))) :: u16"
    and ?l = "of_nat (le_val (take 4 (drop 6 bs))) :: u32" and ?s = "of_nat (le_val (drop 10 bs)) :: u32"
  have le: "le_bytes k (le_val xs) = xs" "le_val xs < 256 ^ k" if "length xs = k" for k xs
    using le_bytes_le_val [of xs] le_val_less [of xs] that by auto
  have "le_bytes 2 (unat ?c) = take 2 (drop 4 bs)" "le_bytes 4 (unat ?l) = take 4 (drop 6 bs)" "le_bytes 4 (unat ?s) = drop 10 bs"
    using le(2) [of "take 2 (drop 4 bs)" 2] le(2) [of "take 4 (drop 6 bs)" 4] le(2) [of "drop 10 bs" 4] assms
    by (simp_all add: unat_of_nat le(1))
  moreover have "take 4 bs @ take 2 (drop 4 bs) @ take 4 (drop 6 bs) @ drop 10 bs = bs"
    using append_take_drop_id [of 4 "drop 6 bs"] append_take_drop_id [of 2 "drop 4 bs"] by (simp add: add.commute)
  ultimately show "bs = header_ser (?m, ?c, ?l, ?s) []"
    by (simp add: header_ser_def WriteBytes_def WriteU16_def WriteU32_def AppendLittleEndian_def)
  show "length ?m = 4" using assms by simp
qed

text \<open>Framing, as a decision on the header and what follows it.\<close>

lemma FrameMessage_cases:
  assumes "length m = 4"
  shows "FrameMessage E (header_ser (m, c, l, s) [] @ rest) net_magic =
    (if m \<noteq> net_magic then Malformed ''magic mismatch''
     else if \<not> IsKnownCommand c then Malformed (''unknown command '' @ to_string (unat c))
     else if unat l > MAX_MESSAGE_SIZE then Malformed (''message exceeds maximum size: '' @ to_string (unat l))
     else if length rest < unat l then NeedMore
     else if \<not> ValidateChecksum E (take (unat l) rest) s then Malformed ''checksum mismatch''
     else Complete \<lparr>msg_command = to_command c, msg_payload = take (unat l) rest\<rparr> (14 + unat l))"
proof -
  let ?h = "header_ser (m, c, l, s) []"
  have "header_read (Reader ?h) = (Some (m, c, l, s), advance (Reader ?h) (length ?h))"
    by (rule frame_header.des_ok [where post = "[]"]) (simp_all add: Reader_def assms)
  then obtain r1 r2 r3 r4 where "ReadBytes 4 (Reader ?h) = (Some m, r1)" "ReadU16 r1 = (Some c, r2)"
    "ReadU32 r2 = (Some l, r3)" "ReadU32 r3 = (Some s, r4)"
    by (auto simp: header_read_def read_then_def read_ret_def split: prod.splits option.splits)
  note reads = this
  show ?thesis
  proof (cases "m = net_magic")
    case True
    show ?thesis unfolding True [symmetric]
      using reads assms by (simp add: FrameMessage_def HEADER_SIZE_def Let_def)
  qed (use reads assms in \<open>simp add: FrameMessage_def HEADER_SIZE_def\<close>)
qed

lemma ValidateChecksum_iff:
  "ValidateChecksum E payload s \<longleftrightarrow> s = (if length payload > 0 then checksum_of E payload else 0)"
  by (auto simp: ValidateChecksum_def)

lemma FrameMessage_short: "length buffer < 14 \<Longrightarrow> FrameMessage E buffer m = NeedMore"
  by (simp add: FrameMessage_def HEADER_SIZE_def)

lemma known_command: "IsKnownCommand c \<longleftrightarrow> (\<forall>n. to_command c \<noteq> UnnamedCommand n)"
  by (auto simp: IsKnownCommand_def COMMAND_COUNT_def to_command_def ENUMERATED_COMMANDS_def nth_Cons' split: if_splits)

lemma FrameMessage_Complete:
  "FrameMessage E buffer m = Complete msg n \<Longrightarrow> length m = 4 \<and> length (msg_payload msg) \<le> MAX_MESSAGE_SIZE \<and>
     (\<forall>k. msg_command msg \<noteq> UnnamedCommand k) \<and> n = 14 + length (msg_payload msg) \<and>
     (\<exists>rest. buffer = SerialiseMessage E (msg_command msg) (msg_payload msg) m @ rest)"
proof -
  assume a: "FrameMessage E buffer m = Complete msg n"
  then have len: "\<not> length buffer < 14" using FrameMessage_short by fastforce
  then obtain m' c l s where h: "take 14 buffer = header_ser (m', c, l, s) []" "length m' = 4"
    by (auto intro: header_bytes [of "take 14 buffer"])
  define rest where "rest = drop 14 buffer"
  have b: "buffer = header_ser (m', c, l, s) [] @ rest" unfolding rest_def h(1) [symmetric] by simp
  from a [unfolded b FrameMessage_cases [OF h(2)]]
  have *: "m' = m" "IsKnownCommand c" "unat l \<le> MAX_MESSAGE_SIZE" "unat l \<le> length rest"
    "s = (if length (take (unat l) rest) > 0 then checksum_of E (take (unat l) rest) else 0)"
    "msg = \<lparr>msg_command = to_command c, msg_payload = take (unat l) rest\<rparr>" "n = 14 + unat l"
    by (auto simp: ValidateChecksum_iff split: if_splits)
  have "buffer = SerialiseMessage E (to_command c) (take (unat l) rest) m @ drop (unat l) rest"
    unfolding SerialiseMessage_header b using *(1,4,5) by (auto simp: command_id_cast)
  with * h(2) known_command show ?thesis by auto
qed

lemma FrameMessage_SerialiseMessage:
  assumes "length m = 4" and "length payload \<le> MAX_MESSAGE_SIZE" and "\<forall>n. c \<noteq> UnnamedCommand n"
  shows "FrameMessage E (SerialiseMessage E c payload m @ rest) m =
      Complete \<lparr>msg_command = c, msg_payload = payload\<rparr> (14 + length payload)"
    and "k < 14 + length payload \<Longrightarrow> FrameMessage E (take k (SerialiseMessage E c payload m)) m = NeedMore"
proof -
  have l: "unat (of_nat (length payload) :: u32) = length payload"
    using assms(2) by (simp add: unat_of_nat MAX_MESSAGE_SIZE_def)
  note c = to_command_id [OF assms(3)]
  note cs = FrameMessage_cases [OF assms(1), of E "command_id c" "of_nat (length payload)"
      "if length payload > 0 then checksum_of E payload else 0"]
  show "FrameMessage E (SerialiseMessage E c payload m @ rest) m =
      Complete \<lparr>msg_command = c, msg_payload = payload\<rparr> (14 + length payload)"
    using cs [of "payload @ rest" m] assms(2) by (simp add: SerialiseMessage_header l c ValidateChecksum_iff)
  assume k: "k < 14 + length payload"
  show "FrameMessage E (take k (SerialiseMessage E c payload m)) m = NeedMore"
  proof (cases "k < 14")
    case False
    then have "take k (SerialiseMessage E c payload m) =
        header_ser (m, command_id c, of_nat (length payload), if length payload > 0 then checksum_of E payload else 0) [] @
        take (k - 14) payload"
      using assms(1) by (simp add: SerialiseMessage_header)
    moreover have "k - 14 < length payload" using k False by simp
    ultimately show ?thesis using assms(2) by (simp only: cs l c) simp
  qed (simp add: FrameMessage_short)
qed

section \<open>Properties\<close>

text \<open>
  Property C22. Framing recognises exactly what is sent: a buffer holds a complete message when it starts
  with the frame the sender writes for a known command and a payload within the limit, and then
  that message is returned with its length; every proper prefix of such a frame asks for more, and
  a buffer that asks for more is always shorter than the largest frame.
\<close>

theorem framing_exact:
  assumes "length m = 4"
  shows "(FrameMessage E buffer m = Complete \<lparr>msg_command = c, msg_payload = payload\<rparr> n \<longleftrightarrow>
      n = HEADER_SIZE + length payload \<and> length payload \<le> MAX_MESSAGE_SIZE \<and> (\<forall>k. c \<noteq> UnnamedCommand k) \<and>
      (\<exists>rest. buffer = SerialiseMessage E c payload m @ rest)) \<and>
    (length payload \<le> MAX_MESSAGE_SIZE \<and> (\<forall>j. c \<noteq> UnnamedCommand j) \<and> k < HEADER_SIZE + length payload \<longrightarrow>
      FrameMessage E (take k (SerialiseMessage E c payload m)) m = NeedMore) \<and>
    (FrameMessage E buffer m = NeedMore \<longrightarrow> length buffer < HEADER_SIZE + MAX_MESSAGE_SIZE)"
proof -
  have "length buffer < HEADER_SIZE + MAX_MESSAGE_SIZE" if n: "FrameMessage E buffer m = NeedMore"
  proof (rule ccontr)
    assume big: "\<not> ?thesis"
    then obtain m' c' l s where h: "take 14 buffer = header_ser (m', c', l, s) []" "length m' = 4"
      by (auto simp: HEADER_SIZE_def MAX_MESSAGE_SIZE_def intro: header_bytes [of "take 14 buffer"])
    then have "buffer = header_ser (m', c', l, s) [] @ drop 14 buffer" by (metis append_take_drop_id)
    with FrameMessage_cases [OF h(2), of E c' l s "drop 14 buffer" m] n big show False
      by (auto simp: HEADER_SIZE_def split: if_splits)
  qed
  with FrameMessage_Complete [of E buffer m "\<lparr>msg_command = c, msg_payload = payload\<rparr>" n]
    FrameMessage_SerialiseMessage [OF assms] show ?thesis
    by (auto simp: HEADER_SIZE_def)
qed

theorem framing_exact_witness:
  "FrameMessage example_crypto (SerialiseMessage example_crypto Ping [7] (magic REGTEST_PARAMS) @ [1, 2]) (magic REGTEST_PARAMS) =
     Complete \<lparr>msg_command = Ping, msg_payload = [7]\<rparr> 15"
proof -
  have len: "length (magic REGTEST_PARAMS) = 4" by (simp add: REGTEST_PARAMS_def MagicFromChainId_def Let_def)
  show ?thesis
    using framing_exact [OF len, of example_crypto
        "SerialiseMessage example_crypto Ping [7] (magic REGTEST_PARAMS) @ [1, 2]" Ping "[7]" 15]
    by (simp add: HEADER_SIZE_def MAX_MESSAGE_SIZE_def)
qed



end
