(* ===== verification/Handshake.thy ===== *)
theory Handshake
  imports Wire
begin

text \<open>
  One peer connection: the handshake machine (\<^verbatim>\<open>net/handshake\<close>) and the class \<^verbatim>\<open>PeerConnection\<close> of
  \<^verbatim>\<open>net/peer_manager.cpp\<close> that drives it. The socket belongs to a library: what a handler asks of it
  and which callbacks it invokes are the list of events the handler returns, in order, and what
  the socket completes with is an argument of the next handler. The callbacks are always set
  by \<^verbatim>\<open>Start\<close> and \<^verbatim>\<open>StartInbound\<close>. A connected peer has always passed the checks of \<^verbatim>\<open>ReceiveHello\<close>,
  and two nodes of a network always connect; but messages are forwarded before that.
\<close>

section \<open>The handshake machine\<close>

record peer_hello =
  ph_protocol_version :: u32
  ph_services :: u64
  ph_timestamp :: i64
  ph_chain_id :: hash256
  ph_best_height :: u32
  ph_nonce :: u64
  ph_user_agent :: byte_vec

definition PeerHello_default :: peer_hello where
  "PeerHello_default = \<lparr>ph_protocol_version = 0, ph_services = 0, ph_timestamp = 0, ph_chain_id = Hash256_zero,
     ph_best_height = 0, ph_nonce = 0, ph_user_agent = []\<rparr>"

datatype handshake_state =
    AwaitingSendHello | AwaitingReceiveHello | AwaitingReceiveHelloAck | Handshake_Complete | Handshake_Failed

record handshake =
  hs_local_nonce :: u64
  hs_state :: handshake_state
  hs_peer :: peer_hello
  hs_failure_reason :: string

definition Handshake_new :: "u64 \<Rightarrow> handshake" where
  "Handshake_new local_nonce =
     \<lparr>hs_local_nonce = local_nonce, hs_state = AwaitingSendHello, hs_peer = PeerHello_default, hs_failure_reason = []\<rparr>"

definition BuildHello :: "chain_params \<Rightarrow> handshake \<Rightarrow> hello_payload" where
  "BuildHello params h =
     \<lparr>hello_protocol_version = 1, hello_services = or NODE_HISTORICAL NODE_RELAY,
      hello_timestamp = genesis_timestamp params, hello_chain_id = chain_id params, hello_best_height = 0,
      hello_nonce = hs_local_nonce h, hello_user_agent = string_bytes ''amarian/0.1''\<rparr>"

definition OnSendHello :: "handshake \<Rightarrow> handshake" where
  "OnSendHello h = (if hs_state h = AwaitingSendHello then h\<lparr>hs_state := AwaitingReceiveHello\<rparr> else h)"

definition OnReceiveHello :: "handshake \<Rightarrow> handshake" where
  "OnReceiveHello h =
     (if hs_state h = AwaitingSendHello then h\<lparr>hs_state := AwaitingReceiveHelloAck\<rparr>
      else if hs_state h = AwaitingReceiveHello then h\<lparr>hs_state := AwaitingReceiveHelloAck\<rparr>
      else h)"

definition fail_handshake :: "string \<Rightarrow> handshake \<Rightarrow> handshake" where
  "fail_handshake reason h = h\<lparr>hs_failure_reason := reason, hs_state := Handshake_Failed\<rparr>"

text \<open>\<^verbatim>\<open>true\<close> stands for the empty acknowledgement to send back.\<close>

definition ReceiveHello :: "chain_params \<Rightarrow> hello_payload \<Rightarrow> handshake \<Rightarrow> bool \<times> handshake" where
  "ReceiveHello params hello h =
     (if hello_chain_id hello \<noteq> chain_id params
        then (False, fail_handshake ''peer is on a different network'' h)
      else if hello_nonce hello = hs_local_nonce h
        then (False, fail_handshake ''connected to self'' h)
      else if hello_protocol_version hello < 1
        then (False, fail_handshake ''peer protocol version too old'' h)
      else (True, h\<lparr>hs_peer :=
          \<lparr>ph_protocol_version = hello_protocol_version hello, ph_services = hello_services hello,
           ph_timestamp = hello_timestamp hello, ph_chain_id = hello_chain_id hello,
           ph_best_height = hello_best_height hello, ph_nonce = hello_nonce hello,
           ph_user_agent = hello_user_agent hello\<rparr>,
          hs_state := AwaitingReceiveHelloAck\<rparr>))"

definition OnReceiveHelloAck :: "handshake \<Rightarrow> bool \<times> handshake" where
  "OnReceiveHelloAck h =
     (if hs_state h \<noteq> AwaitingReceiveHelloAck
      then (False, fail_handshake ''received HelloAck at unexpected time'' h)
      else (True, h\<lparr>hs_state := Handshake_Complete\<rparr>))"

section \<open>A connection\<close>

datatype peer_event =
    Disconnected string
  | Connected peer_hello
  | Received command byte_vec
  | Traffic nat nat
  | StartWrite byte_vec
  | ReadHeader
  | ReadBody nat
  | StartKeepalive

record peer_connection =
  pc_host :: string
  pc_port :: u16
  pc_handshake :: handshake
  pc_peer_hello :: peer_hello
  pc_connected :: bool
  pc_inbound :: bool
  pc_open :: bool
  pc_header_buf :: byte_vec
  pc_body_size :: nat
  pc_write_queue :: "byte_vec list"
  pc_writing :: bool
  pc_ping_outstanding :: bool

definition PeerConnection_outbound :: "u64 \<Rightarrow> string \<Rightarrow> u16 \<Rightarrow> peer_connection" where
  "PeerConnection_outbound nonce host port =
     \<lparr>pc_host = host, pc_port = port, pc_handshake = Handshake_new nonce, pc_peer_hello = PeerHello_default,
      pc_connected = False, pc_inbound = False, pc_open = True, pc_header_buf = replicate HEADER_SIZE 0, pc_body_size = 0,
      pc_write_queue = [], pc_writing = False, pc_ping_outstanding = False\<rparr>"

definition PeerConnection_inbound :: "u64 \<Rightarrow> peer_connection" where
  "PeerConnection_inbound nonce =
     \<lparr>pc_host = [], pc_port = 0, pc_handshake = Handshake_new nonce, pc_peer_hello = PeerHello_default,
      pc_connected = False, pc_inbound = True, pc_open = True, pc_header_buf = replicate HEADER_SIZE 0, pc_body_size = 0,
      pc_write_queue = [], pc_writing = False, pc_ping_outstanding = False\<rparr>"

definition Close :: "peer_connection \<Rightarrow> peer_connection" where
  "Close c = c\<lparr>pc_open := False, pc_connected := False\<rparr>"

definition Send :: "crypto_ext \<Rightarrow> chain_params \<Rightarrow> command \<Rightarrow> byte_vec \<Rightarrow> peer_connection \<Rightarrow> peer_connection \<times> peer_event list" where
  "Send E params command payload c =
     (let c1 = c\<lparr>pc_write_queue := pc_write_queue c @ [SerialiseMessage E command payload (magic params)]\<rparr>
      in if pc_writing c1 then (c1, [])
         else (c1\<lparr>pc_writing := True\<rparr>, [StartWrite (hd (pc_write_queue c1))]))"

text \<open>A queued write completes: an error with its message, or success.\<close>

definition OnWritten :: "string option \<Rightarrow> peer_connection \<Rightarrow> peer_connection \<times> peer_event list" where
  "OnWritten ec c =
     (case ec of
        Some reason \<Rightarrow> (c\<lparr>pc_writing := False\<rparr>, [Disconnected (''send message failed: '' @ reason)])
      | None \<Rightarrow>
          let message_bytes = length (hd (pc_write_queue c)); rest = tl (pc_write_queue c)
          in if rest = [] then (c\<lparr>pc_write_queue := rest, pc_writing := False\<rparr>, [Traffic message_bytes 0])
             else (c\<lparr>pc_write_queue := rest\<rparr>, [Traffic message_bytes 0, StartWrite (hd rest)]))"

definition SendHello :: "crypto_ext \<Rightarrow> chain_params \<Rightarrow> peer_connection \<Rightarrow> peer_connection \<times> peer_event list" where
  "SendHello E params c =
     (c\<lparr>pc_handshake := OnSendHello (pc_handshake c)\<rparr>,
      [StartWrite (SerialiseMessage E Hello (HelloPayload_Serialize (BuildHello params (pc_handshake c)) []) (magic params))])"

definition OnConnect :: "crypto_ext \<Rightarrow> chain_params \<Rightarrow> string option \<Rightarrow> peer_connection \<Rightarrow> peer_connection \<times> peer_event list" where
  "OnConnect E params ec c =
     (case ec of
        Some reason \<Rightarrow> (c, [Disconnected (''connect failed: '' @ reason)])
      | None \<Rightarrow> SendHello E params c)"

definition HandleMessage :: "crypto_ext \<Rightarrow> chain_params \<Rightarrow> message \<Rightarrow> peer_connection \<Rightarrow> peer_connection \<times> peer_event list" where
  "HandleMessage E params msg c =
     (case msg_command msg of
        Hello \<Rightarrow>
          (case HelloPayload_Deserialize 256 (Reader (msg_payload msg)) of
             (None, _) \<Rightarrow> (Close c, [Disconnected ''malformed hello''])
           | (Some hello, _) \<Rightarrow>
               let (acknowledged, h) = ReceiveHello params hello (pc_handshake c); c1 = c\<lparr>pc_handshake := h\<rparr>
               in if \<not> acknowledged then (Close c1, [Disconnected (hs_failure_reason h)])
                  else
                    let ack = SerialiseMessage E HelloAck (HelloAckPayload_Serialize () []) (magic params);
                        own = SerialiseMessage E Hello (HelloPayload_Serialize (BuildHello params h) []) (magic params)
                    in (c1, [StartWrite (if pc_inbound c1 then own @ ack else ack)]))
      | HelloAck \<Rightarrow>
          let (completed, h) = OnReceiveHelloAck (pc_handshake c); c1 = c\<lparr>pc_handshake := h\<rparr>
          in if \<not> completed then (Close c1, [Disconnected (hs_failure_reason h)])
             else (c1\<lparr>pc_peer_hello := hs_peer h, pc_connected := True\<rparr>, [StartKeepalive, Connected (hs_peer h)])
      | UnnamedCommand n \<Rightarrow> (c, [Received (msg_command msg) (msg_payload msg)])
      | _ \<Rightarrow> (c\<lparr>pc_ping_outstanding := False\<rparr>, [Received (msg_command msg) (msg_payload msg)]))"

text \<open>The fourteen bytes of a header have arrived, or the read failed.\<close>

definition OnHeader :: "crypto_ext \<Rightarrow> chain_params \<Rightarrow> string + byte_vec \<Rightarrow> peer_connection \<Rightarrow> peer_connection \<times> peer_event list" where
  "OnHeader E params result c =
     (case result of
        Inl reason \<Rightarrow> (c, [Disconnected (''read header failed: '' @ reason)])
      | Inr bytes \<Rightarrow>
          let c1 = c\<lparr>pc_header_buf := bytes\<rparr>
          in case ReadBytes 4 (Reader bytes) of
               (None, _) \<Rightarrow> (Close c1, [Traffic 0 HEADER_SIZE, Disconnected ''bad magic''])
             | (Some m, r1) \<Rightarrow>
                 if m \<noteq> magic params then (Close c1, [Traffic 0 HEADER_SIZE, Disconnected ''bad magic''])
                 else
                   let (cmd, r2) = ReadU16 r1; (len, r3) = ReadU32 r2;
                       cmd_raw = (case cmd of None \<Rightarrow> 0 | Some v \<Rightarrow> v); size = (case len of None \<Rightarrow> 0 | Some v \<Rightarrow> unat v)
                   in if size > MAX_MESSAGE_SIZE then (Close c1, [Traffic 0 HEADER_SIZE, Disconnected ''oversized message''])
                      else if size = 0 then
                        let (c2, events) = HandleMessage E params \<lparr>msg_command = to_command cmd_raw, msg_payload = []\<rparr> (c1\<lparr>pc_body_size := 0\<rparr>)
                        in (c2, Traffic 0 HEADER_SIZE # events @ [ReadHeader])
                      else (c1\<lparr>pc_body_size := size\<rparr>, [Traffic 0 HEADER_SIZE, ReadBody size]))"

definition framing_failure :: "framed \<Rightarrow> string" where
  "framing_failure f = (case f of Malformed reason \<Rightarrow> reason | _ \<Rightarrow> [])"

definition OnBody :: "crypto_ext \<Rightarrow> chain_params \<Rightarrow> string + byte_vec \<Rightarrow> peer_connection \<Rightarrow> peer_connection \<times> peer_event list" where
  "OnBody E params result c =
     (case result of
        Inl reason \<Rightarrow> (c, [Disconnected (''read body failed: '' @ reason)])
      | Inr body \<Rightarrow>
          (case FrameMessage E (pc_header_buf c @ body) (magic params) of
             Complete msg n \<Rightarrow>
               let (c1, events) = HandleMessage E params msg c
               in (c1, Traffic 0 (length body) # events @ [ReadHeader])
           | f \<Rightarrow> (Close c, [Traffic 0 (length body), Disconnected (''framing error: '' @ framing_failure f)])))"

text \<open>The keepalive timers: thirty seconds after the last round, then ten seconds for the answer.\<close>

definition OnPingTimer :: "crypto_ext \<Rightarrow> chain_params \<Rightarrow> peer_connection \<Rightarrow> peer_connection \<times> peer_event list" where
  "OnPingTimer E params c =
     (if \<not> pc_connected c then (c, [])
      else if pc_ping_outstanding c then (Close c, [Disconnected ''ping timeout''])
      else Send E params Ping (PingPayload_Serialize 0xA6A6A6A6 []) (c\<lparr>pc_ping_outstanding := True\<rparr>))"

definition OnPingTimeout :: "peer_connection \<Rightarrow> peer_connection \<times> peer_event list" where
  "OnPingTimeout c =
     (if \<not> pc_connected c then (c, [])
      else if pc_ping_outstanding c then (Close c, [Disconnected ''ping timeout''])
      else (c, [StartKeepalive]))"


section \<open>Reading one message\<close>

text \<open>What the two reads of one message do when its bytes arrive.\<close>

definition feed :: "crypto_ext \<Rightarrow> chain_params \<Rightarrow> byte_vec \<Rightarrow> peer_connection \<Rightarrow> peer_connection \<times> peer_event list" where
  "feed E params bytes c =
     (let (c1, events) = OnHeader E params (Inr (take HEADER_SIZE bytes)) c
      in case last events of
           ReadBody n \<Rightarrow> (let (c2, events') = OnBody E params (Inr (take n (drop HEADER_SIZE bytes))) c1 in (c2, events @ events'))
         | _ \<Rightarrow> (c1, events))"

lemma magic_length [simp]: "length (magic (ParamsFor n)) = 4"
  by (cases n) (simp_all add: MAINNET_PARAMS_def TESTNET_PARAMS_def REGTEST_PARAMS_def MagicFromChainId_def Let_def)

lemma OnHeader_cases:
  assumes "length m = 4"
  shows "OnHeader E params (Inr (header_ser (m, cmd, l, s) [])) c =
    (let c1 = c\<lparr>pc_header_buf := header_ser (m, cmd, l, s) []\<rparr>
     in if m \<noteq> magic params then (Close c1, [Traffic 0 HEADER_SIZE, Disconnected ''bad magic''])
        else if unat l > MAX_MESSAGE_SIZE then (Close c1, [Traffic 0 HEADER_SIZE, Disconnected ''oversized message''])
        else if unat l = 0 then
          let (c2, events) = HandleMessage E params \<lparr>msg_command = to_command cmd, msg_payload = []\<rparr> (c1\<lparr>pc_body_size := 0\<rparr>)
          in (c2, Traffic 0 HEADER_SIZE # events @ [ReadHeader])
        else (c1\<lparr>pc_body_size := unat l\<rparr>, [Traffic 0 HEADER_SIZE, ReadBody (unat l)]))"
proof -
  let ?h = "header_ser (m, cmd, l, s) []"
  have "header_read (Reader ?h) = (Some (m, cmd, l, s), advance (Reader ?h) (length ?h))"
    by (rule frame_header.des_ok [where post = "[]"]) (simp_all add: Reader_def assms)
  then obtain r1 r2 r3 where "ReadBytes 4 (Reader ?h) = (Some m, r1)" "ReadU16 r1 = (Some cmd, r2)" "ReadU32 r2 = (Some l, r3)"
    by (auto simp: header_read_def read_then_def read_ret_def split: prod.splits option.splits)
  then show ?thesis by (simp add: OnHeader_def Let_def)
qed

lemma feed_message:
  assumes "length (magic params) = 4" and "length payload \<le> MAX_MESSAGE_SIZE" and "\<forall>n. cmd \<noteq> UnnamedCommand n"
  obtains buf where "length buf = 14"
    "feed E params (SerialiseMessage E cmd payload (magic params) @ rest) c =
       (let (c', events) = HandleMessage E params \<lparr>msg_command = cmd, msg_payload = payload\<rparr>
          (c\<lparr>pc_header_buf := buf, pc_body_size := length payload\<rparr>)
        in (c', (if payload = [] then [Traffic 0 HEADER_SIZE]
                 else [Traffic 0 HEADER_SIZE, ReadBody (length payload), Traffic 0 (length payload)]) @ events @ [ReadHeader]))"
proof
  let ?s = "if length payload > 0 then checksum_of E payload else 0"
  let ?h = "header_ser (magic params, command_id cmd, of_nat (length payload), ?s) []"
  show l: "length ?h = 14" by (simp add: assms(1))
  have len: "unat (of_nat (length payload) :: u32) = length payload"
    using assms(2) by (simp add: unat_of_nat MAX_MESSAGE_SIZE_def)
  note cmd = to_command_id [OF assms(3)]
  have b: "SerialiseMessage E cmd payload (magic params) @ rest = ?h @ payload @ rest" by (simp add: SerialiseMessage_header)
  have t: "take HEADER_SIZE (?h @ payload @ rest) = ?h" "drop HEADER_SIZE (?h @ payload @ rest) = payload @ rest"
    using l by (simp_all add: HEADER_SIZE_def)
  note oh = OnHeader_cases [OF assms(1), of E params "command_id cmd" "of_nat (length payload)" ?s c, unfolded len]
  have frame: "FrameMessage E (?h @ payload) (magic params) = Complete \<lparr>msg_command = cmd, msg_payload = payload\<rparr> (14 + length payload)"
    using FrameMessage_SerialiseMessage(1) [OF assms(1-3), of E "[]"] by (simp add: SerialiseMessage_header)
  show "feed E params (SerialiseMessage E cmd payload (magic params) @ rest) c =
       (let (c', events) = HandleMessage E params \<lparr>msg_command = cmd, msg_payload = payload\<rparr>
          (c\<lparr>pc_header_buf := ?h, pc_body_size := length payload\<rparr>)
        in (c', (if payload = [] then [Traffic 0 HEADER_SIZE]
                 else [Traffic 0 HEADER_SIZE, ReadBody (length payload), Traffic 0 (length payload)]) @ events @ [ReadHeader]))"
    unfolding feed_def b t oh using assms(2) frame
    by (auto simp: cmd OnBody_def Let_def split: prod.splits)
qed

section \<open>Every connection\<close>

inductive connection_step :: "crypto_ext \<Rightarrow> chain_params \<Rightarrow> peer_connection \<Rightarrow> peer_connection \<Rightarrow> bool" for E params where
  connect: "OnConnect E params ec c = (c', ev) \<Longrightarrow> connection_step E params c c'"
| header: "OnHeader E params result c = (c', ev) \<Longrightarrow> connection_step E params c c'"
| body: "OnBody E params result c = (c', ev) \<Longrightarrow> connection_step E params c c'"
| send: "Send E params command payload c = (c', ev) \<Longrightarrow> connection_step E params c c'"
| written: "OnWritten ec c = (c', ev) \<Longrightarrow> connection_step E params c c'"
| ping: "OnPingTimer E params c = (c', ev) \<Longrightarrow> connection_step E params c c'"
| timeout: "OnPingTimeout c = (c', ev) \<Longrightarrow> connection_step E params c c'"
| close: "connection_step E params c (Close c)"

definition admitted :: "chain_params \<Rightarrow> u64 \<Rightarrow> peer_hello \<Rightarrow> bool" where
  "admitted params nonce p \<longleftrightarrow> ph_chain_id p = chain_id params \<and> ph_nonce p \<noteq> nonce \<and> ph_protocol_version p \<noteq> 0"

definition vetted :: "chain_params \<Rightarrow> u64 \<Rightarrow> peer_connection \<Rightarrow> bool" where
  "vetted params nonce c \<longleftrightarrow> hs_local_nonce (pc_handshake c) = nonce \<and>
     (hs_state (pc_handshake c) \<in> {AwaitingReceiveHelloAck, Handshake_Complete} \<longrightarrow> admitted params nonce (hs_peer (pc_handshake c))) \<and>
     (pc_connected c \<longrightarrow> admitted params nonce (pc_peer_hello c))"

lemma ReceiveHello_vetted:
  assumes "ReceiveHello params hello h = (r, h')"
  shows "hs_local_nonce h' = hs_local_nonce h \<and> (hs_state h' = AwaitingReceiveHelloAck \<and> admitted params (hs_local_nonce h) (hs_peer h') \<and> r \<or>
    hs_state h' = Handshake_Failed \<and> \<not> r)"
  using assms by (auto simp: ReceiveHello_def fail_handshake_def admitted_def not_less split: if_splits)

lemma HandleMessage_vetted:
  assumes "HandleMessage E params msg c = (c', ev)" and "vetted params nonce c"
  shows "vetted params nonce c'"
proof (cases "msg_command msg")
  case Hello
  then show ?thesis using assms
    by (auto simp: HandleMessage_def vetted_def Close_def Let_def split: prod.splits option.splits if_splits dest!: ReceiveHello_vetted)
next
  case HelloAck
  then show ?thesis using assms
    by (auto simp: HandleMessage_def vetted_def Close_def OnReceiveHelloAck_def fail_handshake_def split: prod.splits if_splits)
qed (use assms in \<open>auto simp: HandleMessage_def vetted_def\<close>)

lemma vetted_frame [simp]:
  "vetted params nonce (c\<lparr>pc_header_buf := b\<rparr>) = vetted params nonce c"
  "vetted params nonce (c\<lparr>pc_body_size := n\<rparr>) = vetted params nonce c"
  "vetted params nonce (c\<lparr>pc_write_queue := q\<rparr>) = vetted params nonce c"
  "vetted params nonce (c\<lparr>pc_writing := w\<rparr>) = vetted params nonce c"
  "vetted params nonce (c\<lparr>pc_ping_outstanding := p\<rparr>) = vetted params nonce c"
  by (simp_all add: vetted_def)

lemma Close_vetted: "vetted params nonce c \<Longrightarrow> vetted params nonce (Close c)"
  by (simp add: vetted_def Close_def)

lemma Send_vetted: "Send E params command payload c = (c', ev) \<Longrightarrow> vetted params nonce c' = vetted params nonce c"
  by (auto simp: Send_def Let_def split: if_splits)

lemma connection_step_vetted:
  assumes "connection_step E params c c'" and v: "vetted params nonce c"
  shows "vetted params nonce c'"
  using assms(1)
proof cases
  case (connect ec ev)
  then show ?thesis using v
    by (cases "hs_state (pc_handshake c) = AwaitingSendHello") (auto simp: OnConnect_def SendHello_def vetted_def OnSendHello_def split: option.splits)
next
  case (header result ev)
  then show ?thesis using v
    by (auto simp: OnHeader_def Let_def intro!: Close_vetted split: sum.splits prod.splits option.splits if_splits dest!: HandleMessage_vetted)
next
  case (body result ev)
  then show ?thesis using v
    by (auto simp: OnBody_def intro!: Close_vetted split: sum.splits prod.splits framed.splits dest!: HandleMessage_vetted)
next
  case (send command payload ev)
  then show ?thesis using v Send_vetted by blast
next
  case (written ec ev)
  then show ?thesis using v by (auto simp: OnWritten_def Let_def split: option.splits if_splits)
next
  case (ping ev)
  then show ?thesis using v by (auto simp: OnPingTimer_def intro!: Close_vetted dest!: Send_vetted split: if_splits)
next
  case (timeout ev)
  then show ?thesis using v by (auto simp: OnPingTimeout_def intro!: Close_vetted split: if_splits)
qed (simp add: v Close_vetted)

section \<open>Properties\<close>

text \<open>
  Property C21. A connected peer has been vetted: whatever bytes arrive, in whatever order reads, writes,
  timers and errors complete, a connection counts as connected only to a peer that said it is on
  this network, is not this node itself and speaks a supported version.
\<close>

theorem connected_peers_vetted:
  assumes "(connection_step E params)\<^sup>*\<^sup>* c0 c" and "c0 = PeerConnection_inbound nonce \<or> c0 = PeerConnection_outbound nonce host port"
    and "pc_connected c"
  shows "ph_chain_id (pc_peer_hello c) = chain_id params \<and> ph_nonce (pc_peer_hello c) \<noteq> nonce \<and>
    ph_protocol_version (pc_peer_hello c) \<noteq> 0"
proof -
  have "vetted params nonce c0"
    using assms(2) by (auto simp: vetted_def PeerConnection_inbound_def PeerConnection_outbound_def Handshake_new_def)
  with assms(1) have "vetted params nonce c"
    by (induction rule: rtranclp_induct) (auto intro: connection_step_vetted)
  with assms(3) show ?thesis by (simp add: vetted_def admitted_def)
qed

text \<open>Concretely, a connection that has exchanged hello and acknowledgement.\<close>

lemma BuildHello_payload:
  assumes "i64_ok (genesis_timestamp params)"
  shows "HelloPayload_Deserialize 256 (Reader (HelloPayload_Serialize (BuildHello params h) [])) =
      (Some (BuildHello params h), advance (Reader (HelloPayload_Serialize (BuildHello params h) []))
         (length (HelloPayload_Serialize (BuildHello params h) [])))"
    and "length (HelloPayload_Serialize (BuildHello params h) []) = 76"
proof -
  show "HelloPayload_Deserialize 256 (Reader (HelloPayload_Serialize (BuildHello params h) [])) =
      (Some (BuildHello params h), advance (Reader (HelloPayload_Serialize (BuildHello params h) []))
         (length (HelloPayload_Serialize (BuildHello params h) [])))"
    by (rule hello.des_ok [where post = "[]"]) (simp_all add: Reader_def hello_ok_def assms BuildHello_def string_bytes_def)
  show "length (HelloPayload_Serialize (BuildHello params h) []) = 76"
    by (simp add: HelloPayload_Serialize_def BuildHello_def WriteByteString_def WriteBytes_def WriteCompactSize_append compact_tail_def
        WriteU32_def WriteU64_def WriteI64_def WriteHash256_def AppendLittleEndian_def string_bytes_def)
qed

lemma BuildHello_fields [simp]:
  "hello_chain_id (BuildHello params h) = chain_id params" "hello_nonce (BuildHello params h) = hs_local_nonce h"
  "hello_protocol_version (BuildHello params h) = 1" "BuildHello params (h\<lparr>hs_peer := p\<rparr>) = BuildHello params h"
  "BuildHello params (h\<lparr>hs_state := s\<rparr>) = BuildHello params h"
  by (simp_all add: BuildHello_def)

definition known_as :: "chain_params \<Rightarrow> u64 \<Rightarrow> peer_hello" where
  "known_as params nonce =
     \<lparr>ph_protocol_version = 1, ph_services = or NODE_HISTORICAL NODE_RELAY, ph_timestamp = genesis_timestamp params,
      ph_chain_id = chain_id params, ph_best_height = 0, ph_nonce = nonce, ph_user_agent = string_bytes ''amarian/0.1''\<rparr>"

lemma hello_received:
  assumes "i64_ok (genesis_timestamp params)" and "hs_local_nonce h \<noteq> hs_local_nonce (pc_handshake c)"
  shows "HandleMessage E params \<lparr>msg_command = Hello, msg_payload = HelloPayload_Serialize (BuildHello params h) []\<rparr> c =
    (c\<lparr>pc_handshake := (pc_handshake c)\<lparr>hs_peer := known_as params (hs_local_nonce h), hs_state := AwaitingReceiveHelloAck\<rparr>\<rparr>,
     [StartWrite ((if pc_inbound c
        then SerialiseMessage E Hello (HelloPayload_Serialize (BuildHello params (pc_handshake c)) []) (magic params) else []) @
        SerialiseMessage E HelloAck [] (magic params))])"
proof -
  have "ReceiveHello params (BuildHello params h) (pc_handshake c) =
      (True, (pc_handshake c)\<lparr>hs_peer := known_as params (hs_local_nonce h), hs_state := AwaitingReceiveHelloAck\<rparr>)"
    using assms(2) by (simp add: ReceiveHello_def known_as_def) (simp add: BuildHello_def)
  then show ?thesis by (simp add: HandleMessage_def BuildHello_payload(1) [OF assms(1)] HelloAckPayload_Serialize_def Let_def)
qed

lemma helloack_received:
  "hs_state (pc_handshake c) = AwaitingReceiveHelloAck \<Longrightarrow>
   HandleMessage E params \<lparr>msg_command = HelloAck, msg_payload = []\<rparr> c =
     (c\<lparr>pc_handshake := (pc_handshake c)\<lparr>hs_state := Handshake_Complete\<rparr>, pc_peer_hello := hs_peer (pc_handshake c), pc_connected := True\<rparr>,
      [StartKeepalive, Connected (hs_peer (pc_handshake c))])"
  by (simp add: HandleMessage_def OnReceiveHelloAck_def)

lemma hello_fed:
  assumes "length (magic params) = 4" and "i64_ok (genesis_timestamp params)" and "hs_local_nonce h \<noteq> hs_local_nonce (pc_handshake c)"
  shows "\<exists>c' ev. feed E params (SerialiseMessage E Hello (HelloPayload_Serialize (BuildHello params h) []) (magic params) @ rest) c = (c', ev) \<and>
    StartWrite ((if pc_inbound c
      then SerialiseMessage E Hello (HelloPayload_Serialize (BuildHello params (pc_handshake c)) []) (magic params) else []) @
      SerialiseMessage E HelloAck [] (magic params)) \<in> set ev \<and>
    hs_state (pc_handshake c') = AwaitingReceiveHelloAck \<and> hs_peer (pc_handshake c') = known_as params (hs_local_nonce h)"
proof -
  have len: "length (HelloPayload_Serialize (BuildHello params h) []) \<le> MAX_MESSAGE_SIZE"
    by (simp add: BuildHello_payload(2) [OF assms(2)] MAX_MESSAGE_SIZE_def)
  show ?thesis
  proof (rule feed_message [OF assms(1) len, of Hello E rest c])
    fix buf
    assume f: "feed E params (SerialiseMessage E Hello (HelloPayload_Serialize (BuildHello params h) []) (magic params) @ rest) c =
      (let (c', events) = HandleMessage E params \<lparr>msg_command = Hello, msg_payload = HelloPayload_Serialize (BuildHello params h) []\<rparr>
          (c\<lparr>pc_header_buf := buf, pc_body_size := length (HelloPayload_Serialize (BuildHello params h) [])\<rparr>)
       in (c', (if HelloPayload_Serialize (BuildHello params h) [] = [] then [Traffic 0 HEADER_SIZE]
           else [Traffic 0 HEADER_SIZE, ReadBody (length (HelloPayload_Serialize (BuildHello params h) [])),
             Traffic 0 (length (HelloPayload_Serialize (BuildHello params h) []))]) @ events @ [ReadHeader]))"
    show ?thesis unfolding f using assms(3) by (simp add: hello_received [OF assms(2)])
  qed simp
qed

lemma helloack_fed:
  assumes "length (magic params) = 4" and "hs_state (pc_handshake c) = AwaitingReceiveHelloAck"
  shows "\<exists>c' ev. feed E params (SerialiseMessage E HelloAck [] (magic params)) c = (c', ev) \<and> pc_connected c' \<and>
    Connected (hs_peer (pc_handshake c)) \<in> set ev"
proof (rule feed_message [OF assms(1), of "[]" HelloAck E "[]" c])
  fix buf
  assume f: "feed E params (SerialiseMessage E HelloAck [] (magic params) @ []) c =
    (let (c', events) = HandleMessage E params \<lparr>msg_command = HelloAck, msg_payload = []\<rparr>
        (c\<lparr>pc_header_buf := buf, pc_body_size := length ([] :: byte_vec)\<rparr>)
     in (c', (if ([] :: byte_vec) = [] then [Traffic 0 HEADER_SIZE]
         else [Traffic 0 HEADER_SIZE, ReadBody (length ([] :: byte_vec)), Traffic 0 (length ([] :: byte_vec))]) @ events @ [ReadHeader]))"
  then show ?thesis using assms(2) by (simp add: helloack_received)
qed simp_all

text \<open>
  Property C20. Two nodes of a network connect: an outbound connection sends its hello; fed with it, a fresh
  inbound connection of a node with another nonce answers with its hello and its acknowledgement;
  fed with these in turn, the outbound side acknowledges and is connected; and fed with that, so is
  the inbound side. Each then knows the other by the nonce it announced.
\<close>

theorem handshake_connects:
  assumes "a \<noteq> b" and "params = ParamsFor n"
    and "SendHello E params (PeerConnection_outbound a host port) = (out1, [StartWrite hello])"
  shows "\<exists>in1 ev1 own ack out2 ev2 ack' out3 ev3 in2 ev4.
    feed E params hello (PeerConnection_inbound b) = (in1, ev1) \<and> StartWrite (own @ ack) \<in> set ev1 \<and>
    feed E params (own @ ack) out1 = (out2, ev2) \<and> StartWrite ack' \<in> set ev2 \<and>
    feed E params ack out2 = (out3, ev3) \<and> pc_connected out3 \<and> Connected (known_as params b) \<in> set ev3 \<and>
    feed E params ack' in1 = (in2, ev4) \<and> pc_connected in2 \<and> Connected (known_as params a) \<in> set ev4"
proof -
  have m: "length (magic params) = 4" and ts: "i64_ok (genesis_timestamp params)" unfolding assms(2)
    by (simp, cases n) (simp_all add: MAINNET_PARAMS_def TESTNET_PARAMS_def REGTEST_PARAMS_def i64_ok_def GENESIS_TIMESTAMP_def)
  let ?in = "PeerConnection_inbound b" and ?out = "PeerConnection_outbound a host port"
  let ?frame = "\<lambda>c. SerialiseMessage E Hello (HelloPayload_Serialize (BuildHello params (pc_handshake c)) []) (magic params)"
  let ?ack = "SerialiseMessage E HelloAck [] (magic params)"
  have out1: "out1 = ?out\<lparr>pc_handshake := (pc_handshake ?out)\<lparr>hs_state := AwaitingReceiveHello\<rparr>\<rparr>" "hello = ?frame ?out"
    using assms(3) by (auto simp: SendHello_def OnSendHello_def PeerConnection_outbound_def Handshake_new_def)
  have nonces: "hs_local_nonce (pc_handshake ?in) = b" "hs_local_nonce (pc_handshake ?out) = a" "pc_inbound ?in" "\<not> pc_inbound ?out"
    by (simp_all add: PeerConnection_inbound_def PeerConnection_outbound_def Handshake_new_def)
  obtain in1 ev1 where 1: "feed E params hello ?in = (in1, ev1)" "StartWrite (?frame ?in @ ?ack) \<in> set ev1"
    "hs_state (pc_handshake in1) = AwaitingReceiveHelloAck" "hs_peer (pc_handshake in1) = known_as params a"
    using hello_fed [OF m ts, of "pc_handshake ?out" ?in E "[]"] assms(1) by (auto simp: out1(2) nonces)
  obtain out2 ev2 where 2: "feed E params (?frame ?in @ ?ack) out1 = (out2, ev2)" "StartWrite ?ack \<in> set ev2"
    "hs_state (pc_handshake out2) = AwaitingReceiveHelloAck" "hs_peer (pc_handshake out2) = known_as params b"
    using hello_fed [OF m ts, of "pc_handshake ?in" out1 E ?ack] assms(1) by (auto simp: out1(1) nonces)
  from helloack_fed [OF m 1(3), of E] helloack_fed [OF m 2(3), of E] 1(1,2) 2(1,2) show ?thesis
    unfolding 1(4) 2(4) by blast
qed

theorem handshake_connects_witness:
  "\<exists>ack in1 in2 ev. feed example_crypto REGTEST_PARAMS ack in1 = (in2, ev) \<and> pc_connected in2 \<and>
     Connected (known_as REGTEST_PARAMS 1) \<in> set ev"
proof -
  have "(1 :: u64) \<noteq> 2" by simp
  moreover obtain out1 hello where "SendHello example_crypto REGTEST_PARAMS (PeerConnection_outbound 1 ''host'' 18444) = (out1, [StartWrite hello])"
    by (simp add: SendHello_def)
  ultimately show ?thesis using handshake_connects [of 1 2 REGTEST_PARAMS Regtest example_crypto "''host''" 18444 out1 hello]
    by (simp only: ParamsFor.simps simp_thms) blast
qed

text \<open>
  Messages are not held back until the handshake is done: every message of a known command other
  than the two of the handshake is passed on, whatever the state of the handshake is, and the
  connection stays open.
\<close>

theorem messages_not_gated:
  assumes "length payload \<le> MAX_MESSAGE_SIZE" and "\<forall>k. cmd \<noteq> UnnamedCommand k" and "cmd \<noteq> Hello" and "cmd \<noteq> HelloAck"
  shows "\<exists>c' ev. feed E (ParamsFor n) (SerialiseMessage E cmd payload (magic (ParamsFor n))) c = (c', ev) \<and>
    Received cmd payload \<in> set ev \<and> pc_open c' = pc_open c \<and> pc_handshake c' = pc_handshake c"
proof -
  have h: "HandleMessage E (ParamsFor n) \<lparr>msg_command = cmd, msg_payload = payload\<rparr> c1 =
      (c1\<lparr>pc_ping_outstanding := False\<rparr>, [Received cmd payload])" for c1
  proof (cases cmd)
    case Hello
    then show ?thesis using assms(3) by blast
  next
    case HelloAck
    then show ?thesis using assms(4) by blast
  next
    case (UnnamedCommand k)
    then show ?thesis using assms(2) by blast
  qed (simp_all add: HandleMessage_def)
  obtain buf where f: "feed E (ParamsFor n) (SerialiseMessage E cmd payload (magic (ParamsFor n)) @ []) c =
       (let (c', events) = HandleMessage E (ParamsFor n) \<lparr>msg_command = cmd, msg_payload = payload\<rparr>
          (c\<lparr>pc_header_buf := buf, pc_body_size := length payload\<rparr>)
        in (c', (if payload = [] then [Traffic 0 HEADER_SIZE]
                 else [Traffic 0 HEADER_SIZE, ReadBody (length payload), Traffic 0 (length payload)]) @ events @ [ReadHeader]))"
    using feed_message [OF magic_length assms(1,2)] by metis
  show ?thesis using f by (simp add: h)
qed

theorem messages_not_gated_witness:
  "\<exists>c' ev. feed example_crypto REGTEST_PARAMS (SerialiseMessage example_crypto GetAddr [] (magic REGTEST_PARAMS)) (PeerConnection_inbound 7) =
      (c', ev) \<and> Received GetAddr [] \<in> set ev \<and> hs_state (pc_handshake c') = AwaitingSendHello"
proof -
  have h: "hs_state (pc_handshake (PeerConnection_inbound 7)) = AwaitingSendHello"
    by (simp add: PeerConnection_inbound_def Handshake_new_def)
  have 1: "length ([] :: byte_vec) \<le> MAX_MESSAGE_SIZE" and 2: "\<forall>k. GetAddr \<noteq> UnnamedCommand k"
    and 3: "GetAddr \<noteq> Hello" and 4: "GetAddr \<noteq> HelloAck" by simp_all
  from messages_not_gated [OF 1 2 3 4, of example_crypto Regtest "PeerConnection_inbound 7"] obtain c' ev where
    f: "feed example_crypto REGTEST_PARAMS (SerialiseMessage example_crypto GetAddr [] (magic REGTEST_PARAMS)) (PeerConnection_inbound 7) = (c', ev)"
    "Received GetAddr [] \<in> set ev" "pc_handshake c' = pc_handshake (PeerConnection_inbound 7)"
    unfolding ParamsFor.simps by (elim exE conjE)
  show ?thesis by (rule exI [of _ c'], rule exI [of _ ev], rule conjI [OF f(1) conjI [OF f(2)]], unfold f(3), rule h)
qed

lemma feed_steps: "feed E params bytes c = (c', ev) \<Longrightarrow> (connection_step E params)\<^sup>*\<^sup>* c c'"
proof -
  assume f: "feed E params bytes c = (c', ev)"
  obtain c1 ev1 where h: "OnHeader E params (Inr (take HEADER_SIZE bytes)) c = (c1, ev1)" by fastforce
  then have "connection_step E params c c1" by (rule connection_step.header)
  moreover have "c1 = c' \<or> connection_step E params c1 c'"
    using f unfolding feed_def h by (auto split: peer_event.splits prod.splits intro: connection_step.body)
  ultimately show ?thesis by (auto intro: rtranclp.intros)
qed

theorem connected_peers_vetted_witness:
  "\<exists>c. pc_connected c \<and> ph_nonce (pc_peer_hello c) \<noteq> 2 \<and> (connection_step example_crypto REGTEST_PARAMS)\<^sup>*\<^sup>* (PeerConnection_inbound 2) c"
proof -
  let ?in = "PeerConnection_inbound 2"
  have m: "length (magic REGTEST_PARAMS) = 4" using magic_length [of Regtest] by simp
  have ts: "i64_ok (genesis_timestamp REGTEST_PARAMS)" by (simp add: REGTEST_PARAMS_def i64_ok_def GENESIS_TIMESTAMP_def)
  have n: "hs_local_nonce (Handshake_new 1) \<noteq> hs_local_nonce (pc_handshake ?in)"
    by (simp add: PeerConnection_inbound_def Handshake_new_def)
  obtain c1 ev1 where 1: "(connection_step example_crypto REGTEST_PARAMS)\<^sup>*\<^sup>* ?in c1" "hs_state (pc_handshake c1) = AwaitingReceiveHelloAck"
    using hello_fed [OF m ts n, of example_crypto "[]"] feed_steps by blast
  obtain c2 where 2: "(connection_step example_crypto REGTEST_PARAMS)\<^sup>*\<^sup>* c1 c2" "pc_connected c2"
    using helloack_fed [OF m 1(2), of example_crypto] feed_steps by blast
  from rtranclp_trans [OF 1(1) 2(1)] have r: "(connection_step example_crypto REGTEST_PARAMS)\<^sup>*\<^sup>* ?in c2" .
  from connected_peers_vetted [OF r _ 2(2), of 2] r 2(2) show ?thesis by blast
qed

end
