(* ===== verification/Sync.thy ===== *)
theory Sync
  imports Wire ChainState
begin

text \<open>
  Headers-first synchronisation (\<^verbatim>\<open>net/sync\<close>): the locator a node describes its chain with, and the state
  machine that asks for headers. The machine's callback is the list of messages an operation sends.
  \<open>None\<close> stands for a walk that does not return or a null pointer that is followed. The step between
  locator entries doubles in 32 bits and would stay at zero once it wrapped, so that the loop ends, and
  how long the locator can be, rest on the heights it has to cover.
\<close>

section \<open>Locators\<close>

text \<open>The step once the locator has that many entries, and the height that step leads to.\<close>

definition locator_step :: "nat \<Rightarrow> u32 \<Rightarrow> u32" where
  "locator_step entries step = (if entries \<ge> 10 then step * 2 else step)"

definition locator_target :: "u32 \<Rightarrow> u32 \<Rightarrow> u32" where
  "locator_target height step = (if height > step then height - step else 0)"

partial_function (option) BuildLocator_loop ::
  "block_index \<Rightarrow> hash256 option \<Rightarrow> u32 \<Rightarrow> hash256 list \<Rightarrow> hash256 list option"
where
  "BuildLocator_loop index entry step locator =
     (case entry of
        None \<Rightarrow> Some locator
      | Some h \<Rightarrow>
          if \<not> ent_height (entry_at index h) > 0 then Some locator
          else
            Option.bind
              (Ancestor index h
                (locator_target (ent_height (entry_at index h)) (locator_step (Suc (length locator)) step)))
              (\<lambda>entry'. BuildLocator_loop index entry' (locator_step (Suc (length locator)) step)
                 (locator @ [ent_hash (entry_at index h)])))"

definition BuildLocator :: "block_index \<Rightarrow> hash256 list option" where
  "BuildLocator index =
     (case BestHeader index of
        None \<Rightarrow> Some []
      | Some best \<Rightarrow>
          Option.bind (BuildLocator_loop index (ent_parent (entry_at index best)) 1 [ent_hash (entry_at index best)])
            (\<lambda>locator. Some (locator @ [ent_hash (entry_at index (IndexGenesis index))])))"

section \<open>The state machine\<close>

datatype sync_state = AwaitingGetHeaders | AwaitingHeaders | ValidatingHeaders | DownloadingBlocks | Synced

record sync =
  sy_state :: sync_state
  sy_remote_tip :: hash256
  sy_pending_blocks :: "hash256 list"
  sy_inflight_count :: nat

definition Sync_new :: sync where
  "Sync_new = \<lparr>sy_state = AwaitingGetHeaders, sy_remote_tip = Hash256_zero, sy_pending_blocks = [], sy_inflight_count = 0\<rparr>"

definition getheaders_message :: "hash256 list \<Rightarrow> command \<times> byte_vec" where
  "getheaders_message locator =
     (GetHeaders, GetHeadersPayload_Serialize
        \<lparr>gh_protocol_version = 1, gh_locator = locator, gh_stop_hash = Hash256_zero\<rparr> [])"

definition Sync_Start :: "block_index \<Rightarrow> sync \<Rightarrow> (sync \<times> (command \<times> byte_vec) list) option" where
  "Sync_Start index s =
     Option.bind (BuildLocator index) (\<lambda>locator. Some (s\<lparr>sy_state := AwaitingHeaders\<rparr>, [getheaders_message locator]))"

fun OnHeaders_loop ::
  "crypto_ext \<Rightarrow> block_index \<Rightarrow> block_header list \<Rightarrow> hash256 \<Rightarrow> hash256 list \<Rightarrow> (hash256 \<times> hash256 list) option"
where
  "OnHeaders_loop E index [] remote_tip blocks_to_request = Some (remote_tip, blocks_to_request)"
| "OnHeaders_loop E index (hdr # hdrs) remote_tip blocks_to_request =
     (case Find index (BlockHeader_Hash E hdr) of
        None \<Rightarrow> OnHeaders_loop E index hdrs Hash256_zero (blocks_to_request @ [BlockHeader_Hash E hdr])
      | Some existing \<Rightarrow>
          (case BestHeader index of
             None \<Rightarrow> None
           | Some best \<Rightarrow>
               OnHeaders_loop E index hdrs
                 (if ent_total_work existing > ent_total_work (entry_at index best) then ent_hash existing else Hash256_zero)
                 blocks_to_request))"

definition OnHeaders ::
  "crypto_ext \<Rightarrow> block_index \<Rightarrow> block_header list \<Rightarrow> sync \<Rightarrow> (hash256 list \<times> sync \<times> (command \<times> byte_vec) list) option"
where
  "OnHeaders E index headers s =
     (if headers = [] then Some ([], s\<lparr>sy_state := Synced\<rparr>, [])
      else
        Option.bind (OnHeaders_loop E index headers (sy_remote_tip s) []) (\<lambda>(remote_tip, blocks_to_request).
        Option.bind (BuildLocator index) (\<lambda>locator.
          Some (blocks_to_request, s\<lparr>sy_remote_tip := remote_tip, sy_state := AwaitingHeaders\<rparr>,
                [getheaders_message locator]))))"

definition OnBlockReceived :: "sync \<Rightarrow> sync" where
  "OnBlockReceived s =
     (let s1 = (if sy_inflight_count s > 0 then s\<lparr>sy_inflight_count := sy_inflight_count s - 1\<rparr> else s)
      in if sy_pending_blocks s1 = [] \<and> sy_inflight_count s1 = 0 then s1\<lparr>sy_state := Synced\<rparr> else s1)"

section \<open>The locator loop ends\<close>

lemma Ancestor_returns:
  assumes "tree_ok E index" and "known index h" and "unat w \<le> height_of index h"
  obtains a where "Ancestor index h w = Some (Some a)" "a \<in> set (ancestry index h)" "height_of index a = unat w" "known index a"
proof -
  obtain a where a: "Ancestor_loop index w (Some h) = Some (Some a)" "a \<in> set (ancestry index h)"
    "height_of index a = min (unat w) (height_of index h)"
    using Ancestor_loop_returns [OF assms(1,2)] by blast
  have "Ancestor index h w = Some (Some a)" using a(1) assms(3) by (simp add: Ancestor_def word_less_nat_alt not_less [symmetric])
  with a assms(3) ancestry_below(1) [OF assms(1,2) a(2)] that show ?thesis by simp
qed

lemma ancestry_trans:
  assumes "tree_ok E index" and "known index h" and "a \<in> set (ancestry index h)"
  shows "set (ancestry index a) \<subseteq> set (ancestry index h)"
  using assms(2,3)
proof (induction "height_of index h" arbitrary: h rule: less_induct)
  case less
  show ?case
  proof (cases "a = h")
    case False
    with less(3) ancestry_rec [OF assms(1) less(2)] obtain p where p: "parent_of index h = Some p" "a \<in> set (ancestry index p)"
      "ancestry index h = h # ancestry index p" by (auto split: option.splits)
    note t = tree_parent(1,2) [OF assms(1) less(2) p(1)]
    with less(1) [OF _ t(1) p(2)] p(3) show ?thesis by auto
  qed simp
qed

text \<open>
  After nine entries the step has been doubled once per entry, and what it has been summed up to so far is
  less than the height of the best header; so it has not wrapped while there is a height left to cover.
\<close>

definition locator_inv :: "nat \<Rightarrow> u32 \<Rightarrow> nat \<Rightarrow> bool" where
  "locator_inv n step height \<longleftrightarrow> 1 \<le> n \<and> unat step = 2 ^ (n - 9) \<and>
     (0 < height \<longrightarrow> (if n < 9 then height + n < 2 ^ 32 else height + 7 + 2 ^ (n - 8) < 2 ^ 32))"

lemma locator_inv_step:
  assumes "locator_inv n step height" and "0 < height"
    and step': "step' = locator_step (Suc n) step"
    and height': "height' = (if height > unat step' then height - unat step' else 0)"
  shows "n \<le> 39" "locator_inv (Suc n) step' height'" "height' < height"
proof -
  have n: "n \<le> 39"
  proof (rule ccontr)
    assume "\<not> ?thesis"
    then have "(2 :: nat) ^ 32 \<le> 2 ^ (n - 8)" by (intro power_increasing) auto
    with assms(1,2) \<open>\<not> ?thesis\<close> show False by (simp add: locator_inv_def)
  qed
  then show "n \<le> 39" .
  show "locator_inv (Suc n) step' height'" "height' < height"
  proof (atomize (full), cases "n < 9")
    case True
    then have "unat step' = 1" using assms(1) step' by (simp add: locator_inv_def locator_step_def)
    with True assms(1,2) height' show "locator_inv (Suc n) step' height' \<and> height' < height"
      by (cases "n = 8") (auto simp: locator_inv_def)
  next
    case False
    then obtain k where k: "n = 9 + k" using le_Suc_ex [of 9 n] by auto
    have b: "height + 7 + 2 * 2 ^ k < 2 ^ 32" using assms(1,2) by (simp add: locator_inv_def k)
    have "unat step' = 2 * 2 ^ k"
      using assms(1) step' b by (simp add: locator_inv_def locator_step_def k unat_word_ariths mult.commute)
    with b height' show "locator_inv (Suc n) step' height' \<and> height' < height"
      using assms(1,2) by (auto simp: locator_inv_def k)
  qed
qed

lemma BuildLocator_loop_returns:
  assumes tree: "tree_ok E index" and "known index h" and "locator_inv (length locator) step (height_of index h)"
  shows "\<exists>l. BuildLocator_loop index (Some h) step locator = Some (locator @ l) \<and> length (locator @ l) \<le> max (length locator) 40 \<and>
    set l \<subseteq> set (ancestry index h)"
  using assms(2,3)
proof (induction "height_of index h" arbitrary: h step locator rule: less_induct)
  case less
  show ?case
  proof (cases "height_of index h = 0")
    case True
    then have "\<not> ent_height (entry_at index h) > 0" by (simp add: word_less_nat_alt)
    then show ?thesis by (subst BuildLocator_loop.simps) simp
  next
    case False
    let ?step = "locator_step (Suc (length locator)) step"
    let ?target = "locator_target (ent_height (entry_at index h)) ?step"
    have t: "unat ?target = (if height_of index h > unat ?step then height_of index h - unat ?step else 0)"
      by (auto simp: locator_target_def word_less_nat_alt unat_sub_if_size word_le_nat_alt)
    note i = locator_inv_step [OF less(3) _ refl t] 
    obtain a where a: "Ancestor index h ?target = Some (Some a)" "a \<in> set (ancestry index h)"
      "height_of index a = unat ?target" "known index a"
      by (rule Ancestor_returns [OF tree less(2), of ?target]) (simp_all add: t)
    have hash: "ent_hash (entry_at index h) = h" by (rule tree_hash [OF tree less(2)])
    have "ent_height (entry_at index h) > 0" using False by (simp add: word_less_nat_alt)
    then have step: "BuildLocator_loop index (Some h) step locator = BuildLocator_loop index (Some a) ?step (locator @ [h])"
      by (subst BuildLocator_loop.simps) (simp add: a(1) hash)
    have "locator_inv (length (locator @ [h])) ?step (height_of index a)" using i(2) False a(3) by simp
    from less(1) [OF _ a(4) this] i(3) False a(3) obtain l where
      l: "BuildLocator_loop index (Some a) ?step (locator @ [h]) = Some ((locator @ [h]) @ l)"
      "length ((locator @ [h]) @ l) \<le> max (length (locator @ [h])) 40" "set l \<subseteq> set (ancestry index a)" by auto
    have "set (h # l) \<subseteq> set (ancestry index h)"
      using l(3) ancestry_trans [OF tree less(2) a(2)] ancestry_hd [OF tree less(2)] by auto
    with step l(1,2) i(1) False show ?thesis by (intro exI [of _ "h # l"]) auto
  qed
qed

section \<open>Properties\<close>

text \<open>
  A locator can always be built, on every consistent index: the loop returns although its
  step is doubled in 32 bits, the locator starts at the best header, ends at genesis, names only
  ancestors of the best header, and has at most 41 entries, so no peer refuses it for its length.
\<close>

theorem locator_bounded:
  assumes "index_ok E index" and "BestHeader index = Some best"
  shows "\<exists>l. BuildLocator index = Some l \<and> hd l = best \<and> last l = IndexGenesis index \<and> length l \<le> 41 \<and>
    set l \<subseteq> set (ancestry index best) \<and>
    decode_all (GetHeadersPayload_Deserialize 101) (snd (getheaders_message l)) =
      Some \<lparr>gh_protocol_version = 1, gh_locator = l, gh_stop_hash = Hash256_zero\<rparr>"
proof -
  note tree = index_okD(1) [OF assms(1)]
  have k: "known index best" using index_okD(4) [OF assms(1)] assms(2) by (auto simp: best_ok_def BestHeader_def)
  have g: "known index (IndexGenesis index)" using tree by (auto simp: tree_ok_def IndexGenesis_def)
  have hash: "ent_hash (entry_at index best) = best" "ent_hash (entry_at index (IndexGenesis index)) = IndexGenesis index"
    by (rule tree_hash [OF tree k], rule tree_hash [OF tree g])
  have "\<exists>l. BuildLocator_loop index (parent_of index best) 1 [best] = Some (best # l) \<and> length (best # l) \<le> 40 \<and>
      set l \<subseteq> set (ancestry index best)"
  proof (cases "parent_of index best")
    case None
    then show ?thesis by (subst BuildLocator_loop.simps) simp
  next
    case (Some p)
    note t = tree_parent(1,2) [OF tree k Some]
    have "height_of index best < 2 ^ 32" using unat_bounds(2) [of "ent_height (entry_at index best)"] by simp
    then have "locator_inv (length [best]) 1 (height_of index p)" using t(2) by (simp add: locator_inv_def)
    from BuildLocator_loop_returns [OF tree t(1) this] ancestry_rec [OF tree k] Some show ?thesis by fastforce
  qed
  then obtain l where l: "BuildLocator_loop index (parent_of index best) 1 [best] = Some (best # l)" "length (best # l) \<le> 40"
    "set l \<subseteq> set (ancestry index best)" by blast
  let ?l = "best # l @ [IndexGenesis index]"
  have b: "BuildLocator index = Some ?l" by (simp add: BuildLocator_def assms(2) hash l(1))
  have ag: "IndexGenesis index \<in> set (ancestry index best)"
    using ancestry_heights [OF tree k] ancestry_nonempty(1) [OF tree k] by (metis IndexGenesis_def last_in_set)
  have "decode_all (GetHeadersPayload_Deserialize 101) (snd (getheaders_message ?l)) =
      Some \<lparr>gh_protocol_version = 1, gh_locator = ?l, gh_stop_hash = Hash256_zero\<rparr>"
    unfolding getheaders.decode_all_iff using l(2) by (simp add: getheaders_message_def)
  with b l(2,3) ag ancestry_hd [OF tree k] show ?thesis by (intro exI [of _ ?l]) auto
qed

theorem locator_bounded_witness:
  "\<exists>l. BuildLocator (ForNetwork example_crypto REGTEST_PARAMS) = Some l \<and> length l \<le> 41"
  using locator_bounded [OF ForNetwork_ok, of example_crypto REGTEST_PARAMS] by (auto simp: BestHeader_def ForNetwork_fields)

text \<open>
  What a batch of headers leads to: exactly the bodies of the headers not known yet are requested, in order,
  and the remote tip is only ever set to an entry that has been ruled out.
\<close>

theorem headers_requested:
  assumes "index_ok E index" and "BestHeader index = Some best"
  shows "\<exists>remote_tip. OnHeaders_loop E index headers tip0 requested =
      Some (remote_tip, requested @ filter (\<lambda>h. Find index h = None) (map (BlockHeader_Hash E) headers)) \<and>
    (remote_tip = tip0 \<or> remote_tip = Hash256_zero \<or> \<not> IsEligible (entry_at index remote_tip))"
proof (induction headers arbitrary: tip0 requested)
  case (Cons hdr headers)
  note o = index_okD [OF assms(1)]
  obtain be where be: "Find index best = Some be" "IsEligible be" "\<And>h e. Find index h = Some e \<Longrightarrow> \<not> IsBetterTip e be"
    using o(4) assms(2) by (auto simp: best_ok_def BestHeader_def)
  show ?case
  proof (cases "Find index (BlockHeader_Hash E hdr)")
    case None
    with Cons [of Hash256_zero "requested @ [BlockHeader_Hash E hdr]"] show ?thesis by auto
  next
    case (Some e)
    have hash: "ent_hash e = BlockHeader_Hash E hdr" using tree_hash [OF o(1), of "BlockHeader_Hash E hdr"] Some by simp
    have "\<not> IsEligible e" if "ent_total_work e > ent_total_work (entry_at index best)"
      using be(3) [OF Some] be(1,2) that by (auto simp: IsBetterTip_def entry_at_def split: if_splits)
    with Some Cons [of "if ent_total_work e > ent_total_work (entry_at index best) then ent_hash e else Hash256_zero" requested] hash assms(2)
    show ?thesis by (auto simp: entry_at_def split: if_splits)
  qed
qed simp

end
