(* ===== verification/PeerManager.thy ===== *)
theory PeerManager
  imports Handshake Sync PoolSync
begin

text \<open>
  What a node does with what its peers send: \<^verbatim>\<open>PeerManager::Impl\<close> of \<^verbatim>\<open>net/peer_manager.cpp\<close>, with the
  hooks \<^verbatim>\<open>node/amariand.cpp\<close> gives it to the chain state and the pool. A peer is its position in the vector
  of connections, which only grows. The remote endpoint of a socket and the clocks are
  arguments. The keeper of the pool observes the chain: the calls it receives during an activation are
  applied to it, in order, when the activation returns. An operation returns the events its
  connections produced, with the peer of each; \<open>None\<close> would be an activation that does not
  return. Whatever is received, the chain and the coins stay in step.
\<close>

section \<open>State\<close>

text \<open>
  Of the configuration, the limits; the network and the chain state are in the environment and the state
  below, the hooks are the definitions of their section, and writing the address book to its file is left out.
\<close>

record net_config =
  nc_max_outbound :: nat
  nc_max_inbound :: nat
  nc_ban_threshold :: int
  nc_ban_duration :: int

definition NetConfig_default :: net_config where
  "NetConfig_default = \<lparr>nc_max_outbound = 8, nc_max_inbound = 32, nc_ban_threshold = 100, nc_ban_duration = 86400\<rparr>"

record clock =
  clk_now :: i64
  clk_accept :: i64
  clk_steady :: int

record ('s, 'k) peer_manager =
  pm_state :: "('s, 'k) chain_state"
  pm_keeper :: pool_keeper
  pm_connections :: "peer_connection list"
  pm_local_nonce :: u64
  pm_announced_blocks :: "hash256 list"
  pm_announced_transactions :: "hash256 list"
  pm_misbehavior :: "string \<rightharpoonup> int"
  pm_bans :: "string \<rightharpoonup> int"
  pm_addresses :: "network_address list"

type_synonym ('s, 'k) handled = "('s, 'k) peer_manager \<times> (nat \<times> peer_event) list"

definition PeerManager_new :: "('s, 'k) chain_state \<Rightarrow> pool_keeper \<Rightarrow> u64 \<Rightarrow> network_address list \<Rightarrow> ('s, 'k) peer_manager" where
  "PeerManager_new state keeper local_nonce addresses =
     \<lparr>pm_state = state, pm_keeper = keeper, pm_connections = [], pm_local_nonce = local_nonce, pm_announced_blocks = [],
      pm_announced_transactions = [], pm_misbehavior = Map.empty, pm_bans = Map.empty, pm_addresses = addresses\<rparr>"

section \<open>Addresses\<close>

text \<open>A byte as the stream prints it in base sixteen, which is without a leading zero.\<close>

definition hex_digit :: "nat \<Rightarrow> char" where
  "hex_digit n = (if n < 10 then char_of (48 + n) else char_of (87 + n))"

definition hex_unpadded :: "u8 \<Rightarrow> string" where
  "hex_unpadded b = (if unat b < 16 then [hex_digit (unat b)] else [hex_digit (unat b div 16), hex_digit (unat b mod 16)])"

definition AddressKey :: "network_address \<Rightarrow> string" where
  "AddressKey address =
     to_string (unat (na_addr_ver address)) @ '':'' @ to_string (unat (na_port address)) @ '':'' @
     concat (map hex_unpadded (na_address address))"

definition AddAddress :: "network_address \<Rightarrow> network_address list \<Rightarrow> network_address list" where
  "AddAddress address addresses =
     (if (na_addr_ver address \<noteq> 4 \<and> na_addr_ver address \<noteq> 6) \<or> na_port address = 0 then addresses
      else if \<exists>known \<in> set addresses. AddressKey known = AddressKey address then addresses
      else (if length addresses \<ge> 1000 then tl addresses else addresses) @ [address])"

section \<open>Peers\<close>

definition with_peer ::
  "nat \<Rightarrow> (peer_connection \<Rightarrow> peer_connection \<times> peer_event list) \<Rightarrow> ('s, 'k) peer_manager \<Rightarrow> ('s, 'k) handled"
where
  "with_peer peer f pm =
     (if peer < length (pm_connections pm)
      then let (c, events) = f (pm_connections pm ! peer)
           in (pm\<lparr>pm_connections := (pm_connections pm)[peer := c]\<rparr>, map (Pair peer) events)
      else (pm, []))"

definition Manager_Send ::
  "('s, 'k) chain_env \<Rightarrow> nat \<Rightarrow> command \<Rightarrow> byte_vec \<Rightarrow> ('s, 'k) peer_manager \<Rightarrow> ('s, 'k) handled"
where
  "Manager_Send env peer command payload = with_peer peer (Send (env_crypto env) (env_params env) command payload)"

definition Manager_Close :: "nat \<Rightarrow> ('s, 'k) peer_manager \<Rightarrow> ('s, 'k) handled" where
  "Manager_Close peer = with_peer peer (\<lambda>c. (Close c, []))"

text \<open>\<^verbatim>\<open>remote\<close> is the remote endpoint of the socket as text, empty where it has none.\<close>

definition EndpointKey :: "string \<Rightarrow> peer_connection \<Rightarrow> string" where
  "EndpointKey remote c = (if pc_host c \<noteq> [] then pc_host c @ '':'' @ to_string (unat (pc_port c)) else remote)"

definition IsBanned :: "int \<Rightarrow> string \<Rightarrow> ('s, 'k) peer_manager \<Rightarrow> bool \<times> ('s, 'k) peer_manager" where
  "IsBanned steady endpoint pm =
     (case pm_bans pm endpoint of
        None \<Rightarrow> (False, pm)
      | Some until \<Rightarrow>
          if steady \<ge> until
          then (False, pm\<lparr>pm_bans := (pm_bans pm)(endpoint := None), pm_misbehavior := (pm_misbehavior pm)(endpoint := None)\<rparr>)
          else (True, pm))"

definition Score ::
  "net_config \<Rightarrow> clock \<Rightarrow> string \<Rightarrow> nat \<Rightarrow> int \<Rightarrow> ('s, 'k) peer_manager \<Rightarrow> ('s, 'k) handled"
where
  "Score cfg clk remote peer points pm =
     (let endpoint = EndpointKey remote (pm_connections pm ! peer)
      in if endpoint = [] then (pm, [])
         else
           let score = (case pm_misbehavior pm endpoint of None \<Rightarrow> 0 | Some s \<Rightarrow> s) + points;
               pm1 = pm\<lparr>pm_misbehavior := (pm_misbehavior pm)(endpoint \<mapsto> score)\<rparr>
           in if score \<ge> nc_ban_threshold cfg
              then Manager_Close peer (pm1\<lparr>pm_bans := (pm_bans pm1)(endpoint \<mapsto> clk_steady clk + nc_ban_duration cfg)\<rparr>)
              else (pm1, []))"

definition StartSync :: "('s, 'k) chain_env \<Rightarrow> nat \<Rightarrow> ('s, 'k) peer_manager \<Rightarrow> ('s, 'k) handled" where
  "StartSync env peer pm =
     (let index = cs_index (pm_state pm);
          tip = ent_hash (entry_at index (Tip (pm_state pm)));
          genesis = ent_hash (entry_at index (IndexGenesis index));
          (command, payload) = getheaders_message (tip # (if tip \<noteq> genesis then [genesis] else []))
      in Manager_Send env peer command payload pm)"

fun send_to_all ::
  "('s, 'k) chain_env \<Rightarrow> command \<Rightarrow> byte_vec \<Rightarrow> nat list \<Rightarrow> ('s, 'k) peer_manager \<Rightarrow> ('s, 'k) handled"
where
  "send_to_all env command payload [] pm = (pm, [])"
| "send_to_all env command payload (peer # peers) pm =
     (if pc_connected (pm_connections pm ! peer)
      then let (pm1, out1) = Manager_Send env peer command payload pm;
               (pm2, out2) = send_to_all env command payload peers pm1
           in (pm2, out1 @ out2)
      else send_to_all env command payload peers pm)"

definition AnnounceBlock :: "('s, 'k) chain_env \<Rightarrow> hash256 \<Rightarrow> ('s, 'k) peer_manager \<Rightarrow> ('s, 'k) handled" where
  "AnnounceBlock env hash pm =
     (if hash \<in> set (pm_announced_blocks pm) then (pm, [])
      else send_to_all env Inv (GetDataPayload_Serialize [\<lparr>inv_type = Inventory_Block, inv_hash = hash\<rparr>] [])
             [0..<length (pm_connections pm)] (pm\<lparr>pm_announced_blocks := hash # pm_announced_blocks pm\<rparr>))"

definition AnnounceTransaction :: "('s, 'k) chain_env \<Rightarrow> hash256 \<Rightarrow> ('s, 'k) peer_manager \<Rightarrow> ('s, 'k) handled" where
  "AnnounceTransaction env hash pm =
     (if hash \<in> set (pm_announced_transactions pm) then (pm, [])
      else send_to_all env Inv (GetDataPayload_Serialize [\<lparr>inv_type = Inventory_Transaction, inv_hash = hash\<rparr>] [])
             [0..<length (pm_connections pm)] (pm\<lparr>pm_announced_transactions := hash # pm_announced_transactions pm\<rparr>))"

section \<open>The hooks of the node\<close>

definition accept_transaction ::
  "('s, 'k) chain_env \<Rightarrow> clock \<Rightarrow> transaction \<Rightarrow> ('s, 'k) peer_manager \<Rightarrow> bool \<times> ('s, 'k) peer_manager"
where
  "accept_transaction env clk tx pm =
     (let s = pm_state pm;
          spend_height = spend_height_above (ent_height (entry_at (cs_index s) (Tip s)));
          (accepted, pool) = AcceptTx (env_crypto env) tx (cache_view (cs_coins s)) spend_height (clk_accept clk)
             (env_params env) (pk_pool (pm_keeper pm))
      in ((case accepted of Inl _ \<Rightarrow> False | Inr _ \<Rightarrow> True), pm\<lparr>pm_keeper := (pm_keeper pm)\<lparr>pk_pool := pool\<rparr>\<rparr>))"

definition get_transaction :: "hash256 \<Rightarrow> ('s, 'k) peer_manager \<Rightarrow> transaction option" where
  "get_transaction hash pm = map_option pe_tx (Pool_Find (pk_pool (pm_keeper pm)) hash)"

text \<open>An activation, observed by the keeper.\<close>

definition activate_observed ::
  "('s, 'k) chain_env \<Rightarrow> ('s, 'k) peer_manager \<Rightarrow> ((activation_failure + activation_summary) \<times> ('s, 'k) peer_manager) option"
where
  "activate_observed env pm =
     Option.bind (ActivateBestChain env (ObserveWith (pm_state pm))) (\<lambda>(r, s).
       Some (r, pm\<lparr>pm_state := s,
         pm_keeper := fold (notify_keeper (env_crypto env)) (case cs_observer s of None \<Rightarrow> [] | Some calls \<Rightarrow> calls) (pm_keeper pm)\<rparr>))"

section \<open>Messages\<close>

text \<open>The heights from \<open>n\<close> down are searched for a locator entry; the search ends at the first entry found.\<close>

fun locate_from :: "block_index \<Rightarrow> hash256 list \<Rightarrow> hash256 \<Rightarrow> nat \<Rightarrow> u32 option" where
  "locate_from index blocks wanted 0 = None"
| "locate_from index blocks wanted (Suc n) =
     (case AtHeight blocks (of_nat n) of
        None \<Rightarrow> locate_from index blocks wanted n
      | Some entry \<Rightarrow>
          if ent_hash (entry_at index entry) = wanted then Some (of_nat (Suc n)) else locate_from index blocks wanted n)"

fun start_height :: "block_index \<Rightarrow> hash256 list \<Rightarrow> hash256 list \<Rightarrow> u32" where
  "start_height index blocks [] = 0"
| "start_height index blocks (wanted # locator) =
     (case locate_from index blocks wanted (length blocks) of
        Some height \<Rightarrow> height
      | None \<Rightarrow> start_height index blocks locator)"

function collect_headers ::
  "block_index \<Rightarrow> hash256 list \<Rightarrow> hash256 \<Rightarrow> u32 \<Rightarrow> block_header list \<Rightarrow> block_header list"
where
  "collect_headers index blocks stop_hash height headers =
     (if unat height < length blocks \<and> length headers < HeadersPayload_MAX_COUNT
      then case AtHeight blocks height of
          None \<Rightarrow> headers
        | Some entry \<Rightarrow>
            (let headers' = headers @ [ent_header (entry_at index entry)]
             in if ent_hash (entry_at index entry) = stop_hash then headers'
                else collect_headers index blocks stop_hash (height + 1) headers')
      else headers)"
  by pat_completeness auto
termination
  by (relation "measure (\<lambda>(_, _, _, _, headers). HeadersPayload_MAX_COUNT - length headers)") auto

declare collect_headers.simps [simp del]

definition HandleGetHeaders :: "('s, 'k) chain_env \<Rightarrow> nat \<Rightarrow> byte_vec \<Rightarrow> ('s, 'k) peer_manager \<Rightarrow> ('s, 'k) handled" where
  "HandleGetHeaders env peer payload pm =
     (case decode_all (GetHeadersPayload_Deserialize 101) payload of
        None \<Rightarrow> Manager_Close peer pm
      | Some request \<Rightarrow>
          let index = cs_index (pm_state pm); blocks = cs_blocks (pm_state pm);
              response = collect_headers index blocks (gh_stop_hash request) (start_height index blocks (gh_locator request)) []
          in Manager_Send env peer Headers (HeadersPayload_Serialize response []) pm)"

text \<open>Headers are offered in order; the first that is refused ends the loop.\<close>

fun AcceptHeaders ::
  "('s, 'k) chain_env \<Rightarrow> i64 \<Rightarrow> block_header list \<Rightarrow> inventory list \<Rightarrow> ('s, 'k) chain_state \<Rightarrow>
     inventory list option \<times> ('s, 'k) chain_state"
where
  "AcceptHeaders env now [] request s = (Some request, s)"
| "AcceptHeaders env now (header # headers) request s =
     (case AcceptHeader env header now s of
        (Inl _, s') \<Rightarrow> (None, s')
      | (Inr entry, s') \<Rightarrow>
          let hash = ent_hash (entry_at (cs_index s') entry)
          in AcceptHeaders env now headers
               (if \<not> store_HaveBlock (env_store env) (cs_store s') hash
                then request @ [\<lparr>inv_type = Inventory_Block, inv_hash = hash\<rparr>] else request) s')"

definition HandleHeaders :: "('s, 'k) chain_env \<Rightarrow> clock \<Rightarrow> nat \<Rightarrow> byte_vec \<Rightarrow> ('s, 'k) peer_manager \<Rightarrow> ('s, 'k) handled" where
  "HandleHeaders env clk peer payload pm =
     (case decode_all HeadersPayload_Deserialize payload of
        None \<Rightarrow> Manager_Close peer pm
      | Some headers \<Rightarrow>
          (case AcceptHeaders env (clk_now clk) headers [] (pm_state pm) of
             (None, s) \<Rightarrow> Manager_Close peer (pm\<lparr>pm_state := s\<rparr>)
           | (Some request, s) \<Rightarrow>
               if request \<noteq> []
               then Manager_Send env peer GetData (GetDataPayload_Serialize request []) (pm\<lparr>pm_state := s\<rparr>)
               else (pm\<lparr>pm_state := s\<rparr>, [])))"

fun serve_items ::
  "('s, 'k) chain_env \<Rightarrow> nat \<Rightarrow> inventory list \<Rightarrow> ('s, 'k) peer_manager \<Rightarrow> ('s, 'k) handled"
where
  "serve_items env peer [] pm = (pm, [])"
| "serve_items env peer (item # items) pm =
     (let (pm1, out1) =
        (case inv_type item of
           Inventory_Block \<Rightarrow>
             (case store_GetBlock (env_store env) (cs_store (pm_state pm)) (inv_hash item) of
                None \<Rightarrow> (pm, [])
              | Some block \<Rightarrow> Manager_Send env peer Block (BlockPayload_Serialize block []) pm)
         | Inventory_Transaction \<Rightarrow>
             (case get_transaction (inv_hash item) pm of
                None \<Rightarrow> (pm, [])
              | Some tx \<Rightarrow> Manager_Send env peer Tx (TxPayload_Serialize tx []) pm)
         | _ \<Rightarrow> (pm, []));
        (pm2, out2) = serve_items env peer items pm1
      in (pm2, out1 @ out2))"

definition HandleGetData :: "('s, 'k) chain_env \<Rightarrow> nat \<Rightarrow> byte_vec \<Rightarrow> ('s, 'k) peer_manager \<Rightarrow> ('s, 'k) handled" where
  "HandleGetData env peer payload pm =
     (case decode_all (GetDataPayload_Deserialize 2000) payload of
        None \<Rightarrow> Manager_Close peer pm
      | Some items \<Rightarrow> serve_items env peer items pm)"

definition wanted_item :: "('s, 'k) chain_env \<Rightarrow> ('s, 'k) peer_manager \<Rightarrow> inventory \<Rightarrow> bool" where
  "wanted_item env pm item \<longleftrightarrow>
     (inv_type item = Inventory_Block \<and> \<not> store_HaveBlock (env_store env) (cs_store (pm_state pm)) (inv_hash item)) \<or>
     (inv_type item = Inventory_Transaction \<and> get_transaction (inv_hash item) pm = None)"

definition HandleInv :: "('s, 'k) chain_env \<Rightarrow> nat \<Rightarrow> byte_vec \<Rightarrow> ('s, 'k) peer_manager \<Rightarrow> ('s, 'k) handled" where
  "HandleInv env peer payload pm =
     (case decode_all (GetDataPayload_Deserialize 2000) payload of
        None \<Rightarrow> Manager_Close peer pm
      | Some items \<Rightarrow>
          let request = filter (wanted_item env pm) items
          in if request \<noteq> [] then Manager_Send env peer GetData (GetDataPayload_Serialize request []) pm else (pm, []))"

definition HandleBlock ::
  "('s, 'k) chain_env \<Rightarrow> clock \<Rightarrow> nat \<Rightarrow> byte_vec \<Rightarrow> ('s, 'k) peer_manager \<Rightarrow> ('s, 'k) handled option"
where
  "HandleBlock env clk peer payload pm =
     (case decode_all (BlockPayload_Deserialize (block_limits (env_params env))) payload of
        None \<Rightarrow> Some (Manager_Close peer pm)
      | Some block \<Rightarrow>
          let hash = BlockHeader_Hash (env_crypto env) (blk_header block);
              already_have = store_HaveBlock (env_store env) (cs_store (pm_state pm)) hash;
              (accepted, s) = AcceptBlock env block (clk_now clk) (pm_state pm);
              pm1 = pm\<lparr>pm_state := s\<rparr>
          in case accepted of
               Inl _ \<Rightarrow> Some (Manager_Close peer pm1)
             | Inr _ \<Rightarrow>
                 Option.bind (activate_observed env pm1) (\<lambda>(activated, pm2).
                   case activated of
                     Inl _ \<Rightarrow> Some (Manager_Close peer pm2)
                   | Inr _ \<Rightarrow>
                       let (pm3, out3) = (if \<not> already_have then AnnounceBlock env hash pm2 else (pm2, []));
                           (pm4, out4) = StartSync env peer pm3
                       in Some (pm4, out3 @ out4)))"

definition HandleTx :: "('s, 'k) chain_env \<Rightarrow> clock \<Rightarrow> nat \<Rightarrow> byte_vec \<Rightarrow> ('s, 'k) peer_manager \<Rightarrow> ('s, 'k) handled" where
  "HandleTx env clk peer payload pm =
     (case decode_all (TxPayload_Deserialize (limits_tx (block_limits (env_params env)))) payload of
        None \<Rightarrow> Manager_Close peer pm
      | Some tx \<Rightarrow>
          let (accepted, pm1) = accept_transaction env clk tx pm
          in if accepted then AnnounceTransaction env (Wtxid (env_crypto env) tx) pm1 else (pm1, []))"

definition HandleGetAddr ::
  "('s, 'k) chain_env \<Rightarrow> net_config \<Rightarrow> clock \<Rightarrow> string \<Rightarrow> nat \<Rightarrow> byte_vec \<Rightarrow> ('s, 'k) peer_manager \<Rightarrow> ('s, 'k) handled"
where
  "HandleGetAddr env cfg clk remote peer payload pm =
     (case decode_all HelloAckPayload_Deserialize payload of
        None \<Rightarrow>
          let (pm1, out1) = Score cfg clk remote peer 20 pm; (pm2, out2) = Manager_Close peer pm1
          in (pm2, out1 @ out2)
      | Some _ \<Rightarrow> Manager_Send env peer Addr (AddrPayload_Serialize (pm_addresses pm) []) pm)"

definition HandleAddr ::
  "net_config \<Rightarrow> clock \<Rightarrow> string \<Rightarrow> nat \<Rightarrow> byte_vec \<Rightarrow> ('s, 'k) peer_manager \<Rightarrow> ('s, 'k) handled"
where
  "HandleAddr cfg clk remote peer payload pm =
     (case decode_all (AddrPayload_Deserialize 1000) payload of
        None \<Rightarrow>
          let (pm1, out1) = Score cfg clk remote peer 20 pm; (pm2, out2) = Manager_Close peer pm1
          in (pm2, out1 @ out2)
      | Some received \<Rightarrow> (pm\<lparr>pm_addresses := fold AddAddress received (pm_addresses pm)\<rparr>, []))"

definition Manager_HandleMessage ::
  "('s, 'k) chain_env \<Rightarrow> net_config \<Rightarrow> clock \<Rightarrow> string \<Rightarrow> nat \<Rightarrow> command \<Rightarrow> byte_vec \<Rightarrow> ('s, 'k) peer_manager \<Rightarrow>
     ('s, 'k) handled option"
where
  "Manager_HandleMessage env cfg clk remote peer command payload pm =
     (case command of
        GetHeaders \<Rightarrow> Some (HandleGetHeaders env peer payload pm)
      | Headers \<Rightarrow> Some (HandleHeaders env clk peer payload pm)
      | GetData \<Rightarrow> Some (HandleGetData env peer payload pm)
      | Inv \<Rightarrow> Some (HandleInv env peer payload pm)
      | Block \<Rightarrow> HandleBlock env clk peer payload pm
      | Tx \<Rightarrow> Some (HandleTx env clk peer payload pm)
      | GetAddr \<Rightarrow> Some (HandleGetAddr env cfg clk remote peer payload pm)
      | Addr \<Rightarrow> Some (HandleAddr cfg clk remote peer payload pm)
      | Ping \<Rightarrow>
          Some (case decode_all PingPayload_Deserialize payload of
             None \<Rightarrow> Manager_Close peer pm
           | Some nonce \<Rightarrow> Manager_Send env peer Pong (PingPayload_Serialize nonce []) pm)
      | Pong \<Rightarrow>
          Some (case decode_all PingPayload_Deserialize payload of
             None \<Rightarrow> Manager_Close peer pm
           | Some nonce \<Rightarrow> (pm, []))
      | _ \<Rightarrow> Some (pm, []))"

section \<open>Connections\<close>

text \<open>A socket is accepted: \<^verbatim>\<open>None\<close> where its remote endpoint cannot be told.\<close>

definition OnAccept :: "net_config \<Rightarrow> clock \<Rightarrow> string option \<Rightarrow> ('s, 'k) peer_manager \<Rightarrow> bool \<times> ('s, 'k) peer_manager" where
  "OnAccept cfg clk remote pm =
     (if length (pm_connections pm) \<ge> nc_max_inbound cfg + nc_max_outbound cfg then (False, pm)
      else
        let (banned, pm1) = (case remote of None \<Rightarrow> (False, pm) | Some endpoint \<Rightarrow> IsBanned (clk_steady clk) endpoint pm)
        in if banned then (False, pm1)
           else (True, pm1\<lparr>pm_connections := pm_connections pm1 @ [PeerConnection_inbound (pm_local_nonce pm1)]\<rparr>))"

text \<open>The callbacks a connection is started with.\<close>

definition OnConnected :: "('s, 'k) chain_env \<Rightarrow> nat \<Rightarrow> ('s, 'k) peer_manager \<Rightarrow> ('s, 'k) handled" where
  "OnConnected env peer pm =
     (let (pm1, out1) = StartSync env peer pm; (pm2, out2) = Manager_Send env peer GetAddr [] pm1
      in (pm2, out1 @ out2))"

definition Dispatch ::
  "('s, 'k) chain_env \<Rightarrow> net_config \<Rightarrow> clock \<Rightarrow> string \<Rightarrow> nat \<Rightarrow> peer_event \<Rightarrow> ('s, 'k) peer_manager \<Rightarrow> ('s, 'k) handled option"
where
  "Dispatch env cfg clk remote peer event pm =
     (case event of
        Received command payload \<Rightarrow> Manager_HandleMessage env cfg clk remote peer command payload pm
      | Connected hello \<Rightarrow> Some (OnConnected env peer pm)
      | _ \<Rightarrow> Some (pm, [(peer, event)]))"

definition HasActivePeer :: "('s, 'k) peer_manager \<Rightarrow> bool" where
  "HasActivePeer pm \<longleftrightarrow> (\<exists>c \<in> set (pm_connections pm). pc_connected c)"

definition PeerCount :: "('s, 'k) peer_manager \<Rightarrow> nat" where
  "PeerCount pm = length (pm_connections pm)"

definition BestPeerHeight :: "('s, 'k) peer_manager \<Rightarrow> u32" where
  "BestPeerHeight pm =
     fold (\<lambda>c best. if pc_connected c then max best (ph_best_height (pc_peer_hello c)) else best) (pm_connections pm) 0"

section \<open>What an operation leaves alone\<close>

text \<open>Sending, closing and scoring only advance connections.\<close>

definition quiet :: "('s, 'k) chain_env \<Rightarrow> ('s, 'k) peer_manager \<Rightarrow> ('s, 'k) peer_manager \<Rightarrow> bool" where
  "quiet env pm pm' \<longleftrightarrow> pm_state pm' = pm_state pm \<and> pm_keeper pm' = pm_keeper pm \<and> pm_addresses pm' = pm_addresses pm \<and>
     pm_local_nonce pm' = pm_local_nonce pm \<and>
     list_all2 (connection_step (env_crypto env) (env_params env))\<^sup>*\<^sup>* (pm_connections pm) (pm_connections pm')"

lemma quiet_refl [simp]: "quiet env pm pm"
  by (simp add: quiet_def list_all2_same)

lemma quiet_trans: "quiet env a b \<Longrightarrow> quiet env b c \<Longrightarrow> quiet env a c"
  unfolding quiet_def by (auto intro: list_all2_trans [OF rtranclp_trans])

lemma quiet_length: "quiet env pm pm' \<Longrightarrow> length (pm_connections pm') = length (pm_connections pm)"
  by (auto simp: quiet_def dest: list_all2_lengthD)

lemma with_peer_quiet:
  assumes "with_peer peer f pm = (pm', out)"
    and "\<And>c c' ev. f c = (c', ev) \<Longrightarrow> connection_step (env_crypto env) (env_params env) c c'"
  shows "quiet env pm pm'"
proof -
  have "(connection_step (env_crypto env) (env_params env))\<^sup>*\<^sup>* (pm_connections pm ! i) ((pm_connections pm)[peer := c] ! i)"
    if "f (pm_connections pm ! peer) = (c, ev)" "peer < length (pm_connections pm)" "i < length (pm_connections pm)" for c ev i
    using assms(2) [OF that(1)] that(2,3) by (cases "i = peer") auto
  with assms(1) show ?thesis
    by (auto simp: with_peer_def quiet_def list_all2_conv_all_nth split: if_splits prod.splits)
qed

lemma Manager_Send_quiet: "Manager_Send env peer command payload pm = (pm', out) \<Longrightarrow> quiet env pm pm'"
  unfolding Manager_Send_def by (erule with_peer_quiet) (rule connection_step.send)

lemma Manager_Close_quiet: "Manager_Close peer pm = (pm', out) \<Longrightarrow> quiet env pm pm'"
  unfolding Manager_Close_def by (erule with_peer_quiet) (auto intro: connection_step.close)

lemma quiet_fields [simp]:
  "quiet env (pm\<lparr>pm_announced_blocks := a\<rparr>) pm' = quiet env pm pm'" "quiet env (pm\<lparr>pm_announced_transactions := a\<rparr>) pm' = quiet env pm pm'"
  "quiet env (pm\<lparr>pm_bans := b\<rparr>) pm' = quiet env pm pm'" "quiet env (pm\<lparr>pm_misbehavior := m\<rparr>) pm' = quiet env pm pm'"
  "quiet env pm (pm'\<lparr>pm_misbehavior := m\<rparr>) = quiet env pm pm'" "quiet env pm (pm'\<lparr>pm_bans := b\<rparr>) = quiet env pm pm'"
  by (simp_all add: quiet_def)

lemma Score_quiet: "Score cfg clk remote peer points pm = (pm', out) \<Longrightarrow> quiet env pm pm'"
  by (auto simp: Score_def Let_def split: if_splits dest!: Manager_Close_quiet [where env = env])

lemma StartSync_quiet: "StartSync env peer pm = (pm', out) \<Longrightarrow> quiet env pm pm'"
  by (auto simp: StartSync_def Let_def split: prod.splits dest!: Manager_Send_quiet)

lemma send_to_all_quiet: "send_to_all env command payload peers pm = (pm', out) \<Longrightarrow> quiet env pm pm'"
proof (induction peers arbitrary: pm out)
  case (Cons peer peers)
  then show ?case
    by (auto split: if_splits prod.splits dest!: Manager_Send_quiet intro: quiet_trans)
qed simp

lemma Announce_quiet:
  "AnnounceBlock env hash pm = (pm', out) \<Longrightarrow> quiet env pm pm'"
  "AnnounceTransaction env hash pm = (pm', out) \<Longrightarrow> quiet env pm pm'"
  by (auto simp: AnnounceBlock_def AnnounceTransaction_def split: if_splits dest!: send_to_all_quiet)

lemma serve_items_quiet: "serve_items env peer items pm = (pm', out) \<Longrightarrow> quiet env pm pm'"
proof (induction items arbitrary: pm out)
  case (Cons item items)
  obtain pm1 out1 where 1: "(case inv_type item of
           Inventory_Block \<Rightarrow>
             (case store_GetBlock (env_store env) (cs_store (pm_state pm)) (inv_hash item) of
                None \<Rightarrow> (pm, [])
              | Some block \<Rightarrow> Manager_Send env peer Block (BlockPayload_Serialize block []) pm)
         | Inventory_Transaction \<Rightarrow>
             (case get_transaction (inv_hash item) pm of
                None \<Rightarrow> (pm, [])
              | Some tx \<Rightarrow> Manager_Send env peer Tx (TxPayload_Serialize tx []) pm)
         | _ \<Rightarrow> (pm, [])) = (pm1, out1)" by fastforce
  then have "quiet env pm pm1"
    by (auto split: inventory_type.splits option.splits dest!: Manager_Send_quiet)
  with Cons 1 show ?case by (auto split: prod.splits intro: quiet_trans)
qed simp

lemma OnConnected_quiet: "OnConnected env peer pm = (pm', out) \<Longrightarrow> quiet env pm pm'"
  by (auto simp: OnConnected_def split: prod.splits dest!: StartSync_quiet Manager_Send_quiet intro: quiet_trans)

lemma HandleGetHeaders_quiet: "HandleGetHeaders env peer payload pm = (pm', out) \<Longrightarrow> quiet env pm pm'"
  by (auto simp: HandleGetHeaders_def Let_def split: option.splits dest!: Manager_Close_quiet [where env = env] Manager_Send_quiet)

lemma HandleGetData_quiet: "HandleGetData env peer payload pm = (pm', out) \<Longrightarrow> quiet env pm pm'"
  by (auto simp: HandleGetData_def split: option.splits dest!: Manager_Close_quiet [where env = env] serve_items_quiet)

lemma HandleInv_quiet: "HandleInv env peer payload pm = (pm', out) \<Longrightarrow> quiet env pm pm'"
  by (auto simp: HandleInv_def Let_def split: option.splits if_splits dest!: Manager_Close_quiet [where env = env] Manager_Send_quiet)

lemma HandleGetAddr_quiet: "HandleGetAddr env cfg clk remote peer payload pm = (pm', out) \<Longrightarrow> quiet env pm pm'"
  by (auto simp: HandleGetAddr_def split: option.splits prod.splits dest!: Manager_Close_quiet [where env = env] Manager_Send_quiet
      Score_quiet [where env = env] intro: quiet_trans)

lemmas quiet_handlers = HandleGetHeaders_quiet HandleGetData_quiet HandleInv_quiet HandleGetAddr_quiet

section \<open>Every message keeps the node consistent\<close>

definition advances :: "('s, 'k) chain_env \<Rightarrow> ('s, 'k) peer_manager \<Rightarrow> ('s, 'k) peer_manager \<Rightarrow> bool" where
  "advances env pm pm' \<longleftrightarrow> pm_local_nonce pm' = pm_local_nonce pm \<and>
     list_all2 (connection_step (env_crypto env) (env_params env))\<^sup>*\<^sup>* (pm_connections pm) (pm_connections pm')"

definition node_ok :: "('s, 'k) chain_env \<Rightarrow> ('s, 'k) peer_manager \<Rightarrow> bool" where
  "node_ok env pm \<longleftrightarrow> chain_ok env (pm_state pm) \<and> length (pm_addresses pm) \<le> 1000 \<and>
     (\<forall>c \<in> set (pm_connections pm). vetted (env_params env) (pm_local_nonce pm) c)"

lemma quiet_advances: "quiet env pm pm' \<Longrightarrow> advances env pm pm'"
  by (simp add: quiet_def advances_def)

lemma advances_trans: "advances env a b \<Longrightarrow> advances env b c \<Longrightarrow> advances env a c"
  unfolding advances_def by (auto intro: list_all2_trans [OF rtranclp_trans])

lemma steps_vetted:
  "(connection_step E params)\<^sup>*\<^sup>* c c' \<Longrightarrow> vetted params nonce c \<Longrightarrow> vetted params nonce c'"
  by (induction rule: rtranclp_induct) (auto intro: connection_step_vetted)

lemma node_okI:
  assumes "node_ok env pm" and "advances env pm pm'" and "chain_ok env (pm_state pm')" and "length (pm_addresses pm') \<le> 1000"
  shows "node_ok env pm'"
proof -
  have "vetted (env_params env) (pm_local_nonce pm') c" if "c \<in> set (pm_connections pm')" for c
    using that assms(1,2) steps_vetted unfolding advances_def node_ok_def
    by (metis in_set_conv_nth list_all2_conv_all_nth)
  with assms(3,4) show ?thesis by (simp add: node_ok_def)
qed

lemma node_ok_quiet: "node_ok env pm \<Longrightarrow> quiet env pm pm' \<Longrightarrow> node_ok env pm'"
  by (rule node_okI [OF _ quiet_advances]) (auto simp: node_ok_def quiet_def)

lemma AddAddress_bounded: "length addresses \<le> 1000 \<Longrightarrow> length (AddAddress a addresses) \<le> 1000"
  by (auto simp: AddAddress_def)

lemma fold_AddAddress_bounded: "length addresses \<le> 1000 \<Longrightarrow> length (fold AddAddress as addresses) \<le> 1000"
  by (induction as arbitrary: addresses) (simp_all add: AddAddress_bounded)

lemma AcceptHeader_grows:
  assumes "AcceptHeader env header now s = (r, s')"
  shows "IndexSize (cs_index s') \<le> Suc (IndexSize (cs_index s))"
proof -
  obtain a index where add: "AddHeader (env_crypto env) (cs_index s) header now (env_params env) = (a, index)" by fastforce
  have "cs_index s' = index"
    using assms add CommitEntry_frame [of env _ "s\<lparr>cs_index := index\<rparr>"]
    by (auto simp: AcceptHeader_def Let_def split: sum.splits if_splits) (metis chain_state.select_convs(1) chain_state.surjective chain_state.update_convs(1) chain_state.update_convs(4))
  moreover from add have "IndexSize index \<le> Suc (IndexSize (cs_index s))"
    by (cases rule: AddHeader_cases) (auto simp: IndexSize_def with_entry_def)
  ultimately show ?thesis by simp
qed

text \<open>
  The guards of \<open>chain_step\<close>, for one message: sequence numbers are left for a full batch of headers, and a
  block does not collide with the different header of a known block.
\<close>

definition acceptable :: "('s, 'k) chain_env \<Rightarrow> ('s, 'k) chain_state \<Rightarrow> byte_vec \<Rightarrow> bool" where
  "acceptable env s payload \<longleftrightarrow> IndexSize (cs_index s) + HeadersPayload_MAX_COUNT < 2 ^ 64 - 1 \<and>
     (\<forall>block e. decode_all (BlockPayload_Deserialize (block_limits (env_params env))) payload = Some block \<longrightarrow>
        Find (cs_index s) (BlockHeader_Hash (env_crypto env) (blk_header block)) = Some e \<longrightarrow> ent_header e = blk_header block)"

context lawful_store
begin

lemma AcceptHeaders_ok:
  assumes "chain_ok env s" and "env_store env = S" and "IndexSize (cs_index s) + length headers \<le> 2 ^ 64 - 1"
    and "AcceptHeaders env now headers request s = (r, s')"
  shows "chain_ok env s'"
  using assms(1,3,4)
proof (induction headers arbitrary: s request)
  case (Cons header headers)
  obtain a s1 where a: "AcceptHeader env header now s = (a, s1)" by fastforce
  have room: "IndexSize (cs_index s) < 2 ^ 64 - 1" using Cons(3) by simp
  have "chain_ok env s1" by (rule AcceptHeader_ok [OF Cons(2) room a])
  with Cons(1) [of s1] Cons(3,4) AcceptHeader_grows [OF a] a show ?case
    by (auto simp: Let_def split: sum.splits)
qed simp

lemma HandleHeaders_ok:
  assumes "node_ok env pm" and "env_store env = S" and "acceptable env (pm_state pm) payload"
    and "HandleHeaders env clk peer payload pm = (pm', out)"
  shows "node_ok env pm'"
proof (cases "decode_all HeadersPayload_Deserialize payload")
  case None
  with assms(1,4) show ?thesis
    by (auto simp: HandleHeaders_def dest!: Manager_Close_quiet [where env = env] intro: node_ok_quiet)
next
  case (Some headers)
  obtain r s where a: "AcceptHeaders env (clk_now clk) headers [] (pm_state pm) = (r, s)" by fastforce
  have "length headers \<le> HeadersPayload_MAX_COUNT" using Some by (simp add: headers.decode_all_iff)
  then have "chain_ok env s"
    using assms(1,3) by (intro AcceptHeaders_ok [OF _ assms(2) _ a]) (auto simp: node_ok_def acceptable_def)
  then have ok: "node_ok env (pm\<lparr>pm_state := s\<rparr>)"
    using assms(1) by (simp add: node_ok_def)
  from assms(4) Some a ok show ?thesis
    by (auto simp: HandleHeaders_def split: option.splits if_splits dest!: Manager_Close_quiet [where env = env] Manager_Send_quiet
        intro: node_ok_quiet)
qed

lemma activate_observed_ok:
  assumes "node_ok env pm" and "env_store env = S" and "lawful_sink (env_sink env)"
  shows "\<exists>r pm'. activate_observed env pm = Some (r, pm') \<and> node_ok env pm'"
proof -
  have "chain_ok env (ObserveWith (pm_state pm))" using assms(1) by (simp add: node_ok_def ObserveWith_def)
  from ActivateBestChain_loop_ok [OF this assms(2,3)] obtain r s where
    "ActivateBestChain env (ObserveWith (pm_state pm)) = Some (r, s)" "chain_ok env s"
    unfolding ActivateBestChain_def by metis
  then show ?thesis using assms(1) by (simp add: activate_observed_def node_ok_def)
qed

lemma HandleBlock_ok:
  assumes ok: "node_ok env pm" and S: "env_store env = S" "lawful_sink (env_sink env)" and acc: "acceptable env (pm_state pm) payload"
  shows "\<exists>pm' out. HandleBlock env clk peer payload pm = Some (pm', out) \<and> node_ok env pm'"
proof (cases "decode_all (BlockPayload_Deserialize (block_limits (env_params env))) payload")
  case None
  obtain pm' out where "Manager_Close peer pm = (pm', out)" by fastforce
  with None node_ok_quiet [OF ok Manager_Close_quiet] show ?thesis by (simp add: HandleBlock_def)
next
  case (Some block)
  let ?hash = "BlockHeader_Hash (env_crypto env) (blk_header block)"
  obtain a s where a: "AcceptBlock env block (clk_now clk) (pm_state pm) = (a, s)" by fastforce
  have "chain_ok env s"
    using ok acc Some by (intro AcceptBlock_ok [OF _ S(1) _ _ a]) (auto simp: node_ok_def acceptable_def)
  then have ok1: "node_ok env (pm\<lparr>pm_state := s\<rparr>)" using ok by (simp add: node_ok_def)
  note close = node_ok_quiet [OF _ Manager_Close_quiet]
  show ?thesis
  proof (cases a)
    case (Inl e)
    obtain pm' out where "Manager_Close peer (pm\<lparr>pm_state := s\<rparr>) = (pm', out)" by fastforce
    with Some Inl a close [OF ok1] show ?thesis by (simp add: HandleBlock_def)
  next
    case (Inr h)
    obtain r pm2 where 2: "activate_observed env (pm\<lparr>pm_state := s\<rparr>) = Some (r, pm2)" "node_ok env pm2"
      using activate_observed_ok [OF ok1 S] by blast
    show ?thesis
    proof (cases r)
      case (Inl f)
      obtain pm' out where "Manager_Close peer pm2 = (pm', out)" by fastforce
      with Some Inr Inl a 2 close [OF 2(2)] show ?thesis by (simp add: HandleBlock_def)
    next
      case fin: (Inr summary)
      obtain pm3 out3 where 3: "(if \<not> store_HaveBlock (env_store env) (cs_store (pm_state pm)) ?hash
          then AnnounceBlock env ?hash pm2 else (pm2, [])) = (pm3, out3)" by fastforce
      then have ok3: "node_ok env pm3" using 2(2) by (auto split: if_splits dest: Announce_quiet intro: node_ok_quiet)
      obtain pm4 out4 where 4: "StartSync env peer pm3 = (pm4, out4)" by fastforce
      from Some Inr fin a 2(1) 3 4 node_ok_quiet [OF ok3 StartSync_quiet [OF 4]] show ?thesis by (simp add: HandleBlock_def)
    qed
  qed
qed

lemma HandleTx_ok:
  assumes "node_ok env pm" and "HandleTx env clk peer payload pm = (pm', out)"
  shows "node_ok env pm'"
proof -
  have "node_ok env pm1" if "accept_transaction env clk tx pm = (r, pm1)" for tx r pm1
    using assms(1) that by (auto simp: accept_transaction_def node_ok_def Let_def split: prod.splits)
  with assms show ?thesis
    by (auto simp: HandleTx_def split: option.splits prod.splits if_splits dest!: Manager_Close_quiet [where env = env] Announce_quiet
        intro: node_ok_quiet)
qed

lemma HandleAddr_ok:
  assumes "node_ok env pm" and "HandleAddr cfg clk remote peer payload pm = (pm', out)"
  shows "node_ok env pm'"
  using assms
  by (auto simp: HandleAddr_def split: option.splits prod.splits dest!: Manager_Close_quiet [where env = env] Score_quiet [where env = env]
      intro: node_ok_quiet quiet_trans) (simp add: node_ok_def fold_AddAddress_bounded)

lemma Manager_HandleMessage_ok:
  assumes ok: "node_ok env pm" and S: "env_store env = S" "lawful_sink (env_sink env)" and acc: "acceptable env (pm_state pm) payload"
  shows "\<exists>pm' out. Manager_HandleMessage env cfg clk remote peer command payload pm = Some (pm', out) \<and> node_ok env pm'"
proof -
  have q: "\<exists>pm' out. Some x = Some (pm', out) \<and> node_ok env pm'" if "\<And>pm' out. x = (pm', out) \<Longrightarrow> node_ok env pm'" for x
    using that by (metis prod.exhaust)
  note quiet = node_ok_quiet [OF ok]
  show ?thesis
  proof (cases command)
    case GetHeaders
    show ?thesis unfolding Manager_HandleMessage_def GetHeaders command.case by (rule q) (rule quiet, rule quiet_handlers(1))
  next
    case Headers
    show ?thesis unfolding Manager_HandleMessage_def Headers command.case by (rule q) (rule HandleHeaders_ok [OF ok S(1) acc])
  next
    case GetData
    show ?thesis unfolding Manager_HandleMessage_def GetData command.case by (rule q) (rule quiet, rule quiet_handlers(2))
  next
    case Inv
    show ?thesis unfolding Manager_HandleMessage_def Inv command.case by (rule q) (rule quiet, rule quiet_handlers(3))
  next
    case Block
    show ?thesis unfolding Manager_HandleMessage_def Block command.case by (rule HandleBlock_ok [OF ok S acc])
  next
    case Tx
    show ?thesis unfolding Manager_HandleMessage_def Tx command.case by (rule q) (rule HandleTx_ok [OF ok])
  next
    case GetAddr
    show ?thesis unfolding Manager_HandleMessage_def GetAddr command.case by (rule q) (rule quiet, rule quiet_handlers(4))
  next
    case Addr
    show ?thesis unfolding Manager_HandleMessage_def Addr command.case by (rule q) (rule HandleAddr_ok [OF ok])
  next
    case Ping
    show ?thesis unfolding Manager_HandleMessage_def Ping command.case
      by (rule q, rule quiet) (auto split: option.splits dest!: Manager_Close_quiet [where env = env] Manager_Send_quiet)
  next
    case Pong
    show ?thesis unfolding Manager_HandleMessage_def Pong command.case
      by (rule q, rule quiet) (auto split: option.splits dest!: Manager_Close_quiet [where env = env])
  qed (simp_all add: Manager_HandleMessage_def ok)
qed

lemma Dispatch_ok:
  assumes ok: "node_ok env pm" and S: "env_store env = S" "lawful_sink (env_sink env)"
    and acc: "\<And>command payload. event = Received command payload \<Longrightarrow> acceptable env (pm_state pm) payload"
  shows "\<exists>pm' out. Dispatch env cfg clk remote peer event pm = Some (pm', out) \<and> node_ok env pm'"
proof (cases event)
  case (Received command payload)
  with Manager_HandleMessage_ok [OF ok S acc] show ?thesis by (simp add: Dispatch_def)
next
  case (Connected hello)
  obtain pm' out where "OnConnected env peer pm = (pm', out)" by fastforce
  with Connected node_ok_quiet [OF ok OnConnected_quiet] show ?thesis by (simp add: Dispatch_def)
qed (simp_all add: Dispatch_def ok)

end

text \<open>
  A node among its peers: a connection's reads, writes and timers complete in any order, what a connection
  passes on is handled, and sockets are accepted.
\<close>

inductive peer_step :: "('s, 'k) chain_env \<Rightarrow> net_config \<Rightarrow> ('s, 'k) peer_manager \<Rightarrow> ('s, 'k) peer_manager \<Rightarrow> bool" for env cfg where
  dispatch: "Dispatch env cfg clk remote peer event pm = Some (pm', out) \<Longrightarrow>
    (\<And>command payload. event = Received command payload \<Longrightarrow> acceptable env (pm_state pm) payload) \<Longrightarrow> peer_step env cfg pm pm'"
| connection: "peer < length (pm_connections pm) \<Longrightarrow>
    connection_step (env_crypto env) (env_params env) (pm_connections pm ! peer) c \<Longrightarrow>
    peer_step env cfg pm (pm\<lparr>pm_connections := (pm_connections pm)[peer := c]\<rparr>)"
| accept: "OnAccept cfg clk remote pm = (r, pm') \<Longrightarrow> peer_step env cfg pm pm'"

lemma OnAccept_cases:
  assumes "OnAccept cfg clk remote pm = (r, pm')"
  obtains bans misbehavior where "pm' = pm\<lparr>pm_bans := bans, pm_misbehavior := misbehavior\<rparr>" "\<not> r"
  | bans misbehavior where "pm' = pm\<lparr>pm_bans := bans, pm_misbehavior := misbehavior,
      pm_connections := pm_connections pm @ [PeerConnection_inbound (pm_local_nonce pm)]\<rparr>" "r"
proof -
  obtain banned pm1 where b: "(case remote of None \<Rightarrow> (False, pm) | Some endpoint \<Rightarrow> IsBanned (clk_steady clk) endpoint pm) = (banned, pm1)"
    by fastforce
  then have "pm1 = pm\<lparr>pm_bans := pm_bans pm1, pm_misbehavior := pm_misbehavior pm1\<rparr>"
    by (auto simp: IsBanned_def split: option.splits if_splits)
  then obtain bans misbehavior where 1: "pm1 = pm\<lparr>pm_bans := bans, pm_misbehavior := misbehavior\<rparr>" by blast
  have same: "pm = pm\<lparr>pm_bans := pm_bans pm, pm_misbehavior := pm_misbehavior pm\<rparr>" by simp
  show ?thesis
  proof (cases "length (pm_connections pm) \<ge> nc_max_inbound cfg + nc_max_outbound cfg")
    case True
    with assms have "pm' = pm" "\<not> r" by (simp_all add: OnAccept_def)
    with that(1) same show ?thesis by metis
  next
    case False
    with assms b 1 that show ?thesis by (auto simp: OnAccept_def split: if_splits)
  qed
qed

lemma fresh_vetted: "vetted params nonce (PeerConnection_inbound nonce)"
  by (simp add: vetted_def PeerConnection_inbound_def Handshake_new_def)

context lawful_store
begin

lemma peer_step_ok:
  assumes "peer_step env cfg pm pm'" and ok: "node_ok env pm" and S: "env_store env = S" "lawful_sink (env_sink env)"
  shows "node_ok env pm'"
  using assms(1)
proof cases
  case (dispatch clk remote peer event out)
  then show ?thesis using Dispatch_ok [OF ok S, of event cfg clk remote peer] by auto
next
  case (connection peer c)
  have "vetted (env_params env) (pm_local_nonce pm) c"
    by (rule connection_step_vetted [OF connection(3)]) (use ok connection(2) in \<open>auto simp: node_ok_def\<close>)
  then show ?thesis using ok unfolding connection(1) by (auto simp: node_ok_def dest: set_update_subset_insert [THEN subsetD])
next
  case (accept clk remote r)
  then show ?thesis using ok
    by (cases rule: OnAccept_cases) (auto simp: node_ok_def fresh_vetted)
qed

lemma peers_reachable_ok:
  assumes "(peer_step env cfg)\<^sup>*\<^sup>* pm pm'" and "node_ok env pm" and "env_store env = S" and "lawful_sink (env_sink env)"
  shows "node_ok env pm'"
  using assms(1) by (induction rule: rtranclp_induct) (use assms(2-4) peer_step_ok in blast)+

end

section \<open>Serving headers\<close>

definition up_to :: "hash256 \<Rightarrow> hash256 list \<Rightarrow> hash256 list" where
  "up_to stop xs = takeWhile (\<lambda>h. h \<noteq> stop) xs @ take 1 (dropWhile (\<lambda>h. h \<noteq> stop) xs)"

definition above_first :: "hash256 list \<Rightarrow> hash256 list \<Rightarrow> nat" where
  "above_first blocks locator =
     (case find (\<lambda>h. h \<in> set blocks) locator of
        None \<Rightarrow> 0
      | Some h \<Rightarrow> Suc (length (takeWhile (\<lambda>b. b \<noteq> h) blocks)))"

definition headers_after :: "block_index \<Rightarrow> hash256 list \<Rightarrow> getheaders_payload \<Rightarrow> block_header list" where
  "headers_after index blocks request =
     map (\<lambda>h. ent_header (entry_at index h))
       (up_to (gh_stop_hash request) (take HeadersPayload_MAX_COUNT (drop (above_first blocks (gh_locator request)) blocks)))"

lemma collect_headers_after:
  assumes "\<And>h. h \<in> set blocks \<Longrightarrow> ent_hash (entry_at index h) = h" and "length blocks < 2 ^ 32"
  shows "unat height \<le> length blocks \<Longrightarrow> length headers \<le> HeadersPayload_MAX_COUNT \<Longrightarrow>
    collect_headers index blocks stop height headers =
      headers @ map (\<lambda>h. ent_header (entry_at index h))
        (up_to stop (take (HeadersPayload_MAX_COUNT - length headers) (drop (unat height) blocks)))"
proof (induction "HeadersPayload_MAX_COUNT - length headers" arbitrary: height headers)
  case 0
  then show ?case by (subst collect_headers.simps) (simp add: up_to_def)
next
  case (Suc k)
  show ?case
  proof (cases "unat height < length blocks")
    case True
    let ?b = "blocks ! unat height"
    have l: "length headers < HeadersPayload_MAX_COUNT" using Suc(2) by simp
    have at: "AtHeight blocks height = Some ?b" using True by (simp add: AtHeight_def)
    have hash: "ent_hash (entry_at index ?b) = ?b" using assms(1) True by simp
    have d: "drop (unat height) blocks = ?b # drop (Suc (unat height)) blocks" using True by (simp add: Cons_nth_drop_Suc)
    have u: "unat (height + 1) = Suc (unat height)" using True assms(2) by (simp add: unat_word_ariths)
    have "k = HeadersPayload_MAX_COUNT - length (headers @ [ent_header (entry_at index ?b)])" using Suc(2) by simp
    from Suc(1) [OF this, of "height + 1"] u True l this
    have "collect_headers index blocks stop (height + 1) (headers @ [ent_header (entry_at index ?b)]) =
        (headers @ [ent_header (entry_at index ?b)]) @ map (\<lambda>h. ent_header (entry_at index h)) (up_to stop (take k (drop (Suc (unat height)) blocks)))"
      by simp
    then show ?thesis using True l at hash Suc(2) [symmetric]
      by (subst collect_headers.simps) (simp add: d up_to_def)
  next
    case False
    then show ?thesis by (subst collect_headers.simps) (simp add: up_to_def)
  qed
qed

lemma locate_from_above:
  assumes "\<And>h. h \<in> set blocks \<Longrightarrow> ent_hash (entry_at index h) = h" and "length blocks < 2 ^ 32" and "distinct blocks"
  shows "n \<le> length blocks \<Longrightarrow> locate_from index blocks wanted n =
    (if wanted \<in> set (take n blocks) then Some (of_nat (Suc (length (takeWhile (\<lambda>b. b \<noteq> wanted) blocks)))) else None)"
proof (induction n)
  case (Suc n)
  have u: "unat (of_nat n :: u32) = n" using Suc(2) assms(2) by (simp add: unat_of_nat)
  have at: "AtHeight blocks (of_nat n) = Some (blocks ! n)" using Suc(2) u by (simp add: AtHeight_def)
  have hash: "ent_hash (entry_at index (blocks ! n)) = blocks ! n" using assms(1) Suc(2) by simp
  have t: "take (Suc n) blocks = take n blocks @ [blocks ! n]" using Suc(2) by (simp add: take_Suc_conv_app_nth)
  have "length (takeWhile (\<lambda>b. b \<noteq> blocks ! n) blocks) = n" if "n < length blocks"
    using that assms(3) takeWhile_eq_take_P_nth [of n blocks "\<lambda>b. b \<noteq> blocks ! n"] by (auto simp: nth_eq_iff_index_eq)
  with Suc at hash t show ?case by auto
qed simp

lemma start_height_above:
  assumes "\<And>h. h \<in> set blocks \<Longrightarrow> ent_hash (entry_at index h) = h" and "length blocks < 2 ^ 32" and "distinct blocks"
  shows "unat (start_height index blocks locator) = above_first blocks locator" "above_first blocks locator \<le> length blocks"
proof -
  have le: "Suc (length (takeWhile (\<lambda>b. b \<noteq> h) blocks)) \<le> length blocks" if "h \<in> set blocks" for h
    using that by (metis (mono_tags, lifting) Suc_leI length_takeWhile_le le_neq_implies_less takeWhile_eq_all_conv takeWhile_eq_take take_all_iff order_refl)
  show "above_first blocks locator \<le> length blocks"
    using le by (auto simp: above_first_def find_Some_iff split: option.splits)
  show "unat (start_height index blocks locator) = above_first blocks locator"
  proof (induction locator)
    case (Cons wanted locator)
    note l = locate_from_above [OF assms order_refl, of wanted]
    show ?case
    proof (cases "wanted \<in> set blocks")
      case True
      have "unat (of_nat (Suc (length (takeWhile (\<lambda>b. b \<noteq> wanted) blocks))) :: u32) = Suc (length (takeWhile (\<lambda>b. b \<noteq> wanted) blocks))"
        using le [OF True] assms(2) by (simp add: unat_of_nat del: of_nat_Suc)
      with True show ?thesis by (simp add: l above_first_def del: of_nat_Suc)
    qed (use Cons in \<open>simp add: l above_first_def\<close>)
  qed (simp add: above_first_def)
qed

lemma chain_blocks:
  assumes "chain_ok env s"
  shows "distinct (cs_blocks s)" "\<And>h. h \<in> set (cs_blocks s) \<Longrightarrow> ent_hash (entry_at (cs_index s) h) = h"
proof -
  note o = chain_okD [OF assms]
  note h = ancestry_heights [OF o(8,3)]
  have "distinct (map (height_of (cs_index s)) (ancestry (cs_index s) (Tip s)))" using h by simp
  then show "distinct (cs_blocks s)" unfolding o(4) by (simp add: distinct_map)
  show "ent_hash (entry_at (cs_index s) h) = h" if "h \<in> set (cs_blocks s)" for h
    using that h tree_hash [OF o(8), of h] unfolding o(4) by auto
qed

section \<open>Properties\<close>

text \<open>
  Property C6. Nothing a peer sends breaks the node: whatever bytes arrive on however many connections, in
  whatever order reads, writes, timers and accepted sockets interleave, the active chain stays the
  ancestry of its tip, the coins those of replaying its blocks, worth at most \<^verbatim>\<open>MAX_MONEY\<close>; every
  connected peer has been vetted; the address book is bounded; and the next message is
  always handled to its end. It is assumed that sequence numbers remain for a batch of headers and
  that no header received collides with a different known one.
\<close>

theorem peers_keep_chain:
  assumes "(peer_step env cfg)\<^sup>*\<^sup>* (PeerManager_new s keeper nonce addresses) pm"
    and "(chain_step env)\<^sup>*\<^sup>* s0 s" and "chain_start env s0" and "env_store env = MemoryBlockStore"
    and "lawful_sink (env_sink env)" and "env_params env = ParamsFor n" and "length addresses \<le> 1000"
  shows "cs_blocks (pm_state pm) = rev (ancestry (cs_index (pm_state pm)) (Tip (pm_state pm))) \<and>
    replay (env_crypto env) (ParamsFor n)
      (applied_of MemoryBlockStore (cs_store (pm_state pm)) (rev (tl (cs_blocks (pm_state pm))))) =
      Some (GetCoin (cs_coins (pm_state pm))) \<and>
    utxo_value (GetCoin (cs_coins (pm_state pm))) \<le> MAX_MONEY \<and>
    (\<forall>c \<in> set (pm_connections pm). pc_connected c \<longrightarrow> ph_chain_id (pc_peer_hello c) = chain_id (ParamsFor n)) \<and>
    length (pm_addresses pm) \<le> 1000 \<and>
    (\<forall>clk remote peer command payload. acceptable env (pm_state pm) payload \<longrightarrow>
       (\<exists>pm' out. Manager_HandleMessage env cfg clk remote peer command payload pm = Some (pm', out)))"
proof -
  have "chain_ok env s" by (rule memory.chain_reachable_ok [OF assms(2-5)])
  then have "node_ok env (PeerManager_new s keeper nonce addresses)"
    using assms(7) by (simp add: node_ok_def PeerManager_new_def)
  then have ok: "node_ok env pm" by (rule memory.peers_reachable_ok [OF assms(1) _ assms(4,5)])
  have handled: "\<exists>pm' out. Manager_HandleMessage env cfg clk remote peer command payload pm = Some (pm', out)"
    if "acceptable env (pm_state pm) payload" for clk remote peer command payload
    using memory.Manager_HandleMessage_ok [OF ok assms(4,5) that, of cfg clk remote peer command] by blast
  have c: "chain_ok env (pm_state pm)" "length (pm_addresses pm) \<le> 1000"
    "\<forall>c \<in> set (pm_connections pm). pc_connected c \<longrightarrow> ph_chain_id (pc_peer_hello c) = chain_id (ParamsFor n)"
    using ok by (simp_all add: node_ok_def vetted_def admitted_def assms(6))
  note chain_ok_in_step [OF c(1) assms(6), unfolded assms(4)]
  with c(2,3) handled show ?thesis by blast
qed

definition example_manager :: "(memory_block_store, unit) peer_manager" where
  "example_manager = PeerManager_new (fresh_state example_crypto Regtest) PoolKeeper_new 7 []"

definition example_clock :: clock where
  "example_clock = \<lparr>clk_now = GENESIS_TIMESTAMP, clk_accept = GENESIS_TIMESTAMP, clk_steady = 0\<rparr>"

definition example_peers :: "(memory_block_store, unit) peer_manager" where
  "example_peers = snd (OnAccept NetConfig_default example_clock None example_manager)"

lemma example_peers_step: "peer_step env NetConfig_default example_manager example_peers"
  unfolding example_peers_def by (rule peer_step.accept [of NetConfig_default example_clock None _ "fst (OnAccept NetConfig_default example_clock None example_manager)"]) simp

lemma example_peers_fields [simp]:
  "pm_connections example_peers = [PeerConnection_inbound 7]" "pm_state example_peers = fresh_state example_crypto Regtest"
  "pm_keeper example_peers = PoolKeeper_new"
  by (simp_all add: example_peers_def example_manager_def PeerManager_new_def OnAccept_def NetConfig_default_def)

lemma example_acceptable: "acceptable (fresh_env example_crypto Regtest) (fresh_state example_crypto Regtest) []"
proof -
  have "decode_all (BlockPayload_Deserialize L) [] \<noteq> Some block" for L block
    using block.min_size_le [of L block] by (auto simp: BlockPayload_Deserialize_def block.decode_all_iff size_constants)
  then show ?thesis
    by (simp add: acceptable_def fresh_state_def ChainState_new_def IndexSize_def ForNetwork_fields HeadersPayload_MAX_COUNT_def)
qed

theorem peers_keep_chain_witness:
  "utxo_value (GetCoin (cs_coins (pm_state example_peers))) \<le> MAX_MONEY \<and>
   (\<exists>pm' out. Manager_HandleMessage (fresh_env example_crypto Regtest) NetConfig_default example_clock '''' 0 Block [] example_peers = Some (pm', out))"
proof -
  let ?env = "fresh_env example_crypto Regtest"
  have "(peer_step ?env NetConfig_default)\<^sup>*\<^sup>* (PeerManager_new (fresh_state example_crypto Regtest) PoolKeeper_new 7 []) example_peers"
    using example_peers_step [of ?env] by (simp add: example_manager_def)
  note k = peers_keep_chain [OF this rtranclp.rtrancl_refl fresh_start fresh_env_simps(3,4,2)]
  show ?thesis using k example_acceptable by auto
qed

text \<open>
  Property C24. A request for headers is answered with the headers of the active chain above the first
  locator entry that is on it, or from genesis if none is; in order, up to the stop hash and at most
  2000 of them. The chain is as before.
\<close>

theorem getheaders_answered:
  assumes "chain_ok env (pm_state pm)" and "length (cs_blocks (pm_state pm)) < 2 ^ 32" and "peer < length (pm_connections pm)"
    and "decode_all (GetHeadersPayload_Deserialize 101) payload = Some request"
  shows "\<exists>pm' out. Manager_HandleMessage env cfg clk remote peer GetHeaders payload pm = Some (pm', out) \<and>
    pm_state pm' = pm_state pm \<and>
    last (pc_write_queue (pm_connections pm' ! peer)) =
      SerialiseMessage (env_crypto env) Headers
        (HeadersPayload_Serialize (headers_after (cs_index (pm_state pm)) (cs_blocks (pm_state pm)) request) [])
        (magic (env_params env))"
proof -
  let ?index = "cs_index (pm_state pm)" and ?blocks = "cs_blocks (pm_state pm)"
  note b = chain_blocks [OF assms(1)]
  note sh = start_height_above [OF b(2) assms(2) b(1), of "gh_locator request"]
  have "collect_headers ?index ?blocks (gh_stop_hash request) (start_height ?index ?blocks (gh_locator request)) [] =
      headers_after ?index ?blocks request"
    using collect_headers_after [OF b(2) assms(2), of "start_height ?index ?blocks (gh_locator request)" "[]" "gh_stop_hash request"] sh
    by (simp add: headers_after_def HeadersPayload_MAX_COUNT_def)
  then have h: "HandleGetHeaders env peer payload pm =
      Manager_Send env peer Headers (HeadersPayload_Serialize (headers_after ?index ?blocks request) []) pm"
    by (simp add: HandleGetHeaders_def assms(4) Let_def)
  obtain c ev where c: "Send (env_crypto env) (env_params env) Headers
      (HeadersPayload_Serialize (headers_after ?index ?blocks request) []) (pm_connections pm ! peer) = (c, ev)" by fastforce
  then have "last (pc_write_queue c) = SerialiseMessage (env_crypto env) Headers
      (HeadersPayload_Serialize (headers_after ?index ?blocks request) []) (magic (env_params env))"
    by (auto simp: Send_def Let_def split: if_splits)
  then show ?thesis
    using assms(3) by (auto simp: Manager_HandleMessage_def h Manager_Send_def with_peer_def c)
qed

theorem getheaders_answered_witness:
  "\<exists>pm' out. Manager_HandleMessage (fresh_env example_crypto Regtest) NetConfig_default example_clock '''' 0 GetHeaders
     (snd (getheaders_message [])) example_peers = Some (pm', out) \<and> pm_state pm' = fresh_state example_crypto Regtest"
proof -
  have d: "decode_all (GetHeadersPayload_Deserialize 101) (snd (getheaders_message [])) =
      Some \<lparr>gh_protocol_version = 1, gh_locator = [], gh_stop_hash = Hash256_zero\<rparr>"
    by (simp add: getheaders.decode_all_iff getheaders_message_def)
  have ok: "chain_ok (fresh_env example_crypto Regtest) (pm_state example_peers)"
    using chain_start_ok [OF fresh_start] by simp
  have len: "length (cs_blocks (pm_state example_peers)) < 2 ^ 32" by (simp add: fresh_state_def ChainState_new_def)
  have peer: "0 < length (pm_connections example_peers)" by simp
  from getheaders_answered [OF ok len peer d, of NetConfig_default example_clock "''''"] show ?thesis by auto
qed

lemma HandleBlock_frame:
  assumes "HandleBlock env clk peer payload pm = Some (pm', out)"
  obtains pm1 where "quiet env pm1 pm'"
    "pm1 = pm \<or> (\<exists>s. pm1 = pm\<lparr>pm_state := s\<rparr>) \<or> (\<exists>s r. activate_observed env (pm\<lparr>pm_state := s\<rparr>) = Some (r, pm1))"
proof (cases "decode_all (BlockPayload_Deserialize (block_limits (env_params env))) payload")
  case None
  with assms that [of pm] show ?thesis by (auto simp: HandleBlock_def dest!: Manager_Close_quiet [where env = env])
next
  case (Some block)
  obtain a s where a: "AcceptBlock env block (clk_now clk) (pm_state pm) = (a, s)" by fastforce
  show ?thesis
  proof (cases a)
    case (Inl e)
    with Some a assms that [of "pm\<lparr>pm_state := s\<rparr>"] show ?thesis
      by (auto simp: HandleBlock_def dest!: Manager_Close_quiet [where env = env])
  next
    case (Inr h)
    with Some a assms obtain r pm2 where 2: "activate_observed env (pm\<lparr>pm_state := s\<rparr>) = Some (r, pm2)"
      by (auto simp: HandleBlock_def Let_def bind_eq_Some_conv)
    have "quiet env pm2 pm'"
    proof (cases r)
      case (Inl f)
      with Some Inr a assms 2 show ?thesis by (auto simp: HandleBlock_def dest!: Manager_Close_quiet [where env = env])
    next
      case fin: (Inr summary)
      with Some Inr a assms 2 show ?thesis
        by (auto simp: HandleBlock_def Let_def split: prod.splits if_splits dest!: Announce_quiet StartSync_quiet intro: quiet_trans)
    qed
    with 2 that show ?thesis by blast
  qed
qed

lemma notified_stays: "pk_reorganised k \<Longrightarrow> pk_reorganised (fold (notify_keeper E) events k)"
proof (induction events arbitrary: k)
  case (Cons event events)
  then show ?case
    by (cases event) (simp_all add: notify_keeper_def Keeper_BlockConnected_def Keeper_BlockDisconnected_def)
qed simp

lemma quiet_reorganised: "quiet env pm pm' \<Longrightarrow> pk_reorganised (pm_keeper pm') = pk_reorganised (pm_keeper pm)"
  by (simp add: quiet_def)

lemma HandleBlock_reorganised:
  assumes "HandleBlock env clk peer payload pm = Some (pm', out)" and "pk_reorganised (pm_keeper pm)"
  shows "pk_reorganised (pm_keeper pm')"
  using assms(1)
proof (rule HandleBlock_frame)
  fix pm1
  assume "quiet env pm1 pm'"
    "pm1 = pm \<or> (\<exists>s. pm1 = pm\<lparr>pm_state := s\<rparr>) \<or> (\<exists>s r. activate_observed env (pm\<lparr>pm_state := s\<rparr>) = Some (r, pm1))"
  with assms(2) show ?thesis
    by (auto simp: quiet_reorganised activate_observed_def bind_eq_Some_conv notified_stays)
qed

lemma Manager_HandleMessage_reorganised:
  assumes "Manager_HandleMessage env cfg clk remote peer command payload pm = Some (pm', out)" and "pk_reorganised (pm_keeper pm)"
  shows "pk_reorganised (pm_keeper pm')"
proof (cases command)
  case Block
  with assms HandleBlock_reorganised show ?thesis by (auto simp: Manager_HandleMessage_def)
next
  case Headers
  with assms show ?thesis
    by (auto simp: Manager_HandleMessage_def HandleHeaders_def split: option.splits prod.splits if_splits
        dest!: Manager_Close_quiet [where env = env, THEN quiet_reorganised] Manager_Send_quiet [THEN quiet_reorganised])
next
  case Tx
  with assms show ?thesis
    by (auto simp: Manager_HandleMessage_def HandleTx_def accept_transaction_def Let_def split: option.splits prod.splits if_splits
        dest!: Manager_Close_quiet [where env = env, THEN quiet_reorganised] Announce_quiet [THEN quiet_reorganised])
next
  case Addr
  with assms show ?thesis
    by (auto simp: Manager_HandleMessage_def HandleAddr_def split: option.splits prod.splits
        dest!: Manager_Close_quiet [where env = env, THEN quiet_reorganised] Score_quiet [where env = env, THEN quiet_reorganised])
qed (use assms in \<open>auto simp: Manager_HandleMessage_def split: option.splits
        dest!: quiet_handlers [THEN quiet_reorganised] Manager_Close_quiet [where env = env, THEN quiet_reorganised]
          Manager_Send_quiet [THEN quiet_reorganised]\<close>)

text \<open>
  The pool is not settled for the network: once the keeper has seen a block disconnected, nothing
  that peers send leads to its \<^verbatim>\<open>Settle\<close>, so entries the reorganisation invalidated stay in the pool.
\<close>

theorem peers_never_settle:
  assumes "(peer_step env cfg)\<^sup>*\<^sup>* pm pm'" and "pk_reorganised (pm_keeper pm)"
  shows "pk_reorganised (pm_keeper pm')"
  using assms
proof (induction rule: rtranclp_induct)
  case (step pm1 pm2)
  from step(2) step(3) [OF step(4)] show ?case
  proof cases
    case (dispatch clk remote peer event out)
    then show ?thesis using step(3) [OF step(4)]
      by (cases event) (auto simp: Dispatch_def dest: Manager_HandleMessage_reorganised OnConnected_quiet [THEN quiet_reorganised])
  next
    case (accept clk remote r)
    then show ?thesis using step(3) [OF step(4)] by (cases rule: OnAccept_cases) auto
  qed simp
qed simp

theorem peers_never_settle_witness:
  "pk_reorganised (pm_keeper (snd (OnAccept NetConfig_default example_clock None
     (example_manager\<lparr>pm_keeper := Keeper_BlockDisconnected PoolKeeper_new\<rparr>))))"
proof -
  let ?pm = "example_manager\<lparr>pm_keeper := Keeper_BlockDisconnected PoolKeeper_new\<rparr>"
  obtain r pm' where a: "OnAccept NetConfig_default example_clock None ?pm = (r, pm')" by fastforce
  have "(peer_step (fresh_env example_crypto Regtest) NetConfig_default)\<^sup>*\<^sup>* ?pm pm'"
    by (rule r_into_rtranclp) (rule peer_step.accept [OF a])
  from peers_never_settle [OF this] a show ?thesis by (simp add: Keeper_BlockDisconnected_def)
qed

lemma Dispatch_connections:
  assumes "Dispatch env cfg clk remote peer event pm = Some (pm', out)"
  shows "length (pm_connections pm') = length (pm_connections pm)"
proof -
  note lengths = Manager_Close_quiet [where env = env, THEN quiet_length] Manager_Send_quiet [THEN quiet_length]
    Announce_quiet [THEN quiet_length] StartSync_quiet [THEN quiet_length] Score_quiet [where env = env, THEN quiet_length]
    quiet_handlers [THEN quiet_length] OnConnected_quiet [THEN quiet_length]
  have act: "length (pm_connections pm2) = length (pm_connections pm1)" if "activate_observed env pm1 = Some (r, pm2)" for pm1 r pm2
    using that by (auto simp: activate_observed_def bind_eq_Some_conv)
  have "length (pm_connections pm') = length (pm_connections pm)"
    if "Manager_HandleMessage env cfg clk remote peer command payload pm = Some (pm', out)" for command payload
  proof (cases command)
    case Block
    with that have "HandleBlock env clk peer payload pm = Some (pm', out)" by (simp add: Manager_HandleMessage_def)
    then show ?thesis by (rule HandleBlock_frame) (auto dest!: quiet_length act)
  next
    case Headers
    with that show ?thesis
      by (auto simp: Manager_HandleMessage_def HandleHeaders_def split: option.splits prod.splits if_splits dest!: lengths)
  next
    case Tx
    with that show ?thesis
      by (auto simp: Manager_HandleMessage_def HandleTx_def accept_transaction_def Let_def split: option.splits prod.splits if_splits dest!: lengths)
  next
    case Addr
    with that show ?thesis
      by (auto simp: Manager_HandleMessage_def HandleAddr_def split: option.splits prod.splits dest!: lengths)
  qed (use that in \<open>auto simp: Manager_HandleMessage_def split: option.splits dest!: lengths\<close>)
  with assms show ?thesis by (cases event) (auto simp: Dispatch_def dest!: lengths)
qed

lemma peer_step_connections: "peer_step env cfg pm pm' \<Longrightarrow> length (pm_connections pm) \<le> length (pm_connections pm')"
proof (erule peer_step.cases)
  fix clk remote pma r pm''
  assume "pm = pma" "pm' = pm''" "OnAccept cfg clk remote pma = (r, pm'')"
  then show ?thesis by (auto elim: OnAccept_cases)
qed (auto dest: Dispatch_connections)

text \<open>
  Slots for inbound connections are never given back: once as many connections have been made as
  there are inbound and outbound slots, every socket is refused from then on, also when all of those
  connections have long been closed.
\<close>

theorem inbound_slots_not_freed:
  assumes "(peer_step env cfg)\<^sup>*\<^sup>* pm pm'" and "length (pm_connections pm) \<ge> nc_max_inbound cfg + nc_max_outbound cfg"
  shows "OnAccept cfg clk remote pm' = (False, pm') \<and> PeerCount pm' \<ge> nc_max_inbound cfg + nc_max_outbound cfg"
proof -
  have "length (pm_connections pm) \<le> length (pm_connections pm')"
    using assms(1) by (induction rule: rtranclp_induct) (auto dest: peer_step_connections)
  with assms(2) show ?thesis by (simp add: OnAccept_def PeerCount_def)
qed

theorem inbound_slots_not_freed_witness:
  "OnAccept NetConfig_default example_clock None
     (example_manager\<lparr>pm_connections := replicate 40 (Close (PeerConnection_inbound 7))\<rparr>) =
   (False, example_manager\<lparr>pm_connections := replicate 40 (Close (PeerConnection_inbound 7))\<rparr>)"
  using inbound_slots_not_freed [OF rtranclp.rtrancl_refl, of NetConfig_default
      "example_manager\<lparr>pm_connections := replicate 40 (Close (PeerConnection_inbound 7))\<rparr>" example_clock None]
  by (simp add: NetConfig_default_def)

text \<open>
  Different addresses can have the same key, because the bytes are printed without leading zeros; the one that
  arrives second is dropped.
\<close>

theorem address_keys_collide:
  "\<exists>a b. a \<noteq> b \<and> length (na_address a) = 16 \<and> length (na_address b) = 16 \<and> AddAddress b (AddAddress a []) = [a] \<and>
     AddAddress b [] = [b]"
proof -
  let ?a = "\<lparr>na_addr_ver = 4, na_address = [0x11, 1] @ replicate 14 0, na_port = 8333\<rparr>"
  let ?b = "\<lparr>na_addr_ver = 4, na_address = [1, 0x11] @ replicate 14 0, na_port = 8333\<rparr>"
  have "AddressKey ?b = AddressKey ?a" by (simp add: AddressKey_def hex_unpadded_def)
  then show ?thesis by (intro exI [of _ ?a] exI [of _ ?b]) (simp add: AddAddress_def)
qed

end
