(* ===== verification/Bits.thy ===== *)
theory Bits
  imports Prelude
begin

text \<open>
  Words as bit strings, most significant bit first: the view in which the regrouping of
  bytes into 5-bit symbols (addresses) and into 11-bit word numbers (recovery phrases) is
  cutting one string of bits at two different widths.
\<close>

unbundle bit_operations_syntax

definition w_bits :: "nat \<Rightarrow> 'a::len word \<Rightarrow> bool list" where
  "w_bits n w = map (bit w) (rev [0..<n])"

lemma length_w_bits [simp]: "length (w_bits n w) = n"
  by (simp add: w_bits_def)

lemma w_bits_0 [simp]: "w_bits 0 w = []"
  by (simp add: w_bits_def)

lemma nth_w_bits: "i < n \<Longrightarrow> w_bits n w ! i = bit w (n - Suc i)"
  by (simp add: w_bits_def rev_nth)

lemma w_bits_eq_iff: "w_bits n w = w_bits n v \<longleftrightarrow> (\<forall>i<n. bit w i = bit v i)"
  by (auto simp: w_bits_def)

lemma w_bits_inject: "w_bits LENGTH('a) w = w_bits LENGTH('a) v \<longleftrightarrow> w = v"
  for w v :: "'a::len word"
  by (auto simp: w_bits_eq_iff intro: bit_word_eqI)

text \<open>Cutting a register at bit \<open>a\<close>, and shifting \<open>k\<close> further bits in from the right.\<close>

lemma w_bits_split: "w_bits (a + k) w = w_bits k (drop_bit a w) @ w_bits a w"
  by (rule nth_equalityI)
    (auto simp: nth_w_bits nth_append bit_drop_bit_eq intro!: arg_cong [where f = "bit w"])

lemma w_bits_push:
  fixes b d :: "'a::len word"
  assumes "n + k \<le> LENGTH('a)" and "\<And>i. k \<le> i \<Longrightarrow> \<not> bit d i"
  shows "w_bits (n + k) (push_bit k b OR d) = w_bits n b @ w_bits k d"
proof (rule nth_equalityI)
  fix i assume i: "i < length (w_bits (n + k) (push_bit k b OR d))"
  show "w_bits (n + k) (push_bit k b OR d) ! i = (w_bits n b @ w_bits k d) ! i"
  proof (cases "i < n")
    case True
    then have "n + k - Suc i = k + (n - Suc i)" by simp
    with True assms i show ?thesis
      by (auto simp: nth_w_bits nth_append bit_or_iff bit_push_bit_iff)
  next
    case False
    with i have "n + k - Suc i = k - Suc (i - n)" and "n + k - Suc i < k" by simp_all
    with False assms i show ?thesis
      by (simp add: nth_w_bits nth_append bit_or_iff bit_push_bit_iff)
  qed
qed simp

lemma w_bits_ucast: "n \<le> LENGTH('b) \<Longrightarrow> w_bits n (ucast w :: 'b::len word) = w_bits n (w :: 'a::len word)"
  by (auto simp: w_bits_eq_iff w_bits_def bit_unsigned_iff)

lemma w_bits_mask: "n \<le> m \<Longrightarrow> w_bits n (w AND mask m) = w_bits n w"
  by (auto simp: w_bits_eq_iff bit_and_iff bit_mask_iff w_bits_def)
     (auto simp: word_size bit_imp_le_length intro: bit_imp_le_length)

lemma w_bits_zero_iff: "(\<forall>b \<in> set (w_bits n w). \<not> b) \<longleftrightarrow> (\<forall>i<n. \<not> bit w i)"
  by (auto simp: w_bits_def)

lemma less_mask_bits: "w < 2 ^ n \<Longrightarrow> n \<le> i \<Longrightarrow> \<not> bit w i" for w :: "'a::len word"
proof
  assume w: "w < 2 ^ n" and i: "n \<le> i" and bit: "bit w i"
  then have i_less: "i < LENGTH('a)" by (simp add: bit_imp_le_length)
  with i have "unat (2 ^ n :: 'a word) = 2 ^ n"
    using unat_of_nat [where ?'a = 'a, of "2 ^ n"] power_strict_increasing [of n "LENGTH('a)" "2 :: nat"] by simp
  with w have "unat w < 2 ^ n" by (simp add: word_less_nat_alt)
  moreover have "2 ^ i \<le> unat w"
  proof (rule ccontr)
    assume "\<not> 2 ^ i \<le> unat w"
    then have "\<not> bit (unat w) i" by (simp add: bit_iff_odd)
    with bit show False by (simp add: bit_unsigned_iff bit_imp_possible_bit)
  qed
  moreover have "(2 :: nat) ^ n \<le> 2 ^ i"
    using i by (rule power_increasing) simp
  ultimately show False by linarith
qed

lemma push_1_top:
  assumes "\<And>i. n \<le> i \<Longrightarrow> \<not> bit a i" and "\<And>i. 0 < i \<Longrightarrow> \<not> bit v i" and "Suc n \<le> i"
  shows "\<not> bit (push_bit 1 a OR v) i"
proof -
  have "\<not> bit a (i - 1)" and "\<not> bit v i" using assms by simp_all
  then show ?thesis by (simp only: bit_or_iff bit_push_bit_iff) simp
qed

text \<open>Two ways of cutting the same string at the same width give the same pieces.\<close>

lemma concat_chunks_inject:
  assumes "\<forall>x \<in> set xs. length x = k" and "\<forall>y \<in> set ys. length y = k"
    and "concat xs @ p = concat ys @ q" and "length p < k" and "length q < k"
  shows "xs = ys \<and> p = q"
  using assms
proof (induction xs arbitrary: ys)
  case Nil
  show ?case
  proof (cases ys)
    case (Cons y ys')
    then have "k \<le> length (concat ys @ q)" using Nil.prems(2) by simp
    also have "\<dots> = length p" using Nil.prems(3) by simp
    finally show ?thesis using Nil.prems(4) by simp
  qed (use Nil.prems in simp)
next
  case (Cons x xs)
  show ?case
  proof (cases ys)
    case Nil
    have "k \<le> length (concat (x # xs) @ p)" using Cons.prems(1) by simp
    also have "\<dots> = length q" using Cons.prems(3) Nil by simp
    finally show ?thesis using Cons.prems(5) by simp
  next
    case ys: (Cons y ys')
    with Cons.prems have "x = y \<and> concat xs @ p = concat ys' @ q" by auto
    with Cons.IH [of ys'] Cons.prems ys show ?thesis by simp
  qed
qed

text \<open>Strings of bytes, and of 5-bit symbols, as strings of bits.\<close>

abbreviation bits5 :: "byte_vec \<Rightarrow> bool list" where "bits5 vs \<equiv> concat (map (w_bits 5) vs)"
abbreviation bits8 :: "byte_vec \<Rightarrow> bool list" where "bits8 vs \<equiv> concat (map (w_bits 8) vs)"

lemma length_bits: "length (bits5 vs) = 5 * length vs" "length (bits8 vs) = 8 * length vs"
  by (induction vs) simp_all

lemma nth_bits8: "p < 8 * length bs \<Longrightarrow> bits8 bs ! p = bit (bs ! (p div 8)) (7 - p mod 8)"
proof (induction bs arbitrary: p)
  case (Cons b bs)
  show ?case
  proof (cases "p < 8")
    case True
    then show ?thesis by (simp add: nth_append nth_w_bits)
  next
    case False
    then have "p div 8 = Suc ((p - 8) div 8)" and "p mod 8 = (p - 8) mod 8"
      by (simp_all add: le_div_geq le_mod_geq)
    with False Cons show ?thesis by (simp add: nth_append)
  qed
qed simp

lemma bits8_inject: "length xs = length ys \<Longrightarrow> bits8 xs = bits8 ys \<longleftrightarrow> xs = ys"
proof (induction xs ys rule: list_induct2)
  case (Cons x xs y ys)
  then show ?case using w_bits_inject [of x y] by auto
qed simp

lemma and_exp_zero_iff: "w AND 2 ^ k = 0 \<longleftrightarrow> \<not> bit w k" for w :: "'a::len word"
proof -
  have "w AND 2 ^ k = (if bit w k then 2 ^ k else 0)"
    by (rule bit_word_eqI) (auto simp: bit_and_iff bit_exp_iff)
  moreover have "bit w k \<Longrightarrow> 2 ^ k \<noteq> (0 :: 'a word)"
    by (auto dest: bit_imp_le_length)
  ultimately show ?thesis by auto
qed

end
