(* ===== verification/Address.thy ===== *)
theory Address
  imports Bits Primitives
begin

text \<open>
  Addresses (\<^verbatim>\<open>src/wallet/address.cpp\<close>): the 5-bit alphabet, the checksum polynomial, the
  regrouping of bytes into 5-bit symbols and back, \<^verbatim>\<open>EncodeAddress\<close>, \<^verbatim>\<open>DecodeAddress\<close> and
  the two conversions between locks and addresses. The checksum is a linear register, so
  the lemmas treat it as one: \<open>poly_from\<close> of an exclusive or is the exclusive or of the
  registers, six symbols fed into the zero register are those symbols, and feeding zeros
  into a non-zero register never empties it. \<^verbatim>\<open>char\<close> is signed, as on x86-64.
\<close>

section \<open>The alphabet and the checksum\<close>

definition CHARSET :: string where
  "CHARSET = ''qpzry9x8gf2tvdw0s3jn54khce6mua7l''"

definition GEN :: "u32 list" where
  "GEN = [0x3B6A57B2, 0x26508E6D, 0x1EA119FA, 0x3D4233DD, 0x2A1462B3]"

definition BECH32M_CONST :: u32 where
  "BECH32M_CONST = 0x2BC830A3"

text \<open>\<^verbatim>\<open>std::string_view::find\<close> of a character: the first position, or none.\<close>

fun string_find :: "char \<Rightarrow> string \<Rightarrow> nat option" where
  "string_find c [] = None"
| "string_find c (x # xs) = (if x = c then Some 0 else map_option Suc (string_find c xs))"

definition to_lower :: "char \<Rightarrow> char" where
  "to_lower c = (if 65 \<le> (of_char c :: nat) \<and> (of_char c :: nat) \<le> 90
     then char_of ((of_char c :: nat) - 65 + 97) else c)"

definition CharToValue :: "char \<Rightarrow> u8" where
  "CharToValue c =
     (case string_find (to_lower c) CHARSET of Some found \<Rightarrow> of_nat found | None \<Rightarrow> 0xFF)"

definition PolyModStep :: "u32 \<Rightarrow> u32 \<Rightarrow> u32" where
  "PolyModStep chk value =
     (let top = drop_bit 25 chk
      in fold (\<lambda>i chk. if drop_bit i top AND 1 \<noteq> 0 then chk XOR GEN ! i else chk) [0..<5]
           (push_bit 5 (chk AND 0x1FFFFFF) XOR value))"

definition poly_from :: "u32 \<Rightarrow> byte_vec \<Rightarrow> u32" where
  "poly_from chk values = foldl (\<lambda>chk v. PolyModStep chk (ucast v)) chk values"

definition PolyMod :: "byte_vec \<Rightarrow> u32" where
  "PolyMod values = poly_from 1 values"

section \<open>Regrouping\<close>

fun Convert8To5_emit :: "u32 \<Rightarrow> nat \<Rightarrow> byte_vec \<times> nat" where
  "Convert8To5_emit buffer bits =
     (if 5 \<le> bits then
        (let (out, bits') = Convert8To5_emit buffer (bits - 5)
         in (ucast (drop_bit (bits - 5) buffer AND 0x1F) # out, bits'))
      else ([], bits))"

declare Convert8To5_emit.simps [simp del]

fun Convert8To5_loop :: "u32 \<Rightarrow> nat \<Rightarrow> byte_vec \<Rightarrow> byte_vec" where
  "Convert8To5_loop buffer bits [] =
     (if 0 < bits then [ucast (push_bit (5 - bits) buffer AND 0x1F)] else [])"
| "Convert8To5_loop buffer bits (d # data) =
     (let buffer' = push_bit 8 buffer OR ucast d;
          (out, bits') = Convert8To5_emit buffer' (bits + 8)
      in out @ Convert8To5_loop buffer' bits' data)"

definition Convert8To5 :: "byte_vec \<Rightarrow> byte_vec" where
  "Convert8To5 data = Convert8To5_loop 0 0 data"

fun Convert5To8_loop :: "u32 \<Rightarrow> nat \<Rightarrow> byte_vec \<Rightarrow> (byte_vec \<times> u32 \<times> nat) option" where
  "Convert5To8_loop buffer bits [] = Some ([], buffer, bits)"
| "Convert5To8_loop buffer bits (d # data) =
     (if d > 31 then None
      else
        let buffer' = push_bit 5 buffer OR ucast d; bits' = bits + 5
        in if 8 \<le> bits'
           then map_option (\<lambda>(result, st). (ucast (drop_bit (bits' - 8) buffer' AND 0xFF) # result, st))
                  (Convert5To8_loop buffer' (bits' - 8) data)
           else Convert5To8_loop buffer' bits' data)"

definition Convert5To8 :: "byte_vec \<Rightarrow> nat \<Rightarrow> byte_vec option" where
  "Convert5To8 data expected_bytes =
     (case Convert5To8_loop 0 0 data of
        None \<Rightarrow> None
      | Some (result, buffer, bits) \<Rightarrow>
          if 5 \<le> bits \<or> (0 < bits \<and> push_bit (8 - bits) buffer AND 0xFF \<noteq> 0) then None
          else if length result \<noteq> expected_bytes then None
          else Some result)"

section \<open>Addresses\<close>

definition ADDRESS_VERSION_CONDITION :: u8 where "ADDRESS_VERSION_CONDITION = 1"
definition ADDRESS_PROGRAM_BYTES :: nat where "ADDRESS_PROGRAM_BYTES = 32"

text \<open>The promotion of \<^verbatim>\<open>char\<close> to \<^verbatim>\<open>int\<close> keeps its sign.\<close>

definition HrpExpand :: "string \<Rightarrow> byte_vec" where
  "HrpExpand hrp =
     concat (map (\<lambda>c. let i = sint (of_char c :: u8)
                      in [word_of_int (drop_bit 5 i AND 0x1F), word_of_int (i AND 0x1F)]) hrp) @ [0]"

definition ComputeChecksum5 :: "byte_vec \<Rightarrow> byte_vec \<Rightarrow> byte_vec" where
  "ComputeChecksum5 hrp_expand data_5bit =
     (let poly = PolyMod (hrp_expand @ data_5bit @ replicate 6 0) XOR BECH32M_CONST
      in map (\<lambda>i. ucast (drop_bit (5 * (5 - i)) poly AND 0x1F)) [0..<6])"

definition EncodeAddress :: "string \<Rightarrow> u8 \<Rightarrow> byte_vec \<Rightarrow> string" where
  "EncodeAddress hrp version program =
     (if length program = 2 ^ 64 - 1 then []
      else if version > 31 then []
      else
        let five_bit = version # Convert8To5 program;
            checksum = ComputeChecksum5 (HrpExpand hrp) five_bit
        in hrp @ ''1'' @ map (\<lambda>v. CHARSET ! unat v) five_bit @ map (\<lambda>v. CHARSET ! unat v) checksum)"

record decoded_address =
  da_version :: u8
  da_program :: byte_vec

text \<open>\<^verbatim>\<open>find_last_of\<close>: the last position of a character.\<close>

definition find_last_of :: "char \<Rightarrow> string \<Rightarrow> nat option" where
  "find_last_of c s = map_option (\<lambda>i. length s - Suc i) (string_find c (rev s))"

text \<open>The loop over the data part, which stops at the first character outside the alphabet.\<close>

fun data_values :: "string \<Rightarrow> byte_vec option" where
  "data_values [] = Some []"
| "data_values (c # cs) =
     (let v = CharToValue c in if v > 31 then None else map_option ((#) v) (data_values cs))"

definition DecodeAddress :: "string \<Rightarrow> string \<Rightarrow> decoded_address option" where
  "DecodeAddress hrp address =
     (if length address < 8 \<or> length address > 90 then None
      else case find_last_of (CHR ''1'') address of
          None \<Rightarrow> None
        | Some sep \<Rightarrow>
            if sep = 0 \<or> sep + 7 > length address then None
            else if take sep address \<noteq> hrp then None
            else if \<exists>c \<in> set (take sep address).
                sint (of_char c :: u8) < 33 \<or> sint (of_char c :: u8) > 126 then None
            else case data_values (drop (sep + 1) address) of
                None \<Rightarrow> None
              | Some values \<Rightarrow>
                  if length values < 6 then None
                  else if PolyMod (HrpExpand (take sep address) @ values) \<noteq> BECH32M_CONST then None
                  else
                    case take (length values - 6) values of
                      [] \<Rightarrow> None
                    | version # program_5bit \<Rightarrow>
                        if version > 16 then None
                        else map_option (\<lambda>program. \<lparr>da_version = version, da_program = program\<rparr>)
                               (Convert5To8 program_5bit ADDRESS_PROGRAM_BYTES))"

definition LockToAddress :: "lock \<Rightarrow> string \<Rightarrow> string option" where
  "LockToAddress l hrp =
     (if lock_version l \<noteq> LOCK_VERSION_CONDITION_COMMITMENT then None
      else if length (lock_program l) \<noteq> ADDRESS_PROGRAM_BYTES then None
      else Some (EncodeAddress hrp ADDRESS_VERSION_CONDITION (lock_program l)))"

definition AddressToLock :: "string \<Rightarrow> string \<Rightarrow> lock option" where
  "AddressToLock address hrp =
     map_option (\<lambda>decoded. \<lparr>lock_version = LOCK_VERSION_CONDITION_COMMITMENT,
                            lock_program = da_program decoded\<rparr>)
       (DecodeAddress hrp address)"

section \<open>The checksum register\<close>

definition gen_term :: "nat \<Rightarrow> u32 \<Rightarrow> u32" where
  "gen_term i chk = (if bit chk (25 + i) then GEN ! i else 0)"

lemma PolyModStep_alt:
  "PolyModStep chk v = push_bit 5 (chk AND mask 25) XOR v XOR gen_term 0 chk XOR gen_term 1 chk
     XOR gen_term 2 chk XOR gen_term 3 chk XOR gen_term 4 chk"
proof -
  have bit: "drop_bit i (drop_bit 25 chk) AND 1 \<noteq> 0 \<longleftrightarrow> bit chk (25 + i)" for i
    by (simp add: and_one_eq bit_iff_odd_drop_bit odd_iff_mod_2_eq_one add.commute)
  have mask: "(0x1FFFFFF :: u32) = mask 25" by (simp add: mask_eq_exp_minus_1)
  have upt: "[0..<5] = [0, 1, 2, 3, 4 :: nat]" by (simp add: upt_rec)
  show ?thesis
    unfolding PolyModStep_def Let_def bit mask upt
    by (simp add: gen_term_def xor.assoc numeral_2_eq_2)
qed

lemma gen_term_xor: "gen_term i (a XOR b) = gen_term i a XOR gen_term i b"
  by (simp add: gen_term_def bit_xor_iff)

lemma PolyModStep_xor: "PolyModStep (a XOR b) (v XOR w) = PolyModStep a v XOR PolyModStep b w"
  by (simp add: PolyModStep_alt gen_term_xor push_bit_xor bit.conj_xor_distrib2 xor.assoc
      xor.left_commute xor.commute)

lemma PolyModStep_zero [simp]: "PolyModStep 0 0 = 0"
  by (simp add: PolyModStep_alt gen_term_def)

lemma poly_from_Nil [simp]: "poly_from s [] = s"
  by (simp add: poly_from_def)

lemma poly_from_Cons [simp]: "poly_from s (v # vs) = poly_from (PolyModStep s (ucast v)) vs"
  by (simp add: poly_from_def)

lemma poly_from_append: "poly_from s (vs @ ws) = poly_from (poly_from s vs) ws"
  by (simp add: poly_from_def)

lemma ucast_xor: "ucast (v XOR w) = (ucast v XOR ucast w :: u32)" for v w :: u8
  by (rule bit_word_eqI) (simp add: bit_xor_iff bit_unsigned_iff)

lemma poly_from_xor:
  "length vs = length ws \<Longrightarrow>
     poly_from (a XOR b) (map2 (XOR) vs ws) = poly_from a vs XOR poly_from b ws"
  by (induction vs ws arbitrary: a b rule: list_induct2) (simp_all add: ucast_xor PolyModStep_xor)

lemma map2_xor_zeros: "map2 (XOR) (replicate (length cs) 0) cs = (cs :: byte_vec)"
  by (induction cs) auto

lemma poly_from_zeros_xor: "poly_from s cs = poly_from s (replicate (length cs) 0) XOR poly_from 0 cs"
  using poly_from_xor [of "replicate (length cs) 0" cs s 0] by (simp add: map2_xor_zeros)

text \<open>Below 25 bits the register only shifts; six symbols fill it exactly.\<close>

lemma PolyModStep_small:
  assumes "\<And>i. 25 \<le> i \<Longrightarrow> \<not> bit s i"
  shows "PolyModStep s v = push_bit 5 s XOR v"
proof -
  have "s AND mask 25 = s"
    using assms by (intro bit_word_eqI) (metis (mono_tags, lifting) bit_and_iff bit_mask_iff linorder_not_le possible_bit_word)
  then show ?thesis
    using assms by (simp add: PolyModStep_alt gen_term_def)
qed

lemma bit_5bit: "v < 32 \<Longrightarrow> 5 \<le> i \<Longrightarrow> \<not> bit (ucast (v :: u8) :: u32) i"
  using less_mask_bits [of v 5 i] by (simp add: bit_unsigned_iff)

lemma PolyModStep_shift_in:
  assumes "\<And>i. 25 \<le> i \<Longrightarrow> \<not> bit s i" and "v < 32"
  shows "PolyModStep s (ucast (v :: u8)) = push_bit 5 s OR ucast v"
proof -
  have "push_bit 5 s XOR ucast v = push_bit 5 s OR ucast v"
    using bit_5bit [OF \<open>v < 32\<close>]
    by (intro bit_word_eqI) (auto simp: bit_xor_iff bit_or_iff bit_push_bit_iff not_le)
  with assms(1) show ?thesis by (simp add: PolyModStep_small)
qed

lemma poly_from_symbols:
  assumes "\<forall>c \<in> set cs. c < 32" and "n + 5 * length cs \<le> 30" and "\<And>i. n \<le> i \<Longrightarrow> \<not> bit s i"
  shows "w_bits (n + 5 * length cs) (poly_from s cs) = w_bits n s @ concat (map (w_bits 5) cs)"
    and "n + 5 * length cs \<le> i \<Longrightarrow> \<not> bit (poly_from s cs) i"
proof -
  have "w_bits (n + 5 * length cs) (poly_from s cs) = w_bits n s @ concat (map (w_bits 5) cs)
      \<and> (\<forall>i \<ge> n + 5 * length cs. \<not> bit (poly_from s cs) i)"
    using assms
  proof (induction cs arbitrary: n s)
    case Nil
    then show ?case by simp
  next
    case (Cons c cs)
    have c: "c < 32" using Cons.prems by simp
    have step: "PolyModStep s (ucast c) = push_bit 5 s OR ucast c"
      using Cons.prems c by (intro PolyModStep_shift_in) auto
    have low: "\<not> bit (push_bit 5 s OR ucast c) i" if "n + 5 \<le> i" for i
      using that Cons.prems(3) bit_5bit [OF c] by (auto simp: bit_or_iff bit_push_bit_iff)
    have "w_bits (n + 5) (push_bit 5 s OR ucast c) = w_bits n s @ w_bits 5 c"
      using Cons.prems bit_5bit [OF c] by (subst w_bits_push) (auto simp: w_bits_ucast)
    with Cons.IH [of "n + 5" "push_bit 5 s OR ucast c"] Cons.prems low show ?case
      by (simp add: step add.assoc)
  qed
  then show "w_bits (n + 5 * length cs) (poly_from s cs) = w_bits n s @ concat (map (w_bits 5) cs)"
    and "n + 5 * length cs \<le> i \<Longrightarrow> \<not> bit (poly_from s cs) i"
    by blast+
qed

lemma PolyModStep_30:
  assumes "v < 32" and "30 \<le> i"
  shows "\<not> bit (PolyModStep s (ucast (v :: u8))) i"
proof -
  have gen: "\<not> bit (GEN ! k) i" if "k < 5" for k
  proof -
    have "\<forall>g \<in> set GEN. g < 2 ^ 30" by (simp add: GEN_def)
    moreover have "GEN ! k \<in> set GEN" using that by (intro nth_mem) (simp add: GEN_def)
    ultimately show ?thesis using less_mask_bits \<open>30 \<le> i\<close> by blast
  qed
  have "\<not> bit (gen_term k s) i" if "k < 5" for k
    using gen [OF that] by (simp add: gen_term_def)
  then show ?thesis
    using assms bit_5bit [of v i]
    by (auto simp: PolyModStep_alt bit_xor_iff bit_push_bit_iff bit_and_iff bit_mask_iff)
qed

lemma poly_from_30:
  assumes "\<forall>v \<in> set vs. v < 32" and "\<And>i. 30 \<le> i \<Longrightarrow> \<not> bit s i" and "30 \<le> i"
  shows "\<not> bit (poly_from s vs) i"
  using assms by (induction vs arbitrary: s) (auto simp: PolyModStep_30)

lemma w_bits_5bit: "w_bits 5 (ucast (drop_bit k w AND 0x1F) :: u8) = w_bits 5 (drop_bit k w)"
  for w :: u32
proof -
  have mask: "(0x1F :: u32) = mask 5" by (simp add: mask_eq_exp_minus_1)
  show ?thesis unfolding mask by (simp add: w_bits_ucast w_bits_mask)
qed

lemma ucast_5bit_less: "ucast (w AND 0x1F :: u32) < (32 :: u8)"
proof -
  have "unat (w AND 0x1F) \<le> unat (0x1F :: u32)"
    using word_and_le1 [of w "0x1F"] by (simp only: word_le_nat_alt)
  moreover have "unat (ucast (w AND 0x1F) :: u8) = unat (w AND 0x1F) mod 256"
    by (simp add: unsigned_ucast_eq unsigned_take_bit_eq take_bit_eq_mod)
  ultimately show ?thesis by (simp add: word_less_nat_alt)
qed

lemma five_bit_inject:
  "v < 32 \<Longrightarrow> w < 32 \<Longrightarrow> w_bits 5 v = w_bits 5 w \<longleftrightarrow> v = (w :: u8)"
  using less_mask_bits [of v 5] less_mask_bits [of w 5]
  by (auto simp: w_bits_eq_iff intro!: bit_word_eqI) (metis linorder_not_le)+

lemma five_bits_inject:
  assumes "\<forall>v \<in> set vs. v < 32" and "\<forall>v \<in> set ws. v < (32 :: u8)"
    and "concat (map (w_bits 5) vs) = concat (map (w_bits 5) ws)"
  shows "vs = ws"
proof -
  have "map (w_bits 5) vs = map (w_bits 5) ws"
    using concat_chunks_inject [of "map (w_bits 5) vs" 5 "map (w_bits 5) ws" "[]" "[]"] assms(3) by simp
  moreover have "inj_on (w_bits 5) {v :: u8. v < 32}"
    by (rule inj_onI) (simp add: five_bit_inject)
  ultimately show ?thesis
    using assms by (intro inj_on_map_eq_map [THEN iffD1, of "w_bits 5" vs ws]) (auto elim: inj_on_subset)
qed

lemma thirty_bits:
  "concat (map (w_bits 5) (map (\<lambda>i. ucast (drop_bit (5 * (5 - i)) poly AND 0x1F) :: u8) [0..<6])) = w_bits 30 poly"
  for poly :: u32
proof -
  have "[0..<6] = [0, 1, 2, 3, 4, 5 :: nat]" by (simp add: upt_rec)
  then show ?thesis
    using w_bits_split [of 25 5 poly] w_bits_split [of 20 5 poly] w_bits_split [of 15 5 poly]
      w_bits_split [of 10 5 poly] w_bits_split [of 5 5 poly]
    by (simp add: w_bits_5bit)
       (metis drop_bit_0 id_apply w_bits_5bit)
qed

lemma length_ComputeChecksum5 [simp]: "length (ComputeChecksum5 h d) = 6"
  by (simp add: ComputeChecksum5_def Let_def)

lemma ComputeChecksum5_less: "\<forall>v \<in> set (ComputeChecksum5 h d). v < 32"
  by (auto simp: ComputeChecksum5_def Let_def ucast_5bit_less)

text \<open>The one checksum a payload has.\<close>

lemma xor_eq_iff: "a XOR b = c \<longleftrightarrow> b = a XOR c" for a b c :: "'a::len word"
  by (metis xor.assoc xor.left_neutral xor_self_eq)

lemma checksum_iff:
  assumes hd: "\<forall>v \<in> set (h @ d). v < 32" and c: "\<forall>v \<in> set c. v < 32" "length c = 6"
  shows "PolyMod (h @ d @ c) = BECH32M_CONST \<longleftrightarrow> c = ComputeChecksum5 h d"
proof -
  define poly where "poly = PolyMod (h @ d @ replicate 6 0) XOR BECH32M_CONST"
  have split: "PolyMod (h @ d @ c) = PolyMod (h @ d @ replicate 6 0) XOR poly_from 0 c"
    using poly_from_zeros_xor [of "poly_from (poly_from 1 h) d" c] c(2)
    by (simp add: PolyMod_def poly_from_append)
  have top: "\<not> bit poly i" if "30 \<le> i" for i
  proof -
    have "\<not> bit (PolyMod (h @ d @ replicate 6 0)) i"
      unfolding PolyMod_def using hd that by (intro poly_from_30) (auto simp: bit_1_iff)
    moreover have "\<not> bit BECH32M_CONST i"
      using that less_mask_bits [of BECH32M_CONST 30 i] by (simp add: BECH32M_CONST_def)
    ultimately show ?thesis by (simp add: poly_def bit_xor_iff)
  qed
  have sym: "w_bits 30 (poly_from 0 e) = concat (map (w_bits 5) e)"
    and top': "30 \<le> i \<Longrightarrow> \<not> bit (poly_from 0 e) i" if "\<forall>v \<in> set e. v < 32" "length e = 6" for e i
    using poly_from_symbols [of e 0 0] that by simp_all
  have eq: "poly_from 0 e = poly \<longleftrightarrow> concat (map (w_bits 5) e) = w_bits 30 poly"
    if e: "\<forall>v \<in> set e. v < 32" "length e = 6" for e
  proof
    assume "concat (map (w_bits 5) e) = w_bits 30 poly"
    then have "w_bits 30 (poly_from 0 e) = w_bits 30 poly" using sym [OF e] by simp
    then have low: "bit (poly_from 0 e) i = bit poly i" if "i < 30" for i
      using that by (simp add: w_bits_eq_iff)
    show "poly_from 0 e = poly"
      using low top top' [OF e] by (intro bit_word_eqI) (metis linorder_not_le)
  qed (simp add: sym [OF e, symmetric])
  have sum: "concat (map (w_bits 5) (ComputeChecksum5 h d)) = w_bits 30 poly"
    using thirty_bits [of poly] by (simp add: ComputeChecksum5_def Let_def poly_def)
  have "PolyMod (h @ d @ c) = BECH32M_CONST \<longleftrightarrow> poly_from 0 c = poly"
    by (simp add: split poly_def xor_eq_iff)
  also have "\<dots> \<longleftrightarrow> concat (map (w_bits 5) c) = concat (map (w_bits 5) (ComputeChecksum5 h d))"
    using eq [OF c] sum by simp
  also have "\<dots> \<longleftrightarrow> c = ComputeChecksum5 h d"
    using five_bits_inject [OF c(1) ComputeChecksum5_less] by blast
  finally show ?thesis .
qed

section \<open>Regrouping is cutting one bit string twice\<close>

lemma w_bits_of_zero: "w_bits n (0 :: 'a::len word) = replicate n False"
  by (rule nth_equalityI) (simp_all add: nth_w_bits)

lemma Convert8To5_emit_bits:
  assumes "Convert8To5_emit buffer bits = (out, bits')"
  shows "bits' < 5 \<and> bits5 out @ w_bits bits' buffer = w_bits bits buffer \<and> (\<forall>v \<in> set out. v < 32)"
  using assms
proof (induction buffer bits arbitrary: out bits' rule: Convert8To5_emit.induct)
  case (1 buffer bits)
  show ?case
  proof (cases "5 \<le> bits")
    case True
    obtain out1 bits1 where rec: "Convert8To5_emit buffer (bits - 5) = (out1, bits1)" by fastforce
    with True "1.prems" have out: "out = ucast (drop_bit (bits - 5) buffer AND 0x1F) # out1" "bits' = bits1"
      by (auto simp: Convert8To5_emit.simps [of buffer bits])
    have "w_bits bits buffer = w_bits 5 (drop_bit (bits - 5) buffer) @ w_bits (bits - 5) buffer"
      using w_bits_split [of "bits - 5" 5 buffer] True by simp
    with "1.IH" [OF True rec] out show ?thesis by (simp add: w_bits_5bit ucast_5bit_less)
  next
    case False
    with "1.prems" show ?thesis by (simp add: Convert8To5_emit.simps [of buffer bits])
  qed
qed

lemma ucast_8bit: "8 \<le> i \<Longrightarrow> \<not> bit (ucast (d :: u8) :: u32) i"
  by (auto simp: bit_unsigned_iff dest: bit_imp_le_length)

lemma Convert8To5_loop_bits:
  assumes "bits < 5"
  shows "\<exists>pad<5. bits5 (Convert8To5_loop buffer bits data)
           = w_bits bits buffer @ bits8 data @ replicate pad False"
    and "\<forall>v \<in> set (Convert8To5_loop buffer bits data). v < 32"
proof -
  have "(\<exists>pad<5. bits5 (Convert8To5_loop buffer bits data)
           = w_bits bits buffer @ bits8 data @ replicate pad False)
      \<and> (\<forall>v \<in> set (Convert8To5_loop buffer bits data). v < 32)"
    using assms
  proof (induction data arbitrary: buffer bits)
    case Nil
    show ?case
    proof (cases "bits = 0")
      case False
      have "w_bits 5 (push_bit (5 - bits) buffer) = w_bits bits buffer @ replicate (5 - bits) False"
        using w_bits_push [of bits "5 - bits" 0 buffer] Nil False by (simp add: w_bits_of_zero)
      with False Nil show ?thesis
        using w_bits_5bit [of 0 "push_bit (5 - bits) buffer"]
        by (auto simp: ucast_5bit_less intro!: exI [of _ "5 - bits"])
    qed simp
  next
    case (Cons d data)
    define buffer' where "buffer' = push_bit 8 buffer OR ucast d"
    obtain out bits' where emit: "Convert8To5_emit buffer' (bits + 8) = (out, bits')" by fastforce
    note em = Convert8To5_emit_bits [OF emit]
    have "w_bits (bits + 8) buffer' = w_bits bits buffer @ w_bits 8 d"
      unfolding buffer'_def using Cons.prems ucast_8bit
      by (subst w_bits_push) (auto simp: w_bits_ucast)
    with em Cons.IH [of bits' buffer'] emit show ?case
      by (auto simp: buffer'_def [symmetric] simp flip: append_assoc)
  qed
  then show "\<exists>pad<5. bits5 (Convert8To5_loop buffer bits data)
           = w_bits bits buffer @ bits8 data @ replicate pad False"
    and "\<forall>v \<in> set (Convert8To5_loop buffer bits data). v < 32" by blast+
qed

lemma Convert8To5_bits: "\<exists>pad<5. bits5 (Convert8To5 data) = bits8 data @ replicate pad False"
  and Convert8To5_less: "\<forall>v \<in> set (Convert8To5 data). v < 32"
  using Convert8To5_loop_bits [of 0 0 data] by (simp_all add: Convert8To5_def)

lemma w_bits_8bit: "w_bits 8 (ucast (drop_bit k w AND 0xFF) :: u8) = w_bits 8 (drop_bit k w)"
  for w :: u32
proof -
  have mask: "(0xFF :: u32) = mask 8" by (simp add: mask_eq_exp_minus_1)
  show ?thesis unfolding mask by (simp add: w_bits_ucast w_bits_mask)
qed

lemma gt_31_iff: "31 < v \<longleftrightarrow> \<not> v < (32 :: u8)"
  by (simp add: word_less_nat_alt) linarith

lemma Convert5To8_loop_None: "\<exists>v \<in> set data. \<not> v < 32 \<Longrightarrow> Convert5To8_loop buffer bits data = None"
  by (induction data arbitrary: buffer bits) (auto simp: Let_def gt_31_iff)

lemma Convert5To8_loop_bits:
  assumes "bits < 8" and "\<forall>v \<in> set data. v < 32"
  shows "\<exists>result b n. Convert5To8_loop buffer bits data = Some (result, b, n) \<and> n < 8 \<and>
           w_bits bits buffer @ bits5 data = bits8 result @ w_bits n b"
  using assms
proof (induction data arbitrary: buffer bits)
  case Nil
  then show ?case by simp
next
  case (Cons d data)
  have d: "d < 32" using Cons.prems by simp
  define buffer' where "buffer' = push_bit 5 buffer OR ucast d"
  have grow: "w_bits (bits + 5) buffer' = w_bits bits buffer @ w_bits 5 d"
    unfolding buffer'_def using Cons.prems bit_5bit [OF d]
    by (subst w_bits_push) (auto simp: w_bits_ucast)
  show ?case
  proof (cases "8 \<le> bits + 5")
    case True
    have "bits + 5 - 8 < 8" using Cons.prems by simp
    then obtain result b n where rec: "Convert5To8_loop buffer' (bits + 5 - 8) data = Some (result, b, n)" "n < 8"
      and bits: "w_bits (bits + 5 - 8) buffer' @ bits5 data = bits8 result @ w_bits n b"
      using Cons.IH [of "bits + 5 - 8" buffer'] Cons.prems by (meson list.set_intros(2))
    have "w_bits (bits + 5) buffer' =
        w_bits 8 (drop_bit (bits + 5 - 8) buffer') @ w_bits (bits + 5 - 8) buffer'"
      using w_bits_split [of "bits + 5 - 8" 8 buffer'] True by (simp add: add.commute)
    with bits have "w_bits bits buffer @ w_bits 5 d @ bits5 data
        = w_bits 8 (drop_bit (bits + 5 - 8) buffer') @ bits8 result @ w_bits n b"
      using grow by (metis append_assoc)
    with True d rec show ?thesis
      by (simp add: Let_def gt_31_iff buffer'_def [symmetric] w_bits_8bit)
  next
    case False
    then show ?thesis
      using Cons.IH [of "bits + 5" buffer'] Cons.prems grow
      by (simp add: Let_def gt_31_iff buffer'_def [symmetric] flip: append_assoc)
  qed
qed

lemma pad_zero_iff:
  fixes b :: u32
  assumes "n < 8"
  shows "0 < n \<and> push_bit (8 - n) b AND 0xFF \<noteq> 0 \<longleftrightarrow> w_bits n b \<noteq> replicate n False"
proof -
  have mask: "(0xFF :: u32) = mask 8" by (simp add: mask_eq_exp_minus_1)
  have "push_bit (8 - n) b AND mask 8 = 0 \<longleftrightarrow> (\<forall>i<n. \<not> bit b i)"
  proof
    assume zero: "push_bit (8 - n) b AND mask 8 = 0"
    show "\<forall>i<n. \<not> bit b i"
    proof (intro allI impI)
      fix i assume "i < n"
      moreover have "\<not> bit (push_bit (8 - n) b AND mask 8) (8 - n + i)" by (simp add: zero)
      moreover have "8 - n + i < 8" "8 - n \<le> 8 - n + i" "8 - n + i - (8 - n) = i"
        using assms \<open>i < n\<close> by simp_all
      ultimately show "\<not> bit b i"
        by (simp only: bit_and_iff bit_push_bit_iff bit_mask_iff possible_bit_word) simp
    qed
  next
    assume "\<forall>i<n. \<not> bit b i"
    then show "push_bit (8 - n) b AND mask 8 = 0"
      using assms by (intro bit_word_eqI) (auto simp: bit_and_iff bit_push_bit_iff bit_mask_iff)
  qed
  moreover have "w_bits n b = replicate n False \<longleftrightarrow> (\<forall>i<n. \<not> bit b i)"
    using w_bits_eq_iff [of n b 0] by (simp add: w_bits_of_zero)
  ultimately show ?thesis unfolding mask by auto
qed

lemma Convert5To8_iff_bits:
  "Convert5To8 data k = Some r \<longleftrightarrow>
     (\<forall>v \<in> set data. v < 32) \<and> length r = k \<and> (\<exists>n<5. bits5 data = bits8 r @ replicate n False)"
proof (cases "\<forall>v \<in> set data. v < 32")
  case True
  obtain r' b n where loop: "Convert5To8_loop 0 0 data = Some (r', b, n)" and n: "n < 8"
    and bits: "bits5 data = bits8 r' @ w_bits n b"
    using Convert5To8_loop_bits [of 0 data 0] True by auto
  have "Convert5To8 data k = Some r \<longleftrightarrow> n < 5 \<and> w_bits n b = replicate n False \<and> length r' = k \<and> r' = r"
    using pad_zero_iff [OF n, of b] by (auto simp: Convert5To8_def loop)
  also have "\<dots> \<longleftrightarrow> length r = k \<and> (\<exists>m<5. bits5 data = bits8 r @ replicate m False)"
  proof (intro iffI)
    assume "length r = k \<and> (\<exists>m<5. bits5 data = bits8 r @ replicate m False)"
    then obtain m where m: "m < 5" "bits8 r' @ w_bits n b = bits8 r @ replicate m False" "length r = k"
      using bits by auto
    then have "map (w_bits 8) r' = map (w_bits 8) r \<and> w_bits n b = replicate m False"
      using n by (intro concat_chunks_inject [where k = 8]) auto
    moreover have "inj (w_bits 8 :: u8 \<Rightarrow> bool list)"
      using w_bits_inject [where ?'a = 8] by (auto intro: injI)
    moreover have "n = m" using calculation by (metis length_replicate length_w_bits)
    ultimately show "n < 5 \<and> w_bits n b = replicate n False \<and> length r' = k \<and> r' = r"
      using m by (auto dest: inj_mapD [rotated])
  qed (use bits in auto)
  finally show ?thesis using True by simp
next
  case False
  then show ?thesis using Convert5To8_loop_None [of data] by (auto simp: Convert5To8_def)
qed

lemma regroup_iff: "Convert5To8 data k = Some r \<longleftrightarrow> length r = k \<and> data = Convert8To5 r"
proof
  assume "Convert5To8 data k = Some r"
  then obtain n where data: "\<forall>v \<in> set data. v < 32" "length r = k" "n < 5"
      "bits5 data = bits8 r @ replicate n False"
    by (auto simp: Convert5To8_iff_bits)
  obtain pad where pad: "pad < 5" "bits5 (Convert8To5 r) = bits8 r @ replicate pad False"
    using Convert8To5_bits [of r] by blast
  have "5 * length data = 8 * length r + n" "5 * length (Convert8To5 r) = 8 * length r + pad"
    using arg_cong [OF data(4), of length] arg_cong [OF pad(2), of length] by (simp_all add: length_bits)
  with data(3) pad(1) have "n = pad" by presburger
  with data pad show "length r = k \<and> data = Convert8To5 r"
    using five_bits_inject [OF data(1) Convert8To5_less] by simp
next
  assume "length r = k \<and> data = Convert8To5 r"
  then show "Convert5To8 data k = Some r"
    using Convert8To5_bits [of r] Convert8To5_less [of r] by (simp add: Convert5To8_iff_bits)
qed

section \<open>The alphabet\<close>

abbreviation symbol :: "u8 \<Rightarrow> char" where "symbol v \<equiv> CHARSET ! unat v"

lemma string_find_Some: "string_find c s = Some i \<Longrightarrow> i < length s \<and> s ! i = c"
  by (induction s arbitrary: i) (auto split: if_splits)

lemma string_find_None: "string_find c s = None \<longleftrightarrow> c \<notin> set s"
  by (induction s) auto

lemma string_find_append: "c \<notin> set xs \<Longrightarrow> string_find c (xs @ c # ys) = Some (length xs)"
  by (induction xs) auto

lemma string_find_split:
  "string_find c s = Some i \<Longrightarrow> s = take i s @ c # drop (Suc i) s \<and> c \<notin> set (take i s)"
  by (induction s arbitrary: i) (auto split: if_splits)

lemma length_CHARSET [simp]: "length CHARSET = 32"
  by (simp add: CHARSET_def)

lemma five_bit_index: "v < 32 \<longleftrightarrow> unat (v :: u8) < 32"
  by (simp add: word_less_nat_alt)

lemma CHARSET_table:
  "list_all (\<lambda>i. string_find (CHARSET ! i) CHARSET = Some i \<and> to_lower (CHARSET ! i) = CHARSET ! i)
     [0..<32]"
  by code_simp

lemma CHARSET_nth:
  assumes "i < 32"
  shows "string_find (CHARSET ! i) CHARSET = Some i" and "to_lower (CHARSET ! i) = CHARSET ! i"
  using CHARSET_table assms by (simp_all add: list_all_iff)

lemma CharToValue_symbol: "v < 32 \<Longrightarrow> CharToValue (symbol v) = v"
  by (simp add: CharToValue_def CHARSET_nth five_bit_index)

lemma to_lower_symbol: "v < 32 \<Longrightarrow> to_lower (symbol v) = symbol v"
  by (simp add: CHARSET_nth five_bit_index)

lemma map_to_lower_symbol: "\<forall>v \<in> set vs. v < 32 \<Longrightarrow> map to_lower (map symbol vs) = map symbol vs"
  by (simp add: to_lower_symbol)

lemma symbol_CharToValue:
  "\<not> CharToValue c > 31 \<Longrightarrow> CharToValue c < 32 \<and> symbol (CharToValue c) = to_lower c"
  by (auto simp: CharToValue_def five_bit_index gt_31_iff dest!: string_find_Some split: option.splits)

lemma symbol_inject: "v < 32 \<Longrightarrow> w < 32 \<Longrightarrow> symbol v = symbol w \<longleftrightarrow> v = w"
  by (metis CharToValue_symbol)

lemma no_one_in_CHARSET: "CHR ''1'' \<notin> set CHARSET" "to_lower (CHR ''1'') = CHR ''1''"
  by code_simp+

lemma CharToValue_cong: "to_lower c = to_lower d \<Longrightarrow> CharToValue c = CharToValue d"
  by (simp add: CharToValue_def)

lemma data_values_iff:
  "data_values cs = Some vs \<longleftrightarrow> (\<forall>v \<in> set vs. v < 32) \<and> map symbol vs = map to_lower cs"
proof (induction cs arbitrary: vs)
  case Nil
  then show ?case by auto
next
  case (Cons c cs)
  have "\<not> CharToValue c > 31 \<and> CharToValue c = v \<longleftrightarrow> v < 32 \<and> symbol v = to_lower c" for v
  proof
    assume v: "v < 32 \<and> symbol v = to_lower c"
    then have "CharToValue c = CharToValue (symbol v)"
      using to_lower_symbol [of v] by (intro CharToValue_cong) simp
    with v CharToValue_symbol [of v] show "\<not> CharToValue c > 31 \<and> CharToValue c = v"
      by (simp add: gt_31_iff)
  qed (use symbol_CharToValue in blast)
  then show ?case
    by (cases vs) (auto simp: Let_def Cons.IH)
qed

lemma find_last_of_iff:
  "find_last_of c s = Some k \<longleftrightarrow> (\<exists>h d. s = h @ c # d \<and> c \<notin> set d \<and> k = length h)"
proof
  assume "find_last_of c s = Some k"
  then obtain i where i: "string_find c (rev s) = Some i" "k = length s - Suc i"
    by (auto simp: find_last_of_def)
  have "rev s = take i (rev s) @ c # drop (Suc i) (rev s)" and "c \<notin> set (take i (rev s))"
    using string_find_split [OF i(1)] by auto
  then have "s = rev (drop (Suc i) (rev s)) @ c # rev (take i (rev s))"
    by (metis append_Cons append_Nil append_assoc rev.simps(2) rev_append rev_rev_ident)
  moreover have "c \<notin> set (rev (take i (rev s)))" using \<open>c \<notin> set (take i (rev s))\<close> by simp
  moreover have "k = length (rev (drop (Suc i) (rev s)))" using i(2) by simp
  ultimately show "\<exists>h d. s = h @ c # d \<and> c \<notin> set d \<and> k = length h" by blast
next
  assume "\<exists>h d. s = h @ c # d \<and> c \<notin> set d \<and> k = length h"
  then show "find_last_of c s = Some k"
    using string_find_append by (fastforce simp: find_last_of_def)
qed

section \<open>Decoding inverts encoding\<close>

text \<open>The prefixes an address can have: printable, not empty, and short enough for 90 characters.\<close>

definition hrp_chars :: "string \<Rightarrow> bool" where
  "hrp_chars hrp \<longleftrightarrow> (\<forall>c \<in> set hrp. 33 \<le> sint (of_char c :: u8) \<and> sint (of_char c :: u8) \<le> 126)"

definition hrp_ok :: "string \<Rightarrow> bool" where
  "hrp_ok hrp \<longleftrightarrow> hrp \<noteq> [] \<and> length hrp \<le> 30 \<and> hrp_chars hrp"

text \<open>The address with the letters of its data part in lower case.\<close>

definition lower_data :: "string \<Rightarrow> string \<Rightarrow> string" where
  "lower_data hrp address =
     take (Suc (length hrp)) address @ map to_lower (drop (Suc (length hrp)) address)"

lemma HrpExpand_less: "\<forall>v \<in> set (HrpExpand hrp). v < 32"
proof -
  have "word_of_int (i AND 0x1F) < (32 :: u8)" for i :: int
  proof -
    have "i AND 0x1F = i mod 32"
      using take_bit_eq_mask [of 5 i] by (simp add: mask_eq_exp_minus_1 take_bit_eq_mod)
    moreover have "i mod 32 mod 256 = i mod 32" by simp
    ultimately show ?thesis
      by (simp add: word_less_def uint_word_of_int)
  qed
  then show ?thesis by (auto simp: HrpExpand_def Let_def)
qed

lemma length_Convert8To5:
  assumes "length p = 32"
  shows "length (Convert8To5 p) = 52"
proof -
  obtain pad where pad: "pad < 5" "bits5 (Convert8To5 p) = bits8 p @ replicate pad False"
    using Convert8To5_bits [of p] by blast
  from arg_cong [OF pad(2), of length] have "5 * length (Convert8To5 p) = 256 + pad"
    using assms by (simp add: length_bits)
  with pad(1) show ?thesis by presburger
qed

lemma DecodeAddress_iff:
  "DecodeAddress hrp address = Some D \<longleftrightarrow>
     (\<exists>d vs p5. address = hrp @ CHR ''1'' # d \<and> CHR ''1'' \<notin> set d \<and> length address \<in> {8..90} \<and>
        hrp \<noteq> [] \<and> 6 \<le> length d \<and> hrp_chars hrp \<and> data_values d = Some vs \<and>
        PolyMod (HrpExpand hrp @ vs) = BECH32M_CONST \<and>
        take (length vs - 6) vs = da_version D # p5 \<and> da_version D \<le> 16 \<and>
        Convert5To8 p5 ADDRESS_PROGRAM_BYTES = Some (da_program D))"
  (is "?L \<longleftrightarrow> ?R")
proof
  assume ?L
  then obtain sep where sep: "find_last_of (CHR ''1'') address = Some sep"
    by (auto simp: DecodeAddress_def split: if_splits option.splits)
  then obtain h d where a: "address = h @ CHR ''1'' # d" "CHR ''1'' \<notin> set d" "sep = length h"
    by (auto simp: find_last_of_iff)
  have take: "take sep address = h" and drop: "drop (Suc sep) address = d" using a by simp_all
  have sep_facts: "sep = 0 \<longleftrightarrow> h = []" "length address = sep + Suc (length d)" using a by simp_all
  from \<open>?L\<close> obtain vs where "h = hrp" "length address \<in> {8..90}" "h \<noteq> []" "6 \<le> length d" "hrp_chars hrp"
    "data_values d = Some vs" "PolyMod (HrpExpand hrp @ vs) = BECH32M_CONST" and
    branch: "(case take (length vs - 6) vs of [] \<Rightarrow> None | version # program_5bit \<Rightarrow>
      if version > 16 then None else map_option (\<lambda>program. \<lparr>da_version = version, da_program = program\<rparr>)
        (Convert5To8 program_5bit ADDRESS_PROGRAM_BYTES)) = Some D"
    using sep_facts
    by (simp add: DecodeAddress_def sep take drop hrp_chars_def not_less not_le split: if_splits option.splits)
  moreover from branch obtain p5 where "take (length vs - 6) vs = da_version D # p5" "da_version D \<le> 16"
      "Convert5To8 p5 ADDRESS_PROGRAM_BYTES = Some (da_program D)"
    by (auto split: list.splits if_splits)
  ultimately show ?R using a by blast
next
  assume ?R
  then obtain d vs p5 where a: "address = hrp @ CHR ''1'' # d" "CHR ''1'' \<notin> set d"
      "length address \<in> {8..90}" "hrp \<noteq> []" "6 \<le> length d" "hrp_chars hrp" "data_values d = Some vs"
      "PolyMod (HrpExpand hrp @ vs) = BECH32M_CONST" "take (length vs - 6) vs = da_version D # p5"
      "da_version D \<le> 16" "Convert5To8 p5 ADDRESS_PROGRAM_BYTES = Some (da_program D)"
    by blast
  then have "find_last_of (CHR ''1'') address = Some (length hrp)" by (auto simp: find_last_of_iff)
  moreover have "6 \<le> length vs"
    using a(5,7) by (metis data_values_iff length_map)
  ultimately show ?L
    using a by (auto simp: DecodeAddress_def hrp_chars_def not_less)
qed

lemma EncodeAddress_alt:
  assumes "v \<le> 16" and "length p = 32"
  shows "EncodeAddress hrp v p = hrp @ CHR ''1'' # map symbol ((v # Convert8To5 p) @
           ComputeChecksum5 (HrpExpand hrp) (v # Convert8To5 p))"
proof -
  have "\<not> v > 31" using assms(1) by (simp add: word_less_nat_alt word_le_nat_alt)
  with assms(2) show ?thesis by (simp add: EncodeAddress_def Let_def)
qed

lemma payload_less:
  assumes "v \<le> 16"
  shows "\<forall>x \<in> set (v # Convert8To5 p). x < 32"
proof -
  have "v < 32" using assms by (simp add: word_less_nat_alt word_le_nat_alt)
  then show ?thesis using Convert8To5_less [of p] by simp
qed

lemma lower_data_append: "lower_data hrp (hrp @ CHR ''1'' # d) = hrp @ CHR ''1'' # map to_lower d"
  by (simp add: lower_data_def)

lemma lower_data_eq:
  assumes "lower_data hrp a = hrp @ CHR ''1'' # cs"
  obtains d where "a = hrp @ CHR ''1'' # d" and "map to_lower d = cs"
proof -
  have len: "length a = length (hrp @ CHR ''1'' # cs)"
    using arg_cong [OF assms, of length] by (auto simp: lower_data_def min_def split: if_splits)
  have "take (Suc (length hrp)) (lower_data hrp a) = take (Suc (length hrp)) a"
    and "drop (Suc (length hrp)) (lower_data hrp a) = map to_lower (drop (Suc (length hrp)) a)"
    using len by (simp_all add: lower_data_def min_def)
  then have "take (Suc (length hrp)) a = hrp @ [CHR ''1'']"
    and "map to_lower (drop (Suc (length hrp)) a) = cs"
    using assms by simp_all
  then show thesis
    using that [of "drop (Suc (length hrp)) a"] append_take_drop_id [of "Suc (length hrp)" a]
    by (metis append_Cons append_Nil append_assoc)
qed

lemma symbols_no_one: "\<forall>v \<in> set vs. v < 32 \<Longrightarrow> CHR ''1'' \<notin> set (map symbol vs)"
  using no_one_in_CHARSET(1) by (auto simp: five_bit_index)

lemma decoded_is_encoding:
  assumes "DecodeAddress hrp address = Some D"
  shows "hrp_ok hrp \<and> da_version D \<le> 16 \<and> length (da_program D) = ADDRESS_PROGRAM_BYTES \<and>
     lower_data hrp address = EncodeAddress hrp (da_version D) (da_program D)"
proof -
  from assms obtain d vs p5 where a: "address = hrp @ CHR ''1'' # d" and len: "length address \<le> 90"
    and hrp: "hrp \<noteq> []" "hrp_chars hrp" and vs: "data_values d = Some vs" "6 \<le> length d"
    and poly: "PolyMod (HrpExpand hrp @ vs) = BECH32M_CONST"
    and pay: "take (length vs - 6) vs = da_version D # p5" and ver: "da_version D \<le> 16"
    and prog: "Convert5To8 p5 ADDRESS_PROGRAM_BYTES = Some (da_program D)"
    by (auto simp: DecodeAddress_iff)
  define c where "c = drop (length vs - 6) vs"
  have p: "length (da_program D) = 32" "p5 = Convert8To5 (da_program D)"
    using prog by (auto simp: regroup_iff ADDRESS_PROGRAM_BYTES_def)
  have split: "vs = (da_version D # p5) @ c" by (metis append_take_drop_id c_def pay)
  have sym: "\<forall>v \<in> set vs. v < 32" "map symbol vs = map to_lower d"
    using vs(1) by (auto simp: data_values_iff)
  have c: "length c = 6" "\<forall>v \<in> set c. v < 32"
    using sym vs(2) c_def by (metis diff_diff_cancel length_drop length_map, auto dest: in_set_dropD)
  have "c = ComputeChecksum5 (HrpExpand hrp) (da_version D # p5)"
    using checksum_iff [of "HrpExpand hrp" "da_version D # p5" c] c poly sym(1) split HrpExpand_less [of hrp]
    by auto
  then have "lower_data hrp address = EncodeAddress hrp (da_version D) (da_program D)"
    using sym(2) split p ver by (simp add: a lower_data_append EncodeAddress_alt)
  moreover have "length d = 59"
    using arg_cong [OF sym(2), of length] split p c length_Convert8To5 [OF p(1)] by simp
  ultimately show ?thesis
    using hrp ver p len a by (simp add: hrp_ok_def ADDRESS_PROGRAM_BYTES_def)
qed

lemma encoding_decodes:
  assumes R: "hrp_ok hrp \<and> da_version D \<le> 16 \<and> length (da_program D) = ADDRESS_PROGRAM_BYTES \<and>
     lower_data hrp address = EncodeAddress hrp (da_version D) (da_program D)"
  shows "DecodeAddress hrp address = Some D"
proof -
  define pay where "pay = da_version D # Convert8To5 (da_program D)"
  define c where "c = ComputeChecksum5 (HrpExpand hrp) pay"
  have p: "length (da_program D) = 32" using R by (simp add: ADDRESS_PROGRAM_BYTES_def)
  have "lower_data hrp address = hrp @ CHR ''1'' # map symbol (pay @ c)"
    using R p by (simp add: EncodeAddress_alt pay_def c_def)
  then obtain d where a: "address = hrp @ CHR ''1'' # d" and d: "map to_lower d = map symbol (pay @ c)"
    using lower_data_eq by metis
  have pay: "\<forall>v \<in> set pay. v < 32" using R payload_less unfolding pay_def by blast
  have less: "\<forall>v \<in> set (pay @ c). v < 32"
    using pay ComputeChecksum5_less [of "HrpExpand hrp" pay] by (auto simp: c_def)
  have one: "CHR ''1'' \<notin> set d"
  proof
    assume "CHR ''1'' \<in> set d"
    then have "to_lower (CHR ''1'') \<in> set (map to_lower d)" by simp
    with symbols_no_one [OF less] d show False by (simp add: no_one_in_CHARSET(2))
  qed
  have vs: "data_values d = Some (pay @ c)" using less d by (simp add: data_values_iff)
  have poly: "PolyMod (HrpExpand hrp @ pay @ c) = BECH32M_CONST"
    using checksum_iff [of "HrpExpand hrp" pay c] HrpExpand_less [of hrp] pay ComputeChecksum5_less
    by (auto simp: c_def)
  have lens: "length c = 6" "length d = 59"
    using arg_cong [OF d, of length] length_Convert8To5 [OF p] by (simp_all add: c_def pay_def)
  have hrp: "hrp \<noteq> []" "length hrp \<le> 30" "hrp_chars hrp" using R by (simp_all add: hrp_ok_def)
  have "take (length (pay @ c) - 6) (pay @ c) = da_version D # Convert8To5 (da_program D)"
    using lens by (simp add: pay_def)
  moreover have "Convert5To8 (Convert8To5 (da_program D)) ADDRESS_PROGRAM_BYTES = Some (da_program D)"
    using R by (simp add: regroup_iff)
  moreover have "length address \<in> {8..90}" using a hrp lens by simp
  ultimately show ?thesis
    using R one vs poly lens hrp a unfolding DecodeAddress_iff
    by (intro exI [of _ d] exI [of _ "pay @ c"] exI [of _ "Convert8To5 (da_program D)"]) simp
qed

text \<open>
  Property C35. An address decodes to a version and a program exactly when it is, up to the
  case of the letters after the separator, the encoding of that version and program, the
  version is at most 16, the program 32 bytes, and the prefix printable, not empty and at
  most 30 characters long. So encoding and decoding invert each other, and every lock has
  one address per prefix.
\<close>

theorem address_decodes_iff:
  "DecodeAddress hrp address = Some D \<longleftrightarrow>
     hrp_ok hrp \<and> da_version D \<le> 16 \<and> length (da_program D) = ADDRESS_PROGRAM_BYTES \<and>
     lower_data hrp address = EncodeAddress hrp (da_version D) (da_program D)"
  using decoded_is_encoding encoding_decodes by blast

lemma lower_data_EncodeAddress:
  assumes "v \<le> 16" and "length p = 32"
  shows "lower_data hrp (EncodeAddress hrp v p) = EncodeAddress hrp v p"
  using payload_less [OF assms(1), of p] ComputeChecksum5_less [of "HrpExpand hrp" "v # Convert8To5 p"]
  by (simp add: EncodeAddress_alt [OF assms] lower_data_append to_lower_symbol)

lemma DecodeAddress_EncodeAddress:
  assumes "hrp_ok hrp" and "v \<le> 16" and "length p = 32"
  shows "DecodeAddress hrp (EncodeAddress hrp v p) = Some \<lparr>da_version = v, da_program = p\<rparr>"
  using assms lower_data_EncodeAddress [OF assms(2,3), of hrp]
  by (intro encoding_decodes) (simp add: ADDRESS_PROGRAM_BYTES_def)

section \<open>What the checksum detects\<close>

lemma gen_terms_zero:
  assumes "(gen_term 0 s XOR gen_term 1 s XOR gen_term 2 s XOR gen_term 3 s XOR gen_term 4 s) AND 0x1F = 0"
  shows "\<not> bit s 25 \<and> \<not> bit s 26 \<and> \<not> bit s 27 \<and> \<not> bit s 28 \<and> \<not> bit s 29"
  using assms by (simp add: gen_term_def GEN_def split: if_splits)

lemma PolyModStep_nonzero:
  assumes "s \<noteq> 0" and top: "\<And>i. 30 \<le> i \<Longrightarrow> \<not> bit s i"
  shows "PolyModStep s 0 \<noteq> 0"
proof
  assume zero: "PolyModStep s 0 = 0"
  have "push_bit 5 (s AND mask 25) AND 0x1F = 0"
  proof (rule bit_word_eqI)
    fix n
    have "\<not> bit (0x1F :: u32) n" if "5 \<le> n" using that less_mask_bits [of "0x1F :: u32" 5 n] by simp
    then show "bit (push_bit 5 (s AND mask 25) AND 0x1F) n = bit 0 n"
      by (auto simp: bit_and_iff bit_push_bit_iff not_le)
  qed
  moreover have "PolyModStep s 0 AND 0x1F = 0" by (simp add: zero)
  ultimately have "(gen_term 0 s XOR gen_term 1 s XOR gen_term 2 s XOR gen_term 3 s XOR gen_term 4 s) AND 0x1F = 0"
    by (simp add: PolyModStep_alt bit.conj_xor_distrib2)
  then have "\<not> bit s 25 \<and> \<not> bit s 26 \<and> \<not> bit s 27 \<and> \<not> bit s 28 \<and> \<not> bit s 29"
    by (rule gen_terms_zero)
  moreover have "i = 25 \<or> i = 26 \<or> i = 27 \<or> i = 28 \<or> i = 29 \<or> 30 \<le> i" if "25 \<le> i" for i :: nat
    using that by presburger
  ultimately have small: "\<not> bit s i" if "25 \<le> i" for i
    using top that by metis
  have "s = 0"
  proof (rule bit_word_eqI)
    fix n
    have "push_bit 5 s = 0" using zero PolyModStep_small [OF small] by simp
    then have "\<not> bit (push_bit 5 s) (n + 5)" by simp
    then show "bit s n = bit 0 n" using small [of n] by (auto simp: bit_push_bit_iff not_le)
  qed
  with \<open>s \<noteq> 0\<close> show False ..
qed

lemma poly_from_zeros_nonzero:
  assumes "s \<noteq> 0" and "\<And>i. 30 \<le> i \<Longrightarrow> \<not> bit s i"
  shows "poly_from s (replicate n 0) \<noteq> 0"
  using assms
proof (induction n arbitrary: s)
  case (Suc n)
  from PolyModStep_nonzero [OF Suc.prems] PolyModStep_30 [of 0 _ s] show ?case
    using Suc.IH [of "PolyModStep s 0"] by simp
qed simp

lemma poly_from_zero [simp]: "poly_from 0 (replicate n 0) = 0"
  by (induction n) simp_all

text \<open>Two strings of symbols with the same checksum: the register of their difference is empty.\<close>

lemma poly_from_diff:
  "length vs = length ws \<Longrightarrow> poly_from s vs = poly_from s ws \<longleftrightarrow> poly_from 0 (map2 (XOR) vs ws) = 0"
  using poly_from_xor [of vs ws s s] by (auto simp: xor_eq_iff [of "poly_from s vs" "poly_from s ws" 0])

lemma map2_xor_self: "map2 (XOR) vs vs = replicate (length vs) (0 :: u8)"
  by (induction vs) simp_all

lemma map2_xor_update:
  "i < length vs \<Longrightarrow> map2 (XOR) vs (vs[i := x]) =
     replicate i (0 :: u8) @ (vs ! i XOR x) # replicate (length vs - Suc i) 0"
proof (induction vs arbitrary: i)
  case (Cons v vs)
  then show ?case by (cases i) (simp_all add: map2_xor_self)
qed simp

lemma one_symbol_changes_checksum:
  assumes vs: "\<forall>v \<in> set vs. v < 32" and "i < length vs" and "x < 32" and "x \<noteq> vs ! i"
  shows "poly_from s vs \<noteq> poly_from s (vs[i := x])"
proof -
  define e where "e = vs ! i XOR x"
  have e: "e \<noteq> 0" using assms(4) xor_eq_iff [of "vs ! i" x 0] by (auto simp: e_def)
  have bits: "\<not> bit (ucast e :: u32) k" if "5 \<le> k" for k
    using that less_mask_bits [of "vs ! i" 5 k] less_mask_bits [of x 5 k] assms(2,3) vs
    by (auto simp: e_def bit_unsigned_iff bit_xor_iff)
  have "PolyModStep 0 (ucast e) = ucast e" using PolyModStep_small [of 0] by simp
  moreover have "(ucast e :: u32) \<noteq> 0" 
  proof
    assume "ucast e = (0 :: u32)"
    then have "unat (ucast e :: u32) = 0" by simp
    moreover have "take_bit 32 (unat e) = unat e"
      by (rule take_bit_nat_eq_self, rule order_less_trans [OF unat_byte_less]) simp
    ultimately show False using e by (simp add: unsigned_ucast_eq unat_eq_zero)
  qed
  ultimately have "poly_from 0 (map2 (XOR) vs (vs[i := x])) \<noteq> 0"
    using poly_from_zeros_nonzero [of "ucast e" "length vs - Suc i"] bits assms(2)
    by (simp add: map2_xor_update poly_from_append e_def [symmetric])
  then show ?thesis using poly_from_diff [of vs "vs[i := x]" s] by simp
qed

text \<open>
  Property C36. The checksum catches every single wrong character: in the data part of an
  address that decodes, replacing one character by another with a different value (or by one
  outside the alphabet, or by the separator) gives a string that does not decode.
\<close>

theorem one_wrong_character_detected:
  assumes "DecodeAddress hrp (hrp @ CHR ''1'' # d) \<noteq> None"
    and "i < length d" and "CharToValue c \<noteq> CharToValue (d ! i)"
  shows "DecodeAddress hrp (hrp @ CHR ''1'' # d[i := c]) = None"
proof (rule ccontr)
  assume "\<not> ?thesis"
  then obtain ws where ws: "data_values (d[i := c]) = Some ws" "PolyMod (HrpExpand hrp @ ws) = BECH32M_CONST"
    by (auto simp: DecodeAddress_iff)
  obtain vs where vs: "data_values d = Some vs" "PolyMod (HrpExpand hrp @ vs) = BECH32M_CONST"
    using assms(1) by (auto simp: DecodeAddress_iff)
  have char_vals: "xs = map CharToValue cs" if "data_values cs = Some xs" for cs xs
    using that by (induction cs arbitrary: xs) (auto simp: Let_def split: if_splits)
  have "ws = vs[i := CharToValue c]" and "vs ! i = CharToValue (d ! i)" and "i < length vs"
    using char_vals [OF vs(1)] char_vals [OF ws(1)] assms(2) by (simp_all add: map_update)
  moreover have "\<forall>v \<in> set vs. v < 32" "\<forall>v \<in> set ws. v < 32"
    using vs(1) ws(1) by (auto simp: data_values_iff)
  moreover have "CharToValue c \<in> set ws" using calculation by (simp add: set_update_memI)
  ultimately have "poly_from (poly_from 1 (HrpExpand hrp)) vs \<noteq> poly_from (poly_from 1 (HrpExpand hrp)) ws"
    using one_symbol_changes_checksum assms(3) by auto
  with vs(2) ws(2) show False by (simp add: PolyMod_def poly_from_append)
qed

section \<open>Addresses and locks\<close>

text \<open>The prefix expansion BIP-350 prescribes: all the high parts, a zero, all the low parts.\<close>

definition bip350_expand :: "string \<Rightarrow> byte_vec" where
  "bip350_expand hrp = map (\<lambda>c. drop_bit 5 (of_char c)) hrp @ [0] @ map (\<lambda>c. of_char c AND 0x1F) hrp"

lemma amr_expansions_differ:
  "poly_from 0 (map2 (XOR) (HrpExpand ''amr'') (bip350_expand ''amr'')) \<noteq> 0"
  "poly_from 0 (map2 (XOR) (HrpExpand ''tamr'') (bip350_expand ''tamr'')) \<noteq> 0"
  by code_simp+

lemma bip350_rejects:
  assumes "poly_from 0 (map2 (XOR) (HrpExpand hrp) (bip350_expand hrp)) \<noteq> 0"
    and "length (HrpExpand hrp) = length (bip350_expand hrp)"
    and "\<forall>v \<in> set (map2 (XOR) (HrpExpand hrp) (bip350_expand hrp)). v < 32"
    and "PolyMod (HrpExpand hrp @ vs) = BECH32M_CONST"
  shows "PolyMod (bip350_expand hrp @ vs) \<noteq> BECH32M_CONST"
proof -
  define e where "e = map2 (XOR) (HrpExpand hrp) (bip350_expand hrp)"
  have "poly_from (poly_from 0 e) (replicate (length vs) 0) \<noteq> 0"
    using assms(1,3) by (intro poly_from_zeros_nonzero) (simp_all add: e_def poly_from_30)
  moreover have "map2 (XOR) (HrpExpand hrp @ vs) (bip350_expand hrp @ vs) = e @ replicate (length vs) 0"
    using assms(2) by (simp add: e_def map2_xor_self)
  ultimately have "poly_from 1 (HrpExpand hrp @ vs) \<noteq> poly_from 1 (bip350_expand hrp @ vs)"
    using poly_from_diff [of "HrpExpand hrp @ vs" "bip350_expand hrp @ vs" 1] assms(2)
    by (simp add: poly_from_append)
  with assms(4) show ?thesis by (simp add: PolyMod_def)
qed

lemma amr_lengths:
  "length (HrpExpand ''amr'') = length (bip350_expand ''amr'')"
  "length (HrpExpand ''tamr'') = length (bip350_expand ''tamr'')"
  "list_all (\<lambda>v. v < 32) (map2 (XOR) (HrpExpand ''amr'') (bip350_expand ''amr''))"
  "list_all (\<lambda>v. v < 32) (map2 (XOR) (HrpExpand ''tamr'') (bip350_expand ''tamr''))"
  by code_simp+

text \<open>
  The addresses are not BIP-350: with the prefixes the wallet uses, no address
  the code accepts passes the checksum test of BIP-350, because the code interleaves the
  high and low parts of the prefix characters and puts the separating zero last.
\<close>

theorem addresses_are_not_bip350:
  assumes "hrp = ''amr'' \<or> hrp = ''tamr''" and "DecodeAddress hrp (hrp @ ''1'' @ d) = Some D"
    and "data_values d = Some vs"
  shows "PolyMod (bip350_expand hrp @ vs) \<noteq> BECH32M_CONST"
proof -
  have "PolyMod (HrpExpand hrp @ vs) = BECH32M_CONST"
    using assms(2,3) by (auto simp: DecodeAddress_iff)
  then show ?thesis
    using assms(1) amr_lengths amr_expansions_differ
    by (intro bip350_rejects) (auto simp: list_all_iff)
qed

text \<open>
  A lock that is a condition commitment survives the trip through its address;
  but the version an address carries is not looked at: an address of any version up to 16
  is taken for the lock of version 1 with the same program.
\<close>

theorem address_lock_roundtrip:
  assumes "hrp_ok hrp" and "v \<le> 16" and "length p = 32"
  shows "LockToAddress \<lparr>lock_version = 1, lock_program = p\<rparr> hrp = Some (EncodeAddress hrp 1 p) \<and>
    AddressToLock (EncodeAddress hrp v p) hrp = Some \<lparr>lock_version = 1, lock_program = p\<rparr>"
proof
  show "LockToAddress \<lparr>lock_version = 1, lock_program = p\<rparr> hrp = Some (EncodeAddress hrp 1 p)"
    using assms by (simp add: LockToAddress_def LOCK_VERSION_CONDITION_COMMITMENT_def
        ADDRESS_PROGRAM_BYTES_def ADDRESS_VERSION_CONDITION_def)
  have "DecodeAddress hrp (EncodeAddress hrp v p) = Some \<lparr>da_version = v, da_program = p\<rparr>"
    by (rule DecodeAddress_EncodeAddress [OF assms])
  then show "AddressToLock (EncodeAddress hrp v p) hrp = Some \<lparr>lock_version = 1, lock_program = p\<rparr>"
    by (simp add: AddressToLock_def LOCK_VERSION_CONDITION_COMMITMENT_def)
qed

section \<open>Witnesses\<close>

definition example_data :: string where
  "example_data = drop 4 (EncodeAddress ''amr'' 1 (replicate 32 0))"

lemma hrp_ok_amr: "hrp_ok ''amr''" "hrp_ok ''tamr''"
  by code_simp+

lemma example_data_alt:
  "example_data = map symbol ((1 # Convert8To5 (replicate 32 0)) @
     ComputeChecksum5 (HrpExpand ''amr'') (1 # Convert8To5 (replicate 32 0)))"
  using EncodeAddress_alt [of 1 "replicate 32 0" "''amr''"] by (simp add: example_data_def)

lemma example_address:
  "DecodeAddress ''amr'' (''amr'' @ CHR ''1'' # example_data)
     = Some \<lparr>da_version = 1, da_program = replicate 32 0\<rparr>"
proof -
  have "''amr'' @ CHR ''1'' # example_data = EncodeAddress ''amr'' 1 (replicate 32 0)"
    using EncodeAddress_alt [of 1 "replicate 32 0" "''amr''"] by (simp add: example_data_alt)
  then show ?thesis
    using DecodeAddress_EncodeAddress [OF hrp_ok_amr(1), of 1 "replicate 32 0"] by simp
qed

theorem one_wrong_character_detected_witness:
  "DecodeAddress ''amr'' (''amr'' @ CHR ''1'' # example_data[0 := CHR ''q'']) = None"
proof (rule one_wrong_character_detected)
  show "DecodeAddress ''amr'' (''amr'' @ CHR ''1'' # example_data) \<noteq> None"
    by (simp only: example_address) simp
  show "0 < length example_data" by (simp add: example_data_alt)
  have "example_data ! 0 = symbol 1" by (simp add: example_data_alt)
  moreover have "CHR ''q'' = symbol 0" by (simp add: CHARSET_def)
  ultimately show "CharToValue (CHR ''q'') \<noteq> CharToValue (example_data ! 0)"
    using CharToValue_symbol [of 0] CharToValue_symbol [of 1] by simp
qed

theorem addresses_are_not_bip350_witness:
  "\<exists>vs. data_values example_data = Some vs \<and> PolyMod (bip350_expand ''amr'' @ vs) \<noteq> BECH32M_CONST"
proof -
  have d: "DecodeAddress ''amr'' (''amr'' @ ''1'' @ example_data)
      = Some \<lparr>da_version = 1, da_program = replicate 32 0\<rparr>"
    using example_address by simp
  then obtain vs where "data_values example_data = Some vs" by (auto simp: DecodeAddress_iff)
  with addresses_are_not_bip350 [of "''amr''", OF _ d] show ?thesis by blast
qed

theorem address_lock_roundtrip_witness:
  "AddressToLock (EncodeAddress ''amr'' 7 (replicate 32 0)) ''amr''
     = Some \<lparr>lock_version = 1, lock_program = replicate 32 0\<rparr>"
  using address_lock_roundtrip [of "''amr''" 7 "replicate 32 0"] by (simp add: hrp_ok_amr)

end
