(* ===== verification/Mnemonic.thy ===== *)
theory Mnemonic
  imports Bits Crypto
begin

text \<open>
  The recovery phrase (\<^verbatim>\<open>src/wallet/backup.cpp\<close>): the word list as the file has it, the
  search in it, \<^verbatim>\<open>GenerateMnemonic\<close> and \<^verbatim>\<open>SeedFromMnemonic\<close>. The list has 2047 words for
  2048 word numbers, so word number 2047 is written with the word of number 0; the theorem
  says exactly which seeds come back from their phrase. The 33 bytes of a seed and its
  checksum are read as one string of 264 bits (theory \<open>Bits\<close>).
\<close>

section \<open>The word list\<close>

definition BIP39_WORDS_1 :: "string list" where
  "BIP39_WORDS_1 = [
     ''abandon'', ''ability'', ''able'', ''about'', ''above'', ''absent'',
     ''absorb'', ''abstract'', ''absurd'', ''abuse'', ''access'', ''accident'',
     ''account'', ''accuse'', ''achieve'', ''acid'', ''acoustic'', ''acquire'',
     ''across'', ''act'', ''action'', ''actor'', ''actual'', ''adapt'',
     ''add'', ''address'', ''adjust'', ''admit'', ''adult'', ''advance'',
     ''advice'', ''aerobic'', ''affair'', ''afford'', ''afraid'', ''again'',
     ''age'', ''agent'', ''agree'', ''ahead'', ''aim'', ''air'',
     ''airport'', ''aisle'', ''alarm'', ''album'', ''alcohol'', ''alert'',
     ''alien'', ''all'', ''alley'', ''allow'', ''almost'', ''alone'',
     ''alpha'', ''already'', ''also'', ''alter'', ''always'', ''amateur'',
     ''amazing'', ''among'', ''amount'', ''amused'', ''analyst'', ''anchor'',
     ''ancient'', ''anger'', ''angle'', ''angry'', ''animal'', ''ankle'',
     ''announce'', ''annual'', ''another'', ''answer'', ''antenna'', ''antique'',
     ''anxiety'', ''any'', ''apart'', ''apology'', ''appear'', ''apple'',
     ''approve'', ''april'', ''arch'', ''arctic'', ''area'', ''arena'',
     ''argue'', ''arm'', ''armed'', ''armor'', ''army'', ''around'',
     ''arrange'', ''arrest'', ''arrive'', ''arrow'', ''art'', ''artefact'',
     ''artist'', ''artwork'', ''ask'', ''aspect'', ''assault'', ''asset'',
     ''assist'', ''assume'', ''asthma'', ''athlete'', ''atom'', ''attack'',
     ''attend'', ''attitude'', ''attract'', ''auction'', ''audit'', ''august'',
     ''aunt'', ''author'', ''auto'', ''autumn'', ''average'', ''avocado'',
     ''avoid'', ''awake'', ''aware'', ''away'', ''awesome'', ''awful'',
     ''awkward'', ''axis'', ''baby'', ''bachelor'', ''bacon'', ''badge'',
     ''bag'', ''balance'', ''balcony'', ''ball'', ''bamboo'', ''banana'',
     ''banner'', ''bar'', ''barely'', ''bargain'', ''barrel'', ''base'',
     ''basic'', ''basket'', ''battle'', ''beach'', ''bean'', ''beauty'',
     ''because'', ''become'', ''beef'', ''before'', ''begin'', ''behave'',
     ''behind'', ''believe'', ''below'', ''belt'', ''bench'', ''benefit'',
     ''best'', ''betray'', ''better'', ''between'', ''beyond'', ''bicycle'',
     ''bid'', ''bike'', ''bind'', ''biology'', ''bird'', ''birth'',
     ''bitter'', ''black'', ''blade'', ''blame'', ''blanket'', ''blast'',
     ''bleak'', ''bless'', ''blind'', ''blood'', ''blossom'', ''blouse'',
     ''blue'', ''blur'', ''blush'', ''board'', ''boat'', ''body'',
     ''boil'', ''bomb'', ''bone'', ''bonus'', ''book'', ''boost'',
     ''border'', ''boring'', ''borrow'', ''boss'', ''bottom'', ''bounce'',
     ''box'', ''boy'', ''bracket'', ''brain'', ''brand'', ''brass'',
     ''brave'', ''bread'', ''breeze'', ''brick'', ''bridge'', ''brief'',
     ''bright'', ''bring'', ''brisk'', ''broccoli'', ''broken'', ''bronze'',
     ''broom'', ''brother'', ''brown'', ''brush'', ''bubble'', ''buddy'',
     ''budget'', ''buffalo'', ''build'', ''bulb'', ''bulk'', ''bullet'',
     ''bundle'', ''bunker'', ''burden'', ''burger'', ''burst'', ''bus'',
     ''business'', ''busy'', ''butter'', ''buyer'', ''buzz'', ''cabbage'',
     ''cabin'', ''cable'', ''cactus'', ''cage'', ''cake'', ''call'',
     ''calm'', ''camera'', ''camp'', ''can'', ''canal'', ''cancel'',
     ''candy'', ''cannon'', ''canoe'', ''canvas'', ''canyon'', ''capable'',
     ''capital'', ''captain'', ''car'', ''carbon'', ''card'', ''cargo'',
     ''carpet'', ''carry'', ''cart'', ''case'', ''cash'', ''casino'',
     ''castle'', ''casual'', ''cat'', ''catalog'', ''catch'', ''category'',
     ''cattle'', ''caught'', ''cause'', ''caution'', ''cave'', ''ceiling'',
     ''celery'', ''cement'', ''census'', ''century'', ''cereal'', ''certain'',
     ''chair'', ''chalk'', ''champion'', ''change'', ''chaos'', ''chapter'',
     ''charge'', ''chase'', ''chat'', ''cheap'', ''check'', ''cheese'',
     ''chef'', ''cherry'', ''chest'', ''chicken'', ''chief'', ''child'',
     ''chimney'', ''choice'', ''choose'', ''chronic'', ''chuckle'', ''chunk'',
     ''churn'', ''cigar'', ''cinnamon'', ''circle'', ''citizen'', ''city'',
     ''civil'', ''claim'', ''clap'', ''clarify'', ''claw'', ''clay'',
     ''clean'', ''clerk'', ''clever'', ''click'', ''client'', ''cliff'',
     ''climb'', ''clinic'', ''clip'', ''clock'', ''clog'', ''close'',
     ''cloth'', ''cloud'', ''clown'', ''club'', ''clump'', ''cluster'',
     ''clutch'', ''coach'', ''coast'', ''coconut'', ''code'', ''coffee'',
     ''coil'', ''coin'', ''collect'', ''color'', ''column'', ''combine'',
     ''come'', ''comfort'', ''comic'', ''common'', ''company'', ''concert'',
     ''conduct'', ''confirm'', ''congress'', ''connect'', ''consider'', ''control'',
     ''convince'', ''cook'', ''cool'', ''copper'', ''copy'', ''coral'',
     ''core'', ''corn'', ''correct'', ''cost'', ''cotton'', ''couch'',
     ''country'', ''couple'', ''course'', ''cousin'', ''cover'', ''coyote'',
     ''crack'', ''cradle'', ''craft'', ''cram'', ''crane'', ''crash'',
     ''crater'', ''crawl'', ''crazy'', ''cream'', ''credit'', ''creek'',
     ''crew'', ''cricket'', ''crime'', ''crisp'', ''critic'', ''crop'',
     ''cross'', ''crouch'', ''crowd'', ''crucial'', ''cruel'', ''cruise'',
     ''crumble'', ''crunch'', ''crush'', ''cry'', ''crystal'', ''cube'',
     ''culture'', ''cup'', ''cupboard'', ''curious'', ''current'', ''curtain'',
     ''curve'', ''cushion'', ''custom'', ''cute'', ''cycle'', ''dad'',
     ''damage'', ''damp'', ''dance'', ''danger'', ''daring'', ''dark'',
     ''dash'', ''daughter'', ''dawn'', ''day'', ''deal'', ''debate'',
     ''debris'', ''decade'', ''december'', ''decide'', ''decline'', ''decorate'',
     ''decrease'', ''deer'', ''defense'', ''define'', ''defy'', ''degree'',
     ''delay'', ''deliver'', ''demand'', ''demise'', ''denial'', ''dentist'',
     ''deny'', ''depart'', ''depend'', ''deposit'', ''depth'', ''deputy'',
     ''derive'', ''describe'', ''desert'', ''design'', ''desk'', ''despair'',
     ''destroy'', ''detail'', ''detect'', ''develop'', ''device'', ''devote'',
     ''diagram'', ''dial'', ''diamond'', ''diary'', ''dice'', ''diesel'',
     ''diet'', ''differ'', ''digital'', ''dignity'', ''dilemma'', ''dinner'',
     ''dinosaur'', ''direct'', ''dirt'', ''disagree'', ''discover'', ''disease'',
     ''dish'', ''dismiss'', ''disorder'', ''display'', ''distance'', ''divert'',
     ''divide'', ''divorce'', ''dizzy'', ''doctor'', ''document'', ''dog'']"

definition BIP39_WORDS_2 :: "string list" where
  "BIP39_WORDS_2 = [
     ''doll'', ''dolphin'', ''domain'', ''donate'', ''donkey'', ''donor'',
     ''door'', ''dose'', ''double'', ''dove'', ''draft'', ''dragon'',
     ''drama'', ''drastic'', ''draw'', ''dream'', ''dress'', ''drift'',
     ''drill'', ''drink'', ''drip'', ''drive'', ''drop'', ''drum'',
     ''dry'', ''duck'', ''dumb'', ''dune'', ''during'', ''dust'',
     ''dutch'', ''duty'', ''dwarf'', ''dynamic'', ''eager'', ''eagle'',
     ''early'', ''earn'', ''earth'', ''easily'', ''east'', ''easy'',
     ''echo'', ''ecology'', ''economy'', ''edge'', ''edit'', ''educate'',
     ''effort'', ''egg'', ''eight'', ''either'', ''elbow'', ''elder'',
     ''electric'', ''elegant'', ''element'', ''elephant'', ''elevator'', ''elite'',
     ''else'', ''embark'', ''embody'', ''embrace'', ''emerge'', ''emotion'',
     ''employ'', ''empower'', ''empty'', ''enable'', ''enact'', ''end'',
     ''endless'', ''endorse'', ''enemy'', ''energy'', ''enforce'', ''engage'',
     ''engine'', ''enhance'', ''enjoy'', ''enlist'', ''enough'', ''enrich'',
     ''enroll'', ''ensure'', ''enter'', ''entire'', ''entry'', ''envelope'',
     ''episode'', ''equal'', ''equip'', ''era'', ''erase'', ''erode'',
     ''erosion'', ''error'', ''erupt'', ''escape'', ''essay'', ''essence'',
     ''estate'', ''eternal'', ''ethics'', ''evidence'', ''evil'', ''evoke'',
     ''evolve'', ''exact'', ''example'', ''excess'', ''exchange'', ''excite'',
     ''exclude'', ''excuse'', ''execute'', ''exercise'', ''exhaust'', ''exhibit'',
     ''exile'', ''exist'', ''exit'', ''exotic'', ''expand'', ''expect'',
     ''expire'', ''explain'', ''expose'', ''express'', ''extend'', ''extra'',
     ''eye'', ''eyebrow'', ''fabric'', ''face'', ''faculty'', ''fade'',
     ''faint'', ''faith'', ''fall'', ''false'', ''fame'', ''family'',
     ''famous'', ''fan'', ''fancy'', ''fantasy'', ''farm'', ''fashion'',
     ''fat'', ''fatal'', ''father'', ''fatigue'', ''fault'', ''favorite'',
     ''feature'', ''february'', ''federal'', ''fee'', ''feed'', ''feel'',
     ''female'', ''fence'', ''festival'', ''fetch'', ''fever'', ''few'',
     ''fiber'', ''fiction'', ''field'', ''figure'', ''file'', ''film'',
     ''filter'', ''final'', ''find'', ''fine'', ''finger'', ''finish'',
     ''fire'', ''firm'', ''first'', ''fiscal'', ''fish'', ''fit'',
     ''fitness'', ''fix'', ''flag'', ''flame'', ''flash'', ''flat'',
     ''flavor'', ''flee'', ''flight'', ''flip'', ''float'', ''flock'',
     ''floor'', ''flower'', ''fluid'', ''flush'', ''fly'', ''foam'',
     ''focus'', ''fog'', ''foil'', ''fold'', ''follow'', ''food'',
     ''foot'', ''force'', ''foreign'', ''forest'', ''forget'', ''fork'',
     ''fortune'', ''forum'', ''forward'', ''fossil'', ''foster'', ''found'',
     ''fox'', ''fragile'', ''frame'', ''frequent'', ''fresh'', ''friend'',
     ''fringe'', ''frog'', ''front'', ''frost'', ''frown'', ''frozen'',
     ''fruit'', ''fuel'', ''fun'', ''funny'', ''furnace'', ''fury'',
     ''future'', ''gadget'', ''gain'', ''galaxy'', ''gallery'', ''game'',
     ''gap'', ''garage'', ''garbage'', ''garden'', ''garlic'', ''garment'',
     ''gas'', ''gasp'', ''gate'', ''gather'', ''gauge'', ''gaze'',
     ''general'', ''genius'', ''genre'', ''gentle'', ''genuine'', ''gesture'',
     ''ghost'', ''giant'', ''gift'', ''giggle'', ''ginger'', ''giraffe'',
     ''girl'', ''give'', ''glad'', ''glance'', ''glare'', ''glass'',
     ''glide'', ''glimpse'', ''globe'', ''gloom'', ''glory'', ''glove'',
     ''glow'', ''glue'', ''goat'', ''goddess'', ''gold'', ''good'',
     ''goose'', ''gorilla'', ''gospel'', ''gossip'', ''govern'', ''gown'',
     ''grab'', ''grace'', ''grain'', ''grant'', ''grape'', ''grass'',
     ''gravity'', ''great'', ''green'', ''grid'', ''grief'', ''grit'',
     ''grocery'', ''group'', ''grow'', ''grunt'', ''guard'', ''guess'',
     ''guide'', ''guilt'', ''guitar'', ''gun'', ''gym'', ''habit'',
     ''hair'', ''half'', ''hammer'', ''hamster'', ''hand'', ''happy'',
     ''harbor'', ''hard'', ''harsh'', ''harvest'', ''hat'', ''have'',
     ''hawk'', ''hazard'', ''head'', ''health'', ''heart'', ''heavy'',
     ''hedgehog'', ''height'', ''hello'', ''helmet'', ''help'', ''hen'',
     ''hero'', ''hidden'', ''high'', ''hill'', ''hint'', ''hip'',
     ''hire'', ''history'', ''hobby'', ''hockey'', ''hold'', ''hole'',
     ''holiday'', ''hollow'', ''home'', ''honey'', ''hood'', ''hope'',
     ''horn'', ''horror'', ''horse'', ''hospital'', ''host'', ''hotel'',
     ''hour'', ''hover'', ''hub'', ''huge'', ''human'', ''humble'',
     ''humor'', ''hundred'', ''hungry'', ''hunt'', ''hurdle'', ''hurry'',
     ''hurt'', ''husband'', ''hybrid'', ''ice'', ''icon'', ''idea'',
     ''identify'', ''idle'', ''ignore'', ''ill'', ''illegal'', ''illness'',
     ''image'', ''imitate'', ''immense'', ''immune'', ''impact'', ''impose'',
     ''improve'', ''impulse'', ''inch'', ''include'', ''income'', ''increase'',
     ''index'', ''indicate'', ''indoor'', ''industry'', ''infant'', ''inflict'',
     ''inform'', ''inhale'', ''inherit'', ''initial'', ''inject'', ''injury'',
     ''inmate'', ''inner'', ''innocent'', ''input'', ''inquiry'', ''insane'',
     ''insect'', ''inside'', ''inspire'', ''install'', ''intact'', ''interest'',
     ''into'', ''invest'', ''invite'', ''involve'', ''iron'', ''island'',
     ''isolate'', ''issue'', ''item'', ''ivory'', ''jacket'', ''jaguar'',
     ''jar'', ''jazz'', ''jealous'', ''jeans'', ''jelly'', ''jewel'',
     ''job'', ''join'', ''joke'', ''journey'', ''joy'', ''judge'',
     ''juice'', ''jump'', ''jungle'', ''junior'', ''junk'', ''just'',
     ''kangaroo'', ''keen'', ''keep'', ''ketchup'', ''key'', ''kick'',
     ''kid'', ''kidney'', ''kind'', ''kingdom'', ''kiss'', ''kit'',
     ''kitchen'', ''kite'', ''kitten'', ''kiwi'', ''knee'', ''knife'',
     ''knock'', ''know'', ''lab'', ''label'', ''labor'', ''ladder'',
     ''lady'', ''lake'', ''lamp'', ''language'', ''laptop'', ''large'',
     ''later'', ''latin'', ''laugh'', ''laundry'', ''lava'', ''law'',
     ''lawn'', ''lawsuit'', ''layer'', ''lazy'', ''leader'', ''leaf'',
     ''learn'', ''leave'', ''lecture'', ''left'', ''leg'', ''legal'',
     ''legend'', ''leisure'', ''lemon'', ''lend'', ''length'', ''lens'',
     ''leopard'', ''lesson'', ''letter'', ''level'', ''liar'', ''liberty'']"

definition BIP39_WORDS_3 :: "string list" where
  "BIP39_WORDS_3 = [
     ''library'', ''license'', ''life'', ''lift'', ''light'', ''like'',
     ''limb'', ''limit'', ''link'', ''lion'', ''liquid'', ''list'',
     ''little'', ''live'', ''lizard'', ''load'', ''loan'', ''lobster'',
     ''local'', ''lock'', ''logic'', ''lonely'', ''long'', ''loop'',
     ''lottery'', ''loud'', ''lounge'', ''love'', ''loyal'', ''lucky'',
     ''luggage'', ''lumber'', ''lunar'', ''lunch'', ''luxury'', ''lyrics'',
     ''machine'', ''mad'', ''magic'', ''magnet'', ''maid'', ''mail'',
     ''main'', ''major'', ''make'', ''mammal'', ''man'', ''manage'',
     ''mandate'', ''mango'', ''mansion'', ''manual'', ''maple'', ''marble'',
     ''march'', ''margin'', ''marine'', ''market'', ''marriage'', ''mask'',
     ''mass'', ''master'', ''match'', ''material'', ''math'', ''matrix'',
     ''matter'', ''maximum'', ''maze'', ''meadow'', ''mean'', ''measure'',
     ''meat'', ''mechanic'', ''medal'', ''media'', ''melody'', ''melt'',
     ''member'', ''memory'', ''mention'', ''menu'', ''mercy'', ''merge'',
     ''merit'', ''merry'', ''mesh'', ''message'', ''metal'', ''method'',
     ''middle'', ''midnight'', ''milk'', ''million'', ''mimic'', ''mind'',
     ''minimum'', ''minor'', ''minute'', ''miracle'', ''mirror'', ''misery'',
     ''miss'', ''mistake'', ''mix'', ''mixed'', ''mixture'', ''mobile'',
     ''model'', ''modify'', ''mom'', ''moment'', ''monitor'', ''monkey'',
     ''monster'', ''month'', ''moon'', ''moral'', ''more'', ''morning'',
     ''mosquito'', ''mother'', ''motion'', ''motor'', ''mountain'', ''mouse'',
     ''move'', ''movie'', ''much'', ''muffin'', ''mule'', ''multiply'',
     ''muscle'', ''museum'', ''mushroom'', ''music'', ''must'', ''mutual'',
     ''myself'', ''mystery'', ''myth'', ''naive'', ''name'', ''napkin'',
     ''narrow'', ''nasty'', ''nation'', ''nature'', ''near'', ''neck'',
     ''need'', ''negative'', ''neglect'', ''neither'', ''nephew'', ''nerve'',
     ''nest'', ''net'', ''network'', ''neutral'', ''never'', ''news'',
     ''next'', ''nice'', ''night'', ''noble'', ''noise'', ''nominee'',
     ''noodle'', ''normal'', ''north'', ''nose'', ''notable'', ''note'',
     ''nothing'', ''notice'', ''novel'', ''now'', ''nuclear'', ''number'',
     ''nurse'', ''nut'', ''oak'', ''obey'', ''object'', ''oblige'',
     ''obscure'', ''observe'', ''obtain'', ''obvious'', ''occur'', ''ocean'',
     ''october'', ''odor'', ''off'', ''offend'', ''office'', ''often'',
     ''oil'', ''okay'', ''old'', ''olive'', ''olympic'', ''omit'',
     ''once'', ''one'', ''onion'', ''online'', ''only'', ''open'',
     ''opera'', ''opinion'', ''oppose'', ''option'', ''orange'', ''orbit'',
     ''orchard'', ''order'', ''ordinary'', ''organ'', ''orient'', ''original'',
     ''orphan'', ''ostrich'', ''other'', ''outdoor'', ''outer'', ''output'',
     ''outside'', ''oval'', ''oven'', ''over'', ''own'', ''owner'',
     ''oxygen'', ''oyster'', ''ozone'', ''pact'', ''paddle'', ''page'',
     ''pair'', ''palace'', ''palm'', ''panda'', ''panel'', ''panic'',
     ''panther'', ''paper'', ''parade'', ''parent'', ''park'', ''parrot'',
     ''party'', ''pass'', ''patch'', ''path'', ''patient'', ''patrol'',
     ''pattern'', ''pause'', ''pave'', ''payment'', ''peace'', ''peanut'',
     ''pear'', ''peasant'', ''pelican'', ''pen'', ''penalty'', ''pencil'',
     ''people'', ''pepper'', ''perfect'', ''permit'', ''person'', ''pet'',
     ''phone'', ''photo'', ''phrase'', ''physical'', ''piano'', ''picnic'',
     ''picture'', ''piece'', ''pig'', ''pigeon'', ''pill'', ''pilot'',
     ''pink'', ''pioneer'', ''pipe'', ''pistol'', ''pitch'', ''pizza'',
     ''place'', ''planet'', ''plastic'', ''plate'', ''play'', ''please'',
     ''pledge'', ''pluck'', ''plug'', ''plunge'', ''poem'', ''poet'',
     ''point'', ''polar'', ''pole'', ''police'', ''pond'', ''pony'',
     ''pool'', ''popular'', ''portion'', ''position'', ''possible'', ''post'',
     ''potato'', ''pottery'', ''poverty'', ''powder'', ''power'', ''practice'',
     ''praise'', ''predict'', ''prefer'', ''prepare'', ''present'', ''pretty'',
     ''prevent'', ''price'', ''pride'', ''primary'', ''print'', ''priority'',
     ''prison'', ''private'', ''prize'', ''problem'', ''process'', ''produce'',
     ''profit'', ''program'', ''project'', ''promote'', ''proof'', ''property'',
     ''prosper'', ''protect'', ''proud'', ''provide'', ''public'', ''pudding'',
     ''pull'', ''pulp'', ''pulse'', ''pumpkin'', ''punch'', ''pupil'',
     ''puppy'', ''purchase'', ''purity'', ''purpose'', ''purse'', ''push'',
     ''put'', ''puzzle'', ''pyramid'', ''quality'', ''quantum'', ''quarter'',
     ''question'', ''quick'', ''quit'', ''quiz'', ''quote'', ''rabbit'',
     ''raccoon'', ''race'', ''rack'', ''radar'', ''radio'', ''rail'',
     ''rain'', ''raise'', ''rally'', ''ramp'', ''ranch'', ''random'',
     ''range'', ''rapid'', ''rare'', ''rate'', ''rather'', ''raven'',
     ''raw'', ''razor'', ''ready'', ''real'', ''reason'', ''rebel'',
     ''rebuild'', ''recall'', ''receive'', ''recipe'', ''record'', ''recycle'',
     ''reduce'', ''reflect'', ''reform'', ''refuse'', ''region'', ''regret'',
     ''regular'', ''reject'', ''relax'', ''release'', ''relief'', ''rely'',
     ''remain'', ''remember'', ''remind'', ''remove'', ''render'', ''renew'',
     ''rent'', ''reopen'', ''repair'', ''repeat'', ''replace'', ''report'',
     ''require'', ''rescue'', ''resemble'', ''resist'', ''resource'', ''response'',
     ''result'', ''retire'', ''retreat'', ''return'', ''reunion'', ''reveal'',
     ''review'', ''reward'', ''rhythm'', ''rib'', ''ribbon'', ''rice'',
     ''rich'', ''ride'', ''ridge'', ''rifle'', ''right'', ''rigid'',
     ''ring'', ''riot'', ''ripple'', ''risk'', ''ritual'', ''rival'',
     ''river'', ''road'', ''roast'', ''robot'', ''robust'', ''rocket'',
     ''romance'', ''roof'', ''rookie'', ''room'', ''rose'', ''rotate'',
     ''rough'', ''round'', ''route'', ''royal'', ''rubber'', ''rude'',
     ''rug'', ''rule'', ''run'', ''runway'', ''rural'', ''sad'',
     ''saddle'', ''sadness'', ''safe'', ''sail'', ''salad'', ''salmon'',
     ''salon'', ''salt'', ''salute'', ''same'', ''sample'', ''sand'',
     ''satisfy'', ''satoshi'', ''sauce'', ''sausage'', ''save'', ''say'',
     ''scale'', ''scan'', ''scare'', ''scatter'', ''scene'', ''scheme'',
     ''school'', ''science'', ''scissors'', ''scorpion'', ''scout'', ''scrap'']"

definition BIP39_WORDS_4 :: "string list" where
  "BIP39_WORDS_4 = [
     ''screen'', ''script'', ''scrub'', ''sea'', ''search'', ''season'',
     ''seat'', ''second'', ''secret'', ''section'', ''security'', ''seed'',
     ''seek'', ''segment'', ''select'', ''sell'', ''seminar'', ''senior'',
     ''sense'', ''sentence'', ''series'', ''service'', ''session'', ''settle'',
     ''setup'', ''seven'', ''shadow'', ''shaft'', ''shallow'', ''share'',
     ''shed'', ''shell'', ''sheriff'', ''shield'', ''shift'', ''shine'',
     ''ship'', ''shiver'', ''shock'', ''shoe'', ''shoot'', ''shop'',
     ''short'', ''shoulder'', ''shove'', ''shrimp'', ''shrug'', ''shuffle'',
     ''shy'', ''sibling'', ''sick'', ''side'', ''siege'', ''sight'',
     ''sign'', ''silent'', ''silk'', ''silly'', ''silver'', ''similar'',
     ''simple'', ''since'', ''sing'', ''siren'', ''sister'', ''situate'',
     ''six'', ''size'', ''skate'', ''sketch'', ''ski'', ''skill'',
     ''skin'', ''skirt'', ''skull'', ''slab'', ''slam'', ''sleep'',
     ''slender'', ''slice'', ''slide'', ''slight'', ''slim'', ''slogan'',
     ''slot'', ''slow'', ''slush'', ''small'', ''smart'', ''smile'',
     ''smoke'', ''smooth'', ''snack'', ''snake'', ''snap'', ''sniff'',
     ''snow'', ''soap'', ''soccer'', ''social'', ''sock'', ''soda'',
     ''soft'', ''solar'', ''soldier'', ''solid'', ''solution'', ''solve'',
     ''someone'', ''song'', ''soon'', ''sor'' @ ''ry'', ''sort'', ''soul'',
     ''sound'', ''soup'', ''source'', ''south'', ''space'', ''spare'',
     ''spatial'', ''spawn'', ''speak'', ''special'', ''speed'', ''spell'',
     ''spend'', ''sphere'', ''spice'', ''spider'', ''spike'', ''spin'',
     ''spirit'', ''split'', ''spoil'', ''sponsor'', ''spoon'', ''sport'',
     ''spot'', ''spray'', ''spread'', ''spring'', ''spy'', ''square'',
     ''squeeze'', ''squirrel'', ''stable'', ''stadium'', ''staff'', ''stage'',
     ''stairs'', ''stamp'', ''stand'', ''start'', ''state'', ''stay'',
     ''steak'', ''steel'', ''step'', ''stereo'', ''stick'', ''still'',
     ''sting'', ''stock'', ''stomach'', ''stone'', ''stool'', ''story'',
     ''stove'', ''strategy'', ''street'', ''strike'', ''strong'', ''struggle'',
     ''student'', ''stuff'', ''stumble'', ''style'', ''subject'', ''submit'',
     ''subway'', ''success'', ''such'', ''sudden'', ''suffer'', ''sugar'',
     ''suggest'', ''suit'', ''sun'', ''sunny'', ''sunset'', ''super'',
     ''supply'', ''support'', ''suppose'', ''sure'', ''surface'', ''surge'',
     ''surprise'', ''surround'', ''survey'', ''suspect'', ''sustain'', ''swallow'',
     ''swamp'', ''swap'', ''swarm'', ''swear'', ''sweet'', ''swift'',
     ''swim'', ''swing'', ''switch'', ''sword'', ''symbol'', ''symptom'',
     ''syrup'', ''system'', ''table'', ''tackle'', ''tag'', ''tail'',
     ''talent'', ''talk'', ''tank'', ''tape'', ''target'', ''task'',
     ''taste'', ''tattoo'', ''taxi'', ''teach'', ''team'', ''tell'',
     ''ten'', ''tenant'', ''tennis'', ''tent'', ''term'', ''test'',
     ''text'', ''thank'', ''that'', ''theme'', ''then'', ''theory'',
     ''there'', ''they'', ''thing'', ''this'', ''thought'', ''three'',
     ''thrive'', ''throw'', ''thumb'', ''thunder'', ''ticket'', ''tide'',
     ''tiger'', ''tilt'', ''timber'', ''time'', ''tiny'', ''tip'',
     ''tired'', ''tissue'', ''title'', ''toast'', ''tobacco'', ''today'',
     ''toddler'', ''toe'', ''together'', ''toilet'', ''token'', ''tomato'',
     ''tomorrow'', ''tone'', ''tongue'', ''tonight'', ''tool'', ''tooth'',
     ''top'', ''topic'', ''topple'', ''torch'', ''tornado'', ''tortoise'',
     ''toss'', ''total'', ''tourist'', ''toward'', ''tower'', ''town'',
     ''toy'', ''track'', ''trade'', ''traffic'', ''tragic'', ''train'',
     ''transfer'', ''trap'', ''trash'', ''travel'', ''tray'', ''treat'',
     ''tree'', ''trend'', ''trial'', ''tribe'', ''trick'', ''trigger'',
     ''trim'', ''trip'', ''trophy'', ''trouble'', ''truck'', ''true'',
     ''truly'', ''trumpet'', ''trust'', ''truth'', ''try'', ''tube'',
     ''tuition'', ''tumble'', ''tuna'', ''tunnel'', ''turkey'', ''turn'',
     ''turtle'', ''twelve'', ''twenty'', ''twice'', ''twin'', ''twist'',
     ''two'', ''type'', ''typical'', ''ugly'', ''umbrella'', ''unable'',
     ''unaware'', ''uncle'', ''uncover'', ''under'', ''undo'', ''unfair'',
     ''unfold'', ''unhappy'', ''uniform'', ''unique'', ''unit'', ''universe'',
     ''unknown'', ''unlock'', ''until'', ''unusual'', ''unveil'', ''update'',
     ''upgrade'', ''uphold'', ''upon'', ''upper'', ''upset'', ''urban'',
     ''urge'', ''usage'', ''use'', ''used'', ''useful'', ''useless'',
     ''usual'', ''utility'', ''vacant'', ''vacuum'', ''vague'', ''valid'',
     ''valley'', ''valve'', ''van'', ''vanish'', ''vapor'', ''various'',
     ''vast'', ''vault'', ''vehicle'', ''velvet'', ''vendor'', ''venture'',
     ''venue'', ''verb'', ''verify'', ''version'', ''very'', ''vessel'',
     ''veteran'', ''viable'', ''vibrant'', ''vicious'', ''victory'', ''video'',
     ''view'', ''village'', ''vintage'', ''violin'', ''virtual'', ''virus'',
     ''visa'', ''visit'', ''visual'', ''vital'', ''vivid'', ''vocal'',
     ''voice'', ''void'', ''volcano'', ''volume'', ''vote'', ''voyage'',
     ''wage'', ''wagon'', ''wait'', ''walk'', ''wall'', ''walnut'',
     ''want'', ''warfare'', ''warm'', ''warrior'', ''wash'', ''wasp'',
     ''waste'', ''water'', ''wave'', ''way'', ''wealth'', ''weapon'',
     ''wear'', ''weasel'', ''weather'', ''web'', ''wedding'', ''weekend'',
     ''weird'', ''welcome'', ''west'', ''wet'', ''whale'', ''what'',
     ''wheat'', ''wheel'', ''when'', ''where'', ''whip'', ''whisper'',
     ''wide'', ''width'', ''wife'', ''wild'', ''will'', ''win'',
     ''window'', ''wine'', ''wing'', ''wink'', ''winner'', ''winter'',
     ''wire'', ''wisdom'', ''wise'', ''wish'', ''witness'', ''wolf'',
     ''woman'', ''wonder'', ''wood'', ''wool'', ''word'', ''work'',
     ''world'', ''worry'', ''worth'', ''wrap'', ''wreck'', ''wrestle'',
     ''wrist'', ''write'', ''wrong'', ''yard'', ''year'', ''yellow'',
     ''you'', ''young'', ''youth'', ''zebra'', ''zero'', ''zone'',
     ''zoo'']"

definition BIP39_WORDS :: "string list" where
  "BIP39_WORDS = BIP39_WORDS_1 @ BIP39_WORDS_2 @ BIP39_WORDS_3 @ BIP39_WORDS_4"

definition BIP39_WORD_COUNT :: nat where "BIP39_WORD_COUNT = length BIP39_WORDS"
definition BIP39_WORDLIST_SIZE :: nat where "BIP39_WORDLIST_SIZE = 2048"
definition MNEMONIC_WORD_COUNT :: nat where "MNEMONIC_WORD_COUNT = 24"
definition SEED_BYTES :: nat where "SEED_BYTES = 32"

fun FindBip39Word_loop :: "nat \<Rightarrow> string list \<Rightarrow> string \<Rightarrow> int" where
  "FindBip39Word_loop i [] word = - 1"
| "FindBip39Word_loop i (w # ws) word = (if w = word then int i else FindBip39Word_loop (Suc i) ws word)"

definition FindBip39Word :: "string \<Rightarrow> int" where
  "FindBip39Word word = FindBip39Word_loop 0 BIP39_WORDS word"

definition Bip39Word :: "nat \<Rightarrow> string" where
  "Bip39Word index =
     (if index \<ge> BIP39_WORDLIST_SIZE then [] else BIP39_WORDS ! (index mod BIP39_WORD_COUNT))"

section \<open>Phrases\<close>

type_synonym master_seed = arr32

text \<open>The seed and the first byte of its hash, and the number read from eleven of its bits.\<close>

definition mnemonic_bytes :: "crypto_ext \<Rightarrow> master_seed \<Rightarrow> byte_vec" where
  "mnemonic_bytes E seed = arr_list seed @ [Hash256_Span (Sha256 E (arr_list seed)) ! 0]"

definition word_idx :: "byte_vec \<Rightarrow> nat \<Rightarrow> u32" where
  "word_idx bits bit_offset =
     fold (\<lambda>b acc.
         let offset = bit_offset + b;
             bit_value = drop_bit (7 - offset mod 8) (ucast (bits ! (offset div 8))) AND 1
         in push_bit 1 acc OR bit_value) [0..<11] 0"

definition GenerateMnemonic :: "crypto_ext \<Rightarrow> master_seed \<Rightarrow> string list" where
  "GenerateMnemonic E seed =
     map (\<lambda>i. Bip39Word (unat (word_idx (mnemonic_bytes E seed) (i * 11)))) [0..<MNEMONIC_WORD_COUNT]"

text \<open>The inner loop of \<^verbatim>\<open>SeedFromMnemonic\<close>: the bits of one word number are or-ed in.\<close>

definition set_word_bit :: "nat \<Rightarrow> u32 \<Rightarrow> nat \<Rightarrow> byte_vec \<Rightarrow> byte_vec" where
  "set_word_bit bit_offset idx b bits =
     (let offset = bit_offset + b
      in if idx AND push_bit (10 - b) 1 \<noteq> 0
         then bits[offset div 8 := bits ! (offset div 8) OR ucast (push_bit (7 - offset mod 8) (1 :: u32))]
         else bits)"

definition set_word :: "nat \<Rightarrow> u32 \<Rightarrow> byte_vec \<Rightarrow> byte_vec" where
  "set_word bit_offset idx bits = fold (set_word_bit bit_offset idx) [0..<11] bits"

fun SeedFromMnemonic_loop :: "nat \<Rightarrow> string list \<Rightarrow> byte_vec \<Rightarrow> byte_vec option" where
  "SeedFromMnemonic_loop i [] bits = Some bits"
| "SeedFromMnemonic_loop i (word # words) bits =
     (let idx = FindBip39Word word
      in if idx < 0 then None
         else SeedFromMnemonic_loop (Suc i) words (set_word (i * 11) (word_of_int idx) bits))"

definition SeedFromMnemonic :: "crypto_ext \<Rightarrow> string list \<Rightarrow> master_seed option" where
  "SeedFromMnemonic E words =
     (if length words \<noteq> MNEMONIC_WORD_COUNT then None
      else case SeedFromMnemonic_loop 0 words (replicate 33 0) of
          None \<Rightarrow> None
        | Some bits \<Rightarrow>
            if Hash256_Span (Sha256 E (take SEED_BYTES bits)) ! 0 \<noteq> bits ! 32 then None
            else Some (arr_of (take SEED_BYTES bits)))"

section \<open>The words are distinct\<close>

text \<open>
  The list is in strictly ascending order: each part is walked once, from the word before
  it to its last word.
\<close>

fun str_less :: "string \<Rightarrow> string \<Rightarrow> bool" where
  "str_less xs [] = False"
| "str_less [] (y # ys) = True"
| "str_less (x # xs) (y # ys) = (if x = y then str_less xs ys else (of_char x :: nat) < of_char y)"

fun ascend :: "string \<Rightarrow> string list \<Rightarrow> string option" where
  "ascend w [] = Some w"
| "ascend w (x # xs) = (if str_less w x then ascend x xs else None)"

lemma str_less_irrefl [simp]: "\<not> str_less xs xs"
  by (induction xs) simp_all

lemma str_less_trans: "str_less xs ys \<Longrightarrow> str_less ys zs \<Longrightarrow> str_less xs zs"
proof (induction xs zs arbitrary: ys rule: str_less.induct)
  case (1 xs)
  then show ?case by simp
next
  case (2 z zs)
  then show ?case by (cases ys) auto
next
  case (3 x xs z zs)
  then show ?case by (cases ys) (auto split: if_splits)
qed

lemma ascend_above: "ascend w xs = Some v \<Longrightarrow> x \<in> set xs \<Longrightarrow> str_less w x"
  by (induction xs arbitrary: w) (auto split: if_splits intro: str_less_trans)

lemma ascend_distinct: "ascend w xs = Some v \<Longrightarrow> distinct xs"
proof (induction xs arbitrary: w)
  case (Cons x xs)
  then have "ascend x xs = Some v" by (simp split: if_splits)
  with Cons.IH ascend_above [of x xs v x] show ?case by auto
qed simp

lemma ascend_append: "ascend w (xs @ ys) = Option.bind (ascend w xs) (\<lambda>v. ascend v ys)"
  by (induction xs arbitrary: w) simp_all

lemma words_ascend_1: "ascend [] BIP39_WORDS_1 = Some ''dog''" by code_simp
lemma words_ascend_2: "ascend ''dog'' BIP39_WORDS_2 = Some ''liberty''" by code_simp
lemma words_ascend_3: "ascend ''liberty'' BIP39_WORDS_3 = Some ''scrap''" by code_simp
lemma words_ascend_4: "ascend ''scrap'' BIP39_WORDS_4 = Some ''zoo''" by code_simp

lemma distinct_words: "distinct BIP39_WORDS"
proof (rule ascend_distinct)
  show "ascend [] BIP39_WORDS = Some ''zoo''"
    by (simp only: BIP39_WORDS_def ascend_append words_ascend_1 words_ascend_2 words_ascend_3
        words_ascend_4 Option.bind.simps)
qed

lemma words_lengths:
  "length BIP39_WORDS_1 = 516" "length BIP39_WORDS_2 = 516" "length BIP39_WORDS_3 = 516"
  "length BIP39_WORDS_4 = 499"
  by code_simp+

lemma word_count: "length BIP39_WORDS = 2047" "BIP39_WORD_COUNT = 2047"
  by (simp_all add: BIP39_WORDS_def BIP39_WORD_COUNT_def words_lengths)

lemma FindBip39Word_loop_nth:
  "distinct ws \<Longrightarrow> k < length ws \<Longrightarrow> FindBip39Word_loop i ws (ws ! k) = int (i + k)"
proof (induction ws arbitrary: i k)
  case (Cons w ws)
  then show ?case by (cases k) auto
qed simp

text \<open>Looking up the word of a number gives the number back, except that 2047 becomes 0.\<close>

definition reread :: "nat \<Rightarrow> nat" where
  "reread n = (if n = 2047 then 0 else n)"

lemma FindBip39Word_Bip39Word: "n < 2048 \<Longrightarrow> FindBip39Word (Bip39Word n) = int (reread n)"
  using FindBip39Word_loop_nth [OF distinct_words, of "n mod 2047" 0]
  by (auto simp: FindBip39Word_def Bip39Word_def BIP39_WORDLIST_SIZE_def word_count reread_def)

section \<open>Phrases as strings of bits\<close>

lemma length_set_word_bit [simp]: "length (set_word_bit off idx b bs) = length bs"
  by (simp add: set_word_bit_def Let_def)

lemma bits8_set_word_bit:
  assumes "off + b < 8 * length bs" and "p < 8 * length bs"
  shows "bits8 (set_word_bit off idx b bs) ! p \<longleftrightarrow> bits8 bs ! p \<or> p = off + b \<and> bit idx (10 - b)"
proof -
  define q where "q = off + b"
  have one: "bit (ucast (push_bit k (1 :: u32)) :: u8) j \<longleftrightarrow> j = k" if "k < 8" for j k
    using that by (auto simp: bit_unsigned_iff bit_exp_iff)
  have "p mod 8 < 8" "q mod 8 < 8" by simp_all
  then have "7 - p mod 8 = 7 - q mod 8 \<longleftrightarrow> p mod 8 = q mod 8" by linarith
  then have same: "p = q \<longleftrightarrow> p div 8 = q div 8 \<and> 7 - p mod 8 = 7 - q mod 8"
    by (metis div_mult_mod_eq)
  have q: "q div 8 < length bs" using assms(1) by (simp add: q_def)
  show ?thesis
    using assms q one [of "7 - q mod 8"]
    by (auto simp: nth_bits8 set_word_bit_def Let_def and_exp_zero_iff q_def [symmetric] nth_list_update bit_or_iff
        same)
qed

lemma length_fold_set_word_bit [simp]: "length (fold (set_word_bit off idx) ns bs) = length bs"
  by (induction ns arbitrary: bs) simp_all

lemma length_set_word [simp]: "length (set_word off idx bs) = length bs"
  by (simp add: set_word_def)

lemma bits8_set_word:
  assumes "off + 11 \<le> 8 * length bs" and "p < 8 * length bs"
  shows "bits8 (set_word off idx bs) ! p \<longleftrightarrow>
    bits8 bs ! p \<or> off \<le> p \<and> p < off + 11 \<and> bit idx (10 - (p - off))"
proof -
  have "bits8 (fold (set_word_bit off idx) [0..<n] bs) ! p \<longleftrightarrow>
      bits8 bs ! p \<or> off \<le> p \<and> p < off + n \<and> bit idx (10 - (p - off))" if "n \<le> 11" for n
    using that
  proof (induction n)
    case (Suc n)
    then show ?case
      using assms bits8_set_word_bit [of off n "fold (set_word_bit off idx) [0..<n] bs" p idx]
      by (auto simp: less_Suc_eq)
  qed auto
  from this [of 11] show ?thesis by (simp add: set_word_def)
qed

lemma word_idx_bits:
  assumes "off + 11 \<le> 8 * length bs"
  shows "w_bits 11 (word_idx bs off) = map (\<lambda>b. bits8 bs ! (off + b)) [0..<11]"
    and "11 \<le> i \<Longrightarrow> \<not> bit (word_idx bs off) i"
proof -
  define step where "step b acc = (let offset = off + b;
      bit_value = drop_bit (7 - offset mod 8) (ucast (bs ! (offset div 8))) AND 1
    in push_bit 1 acc OR bit_value)" for b and acc :: u32
  have "w_bits n (fold step [0..<n] 0) = map (\<lambda>b. bits8 bs ! (off + b)) [0..<n] \<and>
      (\<forall>i\<ge>n. \<not> bit (fold step [0..<n] 0) i)" if "n \<le> 11" for n
    using that
  proof (induction n)
    case (Suc n)
    define v where "v = drop_bit (7 - (off + n) mod 8) (ucast (bs ! ((off + n) div 8)) :: u32) AND 1"
    have v: "bit v i \<longleftrightarrow> i = 0 \<and> bits8 bs ! (off + n)" for i
      using Suc.prems assms
      by (auto simp: v_def bit_and_iff bit_drop_bit_eq bit_1_iff bit_unsigned_iff nth_bits8)
    have step: "fold step [0..<Suc n] 0 = push_bit 1 (fold step [0..<n] 0) OR v"
      by (simp add: step_def v_def Let_def)
    have "w_bits (n + 1) (fold step [0..<Suc n] 0) = w_bits n (fold step [0..<n] 0) @ w_bits 1 v"
      unfolding step using Suc.prems v by (intro w_bits_push) auto
    moreover have "w_bits 1 v = [bits8 bs ! (off + n)]" using v [of 0] by (simp add: w_bits_def)
    moreover have "\<not> bit (fold step [0..<Suc n] 0) i" if "Suc n \<le> i" for i
      unfolding step using Suc v that by (intro push_1_top [of n]) auto
    ultimately show ?case using Suc by simp
  qed simp
  from this [of 11] show "w_bits 11 (word_idx bs off) = map (\<lambda>b. bits8 bs ! (off + b)) [0..<11]"
    and "11 \<le> i \<Longrightarrow> \<not> bit (word_idx bs off) i"
    by (simp_all add: word_idx_def step_def [abs_def])
qed

text \<open>The word numbers of a seed, and what decoding a list of word numbers leaves in the bytes.\<close>

definition word_numbers :: "crypto_ext \<Rightarrow> master_seed \<Rightarrow> nat list" where
  "word_numbers E seed = map (\<lambda>i. unat (word_idx (mnemonic_bytes E seed) (i * 11))) [0..<24]"

lemma length_mnemonic_bytes [simp]: "length (mnemonic_bytes E seed) = 33"
  by (simp add: mnemonic_bytes_def)

lemma word_numbers_bit:
  assumes "p < 264"
  shows "bit (word_numbers E seed ! (p div 11)) (10 - p mod 11) \<longleftrightarrow> bits8 (mnemonic_bytes E seed) ! p"
proof -
  define w where "w = word_idx (mnemonic_bytes E seed) (p div 11 * 11)"
  have b: "p mod 11 < 11" by simp
  have "w_bits 11 w ! (p mod 11) = bits8 (mnemonic_bytes E seed) ! (p div 11 * 11 + p mod 11)"
    using word_idx_bits(1) [of "p div 11 * 11" "mnemonic_bytes E seed"] assms by (simp add: w_def)
  then have "bit w (10 - p mod 11) = bits8 (mnemonic_bytes E seed) ! p"
    by (simp add: nth_w_bits)
  moreover have "p div 11 < 24" using assms by simp
  ultimately show ?thesis
    by (simp add: word_numbers_def w_def bit_unsigned_iff)
qed

lemma word_numbers_less: "n \<in> set (word_numbers E seed) \<Longrightarrow> n < 2048"
proof -
  assume "n \<in> set (word_numbers E seed)"
  then obtain i where i: "i < 24" "n = unat (word_idx (mnemonic_bytes E seed) (i * 11))"
    by (auto simp: word_numbers_def)
  have "\<not> bit n k" if "11 \<le> k" for k
    using word_idx_bits(2) [of "i * 11" "mnemonic_bytes E seed" k] i that by (simp add: bit_unsigned_iff)
  then have "take_bit 11 n = n"
    by (intro bit_eqI) (metis bit_take_bit_iff linorder_not_less)
  then show ?thesis using take_bit_nat_less_exp [of 11 n] by simp
qed

lemma GenerateMnemonic_alt: "GenerateMnemonic E seed = map Bip39Word (word_numbers E seed)"
  by (simp add: GenerateMnemonic_def word_numbers_def MNEMONIC_WORD_COUNT_def)

lemma SeedFromMnemonic_loop_bits:
  assumes "\<forall>n \<in> set ns. n < 2048" and "11 * (i + length ns) \<le> 8 * length bits"
  shows "\<exists>D. SeedFromMnemonic_loop i (map Bip39Word ns) bits = Some D \<and> length D = length bits \<and>
    (\<forall>p < 8 * length bits. bits8 D ! p \<longleftrightarrow> bits8 bits ! p \<or>
       i \<le> p div 11 \<and> p div 11 < i + length ns \<and> bit (reread (ns ! (p div 11 - i))) (10 - p mod 11))"
  using assms
proof (induction ns arbitrary: i bits)
  case Nil
  then show ?case by auto
next
  case (Cons n ns)
  define bits' where "bits' = set_word (i * 11) (of_nat (reread n)) bits"
  have find: "FindBip39Word (Bip39Word n) = int (reread n)" using Cons.prems by (simp add: FindBip39Word_Bip39Word)
  have len: "length bits' = length bits" by (simp add: bits'_def)
  obtain D where D: "SeedFromMnemonic_loop (Suc i) (map Bip39Word ns) bits' = Some D" "length D = length bits"
    "\<And>p. p < 8 * length bits \<Longrightarrow> bits8 D ! p \<longleftrightarrow> bits8 bits' ! p \<or>
       Suc i \<le> p div 11 \<and> p div 11 < Suc i + length ns \<and> bit (reread (ns ! (p div 11 - Suc i))) (10 - p mod 11)"
    using Cons.IH [of "Suc i" bits'] Cons.prems len by auto
  have small: "bit (of_nat (reread n) :: u32) k \<longleftrightarrow> bit (reread n) k" if "k < 11" for k
    using that by (simp add: bit_of_nat_iff)
  have "bits8 D ! p \<longleftrightarrow> bits8 bits ! p \<or>
      i \<le> p div 11 \<and> p div 11 < i + length (n # ns) \<and> bit (reread ((n # ns) ! (p div 11 - i))) (10 - p mod 11)"
    if p: "p < 8 * length bits" for p
  proof -
    have word: "bits8 bits' ! p \<longleftrightarrow> bits8 bits ! p \<or> p div 11 = i \<and> bit (reread n) (10 - p mod 11)"
    proof -
      have "p div 11 = i" if "i * 11 \<le> p" "p < i * 11 + 11"
        using that by (intro div_nat_eqI) auto
      moreover have "i * 11 \<le> p \<and> p < i * 11 + 11 \<and> p - i * 11 = p mod 11" if "p div 11 = i"
        using that div_mult_mod_eq [of p 11] mod_less_divisor [of 11 p] minus_div_mult_eq_mod [of p 11] by auto
      ultimately show ?thesis
        unfolding bits'_def using Cons.prems p bits8_set_word [of "i * 11" bits p] small by auto
    qed
    show ?thesis
      using D(3) [OF p] word by (cases "p div 11 = i") (auto simp: nth_Cons' Suc_le_eq)
  qed
  with D find show ?case by (auto simp: bits'_def)
qed

lemma decoded_bytes:
  "\<exists>D. SeedFromMnemonic E (GenerateMnemonic E seed) =
      (if Hash256_Span (Sha256 E (take 32 D)) ! 0 \<noteq> D ! 32 then None else Some (arr_of (take 32 D))) \<and>
    length D = 33 \<and>
    (\<forall>p < 264. bits8 D ! p \<longleftrightarrow> bit (reread (word_numbers E seed ! (p div 11))) (10 - p mod 11))"
proof -
  have len: "length (word_numbers E seed) = 24" by (simp add: word_numbers_def)
  define Z :: byte_vec where "Z = replicate 33 0"
  have Z: "length Z = 33" "p < 264 \<Longrightarrow> \<not> bits8 Z ! p" for p
    using nth_bits8 [of p Z] by (auto simp: Z_def simp del: map_replicate)
  obtain D where D: "SeedFromMnemonic_loop 0 (GenerateMnemonic E seed) Z = Some D" "length D = 33"
    and bits: "\<forall>p < 264. bits8 D ! p \<longleftrightarrow> bits8 Z ! p \<or>
      p div 11 < 24 \<and> bit (reread (word_numbers E seed ! (p div 11))) (10 - p mod 11)"
    using SeedFromMnemonic_loop_bits [of "word_numbers E seed" 0 Z] word_numbers_less len Z(1)
    by (auto simp: GenerateMnemonic_alt)
  have "p div 11 < 24" if "p < 264" for p :: nat using that by simp
  with bits Z(2) have "\<forall>p < 264. bits8 D ! p \<longleftrightarrow> bit (reread (word_numbers E seed ! (p div 11))) (10 - p mod 11)"
    by blast
  moreover have "length (GenerateMnemonic E seed) = 24" using len by (simp add: GenerateMnemonic_alt)
  ultimately show ?thesis
    using D by (intro exI [of _ D]) (simp add: SeedFromMnemonic_def MNEMONIC_WORD_COUNT_def SEED_BYTES_def Z_def)
qed

lemma mnemonic_recovers:
  assumes "2047 \<notin> set (word_numbers E seed)"
  shows "SeedFromMnemonic E (GenerateMnemonic E seed) = Some seed"
proof -
  obtain D where D: "SeedFromMnemonic E (GenerateMnemonic E seed) =
      (if Hash256_Span (Sha256 E (take 32 D)) ! 0 \<noteq> D ! 32 then None else Some (arr_of (take 32 D)))"
    "length D = 33"
    "\<And>p. p < 264 \<Longrightarrow> bits8 D ! p \<longleftrightarrow> bit (reread (word_numbers E seed ! (p div 11))) (10 - p mod 11)"
    using decoded_bytes [of E seed] by blast
  have "reread (word_numbers E seed ! (p div 11)) = word_numbers E seed ! (p div 11)" if "p < 264" for p
  proof -
    have "word_numbers E seed ! (p div 11) \<in> set (word_numbers E seed)"
      using that by (intro nth_mem) (simp add: word_numbers_def)
    with assms show ?thesis by (auto simp: reread_def)
  qed
  then have "bits8 D = bits8 (mnemonic_bytes E seed)"
    using D(2,3) by (intro nth_equalityI) (simp_all add: length_bits word_numbers_bit)
  then have "D = mnemonic_bytes E seed" using D(2) by (simp add: bits8_inject)
  then show ?thesis using D(1) by (simp add: mnemonic_bytes_def nth_append)
qed

lemma mnemonic_loses:
  assumes "2047 \<in> set (word_numbers E seed)"
  shows "SeedFromMnemonic E (GenerateMnemonic E seed) \<noteq> Some seed"
proof
  assume recovered: "SeedFromMnemonic E (GenerateMnemonic E seed) = Some seed"
  obtain D where D: "SeedFromMnemonic E (GenerateMnemonic E seed) =
      (if Hash256_Span (Sha256 E (take 32 D)) ! 0 \<noteq> D ! 32 then None else Some (arr_of (take 32 D)))"
    "length D = 33"
    "\<And>p. p < 264 \<Longrightarrow> bits8 D ! p \<longleftrightarrow> bit (reread (word_numbers E seed ! (p div 11))) (10 - p mod 11)"
    using decoded_bytes [of E seed] by blast
  obtain i where i: "i < 24" "word_numbers E seed ! i = 2047"
    using assms by (auto simp: in_set_conv_nth word_numbers_def)
  define p where "p = 11 * i"
  have p: "p < 256" "p div 11 = i" "p mod 11 = 0" using i(1) by (simp_all add: p_def)
  have "arr_of (take 32 D) = seed" using recovered D(1) by (simp split: if_splits)
  moreover have "length (take 32 D) = 32" using D(2) by simp
  ultimately have "take 32 D = arr_list seed" by (metis arr_list_arr_of)
  moreover have "p div 8 < 32" using p(1) by simp
  ultimately have "D ! (p div 8) = mnemonic_bytes E seed ! (p div 8)"
    by (metis length_arr_list mnemonic_bytes_def nth_append nth_take)
  then have "bits8 D ! p = bits8 (mnemonic_bytes E seed) ! p" using p(1) D(2) by (simp add: nth_bits8)
  moreover have "\<not> bits8 D ! p" using D(3) [of p] p i(2) by (simp add: reread_def)
  moreover have "bits8 (mnemonic_bytes E seed) ! p"
    using word_numbers_bit [of p E seed] p i(2) by (simp add: bit_iff_odd)
  ultimately show False by simp
qed

text \<open>
  Property C34. A wallet's recovery phrase gives its seed back exactly when none of the 24
  eleven-bit word numbers of the seed and its checksum is 2047: the list has 2047 words, so
  that number is written as the word of number 0. For every other seed, about one in 86, the
  phrase is refused or recovers a different seed.
\<close>

theorem mnemonic_roundtrip_iff:
  "SeedFromMnemonic E (GenerateMnemonic E seed) = Some seed \<longleftrightarrow> 2047 \<notin> set (word_numbers E seed)"
  using mnemonic_recovers mnemonic_loses by blast

end
