(* ===== verification/Seed.thy ===== *)
theory Seed
  imports Mnemonic Serialize Primitives
begin

text \<open>
  Randomness and key derivation (\<^verbatim>\<open>src/crypto/random.cpp\<close>, \<^verbatim>\<open>src/wallet/seed.cpp\<close>): HMAC and
  HKDF over SHA-256, the salt of a scheme, the derivation of the key material of every
  scheme from the master seed, and the generation of a seed. OpenSSL's \<^verbatim>\<open>RAND_bytes\<close> is an
  argument: what the call with a given number does with the buffer it is handed, and whether
  it reports success.
\<close>

section \<open>Random bytes\<close>

type_synonym rand_ext = "nat \<Rightarrow> byte_vec \<Rightarrow> bool \<times> byte_vec"

definition CHUNK :: nat where "CHUNK = 2 ^ 20"

lemma CHUNK_pos [simp]: "0 < CHUNK"
  by (simp add: CHUNK_def)

text \<open>\<open>todo\<close> is the part of the buffer that is not filled yet, \<open>call\<close> the number of the call.\<close>

function RandomBytes_loop :: "rand_ext \<Rightarrow> nat \<Rightarrow> byte_vec \<Rightarrow> bool \<times> byte_vec" where
  "RandomBytes_loop rand call todo =
     (if todo = [] then (True, [])
      else
        let (ok, piece) = rand call (take CHUNK todo)
        in if \<not> ok then (False, piece @ drop CHUNK todo)
           else
             let (rest_ok, rest) = RandomBytes_loop rand (Suc call) (drop CHUNK todo)
             in (rest_ok, piece @ rest))"
  by auto
termination
  by (relation "measure (\<lambda>(rand, call, todo). length todo)") auto

declare RandomBytes_loop.simps [simp del]

definition RandomBytes :: "rand_ext \<Rightarrow> byte_vec \<Rightarrow> bool \<times> byte_vec" where
  "RandomBytes rand out = RandomBytes_loop rand 0 out"

definition RandomByteVec :: "rand_ext \<Rightarrow> nat \<Rightarrow> byte_vec" where
  "RandomByteVec rand count =
     (let (ok, bytes) = RandomBytes rand (replicate count 0) in if \<not> ok then [] else bytes)"

section \<open>HMAC and HKDF\<close>

definition hmac_key :: "byte_vec \<Rightarrow> byte_vec" where
  "hmac_key key = (if length key \<le> 64 then key @ replicate (64 - length key) 0 else replicate 64 0)"

definition hmac_inner :: "byte_vec \<Rightarrow> byte_vec \<Rightarrow> byte_vec" where
  "hmac_inner key data = map (\<lambda>b. b XOR 0x36) (hmac_key key) @ data"

definition hmac_outer :: "byte_vec \<Rightarrow> hash256 \<Rightarrow> byte_vec" where
  "hmac_outer key inner = map (\<lambda>b. b XOR 0x5C) (hmac_key key) @ Hash256_Span inner"

definition HmacSha256 :: "crypto_ext \<Rightarrow> byte_vec \<Rightarrow> byte_vec \<Rightarrow> hash256" where
  "HmacSha256 E key data = Sha256 E (hmac_outer key (Sha256 E (hmac_inner key data)))"

definition HkdfExtract :: "crypto_ext \<Rightarrow> byte_vec \<Rightarrow> byte_vec \<Rightarrow> hash256" where
  "HkdfExtract E salt ikm = HmacSha256 E salt ikm"

text \<open>\<open>left\<close> is what is still to be produced; the first block has no previous block before it.\<close>

function HkdfExpand_loop ::
  "crypto_ext \<Rightarrow> hash256 \<Rightarrow> byte_vec \<Rightarrow> byte_vec \<Rightarrow> u8 \<Rightarrow> nat \<Rightarrow> byte_vec" where
  "HkdfExpand_loop E prk info prev counter left =
     (if left = 0 then []
      else
        let block = HmacSha256 E (Hash256_Span prk) (prev @ info @ [counter]);
            to_copy = min 32 left
        in take to_copy (Hash256_Span block) @
           HkdfExpand_loop E prk info (Hash256_Span block) (counter + 1) (left - to_copy))"
  by auto
termination
  by (relation "measure (\<lambda>(E, prk, info, prev, counter, left). left)") auto

declare HkdfExpand_loop.simps [simp del]

definition HkdfExpand :: "crypto_ext \<Rightarrow> hash256 \<Rightarrow> byte_vec \<Rightarrow> nat \<Rightarrow> byte_vec" where
  "HkdfExpand E prk info n = HkdfExpand_loop E prk info [] 1 n"

section \<open>Derivation\<close>

definition DERIVATION_DOMAIN :: string where
  "DERIVATION_DOMAIN = ''Amarian/KeyDeriv/v1''"

definition BuildSalt :: "string \<Rightarrow> byte_vec" where
  "BuildSalt scheme_name =
     take 64 (string_bytes DERIVATION_DOMAIN @ [0] @ string_bytes scheme_name @ replicate 64 0)"

definition derivation_info :: "u32 \<Rightarrow> u32 \<Rightarrow> byte_vec" where
  "derivation_info account index = writes [WriteU32 account, WriteU32 index] []"

definition DeriveKeyBytes :: "crypto_ext \<Rightarrow> master_seed \<Rightarrow> string \<Rightarrow> u32 \<Rightarrow> u32 \<Rightarrow> nat \<Rightarrow> byte_vec" where
  "DeriveKeyBytes E seed scheme_name account index n =
     HkdfExpand E (HkdfExtract E (BuildSalt scheme_name) (arr_list seed)) (derivation_info account index) n"

definition DeriveSecp256k1Key :: "crypto_ext \<Rightarrow> master_seed \<Rightarrow> u32 \<Rightarrow> u32 \<Rightarrow> byte_vec" where
  "DeriveSecp256k1Key E seed account index = DeriveKeyBytes E seed ''schnorr-secp256k1'' account index 32"

definition DeriveMldsa44Seed :: "crypto_ext \<Rightarrow> master_seed \<Rightarrow> u32 \<Rightarrow> u32 \<Rightarrow> byte_vec" where
  "DeriveMldsa44Seed E seed account index = DeriveKeyBytes E seed ''ml-dsa-44'' account index 32"

definition DeriveSlhDsaSeeds ::
  "crypto_ext \<Rightarrow> master_seed \<Rightarrow> u32 \<Rightarrow> u32 \<Rightarrow> byte_vec \<times> byte_vec \<times> byte_vec" where
  "DeriveSlhDsaSeeds E seed account index =
     (let all = DeriveKeyBytes E seed ''slh-dsa-sha2-128s'' account index 48
      in (take 16 all, take 16 (drop 16 all), take 16 (drop 32 all)))"

definition GenerateSeed :: "rand_ext \<Rightarrow> master_seed" where
  "GenerateSeed rand = arr_of (snd (RandomBytes rand (replicate 32 0)))"

section \<open>Lengths\<close>

lemma length_HkdfExpand_loop: "length (HkdfExpand_loop E prk info prev counter left) = left"
  by (induction E prk info prev counter left rule: HkdfExpand_loop.induct)
    (subst HkdfExpand_loop.simps, simp add: Let_def)

lemma length_DeriveKeyBytes [simp]: "length (DeriveKeyBytes E seed name account index n) = n"
  by (simp add: DeriveKeyBytes_def HkdfExpand_def length_HkdfExpand_loop)

lemma HkdfExpand_block:
  "HkdfExpand E prk info 32 = Hash256_Span (HmacSha256 E (Hash256_Span prk) (info @ [1]))"
  by (simp add: HkdfExpand_def HkdfExpand_loop.simps [of E prk info "[]"]
      HkdfExpand_loop.simps [of E prk info _ _ 0] Let_def)

section \<open>Derived keys are distinct\<close>

text \<open>
  The strings hashed for one key, and that SHA-256 does not collide on a list of strings.
\<close>

definition no_collision :: "crypto_ext \<Rightarrow> byte_vec list \<Rightarrow> bool" where
  "no_collision E xs \<longleftrightarrow> (\<forall>x \<in> set xs. \<forall>y \<in> set xs. Sha256 E x = Sha256 E y \<longrightarrow> x = y)"

definition hmac_preimages :: "crypto_ext \<Rightarrow> byte_vec \<Rightarrow> byte_vec \<Rightarrow> byte_vec list" where
  "hmac_preimages E key data = [hmac_inner key data, hmac_outer key (Sha256 E (hmac_inner key data))]"

definition key_preimages :: "crypto_ext \<Rightarrow> master_seed \<Rightarrow> string \<Rightarrow> u32 \<Rightarrow> u32 \<Rightarrow> byte_vec list" where
  "key_preimages E seed name account index =
     hmac_preimages E (BuildSalt name) (arr_list seed) @
     hmac_preimages E (Hash256_Span (HkdfExtract E (BuildSalt name) (arr_list seed)))
       (derivation_info account index @ [1])"

lemma length_hmac_key [simp]: "length (hmac_key key) = 64"
  by (simp add: hmac_key_def)

lemma hmac_key_inject: "length k = length l \<Longrightarrow> length k \<le> 64 \<Longrightarrow> hmac_key k = hmac_key l \<longleftrightarrow> k = l"
  by (auto simp: hmac_key_def)

lemma map_xor_inject: "map (\<lambda>b. b XOR c) xs = map (\<lambda>b. b XOR c) ys \<longleftrightarrow> xs = (ys :: byte_vec)"
proof (rule inj_map_eq_map, rule injI)
  fix x y :: u8 assume "x XOR c = y XOR c"
  then have "(x XOR c) XOR c = (y XOR c) XOR c" by simp
  then show "x = y" by (simp only: xor.assoc xor_self_eq xor.right_neutral)
qed

lemma HmacSha256_inject:
  assumes "HmacSha256 E k d = HmacSha256 E l e" and "length k = length l" and "length k \<le> 64"
    and "no_collision E xs" and "set (hmac_preimages E k d) \<subseteq> set xs" and "set (hmac_preimages E l e) \<subseteq> set xs"
  shows "k = l \<and> d = e"
proof -
  have "hmac_outer k (Sha256 E (hmac_inner k d)) = hmac_outer l (Sha256 E (hmac_inner l e))"
    using assms(1,4-6) by (simp add: HmacSha256_def no_collision_def hmac_preimages_def)
  then have key: "hmac_key k = hmac_key l" and "Hash256_Span (Sha256 E (hmac_inner k d)) = Hash256_Span (Sha256 E (hmac_inner l e))"
    by (simp_all add: hmac_outer_def map_xor_inject)
  then have "Sha256 E (hmac_inner k d) = Sha256 E (hmac_inner l e)"
    by (metis FromBytes_Span option.inject)
  then have "hmac_inner k d = hmac_inner l e"
    using assms(4-6) by (simp add: no_collision_def hmac_preimages_def)
  with key assms(2,3) show ?thesis by (simp add: hmac_inner_def hmac_key_inject)
qed

text \<open>A scheme name that fits the salt whole and has no zero byte.\<close>

definition salt_name :: "string \<Rightarrow> bool" where
  "salt_name name \<longleftrightarrow> length name \<le> 44 \<and> CHR 0x00 \<notin> set name"

lemma length_BuildSalt [simp]: "length (BuildSalt name) = 64"
  by (simp add: BuildSalt_def)

lemma of_char_byte_inject: "(of_char c :: u8) = of_char d \<longleftrightarrow> c = d"
proof -
  have "unat (of_char x :: u8) = of_char x" for x
    by (metis mod_less nat_of_char_less_256 of_nat_of_char unat_of_nat_byte)
  then show ?thesis by (metis of_char_eq_iff)
qed

lemma string_bytes_inject: "string_bytes s = string_bytes t \<longleftrightarrow> s = t"
  unfolding string_bytes_def
  by (rule inj_map_eq_map) (simp add: inj_def of_char_byte_inject)

lemma BuildSalt_inject:
  assumes "salt_name a" and "salt_name b" and "BuildSalt a = BuildSalt b"
  shows "a = b"
proof -
  have salt: "BuildSalt n = (string_bytes DERIVATION_DOMAIN @ [0]) @ string_bytes n @ replicate (44 - length n) 0"
    if "salt_name n" for n
    using that by (simp add: BuildSalt_def salt_name_def DERIVATION_DOMAIN_def string_bytes_def)
  have trim: "takeWhile (\<lambda>b. b \<noteq> 0) (string_bytes n @ replicate k 0) = string_bytes n" if "salt_name n" for n k
  proof -
    have "\<forall>b \<in> set (string_bytes n). b \<noteq> 0"
      using that of_char_byte_inject [of _ "CHR 0x00"] by (auto simp: salt_name_def string_bytes_def)
    then show ?thesis by (simp add: takeWhile_append2)
  qed
  have "string_bytes a @ replicate (44 - length a) 0 = string_bytes b @ replicate (44 - length b) 0"
    using assms by (simp add: salt)
  then have "string_bytes a = string_bytes b"
    using trim [OF assms(1)] trim [OF assms(2)] by metis
  then show ?thesis by (simp add: string_bytes_inject)
qed

lemma derivation_info_inject: "derivation_info a i = derivation_info b j \<longleftrightarrow> a = b \<and> i = j"
proof -
  have "derivation_info a i = WriteU32 a [] @ WriteU32 i []" for a i
    by (simp add: derivation_info_def u32.ser_append [of i "WriteU32 a []"])
  moreover have "length (WriteU32 v []) = 4" for v
    by (simp add: WriteU32_def AppendLittleEndian_def)
  moreover have "WriteU32 v [] = WriteU32 w [] \<longleftrightarrow> v = w" for v w
    using u32.ser_inject by blast
  ultimately show ?thesis by simp
qed

lemma derived_key_determines:
  assumes "DeriveKeyBytes E seed n a i 32 = DeriveKeyBytes E seed m b j 32"
    and "salt_name n" and "salt_name m"
    and "no_collision E (key_preimages E seed n a i @ key_preimages E seed m b j)"
  shows "n = m \<and> a = b \<and> i = j"
proof -
  define prk where "prk name = HkdfExtract E (BuildSalt name) (arr_list seed)" for name
  let ?xs = "key_preimages E seed n a i @ key_preimages E seed m b j"
  have "HmacSha256 E (Hash256_Span (prk n)) (derivation_info a i @ [1])
      = HmacSha256 E (Hash256_Span (prk m)) (derivation_info b j @ [1])"
    using assms(1) by (simp add: DeriveKeyBytes_def HkdfExpand_block prk_def) (metis FromBytes_Span option.inject)
  from HmacSha256_inject [OF this, of ?xs] assms(4)
  have "Hash256_Span (prk n) = Hash256_Span (prk m)" and info: "derivation_info a i = derivation_info b j"
    by (auto simp: key_preimages_def prk_def)
  then have "HmacSha256 E (BuildSalt n) (arr_list seed) = HmacSha256 E (BuildSalt m) (arr_list seed)"
    unfolding prk_def HkdfExtract_def by (metis FromBytes_Span option.inject)
  from HmacSha256_inject [OF this, of ?xs] assms(4) have "BuildSalt n = BuildSalt m"
    by (auto simp: key_preimages_def)
  with BuildSalt_inject [OF assms(2,3)] info show ?thesis by (simp add: derivation_info_inject)
qed


text \<open>
  A failure of the random source is not reported: when the first call of the
  operating system's generator fails, \<^verbatim>\<open>RandomBytes\<close> says so, but \<^verbatim>\<open>GenerateSeed\<close> returns
  whatever the call left in the zeroed buffer, all zeros if it wrote nothing.
\<close>

theorem failed_randomness_ignored:
  assumes "rand 0 (replicate 32 0) = (False, bytes)"
  shows "RandomBytes rand (replicate 32 0) = (False, bytes) \<and> GenerateSeed rand = arr_of bytes"
proof -
  have "RandomBytes rand (replicate 32 0) = (False, bytes)"
    using assms by (simp add: RandomBytes_def RandomBytes_loop.simps [of rand 0] CHUNK_def Let_def)
  then show ?thesis by (simp add: GenerateSeed_def)
qed

theorem failed_randomness_ignored_witness:
  "GenerateSeed (\<lambda>_ buffer. (False, buffer)) = arr_of (replicate 32 0)"
  using failed_randomness_ignored [of "\<lambda>_ buffer. (False, buffer)" "replicate 32 0"] by simp

lemma example_no_collision:
  "no_collision example_crypto
     (key_preimages example_crypto zero32 ''ml-dsa-44'' 0 1 @ key_preimages example_crypto zero32 ''ml-dsa-44'' 0 2)"
  by code_simp


end
