(* ===== verification/WalletDb.thy ===== *)
theory WalletDb
  imports Seed "HOL-Library.AList"
begin

text \<open>
  The wallet database (\<^verbatim>\<open>src/wallet/wallet.cpp\<close>) and the metadata section of a backup
  (\<^verbatim>\<open>src/wallet/backup.cpp\<close>). Hash maps are association lists. The file system is a partial
  function from paths to contents, passed along by every operation that saves; whether a path
  can be opened for writing, and the JSON library's conversion of a document to text and
  back, are the argument \<open>file_ext\<close>. A document is the record \<open>wallet_json\<close>: a key that is
  absent is \<open>None\<close>, and \<^verbatim>\<open>value(key, default)\<close> is \<open>or_default\<close>.
\<close>

section \<open>Data\<close>

definition MAX_ACCOUNTS :: nat where "MAX_ACCOUNTS = 64"

record account =
  acc_label :: string
  acc_scheme_name :: string
  acc_account_id :: u32
  acc_highest_derived :: u32
  acc_gap_limit :: nat

record stored_transaction =
  stx_txid :: hash256
  stx_height :: int
  stx_timestamp :: i64
  stx_received :: i64
  stx_sent :: i64
  stx_fee :: i64
  stx_raw_tx :: byte_vec

record wallet_db =
  db_path :: string
  db_encrypted_seed :: byte_vec
  db_birth_height :: u32
  db_accounts :: "account list"
  db_txs :: "(hash256 \<times> stored_transaction) list"
  db_metadata :: "(string \<times> string) list"
  db_has_seed :: bool

record account_json =
  aj_label :: "string option"
  aj_scheme :: "string option"
  aj_id :: "u32 option"
  aj_highest :: "u32 option"
  aj_gap :: "nat option"

record wallet_json =
  wj_version :: "int option"
  wj_seed :: "string option"
  wj_birth_height :: "u32 option"
  wj_accounts :: "account_json list option"
  wj_metadata :: "(string \<times> string) list option"

record file_ext =
  ext_json_dump :: "wallet_json \<Rightarrow> string"
  ext_json_parse :: "string \<Rightarrow> wallet_json option"
    \<comment> \<open>none if the text is discarded as not being such a document\<close>
  ext_can_write :: "string \<Rightarrow> bool"

type_synonym disk = "string \<rightharpoonup> string"

definition or_default :: "'a option \<Rightarrow> 'a \<Rightarrow> 'a" where
  "or_default o' d = (case o' of None \<Rightarrow> d | Some x \<Rightarrow> x)"

section \<open>The seed at rest\<close>

definition SimpleEncrypt :: "crypto_ext \<Rightarrow> byte_vec \<Rightarrow> string \<Rightarrow> byte_vec" where
  "SimpleEncrypt E data password =
     (let key = Hash256_Span (Sha256 E (string_bytes password))
      in map (\<lambda>i. data ! i XOR key ! (i mod 32)) [0..<length data])"

definition SimpleDecrypt :: "crypto_ext \<Rightarrow> byte_vec \<Rightarrow> string \<Rightarrow> byte_vec" where
  "SimpleDecrypt E data password = SimpleEncrypt E data password"

section \<open>Saving and loading\<close>

definition account_to_json :: "account \<Rightarrow> account_json" where
  "account_to_json a =
     \<lparr>aj_label = Some (acc_label a), aj_scheme = Some (acc_scheme_name a), aj_id = Some (acc_account_id a),
      aj_highest = Some (acc_highest_derived a), aj_gap = Some (acc_gap_limit a)\<rparr>"

definition account_of_json :: "account_json \<Rightarrow> account" where
  "account_of_json item =
     \<lparr>acc_label = or_default (aj_label item) [], acc_scheme_name = or_default (aj_scheme item) [],
      acc_account_id = or_default (aj_id item) 0, acc_highest_derived = or_default (aj_highest item) 0,
      acc_gap_limit = or_default (aj_gap item) 20\<rparr>"

definition db_to_json :: "wallet_db \<Rightarrow> wallet_json" where
  "db_to_json db =
     \<lparr>wj_version = Some 1, wj_seed = Some (ToHex (db_encrypted_seed db)),
      wj_birth_height = Some (db_birth_height db),
      wj_accounts = Some (map account_to_json (db_accounts db)), wj_metadata = Some (db_metadata db)\<rparr>"

definition Save :: "file_ext \<Rightarrow> wallet_db \<Rightarrow> disk \<Rightarrow> disk" where
  "Save F db disk =
     (if db_path db = [] then disk
      else if ext_can_write F (db_path db) then disk(db_path db \<mapsto> ext_json_dump F (db_to_json db))
      else disk)"

definition Load :: "file_ext \<Rightarrow> disk \<Rightarrow> wallet_db \<Rightarrow> wallet_db" where
  "Load F disk db =
     (if db_path db = [] then db
      else case disk (db_path db) of
          None \<Rightarrow> db
        | Some file \<Rightarrow>
            case ext_json_parse F file of
              None \<Rightarrow> db
            | Some doc \<Rightarrow>
                if or_default (wj_version doc) 0 \<noteq> 1 then db
                else case FromHex (or_default (wj_seed doc) []) of
                    None \<Rightarrow> db
                  | Some seed \<Rightarrow>
                      if seed = [] then db
                      else db\<lparr>db_encrypted_seed := seed, db_has_seed := True,
                        db_birth_height := or_default (wj_birth_height doc) 0,
                        db_accounts := db_accounts db @
                          (case wj_accounts doc of None \<Rightarrow> [] | Some items \<Rightarrow> map account_of_json items),
                        db_metadata := (case wj_metadata doc of None \<Rightarrow> db_metadata db | Some m \<Rightarrow> m)\<rparr>)"

definition empty_db :: "string \<Rightarrow> wallet_db" where
  "empty_db path =
     \<lparr>db_path = path, db_encrypted_seed = [], db_birth_height = 0, db_accounts = [], db_txs = [],
      db_metadata = [], db_has_seed = False\<rparr>"

definition WalletDb_open :: "file_ext \<Rightarrow> disk \<Rightarrow> string \<Rightarrow> wallet_db" where
  "WalletDb_open F disk path = Load F disk (empty_db path)"

section \<open>Operations\<close>

definition saved :: "file_ext \<Rightarrow> wallet_db \<Rightarrow> disk \<Rightarrow> wallet_db \<times> disk" where
  "saved F db disk = (db, Save F db disk)"

definition StoreSeed :: "file_ext \<Rightarrow> crypto_ext \<Rightarrow> byte_vec \<Rightarrow> string \<Rightarrow> wallet_db \<times> disk \<Rightarrow> wallet_db \<times> disk" where
  "StoreSeed F E seed password = (\<lambda>(db, disk).
     saved F (db\<lparr>db_encrypted_seed := SimpleEncrypt E seed password, db_has_seed := True\<rparr>) disk)"

definition LoadSeed :: "crypto_ext \<Rightarrow> wallet_db \<Rightarrow> string \<Rightarrow> byte_vec option" where
  "LoadSeed E db password =
     (if \<not> db_has_seed db then None else Some (SimpleDecrypt E (db_encrypted_seed db) password))"

definition SetBirthHeight :: "file_ext \<Rightarrow> u32 \<Rightarrow> wallet_db \<times> disk \<Rightarrow> wallet_db \<times> disk" where
  "SetBirthHeight F height = (\<lambda>(db, disk). saved F (db\<lparr>db_birth_height := height\<rparr>) disk)"

definition AccountCount :: "wallet_db \<Rightarrow> nat" where
  "AccountCount db = length (db_accounts db)"

definition GetAccount :: "wallet_db \<Rightarrow> nat \<Rightarrow> account option" where
  "GetAccount db index = (if index \<ge> length (db_accounts db) then None else Some (db_accounts db ! index))"

definition AddAccount :: "file_ext \<Rightarrow> account \<Rightarrow> wallet_db \<times> disk \<Rightarrow> wallet_db \<times> disk" where
  "AddAccount F account = (\<lambda>(db, disk).
     if length (db_accounts db) \<ge> MAX_ACCOUNTS then (db, disk)
     else saved F (db\<lparr>db_accounts := db_accounts db @ [account]\<rparr>) disk)"

text \<open>The first account with the same number and scheme is replaced.\<close>

fun update_first :: "account \<Rightarrow> account list \<Rightarrow> account list option" where
  "update_first account [] = None"
| "update_first account (a # as) =
     (if acc_account_id a = acc_account_id account \<and> acc_scheme_name a = acc_scheme_name account
      then Some (account # as) else map_option ((#) a) (update_first account as))"

definition UpdateAccount :: "file_ext \<Rightarrow> account \<Rightarrow> wallet_db \<times> disk \<Rightarrow> wallet_db \<times> disk" where
  "UpdateAccount F account = (\<lambda>(db, disk).
     case update_first account (db_accounts db) of
       None \<Rightarrow> (db, disk)
     | Some accounts \<Rightarrow> saved F (db\<lparr>db_accounts := accounts\<rparr>) disk)"

definition RemoveAccount :: "file_ext \<Rightarrow> nat \<Rightarrow> wallet_db \<times> disk \<Rightarrow> wallet_db \<times> disk" where
  "RemoveAccount F index = (\<lambda>(db, disk).
     if index \<ge> length (db_accounts db) then (db, disk)
     else saved F (db\<lparr>db_accounts := take index (db_accounts db) @ drop (Suc index) (db_accounts db)\<rparr>) disk)"

definition TxCount :: "wallet_db \<Rightarrow> nat" where
  "TxCount db = length (db_txs db)"

definition GetTx :: "wallet_db \<Rightarrow> hash256 \<Rightarrow> stored_transaction option" where
  "GetTx db txid = map_of (db_txs db) txid"

definition StoreTx :: "file_ext \<Rightarrow> stored_transaction \<Rightarrow> wallet_db \<times> disk \<Rightarrow> wallet_db \<times> disk" where
  "StoreTx F tx = (\<lambda>(db, disk). saved F (db\<lparr>db_txs := AList.update (stx_txid tx) tx (db_txs db)\<rparr>) disk)"

definition ListTxs :: "wallet_db \<Rightarrow> stored_transaction list" where
  "ListTxs db = map snd (db_txs db)"

definition SetMetadata :: "file_ext \<Rightarrow> string \<Rightarrow> string \<Rightarrow> wallet_db \<times> disk \<Rightarrow> wallet_db \<times> disk" where
  "SetMetadata F key value = (\<lambda>(db, disk).
     saved F (db\<lparr>db_metadata := AList.update key value (db_metadata db)\<rparr>) disk)"

definition GetMetadata :: "wallet_db \<Rightarrow> string \<Rightarrow> string option" where
  "GetMetadata db key = map_of (db_metadata db) key"

section \<open>The metadata of a backup\<close>

definition byte_string :: "byte_vec \<Rightarrow> string" where
  "byte_string bytes = map (\<lambda>b. char_of (unat b)) bytes"

definition Account_Serialise :: "account \<Rightarrow> writer \<Rightarrow> writer" where
  "Account_Serialise acct = writes
     [WriteByteString (string_bytes (acc_scheme_name acct)), WriteU32 (acc_account_id acct),
      WriteU32 (acc_highest_derived acct), WriteU32 (of_nat (acc_gap_limit acct)),
      WriteByteString (string_bytes (acc_label acct))]"

definition SerialiseMetadata :: "wallet_db \<Rightarrow> byte_vec" where
  "SerialiseMetadata db = writes
     [WriteU32 (db_birth_height db), WriteCompactSize (of_nat (AccountCount db)),
      fold Account_Serialise (db_accounts db)] []"

definition Account_Read :: "account read" where
  "Account_Read =
     read_then (ReadByteString 64) (\<lambda>scheme_bytes.
     read_then ReadU32 (\<lambda>account_id.
     read_then ReadU32 (\<lambda>highest_derived.
     read_then ReadU32 (\<lambda>gap.
     read_then (ReadByteString 128) (\<lambda>label_bytes.
     read_ret \<lparr>acc_label = byte_string label_bytes, acc_scheme_name = byte_string scheme_bytes,
       acc_account_id = account_id, acc_highest_derived = highest_derived, acc_gap_limit = unat gap\<rparr>)))))"

text \<open>Each account is added as soon as it is read; a later failure does not take it back.\<close>

fun read_accounts :: "file_ext \<Rightarrow> nat \<Rightarrow> reader \<Rightarrow> wallet_db \<times> disk \<Rightarrow> bool \<times> wallet_db \<times> disk" where
  "read_accounts F 0 r st = (fst (Finish r), st)"
| "read_accounts F (Suc n) r st =
     (case Account_Read r of
        (None, r') \<Rightarrow> (False, st)
      | (Some acct, r') \<Rightarrow> read_accounts F n r' (AddAccount F acct st))"

definition DeserialiseMetadata :: "file_ext \<Rightarrow> byte_vec \<Rightarrow> wallet_db \<times> disk \<Rightarrow> bool \<times> wallet_db \<times> disk" where
  "DeserialiseMetadata F data st =
     (case ReadU32 (Reader data) of
        (None, r) \<Rightarrow> (False, st)
      | (Some birth_height, r) \<Rightarrow>
          let st' = SetBirthHeight F birth_height st
          in case ReadCompactSize 1 r of
               (None, r') \<Rightarrow> (False, st')
             | (Some acct_count, r') \<Rightarrow> read_accounts F (unat acct_count) r' st')"

record wallet_backup =
  wb_mnemonic :: "string list"
  wb_metadata :: byte_vec

definition ExportBackup :: "crypto_ext \<Rightarrow> master_seed \<Rightarrow> wallet_db \<Rightarrow> wallet_backup" where
  "ExportBackup E seed db = \<lparr>wb_mnemonic = GenerateMnemonic E seed, wb_metadata = SerialiseMetadata db\<rparr>"

section \<open>The seed comes back with its password\<close>

lemma length_SimpleEncrypt [simp]: "length (SimpleEncrypt E data password) = length data"
  by (simp add: SimpleEncrypt_def)

lemma SimpleEncrypt_twice: "SimpleEncrypt E (SimpleEncrypt E data password) password = data"
  by (rule nth_equalityI) (simp_all add: SimpleEncrypt_def Let_def xor.assoc)

section \<open>The file keeps up with the database\<close>

datatype db_op =
  OpStoreSeed byte_vec string | OpBirthHeight u32 | OpAddAccount account | OpUpdateAccount account |
  OpRemoveAccount nat | OpStoreTx stored_transaction | OpSetMetadata string string

fun db_step :: "file_ext \<Rightarrow> crypto_ext \<Rightarrow> db_op \<Rightarrow> wallet_db \<times> disk \<Rightarrow> wallet_db \<times> disk" where
  "db_step F E (OpStoreSeed seed password) = StoreSeed F E seed password"
| "db_step F E (OpBirthHeight height) = SetBirthHeight F height"
| "db_step F E (OpAddAccount a) = AddAccount F a"
| "db_step F E (OpUpdateAccount a) = UpdateAccount F a"
| "db_step F E (OpRemoveAccount i) = RemoveAccount F i"
| "db_step F E (OpStoreTx tx) = StoreTx F tx"
| "db_step F E (OpSetMetadata k v) = SetMetadata F k v"

definition db_run :: "file_ext \<Rightarrow> crypto_ext \<Rightarrow> db_op list \<Rightarrow> wallet_db \<times> disk \<Rightarrow> wallet_db \<times> disk" where
  "db_run F E ops = fold (db_step F E) ops"

lemmas db_op_defs = StoreSeed_def SetBirthHeight_def AddAccount_def UpdateAccount_def RemoveAccount_def
  StoreTx_def SetMetadata_def saved_def

definition on_disk :: "file_ext \<Rightarrow> string \<Rightarrow> wallet_db \<times> disk \<Rightarrow> bool" where
  "on_disk F path = (\<lambda>(db, disk). db_path db = path \<and> disk path = Some (ext_json_dump F (db_to_json db)))"

definition seeded :: "wallet_db \<times> disk \<Rightarrow> bool" where
  "seeded = (\<lambda>(db, disk). db_has_seed db \<and> db_encrypted_seed db \<noteq> [])"

text \<open>What is relied on of the library: the document it writes is read back as that document.\<close>

definition json_roundtrip :: "file_ext \<Rightarrow> wallet_json \<Rightarrow> bool" where
  "json_roundtrip F doc \<longleftrightarrow> ext_json_parse F (ext_json_dump F doc) = Some doc"

lemma db_step_on_disk:
  assumes "ext_can_write F path" and "path \<noteq> []" and "on_disk F path st"
  shows "on_disk F path (db_step F E op st)"
  using assms by (cases op; cases st) (auto simp: on_disk_def db_op_defs Save_def split: option.splits)

lemma db_step_seeded:
  assumes "seeded st" and "\<forall>seed pw. op = OpStoreSeed seed pw \<longrightarrow> seed \<noteq> []"
  shows "seeded (db_step F E op st)"
proof -
  obtain db disk where st: "st = (db, disk)" by fastforce
  have "SimpleEncrypt E seed pw \<noteq> []" if "seed \<noteq> []" for seed pw
    using that by (metis length_0_conv length_SimpleEncrypt)
  with assms show ?thesis
    by (cases op) (auto simp: st seeded_def db_op_defs split: option.splits)
qed

lemma account_of_to_json: "account_of_json (account_to_json a) = a"
  by (simp add: account_of_json_def account_to_json_def or_default_def)

lemma reopened:
  assumes "json_roundtrip F (db_to_json db)" and "path \<noteq> []" and "on_disk F path (db, disk)" and "seeded (db, disk)"
  shows "WalletDb_open F disk path = db\<lparr>db_txs := []\<rparr>"
proof -
  have "FromHex (ToHex (db_encrypted_seed db)) = Some (db_encrypted_seed db)"
    by (rule FromHex_ToHex)
  with assms show ?thesis
    by (simp add: WalletDb_open_def Load_def empty_db_def on_disk_def json_roundtrip_def db_to_json_def
        or_default_def seeded_def account_of_to_json comp_def)
qed

text \<open>
  The wallet file keeps up with the wallet: after a seed was stored in a wallet
  whose file can be written, and after any further operations, opening the file gives
  exactly the database in memory, its seed, birth height, accounts and metadata, except that
  the stored transactions are gone: they are never written.
\<close>

theorem wallet_file_keeps_up:
  assumes "json_roundtrip F (db_to_json db)" and "db_path db0 \<noteq> []" and "ext_can_write F (db_path db0)" and "seed \<noteq> []"
    and "\<forall>s p. OpStoreSeed s p \<in> set ops \<longrightarrow> s \<noteq> []"
    and "db_run F E (OpStoreSeed seed password # ops) (db0, disk0) = (db, disk)"
  shows "WalletDb_open F disk (db_path db0) = db\<lparr>db_txs := []\<rparr>"
proof -
  have run: "on_disk F (db_path db0) (fold (db_step F E) os st) \<and> seeded (fold (db_step F E) os st)"
    if "on_disk F (db_path db0) st" "seeded st" "\<forall>s p. OpStoreSeed s p \<in> set os \<longrightarrow> s \<noteq> []" for os st
    using that
  proof (induction os arbitrary: st)
    case (Cons op os)
    then have "seeded (db_step F E op st)" by (intro db_step_seeded) auto
    moreover have "on_disk F (db_path db0) (db_step F E op st)"
      by (rule db_step_on_disk [OF assms(3,2) Cons.prems(1)])
    moreover have "\<forall>s p. OpStoreSeed s p \<in> set os \<longrightarrow> s \<noteq> []" using Cons.prems(3) by auto
    ultimately show ?case using Cons.IH by simp
  qed simp
  have "SimpleEncrypt E seed password \<noteq> []" using assms(4) by (metis length_0_conv length_SimpleEncrypt)
  then have "on_disk F (db_path db0) (StoreSeed F E seed password (db0, disk0))"
    "seeded (StoreSeed F E seed password (db0, disk0))"
    using assms(2,3) by (auto simp: on_disk_def seeded_def db_op_defs Save_def)
  from run [OF this assms(5)] assms(6) have "on_disk F (db_path db0) (db, disk)" "seeded (db, disk)"
    by (auto simp: db_run_def)
  then show ?thesis by (rule reopened [OF assms(1,2)])
qed

definition example_doc :: wallet_json where
  "example_doc = \<lparr>wj_version = Some 1, wj_seed = Some ''20'', wj_birth_height = Some 7,
     wj_accounts = Some [], wj_metadata = Some []\<rparr>"

definition example_files :: file_ext where
  "example_files = \<lparr>ext_json_dump = (\<lambda>_. ''wallet''), ext_json_parse = (\<lambda>_. Some example_doc), ext_can_write = (\<lambda>_. True)\<rparr>"

theorem wallet_file_keeps_up_witness:
  "let (db, disk) = db_run example_files example_crypto [OpStoreSeed [0x20] [], OpBirthHeight 7] (empty_db ''w'', Map.empty)
   in WalletDb_open example_files disk ''w'' = db\<lparr>db_txs := []\<rparr>"
proof -
  obtain db disk where run: "db_run example_files example_crypto (OpStoreSeed [0x20] [] # [OpBirthHeight 7]) (empty_db ''w'', Map.empty) = (db, disk)"
    by fastforce
  have enc: "SimpleEncrypt example_crypto [0x20] [] = [0x20]"
    by (simp add: SimpleEncrypt_def Sha256_def example_crypto_def string_bytes_def Hash256_Span_def arr_of_rep)
  have "db_to_json db = example_doc"
    using run by (auto simp: db_run_def db_op_defs empty_db_def db_to_json_def example_doc_def enc HEX_DIGITS_def
        drop_bit_eq_div)
  then have "json_roundtrip example_files (db_to_json db)" by (simp add: json_roundtrip_def example_files_def)
  from wallet_file_keeps_up [OF this _ _ _ _ run] run show ?thesis
    by (simp add: empty_db_def example_files_def)
qed

section \<open>Backed-up metadata is read back\<close>

definition account_valid :: "account \<Rightarrow> bool" where
  "account_valid a \<longleftrightarrow> length (acc_scheme_name a) \<le> 64 \<and> length (acc_label a) \<le> 128 \<and> acc_gap_limit a < 2 ^ 32"

lemma byte_string_string_bytes: "byte_string (string_bytes s) = s"
proof -
  have "unat (of_char c :: u8) = of_char c" for c
    by (metis mod_less nat_of_char_less_256 of_nat_of_char unat_of_nat_byte)
  then show ?thesis by (simp add: byte_string_def string_bytes_def map_idI)
qed

lemma string_bytes_byte_string: "string_bytes (byte_string bs) = bs"
proof -
  have "of_char (char_of (unat b)) = b" for b :: u8
  proof -
    have "of_char (char_of (unat b)) = (of_nat (of_char (char_of (unat b))) :: u8)" by (simp only: of_nat_of_char)
    also have "\<dots> = of_nat (unat b mod 256)" by (simp only: of_char_of)
    finally show ?thesis by simp
  qed
  then show ?thesis by (simp add: byte_string_def string_bytes_def map_idI)
qed

lemma length_byte_string [simp]: "length (byte_string bs) = length bs"
  by (simp add: byte_string_def)

lemma length_string_bytes [simp]: "length (string_bytes s) = length s"
  by (simp add: string_bytes_def)

interpretation account: codec Account_Serialise Account_Read account_valid 14
proof -
  have "codec Account_Serialise Account_Read account_valid (1 + (4 + (4 + (4 + 1))))"
    by (rule codec.iso_codec [OF codec.pair_codec [OF byte_string_codec [of 64] u32.pair_codec [OF u32.pair_codec [OF
          u32.pair_codec [OF byte_string_codec [of 128]]]]],
        where mk = "\<lambda>(s, i, h, g, l). \<lparr>acc_label = byte_string l, acc_scheme_name = byte_string s,
            acc_account_id = i, acc_highest_derived = h, acc_gap_limit = unat g\<rparr>"
          and dest = "\<lambda>a. (string_bytes (acc_scheme_name a), acc_account_id a, acc_highest_derived a,
            of_nat (acc_gap_limit a), string_bytes (acc_label a))"])
      (auto simp: Account_Serialise_def Account_Read_def account_valid_def byte_string_string_bytes
        string_bytes_byte_string unat_of_nat fcomp_assoc)
  then show "codec Account_Serialise Account_Read account_valid 14" by simp
qed

lemma AddAccount_db: "fst (AddAccount F a st) = (if length (db_accounts (fst st)) \<ge> MAX_ACCOUNTS then fst st
    else (fst st)\<lparr>db_accounts := db_accounts (fst st) @ [a]\<rparr>)"
  by (cases st) (simp add: AddAccount_def saved_def)

lemma read_accounts_written:
  assumes "rd_ok r" and "rd_pos r \<le> length (rd_bytes r)"
    and "upcoming r = concat (map (\<lambda>a. Account_Serialise a []) as)"
    and "\<forall>a \<in> set as. account_valid a" and "length (db_accounts (fst st)) + length as \<le> MAX_ACCOUNTS"
  shows "fst (read_accounts F (length as) r st) \<and>
    fst (snd (read_accounts F (length as) r st)) = (fst st)\<lparr>db_accounts := db_accounts (fst st) @ as\<rparr>"
  using assms
proof (induction as arbitrary: r st)
  case Nil
  then show ?case by (simp add: Finish_def)
next
  case (Cons a as)
  define rest where "rest = concat (map (\<lambda>a. Account_Serialise a []) as)"
  define r' where "r' = advance r (length (Account_Serialise a []))"
  have up: "upcoming r = Account_Serialise a [] @ rest" using Cons.prems(3) by (simp add: rest_def)
  have read: "Account_Read r = (Some a, r')"
    unfolding r'_def using Cons.prems up by (intro account.des_ok) auto
  have "length (upcoming r) = length (Account_Serialise a []) + length rest" using up by simp
  then have pos: "rd_pos r' \<le> length (rd_bytes r')" using Cons.prems(2) by (simp add: r'_def)
  have up': "upcoming r' = rest" unfolding r'_def upcoming_advance up by simp
  have add: "fst (AddAccount F a st) = (fst st)\<lparr>db_accounts := db_accounts (fst st) @ [a]\<rparr>"
    using Cons.prems(5) by (simp add: AddAccount_db)
  from Cons.IH [of r' "AddAccount F a st"] Cons.prems pos up' add show ?case
    by (simp add: read rest_def r'_def)
qed

lemma SerialiseMetadata_alt:
  "SerialiseMetadata db = WriteU32 (db_birth_height db) [] @ WriteCompactSize (of_nat (AccountCount db)) [] @
     concat (map (\<lambda>a. Account_Serialise a []) (db_accounts db))"
proof -
  have "fold Account_Serialise as w = w @ concat (map (\<lambda>a. Account_Serialise a []) as)" for as w
    by (rule fold_append) (rule account.ser_append)
  then show ?thesis
    by (simp add: SerialiseMetadata_def WriteCompactSize_append)
qed

text \<open>
  The metadata of a backup is read back whole: restoring what was serialised
  from a database whose labels and scheme names fit succeeds, sets the birth height and adds
  every account in order, after the accounts the database already has. A fresh wallet
  already has its default account, so the restored one comes second under the same number.
\<close>

theorem backup_metadata_restored:
  assumes "\<forall>a \<in> set (db_accounts db). account_valid a"
    and "length (db_accounts db') + length (db_accounts db) \<le> MAX_ACCOUNTS"
  shows "fst (DeserialiseMetadata F (SerialiseMetadata db) (db', disk)) \<and>
    fst (snd (DeserialiseMetadata F (SerialiseMetadata db) (db', disk))) =
      db'\<lparr>db_birth_height := db_birth_height db, db_accounts := db_accounts db' @ db_accounts db\<rparr>"
proof -
  let ?rest = "concat (map (\<lambda>a. Account_Serialise a []) (db_accounts db))"
  let ?size = "WriteCompactSize (of_nat (AccountCount db)) []"
  define r where "r = Reader (SerialiseMetadata db)"
  define r1 where "r1 = advance r (length (WriteU32 (db_birth_height db) []))"
  define r2 where "r2 = advance r1 (length ?size)"
  have up: "upcoming r = WriteU32 (db_birth_height db) [] @ ?size @ ?rest" "rd_ok r"
    by (simp_all add: r_def Reader_def SerialiseMetadata_alt)
  have birth: "ReadU32 r = (Some (db_birth_height db), r1)"
    unfolding r1_def using up by (intro u32.des_ok [where post = "?size @ ?rest"]) auto
  have up1: "upcoming r1 = ?size @ ?rest" "rd_ok r1" unfolding r1_def upcoming_advance using up by simp_all
  have count: "unat (of_nat (AccountCount db) :: u64) = AccountCount db"
    using assms(2) by (simp add: AccountCount_def unat_of_nat MAX_ACCOUNTS_def)
  have "length (db_accounts db) * 14 \<le> length ?rest" using account.length_concat_ser [OF assms(1)] .
  then have read: "ReadCompactSize 1 r1 = (Some (of_nat (AccountCount db)), r2)"
    unfolding r2_def using up1 count
    by (intro step_parser.des_ok [OF parser.axioms(1) [OF compact_parser], where post = ?rest])
      (auto simp: AccountCount_def)
  have r2: "rd_ok r2" "upcoming r2 = ?rest" "rd_pos r2 \<le> length (rd_bytes r2)"
    unfolding r2_def upcoming_advance using up1 by (simp_all add: r1_def r_def Reader_def SerialiseMetadata_alt)
  have st: "fst (SetBirthHeight F (db_birth_height db) (db', disk)) = db'\<lparr>db_birth_height := db_birth_height db\<rparr>"
    by (simp add: SetBirthHeight_def saved_def)
  from read_accounts_written [OF r2(1,3,2) assms(1), of "SetBirthHeight F (db_birth_height db) (db', disk)"] assms(2) st
  show ?thesis
    by (simp add: DeserialiseMetadata_def r_def [symmetric] birth read [unfolded One_nat_def] count AccountCount_def [symmetric] Let_def)
qed

definition example_account :: account where
  "example_account = \<lparr>acc_label = ''Everyday Spending'', acc_scheme_name = ''schnorr-secp256k1'',
     acc_account_id = 0, acc_highest_derived = 5, acc_gap_limit = 20\<rparr>"

theorem backup_metadata_restored_witness:
  "let db = (empty_db [])\<lparr>db_accounts := [example_account]\<rparr>;
       fresh = (empty_db [])\<lparr>db_accounts := [example_account\<lparr>acc_highest_derived := 0\<rparr>]\<rparr>
   in db_accounts (fst (snd (DeserialiseMetadata example_files (SerialiseMetadata db) (fresh, Map.empty)))) =
        [example_account\<lparr>acc_highest_derived := 0\<rparr>, example_account]"
  using backup_metadata_restored [of "(empty_db [])\<lparr>db_accounts := [example_account]\<rparr>"
      "(empty_db [])\<lparr>db_accounts := [example_account\<lparr>acc_highest_derived := 0\<rparr>]\<rparr>" example_files Map.empty]
  by (simp add: empty_db_def example_account_def account_valid_def MAX_ACCOUNTS_def)

end
