(* ===== verification/CoinSelect.thy ===== *)
theory CoinSelect
  imports Primitives Checked "HOL-Library.Multiset"
begin

text \<open>
  Coin selection and fee estimation (\<^verbatim>\<open>src/wallet/coinselection.cpp\<close>,
  \<^verbatim>\<open>src/wallet/fees.cpp\<close>). Signed sums and products wrap, as \<^verbatim>\<open>-fwrapv\<close> makes them; the
  theorems say for which inputs they do not. \<^verbatim>\<open>std::sort\<close> is not stable, so the order it
  gives coins of equal value is an argument, with the locale \<open>value_sort\<close> saying what the
  standard promises of it.
\<close>

section \<open>Coin selection\<close>

record utxo_entry =
  ue_outpoint :: outpoint
  ue_coin :: coin
  ue_confirmed :: bool
  ue_account_id :: u32
  ue_derivation_index :: u32

record coin_selection =
  sel_inputs :: "utxo_entry list"
  sel_total :: i64
  sel_target :: i64
  sel_change :: i64
  sel_fee :: i64
  sel_success :: bool

definition DUST_THRESHOLD :: i64 where "DUST_THRESHOLD = 1000"

definition InputWeight :: "nat \<Rightarrow> nat" where
  "InputWeight n_sig = 36 * WITNESS_SCALE_FACTOR + n_sig"

definition OUTPUT_WEIGHT :: nat where "OUTPUT_WEIGHT = 4 * (8 + 1 + 1 + 32)"

definition EstimateTxWeight :: "nat \<Rightarrow> nat \<Rightarrow> nat \<Rightarrow> nat" where
  "EstimateTxWeight num_inputs num_outputs input_signature_bytes =
     (let base_size = 4 + 1 + 1 + 4;
          total_input_weight = num_inputs * InputWeight input_signature_bytes;
          total_output_weight = num_outputs * OUTPUT_WEIGHT
      in base_size * WITNESS_SCALE_FACTOR + total_input_weight + total_output_weight)"

definition DustForFeeRate :: "i64 \<Rightarrow> i64" where
  "DustForFeeRate fee_rate = i64_wrap (int (InputWeight 72 + OUTPUT_WEIGHT) * fee_rate)"

abbreviation entry_value :: "utxo_entry \<Rightarrow> i64" where
  "entry_value e \<equiv> out_amount (coin_output (ue_coin e))"

text \<open>The fee of a transaction with that many inputs and one output.\<close>

definition estimated_fee :: "i64 \<Rightarrow> nat \<Rightarrow> i64" where
  "estimated_fee fee_rate est_inputs = i64_wrap (fee_rate * int (EstimateTxWeight est_inputs 1 2420))"

text \<open>The two passes over the sorted candidates: the first to find the fee, the second to collect.\<close>

fun estimate_pass :: "i64 \<Rightarrow> i64 \<Rightarrow> nat \<Rightarrow> i64 \<Rightarrow> i64 \<Rightarrow> utxo_entry list \<Rightarrow> i64 \<times> i64" where
  "estimate_pass target fee_rate est_inputs accumulated est_fee [] = (accumulated, est_fee)"
| "estimate_pass target fee_rate est_inputs accumulated est_fee (entry # rest) =
     (if accumulated \<ge> i64_wrap (target + est_fee) then (accumulated, est_fee)
      else estimate_pass target fee_rate (Suc est_inputs) (i64_wrap (accumulated + entry_value entry))
             (estimated_fee fee_rate (Suc est_inputs)) rest)"

fun select_pass :: "i64 \<Rightarrow> i64 \<Rightarrow> nat \<Rightarrow> i64 \<Rightarrow> i64 \<Rightarrow> utxo_entry list \<Rightarrow> utxo_entry list \<times> i64 \<times> i64" where
  "select_pass target fee_rate est_inputs accumulated est_fee [] = ([], accumulated, est_fee)"
| "select_pass target fee_rate est_inputs accumulated est_fee (entry # rest) =
     (if accumulated \<ge> i64_wrap (target + est_fee) \<and> 0 < est_inputs then ([], accumulated, est_fee)
      else
        let (inputs, final) = select_pass target fee_rate (Suc est_inputs)
              (i64_wrap (accumulated + entry_value entry)) (estimated_fee fee_rate (Suc est_inputs)) rest
        in (entry # inputs, final))"

definition failed_selection :: "i64 \<Rightarrow> coin_selection" where
  "failed_selection target =
     \<lparr>sel_inputs = [], sel_total = 0, sel_target = target, sel_change = 0, sel_fee = 0, sel_success = False\<rparr>"

definition SelectCoins ::
  "(utxo_entry list \<Rightarrow> utxo_entry list) \<Rightarrow> utxo_entry list \<Rightarrow> i64 \<Rightarrow> i64 \<Rightarrow> coin_selection" where
  "SelectCoins SortByDescendingValue utxos target fee_rate =
     (if target \<le> 0 \<or> utxos = [] then failed_selection target
      else
        let candidates = SortByDescendingValue utxos;
            total = foldl (\<lambda>total entry. i64_wrap (total + entry_value entry)) 0 candidates
        in if total < target then failed_selection target
           else
             let base_fee = i64_wrap (fee_rate * int (EstimateTxWeight 0 0 2420));
                 (accumulated, est_fee) = estimate_pass target fee_rate 0 0 base_fee candidates
             in if accumulated < i64_wrap (target + est_fee) then failed_selection target
                else
                  let (inputs, accumulated', est_fee') = select_pass target fee_rate 0 0 est_fee candidates;
                      change = i64_wrap (i64_wrap (accumulated' - target) - est_fee');
                      dust = DustForFeeRate fee_rate;
                      (fee, change') = (if change > 0 \<and> change < dust
                        then (i64_wrap (est_fee' + change), 0) else (est_fee', change))
                  in \<lparr>sel_inputs = inputs, sel_total = accumulated', sel_target = target,
                      sel_change = change', sel_fee = fee,
                      sel_success = (accumulated' \<ge> i64_wrap (target + fee))\<rparr>)"

text \<open>What \<^verbatim>\<open>std::sort\<close> promises with the comparison the code gives it.\<close>

locale value_sort =
  fixes srt :: "utxo_entry list \<Rightarrow> utxo_entry list"
  assumes same_entries: "mset (srt xs) = mset xs"
    and descending: "sorted_wrt (\<lambda>a b. entry_value a \<ge> entry_value b) (srt xs)"

definition sort_by_value :: "utxo_entry list \<Rightarrow> utxo_entry list" where
  "sort_by_value = sort_key (\<lambda>e. - entry_value e)"

interpretation stable: value_sort sort_by_value
proof
  fix xs
  show "mset (sort_by_value xs) = mset xs" by (simp add: sort_by_value_def)
  have "sorted (map (\<lambda>e. - entry_value e) (sort_by_value xs))" by (simp add: sort_by_value_def)
  then show "sorted_wrt (\<lambda>a b. entry_value a \<ge> entry_value b) (sort_by_value xs)"
    by (simp add: sorted_map)
qed

section \<open>Fee estimation\<close>

record fee_sample =
  fs_height :: u32
  fs_median_feerate :: i64
  fs_p10_feerate :: i64
  fs_tx_count :: nat

record fee_estimate =
  fe_economy_feerate :: i64
  fe_normal_feerate :: i64
  fe_priority_feerate :: i64
  fe_economy_blocks :: u32
  fe_normal_blocks :: u32
  fe_priority_blocks :: u32

definition WINDOW_SIZE :: nat where "WINDOW_SIZE = 100"
definition DEFAULT_FEERATE :: i64 where "DEFAULT_FEERATE = 10"
definition MinFeerate :: i64 where "MinFeerate = 1"

definition RecordBlock :: "u32 \<Rightarrow> i64 list \<Rightarrow> fee_sample list \<Rightarrow> fee_sample list" where
  "RecordBlock height tx_feerates samples =
     (if tx_feerates = [] then samples
      else
        let sorted = sort tx_feerates;
            sample = \<lparr>fs_height = height, fs_median_feerate = sorted ! (length sorted div 2),
              fs_p10_feerate = sorted ! min (length sorted div 10) (length sorted - 1),
              fs_tx_count = length tx_feerates\<rparr>;
            samples' = samples @ [sample]
        in if length samples' > WINDOW_SIZE then drop 1 samples' else samples')"

definition HasEnoughData :: "fee_sample list \<Rightarrow> bool" where
  "HasEnoughData samples \<longleftrightarrow> length samples \<ge> 3"

definition sum_recent :: "(fee_sample \<Rightarrow> i64) \<Rightarrow> fee_sample list \<Rightarrow> i64" where
  "sum_recent f samples = foldl (\<lambda>acc s. i64_wrap (acc + f s)) 0 samples"

definition Estimate :: "fee_sample list \<Rightarrow> fee_estimate" where
  "Estimate samples =
     (if samples = [] then
        \<lparr>fe_economy_feerate = DEFAULT_FEERATE, fe_normal_feerate = DEFAULT_FEERATE * 2,
         fe_priority_feerate = DEFAULT_FEERATE * 5, fe_economy_blocks = 0, fe_normal_blocks = 0,
         fe_priority_blocks = 0\<rparr>
      else
        let recent = min (length samples) 10;
            window = drop (length samples - recent) samples;
            sum_p10 = sum_recent fs_p10_feerate window;
            sum_median = sum_recent fs_median_feerate window;
            sum_p90 = sum_recent (\<lambda>s. i64_wrap (fs_median_feerate s * 2)) window;
            count = int recent
        in \<lparr>fe_economy_feerate = max (trunc_div sum_p10 count) MinFeerate,
            fe_normal_feerate = max (trunc_div sum_median count) MinFeerate,
            fe_priority_feerate = max (trunc_div sum_p90 count) MinFeerate,
            fe_economy_blocks = 6, fe_normal_blocks = 3, fe_priority_blocks = 1\<rparr>)"

section \<open>What selection does\<close>

text \<open>Inputs for which none of the signed operations overflows.\<close>

definition selection_range :: "utxo_entry list \<Rightarrow> i64 \<Rightarrow> i64 \<Rightarrow> bool" where
  "selection_range utxos target fee_rate \<longleftrightarrow>
     (\<forall>e \<in> set utxos. 0 \<le> entry_value e) \<and> sum_list (map entry_value utxos) \<le> INT64_MAX \<and>
     0 < target \<and> 0 \<le> fee_rate \<and>
     target + fee_rate * int (EstimateTxWeight (length utxos) 1 2420) \<le> INT64_MAX"

definition fee_for :: "i64 \<Rightarrow> nat \<Rightarrow> i64" where
  "fee_for fee_rate n = fee_rate * int (EstimateTxWeight n 1 2420)"

text \<open>Whether some coins of the given total value pay the target and the fee for their number.\<close>

definition pays :: "i64 \<Rightarrow> i64 \<Rightarrow> nat \<Rightarrow> i64 \<Rightarrow> bool" where
  "pays target fee_rate n value \<longleftrightarrow> value \<ge> target + fee_for fee_rate n"

abbreviation value_of :: "utxo_entry list \<Rightarrow> i64" where
  "value_of es \<equiv> sum_list (map entry_value es)"

lemma EstimateTxWeight_mono: "m \<le> n \<Longrightarrow> EstimateTxWeight m k s \<le> EstimateTxWeight n k s"
  by (simp add: EstimateTxWeight_def)

lemma fee_for_mono: "0 \<le> fee_rate \<Longrightarrow> m \<le> n \<Longrightarrow> fee_for fee_rate m \<le> fee_for fee_rate n"
  unfolding fee_for_def by (intro mult_left_mono) (simp_all add: EstimateTxWeight_mono)

lemma fee_for_nonneg: "0 \<le> fee_rate \<Longrightarrow> 0 \<le> fee_for fee_rate n"
  by (simp add: fee_for_def)

lemma value_of_nonneg: "\<forall>e \<in> set es. 0 \<le> entry_value e \<Longrightarrow> 0 \<le> value_of es"
  by (intro sum_list_nonneg) auto

lemma value_of_mset: "mset xs = mset ys \<Longrightarrow> value_of xs = value_of ys"
  by (metis mset_map sum_mset_sum_list)

lemma in_range:
  assumes "selection_range utxos target fee_rate" and "mset (xs @ ys) = mset utxos" and "n \<le> length utxos"
  shows "0 \<le> value_of xs" and "i64_ok (value_of xs)" and "estimated_fee fee_rate n = fee_for fee_rate n"
    and "i64_wrap (target + fee_for fee_rate n) = target + fee_for fee_rate n"
proof -
  have set: "set (xs @ ys) = set utxos" using assms(2) mset_eq_setD by blast
  then have pos: "\<forall>e \<in> set xs. 0 \<le> entry_value e" "\<forall>e \<in> set ys. 0 \<le> entry_value e"
    using assms(1) by (auto simp: selection_range_def)
  have "value_of utxos = value_of xs + value_of ys"
    using value_of_mset [OF assms(2)] by simp
  with value_of_nonneg [OF pos(1)] value_of_nonneg [OF pos(2)] assms(1)
  show "0 \<le> value_of xs" and "i64_ok (value_of xs)"
    by (auto simp: selection_range_def i64_ok_def)
  have "0 \<le> fee_for fee_rate n" "fee_for fee_rate n \<le> fee_for fee_rate (length utxos)"
    "0 < target" "target + fee_for fee_rate (length utxos) \<le> INT64_MAX"
    using assms(1,3) fee_for_mono fee_for_nonneg by (auto simp: selection_range_def fee_for_def)
  then show "estimated_fee fee_rate n = fee_for fee_rate n"
    and "i64_wrap (target + fee_for fee_rate n) = target + fee_for fee_rate n"
    by (simp_all add: estimated_fee_def fee_for_def i64_ok_def)
qed

lemma passes_stop:
  assumes "selection_range utxos target fee_rate" and "mset (pre @ rest) = mset utxos" and "pre \<noteq> []"
  shows "\<exists>m \<le> length rest.
    estimate_pass target fee_rate (length pre) (value_of pre) (fee_for fee_rate (length pre)) rest
      = (value_of (pre @ take m rest), fee_for fee_rate (length pre + m)) \<and>
    select_pass target fee_rate (length pre) (value_of pre) (fee_for fee_rate (length pre)) rest
      = (take m rest, value_of (pre @ take m rest), fee_for fee_rate (length pre + m)) \<and>
    (m = length rest \<or> pays target fee_rate (length pre + m) (value_of (pre @ take m rest))) \<and>
    (\<forall>j < m. \<not> pays target fee_rate (length pre + j) (value_of (pre @ take j rest)))"
  using assms(2,3)
proof (induction rest arbitrary: pre)
  case Nil
  then show ?case by simp
next
  case (Cons e rest)
  have len: "length pre + length (e # rest) = length utxos" by (metis Cons.prems(1) length_append size_mset)
  note r = in_range [OF assms(1) Cons.prems(1), of "length pre"]
  show ?case
  proof (cases "pays target fee_rate (length pre) (value_of pre)")
    case True
    then show ?thesis using r len Cons.prems(2) by (intro exI [of _ 0]) (simp add: pays_def)
  next
    case False
    have next_pre: "mset ((pre @ [e]) @ rest) = mset utxos" using Cons.prems(1) by simp
    note r' = in_range [OF assms(1) next_pre, of "Suc (length pre)"]
    obtain m where "m \<le> length rest"
      "estimate_pass target fee_rate (Suc (length pre)) (value_of (pre @ [e])) (fee_for fee_rate (Suc (length pre))) rest
        = (value_of (pre @ e # take m rest), fee_for fee_rate (Suc (length pre + m)))"
      "select_pass target fee_rate (Suc (length pre)) (value_of (pre @ [e])) (fee_for fee_rate (Suc (length pre))) rest
        = (take m rest, value_of (pre @ e # take m rest), fee_for fee_rate (Suc (length pre + m)))"
      "m = length rest \<or> pays target fee_rate (Suc (length pre + m)) (value_of (pre @ e # take m rest))"
      "\<forall>j < m. \<not> pays target fee_rate (Suc (length pre + j)) (value_of (pre @ e # take j rest))"
      using Cons.IH [OF next_pre] by auto
    moreover have "\<forall>j < Suc m. \<not> pays target fee_rate (length pre + j) (value_of (pre @ take j (e # rest)))"
      using calculation(5) False by (auto simp: less_Suc_eq_0_disj)
    ultimately show ?thesis
      using False r r' len by (intro exI [of _ "Suc m"]) (simp add: pays_def)
  qed
qed

lemma both_passes:
  assumes "selection_range utxos target fee_rate" and "mset cs = mset utxos" and "cs \<noteq> []"
  shows "\<exists>m. 1 \<le> m \<and> m \<le> length cs \<and>
    estimate_pass target fee_rate 0 0 (i64_wrap (fee_rate * int (EstimateTxWeight 0 0 2420))) cs
      = (value_of (take m cs), fee_for fee_rate m) \<and>
    (\<forall>f. select_pass target fee_rate 0 0 f cs = (take m cs, value_of (take m cs), fee_for fee_rate m)) \<and>
    (m = length cs \<or> pays target fee_rate m (value_of (take m cs))) \<and>
    (\<forall>j. 1 \<le> j \<and> j < m \<longrightarrow> \<not> pays target fee_rate j (value_of (take j cs)))"
proof -
  obtain e rest where cs: "cs = e # rest" using assms(3) by (cases cs) auto
  have pre: "mset ([e] @ rest) = mset utxos" using assms(2) cs by simp
  have len: "1 \<le> length utxos" using pre by (metis One_nat_def Suc_leI append_Cons length_greater_0_conv list.discI mset_zero_iff_right)
  note r = in_range [OF assms(1) pre len]
  define b where "b = fee_rate * int (EstimateTxWeight 0 0 2420)"
  have "b \<le> fee_for fee_rate (length utxos)" "0 \<le> b"
    unfolding fee_for_def b_def using assms(1)
    by (auto simp: selection_range_def EstimateTxWeight_def intro!: mult_left_mono)
  moreover have "target + fee_for fee_rate (length utxos) \<le> INT64_MAX" "0 < target"
    using assms(1) by (simp_all add: selection_range_def fee_for_def)
  ultimately have base: "i64_wrap b = b" "i64_wrap (target + b) = target + b" "0 < target + b"
    by (auto simp: i64_ok_def intro!: i64_wrap_id)
  obtain m where m: "m \<le> length rest"
    "estimate_pass target fee_rate 1 (value_of [e]) (fee_for fee_rate 1) rest = (value_of (e # take m rest), fee_for fee_rate (Suc m))"
    "select_pass target fee_rate 1 (value_of [e]) (fee_for fee_rate 1) rest
      = (take m rest, value_of (e # take m rest), fee_for fee_rate (Suc m))"
    "m = length rest \<or> pays target fee_rate (Suc m) (value_of (e # take m rest))"
    "\<forall>j < m. \<not> pays target fee_rate (Suc j) (value_of (e # take j rest))"
    using passes_stop [OF assms(1) pre] by auto
  have "estimate_pass target fee_rate 0 0 (i64_wrap (fee_rate * int (EstimateTxWeight 0 0 2420))) cs
      = (value_of (e # take m rest), fee_for fee_rate (Suc m))"
    using m(2) r base by (simp add: cs b_def [symmetric])
  moreover have "select_pass target fee_rate 0 0 f cs = (e # take m rest, value_of (e # take m rest), fee_for fee_rate (Suc m))" for f
    using m(3) r by (simp add: cs)
  moreover have "\<not> pays target fee_rate j (value_of (take j cs))" if "1 \<le> j" "j < Suc m" for j
    using m(5) that by (cases j) (auto simp: cs)
  ultimately show ?thesis
    using m(1,4) by (intro exI [of _ "Suc m"]) (simp add: cs)
qed

lemma foldl_total:
  assumes "selection_range utxos target fee_rate" and "mset (xs @ ys) = mset utxos"
  shows "foldl (\<lambda>total entry. i64_wrap (total + entry_value entry)) (value_of xs) ys = value_of utxos"
  using assms(2)
proof (induction ys arbitrary: xs)
  case Nil
  then show ?case using value_of_mset [of xs utxos] by simp
next
  case (Cons e ys)
  have pre: "mset ((xs @ [e]) @ ys) = mset utxos" using Cons.prems by simp
  then show ?case
    using Cons.IH [OF pre] in_range(2) [OF assms(1) pre, of 0] by simp
qed

lemma value_take_le:
  assumes "selection_range utxos target fee_rate" and "mset cs = mset utxos"
  shows "value_of (take j cs) \<le> value_of utxos"
proof -
  have "mset (drop j cs @ take j cs) = mset utxos"
    using assms(2) by (metis append_take_drop_id mset_append union_commute)
  from in_range(1) [OF assms(1) this, of 0] show ?thesis
    using value_of_mset [OF assms(2)] sum_list_append [of "map entry_value (take j cs)" "map entry_value (drop j cs)"]
    by (simp flip: map_append)
qed

lemma SelectCoins_result:
  assumes "selection_range utxos target fee_rate" and "mset (srt utxos) = mset utxos"
  defines "cs \<equiv> srt utxos"
  shows "(\<exists>m. 1 \<le> m \<and> m \<le> length utxos \<and> pays target fee_rate m (value_of (take m cs)) \<and>
      (\<forall>j. 1 \<le> j \<and> j < m \<longrightarrow> \<not> pays target fee_rate j (value_of (take j cs))) \<and>
      (let change = value_of (take m cs) - target - fee_for fee_rate m;
           dusty = (0 < change \<and> change < DustForFeeRate fee_rate)
       in SelectCoins srt utxos target fee_rate =
         \<lparr>sel_inputs = take m cs, sel_total = value_of (take m cs), sel_target = target,
          sel_change = (if dusty then 0 else change),
          sel_fee = fee_for fee_rate m + (if dusty then change else 0), sel_success = True\<rparr>)) \<or>
    (\<forall>j. 1 \<le> j \<and> j \<le> length utxos \<longrightarrow> \<not> pays target fee_rate j (value_of (take j cs))) \<and>
      SelectCoins srt utxos target fee_rate = failed_selection target"
proof (cases "utxos = []")
  case True
  then show ?thesis by (simp add: SelectCoins_def)
next
  case False
  have target: "0 < target" using assms(1) by (simp add: selection_range_def)
  have cs: "mset cs = mset utxos" "length cs = length utxos" "cs \<noteq> []"
    using assms(2) False by (auto simp: cs_def dest: mset_eq_length)
  obtain m where m: "1 \<le> m" "m \<le> length cs"
    and p1: "estimate_pass target fee_rate 0 0 (i64_wrap (fee_rate * int (EstimateTxWeight 0 0 2420))) cs
      = (value_of (take m cs), fee_for fee_rate m)"
    and p2: "\<And>f. select_pass target fee_rate 0 0 f cs = (take m cs, value_of (take m cs), fee_for fee_rate m)"
    and stop: "m = length cs \<or> pays target fee_rate m (value_of (take m cs))"
    and least: "\<forall>j. 1 \<le> j \<and> j < m \<longrightarrow> \<not> pays target fee_rate j (value_of (take j cs))"
    using both_passes [OF assms(1) cs(1,3)] by auto
  have all: "mset (take m cs @ drop m cs) = mset utxos" using cs by simp
  have m_le: "m \<le> length utxos" using m(2) cs(2) by simp
  note r = in_range [OF assms(1) all m_le]
  have total: "foldl (\<lambda>total entry. i64_wrap (total + entry_value entry)) 0 cs = value_of utxos"
    using foldl_total [OF assms(1), of "[]" cs] cs by simp
  have unfolded: "SelectCoins srt utxos target fee_rate =
     (if value_of utxos < target then failed_selection target
      else if value_of (take m cs) < target + fee_for fee_rate m then failed_selection target
      else
        let change = i64_wrap (i64_wrap (value_of (take m cs) - target) - fee_for fee_rate m);
            dust = DustForFeeRate fee_rate;
            (fee, change') = (if change > 0 \<and> change < dust
              then (i64_wrap (fee_for fee_rate m + change), 0) else (fee_for fee_rate m, change))
        in \<lparr>sel_inputs = take m cs, sel_total = value_of (take m cs), sel_target = target,
            sel_change = change', sel_fee = fee,
            sel_success = (value_of (take m cs) \<ge> i64_wrap (target + fee))\<rparr>)"
    using target False m r total p1 p2 cs(2)
    by (simp add: SelectCoins_def cs_def [symmetric] Let_def)
  show ?thesis
  proof (cases "pays target fee_rate m (value_of (take m cs))")
    case True
    then have paid: "target + fee_for fee_rate m \<le> value_of (take m cs)" by (simp add: pays_def)
    have fee: "0 \<le> fee_for fee_rate m" using assms(1) fee_for_nonneg by (simp add: selection_range_def)
    have "i64_wrap (value_of (take m cs) - target) = value_of (take m cs) - target"
      "i64_wrap (value_of (take m cs) - target - fee_for fee_rate m) = value_of (take m cs) - target - fee_for fee_rate m"
      "i64_wrap (fee_for fee_rate m + (value_of (take m cs) - target - fee_for fee_rate m)) = value_of (take m cs) - target"
      using r(2) paid fee target by (auto simp: i64_ok_def intro!: i64_wrap_id)
    moreover have "i64_wrap (target + (value_of (take m cs) - target)) = value_of (take m cs)" using r(2) by simp
    moreover have "\<not> value_of utxos < target" using paid fee value_take_le [OF assms(1) cs(1), of m] by linarith
    ultimately have "let change = value_of (take m cs) - target - fee_for fee_rate m;
           dusty = (0 < change \<and> change < DustForFeeRate fee_rate)
       in SelectCoins srt utxos target fee_rate =
         \<lparr>sel_inputs = take m cs, sel_total = value_of (take m cs), sel_target = target,
          sel_change = (if dusty then 0 else change),
          sel_fee = fee_for fee_rate m + (if dusty then change else 0), sel_success = True\<rparr>"
      using paid r(4) m(2) cs(2) unfolding unfolded by (auto simp: Let_def)
    with True m cs(2) least show ?thesis by (intro disjI1 exI [of _ m]) simp
  next
    case False
    then have "\<forall>j. 1 \<le> j \<and> j \<le> length utxos \<longrightarrow> \<not> pays target fee_rate j (value_of (take j cs))"
      using least stop cs(2) by (metis le_neq_implies_less)
    moreover have "SelectCoins srt utxos target fee_rate = failed_selection target"
      using False unfolding unfolded by (simp add: pays_def)
    ultimately show ?thesis by blast
  qed
qed

text \<open>No set of coins of the same number is worth more than the first ones of the sorted list.\<close>

lemma top_coins_are_most:
  assumes "sorted_wrt (\<lambda>a b. entry_value a \<ge> entry_value b) cs" and "S \<subseteq># mset cs"
  shows "(\<Sum>e \<in># S. entry_value e) \<le> value_of (take (size S) cs)"
  using assms
proof (induction cs arbitrary: S)
  case Nil
  then show ?case by simp
next
  case (Cons x xs)
  show ?case
  proof (cases "S = {#}")
    case False
    have rest: "S - {#x#} \<subseteq># mset xs" using Cons.prems(2) by (simp add: subset_eq_diff_conv)
    obtain z where z: "z \<in># S" using False by (metis multiset_nonemptyE)
    have drop_z: "S - {#z#} \<subseteq># S" by (rule diff_subset_eq_self)
    obtain y where y: "y \<in># S" "S - {#y#} \<subseteq># mset xs"
    proof (cases "x \<in># S")
      case True
      then show thesis using rest that by blast
    next
      case False
      then have "S \<subseteq># mset xs" using rest by (simp add: diff_single_trivial)
      then show thesis using z drop_z that [of z] subset_mset.order_trans by blast
    qed
    have "y \<in> set (x # xs)" using y(1) Cons.prems(2) by (metis mset_subset_eqD set_mset_mset)
    then have "entry_value y \<le> entry_value x" using Cons.prems(1) by auto
    moreover obtain T where T: "S = add_mset y T" using multi_member_split [OF y(1)] by blast
    moreover have "(\<Sum>e \<in># T. entry_value e) \<le> value_of (take (size T) xs)"
      using Cons.IH [of T] Cons.prems(1) y(2) T by simp
    ultimately show ?thesis by simp
  qed simp
qed

context value_sort
begin

lemma selection_balances:
  assumes "selection_range utxos target fee_rate" and "sel_success (SelectCoins srt utxos target fee_rate)"
  defines "r \<equiv> SelectCoins srt utxos target fee_rate"
  shows "mset (sel_inputs r) \<subseteq># mset utxos" and "sel_total r = value_of (sel_inputs r)"
    and "sel_total r = target + sel_fee r + sel_change r"
    and "sel_change r = 0 \<or> 0 < sel_change r \<and> DustForFeeRate fee_rate \<le> sel_change r"
    and "fee_for fee_rate (length (sel_inputs r)) \<le> sel_fee r"
proof -
  obtain m where m: "m \<le> length (srt utxos)" "pays target fee_rate m (value_of (take m (srt utxos)))"
    and r: "r = (let change = value_of (take m (srt utxos)) - target - fee_for fee_rate m;
         dusty = (0 < change \<and> change < DustForFeeRate fee_rate)
       in \<lparr>sel_inputs = take m (srt utxos), sel_total = value_of (take m (srt utxos)), sel_target = target,
          sel_change = (if dusty then 0 else change),
          sel_fee = fee_for fee_rate m + (if dusty then change else 0), sel_success = True\<rparr>)"
    using SelectCoins_result [where srt = srt, OF assms(1) same_entries] assms(2) mset_eq_length [OF same_entries [of utxos]]
    by (auto simp: failed_selection_def r_def Let_def)
  have "mset (take m (srt utxos)) \<subseteq># mset (srt utxos)"
    by (metis append_take_drop_id mset_append mset_subset_eq_add_left)
  with m r show "mset (sel_inputs r) \<subseteq># mset utxos" and "sel_total r = value_of (sel_inputs r)"
    and "sel_total r = target + sel_fee r + sel_change r"
    and "sel_change r = 0 \<or> 0 < sel_change r \<and> DustForFeeRate fee_rate \<le> sel_change r"
    and "fee_for fee_rate (length (sel_inputs r)) \<le> sel_fee r"
    by (auto simp: Let_def same_entries pays_def)
qed

lemma selection_fewest:
  assumes "selection_range utxos target fee_rate" and "S \<subseteq># mset utxos" and "S \<noteq> {#}"
    and "pays target fee_rate (size S) (\<Sum>e \<in># S. entry_value e)"
  shows "sel_success (SelectCoins srt utxos target fee_rate)"
    and "length (sel_inputs (SelectCoins srt utxos target fee_rate)) \<le> size S"
proof -
  let ?cs = "srt utxos"
  have "(\<Sum>e \<in># S. entry_value e) \<le> value_of (take (size S) ?cs)"
    using top_coins_are_most [OF descending] assms(2) by (simp add: same_entries)
  then have top: "pays target fee_rate (size S) (value_of (take (size S) ?cs))"
    using assms(4) by (simp add: pays_def)
  have bounds: "1 \<le> size S" "size S \<le> length utxos"
    using assms(2,3) size_mset_mono [OF assms(2)] by (auto simp: Suc_le_eq nonempty_has_size)
  from SelectCoins_result [where srt = srt, OF assms(1) same_entries] top bounds
  obtain m where "m \<le> size S" "sel_success (SelectCoins srt utxos target fee_rate)"
    "sel_inputs (SelectCoins srt utxos target fee_rate) = take m ?cs"
    by (auto simp: Let_def) (metis linorder_not_le)
  then show "sel_success (SelectCoins srt utxos target fee_rate)"
    and "length (sel_inputs (SelectCoins srt utxos target fee_rate)) \<le> size S" by simp_all
qed

end


text \<open>
  Property C39. Selection finds a payment whenever there is one, with the fewest inputs: if
  any non-empty group of the wallet's coins is worth the target plus the fee for its size,
  selection succeeds and uses at most that many inputs.
\<close>

theorem coin_selection_fewest_inputs:
  assumes "value_sort srt" and "selection_range utxos target fee_rate" and "S \<subseteq># mset utxos" and "S \<noteq> {#}"
    and "(\<Sum>e \<in># S. entry_value e) \<ge> target + fee_rate * int (EstimateTxWeight (size S) 1 2420)"
  shows "sel_success (SelectCoins srt utxos target fee_rate) \<and>
    length (sel_inputs (SelectCoins srt utxos target fee_rate)) \<le> size S"
  using value_sort.selection_fewest [OF assms(1,2,3,4)] assms(5) by (simp add: pays_def fee_for_def)

definition example_utxo :: "i64 \<Rightarrow> utxo_entry" where
  "example_utxo amount =
     \<lparr>ue_outpoint = \<lparr>op_txid = Hash256_zero, op_index = 0\<rparr>,
      ue_coin = \<lparr>coin_output = \<lparr>out_amount = amount, out_lock = \<lparr>lock_version = 1, lock_program = []\<rparr>\<rparr>,
        coin_height = 1, coin_is_coinbase = False\<rparr>,
      ue_confirmed = True, ue_account_id = 0, ue_derivation_index = 0\<rparr>"

lemma example_range: "selection_range [example_utxo 2000, example_utxo 9000] 5000 1"
  by (simp add: selection_range_def example_utxo_def EstimateTxWeight_def InputWeight_def OUTPUT_WEIGHT_def
      WITNESS_SCALE_FACTOR_def)

theorem coin_selection_fewest_inputs_witness:
  "sel_success (SelectCoins sort_by_value [example_utxo 2000, example_utxo 9000] 5000 1) \<and>
   length (sel_inputs (SelectCoins sort_by_value [example_utxo 2000, example_utxo 9000] 5000 1)) \<le> 1"
  using coin_selection_fewest_inputs [OF stable.value_sort_axioms example_range, of "{#example_utxo 9000#}"]
  by (simp add: example_utxo_def EstimateTxWeight_def InputWeight_def OUTPUT_WEIGHT_def WITNESS_SCALE_FACTOR_def)


section \<open>What the estimator does\<close>

text \<open>Every fee rate seen is in a range in which ten of them, doubled, can be summed.\<close>

definition MAX_RATE :: i64 where "MAX_RATE = 2 ^ 58"

definition sample_ok :: "fee_sample \<Rightarrow> bool" where
  "sample_ok s \<longleftrightarrow> 0 \<le> fs_p10_feerate s \<and> fs_p10_feerate s \<le> fs_median_feerate s \<and> fs_median_feerate s \<le> MAX_RATE"

definition estimator_ok :: "fee_sample list \<Rightarrow> bool" where
  "estimator_ok samples \<longleftrightarrow> length samples \<le> WINDOW_SIZE \<and> list_all sample_ok samples"

definition replay_blocks :: "(u32 \<times> i64 list) list \<Rightarrow> fee_sample list" where
  "replay_blocks blocks = fold (\<lambda>(height, rates). RecordBlock height rates) blocks []"

lemma RecordBlock_ok:
  assumes "estimator_ok samples" and "\<forall>r \<in> set rates. 0 \<le> r \<and> r \<le> MAX_RATE"
  shows "estimator_ok (RecordBlock height rates samples)"
proof (cases "rates = []")
  case True
  with assms(1) show ?thesis by (simp add: RecordBlock_def)
next
  case False
  define n where "n = length rates"
  have n: "0 < n" "n div 10 \<le> n div 2" "n div 2 < n" "min (n div 10) (n - 1) \<le> n div 2"
    using False by (simp_all add: n_def div_le_mono2)
  have "sort rates ! min (n div 10) (n - 1) \<le> sort rates ! (n div 2)"
    using n by (intro sorted_nth_mono) (simp_all add: n_def)
  moreover have "0 \<le> sort rates ! k \<and> sort rates ! k \<le> MAX_RATE" if "k < n" for k
    using assms(2) that by (metis length_sort n_def nth_mem set_sort)
  ultimately have "sample_ok \<lparr>fs_height = height, fs_median_feerate = sort rates ! (n div 2),
      fs_p10_feerate = sort rates ! min (n div 10) (n - 1), fs_tx_count = n\<rparr>"
    using n by (simp add: sample_ok_def)
  with assms(1) False show ?thesis
    by (auto simp: RecordBlock_def Let_def estimator_ok_def n_def WINDOW_SIZE_def list_all_iff dest: in_set_dropD)
qed

lemma sum_recent_exact:
  assumes "\<forall>s \<in> set ss. 0 \<le> f s \<and> f s \<le> B" and "int (length ss) * B \<le> INT64_MAX"
  shows "sum_recent f ss = sum_list (map f ss)"
proof -
  have "foldl (\<lambda>acc s. i64_wrap (acc + f s)) a xs = a + sum_list (map f xs)"
    if "\<forall>s \<in> set xs. 0 \<le> f s \<and> f s \<le> B" "0 \<le> a" "a + int (length xs) * B \<le> INT64_MAX" for a xs
    using that
  proof (induction xs arbitrary: a)
    case (Cons s xs)
    have "0 \<le> int (length xs) * B" "int (length (s # xs)) * B = B + int (length xs) * B" "0 \<le> f s" "f s \<le> B"
      using Cons.prems(1) by (auto simp: distrib_right intro!: mult_nonneg_nonneg)
    then have "a + f s \<le> INT64_MAX" "0 \<le> a + f s" "a + f s + int (length xs) * B \<le> INT64_MAX"
      using Cons.prems(2,3) by linarith+
    moreover from this have "i64_wrap (a + f s) = a + f s" by (intro i64_wrap_id) (simp add: i64_ok_def)
    ultimately show ?case using Cons by simp
  qed simp
  from this [of ss 0] assms show ?thesis by (simp add: sum_recent_def)
qed

lemma Estimate_ordered:
  assumes "estimator_ok samples"
  shows "1 \<le> fe_economy_feerate (Estimate samples) \<and>
    fe_economy_feerate (Estimate samples) \<le> fe_normal_feerate (Estimate samples) \<and>
    fe_normal_feerate (Estimate samples) \<le> fe_priority_feerate (Estimate samples)"
proof (cases "samples = []")
  case True
  then show ?thesis by (simp add: Estimate_def DEFAULT_FEERATE_def)
next
  case False
  define recent where "recent = min (length samples) 10"
  define ss where "ss = drop (length samples - recent) samples"
  have ss: "\<forall>s \<in> set ss. sample_ok s" and len: "length ss = recent" "0 < recent" "recent \<le> 10"
    using assms False by (auto simp: ss_def recent_def estimator_ok_def list_all_iff dest: in_set_dropD)
  have wrap: "i64_wrap (fs_median_feerate s * 2) = fs_median_feerate s * 2" if "s \<in> set ss" for s
    using ss that by (intro i64_wrap_id) (auto simp: i64_ok_def sample_ok_def MAX_RATE_def)
  have room: "int (length ss) * (2 * MAX_RATE) \<le> INT64_MAX" using len by (simp add: MAX_RATE_def)
  have exact: "sum_recent f ss = sum_list (map f ss)" if "\<forall>s \<in> set ss. 0 \<le> f s \<and> f s \<le> 2 * MAX_RATE" for f
    by (rule sum_recent_exact [OF that room])
  have sums: "sum_recent fs_p10_feerate ss = sum_list (map fs_p10_feerate ss)"
    "sum_recent fs_median_feerate ss = sum_list (map fs_median_feerate ss)"
    "sum_recent (\<lambda>s. i64_wrap (fs_median_feerate s * 2)) ss = sum_list (map (\<lambda>s. fs_median_feerate s * 2) ss)"
  proof -
    show "sum_recent fs_p10_feerate ss = sum_list (map fs_p10_feerate ss)"
      "sum_recent fs_median_feerate ss = sum_list (map fs_median_feerate ss)"
      using ss by (auto intro!: exact simp: sample_ok_def MAX_RATE_def)
    have "sum_recent (\<lambda>s. i64_wrap (fs_median_feerate s * 2)) ss = sum_list (map (\<lambda>s. i64_wrap (fs_median_feerate s * 2)) ss)"
      using ss wrap by (intro exact) (auto simp: sample_ok_def)
    then show "sum_recent (\<lambda>s. i64_wrap (fs_median_feerate s * 2)) ss = sum_list (map (\<lambda>s. fs_median_feerate s * 2) ss)"
      using wrap by (metis (mono_tags, lifting) map_cong)
  qed
  have le: "sum_list (map fs_p10_feerate ss) \<le> sum_list (map fs_median_feerate ss)"
    "sum_list (map fs_median_feerate ss) \<le> sum_list (map (\<lambda>s. fs_median_feerate s * 2) ss)"
    "0 \<le> sum_list (map fs_p10_feerate ss)"
    using ss by (auto intro!: sum_list_mono sum_list_nonneg simp: sample_ok_def)
  then have "trunc_div (sum_list (map fs_p10_feerate ss)) (int recent) \<le> trunc_div (sum_list (map fs_median_feerate ss)) (int recent)"
    "trunc_div (sum_list (map fs_median_feerate ss)) (int recent) \<le> trunc_div (sum_list (map (\<lambda>s. fs_median_feerate s * 2) ss)) (int recent)"
    using len by (auto simp: trunc_div_nonneg intro!: zdiv_mono1)
  then show ?thesis
    using False unfolding Estimate_def
    by (simp add: Let_def recent_def [symmetric] ss_def [symmetric] sums MinFeerate_def le_max_iff_disj) linarith
qed



end
