(* ===== verification/Spec2Isabelle.thy ===== *)
theory Spec2Isabelle
  imports Lifecycle Assembler PeerManager Address WalletDb CoinSelect
begin

text \<open>
  \<^bold>\<open>Amarian: a verification development of the consensus core\<close>

  Amarian is a proof-of-work blockchain node in C++. This development models its consensus code
  as executable definitions and proves the properties that make it correct. File names below are
  relative to \<^verbatim>\<open>src/\<close> and \<^verbatim>\<open>include/amarian/\<close> of the repository.

  \<^bold>\<open>The parts and how they interact.\<close> Bytes arrive from the network or from disk and are decoded by
  the strict reader (\<^verbatim>\<open>util/serialize\<close>) into transactions, headers and blocks (\<^verbatim>\<open>primitives\<close>). A
  block's header is judged by its proof of work (\<^verbatim>\<open>consensus/target\<close>) and its place in the chain, its
  body by the context-free rules (\<^verbatim>\<open>consensus/validation\<close>), which call the hashes and the signature
  schemes (\<^verbatim>\<open>crypto\<close>, \<^verbatim>\<open>primitives/sighash\<close>, \<^verbatim>\<open>primitives/merkle\<close>). A block is then connected to the
  set of unspent coins (\<^verbatim>\<open>utxo/connect\<close>, \<^verbatim>\<open>utxo/coins\<close>), which checks every spend and pays at most
  the scheduled reward (\<^verbatim>\<open>consensus/issuance\<close>); the undo record written then lets a
  reorganisation disconnect it. Headers form a tree (\<^verbatim>\<open>chain/block_index\<close>) whose branches are compared
  by accumulated work (\<^verbatim>\<open>consensus/work\<close>); the chain state (\<^verbatim>\<open>chain/chain_state\<close>) accepts headers and
  bodies and moves the coins to the best branch whose bodies it has. Transactions not yet in a block
  wait in the pool (\<^verbatim>\<open>mempool\<close>), which the node's keeper (\<^verbatim>\<open>node/amariand.cpp\<close>) keeps in step with the
  chain, and from which the assembler (\<^verbatim>\<open>mining/block_assembler\<close>) builds the next block. Peers (\<^verbatim>\<open>net\<close>) exchange framed
  messages after a handshake, and what they send reaches the chain state and the pool only through the
  operations above.

  \<^bold>\<open>The theories.\<close>
  \<^item> \<open>Prelude\<close>: word and byte types, 64-bit wrap-around, little- and big-endian values, 32-byte
    arrays, verdicts, and the collections of simplification rules.
  \<^item> \<open>Checked\<close> (\<^verbatim>\<open>util/overflow.hpp\<close>, \<^verbatim>\<open>primitives/amount.hpp\<close>): checked arithmetic in both compiled
    forms, and the monetary bound. The forms agree.
  \<^item> \<open>Serialize\<close> (\<^verbatim>\<open>util/serialize\<close>): the writer as an append function, the reader as a record with its
    sticky failure flag. The locales \<open>step_parser\<close>, \<open>parser\<close> and \<open>codec\<close> state what a decoder promises
    (it inverts its encoder on what may follow, refuses everything else, and never succeeds after a
    failure); combinators build codecs for pairs, vectors and guarded values.
  \<^item> \<open>Hexcodec\<close> (\<^verbatim>\<open>util/hex\<close>, \<^verbatim>\<open>util/types\<close>): hashes as values and strict hex.
  \<^item> \<open>Crypto\<close> (\<^verbatim>\<open>crypto/hash\<close>, \<^verbatim>\<open>crypto/signature\<close>): tagged hashing, the scheme registry, verification.
    The digest and the signature backends of OpenSSL and libsecp256k1 are fields of the parameter
    \<open>crypto_ext\<close>; no theorem assumes anything of them but where absence of collisions on named
    strings is a hypothesis.
  \<^item> \<open>Primitives\<close> (\<^verbatim>\<open>primitives\<close>): records, encodings and decodings; each pair interprets \<open>codec\<close>.
  \<^item> \<open>Commitments\<close> (\<^verbatim>\<open>primitives/sighash\<close>, \<^verbatim>\<open>primitives/merkle\<close>): what a signature and a Merkle root
    commit to.
  \<^item> \<open>Issuance\<close> (\<^verbatim>\<open>consensus/issuance.hpp\<close>): the reward loops, with termination for every 64-bit reward,
    and their totals.
  \<^item> \<open>Target\<close>, \<open>Work\<close> (\<^verbatim>\<open>consensus/target\<close>, \<^verbatim>\<open>consensus/work\<close>): byte-array arithmetic given its meaning
    as numbers.
  \<^item> \<open>Asert\<close> (\<^verbatim>\<open>consensus/asert\<close>): the difficulty rule in 320-bit limbs, shown to compute the published
    rule on unbounded integers.
  \<^item> \<open>Params\<close> (\<^verbatim>\<open>consensus/params.hpp\<close>): the parameter sets of the three networks.
  \<^item> \<open>Validation\<close> (\<^verbatim>\<open>consensus/validation\<close>): every rule with its error, and for each rule the
    declarative condition it decides.
  \<^item> \<open>Coins\<close> (\<^verbatim>\<open>utxo/coins\<close>): the layered cache; the locale \<open>lawful_view\<close> is the contract of a view, and
    in it each operation is the operation on partial maps it stands for.
  \<^item> \<open>Connect\<close> (\<^verbatim>\<open>utxo/connect\<close>): connecting, disconnecting and undo records.
  \<^item> \<open>Supply\<close>: the specification of block connection on maps, the refinement proof, the value of the
    set of coins, and a step relation of connections and disconnections with its invariants.
  \<^item> \<open>Genesis\<close> (\<^verbatim>\<open>consensus/genesis\<close>): the first block of a network and its self-check.
  \<^item> \<open>Lifecycle\<close> (\<^verbatim>\<open>consensus/scheme_lifecycle\<close>): scheme states by height.
  \<^item> \<open>BlockIndex\<close> (\<^verbatim>\<open>chain/block_index\<close>): the header tree as an association list from hashes to entries.
    A pointer to an entry is its hash, a null pointer is \<open>None\<close>. The invariant \<open>index_ok\<close> (a tree rooted
    in genesis, distinct sequence numbers, failures closed under children, the best header best) is
    kept by every operation.
  \<^item> \<open>ChainState\<close> (\<^verbatim>\<open>chain/chain_state\<close>, \<^verbatim>\<open>chain/block_store\<close>): acceptance and activation over a block
    store and a sink, which are records of functions; the locale \<open>lawful_store\<close> is what a store promises,
    interpreted by the in-memory store. The invariant \<open>chain_ok\<close> ties the index, the active chain, the
    stored bodies and undo records and the coins together.
  \<^item> \<open>Mempool\<close> and \<open>Pool\<close> (\<^verbatim>\<open>mempool\<close>): the first holds the entries, links and indices, every operation
    and the exact comparison of fee rates; the second the invariant \<open>pool_ok\<close>, that every operation
    keeps it, what replacement costs and what the template selection returns. The hash sets of links
    are duplicate-free lists; the running weight is a 64-bit word in the code and shown never to wrap.
  \<^item> \<open>PoolSync\<close> (class \<^verbatim>\<open>PoolKeeper\<close> of \<^verbatim>\<open>node/amariand.cpp\<close>): the pool beside a changing chain, as the step
    relation \<open>keeper_step\<close>; its invariant \<open>synced\<close> says every entry could be mined next.
  \<^item> \<open>Assembler\<close> (\<^verbatim>\<open>mining/block_assembler\<close>): templates and the nonce search. A solved template is a block
    this node accepts if it is within the weight limit, and a full pool can put it over the limit.
  \<^item> \<open>Wire\<close> (\<^verbatim>\<open>net/message\<close>, \<^verbatim>\<open>net/protocol\<close>): frames and payloads; each payload interprets \<open>codec\<close>.
  \<^item> \<open>Handshake\<close> (\<^verbatim>\<open>net/handshake\<close>, class \<^verbatim>\<open>PeerConnection\<close> of \<^verbatim>\<open>net/peer_manager.cpp\<close>): one connection as a
    machine driven by what its socket completes, with the step relation \<open>connection_step\<close>.
  \<^item> \<open>Sync\<close> (\<^verbatim>\<open>net/sync\<close>): locators and the headers-first machine.
  \<^item> \<open>PeerManager\<close> (\<^verbatim>\<open>net/peer_manager.cpp\<close>, hooks of \<^verbatim>\<open>node/amariand.cpp\<close>): every message handler over the chain
    state and the pool, with the step relation \<open>peer_step\<close> of a node among its peers.
  \<^item> \<open>Bits\<close>: words as strings of bits, for the two regroupings below.
  \<^item> \<open>Address\<close> (\<^verbatim>\<open>wallet/address\<close>): addresses. The checksum is shown to be a linear register, from which
    uniqueness of the checksum and detection of one wrong character follow.
  \<^item> \<open>Mnemonic\<close> (\<^verbatim>\<open>wallet/backup\<close>): the word list as data, and recovery phrases; the theorem says for which
    seeds they work.
  \<^item> \<open>Seed\<close> (\<^verbatim>\<open>wallet/seed\<close>, \<^verbatim>\<open>crypto/random\<close>): randomness, HMAC, HKDF and the derivation of keys.
  \<^item> \<open>CoinSelect\<close> (\<^verbatim>\<open>wallet/coinselection\<close>, \<^verbatim>\<open>wallet/fees\<close>): selection with signed overflow written out, over any
    sort that keeps the contract \<open>value_sort\<close>, and the fee estimator.

  \<^bold>\<open>State and errors.\<close> A C++ structure is a record with its fields; a function that changes its
  argument returns it; \<^verbatim>\<open>std::expected\<close> is a sum whose left values are the code's error enumerators;
  \<^verbatim>\<open>std::optional\<close> is \<open>option\<close>. Fixed-width unsigned integers are words; \<^verbatim>\<open>int64_t\<close> is \<open>int\<close> with
  explicit range checks or wrap-around. A hash map whose iteration order matters is an association
  list in arbitrary order.

  \<^bold>\<open>Loops and bounds.\<close> Loops are recursive functions with termination proofs; no fuel is used. Walks
  along parent pointers and the activation loop, which need not end on an arbitrary state, are
  partial functions whose value \<open>None\<close> means not returning; they are proved to return on every
  reachable state. The
  reward loops end because seven eighths of a positive 64-bit value, computed with wrap-around, is
  smaller. Sizes of containers are natural numbers, and the build is a 64-bit one, so narrowing a
  64-bit count to \<^verbatim>\<open>size_t\<close> never fails.

  \<^bold>\<open>Not modelled.\<close> The socket library, threads, files, LevelDB, logging, user interfaces and process entry points;
  reservations of vector capacity, which do not change values; the hash-table hash of outpoints.
\<close>

end
